(* ===== verification/Virta_Prelude.thy ===== *)
theory Virta_Prelude
  imports Main "HOL-Library.AList" "HOL-Library.Sublist"
begin

text \<open>
  What the components share: the theorem collections, the drop-oldest bounded buffer (a sink's
  ring, a websocket client's send queue, a webhook queue, the scrollback tail, the delivery log
  and the excerpt ring are all instances), and lemmas on association lists, the model of a Go map
  whose iteration order is visible.
\<close>

text \<open>
  \<open>frame\<close>: what an operation leaves alone. \<open>bounded\<close>: the size bounds an operation keeps.
\<close>

named_theorems frame
named_theorems bounded

subsection \<open>The last elements of a list\<close>

definition last_n :: "nat \<Rightarrow> 'a list \<Rightarrow> 'a list" where
  "last_n n xs = drop (length xs - n) xs"

lemma length_last_n [simp]: "length (last_n n xs) = min n (length xs)"
  by (simp add: last_n_def)

lemma last_n_id: "length xs \<le> n \<Longrightarrow> last_n n xs = xs"
  by (simp add: last_n_def)

lemma last_n_Nil [simp]: "last_n n [] = []"
  by (simp add: last_n_def)

lemma last_n_0 [simp]: "last_n 0 xs = []"
  by (simp add: last_n_def)

lemma last_n_append:
  "last_n n (xs @ ys) = last_n (n - length ys) xs @ last_n n ys"
proof (cases "n \<le> length ys")
  case True
  then show ?thesis by (simp add: last_n_def)
next
  case False
  then have "length xs + length ys - n = length xs - (n - length ys)" by simp
  with False show ?thesis by (simp add: last_n_def)
qed

lemma last_n_snoc: "0 < n \<Longrightarrow> last_n n (xs @ [x]) = last_n (n - 1) xs @ [x]"
  by (simp add: last_n_append last_n_id)

lemma last_n_last_n: "last_n m (last_n n xs) = last_n (min m n) xs"
proof (cases "n \<le> length xs")
  case True
  then have "n - m + (length xs - n) = length xs - min m n" by linarith
  with True show ?thesis by (simp add: last_n_def)
next
  case False
  then have "length xs - m = length xs - min m n" by linarith
  with False show ?thesis by (simp add: last_n_def)
qed

lemma last_n_absorb: "last_n n (last_n n xs @ ys) = last_n n (xs @ ys)"
  by (simp add: last_n_append last_n_last_n min_absorb1)

lemma last_n_Suc_full:
  "length xs = n \<Longrightarrow> 0 < n \<Longrightarrow> last_n n (xs @ [x]) = tl xs @ [x]"
  by (cases xs) (auto simp: last_n_def)

lemma set_last_n: "set (last_n n xs) \<subseteq> set xs"
  by (simp add: last_n_def set_drop_subset)

lemma suffix_last_n: "suffix (last_n n xs) xs"
  by (simp add: last_n_def suffix_drop)

lemma map_last_n: "map f (last_n n xs) = last_n n (map f xs)"
  by (simp add: last_n_def drop_map)

subsection \<open>Drop-oldest bounded buffers\<close>

text \<open>
  The contract the code repeats for every bounded buffer: pushing never blocks and never refuses
  the new element; once full, the oldest element goes. A client sees, after any sequence of
  pushes, the most recent \<open>cap\<close> elements in order.
\<close>

locale drop_oldest =
  fixes push :: "'a \<Rightarrow> 'q \<Rightarrow> 'q"
    and contents :: "'q \<Rightarrow> 'a list"
    and cap :: nat
    and wf :: "'q \<Rightarrow> bool"
  assumes cap_pos: "0 < cap"
    and wf_bound: "wf q \<Longrightarrow> length (contents q) \<le> cap"
    and wf_push: "wf q \<Longrightarrow> wf (push x q)"
    and contents_push: "wf q \<Longrightarrow> contents (push x q) = last_n cap (contents q @ [x])"
begin

lemma wf_pushes: "wf q \<Longrightarrow> wf (fold push xs q)"
  by (induction xs arbitrary: q) (auto simp: wf_push)

lemma contents_pushes: "wf q \<Longrightarrow> contents (fold push xs q) = last_n cap (contents q @ xs)"
proof (induction xs arbitrary: q)
  case Nil
  then show ?case by (simp add: wf_bound last_n_id)
next
  case (Cons x xs)
  then show ?case by (simp add: wf_push contents_push last_n_absorb)
qed

lemma pushes_bound: "wf q \<Longrightarrow> length (contents (fold push xs q)) \<le> cap"
  by (simp add: wf_bound wf_pushes)

lemma push_newest: "wf q \<Longrightarrow> contents (push x q) \<noteq> [] \<and> last (contents (push x q)) = x"
  using cap_pos by (simp add: contents_push last_n_snoc)

lemma pushes_fit:
  "wf q \<Longrightarrow> length (contents q) + length xs \<le> cap \<Longrightarrow>
    contents (fold push xs q) = contents q @ xs"
  by (simp add: contents_pushes last_n_id)

lemma pushes_recent:
  "wf q \<Longrightarrow> cap \<le> length xs \<Longrightarrow> contents (fold push xs q) = last_n cap xs"
  by (simp add: contents_pushes last_n_append)

lemma pushes_suffix: "wf q \<Longrightarrow> suffix (contents (fold push xs q)) (contents q @ xs)"
  by (simp add: contents_pushes suffix_last_n)

end

subsection \<open>Go maps as association lists\<close>

text \<open>
  Where the code ranges over a map, the order is whatever the runtime picks. Such a map is an
  association list with distinct keys: its list order stands for the order of that iteration, and
  a theorem about every list covers every order.
\<close>

abbreviation keys_distinct :: "('k \<times> 'v) list \<Rightarrow> bool" where
  "keys_distinct m \<equiv> distinct (map fst m)"

lemma map_of_update [simp]:
  "map_of (AList.update k v m) j = (if j = k then Some v else map_of m j)"
  by (simp add: update_conv')

lemma map_of_delete [simp]:
  "map_of (AList.delete k m) j = (if j = k then None else map_of m j)"
  by (simp add: delete_conv')

lemma keys_distinct_update [intro, simp]: "keys_distinct m \<Longrightarrow> keys_distinct (AList.update k v m)"
  by (rule distinct_update)

lemma keys_distinct_delete [intro, simp]: "keys_distinct m \<Longrightarrow> keys_distinct (AList.delete k m)"
  by (rule distinct_delete)

lemma update_fresh: "k \<notin> fst ` set m \<Longrightarrow> AList.update k v m = m @ [(k, v)]"
  by (induction m) auto

lemma map_of_None_iff: "map_of m k = None \<longleftrightarrow> k \<notin> fst ` set m"
  by (simp add: map_of_eq_None_iff)

lemma length_update_le: "length (AList.update k v m) \<le> Suc (length m)"
  by (induction m) auto

lemma length_update:
  "length (AList.update k v m) = (if k \<in> fst ` set m then length m else Suc (length m))"
  by (induction m) auto

lemma set_update_subset: "set (AList.update k v m) \<subseteq> insert (k, v) (set m)"
  by (induction m) auto

lemma set_delete_subset: "set (AList.delete k m) \<subseteq> set m"
  by (auto simp: AList.delete_eq)

lemma set_update_distinct:
  "keys_distinct m \<Longrightarrow>
    set (AList.update k v m) = insert (k, v) {e \<in> set m. fst e \<noteq> k}"
  by (induction m) (auto simp: image_iff)

lemma map_of_rev_distinct: "keys_distinct m \<Longrightarrow> map_of (rev m) = map_of m"
  using map_of_inject_set [of "rev m" m] by (simp add: rev_map [symmetric])

lemma ball_list_update:
  "\<forall>x \<in> set xs. P x \<Longrightarrow> P y \<Longrightarrow> \<forall>x \<in> set (xs[i := y]). P x"
  using set_update_subset_insert [of xs i y] by blast

subsection \<open>Insertion sort with a less function, as \<open>sort.Slice\<close> is called\<close>

text \<open>
  \<^verbatim>\<open>sort.Slice(xs, less)\<close> for a \<open>less\<close> that compares a key: the source sorts by keys that are
  distinct (sequence numbers, ULIDs) or breaks ties itself, so the unspecified order of equal
  elements never shows. Newest-first listings sort by descending key.
\<close>

definition sort_desc :: "('a \<Rightarrow> 'k :: linorder) \<Rightarrow> 'a list \<Rightarrow> 'a list" where
  "sort_desc f xs = rev (sort_key f xs)"

lemma set_sort_desc [simp]: "set (sort_desc f xs) = set xs"
  by (simp add: sort_desc_def)

lemma length_sort_desc [simp]: "length (sort_desc f xs) = length xs"
  by (simp add: sort_desc_def)

lemma sorted_sort_desc: "sorted_wrt (\<lambda>x y. f y \<le> f x) (sort_desc f xs)"
proof -
  have "sorted (map f (sort_key f xs))" by simp
  then show ?thesis
    by (simp add: sort_desc_def sorted_wrt_rev sorted_map)
qed

end
