(* ===== verification/Go_Float.thy ===== *)
theory Go_Float
  imports Complex_Main
begin

text \<open>
  Go's \<^verbatim>\<open>float64\<close> arithmetic, as the rate governor, the statistics, the velocity stage and the
  moment detector use it. A finite float64 is a rational, and every arithmetic operation of the
  source is its exact rational result followed by one rounding, \<open>fl\<close>: round to nearest, ties to
  even, to a 53-bit significand (IEEE 754 binary64, Go's only mode). The exponent range is not
  bounded here: neither overflow to infinity nor subnormal numbers are modelled, since the program
  only holds token counts, rates and small durations in floats.

  The lemmas give what the components rely on: \<open>fl\<close> is monotone, keeps 0 and every integer of
  magnitude at most \<open>2 ^ 53\<close>, and is odd.
\<close>

subsection \<open>Rounding to an integer, ties to even\<close>

definition rne :: "rat \<Rightarrow> int" where
  "rne y = (let f = \<lfloor>y\<rfloor>; d = y - of_int f in
     if d < 1 / 2 \<or> (d = 1 / 2 \<and> even f) then f else f + 1)"

lemma rne_of_int [simp]: "rne (of_int n) = n"
  by (simp add: rne_def)

lemma rne_bounds: "\<lfloor>y\<rfloor> \<le> rne y" "rne y \<le> \<lfloor>y\<rfloor> + 1"
  by (simp_all add: rne_def Let_def)

lemma rne_mono: "x \<le> y \<Longrightarrow> rne x \<le> rne y"
proof -
  assume le: "x \<le> y"
  then have fl: "\<lfloor>x\<rfloor> \<le> \<lfloor>y\<rfloor>" by (rule floor_mono)
  show "rne x \<le> rne y"
  proof (cases "\<lfloor>x\<rfloor> = \<lfloor>y\<rfloor>")
    case True
    with le show ?thesis by (auto simp: rne_def Let_def)
  next
    case False
    with fl have "\<lfloor>x\<rfloor> + 1 \<le> \<lfloor>y\<rfloor>" by simp
    then show ?thesis using rne_bounds(2) [of x] rne_bounds(1) [of y] by simp
  qed
qed

subsection \<open>Powers of two with an integer exponent\<close>

definition pow2 :: "int \<Rightarrow> rat" where
  "pow2 k = (if 0 \<le> k then 2 ^ nat k else 1 / 2 ^ nat (- k))"

lemma pow2_pos [simp]: "0 < pow2 k"
  by (simp add: pow2_def)

lemma pow2_neq0 [simp]: "pow2 k \<noteq> 0"
  using pow2_pos [of k] by linarith

lemma pow2_conv: "pow2 k = 2 powi k"
  by (simp add: pow2_def power_int_def inverse_eq_divide power_divide)

lemma pow2_add: "pow2 (a + b) = pow2 a * pow2 b"
  by (simp add: pow2_conv power_int_add)

lemma pow2_mono: "a \<le> b \<Longrightarrow> pow2 a \<le> pow2 b"
  by (simp add: pow2_conv power_int_increasing)

lemma pow2_nat [simp]: "pow2 (int n) = 2 ^ n"
  by (simp add: pow2_def)

subsection \<open>The binary exponent\<close>

fun blen :: "nat \<Rightarrow> nat" where
  "blen n = (if n = 0 then 0 else Suc (blen (n div 2)))"

declare blen.simps [simp del]

lemma blen_upper: "n < 2 ^ blen n"
proof (induction n rule: blen.induct)
  case (1 n)
  show ?case
  proof (cases "n = 0")
    case True
    then show ?thesis by (simp add: blen.simps)
  next
    case False
    then have "n div 2 < 2 ^ blen (n div 2)" using "1" by simp
    then have "n < 2 * 2 ^ blen (n div 2)" by linarith
    with False show ?thesis by (subst blen.simps) simp
  qed
qed

lemma blen_lower: "0 < n \<Longrightarrow> 2 ^ blen n \<le> 2 * n"
proof (induction n rule: blen.induct)
  case (1 n)
  show ?case
  proof (cases "n div 2 = 0")
    case True
    with "1.prems" have "n = 1" by linarith
    then show ?thesis by (simp add: blen.simps)
  next
    case False
    then have "2 ^ blen (n div 2) \<le> 2 * (n div 2)" using "1" by simp
    then have "(2 :: nat) * 2 ^ blen (n div 2) \<le> 2 * n" by linarith
    with "1.prems" show ?thesis by (subst blen.simps) simp
  qed
qed

definition expo :: "rat \<Rightarrow> int" where
  "expo x = (let (n, d) = quotient_of x; k = int (blen (nat n)) - int (blen (nat d))
     in if pow2 k \<le> x then k else k - 1)"

lemma expo_bounds:
  assumes "0 < x"
  shows "pow2 (expo x) \<le> x" and "x < pow2 (expo x + 1)"
proof -
  obtain n d where q: "quotient_of x = (n, d)" by (cases "quotient_of x")
  have d: "0 < d" using quotient_of_denom_pos [OF q] .
  have x: "x = of_int n / of_int d" using quotient_of_div [OF q] .
  have n: "0 < n" using assms x d by (simp add: zero_less_divide_iff)
  let ?a = "blen (nat n)" and ?b = "blen (nat d)"
  have nu: "(of_int n :: rat) < 2 ^ ?a"
  proof -
    have "int (nat n) < int (2 ^ ?a)" using blen_upper [of "nat n"] by linarith
    then have "n < 2 ^ ?a" using n by simp
    then have "(of_int n :: rat) < of_int (2 ^ ?a)" by (simp only: of_int_less_iff)
    then show ?thesis by simp
  qed
  have du: "(of_int d :: rat) < 2 ^ ?b"
  proof -
    have "int (nat d) < int (2 ^ ?b)" using blen_upper [of "nat d"] by linarith
    then have "d < 2 ^ ?b" using d by simp
    then have "(of_int d :: rat) < of_int (2 ^ ?b)" by (simp only: of_int_less_iff)
    then show ?thesis by simp
  qed
  have nl: "(2 :: rat) ^ ?a \<le> 2 * of_int n"
  proof -
    have "int (2 ^ ?a) \<le> int (2 * nat n)"
      using blen_lower [of "nat n"] n by (simp only: of_nat_le_iff zero_less_nat_eq)
    then have "2 ^ ?a \<le> 2 * n" using n by simp
    then have "(of_int (2 ^ ?a) :: rat) \<le> of_int (2 * n)" by (simp only: of_int_le_iff)
    then show ?thesis by simp
  qed
  have dl: "(2 :: rat) ^ ?b \<le> 2 * of_int d"
  proof -
    have "int (2 ^ ?b) \<le> int (2 * nat d)"
      using blen_lower [of "nat d"] d by (simp only: of_nat_le_iff zero_less_nat_eq)
    then have "2 ^ ?b \<le> 2 * d" using d by simp
    then have "(of_int (2 ^ ?b) :: rat) \<le> of_int (2 * d)" by (simp only: of_int_le_iff)
    then show ?thesis by simp
  qed
  let ?k = "int ?a - int ?b"
  have k: "pow2 ?k = 2 ^ ?a / 2 ^ ?b"
    by (simp add: pow2_conv power_int_diff)
  have up: "x < pow2 (?k + 1)"
  proof -
    have "of_int n * 2 ^ ?b < (2 ^ ?a :: rat) * (2 * of_int d)"
      by (rule mult_less_le_imp_less) (use nu dl n in auto)
    then have "x < 2 * 2 ^ ?a / 2 ^ ?b" using d by (simp add: x field_simps)
    also have "\<dots> = pow2 (?k + 1)"
      by (simp add: pow2_conv power_int_diff power_int_add)
    finally show ?thesis .
  qed
  have lo: "pow2 (?k - 1) \<le> x"
  proof -
    have "(2 ^ ?a :: rat) * of_int d \<le> (2 * of_int n) * 2 ^ ?b"
      by (rule mult_mono) (use nl du d n in auto)
    then have "2 ^ ?a / (2 * 2 ^ ?b) \<le> x" using d by (simp add: x field_simps)
    moreover have "2 ^ ?a / (2 * 2 ^ ?b) = pow2 (?k - 1)"
      by (simp add: pow2_conv power_int_diff)
    ultimately show ?thesis by simp
  qed
  have e: "expo x = (if pow2 ?k \<le> x then ?k else ?k - 1)"
    by (simp add: expo_def q)
  show "pow2 (expo x) \<le> x" using lo by (auto simp: e)
  show "x < pow2 (expo x + 1)" using up by (auto simp: e)
qed

lemma expo_mono:
  assumes "0 < x" "x \<le> y"
  shows "expo x \<le> expo y"
proof (rule ccontr)
  assume "\<not> expo x \<le> expo y"
  then have "pow2 (expo y + 1) \<le> pow2 (expo x)" by (intro pow2_mono) simp
  then show False using expo_bounds [of x] expo_bounds [of y] assms by linarith
qed

subsection \<open>Rounding to a 53-bit significand\<close>

definition fl_pos :: "rat \<Rightarrow> rat" where
  "fl_pos x = of_int (rne (x * pow2 (52 - expo x))) * pow2 (expo x - 52)"

definition fl :: "rat \<Rightarrow> rat" where
  "fl x = (if x = 0 then 0 else if 0 < x then fl_pos x else - fl_pos (- x))"

lemma fl_pos_scale: "pow2 (52 - e) * pow2 (e - 52) = 1"
  using pow2_add [of "52 - e" "e - 52"] by (simp add: pow2_def)

lemma fl_pos_range:
  assumes "0 < x"
  shows "pow2 (expo x) \<le> fl_pos x" and "fl_pos x \<le> pow2 (expo x + 1)"
proof -
  let ?s = "x * pow2 (52 - expo x)"
  have "pow2 (expo x) * pow2 (52 - expo x) \<le> ?s"
    using expo_bounds(1) [OF assms] by (intro mult_right_mono) (auto intro: less_imp_le)
  then have "of_int (2 ^ 52) \<le> ?s"
    using pow2_add [of "expo x" "52 - expo x"] by (simp add: pow2_def)
  then have "2 ^ 52 \<le> rne ?s" using rne_mono rne_of_int by metis
  then have "(of_int (2 ^ 52) :: rat) \<le> of_int (rne ?s)" by (simp only: of_int_le_iff)
  then have "of_int (2 ^ 52) * pow2 (expo x - 52) \<le> fl_pos x"
    unfolding fl_pos_def by (intro mult_right_mono) (auto intro: less_imp_le)
  moreover have "of_int (2 ^ 52) * pow2 (expo x - 52) = pow2 (expo x)"
    using pow2_add [of 52 "expo x - 52"] by (simp add: pow2_def [of 52])
  ultimately show "pow2 (expo x) \<le> fl_pos x" by simp
  have "?s \<le> pow2 (expo x + 1) * pow2 (52 - expo x)"
    using expo_bounds(2) [OF assms] by (intro mult_right_mono) (auto intro: less_imp_le)
  then have "?s \<le> of_int (2 ^ 53)"
    using pow2_add [of "expo x + 1" "52 - expo x"] by (simp add: pow2_def)
  then have "rne ?s \<le> 2 ^ 53" using rne_mono rne_of_int by metis
  then have "(of_int (rne ?s) :: rat) \<le> of_int (2 ^ 53)" by (simp only: of_int_le_iff)
  then have "fl_pos x \<le> of_int (2 ^ 53) * pow2 (expo x - 52)"
    unfolding fl_pos_def by (intro mult_right_mono) (auto intro: less_imp_le)
  moreover have "of_int (2 ^ 53) * pow2 (expo x - 52) = pow2 (expo x + 1)"
    using pow2_add [of 53 "expo x - 52"] by (simp add: pow2_def [of 53] add.commute)
  ultimately show "fl_pos x \<le> pow2 (expo x + 1)" by simp
qed

lemma fl_pos_gt0: "0 < x \<Longrightarrow> 0 < fl_pos x"
  using fl_pos_range(1) [of x] pow2_pos [of "expo x"] by linarith

lemma fl_pos_mono:
  assumes "0 < x" "x \<le> y"
  shows "fl_pos x \<le> fl_pos y"
proof (cases "expo x = expo y")
  case True
  have "x * pow2 (52 - expo y) \<le> y * pow2 (52 - expo y)"
    using assms(2) by (intro mult_right_mono) (auto intro: less_imp_le)
  then have "rne (x * pow2 (52 - expo y)) \<le> rne (y * pow2 (52 - expo y))"
    by (rule rne_mono)
  then show ?thesis
    unfolding fl_pos_def True by (intro mult_right_mono) (auto intro: less_imp_le)
next
  case False
  then have "expo x + 1 \<le> expo y" using expo_mono [OF assms] by simp
  then have "pow2 (expo x + 1) \<le> pow2 (expo y)" by (rule pow2_mono)
  then show ?thesis
    using fl_pos_range(2) [OF assms(1)] fl_pos_range(1) [of y] assms by linarith
qed

lemma fl_0 [simp]: "fl 0 = 0"
  by (simp add: fl_def)

lemma fl_uminus: "fl (- x) = - fl x"
  by (simp add: fl_def)

lemma fl_mono: "x \<le> y \<Longrightarrow> fl x \<le> fl y"
proof -
  assume le: "x \<le> y"
  consider "0 < x" | "x \<le> 0" "0 \<le> y" | "y < 0" by linarith
  then show "fl x \<le> fl y"
  proof cases
    case 1
    with le show ?thesis by (simp add: fl_def fl_pos_mono)
  next
    case 2
    have "fl x \<le> 0" using 2(1) fl_pos_gt0 [of "- x"] by (auto simp: fl_def)
    moreover have "0 \<le> fl y" using 2(2) fl_pos_gt0 [of y] by (auto simp: fl_def)
    ultimately show ?thesis by linarith
  next
    case 3
    with le show ?thesis by (simp add: fl_def fl_pos_mono)
  qed
qed

lemma fl_nonneg: "0 \<le> x \<Longrightarrow> 0 \<le> fl x"
  using fl_mono [of 0 x] by simp

lemma fl_nonpos: "x \<le> 0 \<Longrightarrow> fl x \<le> 0"
  using fl_mono [of x 0] by simp

lemma fl_pos_exact:
  assumes "0 < n" "n \<le> 2 ^ 53"
  shows "fl_pos (of_int n) = of_int n"
proof (cases "n = 2 ^ 53")
  case True
  have e: "expo (of_int n) = 53"
  proof (rule antisym)
    have "pow2 (expo (of_int n)) < pow2 54"
      using expo_bounds(1) [of "of_int n"] assms True by (simp add: pow2_def)
    then show "expo (of_int n) \<le> 53" using pow2_mono [of 54 "expo (of_int n)"] by linarith
    have "pow2 53 < pow2 (expo (of_int n) + 1)"
      using expo_bounds(2) [of "of_int n"] assms True by (simp add: pow2_def)
    then show "53 \<le> expo (of_int n)" using pow2_mono [of "expo (of_int n) + 1" 53] by linarith
  qed
  have "(of_int n :: rat) * pow2 (52 - 53) = of_int (2 ^ 52)"
    unfolding True by (simp add: pow2_def)
  then have "fl_pos (of_int n) = of_int (2 ^ 52) * pow2 1"
    unfolding fl_pos_def e by (simp only: rne_of_int) simp
  then show ?thesis by (simp add: True pow2_def)
next
  case False
  let ?e = "expo (of_int n)"
  have "n < 2 ^ 53" using assms False by simp
  then have "(of_int n :: rat) < of_int (2 ^ 53)" by (simp only: of_int_less_iff)
  then have "pow2 ?e < pow2 53"
    using expo_bounds(1) [of "of_int n"] assms(1) by (simp add: pow2_def [of 53])
  then have e: "?e \<le> 52" using pow2_mono [of 53 ?e] by linarith
  then obtain m where m: "52 - ?e = int m" by (metis diff_ge_0_iff_ge nonneg_int_cases)
  have "(of_int n :: rat) * pow2 (52 - ?e) = of_int (n * 2 ^ m)" by (simp add: m)
  then have "fl_pos (of_int n) = of_int (n * 2 ^ m) * pow2 (?e - 52)"
    unfolding fl_pos_def by (simp only: rne_of_int)
  also have "\<dots> = of_int n * (pow2 (52 - ?e) * pow2 (?e - 52))" by (simp add: m)
  finally show ?thesis by (simp only: fl_pos_scale mult_1_right)
qed

lemma fl_of_int: "\<bar>n\<bar> \<le> 2 ^ 53 \<Longrightarrow> fl (of_int n) = of_int n"
  using fl_pos_exact [of n] fl_pos_exact [of "- n"] by (auto simp: fl_def)

lemma fl_of_nat: "n \<le> 2 ^ 53 \<Longrightarrow> fl (of_nat n) = of_nat n"
proof -
  assume "n \<le> 2 ^ 53"
  then have "\<bar>int n\<bar> \<le> 2 ^ 53" by simp
  then show ?thesis using fl_of_int [of "int n"] by simp
qed

lemma fl_1 [simp]: "fl 1 = 1"
  using fl_of_int [of 1] by simp

lemma fl_ge_int: "\<bar>n\<bar> \<le> 2 ^ 53 \<Longrightarrow> of_int n \<le> x \<Longrightarrow> of_int n \<le> fl x"
  using fl_mono [of "of_int n" x] by (simp add: fl_of_int)

lemma fl_le_int: "\<bar>n\<bar> \<le> 2 ^ 53 \<Longrightarrow> x \<le> of_int n \<Longrightarrow> fl x \<le> of_int n"
  using fl_mono [of x "of_int n"] by (simp add: fl_of_int)

text \<open>The relative error of one rounding.\<close>

lemma rne_error: "\<bar>of_int (rne y) - y\<bar> \<le> 1 / 2"
proof -
  have "of_int \<lfloor>y\<rfloor> \<le> y" "y < of_int \<lfloor>y\<rfloor> + 1" by linarith+
  then show ?thesis by (auto simp: rne_def Let_def abs_le_iff)
qed

lemma fl_pos_error:
  assumes "0 < x"
  shows "\<bar>fl_pos x - x\<bar> \<le> x / 2 ^ 52"
proof -
  let ?s = "x * pow2 (52 - expo x)" and ?u = "pow2 (expo x - 52)"
  have x: "?s * ?u = x" using fl_pos_scale [of "expo x"] by (simp add: mult.assoc)
  have "pow2 (expo x) * pow2 (52 - expo x) \<le> ?s"
    using expo_bounds(1) [OF assms] by (intro mult_right_mono) (auto intro: less_imp_le)
  then have "2 ^ 52 \<le> ?s" using pow2_add [of "expo x" "52 - expo x"] by (simp add: pow2_def)
  then have "1 / 2 \<le> ?s / 2 ^ 52" by simp
  then have "\<bar>of_int (rne ?s) - ?s\<bar> \<le> ?s / 2 ^ 52" using rne_error [of ?s] by linarith
  then have "\<bar>of_int (rne ?s) - ?s\<bar> * ?u \<le> ?s / 2 ^ 52 * ?u"
    by (intro mult_right_mono) (auto intro: less_imp_le)
  moreover have "\<bar>fl_pos x - x\<bar> = \<bar>of_int (rne ?s) - ?s\<bar> * ?u"
    unfolding fl_pos_def using x by (metis abs_mult abs_of_pos left_diff_distrib pow2_pos)
  ultimately show ?thesis using x by simp
qed

lemma fl_error: "0 \<le> x \<Longrightarrow> (1 - 1 / 2 ^ 52) * x \<le> fl x \<and> fl x \<le> (1 + 1 / 2 ^ 52) * x"
proof (cases "x = 0")
  case False
  assume "0 \<le> x"
  with False have x: "0 < x" by simp
  have "\<bar>fl x - x\<bar> \<le> x / 2 ^ 52" using fl_pos_error [OF x] x False by (simp only: fl_def if_True if_False)
  then have "fl x - x \<le> x / 2 ^ 52" "x - fl x \<le> x / 2 ^ 52" by linarith+
  then show ?thesis by (simp add: algebra_simps)
qed simp

lemmas fl_bounds = fl_mono fl_nonneg fl_nonpos fl_ge_int fl_le_int

text \<open>A conversion \<^verbatim>\<open>float64(n)\<close> of an integer, and Go's float division.\<close>

abbreviation fl_int :: "int \<Rightarrow> rat" where
  "fl_int n \<equiv> fl (of_int n)"

lemma fl_tenth: "fl (1 / 10) = 3602879701896397 / 36028797018963968"
  by code_simp

end
