(* ===== verification/Go_Values.thy ===== *)
theory Go_Values
  imports Virta_Prelude Go_Float "HOL-Library.Char_ord" "HOL-Library.List_Lexorder"
    "HOL-Library.Code_Target_Nat"
begin

text \<open>
  The Go values and standard-library functions the components use.

  \<^item> A Go string is a byte sequence, here \<open>string\<close> (\<open>char\<close> is a byte); comparison is byte-wise
    lexicographic, the order of \<open>List_Lexorder\<close> over \<open>Char_ord\<close>. UTF-8 decoding follows
    \<^verbatim>\<open>utf8.DecodeRuneInString\<close>, an ill-formed byte being one replacement rune of width 1.
  \<^item> \<^verbatim>\<open>strings.ToLower\<close> and \<^verbatim>\<open>strings.EqualFold\<close> map the ASCII letters and keep every byte from
    \<open>0x80\<close> on: the Unicode case tables are not modelled.
  \<^item> \<^verbatim>\<open>time.Time\<close> is the integer number of nanoseconds since the Unix epoch, its zero value the
    start of year 1; \<^verbatim>\<open>time.Duration\<close> is a number of nanoseconds, an \<^verbatim>\<open>int64\<close> whose products wrap
    and whose \<^verbatim>\<open>Time.Sub\<close> saturates.
\<close>

subsection \<open>Bytes and strings\<close>

abbreviation byte :: "char \<Rightarrow> nat" where
  "byte c \<equiv> of_char c"

definition has_prefix :: "string \<Rightarrow> string \<Rightarrow> bool" where
  "has_prefix s p = (take (length p) s = p)"

lemma has_prefix_append [simp]: "has_prefix (p @ s) p"
  by (simp add: has_prefix_def)

lemma has_prefix_conv: "has_prefix s p \<longleftrightarrow> prefix p s"
  by (auto simp: has_prefix_def prefix_def) (metis append_take_drop_id)

fun contains :: "string \<Rightarrow> string \<Rightarrow> bool" where
  "contains [] p = (p = [])"
| "contains (c # s) p = (has_prefix (c # s) p \<or> contains s p)"

lemma contains_iff: "contains s p \<longleftrightarrow> (\<exists>u v. s = u @ p @ v)"
proof (induction s)
  case Nil
  then show ?case by auto
next
  case (Cons c s)
  show ?case
  proof
    assume "contains (c # s) p"
    then consider "prefix p (c # s)" | "contains s p" by (auto simp: has_prefix_conv)
    then show "\<exists>u v. c # s = u @ p @ v"
    proof cases
      case 1
      then show ?thesis by (metis append_Nil prefixE)
    next
      case 2
      with Cons.IH show ?thesis by (metis append_Cons)
    qed
  next
    assume "\<exists>u v. c # s = u @ p @ v"
    then obtain u v where uv: "c # s = u @ p @ v" by blast
    show "contains (c # s) p"
    proof (cases u)
      case Nil
      with uv have "prefix p (c # s)" by (simp add: prefix_def)
      then show ?thesis by (simp add: has_prefix_conv)
    next
      case (Cons d u')
      with uv have "s = u' @ p @ v" by simp
      with Cons.IH show ?thesis by auto
    qed
  qed
qed

text \<open>\<^verbatim>\<open>strings.IndexByte\<close> followed by slicing: the text before the first occurrence, and after it.\<close>

fun cut_at :: "char \<Rightarrow> string \<Rightarrow> (string \<times> string) option" where
  "cut_at c [] = None"
| "cut_at c (x # s) = (if x = c then Some ([], s) else map_option (apfst ((#) x)) (cut_at c s))"

lemma cut_at_Some: "cut_at c s = Some (u, v) \<Longrightarrow> s = u @ c # v \<and> c \<notin> set u"
  by (induction s arbitrary: u) (auto split: if_splits)

lemma cut_at_None: "cut_at c s = None \<longleftrightarrow> c \<notin> set s"
  by (induction s) auto

lemma cut_at_append: "c \<notin> set u \<Longrightarrow> cut_at c (u @ c # v) = Some (u, v)"
  by (induction u) auto

lemma cut_at_length: "cut_at c s = Some (u, v) \<Longrightarrow> length v < length s"
  by (drule cut_at_Some) auto

text \<open>\<^verbatim>\<open>strings.Split\<close> at a one-byte separator (always at least one piece) and \<^verbatim>\<open>strings.Join\<close>.\<close>

fun split_on :: "char \<Rightarrow> string \<Rightarrow> string list" where
  "split_on c [] = [[]]"
| "split_on c (x # s) =
     (if x = c then [] # split_on c s
      else (case split_on c s of [] \<Rightarrow> [[x]] | p # ps \<Rightarrow> (x # p) # ps))"

fun join :: "string \<Rightarrow> string list \<Rightarrow> string" where
  "join sep [] = []"
| "join sep [s] = s"
| "join sep (s # t # ts) = s @ sep @ join sep (t # ts)"

lemma set_join: "set (join sep ss) \<subseteq> set sep \<union> (\<Union>s \<in> set ss. set s)"
  by (induction sep ss rule: join.induct) auto

lemma split_on_not_Nil: "split_on c s \<noteq> []"
  by (induction s) (auto split: list.splits)

lemma join_split_on: "join [c] (split_on c s) = s"
proof (induction s)
  case Nil
  then show ?case by simp
next
  case (Cons x s)
  obtain p ps where p: "split_on c s = p # ps"
    using split_on_not_Nil [of c s] by (cases "split_on c s") auto
  with Cons show ?case by (cases ps) auto
qed

lemma split_on_no_sep: "p \<in> set (split_on c s) \<Longrightarrow> c \<notin> set p"
  by (induction s arbitrary: p) (auto split: if_splits list.splits)

lemma split_on_absent: "c \<notin> set s \<Longrightarrow> split_on c s = [s]"
  by (induction s) auto

lemma split_on_append_sep: "c \<notin> set u \<Longrightarrow> split_on c (u @ c # v) = u # split_on c v"
  by (induction u) auto

lemma split_on_join:
  "ps \<noteq> [] \<Longrightarrow> \<forall>p \<in> set ps. c \<notin> set p \<Longrightarrow> split_on c (join [c] ps) = ps"
  by (induction "[c]" ps rule: join.induct) (auto simp: split_on_absent split_on_append_sep)

definition ascii_lower :: "char \<Rightarrow> char" where
  "ascii_lower c = (if 65 \<le> byte c \<and> byte c \<le> 90 then char_of (byte c + 32) else c)"

definition to_lower :: "string \<Rightarrow> string" where
  "to_lower s = map ascii_lower s"

definition equal_fold :: "string \<Rightarrow> string \<Rightarrow> bool" where
  "equal_fold s t = (to_lower s = to_lower t)"

lemma byte_char_of_small: "n < 256 \<Longrightarrow> byte (char_of n) = n"
  by (simp add: of_char_of)

lemma ascii_lower_idem [simp]: "ascii_lower (ascii_lower c) = ascii_lower c"
  by (auto simp: ascii_lower_def byte_char_of_small)

lemma to_lower_idem [simp]: "to_lower (to_lower s) = to_lower s"
  by (simp add: to_lower_def comp_def)

lemma to_lower_append [simp]: "to_lower (s @ t) = to_lower s @ to_lower t"
  by (simp add: to_lower_def)

lemma length_to_lower [simp]: "length (to_lower s) = length s"
  by (simp add: to_lower_def)

lemma to_lower_Nil [simp]: "to_lower s = [] \<longleftrightarrow> s = []"
  by (simp add: to_lower_def)

subsection \<open>Runes\<close>

definition in_range :: "nat \<Rightarrow> nat \<Rightarrow> string \<Rightarrow> nat \<Rightarrow> bool" where
  "in_range lo hi s i = (i < length s \<and> lo \<le> byte (s ! i) \<and> byte (s ! i) \<le> hi)"

definition rune_error :: nat where
  "rune_error = 65533"

text \<open>The range of a second byte, given the first (no overlong forms, no surrogates, at most U+10FFFF).\<close>

definition second_lo :: "nat \<Rightarrow> nat" where
  "second_lo b = (if b = 224 then 160 else if b = 240 then 144 else 128)"

definition second_hi :: "nat \<Rightarrow> nat" where
  "second_hi b = (if b = 237 then 159 else if b = 244 then 143 else 191)"

definition well_formed_at :: "nat \<Rightarrow> nat \<Rightarrow> string \<Rightarrow> bool" where
  "well_formed_at n b s = (in_range (second_lo b) (second_hi b) s 1
     \<and> list_all (in_range 128 191 s) [2 ..< n])"

text \<open>The rune at the start of a string and its width in bytes.\<close>

definition decode_rune :: "string \<Rightarrow> nat \<times> nat" where
  "decode_rune s =
    (case s of [] \<Rightarrow> (rune_error, 0)
     | c # _ \<Rightarrow>
       let b = byte c; k = (\<lambda>i. byte (s ! i) - 128) in
       if b < 128 then (b, 1)
       else if 194 \<le> b \<and> b \<le> 223 \<and> well_formed_at 2 b s then ((b - 192) * 64 + k 1, 2)
       else if 224 \<le> b \<and> b \<le> 239 \<and> well_formed_at 3 b s
         then ((b - 224) * 4096 + k 1 * 64 + k 2, 3)
       else if 240 \<le> b \<and> b \<le> 244 \<and> well_formed_at 4 b s
         then ((b - 240) * 262144 + k 1 * 4096 + k 2 * 64 + k 3, 4)
       else (rune_error, 1))"

lemma well_formed_at_length: "well_formed_at n b s \<Longrightarrow> 2 \<le> n \<Longrightarrow> n \<le> length s"
  by (cases "n = 2") (auto simp: well_formed_at_def in_range_def list_all_iff
      dest!: bspec [where x = "n - 1"])

lemma decode_rune_size:
  "s \<noteq> [] \<Longrightarrow> 0 < snd (decode_rune s) \<and> snd (decode_rune s) \<le> length s"
  using well_formed_at_length [of 2 _ s] well_formed_at_length [of 3 _ s]
    well_formed_at_length [of 4 _ s]
  by (cases s) (auto simp: decode_rune_def Let_def)

text \<open>A string as the sequence of its runes, each with the bytes it was read from.\<close>

function runes :: "string \<Rightarrow> (nat \<times> string) list" where
  "runes s = (if s = [] then []
     else (let (r, n) = decode_rune s in (r, take n s) # runes (drop n s)))"
  by pat_completeness auto
termination
proof (relation "measure length", simp)
  fix s :: string and p r n
  assume "s \<noteq> []" "p = decode_rune s" "(r, n) = p"
  then show "(drop n s, s) \<in> measure length"
    using decode_rune_size [of s] by (metis diff_less in_measure length_drop length_greater_0_conv snd_conv)
qed

declare runes.simps [simp del]

lemma runes_code [code]:
  "runes s = (if s = [] then []
     else (fst (decode_rune s), take (snd (decode_rune s)) s) # runes (drop (snd (decode_rune s)) s))"
  by (subst runes.simps) (simp add: case_prod_beta)

definition bytes_of :: "(nat \<times> string) list \<Rightarrow> string" where
  "bytes_of rs = concat (map snd rs)"

lemma bytes_of_append [simp]: "bytes_of (xs @ ys) = bytes_of xs @ bytes_of ys"
  by (simp add: bytes_of_def)

lemma bytes_of_runes [simp]: "bytes_of (runes s) = s"
proof (induction s rule: runes.induct)
  case (1 s)
  show ?case
  proof (cases "s = []")
    case True
    then show ?thesis by (simp add: runes.simps bytes_of_def)
  next
    case False
    obtain r n where d: "decode_rune s = (r, n)" by fastforce
    then have "bytes_of (runes (drop n s)) = drop n s" using "1.IH" [OF False] by simp
    then show ?thesis using False d by (subst runes.simps) (simp add: bytes_of_def)
  qed
qed

text \<open>\<^verbatim>\<open>string(rs)\<close> of a rune slice: a byte that was no valid rune is written back as U+FFFD.\<close>

definition rune_bytes :: "nat \<times> string \<Rightarrow> string" where
  "rune_bytes r = (if fst r = rune_error then map char_of [239 :: nat, 191, 189] else snd r)"

definition string_of_runes :: "(nat \<times> string) list \<Rightarrow> string" where
  "string_of_runes rs = concat (map rune_bytes rs)"

definition valid_utf8 :: "string \<Rightarrow> bool" where
  "valid_utf8 s \<longleftrightarrow> list_all (\<lambda>r. rune_bytes r = snd r) (runes s)"

lemma string_of_runes_append [simp]: "string_of_runes (xs @ ys) = string_of_runes xs @ string_of_runes ys"
  by (simp add: string_of_runes_def)

lemma string_of_runes_valid: "valid_utf8 s \<Longrightarrow> string_of_runes (runes s) = s"
proof -
  assume "valid_utf8 s"
  then have "map rune_bytes (runes s) = map snd (runes s)" by (simp add: valid_utf8_def list_all_iff)
  then have "string_of_runes (runes s) = bytes_of (runes s)" by (simp only: string_of_runes_def bytes_of_def)
  then show ?thesis by simp
qed

text \<open>\<^verbatim>\<open>unicode.IsSpace\<close>.\<close>

definition is_space :: "nat \<Rightarrow> bool" where
  "is_space r = ((9 \<le> r \<and> r \<le> 13) \<or> r = 32 \<or> r = 133 \<or> r = 160 \<or> r = 5760
     \<or> (8192 \<le> r \<and> r \<le> 8202) \<or> r = 8232 \<or> r = 8233 \<or> r = 8239 \<or> r = 8287 \<or> r = 12288)"

definition trim_space :: "string \<Rightarrow> string" where
  "trim_space s = (let sp = (\<lambda>r. is_space (fst r)) in
     bytes_of (rev (dropWhile sp (rev (dropWhile sp (runes s))))))"

text \<open>\<^verbatim>\<open>strings.Fields\<close>: the maximal runs of non-space runes.\<close>

fun field_groups :: "(nat \<times> string) list \<Rightarrow> (nat \<times> string) list \<Rightarrow> string list" where
  "field_groups acc [] = (if acc = [] then [] else [bytes_of acc])"
| "field_groups acc (r # rs) =
     (if is_space (fst r)
      then (if acc = [] then field_groups [] rs else bytes_of acc # field_groups [] rs)
      else field_groups (acc @ [r]) rs)"

definition fields :: "string \<Rightarrow> string list" where
  "fields s = field_groups [] (runes s)"

lemma runes_nonempty: "r \<in> set (runes s) \<Longrightarrow> snd r \<noteq> []"
proof (induction s rule: runes.induct)
  case (1 s)
  show ?case
  proof (cases "s = []")
    case True
    then show ?thesis using "1.prems" by (simp add: runes.simps)
  next
    case False
    obtain r' n where d: "decode_rune s = (r', n)" by fastforce
    have "take n s \<noteq> []" using decode_rune_size [OF False] d False by auto
    moreover have "runes s = (r', take n s) # runes (drop n s)"
      using False d by (subst runes.simps) simp
    ultimately show ?thesis using "1.prems" "1.IH" [OF False d [symmetric] refl] by auto
  qed
qed

lemma field_groups_nonempty:
  "w \<in> set (field_groups acc rs) \<Longrightarrow> \<forall>r \<in> set acc \<union> set rs. snd r \<noteq> [] \<Longrightarrow> w \<noteq> []"
proof (induction acc rs rule: field_groups.induct)
  case (1 acc)
  then show ?case by (cases acc) (auto simp: bytes_of_def split: if_splits)
next
  case (2 acc r rs)
  then show ?case by (cases acc) (auto simp: bytes_of_def split: if_splits)
qed

lemma fields_nonempty: "w \<in> set (fields s) \<Longrightarrow> w \<noteq> []"
  unfolding fields_def by (erule field_groups_nonempty) (auto dest: runes_nonempty)

definition trim_right :: "char set \<Rightarrow> string \<Rightarrow> string" where
  "trim_right cs s = rev (dropWhile (\<lambda>c. c \<in> cs) (rev s))"

lemma dropWhile_id: "\<forall>x \<in> set xs. \<not> P x \<Longrightarrow> dropWhile P xs = xs"
  by (cases xs) auto

lemma trim_right_id: "\<forall>c \<in> set s. c \<notin> cs \<Longrightarrow> trim_right cs s = s"
proof -
  assume "\<forall>c \<in> set s. c \<notin> cs"
  then have "dropWhile (\<lambda>c. c \<in> cs) (rev s) = rev s"
    by (simp add: dropWhile_id)
  then show ?thesis by (simp add: trim_right_def)
qed

subsection \<open>Numbers\<close>

definition wrap64 :: "int \<Rightarrow> int" where
  "wrap64 x = (x + 2 ^ 63) mod 2 ^ 64 - 2 ^ 63"

definition int64_ok :: "int \<Rightarrow> bool" where
  "int64_ok x = (- (2 ^ 63) \<le> x \<and> x < 2 ^ 63)"

lemma wrap64_id: "int64_ok x \<Longrightarrow> wrap64 x = x"
  by (simp add: wrap64_def int64_ok_def)

lemma wrap64_ok: "int64_ok (wrap64 x)"
proof -
  have "0 \<le> (x + 2 ^ 63) mod 2 ^ 64" "(x + 2 ^ 63) mod 2 ^ 64 < 2 ^ 64" by simp_all
  then show ?thesis by (simp add: wrap64_def int64_ok_def)
qed

definition is_digit :: "char \<Rightarrow> bool" where
  "is_digit c = (48 \<le> byte c \<and> byte c \<le> 57)"

definition digits_val :: "string \<Rightarrow> int" where
  "digits_val s = fold (\<lambda>c n. n * 10 + (int (byte c) - 48)) s 0"

text \<open>\<^verbatim>\<open>strconv.Atoi\<close>: an optional sign and decimal digits within \<^verbatim>\<open>int64\<close>; None is any error.\<close>

definition atoi :: "string \<Rightarrow> int option" where
  "atoi s =
    (let neg = has_prefix s ''-''; body = (if neg \<or> has_prefix s ''+'' then tl s else s)
     in if body = [] \<or> \<not> list_all is_digit body then None
        else let n = (if neg then - digits_val body else digits_val body)
             in if int64_ok n then Some n else None)"

lemma atoi_range: "atoi s = Some n \<Longrightarrow> int64_ok n"
  by (auto simp: atoi_def Let_def split: if_splits)

text \<open>\<^verbatim>\<open>%0<w>d\<close> of a non-negative number: at least \<open>w\<close> decimal digits.\<close>

fun low_digits :: "nat \<Rightarrow> nat \<Rightarrow> string" where
  "low_digits 0 n = []"
| "low_digits (Suc w) n = low_digits w (n div 10) @ [char_of (48 + n mod 10)]"

lemma length_low_digits [simp]: "length (low_digits w n) = w"
  by (induction w arbitrary: n) auto

subsection \<open>Time\<close>

type_synonym time = int
type_synonym duration = int

definition zero_time :: time where
  "zero_time = - 62135596800 * 10 ^ 9"

definition second :: duration where
  "second = 10 ^ 9"

definition millisecond :: duration where
  "millisecond = 10 ^ 6"

definition minute :: duration where
  "minute = 60 * 10 ^ 9"

definition unix :: "time \<Rightarrow> int" where
  "unix t = t div 10 ^ 9"

definition unix_milli :: "time \<Rightarrow> int" where
  "unix_milli t = t div 10 ^ 6"

lemma unix_milli_mono: "t \<le> u \<Longrightarrow> unix_milli t \<le> unix_milli u"
  by (simp add: unix_milli_def zdiv_mono1)

lemma unix_mono: "t \<le> u \<Longrightarrow> unix t \<le> unix u"
  by (simp add: unix_def zdiv_mono1)

definition time_sub :: "time \<Rightarrow> time \<Rightarrow> duration" where
  "time_sub t u = max (- (2 ^ 63)) (min (2 ^ 63 - 1) (t - u))"

lemma time_sub_pos: "0 < time_sub t u \<longleftrightarrow> u < t"
  by (auto simp: time_sub_def)

lemma time_sub_exact: "int64_ok (t - u) \<Longrightarrow> time_sub t u = t - u"
  by (auto simp: time_sub_def int64_ok_def)

definition trunc_div :: "int \<Rightarrow> int \<Rightarrow> int" where
  "trunc_div a b = sgn a * sgn b * (\<bar>a\<bar> div \<bar>b\<bar>)"

definition trunc_mod :: "int \<Rightarrow> int \<Rightarrow> int" where
  "trunc_mod a b = a - trunc_div a b * b"

text \<open>\<^verbatim>\<open>Duration.Seconds\<close>: whole seconds and the rest, added in float64.\<close>

definition seconds :: "duration \<Rightarrow> rat" where
  "seconds d = fl (fl_int (trunc_div d second) + fl (fl_int (trunc_mod d second) / 10 ^ 9))"

lemma trunc_div_nonneg: "0 \<le> a \<Longrightarrow> 0 < b \<Longrightarrow> trunc_div a b = a div b"
  by (cases "a = 0") (simp_all add: trunc_div_def)

lemma trunc_mod_nonneg: "0 \<le> a \<Longrightarrow> 0 < b \<Longrightarrow> trunc_mod a b = a mod b"
  by (simp add: trunc_mod_def trunc_div_nonneg minus_div_mult_eq_mod)

lemma seconds_nonneg: "0 \<le> d \<Longrightarrow> 0 \<le> seconds d"
  unfolding seconds_def second_def
  by (intro fl_nonneg add_nonneg_nonneg divide_nonneg_nonneg)
    (simp_all add: trunc_div_nonneg trunc_mod_nonneg pos_imp_zdiv_nonneg_iff)


text \<open>The result is within two roundings of the exact number of seconds.\<close>

lemma seconds_error:
  assumes "0 \<le> d"
  shows "(1 - 1 / 2 ^ 52) ^ 2 * (of_int d / 10 ^ 9) \<le> seconds d"
    and "seconds d \<le> (1 + 1 / 2 ^ 52) ^ 2 * (of_int d / 10 ^ 9)"
proof -
  define q r where "q = (of_int (d div second) :: rat)" and "r = (of_int (d mod second) / 10 ^ 9 :: rat)"
  have nn: "0 \<le> q" "0 \<le> r"
    using assms by (auto simp: q_def r_def second_def pos_imp_zdiv_nonneg_iff)
  have "d = d div second * second + d mod second" by simp
  then have "(of_int d :: rat) = of_int (d div second) * 10 ^ 9 + of_int (d mod second)"
    by (metis of_int_add of_int_mult second_def of_int_numeral of_int_power)
  then have d: "of_int d / 10 ^ 9 = q + r" by (simp add: q_def r_def field_simps)
  have sec: "seconds d = fl (fl q + fl (fl (of_int (d mod second)) / 10 ^ 9))"
    using assms by (simp add: seconds_def q_def trunc_div_nonneg trunc_mod_nonneg second_def)
  have "0 \<le> d mod second" "d mod second < 2 ^ 53" using pos_mod_bound [of second d] by (simp_all add: second_def)
  then have "fl (of_int (d mod second)) = (of_int (d mod second) :: rat)" by (intro fl_of_int) simp
  then have s: "seconds d = fl (fl q + fl r)" by (simp add: sec r_def)
  note e = fl_error [OF nn(1)] fl_error [OF nn(2)]
  have "(1 - 1 / 2 ^ 52) * (q + r) \<le> fl q + fl r" "fl q + fl r \<le> (1 + 1 / 2 ^ 52) * (q + r)"
    using e by (simp_all add: algebra_simps)
  moreover have "0 \<le> fl q + fl r" using nn by (simp add: fl_nonneg)
  note fl_error [OF this]
  ultimately show "(1 - 1 / 2 ^ 52) ^ 2 * (of_int d / 10 ^ 9) \<le> seconds d"
    "seconds d \<le> (1 + 1 / 2 ^ 52) ^ 2 * (of_int d / 10 ^ 9)"
    unfolding s d by (simp_all add: power2_eq_square)
qed

lemma seconds_pos: "0 < d \<Longrightarrow> 0 < seconds d"
  using seconds_error(1) [of d] by (simp add: field_simps)

end
