(* ===== verification/Platform.thy ===== *)
theory Platform
  imports Go_Values
begin

text \<open>
  The data model of \<^verbatim>\<open>internal/platform/port.go\<close>: channels, messages, events, capabilities and
  moderation actions, with the methods \<^verbatim>\<open>Annotate\<close>, \<^verbatim>\<open>PlainText\<close> and \<^verbatim>\<open>ChannelRef.Key\<close>. The open
  string types of the source (\<^verbatim>\<open>Platform\<close>, \<^verbatim>\<open>MessageType\<close>, \<^verbatim>\<open>ReasonCode\<close>, ...) are strings here
  too, with their named constants as abbreviations; a pointer that may be nil is an \<open>option\<close>.
  Field names carry a prefix, since the fields of two records must not share a name.
\<close>

subsection \<open>Identifiers\<close>

type_synonym Platform = string

abbreviation Twitch :: Platform where "Twitch \<equiv> ''twitch''"
abbreviation Kick :: Platform where "Kick \<equiv> ''kick''"
abbreviation YouTube :: Platform where "YouTube \<equiv> ''youtube''"
abbreviation X_platform :: Platform where "X_platform \<equiv> ''x''"

type_synonym ConnMode = string

abbreviation ModeAutomatic :: ConnMode where "ModeAutomatic \<equiv> ''automatic''"
abbreviation ModeAnonymous :: ConnMode where "ModeAnonymous \<equiv> ''anonymous''"
abbreviation ModeAuthenticated :: ConnMode where "ModeAuthenticated \<equiv> ''authenticated''"
abbreviation ModeSession :: ConnMode where "ModeSession \<equiv> ''session''"

type_synonym StabilityTier = string

abbreviation TierOfficial :: StabilityTier where "TierOfficial \<equiv> ''official''"
abbreviation TierUnofficial :: StabilityTier where "TierUnofficial \<equiv> ''unofficial''"
abbreviation TierBestEffort :: StabilityTier where "TierBestEffort \<equiv> ''besteffort''"

record Capabilities =
  ReadAnonymous :: bool
  ReadAuthed :: bool
  cap_Send :: bool
  cap_Moderation :: bool
  cap_Replies :: bool
  HeldQueue :: bool
  Stability :: StabilityTier

type_synonym MessageType = string

abbreviation TypeChat :: MessageType where "TypeChat \<equiv> ''chat''"
abbreviation TypeAction :: MessageType where "TypeAction \<equiv> ''action''"
abbreviation TypeReply :: MessageType where "TypeReply \<equiv> ''reply''"
abbreviation TypeSub :: MessageType where "TypeSub \<equiv> ''sub''"
abbreviation TypeResub :: MessageType where "TypeResub \<equiv> ''resub''"
abbreviation TypeGiftSub :: MessageType where "TypeGiftSub \<equiv> ''giftsub''"
abbreviation TypeRaid :: MessageType where "TypeRaid \<equiv> ''raid''"
abbreviation TypeHost :: MessageType where "TypeHost \<equiv> ''host''"
abbreviation TypeFollow :: MessageType where "TypeFollow \<equiv> ''follow''"
abbreviation TypeAnnouncement :: MessageType where "TypeAnnouncement \<equiv> ''announcement''"
abbreviation TypeModeration :: MessageType where "TypeModeration \<equiv> ''moderation''"
abbreviation TypeSystem :: MessageType where "TypeSystem \<equiv> ''system''"

type_synonym SegmentKind = string

abbreviation SegText :: SegmentKind where "SegText \<equiv> ''text''"
abbreviation SegEmote :: SegmentKind where "SegEmote \<equiv> ''emote''"
abbreviation SegMention :: SegmentKind where "SegMention \<equiv> ''mention''"
abbreviation SegLink :: SegmentKind where "SegLink \<equiv> ''link''"
abbreviation SegCheer :: SegmentKind where "SegCheer \<equiv> ''cheer''"
abbreviation SegMasked :: SegmentKind where "SegMasked \<equiv> ''masked''"

type_synonym EmoteProvider = string

subsection \<open>Message content\<close>

record EmoteRef =
  em_Provider :: EmoteProvider
  em_ID :: string
  em_Name :: string
  em_URLTemplate :: string
  em_Animated :: bool

record Badge =
  bd_Set :: string
  bd_Version :: string
  bd_Title :: string
  bd_URL :: string

record Author =
  au_ID :: string
  au_Login :: string
  au_DisplayName :: string
  au_Color :: string
  au_Badges :: "Badge list"

record Segment =
  sg_Kind :: SegmentKind
  sg_Text :: string
  sg_Emote :: "EmoteRef option"
  sg_CheerBits :: int
  sg_Reveal :: string

record MessageRef =
  mr_PlatformMessageID :: string
  mr_AuthorLogin :: string
  mr_TextSnippet :: string

record ChannelRef =
  ch_Platform :: Platform
  ch_ID :: string
  ch_Slug :: string
  ch_DisplayName :: string

record Annotations =
  an_Hidden :: bool
  an_Highlight :: string
  an_Masked :: bool
  an_FirstTime :: bool
  an_Sampled :: bool

record UnifiedMessage =
  um_ID :: string
  um_PlatformMessageID :: string
  um_Platform :: Platform
  um_Channel :: ChannelRef
  um_Type :: MessageType
  um_Author :: Author
  um_Segments :: "Segment list"
  um_ReplyTo :: "MessageRef option"
  um_SentAt :: time
  um_ReceivedAt :: time
  um_Ephemeral :: bool
  um_Raw :: string
  um_Annotations :: "Annotations option"

text \<open>The composite literals \<^verbatim>\<open>Segment{Kind: k, Text: t}\<close> and \<^verbatim>\<open>Annotations{}\<close>: unset fields are zero.\<close>

abbreviation seg :: "SegmentKind \<Rightarrow> string \<Rightarrow> Segment" where
  "seg k t \<equiv> \<lparr>sg_Kind = k, sg_Text = t, sg_Emote = None, sg_CheerBits = 0, sg_Reveal = []\<rparr>"

definition no_annotations :: Annotations where
  "no_annotations = \<lparr>an_Hidden = False, an_Highlight = [], an_Masked = False,
     an_FirstTime = False, an_Sampled = False\<rparr>"

text \<open>\<^verbatim>\<open>msg.Annotate().F = v\<close>: the annotations are allocated on first use, then updated.\<close>

definition Annotate :: "(Annotations \<Rightarrow> Annotations) \<Rightarrow> UnifiedMessage \<Rightarrow> UnifiedMessage" where
  "Annotate f m = m\<lparr>um_Annotations :=
     Some (f (case um_Annotations m of None \<Rightarrow> no_annotations | Some a \<Rightarrow> a))\<rparr>"

text \<open>The annotation a reader sees: a nil pointer reads as no annotation.\<close>

definition annotation :: "UnifiedMessage \<Rightarrow> Annotations" where
  "annotation m = (case um_Annotations m of None \<Rightarrow> no_annotations | Some a \<Rightarrow> a)"

lemma annotation_Annotate [simp]: "annotation (Annotate f m) = f (annotation m)"
  by (simp add: annotation_def Annotate_def)

lemma Annotate_frame [simp]:
  "um_ID (Annotate f m) = um_ID m"
  "um_PlatformMessageID (Annotate f m) = um_PlatformMessageID m"
  "um_Platform (Annotate f m) = um_Platform m"
  "um_Channel (Annotate f m) = um_Channel m"
  "um_Type (Annotate f m) = um_Type m"
  "um_Author (Annotate f m) = um_Author m"
  "um_Segments (Annotate f m) = um_Segments m"
  "um_SentAt (Annotate f m) = um_SentAt m"
  "um_ReceivedAt (Annotate f m) = um_ReceivedAt m"
  "um_Ephemeral (Annotate f m) = um_Ephemeral m"
  by (simp_all add: Annotate_def)

definition seg_text :: "Segment list \<Rightarrow> string" where
  "seg_text ss = concat (map sg_Text ss)"

definition PlainText :: "UnifiedMessage \<Rightarrow> string" where
  "PlainText m = seg_text (um_Segments m)"

lemma seg_text_simps [simp]:
  "seg_text [] = []"
  "seg_text (s # ss) = sg_Text s @ seg_text ss"
  "seg_text (xs @ ys) = seg_text xs @ seg_text ys"
  by (simp_all add: seg_text_def)

definition ChannelRef_Key :: "ChannelRef \<Rightarrow> string" where
  "ChannelRef_Key c = ch_Platform c @ '':'' @ to_lower (ch_Slug c)"

text \<open>
  The key is case-insensitive in the slug, and it identifies the channel: platform names hold no
  colon, so equal keys are the same platform and the same slug up to case.
\<close>

lemma Key_inj:
  assumes "CHR '':'' \<notin> set (ch_Platform c)" "CHR '':'' \<notin> set (ch_Platform d)"
    and "ChannelRef_Key c = ChannelRef_Key d"
  shows "ch_Platform c = ch_Platform d \<and> equal_fold (ch_Slug c) (ch_Slug d)"
proof -
  have "cut_at CHR '':'' (ChannelRef_Key c) = Some (ch_Platform c, to_lower (ch_Slug c))"
    and "cut_at CHR '':'' (ChannelRef_Key d) = Some (ch_Platform d, to_lower (ch_Slug d))"
    using assms(1,2) by (simp_all add: ChannelRef_Key_def cut_at_append)
  with assms(3) show ?thesis by (simp add: equal_fold_def)
qed

text \<open>A chat message of one text segment, for concrete examples.\<close>

definition chat_message :: "ChannelRef \<Rightarrow> string \<Rightarrow> string \<Rightarrow> string \<Rightarrow> UnifiedMessage" where
  "chat_message ch pid login text = \<lparr>um_ID = [], um_PlatformMessageID = pid,
     um_Platform = ch_Platform ch, um_Channel = ch, um_Type = TypeChat,
     um_Author = \<lparr>au_ID = [], au_Login = login, au_DisplayName = login, au_Color = [], au_Badges = []\<rparr>,
     um_Segments = [seg SegText text], um_ReplyTo = None, um_SentAt = 0, um_ReceivedAt = 0,
     um_Ephemeral = False, um_Raw = [], um_Annotations = None\<rparr>"

definition twitch_channel :: "string \<Rightarrow> ChannelRef" where
  "twitch_channel slug = \<lparr>ch_Platform = Twitch, ch_ID = [], ch_Slug = slug, ch_DisplayName = slug\<rparr>"

subsection \<open>Health\<close>

type_synonym HealthState = string

abbreviation HealthOK :: HealthState where "HealthOK \<equiv> ''ok''"
abbreviation HealthDegraded :: HealthState where "HealthDegraded \<equiv> ''degraded''"
abbreviation HealthDown :: HealthState where "HealthDown \<equiv> ''down''"

type_synonym ReasonCode = string

abbreviation (input) ReasonNone :: ReasonCode where "ReasonNone \<equiv> ''''"
abbreviation ReasonReconnecting :: ReasonCode where "ReasonReconnecting \<equiv> ''reconnecting''"
abbreviation ReasonAuthRequired :: ReasonCode where "ReasonAuthRequired \<equiv> ''auth_required''"
abbreviation ReasonResolverBlocked :: ReasonCode where "ReasonResolverBlocked \<equiv> ''resolver_blocked''"
abbreviation ReasonChannelNotFound :: ReasonCode where "ReasonChannelNotFound \<equiv> ''channel_not_found''"
abbreviation ReasonNotLive :: ReasonCode where "ReasonNotLive \<equiv> ''not_live''"
abbreviation ReasonRateLimited :: ReasonCode where "ReasonRateLimited \<equiv> ''rate_limited''"

record HealthStatus =
  hs_State :: HealthState
  hs_Reason :: ReasonCode
  hs_Detail :: string

subsection \<open>Sending and moderation\<close>

record SendOpts =
  so_Action :: bool
  so_ReplyParentID :: string

type_synonym ModActionType = string

abbreviation ModBan :: ModActionType where "ModBan \<equiv> ''ban''"
abbreviation ModUnban :: ModActionType where "ModUnban \<equiv> ''unban''"
abbreviation ModTimeout :: ModActionType where "ModTimeout \<equiv> ''timeout''"
abbreviation ModUntimeout :: ModActionType where "ModUntimeout \<equiv> ''untimeout''"
abbreviation ModDeleteMessage :: ModActionType where "ModDeleteMessage \<equiv> ''delete_message''"
abbreviation ModClear :: ModActionType where "ModClear \<equiv> ''clear''"
abbreviation ModSetSlow :: ModActionType where "ModSetSlow \<equiv> ''set_slow''"
abbreviation ModSetFollowers :: ModActionType where "ModSetFollowers \<equiv> ''set_followers_only''"
abbreviation ModSetEmoteOnly :: ModActionType where "ModSetEmoteOnly \<equiv> ''set_emote_only''"
abbreviation ModSetUniqueChat :: ModActionType where "ModSetUniqueChat \<equiv> ''set_unique_chat''"
abbreviation ModApproveHeld :: ModActionType where "ModApproveHeld \<equiv> ''approve_held''"
abbreviation ModDenyHeld :: ModActionType where "ModDenyHeld \<equiv> ''deny_held''"

record ModAction =
  ma_Type :: ModActionType
  ma_Channel :: ChannelRef
  ma_TargetUserID :: string
  ma_TargetMessageID :: string
  ma_Duration :: duration
  ma_Enabled :: bool
  ma_Reason :: string

definition no_channel :: ChannelRef where
  "no_channel = \<lparr>ch_Platform = [], ch_ID = [], ch_Slug = [], ch_DisplayName = []\<rparr>"

definition no_action :: ModAction where
  "no_action = \<lparr>ma_Type = [], ma_Channel = no_channel, ma_TargetUserID = [],
     ma_TargetMessageID = [], ma_Duration = 0, ma_Enabled = False, ma_Reason = []\<rparr>"

subsection \<open>Events\<close>

record ChatSettings =
  cs_EmoteOnly :: bool
  cs_SubsOnly :: bool
  cs_UniqueChat :: bool
  cs_FollowersOnlyMinutes :: int
  cs_SlowSeconds :: int

record EmoteCount =
  ec_Name :: string
  ec_Count :: int

record StatsSnapshot =
  ss_WindowSeconds :: int
  ss_MessagesPerSec :: rat
  ss_UniqueChatters :: nat
  ss_TopEmotes :: "EmoteCount list"

record MomentMessage =
  mm_Author :: string
  mm_Body :: string
  mm_SentAt :: int

record Moment =
  mo_ID :: string
  mo_Channel :: ChannelRef
  mo_StartedAt :: time
  mo_EndedAt :: time
  mo_PeakRate :: rat
  mo_Baseline :: rat
  mo_Excerpt :: "MomentMessage list"

record HeldMessage =
  hm_ID :: string
  hm_Channel :: ChannelRef
  hm_Author :: Author
  hm_Text :: string
  hm_Reason :: string
  hm_HeldAt :: time

text \<open>
  The sealed interface \<^verbatim>\<open>Event\<close>: one constructor per event struct, its arguments the struct's
  fields in order (\<open>MessageDeletedEvent\<close>: channel, platform message id, message id).
\<close>

datatype Event =
    MessageEvent UnifiedMessage
  | MessageDeletedEvent ChannelRef string string
  | ChannelClearEvent ChannelRef string
  | HealthEvent "ChannelRef option" HealthStatus
  | ChatSettingsEvent ChannelRef ChatSettings
  | StatsEvent ChannelRef StatsSnapshot
  | MomentEvent Moment
  | ProfileChangedEvent string string
  | MessageHeldEvent HeldMessage
  | HeldResolvedEvent ChannelRef string bool
  | PluginEvent string string

subsection \<open>The adapter port\<close>

text \<open>
  An adapter as its callers see it at one moment: what each method of the \<^verbatim>\<open>Adapter\<close> interface
  answers, an error being \<open>Some\<close> of its text. The platform implementations behind it are arguments
  of every definition that calls one.
\<close>

type_synonym error = "string option"

record Adapter =
  ad_Platform :: Platform
  ad_Capabilities :: Capabilities
  ad_Join :: "ChannelRef \<Rightarrow> ConnMode \<Rightarrow> error"
  ad_Leave :: "ChannelRef \<Rightarrow> error"
  ad_Send :: "ChannelRef \<Rightarrow> string \<Rightarrow> SendOpts \<Rightarrow> error"
  ad_Moderate :: "ModAction \<Rightarrow> error"
  ad_Health :: HealthStatus

definition ErrUnsupported :: string where
  "ErrUnsupported = ''platform: operation not supported in current mode''"

end
