(* ===== verification/Engine.thy ===== *)
theory Engine
  imports Platform
begin

text \<open>
  \<^verbatim>\<open>internal/engine\<close>: the bounded platform-id map (\<^verbatim>\<open>idmap.go\<close>) and the engine (\<^verbatim>\<open>engine.go\<close>). Every
  field the code guards with a lock or an atomic is a field of the state record, and each locked
  section is part of one operation; the events the engine hands to its \<^verbatim>\<open>Submitter\<close> are the list
  \<open>eg_out\<close>, in order. \<open>ingest\<close> takes the generator's \<^verbatim>\<open>New\<close> as an argument; the forwarding
  goroutine of \<^verbatim>\<open>Register\<close> is \<open>forward\<close>, the fold of \<open>ingest\<close> over an adapter's events.

  The lemmas show that the id map is a FIFO of at most \<open>cap\<close> keys, that a deletion finds the id of
  a message unless that many newer messages came in between, that a chatter is flagged at most once
  per session, and that with logging off every submitted message is ephemeral.
\<close>

subsection \<open>The bounded id map\<close>

record idMap =
  im_cap :: nat
  im_m :: "string \<rightharpoonup> string"
  im_ring :: "string list"
  im_next :: nat

definition newIDMap :: "int \<Rightarrow> idMap" where
  "newIDMap capacity =
    (let c = (if capacity < 1 then 1 else nat capacity)
     in \<lparr>im_cap = c, im_m = Map.empty, im_ring = replicate c [], im_next = 0\<rparr>)"

definition idMap_put :: "string \<Rightarrow> string \<Rightarrow> idMap \<Rightarrow> idMap" where
  "idMap_put key ulid im =
    (case im_m im key of
       Some _ \<Rightarrow> im\<lparr>im_m := (im_m im)(key \<mapsto> ulid)\<rparr>
     | None \<Rightarrow>
       let old = im_ring im ! im_next im;
           m = (if old \<noteq> [] then (im_m im)(old := None) else im_m im)
       in im\<lparr>im_ring := (im_ring im)[im_next im := key],
             im_m := m(key \<mapsto> ulid),
             im_next := (im_next im + 1) mod im_cap im\<rparr>)"

definition idMap_get :: "string \<Rightarrow> idMap \<Rightarrow> string" where
  "idMap_get key im = (case im_m im key of None \<Rightarrow> [] | Some u \<Rightarrow> u)"

text \<open>The keys held, oldest first: the ring read from its next slot, blank slots left out.\<close>

definition im_keys :: "idMap \<Rightarrow> string list" where
  "im_keys im = filter (\<lambda>k. k \<noteq> []) (rotate (im_next im) (im_ring im))"

definition idMap_wf :: "idMap \<Rightarrow> bool" where
  "idMap_wf im = (0 < im_cap im \<and> length (im_ring im) = im_cap im \<and> im_next im < im_cap im
     \<and> dom (im_m im) = set (im_keys im) \<and> distinct (im_keys im)
     \<and> (\<exists>b. rotate (im_next im) (im_ring im) = replicate b [] @ im_keys im))"

lemma idMap_wf_new: "idMap_wf (newIDMap c)"
proof -
  have f: "filter (\<lambda>k. k \<noteq> []) (replicate n []) = ([] :: string list)" for n
    by (induction n) auto
  show ?thesis
    by (auto simp: idMap_wf_def newIDMap_def im_keys_def Let_def f)
qed

lemma rotate_update:
  assumes "i < length r"
  shows "rotate (Suc i mod length r) (r[i := k]) = tl (rotate i r) @ [k]"
proof -
  have r: "rotate i r = drop i r @ take i r" using assms by (simp add: rotate_drop_take)
  have "rotate (Suc i mod length r) (r[i := k]) = rotate (Suc i) (r[i := k])"
    by (metis length_list_update rotate_conv_mod)
  also have "\<dots> = rotate1 (rotate i (r[i := k]))" by simp
  also have "rotate i (r[i := k]) = k # drop (Suc i) r @ take i r"
    using assms by (simp add: rotate_drop_take drop_update_cancel flip: Cons_nth_drop_Suc)
  finally show ?thesis using assms by (simp add: r tl_drop flip: drop_Suc)
qed

text \<open>The slot about to be reused is blank while the map fills, and holds the oldest key once full.\<close>

lemma idMap_slot:
  assumes wf: "idMap_wf im"
  obtains (blank) c where "im_ring im ! im_next im = []"
      "tl (rotate (im_next im) (im_ring im)) = replicate c [] @ im_keys im"
      "length (im_keys im) < im_cap im"
    | (full) old ks where "im_ring im ! im_next im = old" "old \<noteq> []" "im_keys im = old # ks"
      "tl (rotate (im_next im) (im_ring im)) = ks" "length (im_keys im) = im_cap im"
proof -
  let ?rot = "rotate (im_next im) (im_ring im)"
  have lt: "im_next im < length (im_ring im)" and len: "length ?rot = im_cap im"
    using wf by (simp_all add: idMap_wf_def)
  then have "hd ?rot = im_ring im ! im_next im"
    by (simp add: rotate_drop_take hd_append hd_drop_conv_nth)
  moreover have "?rot \<noteq> []" using lt by auto
  ultimately have rot: "?rot = im_ring im ! im_next im # tl ?rot" by (metis list.collapse)
  from wf obtain b where b: "?rot = replicate b [] @ im_keys im" by (auto simp: idMap_wf_def)
  show thesis
  proof (cases b)
    case 0
    then have keys: "im_keys im = im_ring im ! im_next im # tl ?rot" using b rot by simp
    then have "im_ring im ! im_next im \<in> set (im_keys im)" by (metis list.set_intros(1))
    then have ne: "im_ring im ! im_next im \<noteq> []" by (simp add: im_keys_def)
    have "length (im_keys im) = im_cap im" using b len 0 by simp
    then show thesis by (rule full [OF refl ne keys refl])
  next
    case (Suc c)
    then have "im_ring im ! im_next im = []" using b rot by (metis append_Cons list.inject replicate_Suc)
    moreover have "tl ?rot = replicate c [] @ im_keys im" using b Suc by simp
    moreover have "length (im_keys im) < im_cap im" using b Suc len by simp
    ultimately show thesis by (rule blank)
  qed
qed

lemma filter_im_keys: "filter (\<lambda>k. k \<noteq> []) (im_keys im) = im_keys im"
  by (simp add: im_keys_def)

lemma rotate_put:
  assumes "idMap_wf im" "im_m im key = None"
  shows "rotate (im_next (idMap_put key ulid im)) (im_ring (idMap_put key ulid im)) =
    tl (rotate (im_next im) (im_ring im)) @ [key]"
  using assms rotate_update [of "im_next im" "im_ring im" key]
  by (simp add: idMap_put_def Let_def idMap_wf_def)

text \<open>
  A new key goes to the end of the FIFO, the oldest leaving once the map is full; a key already
  present keeps its place.
\<close>

lemma im_keys_put:
  assumes wf: "idMap_wf im" and k: "key \<noteq> []"
  shows "im_keys (idMap_put key ulid im) =
    (if key \<in> set (im_keys im) then im_keys im else last_n (im_cap im) (im_keys im @ [key]))"
proof (cases "im_m im key")
  case (Some u)
  then have "key \<in> set (im_keys im)" using wf by (auto simp: idMap_wf_def)
  with Some show ?thesis by (simp add: idMap_put_def im_keys_def)
next
  case None
  then have fresh: "key \<notin> set (im_keys im)" using wf by (auto simp: idMap_wf_def)
  have keys: "im_keys (idMap_put key ulid im) =
      filter (\<lambda>k. k \<noteq> []) (tl (rotate (im_next im) (im_ring im))) @ [key]"
    using rotate_put [OF wf None] k by (simp add: im_keys_def)
  from wf show ?thesis
  proof (cases rule: idMap_slot)
    case (blank c)
    then show ?thesis using fresh keys by (simp add: filter_im_keys last_n_id)
  next
    case (full old ks)
    then have "filter (\<lambda>k. k \<noteq> []) ks = ks" using filter_im_keys [of im] by simp
    with full show ?thesis using fresh keys by (simp add: last_n_def)
  qed
qed

lemma im_cap_put [simp]: "im_cap (idMap_put key ulid im) = im_cap im"
  by (simp add: idMap_put_def Let_def split: option.splits)

lemma im_keys_bound [bounded]: "idMap_wf im \<Longrightarrow> length (im_keys im) \<le> im_cap im"
  unfolding idMap_wf_def im_keys_def by (metis length_filter_le length_rotate)

lemma dom_idMap_put:
  assumes wf: "idMap_wf im" and k: "key \<noteq> []"
  shows "dom (im_m (idMap_put key ulid im)) = set (im_keys (idMap_put key ulid im))"
proof (cases "im_m im key")
  case (Some u)
  then have "key \<in> dom (im_m im)" by blast
  moreover have "dom (im_m im) = set (im_keys im)" using wf by (simp add: idMap_wf_def)
  moreover have "dom (im_m (idMap_put key ulid im)) = insert key (dom (im_m im))"
    using Some by (simp add: idMap_put_def)
  ultimately show ?thesis by (simp add: im_keys_put [OF wf k] insert_absorb)
next
  case None
  then have fresh: "key \<notin> set (im_keys im)" using wf by (auto simp: idMap_wf_def)
  have d: "dom (im_m im) = set (im_keys im)" "distinct (im_keys im)"
    using wf by (auto simp: idMap_wf_def)
  from wf show ?thesis
  proof (cases rule: idMap_slot)
    case (blank c)
    then show ?thesis
      using d fresh None by (simp add: im_keys_put [OF wf k] last_n_id) (simp add: idMap_put_def)
  next
    case (full old ks)
    then show ?thesis
      using d fresh None by (simp add: im_keys_put [OF wf k] last_n_def)
        (auto simp: idMap_put_def split: if_splits)
  qed
qed

lemma idMap_wf_put:
  assumes wf: "idMap_wf im" and k: "key \<noteq> []"
  shows "idMap_wf (idMap_put key ulid im)"
proof (cases "im_m im key")
  case (Some u)
  then have "key \<in> set (im_keys im)" using wf by (auto simp: idMap_wf_def)
  then have "im_keys (idMap_put key ulid im) = im_keys im"
    using im_keys_put [OF wf k] by simp
  then show ?thesis using wf Some by (auto simp: idMap_wf_def idMap_put_def)
next
  case None
  then have fresh: "key \<notin> set (im_keys im)" using wf by (auto simp: idMap_wf_def)
  have "distinct (im_keys im @ [key])" using fresh wf by (simp add: idMap_wf_def)
  then have dist: "distinct (im_keys (idMap_put key ulid im))"
    using fresh unfolding im_keys_put [OF wf k] last_n_def by (metis distinct_drop)
  have "\<exists>b. tl (rotate (im_next im) (im_ring im)) @ [key] = replicate b [] @ im_keys (idMap_put key ulid im)"
    using wf
  proof (cases rule: idMap_slot)
    case (blank c)
    then show ?thesis using fresh by (simp add: im_keys_put [OF wf k] last_n_id)
  next
    case (full old ks)
    then show ?thesis
      using fresh by (intro exI [of _ 0]) (simp add: im_keys_put [OF wf k] last_n_def)
  qed
  then show ?thesis
    using wf None dist dom_idMap_put [OF wf k] rotate_put [OF wf None]
    by (simp add: idMap_wf_def) (simp add: idMap_put_def Let_def)
qed

lemma idMap_get_put: "idMap_get key (idMap_put key ulid im) = ulid"
  by (simp add: idMap_get_def idMap_put_def Let_def split: option.splits)

lemma idMap_put_other:
  assumes wf: "idMap_wf im" and k: "key \<noteq> []" and j: "j \<noteq> key"
    and kept: "j \<in> set (im_keys (idMap_put key ulid im))"
  shows "idMap_get j (idMap_put key ulid im) = idMap_get j im"
proof -
  have "im_m (idMap_put key ulid im) j \<noteq> None"
    using kept dom_idMap_put [OF wf k] by blast
  then show ?thesis
    using j by (auto simp: idMap_get_def idMap_put_def Let_def split: option.splits if_splits)
qed

text \<open>
  A key stays while fewer than \<open>cap\<close> newer keys come in: \<open>recent n k im\<close> says that at most \<open>n\<close>
  keys of the FIFO are newer than \<open>k\<close>.
\<close>

definition recent :: "nat \<Rightarrow> string \<Rightarrow> idMap \<Rightarrow> bool" where
  "recent n k im = (\<exists>xs ys. im_keys im = xs @ k # ys \<and> length ys \<le> n)"

lemma recent_step:
  assumes wf: "idMap_wf im" and k: "key \<noteq> []" and r: "recent n j im" and n: "Suc n < im_cap im"
  shows "recent (Suc n) j (idMap_put key ulid im)"
proof -
  from r obtain xs ys where xy: "im_keys im = xs @ j # ys" "length ys \<le> n"
    by (auto simp: recent_def)
  show ?thesis
  proof (cases "key \<in> set (im_keys im)")
    case True
    then have "im_keys (idMap_put key ulid im) = xs @ j # ys" using xy im_keys_put [OF wf k] by simp
    then show ?thesis using xy unfolding recent_def by fastforce
  next
    case False
    have "last_n (im_cap im) (im_keys im @ [key]) =
        last_n (im_cap im - length (j # ys @ [key])) xs @ j # ys @ [key]"
      using xy n last_n_append [of "im_cap im" xs "j # ys @ [key]"] by (simp add: last_n_id)
    then have "im_keys (idMap_put key ulid im) =
        last_n (im_cap im - length (j # ys @ [key])) xs @ j # (ys @ [key])"
      using False im_keys_put [OF wf k] by simp
    moreover have "length (ys @ [key]) \<le> Suc n" using xy by simp
    ultimately show ?thesis unfolding recent_def by blast
  qed
qed

lemma recent_put:
  assumes wf: "idMap_wf im" and k: "key \<noteq> []"
  shows "recent (im_cap im - 1) key (idMap_put key ulid im)"
    and "key \<notin> set (im_keys im) \<Longrightarrow> recent 0 key (idMap_put key ulid im)"
proof -
  show "recent 0 key (idMap_put key ulid im)" if "key \<notin> set (im_keys im)"
  proof -
    have "im_keys (idMap_put key ulid im) = last_n (im_cap im - 1) (im_keys im) @ key # []"
      using that wf im_keys_put [OF wf k] by (simp add: last_n_snoc idMap_wf_def)
    then show ?thesis unfolding recent_def by (metis le_zero_eq list.size(3))
  qed
  have "key \<in> set (im_keys (idMap_put key ulid im))"
    using dom_idMap_put [OF wf k, of ulid] idMap_get_put [of key ulid im]
    by (auto simp: idMap_put_def Let_def split: option.splits)
  then obtain xs ys where "im_keys (idMap_put key ulid im) = xs @ key # ys"
    by (meson split_list)
  moreover have "length (im_keys (idMap_put key ulid im)) \<le> im_cap im"
    using im_keys_bound [OF idMap_wf_put [OF wf k]] by simp
  ultimately have "length ys \<le> im_cap im - 1" by simp
  then show "recent (im_cap im - 1) key (idMap_put key ulid im)"
    using \<open>im_keys (idMap_put key ulid im) = xs @ key # ys\<close> unfolding recent_def by blast
qed

lemma recent_mem: "recent n k im \<Longrightarrow> k \<in> set (im_keys im)"
  by (auto simp: recent_def)

lemma recent_mono: "recent m k im \<Longrightarrow> m \<le> n \<Longrightarrow> recent n k im"
  unfolding recent_def by (meson le_trans)


subsection \<open>The engine\<close>

abbreviation defaultIDMapCap :: int where "defaultIDMapCap \<equiv> 8192"
abbreviation seenCapPerChannel :: nat where "seenCapPerChannel \<equiv> 100000"

record 'g engine =
  eg_gen :: 'g
  eg_ids :: idMap
  eg_logging :: bool
  eg_adapters :: "(Platform \<times> Adapter) list"
  eg_joined :: "(string \<times> ChannelRef) list"
  eg_closed :: bool
  eg_seen :: "string \<rightharpoonup> string list"
  eg_out :: "Event list"

datatype engine_error = NoAdapter Platform | AdapterError string

definition New :: "'g \<Rightarrow> 'g engine" where
  "New gen = \<lparr>eg_gen = gen, eg_ids = newIDMap defaultIDMapCap, eg_logging = False,
     eg_adapters = [], eg_joined = [], eg_closed = False, eg_seen = Map.empty, eg_out = []\<rparr>"

definition channelKey :: "ChannelRef \<Rightarrow> string" where
  "channelKey ch = ChannelRef_Key ch"

definition idKey :: "ChannelRef \<Rightarrow> string \<Rightarrow> string" where
  "idKey ch platformMsgID = channelKey ch @ ''|'' @ platformMsgID"

definition Register :: "Adapter \<Rightarrow> 'g engine \<Rightarrow> 'g engine" where
  "Register a e = e\<lparr>eg_adapters := AList.update (ad_Platform a) a (eg_adapters e)\<rparr>"

definition Submit :: "Event \<Rightarrow> 'g engine \<Rightarrow> 'g engine" where
  "Submit ev e = e\<lparr>eg_out := eg_out e @ [ev]\<rparr>"

text \<open>\<^verbatim>\<open>author\<close>: the author id, or the login where the platform gives no id.\<close>

definition author_key :: "UnifiedMessage \<Rightarrow> string" where
  "author_key m = (if au_ID (um_Author m) = [] then au_Login (um_Author m) else au_ID (um_Author m))"

definition markFirstTime :: "UnifiedMessage \<Rightarrow> 'g engine \<Rightarrow> UnifiedMessage \<times> 'g engine" where
  "markFirstTime m e =
    (if um_Type m \<noteq> TypeChat then (m, e)
     else if (case um_Annotations m of None \<Rightarrow> False | Some an \<Rightarrow> an_FirstTime an) then (m, e)
     else
       let author = author_key m in
       if author = [] then (m, e)
       else
         let key = channelKey (um_Channel m);
             set = (case eg_seen e key of None \<Rightarrow> [] | Some s \<Rightarrow> s);
             known = (author \<in> List.set set);
             first = (\<not> known \<and> length set < seenCapPerChannel);
             set = (if first then author # set else set)
         in ((if first then Annotate (\<lambda>an. an\<lparr>an_FirstTime := True\<rparr>) m else m),
             e\<lparr>eg_seen := (eg_seen e)(key \<mapsto> set)\<rparr>))"

definition ingest :: "('g \<Rightarrow> string \<times> 'g) \<Rightarrow> Event \<Rightarrow> 'g engine \<Rightarrow> 'g engine" where
  "ingest new ev e =
    (case ev of
       MessageEvent m \<Rightarrow>
         let (uid, g) = (if um_ID m = [] then new (eg_gen e) else (um_ID m, eg_gen e));
             m = m\<lparr>um_ID := uid\<rparr>;
             e = e\<lparr>eg_gen := g\<rparr>;
             e = (if um_PlatformMessageID m \<noteq> []
                  then e\<lparr>eg_ids := idMap_put (idKey (um_Channel m) (um_PlatformMessageID m)) (um_ID m)
                        (eg_ids e)\<rparr>
                  else e);
             m = m\<lparr>um_Ephemeral := \<not> eg_logging e\<rparr>;
             (m, e) = markFirstTime m e
         in Submit (MessageEvent m) e
     | MessageDeletedEvent ch pid mid \<Rightarrow>
         Submit (MessageDeletedEvent ch pid
           (if pid \<noteq> [] then idMap_get (idKey ch pid) (eg_ids e) else mid)) e
     | _ \<Rightarrow> Submit ev e)"

definition forward :: "('g \<Rightarrow> string \<times> 'g) \<Rightarrow> Event list \<Rightarrow> 'g engine \<Rightarrow> 'g engine" where
  "forward new evs e = fold (ingest new) evs e"

definition SetLogging :: "bool \<Rightarrow> 'g engine \<Rightarrow> 'g engine" where
  "SetLogging enabled e = e\<lparr>eg_logging := enabled\<rparr>"

definition Join :: "ChannelRef \<Rightarrow> ConnMode \<Rightarrow> 'g engine \<Rightarrow> engine_error option \<times> 'g engine" where
  "Join ch mode e =
    (case map_of (eg_adapters e) (ch_Platform ch) of
       None \<Rightarrow> (Some (NoAdapter (ch_Platform ch)), e)
     | Some a \<Rightarrow>
       let e = e\<lparr>eg_joined := AList.update (channelKey ch) ch (eg_joined e)\<rparr>
       in case ad_Join a ch mode of
            Some err \<Rightarrow> (Some (AdapterError err), e\<lparr>eg_joined := AList.delete (channelKey ch) (eg_joined e)\<rparr>)
          | None \<Rightarrow> (None, e))"

definition Leave :: "ChannelRef \<Rightarrow> 'g engine \<Rightarrow> engine_error option \<times> 'g engine" where
  "Leave ch e =
    (let a = map_of (eg_adapters e) (ch_Platform ch);
         e = e\<lparr>eg_joined := AList.delete (channelKey ch) (eg_joined e),
               eg_seen := (eg_seen e)(channelKey ch := None)\<rparr>
     in case a of
          None \<Rightarrow> (Some (NoAdapter (ch_Platform ch)), e)
        | Some a \<Rightarrow> (map_option AdapterError (ad_Leave a ch), e))"

definition eng_Capabilities :: "'g engine \<Rightarrow> (Platform \<times> Capabilities) list" where
  "eng_Capabilities e = map (\<lambda>(p, a). (p, ad_Capabilities a)) (eg_adapters e)"

text \<open>A \<^verbatim>\<open>ChannelStatus\<close> is the pair of the channel and the health of its adapter.\<close>

definition Channels :: "'g engine \<Rightarrow> (ChannelRef \<times> HealthStatus) list" where
  "Channels e = map (\<lambda>(_, ch). (ch,
     case map_of (eg_adapters e) (ch_Platform ch) of
       Some a \<Rightarrow> ad_Health a
     | None \<Rightarrow> \<lparr>hs_State = HealthOK, hs_Reason = ReasonNone, hs_Detail = []\<rparr>)) (eg_joined e)"

text \<open>\<open>Close\<close> answers the adapters it shuts.\<close>

definition Close :: "'g engine \<Rightarrow> Adapter list \<times> 'g engine" where
  "Close e = (if eg_closed e then ([], e)
     else (map snd (eg_adapters e), e\<lparr>eg_closed := True\<rparr>))"


subsection \<open>What each operation leaves alone\<close>

lemma markFirstTime_frame [frame]:
  assumes "markFirstTime m e = (m', e')"
  shows "eg_gen e' = eg_gen e" "eg_ids e' = eg_ids e" "eg_logging e' = eg_logging e"
    "eg_adapters e' = eg_adapters e" "eg_joined e' = eg_joined e" "eg_closed e' = eg_closed e"
    "eg_out e' = eg_out e" "m'\<lparr>um_Annotations := a\<rparr> = m\<lparr>um_Annotations := a\<rparr>"
    "um_ID m' = um_ID m" "um_Ephemeral m' = um_Ephemeral m" "um_Channel m' = um_Channel m"
    "um_Author m' = um_Author m" "um_PlatformMessageID m' = um_PlatformMessageID m"
  using assms by (auto simp: markFirstTime_def Let_def Annotate_def split: if_splits option.splits)

lemma Submit_frame [frame]:
  "eg_gen (Submit ev e) = eg_gen e" "eg_ids (Submit ev e) = eg_ids e"
  "eg_logging (Submit ev e) = eg_logging e" "eg_seen (Submit ev e) = eg_seen e"
  "eg_out (Submit ev e) = eg_out e @ [ev]"
  by (simp_all add: Submit_def)

text \<open>The id a message leaves with, and the identity the first-time set is keyed by.\<close>

definition minted :: "('g \<Rightarrow> string \<times> 'g) \<Rightarrow> UnifiedMessage \<Rightarrow> 'g engine \<Rightarrow> string" where
  "minted new m e = (if um_ID m = [] then fst (new (eg_gen e)) else um_ID m)"

definition chatter :: "UnifiedMessage \<Rightarrow> string \<times> string" where
  "chatter m = (channelKey (um_Channel m), author_key m)"

definition seen_set :: "'g engine \<Rightarrow> string \<Rightarrow> string list" where
  "seen_set e k = (case eg_seen e k of None \<Rightarrow> [] | Some s \<Rightarrow> s)"

text \<open>
  What the engine may change of an event: the id, the ephemeral flag and the annotations of a
  message, and the resolved message id of a deletion.
\<close>

fun relayed :: "bool \<Rightarrow> Event \<Rightarrow> Event \<Rightarrow> bool" where
  "relayed logging (MessageEvent m) (MessageEvent m') =
     (um_Ephemeral m' = (\<not> logging) \<and> (um_ID m \<noteq> [] \<longrightarrow> um_ID m' = um_ID m)
      \<and> (an_FirstTime (annotation m) \<longrightarrow> an_FirstTime (annotation m'))
      \<and> m' = m\<lparr>um_ID := um_ID m', um_Ephemeral := um_Ephemeral m',
               um_Annotations := um_Annotations m'\<rparr>)"
| "relayed logging (MessageDeletedEvent ch pid mid) (MessageDeletedEvent ch' pid' mid') =
     (ch' = ch \<and> pid' = pid)"
| "relayed logging ev ev' = (ev' = ev)"

lemma markFirstTime_message:
  assumes "markFirstTime m e = (m', e')"
  shows "m' = m\<lparr>um_Annotations := um_Annotations m'\<rparr>"
    and "an_FirstTime (annotation m) \<longrightarrow> an_FirstTime (annotation m')"
  using assms by (auto simp: markFirstTime_def Let_def Annotate_def annotation_def split: if_splits)

text \<open>Ingesting a message: the id is minted and recorded, then the first-message check runs.\<close>

lemma ingest_message:
  assumes "ev = MessageEvent m"
  obtains m1 e1 m' e' where "markFirstTime m1 e1 = (m', e')"
    "ingest new ev e = Submit (MessageEvent m') e'"
    "m1 = m\<lparr>um_ID := um_ID m1, um_Ephemeral := \<not> eg_logging e\<rparr>"
    "eg_out e1 = eg_out e" "eg_seen e1 = eg_seen e" "um_ID m1 = minted new m e"
proof -
  obtain u g where ug: "(if um_ID m = [] then new (eg_gen e) else (um_ID m, eg_gen e)) = (u, g)"
    by fastforce
  define m1 where "m1 = m\<lparr>um_ID := u, um_Ephemeral := \<not> eg_logging e\<rparr>"
  define e1 where "e1 = (if um_PlatformMessageID m \<noteq> []
     then e\<lparr>eg_gen := g, eg_ids := idMap_put (idKey (um_Channel m) (um_PlatformMessageID m)) u (eg_ids e)\<rparr>
     else e\<lparr>eg_gen := g\<rparr>)"
  obtain m' e' where me: "markFirstTime m1 e1 = (m', e')" by fastforce
  have "ingest new ev e = Submit (MessageEvent m') e'"
    using assms ug me by (auto simp: ingest_def m1_def e1_def Let_def)
  moreover have "um_ID m1 = minted new m e"
    using ug by (auto simp: m1_def minted_def split: if_splits)
  ultimately show thesis using that [OF me] by (simp add: m1_def e1_def)
qed

lemma ingest_out:
  "\<exists>ev'. eg_out (ingest new ev e) = eg_out e @ [ev'] \<and> relayed (eg_logging e) ev ev'"
proof (cases ev)
  case (MessageEvent m)
  then obtain m1 e1 m' e' where me: "markFirstTime m1 e1 = (m', e')"
    and ing: "ingest new ev e = Submit (MessageEvent m') e'"
    and m1: "m1 = m\<lparr>um_ID := um_ID m1, um_Ephemeral := \<not> eg_logging e\<rparr>"
    and e1: "eg_out e1 = eg_out e" and "um_ID m1 = minted new m e"
    by (rule ingest_message)
  moreover have "um_Annotations m1 = um_Annotations m" "um_Ephemeral m1 = (\<not> eg_logging e)"
    by (subst m1, simp)+
  moreover have "m'\<lparr>um_Annotations := a\<rparr> = m1\<lparr>um_Annotations := a\<rparr>" for a
    by (rule markFirstTime_frame(8) [OF me])
  ultimately have "relayed (eg_logging e) (MessageEvent m) (MessageEvent m')"
    using markFirstTime_message [OF me] markFirstTime_frame(9,10) [OF me] m1
    by (auto simp: annotation_def minted_def)
  moreover have "eg_out e' = eg_out e" using markFirstTime_frame(7) [OF me] e1 by simp
  ultimately show ?thesis using MessageEvent ing by (auto simp: Submit_frame)
qed (auto simp: ingest_def Submit_frame)

lemma ingest_logging [frame]: "eg_logging (ingest new ev e) = eg_logging e"
  by (auto simp: ingest_def Let_def frame split: Event.splits prod.splits)

lemma ingest_ids [frame]:
  "eg_ids (ingest new ev e) =
    (case ev of MessageEvent m \<Rightarrow>
       if um_PlatformMessageID m \<noteq> []
       then idMap_put (idKey (um_Channel m) (um_PlatformMessageID m)) (minted new m e) (eg_ids e)
       else eg_ids e
     | _ \<Rightarrow> eg_ids e)"
  by (auto simp: ingest_def minted_def Let_def frame split: Event.splits prod.splits if_splits)

subsection \<open>Ingest keeps every event, in order\<close>

lemma forward_out:
  "\<exists>outs. eg_out (forward new evs e) = eg_out e @ outs
     \<and> list_all2 (relayed (eg_logging e)) evs outs"
proof (induction evs arbitrary: e)
  case Nil
  then show ?case by (simp add: forward_def)
next
  case (Cons ev evs)
  obtain ev' where "eg_out (ingest new ev e) = eg_out e @ [ev']" "relayed (eg_logging e) ev ev'"
    using ingest_out by blast
  moreover obtain outs where "eg_out (forward new evs (ingest new ev e)) = eg_out (ingest new ev e) @ outs"
    "list_all2 (relayed (eg_logging e)) evs outs"
    using Cons.IH [of "ingest new ev e"] by (auto simp: ingest_logging)
  ultimately show ?case by (auto simp: forward_def)
qed

text \<open>
  C3. Forwarding an adapter's events submits exactly one event per event received, in the same
  order; a message differs from what the adapter sent at most in its id (kept when the adapter set
  one), its annotations and its ephemeral flag, which is set exactly when logging is off; a
  deletion differs at most in the resolved message id, and every other event is untouched.
\<close>

theorem forward_relays:
  "\<exists>outs. eg_out (forward new evs e) = eg_out e @ outs
     \<and> list_all2 (relayed (eg_logging e)) evs outs"
  by (rule forward_out)


subsection \<open>Deletions find their message\<close>

definition msg_key :: "Event \<Rightarrow> string option" where
  "msg_key ev = (case ev of MessageEvent m \<Rightarrow>
     if um_PlatformMessageID m \<noteq> [] then Some (idKey (um_Channel m) (um_PlatformMessageID m)) else None
   | _ \<Rightarrow> None)"

lemma idKey_not_Nil [simp]: "idKey ch p \<noteq> []"
  by (simp add: idKey_def)

lemma ingest_ids_key:
  "msg_key ev = None \<Longrightarrow> eg_ids (ingest new ev e) = eg_ids e"
  "msg_key ev = Some k \<Longrightarrow> k \<noteq> [] \<and> (\<exists>u. eg_ids (ingest new ev e) = idMap_put k u (eg_ids e))"
  by (auto simp: ingest_ids msg_key_def split: Event.splits if_splits)

lemma ingest_keeps_id:
  assumes wf: "idMap_wf (eg_ids e)" and r: "recent n j (eg_ids e)"
    and key: "msg_key ev = Some k" "k \<noteq> j" and lt: "Suc n < im_cap (eg_ids e)"
  shows "idMap_wf (eg_ids (ingest new ev e))" "recent (Suc n) j (eg_ids (ingest new ev e))"
    "idMap_get j (eg_ids (ingest new ev e)) = idMap_get j (eg_ids e)"
    "im_cap (eg_ids (ingest new ev e)) = im_cap (eg_ids e)"
proof -
  obtain u where u: "eg_ids (ingest new ev e) = idMap_put k u (eg_ids e)" and k: "k \<noteq> []"
    using ingest_ids_key(2) key(1) by blast
  have rec: "recent (Suc n) j (idMap_put k u (eg_ids e))" using recent_step wf r k lt by blast
  then show "recent (Suc n) j (eg_ids (ingest new ev e))" by (simp add: u)
  show "idMap_get j (eg_ids (ingest new ev e)) = idMap_get j (eg_ids e)"
    unfolding u by (rule idMap_put_other [OF wf k _ recent_mem [OF rec]]) (use key in simp)
qed (use ingest_ids_key(2) [OF key(1), of new e] idMap_wf_put [OF wf] in auto)

lemma forward_keeps_id:
  "idMap_wf (eg_ids e) \<Longrightarrow> recent n j (eg_ids e) \<Longrightarrow> Some j \<notin> set (map msg_key evs) \<Longrightarrow>
    n + length (filter (\<lambda>ev. msg_key ev \<noteq> None) evs) < im_cap (eg_ids e) \<Longrightarrow>
    idMap_get j (eg_ids (forward new evs e)) = idMap_get j (eg_ids e)"
proof (induction evs arbitrary: e n)
  case Nil
  then show ?case by (simp add: forward_def)
next
  case (Cons ev evs)
  show ?case
  proof (cases "msg_key ev = None")
    case True
    then have "eg_ids (ingest new ev e) = eg_ids e" by (rule ingest_ids_key)
    then show ?thesis using Cons.IH [of "ingest new ev e" n] Cons.prems True by (simp add: forward_def)
  next
    case False
    then obtain k where k: "msg_key ev = Some k" by blast
    then have lt: "Suc n < im_cap (eg_ids e)" and ne: "k \<noteq> j" using Cons.prems by auto
    note step = ingest_keeps_id [OF Cons.prems(1,2) k ne lt]
    then have "idMap_get j (eg_ids (forward new evs (ingest new ev e))) = idMap_get j (eg_ids (ingest new ev e))"
      using Cons.IH [of "ingest new ev e" "Suc n"] Cons.prems False by simp
    then show ?thesis using step(3) by (simp add: forward_def)
  qed
qed

text \<open>
  C20. A deletion resolves to the engine id of the message it removes: once a message with a new
  platform id was ingested, a deletion naming that id (in the same channel, whatever the case of
  the slug) is submitted with the message's ULID, provided fewer than the id map's capacity (8192)
  of identified messages came in between and none of them reused the platform id.
\<close>

theorem deletion_resolves:
  assumes wf: "idMap_wf (eg_ids e)"
    and pid: "um_PlatformMessageID m \<noteq> []"
    and fresh: "idKey (um_Channel m) (um_PlatformMessageID m) \<notin> set (im_keys (eg_ids e))"
    and others: "Some (idKey (um_Channel m) (um_PlatformMessageID m)) \<notin> set (map msg_key evs)"
    and few: "length (filter (\<lambda>ev. msg_key ev \<noteq> None) evs) < im_cap (eg_ids e)"
    and same: "channelKey ch = channelKey (um_Channel m)"
  shows "eg_out (ingest new (MessageDeletedEvent ch (um_PlatformMessageID m) x)
        (forward new evs (ingest new (MessageEvent m) e))) =
      eg_out (forward new evs (ingest new (MessageEvent m) e))
        @ [MessageDeletedEvent ch (um_PlatformMessageID m) (minted new m e)]"
proof -
  let ?k = "idKey (um_Channel m) (um_PlatformMessageID m)" and ?e = "ingest new (MessageEvent m) e"
  have ids: "eg_ids ?e = idMap_put ?k (minted new m e) (eg_ids e)"
    using pid by (simp add: ingest_ids)
  have "idMap_get ?k (eg_ids (forward new evs ?e)) = idMap_get ?k (eg_ids ?e)"
    by (rule forward_keeps_id [where n = 0])
      (use ids idMap_wf_put [OF wf] recent_put(2) [OF wf _ fresh] others few in simp_all)
  then have "idMap_get ?k (eg_ids (forward new evs ?e)) = minted new m e"
    by (simp add: ids idMap_get_put)
  moreover have "idKey ch (um_PlatformMessageID m) = ?k" using same by (simp add: idKey_def)
  ultimately show ?thesis using pid by (simp add: ingest_def Submit_frame)
qed


lemma im_keys_new [simp]: "im_keys (newIDMap c) = []"
  by (simp add: newIDMap_def im_keys_def Let_def filter_empty_conv)

theorem deletion_resolves_witness:
  "let m = chat_message (twitch_channel ''Virta'') ''p1'' ''ann'' ''hi'';
       n = chat_message (twitch_channel ''virta'') ''p2'' ''bob'' ''yo'';
       new = (\<lambda>g. (replicate g (CHR ''u''), Suc g))
   in last (eg_out (ingest new (MessageDeletedEvent (twitch_channel ''VIRTA'') ''p1'' [])
        (forward new [MessageEvent n] (ingest new (MessageEvent m) (New 1))))) =
      MessageDeletedEvent (twitch_channel ''VIRTA'') ''p1'' ''u''"
proof -
  let ?m = "chat_message (twitch_channel ''Virta'') ''p1'' ''ann'' ''hi''"
  let ?n = "chat_message (twitch_channel ''virta'') ''p2'' ''bob'' ''yo''"
  let ?new = "\<lambda>g. (replicate g (CHR ''u''), Suc g)"
  have k: "channelKey (twitch_channel ''VIRTA'') = ''twitch:virta''"
    "channelKey (twitch_channel ''Virta'') = ''twitch:virta''"
    "channelKey (twitch_channel ''virta'') = ''twitch:virta''" by code_simp+
  have p: "um_PlatformMessageID ?m = ''p1''" "um_Channel ?m = twitch_channel ''Virta''"
    "um_PlatformMessageID ?n = ''p2''" "um_Channel ?n = twitch_channel ''virta''" "um_ID ?m = []"
    by (simp_all add: chat_message_def)
  have "minted ?new ?m (New 1) = ''u''" by (simp add: minted_def p New_def)
  then show ?thesis
    using deletion_resolves [where e = "New 1" and m = ?m and evs = "[MessageEvent ?n]"
        and ch = "twitch_channel ''VIRTA''" and new = ?new and x = "[]"]
    by (simp add: p k idKey_def msg_key_def New_def idMap_wf_new) (simp add: newIDMap_def)
qed

subsection \<open>The first-message flag\<close>

text \<open>The submitted messages that carry the flag, as (channel key, author).\<close>

definition flagged :: "Event list \<Rightarrow> (string \<times> string) list" where
  "flagged evs = concat (map (\<lambda>ev. case ev of
     MessageEvent m \<Rightarrow> if an_FirstTime (annotation m) then [chatter m] else [] | _ \<Rightarrow> []) evs)"

lemma flagged_simps [simp]:
  "flagged [] = []" "flagged (xs @ ys) = flagged xs @ flagged ys"
  by (simp_all add: flagged_def)

lemma markFirstTime_flag:
  assumes "markFirstTime m e = (m', e')" "\<not> an_FirstTime (annotation m)"
  shows "an_FirstTime (annotation m') \<longleftrightarrow> um_Type m = TypeChat \<and> author_key m \<noteq> []
      \<and> author_key m \<notin> set (seen_set e (channelKey (um_Channel m)))
      \<and> length (seen_set e (channelKey (um_Channel m))) < seenCapPerChannel"
    and "seen_set e' k = (if an_FirstTime (annotation m') \<and> k = channelKey (um_Channel m)
      then author_key m # seen_set e k else seen_set e k)"
  using assms by (auto simp: markFirstTime_def Let_def Annotate_def annotation_def seen_set_def
      no_annotations_def split: if_splits option.splits)

text \<open>The chatters an event introduces: a chat message with an author not seen in its channel.\<close>

definition newcomers :: "'g engine \<Rightarrow> Event \<Rightarrow> (string \<times> string) list" where
  "newcomers e ev = (case ev of MessageEvent m \<Rightarrow>
     if um_Type m = TypeChat \<and> author_key m \<noteq> []
        \<and> author_key m \<notin> set (seen_set e (channelKey (um_Channel m))) then [chatter m] else []
   | _ \<Rightarrow> [])"

lemma ingest_flag:
  assumes noflag: "\<And>m. ev = MessageEvent m \<Longrightarrow> \<not> an_FirstTime (annotation m)"
    and room: "\<And>k. length (seen_set e k) < seenCapPerChannel"
  shows "flagged (eg_out (ingest new ev e)) = flagged (eg_out e) @ newcomers e ev"
    and "set (seen_set (ingest new ev e) k) = set (seen_set e k) \<union> {a. (k, a) \<in> set (newcomers e ev)}"
    and "length (seen_set (ingest new ev e) k) \<le> Suc (length (seen_set e k))"
proof -
  have "flagged (eg_out (ingest new ev e)) = flagged (eg_out e) @ newcomers e ev
     \<and> set (seen_set (ingest new ev e) k) = set (seen_set e k) \<union> {a. (k, a) \<in> set (newcomers e ev)}
     \<and> length (seen_set (ingest new ev e) k) \<le> Suc (length (seen_set e k))"
  proof (cases ev)
    case (MessageEvent m)
    then obtain m1 e1 m' e' where me: "markFirstTime m1 e1 = (m', e')"
      and ing: "ingest new ev e = Submit (MessageEvent m') e'"
      and m1: "m1 = m\<lparr>um_ID := um_ID m1, um_Ephemeral := \<not> eg_logging e\<rparr>"
      and e1: "eg_out e1 = eg_out e" "eg_seen e1 = eg_seen e"
      by (rule ingest_message)
    have mm: "um_Annotations m1 = um_Annotations m" "chatter m1 = chatter m" "author_key m1 = author_key m"
      "um_Channel m1 = um_Channel m" "um_Type m1 = um_Type m"
      by (subst m1, simp add: chatter_def author_key_def)+
    have se: "seen_set e1 = seen_set e" by (simp add: seen_set_def e1 fun_eq_iff)
    have "\<not> an_FirstTime (annotation m1)"
      using noflag [OF MessageEvent] mm by (simp add: annotation_def)
    note fl = markFirstTime_flag [OF me this]
    have new: "newcomers e ev = (if an_FirstTime (annotation m') then [chatter m] else [])"
      using fl(1) room by (simp add: MessageEvent newcomers_def mm se)
    have "chatter m' = chatter m" "eg_out e' = eg_out e"
      using markFirstTime_frame(7,11,12) [OF me] mm e1 by (auto simp: chatter_def author_key_def)
    then have "flagged (eg_out (ingest new ev e)) = flagged (eg_out e) @ newcomers e ev"
      by (simp add: ing Submit_frame flagged_def new)
    moreover have "seen_set (ingest new ev e) k = seen_set e' k"
      by (simp add: ing seen_set_def Submit_frame)
    ultimately show ?thesis using fl(2) [of k] by (auto simp: new chatter_def mm se)
  qed (auto simp: ingest_def Submit_frame flagged_def seen_set_def newcomers_def)
  then show "flagged (eg_out (ingest new ev e)) = flagged (eg_out e) @ newcomers e ev"
    and "set (seen_set (ingest new ev e) k) = set (seen_set e k) \<union> {a. (k, a) \<in> set (newcomers e ev)}"
    and "length (seen_set (ingest new ev e) k) \<le> Suc (length (seen_set e k))" by blast+
qed

lemma newcomers_mono:
  assumes "\<And>k. set (seen_set e' k) = set (seen_set e k) \<union> {a. (k, a) \<in> X}"
  shows "set (newcomers e' ev) = set (newcomers e ev) - X"
  using assms by (auto simp: newcomers_def chatter_def split: Event.splits)

lemma newcomers_unseen: "(k, a) \<in> set (newcomers e ev) \<Longrightarrow> a \<notin> set (seen_set e k)"
  by (auto simp: newcomers_def chatter_def split: Event.splits if_splits)

lemma newcomers_distinct: "distinct (newcomers e ev)"
  by (auto simp: newcomers_def split: Event.splits)

lemma forward_flagged:
  assumes "\<forall>m. MessageEvent m \<in> set evs \<longrightarrow> \<not> an_FirstTime (annotation m)"
    and "\<forall>k. length (seen_set e k) + length evs \<le> seenCapPerChannel"
  shows "\<exists>fs. flagged (eg_out (forward new evs e)) = flagged (eg_out e) @ fs \<and> distinct fs
     \<and> set fs = (\<Union>ev \<in> set evs. set (newcomers e ev))"
  using assms
proof (induction evs arbitrary: e)
  case Nil
  then show ?case by (auto simp: forward_def)
next
  case (Cons ev evs)
  have room: "length (seen_set e k) < seenCapPerChannel" for k
    using Cons.prems(2) [rule_format, of k] by simp
  note step = ingest_flag [of ev e, OF _ room, of new]
  have noflag: "\<And>m. ev = MessageEvent m \<Longrightarrow> \<not> an_FirstTime (annotation m)" using Cons.prems(1) by auto
  have "length (seen_set (ingest new ev e) k) + length evs \<le> seenCapPerChannel" for k
    using step(3) [OF noflag, where k = k] Cons.prems(2) [rule_format, of k] by simp
  then obtain gs where gs: "flagged (eg_out (forward new evs (ingest new ev e))) =
      flagged (eg_out (ingest new ev e)) @ gs" "distinct gs"
    "set gs = (\<Union>x \<in> set evs. set (newcomers (ingest new ev e) x))"
    using Cons.IH [of "ingest new ev e"] Cons.prems(1) by auto
  have "set gs = (\<Union>x \<in> set evs. set (newcomers e x)) - set (newcomers e ev)"
    using gs(3) newcomers_mono [OF step(2) [OF noflag]] by auto
  then have "distinct (newcomers e ev @ gs)"
    "set (newcomers e ev @ gs) = (\<Union>x \<in> set (ev # evs). set (newcomers e x))"
    using gs(2) newcomers_distinct by auto
  moreover have "flagged (eg_out (forward new (ev # evs) e)) = flagged (eg_out e) @ newcomers e ev @ gs"
    using gs(1) step(1) [OF noflag] by (simp add: forward_def)
  ultimately show ?case by blast
qed

text \<open>
  Over any sequence of events in which no adapter sets the first-message flag itself, and while
  the per-channel set (100000 authors) has room, the engine flags every author not seen before in
  the channel, exactly once: the flagged messages have pairwise different (channel, author) pairs,
  and those pairs are the chatters of the sequence that were not in the set.
\<close>

theorem first_time_once:
  assumes "\<forall>m. MessageEvent m \<in> set evs \<longrightarrow> \<not> an_FirstTime (annotation m)"
    and "\<forall>k. length (seen_set e k) + length evs \<le> seenCapPerChannel"
  shows "\<exists>outs. eg_out (forward new evs e) = eg_out e @ outs \<and> distinct (flagged outs)
     \<and> set (flagged outs) = (\<Union>ev \<in> set evs. set (newcomers e ev))"
proof -
  obtain fs where "flagged (eg_out (forward new evs e)) = flagged (eg_out e) @ fs" "distinct fs"
    "set fs = (\<Union>ev \<in> set evs. set (newcomers e ev))" using forward_flagged [OF assms] by blast
  moreover have "\<exists>outs. eg_out (forward new evs e) = eg_out e @ outs"
    using forward_out by blast
  ultimately show ?thesis by auto
qed

theorem first_time_once_witness:
  "let m = (\<lambda>a. MessageEvent (chat_message (twitch_channel ''v'') [] a ''hi''));
       new = (\<lambda>g. (''u'', Suc g))
   in \<exists>outs. eg_out (forward new [m ''ann'', m ''bob'', m ''ann''] (New (0 :: nat))) = outs
     \<and> distinct (flagged outs) \<and> set (flagged outs) = {(''twitch:v'', ''ann''), (''twitch:v'', ''bob'')}"
proof -
  let ?m = "\<lambda>a. MessageEvent (chat_message (twitch_channel ''v'') [] a ''hi'')"
  have k: "channelKey (twitch_channel ''v'') = ''twitch:v''" by code_simp
  have "newcomers (New (0 :: nat)) (?m a) = (if a = [] then [] else [(''twitch:v'', a)])" for a
    by (simp add: newcomers_def chat_message_def author_key_def New_def seen_set_def chatter_def k)
  moreover have "\<not> an_FirstTime (annotation (chat_message c p a t))" for c p a t
    by (simp add: chat_message_def annotation_def no_annotations_def)
  moreover have "seen_set (New (0 :: nat)) k = []" "eg_out (New (0 :: nat)) = []" for k
    by (simp_all add: seen_set_def New_def)
  ultimately show ?thesis
    using first_time_once [of "[?m ''ann'', ?m ''bob'', ?m ''ann'']" "New (0 :: nat)" "\<lambda>g. (''u'', Suc g)"]
    by auto
qed


subsection \<open>Joined channels\<close>

definition joined_wf :: "'g engine \<Rightarrow> bool" where
  "joined_wf e = (keys_distinct (eg_joined e) \<and> keys_distinct (eg_adapters e)
     \<and> (\<forall>(k, ch) \<in> set (eg_joined e). k = channelKey ch \<and> ch_Platform ch \<in> fst ` set (eg_adapters e)))"

lemma joined_wf_New: "joined_wf (New g)"
  by (simp add: joined_wf_def New_def)

lemma joined_wf_delete:
  "joined_wf e \<Longrightarrow> joined_wf (e\<lparr>eg_joined := AList.delete k (eg_joined e)\<rparr>)"
  using set_delete_subset [of k "eg_joined e"] by (auto simp: joined_wf_def)

lemma joined_wf_Join: "joined_wf e \<Longrightarrow> joined_wf (snd (Join ch mode e))"
proof (cases "map_of (eg_adapters e) (ch_Platform ch)")
  case (Some a)
  assume wf: "joined_wf e"
  have "ch_Platform ch \<in> fst ` set (eg_adapters e)" using Some by (force dest: map_of_SomeD)
  then have "joined_wf (e\<lparr>eg_joined := AList.update (channelKey ch) ch (eg_joined e)\<rparr>)"
    using wf set_update_subset [of "channelKey ch" ch "eg_joined e"]
    by (auto simp: joined_wf_def)
  then show ?thesis
    using Some joined_wf_delete by (fastforce simp: Join_def Let_def split: option.splits)
qed (simp add: Join_def)

lemma joined_wf_Leave: "joined_wf e \<Longrightarrow> joined_wf (snd (Leave ch e))"
  using set_delete_subset [of "channelKey ch" "eg_joined e"]
  by (auto simp: joined_wf_def Leave_def Let_def split: option.splits)

lemma joined_wf_Register: "joined_wf e \<Longrightarrow> joined_wf (Register a e)"
  by (fastforce simp: joined_wf_def Register_def dom_update)

text \<open>The control-plane calls in any order, and the listing they lead to.\<close>

inductive control :: "'g engine \<Rightarrow> 'g engine \<Rightarrow> bool" where
  "control e (Register a e)"
| "control e (snd (Join ch mode e))"
| "control e (snd (Leave ch e))"
| "control e (SetLogging on e)"
| "control e (snd (Close e))"
| "control e (ingest new ev e)"

lemma joined_ingest [frame]:
  "eg_joined (ingest new ev e) = eg_joined e" "eg_adapters (ingest new ev e) = eg_adapters e"
  by (auto simp: ingest_def Submit_def Let_def frame split: Event.splits prod.splits)

lemma joined_wf_frame:
  "eg_joined e' = eg_joined e \<Longrightarrow> eg_adapters e' = eg_adapters e \<Longrightarrow> joined_wf e \<Longrightarrow> joined_wf e'"
  by (simp add: joined_wf_def)

lemma joined_wf_control: "control\<^sup>*\<^sup>* e e' \<Longrightarrow> joined_wf e \<Longrightarrow> joined_wf e'"
proof (induction rule: rtranclp_induct)
  case (step x y)
  from step.hyps(2) step.IH [OF step.prems] show ?case
    by (cases rule: control.cases)
      (auto simp: joined_wf_Join joined_wf_Leave joined_wf_Register SetLogging_def Close_def
        joined_ingest elim: joined_wf_frame [rotated 2])
qed

lemma Channels_wf:
  assumes wf: "joined_wf e"
  shows "map (\<lambda>(ch, h). channelKey ch) (Channels e) = map fst (eg_joined e)"
    and "(ch, h) \<in> set (Channels e) \<Longrightarrow>
      \<exists>a. map_of (eg_adapters e) (ch_Platform ch) = Some a \<and> h = ad_Health a"
proof -
  show "map (\<lambda>(ch, h). channelKey ch) (Channels e) = map fst (eg_joined e)"
    using wf by (auto simp: Channels_def joined_wf_def case_prod_beta)
  assume c: "(ch, h) \<in> set (Channels e)"
  then have "ch_Platform ch \<in> fst ` set (eg_adapters e)" using wf
    by (auto simp: Channels_def joined_wf_def)
  then obtain a where "map_of (eg_adapters e) (ch_Platform ch) = Some a"
    by (metis map_of_None_iff not_None_eq)
  with c show "\<exists>a. map_of (eg_adapters e) (ch_Platform ch) = Some a \<and> h = ad_Health a"
    by (auto simp: Channels_def)
qed

text \<open>
  Whatever sequence of calls an engine has served, listing the channels shows each joined
  channel once, with the health of the adapter registered for its platform; and a further join
  adds exactly the joined channel when the adapter accepts it, while a join the adapter refuses or
  a leave removes it and leaves every other entry as it was.
\<close>

theorem channels_listing:
  assumes "control\<^sup>*\<^sup>* (New g) e"
  shows "distinct (map (\<lambda>(ch, h). channelKey ch) (Channels e))
    \<and> (\<forall>(ch, h) \<in> set (Channels e).
        \<exists>a. map_of (eg_adapters e) (ch_Platform ch) = Some a \<and> h = ad_Health a)
    \<and> (\<forall>ch mode. case fst (Join ch mode e) of
         None \<Rightarrow> map_of (eg_joined (snd (Join ch mode e))) = (map_of (eg_joined e))(channelKey ch \<mapsto> ch)
       | Some (AdapterError _) \<Rightarrow>
           map_of (eg_joined (snd (Join ch mode e))) = (map_of (eg_joined e))(channelKey ch := None)
       | Some (NoAdapter _) \<Rightarrow> snd (Join ch mode e) = e)
    \<and> (\<forall>ch. map_of (eg_joined (snd (Leave ch e))) = (map_of (eg_joined e))(channelKey ch := None))"
proof (intro conjI allI)
  have wf: "joined_wf e" by (rule joined_wf_control [OF assms joined_wf_New])
  then show "distinct (map (\<lambda>(ch, h). channelKey ch) (Channels e))"
    by (simp add: Channels_wf joined_wf_def)
  show "\<forall>(ch, h) \<in> set (Channels e). \<exists>a. map_of (eg_adapters e) (ch_Platform ch) = Some a \<and> h = ad_Health a"
    using Channels_wf(2) [OF wf] by blast
qed (auto simp: Join_def Leave_def Let_def fun_eq_iff split: option.splits)

definition quiet_adapter :: "Platform \<Rightarrow> Adapter" where
  "quiet_adapter p = \<lparr>ad_Platform = p,
     ad_Capabilities = \<lparr>ReadAnonymous = True, ReadAuthed = False, cap_Send = False,
       cap_Moderation = False, cap_Replies = False, HeldQueue = False, Stability = TierOfficial\<rparr>,
     ad_Join = (\<lambda>_ _. None), ad_Leave = (\<lambda>_. None), ad_Send = (\<lambda>_ _ _. Some ErrUnsupported),
     ad_Moderate = (\<lambda>_. Some ErrUnsupported),
     ad_Health = \<lparr>hs_State = HealthOK, hs_Reason = ReasonNone, hs_Detail = []\<rparr>\<rparr>"

theorem channels_listing_witness:
  "let e = snd (Join (twitch_channel ''v'') ModeAnonymous (Register (quiet_adapter Twitch) (New (0 :: nat))))
   in distinct (map (\<lambda>(ch, h). channelKey ch) (Channels e)) \<and> Channels e \<noteq> []"
proof -
  let ?r = "Register (quiet_adapter Twitch) (New (0 :: nat))"
  have c: "control\<^sup>*\<^sup>* (New (0 :: nat)) (snd (Join (twitch_channel ''v'') ModeAnonymous ?r))"
    by (meson control.intros(1,2) converse_rtranclp_into_rtranclp r_into_rtranclp)
  have "Channels (snd (Join (twitch_channel ''v'') ModeAnonymous ?r)) \<noteq> []"
    by (simp add: Join_def Register_def New_def quiet_adapter_def twitch_channel_def Channels_def Let_def)
  then show ?thesis using channels_listing [OF c] by (simp add: Let_def)
qed

end
