(* ===== verification/Pipeline.thy ===== *)
theory Pipeline
  imports Platform
begin

text \<open>
  \<^verbatim>\<open>internal/pipeline\<close>: the runner that stamps each message, runs the ordered stages and fans every
  event out to the sinks (\<^verbatim>\<open>runner.go\<close>, with the \<^verbatim>\<open>Stage\<close> and \<^verbatim>\<open>Sink\<close> ports of \<^verbatim>\<open>port.go\<close>).

  A stage is a function on the message and on whatever state the stages keep (\<open>'w\<close>); its three
  outcomes are success, an error and a panic. The goroutines are the rules of the step relation
  \<open>rn_step\<close>: a submit, one turn of the dispatcher, one turn of a sink worker, \<^verbatim>\<open>Close\<close>, and the exits
  of the dispatcher and the workers once \<open>quit\<close> is closed. A turn is atomic: the sources give one
  dispatcher and one worker per sink, which meet only in the sink's channel. The fields \<open>rn_accepted\<close>,
  \<open>rn_fanout\<close> and \<open>sw_consumed\<close> record what happened, in order; no operation reads them.
\<close>

subsection \<open>Stages, sinks and the runner's state\<close>

datatype stage_result = StageOk UnifiedMessage | StageError | StagePanic

type_synonym 'w stage = "'w \<Rightarrow> UnifiedMessage \<Rightarrow> stage_result \<times> 'w"

record sinkWorker =
  sw_name :: string
  sw_fails :: "Event \<Rightarrow> bool"
  sw_cap :: nat
  sw_ch :: "Event list"
  sw_drops :: nat
  sw_errors :: nat
  sw_running :: bool
  sw_consumed :: "Event list"

record 'w runner =
  rn_stages :: "'w stage list"
  rn_world :: 'w
  rn_in :: "Event list"
  rn_inCap :: nat
  rn_quit :: bool
  rn_dispatching :: bool
  rn_sinks :: "sinkWorker list"
  rn_dispatched :: nat
  rn_stagePanics :: nat
  rn_stageErrors :: nat
  rn_submitDrops :: nat
  rn_accepted :: "Event list"
  rn_fanout :: "Event list"

abbreviation defaultIngestBuffer :: int where "defaultIngestBuffer \<equiv> 4096"
abbreviation defaultSinkBuffer :: int where "defaultSinkBuffer \<equiv> 5000"

definition newSinkWorker :: "string \<times> (Event \<Rightarrow> bool) \<Rightarrow> int \<Rightarrow> sinkWorker" where
  "newSinkWorker s buf = \<lparr>sw_name = fst s, sw_fails = snd s, sw_cap = nat buf, sw_ch = [],
     sw_drops = 0, sw_errors = 0, sw_running = True, sw_consumed = []\<rparr>"

definition NewRunner :: "'w stage list \<Rightarrow> 'w \<Rightarrow> (string \<times> (Event \<Rightarrow> bool)) list \<Rightarrow> int \<Rightarrow> int \<Rightarrow> 'w runner" where
  "NewRunner stages w sinks ingestBuffer sinkBuffer =
    (let ingestBuffer = (if ingestBuffer \<le> 0 then defaultIngestBuffer else ingestBuffer);
         sinkBuffer = (if sinkBuffer \<le> 0 then defaultSinkBuffer else sinkBuffer)
     in \<lparr>rn_stages = stages, rn_world = w, rn_in = [], rn_inCap = nat ingestBuffer, rn_quit = False,
         rn_dispatching = True, rn_sinks = map (\<lambda>s. newSinkWorker s sinkBuffer) sinks,
         rn_dispatched = 0, rn_stagePanics = 0, rn_stageErrors = 0, rn_submitDrops = 0,
         rn_accepted = [], rn_fanout = []\<rparr>)"

subsection \<open>Operations\<close>

text \<open>\<^verbatim>\<open>push\<close>: send, or drop the oldest queued event and try again. One retry is enough here.\<close>

definition push :: "Event \<Rightarrow> sinkWorker \<Rightarrow> sinkWorker" where
  "push ev w = (if length (sw_ch w) < sw_cap w then w\<lparr>sw_ch := sw_ch w @ [ev]\<rparr>
     else w\<lparr>sw_ch := tl (sw_ch w) @ [ev], sw_drops := sw_drops w + 1\<rparr>)"

definition consume :: "sinkWorker \<Rightarrow> sinkWorker" where
  "consume w = (case sw_ch w of [] \<Rightarrow> w
     | ev # rest \<Rightarrow> w\<lparr>sw_ch := rest, sw_consumed := sw_consumed w @ [ev],
         sw_errors := (if sw_fails w ev then sw_errors w + 1 else sw_errors w)\<rparr>)"

text \<open>\<open>runStage\<close> and \<open>runStages\<close> answer None when the message is dropped.\<close>

definition runStage :: "'w stage \<Rightarrow> UnifiedMessage \<Rightarrow> 'w runner \<Rightarrow> UnifiedMessage option \<times> 'w runner" where
  "runStage st msg r =
    (case st (rn_world r) msg of
       (StagePanic, w) \<Rightarrow> (None, r\<lparr>rn_world := w, rn_stagePanics := rn_stagePanics r + 1\<rparr>)
     | (StageError, w) \<Rightarrow> (None, r\<lparr>rn_world := w, rn_stageErrors := rn_stageErrors r + 1\<rparr>)
     | (StageOk msg', w) \<Rightarrow> (Some msg', r\<lparr>rn_world := w\<rparr>))"

fun runStages :: "'w stage list \<Rightarrow> UnifiedMessage \<Rightarrow> 'w runner \<Rightarrow> UnifiedMessage option \<times> 'w runner" where
  "runStages [] msg r = (Some msg, r)"
| "runStages (st # sts) msg r =
     (case runStage st msg r of
        (None, r) \<Rightarrow> (None, r)
      | (Some msg, r) \<Rightarrow> runStages sts msg r)"

definition fan_out :: "Event \<Rightarrow> 'w runner \<Rightarrow> 'w runner" where
  "fan_out ev r = r\<lparr>rn_dispatched := rn_dispatched r + 1, rn_sinks := map (push ev) (rn_sinks r),
     rn_fanout := rn_fanout r @ [ev]\<rparr>"

definition process :: "time \<Rightarrow> Event \<Rightarrow> 'w runner \<Rightarrow> 'w runner" where
  "process now ev r =
    (case ev of
       MessageEvent msg \<Rightarrow>
         let msg = (if um_ReceivedAt msg = zero_time then msg\<lparr>um_ReceivedAt := now\<rparr> else msg)
         in (case runStages (rn_stages r) msg r of
               (None, r) \<Rightarrow> r
             | (Some msg, r) \<Rightarrow> fan_out (MessageEvent msg) r)
     | _ \<Rightarrow> fan_out ev r)"

record Stats =
  st_Dispatched :: nat
  st_StagePanics :: nat
  st_StageErrors :: nat
  st_SubmitDrops :: nat
  st_SinkDrops :: "(string \<times> nat) list"
  st_SinkErrors :: "(string \<times> nat) list"

definition runner_Stats :: "'w runner \<Rightarrow> Stats" where
  "runner_Stats r = \<lparr>st_Dispatched = rn_dispatched r, st_StagePanics = rn_stagePanics r,
     st_StageErrors = rn_stageErrors r, st_SubmitDrops = rn_submitDrops r,
     st_SinkDrops = fold (\<lambda>w m. AList.update (sw_name w) (sw_drops w) m) (rn_sinks r) [],
     st_SinkErrors = fold (\<lambda>w m. AList.update (sw_name w) (sw_errors w) m) (rn_sinks r) []\<rparr>"

text \<open>
  The goroutines. \<^verbatim>\<open>Submit\<close> waits for room in the ingest queue or gives up once \<open>quit\<close> is closed (a
  select with both ready may take either); the dispatcher and the workers exit when they find
  \<open>quit\<close> closed and their queue empty.
\<close>

inductive rn_step :: "'w runner \<Rightarrow> 'w runner \<Rightarrow> bool" where
  submit: "length (rn_in r) < rn_inCap r \<Longrightarrow>
    rn_step r (r\<lparr>rn_in := rn_in r @ [ev], rn_accepted := rn_accepted r @ [ev]\<rparr>)"
| submit_quit: "rn_quit r \<Longrightarrow> rn_step r (r\<lparr>rn_submitDrops := rn_submitDrops r + 1\<rparr>)"
| dispatch: "rn_dispatching r \<Longrightarrow> rn_in r = ev # rest \<Longrightarrow>
    rn_step r (process now ev (r\<lparr>rn_in := rest\<rparr>))"
| dispatch_exit: "rn_dispatching r \<Longrightarrow> rn_quit r \<Longrightarrow> rn_in r = [] \<Longrightarrow>
    rn_step r (r\<lparr>rn_dispatching := False\<rparr>)"
| work: "i < length (rn_sinks r) \<Longrightarrow> sw_running (rn_sinks r ! i) \<Longrightarrow> sw_ch (rn_sinks r ! i) \<noteq> [] \<Longrightarrow>
    rn_step r (r\<lparr>rn_sinks := (rn_sinks r)[i := consume (rn_sinks r ! i)]\<rparr>)"
| work_exit: "i < length (rn_sinks r) \<Longrightarrow> rn_quit r \<Longrightarrow> sw_ch (rn_sinks r ! i) = [] \<Longrightarrow>
    rn_step r (r\<lparr>rn_sinks := (rn_sinks r)[i := (rn_sinks r ! i)\<lparr>sw_running := False\<rparr>]\<rparr>)"
| close: "rn_step r (r\<lparr>rn_quit := True\<rparr>)"

subsection \<open>The sink's ring is a drop-oldest buffer\<close>

definition sw_wf :: "nat \<Rightarrow> sinkWorker \<Rightarrow> bool" where
  "sw_wf n w = (0 < n \<and> sw_cap w = n \<and> length (sw_ch w) \<le> n)"

lemma sw_ch_push:
  "sw_wf n w \<Longrightarrow> sw_ch (push ev w) = last_n n (sw_ch w @ [ev])"
  by (auto simp: sw_wf_def push_def last_n_id last_n_Suc_full)

lemma push_frame [frame, simp]:
  "sw_name (push ev w) = sw_name w" "sw_fails (push ev w) = sw_fails w" "sw_cap (push ev w) = sw_cap w"
  "sw_errors (push ev w) = sw_errors w" "sw_running (push ev w) = sw_running w"
  "sw_consumed (push ev w) = sw_consumed w"
  by (simp_all add: push_def)

lemma sw_wf_push: "sw_wf n w \<Longrightarrow> sw_wf n (push ev w)"
  using sw_ch_push [of n w ev] by (simp add: sw_wf_def)

interpretation sink_ring: drop_oldest push sw_ch "Suc n" "sw_wf (Suc n)"
  by unfold_locales (auto simp: sw_wf_push sw_ch_push, simp add: sw_wf_def)


subsection \<open>What a stage may change\<close>

text \<open>
  The part of an event no stage touches: everything but a message's segments, annotations, author
  badges and receive time.
\<close>

definition ev_core :: "Event \<Rightarrow> Event" where
  "ev_core ev = (case ev of
     MessageEvent m \<Rightarrow> MessageEvent (m\<lparr>um_Segments := [], um_Annotations := None, um_ReceivedAt := 0,
       um_Author := (um_Author m)\<lparr>au_Badges := []\<rparr>\<rparr>)
   | _ \<Rightarrow> ev)"

lemma ev_core_Annotate [simp]: "ev_core (MessageEvent (Annotate f m)) = ev_core (MessageEvent m)"
  by (simp add: ev_core_def Annotate_def)

lemma ev_core_Segments [simp]: "ev_core (MessageEvent (m\<lparr>um_Segments := ss\<rparr>)) = ev_core (MessageEvent m)"
  by (simp add: ev_core_def)

locale annotation_stage =
  fixes annotate :: "'w stage"
  assumes core: "annotate w m = (StageOk m', w') \<Longrightarrow> ev_core (MessageEvent m') = ev_core (MessageEvent m)"
begin

lemma runStage_core:
  "runStage annotate m r = (Some m', r') \<Longrightarrow> ev_core (MessageEvent m') = ev_core (MessageEvent m)"
  by (auto simp: runStage_def core split: prod.splits stage_result.splits)

end

lemma runStages_core:
  "\<forall>st \<in> set sts. annotation_stage st \<Longrightarrow> runStages sts m r = (Some m', r') \<Longrightarrow>
    ev_core (MessageEvent m') = ev_core (MessageEvent m)"
proof (induction sts m r rule: runStages.induct)
  case (2 st sts m r)
  then obtain m1 r1 where 1: "runStage st m r = (Some m1, r1)" "runStages sts m1 r1 = (Some m', r')"
    by (auto split: prod.splits option.splits)
  then have "ev_core (MessageEvent m1) = ev_core (MessageEvent m)"
    using annotation_stage.runStage_core "2.prems"(1) by (metis list.set_intros(1))
  then show ?case using 1 "2.IH" [OF 1(1) [symmetric] refl] "2.prems"(1) by simp
qed simp

lemma runStage_frame [frame]:
  assumes "runStage st m r = (res, r')"
  shows "rn_stages r' = rn_stages r" "rn_in r' = rn_in r" "rn_inCap r' = rn_inCap r"
    "rn_quit r' = rn_quit r" "rn_dispatching r' = rn_dispatching r" "rn_sinks r' = rn_sinks r"
    "rn_dispatched r' = rn_dispatched r" "rn_submitDrops r' = rn_submitDrops r"
    "rn_accepted r' = rn_accepted r" "rn_fanout r' = rn_fanout r"
    "rn_stagePanics r' + rn_stageErrors r' =
       rn_stagePanics r + rn_stageErrors r + (if res = None then 1 else 0)"
  using assms by (auto simp: runStage_def split: prod.splits stage_result.splits)

lemma runStages_frame [frame]:
  assumes "runStages sts m r = (res, r')"
  shows "rn_stages r' = rn_stages r" "rn_in r' = rn_in r" "rn_inCap r' = rn_inCap r"
    "rn_quit r' = rn_quit r" "rn_dispatching r' = rn_dispatching r" "rn_sinks r' = rn_sinks r"
    "rn_dispatched r' = rn_dispatched r" "rn_submitDrops r' = rn_submitDrops r"
    "rn_accepted r' = rn_accepted r" "rn_fanout r' = rn_fanout r"
    "rn_stagePanics r' + rn_stageErrors r' =
       rn_stagePanics r + rn_stageErrors r + (if res = None then 1 else 0)"
  using assms
  by (induction sts m r rule: runStages.induct)
    (auto split: prod.splits option.splits simp: runStage_frame)

text \<open>A turn of the dispatcher drops the event to a counter, or fans out one event with its core.\<close>

lemma process_cases:
  assumes "\<forall>st \<in> set (rn_stages r). annotation_stage st"
  obtains (dropped) r' where "process now ev r = r'" "rn_sinks r' = rn_sinks r"
      "rn_fanout r' = rn_fanout r" "rn_accepted r' = rn_accepted r" "rn_in r' = rn_in r"
      "rn_stages r' = rn_stages r" "rn_dispatched r' = rn_dispatched r"
      "rn_stagePanics r' + rn_stageErrors r' = Suc (rn_stagePanics r + rn_stageErrors r)"
  | (fanned) ev' r' where "process now ev r = fan_out ev' r'" "ev_core ev' = ev_core ev"
      "rn_sinks r' = rn_sinks r" "rn_fanout r' = rn_fanout r" "rn_accepted r' = rn_accepted r"
      "rn_in r' = rn_in r" "rn_stages r' = rn_stages r" "rn_dispatched r' = rn_dispatched r"
      "rn_stagePanics r' + rn_stageErrors r' = rn_stagePanics r + rn_stageErrors r"
proof (cases ev)
  case (MessageEvent msg)
  let ?m = "if um_ReceivedAt msg = zero_time then msg\<lparr>um_ReceivedAt := now\<rparr> else msg"
  have m: "ev_core (MessageEvent ?m) = ev_core ev" by (simp add: MessageEvent ev_core_def)
  obtain res r' where res: "runStages (rn_stages r) ?m r = (res, r')" by fastforce
  note f = runStages_frame [OF res]
  show thesis
  proof (cases res)
    case None
    then have "process now ev r = r'" using res MessageEvent by (simp add: process_def Let_def)
    then show thesis using dropped f None by simp
  next
    case (Some m')
    then have "process now ev r = fan_out (MessageEvent m') r'"
      using res MessageEvent by (simp add: process_def Let_def)
    moreover have "ev_core (MessageEvent m') = ev_core ev"
      using runStages_core [OF assms] res Some m by metis
    ultimately show thesis using fanned f Some by simp
  qed
qed (auto simp: process_def intro: fanned)

subsection \<open>Accounting\<close>

definition sink_inv :: "Event list \<Rightarrow> sinkWorker \<Rightarrow> bool" where
  "sink_inv out w = (sw_wf (sw_cap w) w \<and> subseq (sw_consumed w @ sw_ch w) out
     \<and> length out = length (sw_consumed w) + length (sw_ch w) + sw_drops w
     \<and> sw_errors w = length (filter (sw_fails w) (sw_consumed w)))"

definition rn_inv :: "'w runner \<Rightarrow> bool" where
  "rn_inv r = ((\<forall>st \<in> set (rn_stages r). annotation_stage st)
     \<and> (\<forall>w \<in> set (rn_sinks r). sink_inv (rn_fanout r) w)
     \<and> rn_dispatched r = length (rn_fanout r)
     \<and> (\<exists>past. rn_accepted r = past @ rn_in r
          \<and> subseq (map ev_core (rn_fanout r)) (map ev_core past)
          \<and> length past = rn_dispatched r + rn_stagePanics r + rn_stageErrors r))"

lemma sink_inv_push: "sink_inv out w \<Longrightarrow> sink_inv (out @ [ev]) (push ev w)"
proof -
  assume inv: "sink_inv out w"
  then have wf: "sw_wf (sw_cap w) w" by (simp add: sink_inv_def)
  have "subseq (sw_consumed w @ sw_ch w) out" using inv by (simp add: sink_inv_def)
  moreover have "subseq (sw_consumed w @ tl (sw_ch w)) (sw_consumed w @ sw_ch w)"
    by (cases "sw_ch w") (auto simp: subseq_append' intro: subseq_Cons')
  ultimately have "subseq (sw_consumed w @ sw_ch w @ [ev]) (out @ [ev])"
    "subseq (sw_consumed w @ tl (sw_ch w) @ [ev]) (out @ [ev])"
    by (metis append_assoc list_emb_append_mono subseq_order.order_refl subseq_order.order_trans)+
  then show ?thesis
    using inv sw_wf_push [OF wf] by (cases "sw_ch w") (auto simp: sink_inv_def push_def sw_wf_def)
qed

lemma sink_inv_consume: "sink_inv out w \<Longrightarrow> sink_inv out (consume w)"
  by (auto simp: sink_inv_def consume_def sw_wf_def split: list.splits)

lemma sink_inv_stop: "sink_inv out (w\<lparr>sw_running := b\<rparr>) = sink_inv out w"
  by (simp add: sink_inv_def sw_wf_def)

lemma rn_inv_step: "rn_step r r' \<Longrightarrow> rn_inv r \<Longrightarrow> rn_inv r'"
proof (induction rule: rn_step.induct)
  case (dispatch r ev rest now)
  let ?r = "r\<lparr>rn_in := rest\<rparr>"
  obtain past where d: "rn_accepted r = (past @ [ev]) @ rest"
    "subseq (map ev_core (rn_fanout r)) (map ev_core past)"
    "length past = rn_dispatched r + rn_stagePanics r + rn_stageErrors r"
    using dispatch by (auto simp: rn_inv_def)
  have st: "\<forall>st \<in> set (rn_stages ?r). annotation_stage st" using dispatch.prems by (simp add: rn_inv_def)
  then show ?case
  proof (cases rule: process_cases [where now = now and ev = ev])
    case (dropped r')
    moreover have "subseq (map ev_core (rn_fanout r)) (map ev_core (past @ [ev]))"
      using d(2) by (metis map_append subseq_order.order_trans subseq_rev_drop_many subseq_order.order_refl
          list_emb_append2 append_Nil2)
    ultimately show ?thesis using dispatch.prems d unfolding rn_inv_def by fastforce
  next
    case (fanned ev' r')
    moreover have "subseq (map ev_core (rn_fanout r @ [ev'])) (map ev_core (past @ [ev]))"
      using d(2) fanned(2) by (simp add: list_emb_append_mono)
    moreover have "sink_inv (rn_fanout r @ [ev']) (push ev' w)" if "w \<in> set (rn_sinks r)" for w
      using that dispatch.prems by (auto simp: rn_inv_def intro: sink_inv_push)
    ultimately show ?thesis
      using dispatch.prems d unfolding rn_inv_def by (intro conjI exI [of _ "past @ [ev]"]) (auto simp: fan_out_def)
  qed
next
  case (work i r)
  then have "\<forall>w \<in> set (rn_sinks r). sink_inv (rn_fanout r) w"
    and "sink_inv (rn_fanout r) (rn_sinks r ! i)" by (auto simp: rn_inv_def)
  from ball_list_update [OF this(1) sink_inv_consume [OF this(2)]] work.prems
  show ?case by (auto simp: rn_inv_def)
next
  case (work_exit i r)
  then have "\<forall>w \<in> set (rn_sinks r). sink_inv (rn_fanout r) w"
    and "sink_inv (rn_fanout r) ((rn_sinks r ! i)\<lparr>sw_running := False\<rparr>)"
    by (auto simp: rn_inv_def sink_inv_stop)
  from ball_list_update [OF this] work_exit.prems show ?case by (auto simp: rn_inv_def)
qed (auto simp: rn_inv_def)


lemma rn_inv_new:
  assumes "\<forall>st \<in> set stages. annotation_stage st"
  shows "rn_inv (NewRunner stages w sinks ib sb)"
  using assms by (auto simp: rn_inv_def NewRunner_def newSinkWorker_def sink_inv_def sw_wf_def Let_def)

lemma rn_inv_reach: "rn_step\<^sup>*\<^sup>* r r' \<Longrightarrow> rn_inv r \<Longrightarrow> rn_inv r'"
  by (induction rule: rtranclp_induct) (auto intro: rn_inv_step)

text \<open>
  C1. Under any interleaving of producers, dispatcher, sink workers and shutdown, every sink sees
  the accepted events in the order of acceptance, none twice and none invented (up to what stages
  may change), and each accepted event is accounted for: it is still queued at ingest, was dropped
  by a stage panic or error and counted, was consumed by the sink, waits in the sink's ring, or is
  counted in that sink's own drop counter. A sink's ring never exceeds its capacity, whatever the
  other sinks do.
\<close>

theorem pipeline_accounting:
  assumes stages: "\<forall>st \<in> set stages. annotation_stage st"
    and run: "rn_step\<^sup>*\<^sup>* (NewRunner stages w sinks ib sb) r"
    and sink: "k \<in> set (rn_sinks r)"
  shows "subseq (map ev_core (sw_consumed k @ sw_ch k)) (map ev_core (rn_accepted r))
    \<and> length (rn_accepted r) = length (rn_in r) + rn_stagePanics r + rn_stageErrors r
        + length (sw_consumed k) + length (sw_ch k) + sw_drops k
    \<and> length (sw_ch k) \<le> sw_cap k"
proof -
  have inv: "rn_inv r" using rn_inv_reach [OF run] rn_inv_new [OF stages] by blast
  then obtain past where past: "rn_accepted r = past @ rn_in r"
      "subseq (map ev_core (rn_fanout r)) (map ev_core past)"
      "length past = rn_dispatched r + rn_stagePanics r + rn_stageErrors r"
    by (auto simp: rn_inv_def)
  have k: "sink_inv (rn_fanout r) k" and d: "rn_dispatched r = length (rn_fanout r)"
    using inv sink by (auto simp: rn_inv_def)
  have "subseq (map ev_core (sw_consumed k @ sw_ch k)) (map ev_core (rn_fanout r))"
    using k by (intro subseq_map) (simp add: sink_inv_def)
  also have "subseq (map ev_core (rn_fanout r)) (map ev_core (rn_accepted r))"
    using past(1,2) by (metis append_Nil2 list_emb_append_mono list_emb_Nil map_append)
  finally show ?thesis using k d past by (simp add: sink_inv_def sw_wf_def)
qed

text \<open>The identity stage, an example of the contract.\<close>

lemma ok_stage: "annotation_stage (\<lambda>w m. (StageOk m, w))"
  by unfold_locales auto

abbreviation ping :: Event where "ping \<equiv> ChannelClearEvent (twitch_channel ''v'') []"

text \<open>A run that hands one event to a sink which then reads it.\<close>

lemma one_event_run:
  "\<exists>r k. rn_step\<^sup>*\<^sup>* (NewRunner [\<lambda>w m. (StageOk m, w)] (0 :: nat) [(''log'', \<lambda>_. False)] 1 1) r
     \<and> k \<in> set (rn_sinks r) \<and> sw_consumed k = [ping]"
proof -
  let ?r = "NewRunner [\<lambda>w m. (StageOk m, w)] (0 :: nat) [(''log'', \<lambda>_. False)] 1 1"
  let ?r1 = "?r\<lparr>rn_in := rn_in ?r @ [ping], rn_accepted := rn_accepted ?r @ [ping]\<rparr>"
  let ?r2 = "process 0 ping (?r1\<lparr>rn_in := []\<rparr>)"
  let ?r3 = "?r2\<lparr>rn_sinks := (rn_sinks ?r2)[0 := consume (rn_sinks ?r2 ! 0)]\<rparr>"
  have "rn_step ?r ?r1" by (rule rn_step.submit) (simp add: NewRunner_def)
  moreover have "rn_step ?r1 ?r2" by (rule rn_step.dispatch) (simp_all add: NewRunner_def)
  moreover have "rn_step ?r2 ?r3"
    by (rule rn_step.work) (simp_all add: NewRunner_def process_def fan_out_def push_def newSinkWorker_def)
  ultimately have "rn_step\<^sup>*\<^sup>* ?r ?r3" by (meson converse_rtranclp_into_rtranclp r_into_rtranclp)
  moreover have "sw_consumed (rn_sinks ?r3 ! 0) = [ping]" "rn_sinks ?r3 ! 0 \<in> set (rn_sinks ?r3)"
    by (simp_all add: NewRunner_def process_def fan_out_def push_def newSinkWorker_def consume_def)
  ultimately show ?thesis by blast
qed

theorem pipeline_accounting_witness:
  "\<exists>r. rn_step\<^sup>*\<^sup>* (NewRunner [\<lambda>w m. (StageOk m, w)] (0 :: nat) [(''log'', \<lambda>_. False)] 1 1) r
    \<and> (\<exists>k. k \<in> set (rn_sinks r) \<and> sw_consumed k = [ping]
        \<and> subseq (map ev_core (sw_consumed k @ sw_ch k)) (map ev_core (rn_accepted r)))"
proof -
  obtain r k where r: "rn_step\<^sup>*\<^sup>* (NewRunner [\<lambda>w m. (StageOk m, w)] (0 :: nat) [(''log'', \<lambda>_. False)] 1 1) r"
    and k: "k \<in> set (rn_sinks r)" "sw_consumed k = [ping]" using one_event_run by blast
  have "\<forall>st \<in> set [\<lambda>(w :: nat) m. (StageOk m, w)]. annotation_stage st"
    by (simp add: ok_stage)
  from pipeline_accounting [OF this r k(1)]
  show ?thesis using r k by (intro exI [of _ r] exI [of _ k] conjI) simp_all
qed

text \<open>
  Shutdown can lose accepted events without counting them: with one event in the ingest queue
  when \<open>Close\<close> is called, the sink's worker may find \<open>quit\<close> closed and its ring empty and exit before
  the dispatcher drains the queue; the dispatcher then pushes the event into a ring nobody reads.
  Every goroutine has exited, no drop is counted, and the sink never saw the event.
\<close>

theorem close_can_lose:
  "\<exists>r k. rn_step\<^sup>*\<^sup>* (NewRunner [] (0 :: nat) [(''log'', \<lambda>_. False)] 1 1) r \<and> rn_quit r
    \<and> \<not> rn_dispatching r \<and> rn_in r = [] \<and> rn_accepted r = [ping] \<and> rn_submitDrops r = 0
    \<and> rn_sinks r = [k] \<and> \<not> sw_running k \<and> sw_consumed k = [] \<and> sw_drops k = 0 \<and> sw_ch k = [ping]"
proof -
  let ?r = "NewRunner [] (0 :: nat) [(''log'', \<lambda>_. False)] 1 1"
  let ?r1 = "?r\<lparr>rn_in := rn_in ?r @ [ping], rn_accepted := rn_accepted ?r @ [ping]\<rparr>"
  let ?r2 = "?r1\<lparr>rn_quit := True\<rparr>"
  let ?r3 = "?r2\<lparr>rn_sinks := (rn_sinks ?r2)[0 := (rn_sinks ?r2 ! 0)\<lparr>sw_running := False\<rparr>]\<rparr>"
  let ?r4 = "process 0 ping (?r3\<lparr>rn_in := []\<rparr>)"
  let ?r5 = "?r4\<lparr>rn_dispatching := False\<rparr>"
  have "rn_step ?r ?r1" by (rule rn_step.submit) (simp add: NewRunner_def)
  moreover have "rn_step ?r1 ?r2" by (rule rn_step.close)
  moreover have "rn_step ?r2 ?r3" by (rule rn_step.work_exit) (simp_all add: NewRunner_def newSinkWorker_def)
  moreover have "rn_step ?r3 ?r4" by (rule rn_step.dispatch) (simp_all add: NewRunner_def)
  moreover have "rn_step ?r4 ?r5"
    by (rule rn_step.dispatch_exit) (simp_all add: NewRunner_def process_def fan_out_def)
  ultimately have "rn_step\<^sup>*\<^sup>* ?r ?r5" by (meson converse_rtranclp_into_rtranclp r_into_rtranclp)
  then show ?thesis
    by (intro exI [of _ ?r5] exI conjI)
      (auto simp: NewRunner_def process_def fan_out_def push_def newSinkWorker_def)
qed

end
