(* ===== verification/Ulid.thy ===== *)
theory Ulid
  imports Go_Values "HOL-Library.Word"
begin

text \<open>
  \<^verbatim>\<open>internal/id/id.go\<close>: the ULID generator and its deterministic fake. Bytes and the millisecond
  counter keep their width (\<open>8 word\<close>, \<open>64 word\<close>), so the counter's wrap-around is the code's. The
  clock reading and the bytes the entropy reader yields are arguments of \<open>ULID_New\<close>; a reader that
  yields fewer than ten bytes is the failing \<^verbatim>\<open>io.ReadFull\<close>.

  The lemmas show that the 26 characters are the base-32 digits of the 128-bit value, so that
  string order is numeric order and the encoding is injective; that minted ids increase strictly
  as long as the clock does not step back and a millisecond's counter does not overflow; the
  locale \<open>id_generator\<close> states that contract, and both generators satisfy it.
\<close>

unbundle bit_operations_syntax

type_synonym u8 = "8 word"
type_synonym u64 = "64 word"

definition crockford :: string where
  "crockford = ''0123456789ABCDEFGHJKMNPQRSTVWXYZ''"

record ULID =
  lastMs :: u64
  lastEnt :: "u8 list"

definition NewULID :: ULID where
  "NewULID = \<lparr>lastMs = 0, lastEnt = replicate 10 0\<rparr>"

text \<open>\<open>incr\<close> walks from the last byte up while the increment wraps to zero.\<close>

fun incr_rev :: "u8 list \<Rightarrow> u8 list" where
  "incr_rev [] = []"
| "incr_rev (x # xs) = (if x + 1 \<noteq> 0 then (x + 1) # xs else (x + 1) # incr_rev xs)"

definition incr :: "u8 list \<Rightarrow> u8 list" where
  "incr e = rev (incr_rev (rev e))"

text \<open>\<^verbatim>\<open>io.ReadFull\<close> into a buffer: the bytes read replace its front; fewer than its length is an error.\<close>

definition ReadFull :: "u8 list \<Rightarrow> u8 list \<Rightarrow> u8 list \<times> bool" where
  "ReadFull rd buf = (take (length buf) rd @ drop (length rd) buf, length buf \<le> length rd)"

definition encode_idx :: "u8 list \<Rightarrow> u8 list" where
  "encode_idx b =
    [drop_bit 5 (b!0 AND 224),
     b!0 AND 31,
     drop_bit 3 (b!1 AND 248),
     push_bit 2 (b!1 AND 7) OR drop_bit 6 (b!2 AND 192),
     drop_bit 1 (b!2 AND 62),
     push_bit 4 (b!2 AND 1) OR drop_bit 4 (b!3 AND 240),
     push_bit 1 (b!3 AND 15) OR drop_bit 7 (b!4 AND 128),
     drop_bit 2 (b!4 AND 124),
     push_bit 3 (b!4 AND 3) OR drop_bit 5 (b!5 AND 224),
     b!5 AND 31,
     drop_bit 3 (b!6 AND 248),
     push_bit 2 (b!6 AND 7) OR drop_bit 6 (b!7 AND 192),
     drop_bit 1 (b!7 AND 62),
     push_bit 4 (b!7 AND 1) OR drop_bit 4 (b!8 AND 240),
     push_bit 1 (b!8 AND 15) OR drop_bit 7 (b!9 AND 128),
     drop_bit 2 (b!9 AND 124),
     push_bit 3 (b!9 AND 3) OR drop_bit 5 (b!10 AND 224),
     b!10 AND 31,
     drop_bit 3 (b!11 AND 248),
     push_bit 2 (b!11 AND 7) OR drop_bit 6 (b!12 AND 192),
     drop_bit 1 (b!12 AND 62),
     push_bit 4 (b!12 AND 1) OR drop_bit 4 (b!13 AND 240),
     push_bit 1 (b!13 AND 15) OR drop_bit 7 (b!14 AND 128),
     drop_bit 2 (b!14 AND 124),
     push_bit 3 (b!14 AND 3) OR drop_bit 5 (b!15 AND 224),
     b!15 AND 31]"

definition encode :: "u8 list \<Rightarrow> string" where
  "encode b = map (\<lambda>i. crockford ! unat i) (encode_idx b)"

definition ms_bytes :: "u64 \<Rightarrow> u8 list" where
  "ms_bytes ms = [ucast (drop_bit 40 ms), ucast (drop_bit 32 ms), ucast (drop_bit 24 ms),
     ucast (drop_bit 16 ms), ucast (drop_bit 8 ms), ucast ms]"

definition ULID_New :: "time \<times> u8 list \<Rightarrow> ULID \<Rightarrow> string \<times> ULID" where
  "ULID_New inp g =
    (let (now, rd) = inp; ms = word_of_int (unix_milli now);
         ent = (if ms = lastMs g then incr (lastEnt g)
                else (case ReadFull rd (lastEnt g) of (buf, ok) \<Rightarrow> if ok then buf else incr buf))
     in (encode (ms_bytes ms @ ent), \<lparr>lastMs = ms, lastEnt = ent\<rparr>))"

record FakeGen =
  fk_seq :: u64
  fk_prefix :: string

definition Fake_New :: "unit \<Rightarrow> FakeGen \<Rightarrow> string \<times> FakeGen" where
  "Fake_New u f =
    (let n = fk_seq f + 1; p = (if fk_prefix f = [] then ''id'' else fk_prefix f)
     in (p @ ''_'' @ low_digits 20 (unat n), f\<lparr>fk_seq := n\<rparr>))"

subsection \<open>Positional numbers\<close>

definition horner :: "nat \<Rightarrow> nat list \<Rightarrow> nat" where
  "horner B ds = foldl (\<lambda>a d. a * B + d) 0 ds"

lemma horner_foldl: "foldl (\<lambda>a d. a * B + d) a ds = a * B ^ length ds + horner B ds"
proof (induction ds arbitrary: a)
  case Nil
  then show ?case by (simp add: horner_def)
next
  case (Cons d ds)
  have "horner B (d # ds) = d * B ^ length ds + horner B ds"
    using Cons [of d] by (simp add: horner_def)
  then show ?case using Cons [of "a * B + d"] by (simp add: algebra_simps)
qed

lemma horner_Nil [simp]: "horner B [] = 0"
  by (simp add: horner_def)

lemma horner_Cons: "horner B (d # ds) = d * B ^ length ds + horner B ds"
  using horner_foldl [of B d ds] by (simp add: horner_def)

lemma horner_append: "horner B (xs @ ys) = horner B xs * B ^ length ys + horner B ys"
  using horner_foldl [of B "horner B xs" ys] by (simp add: horner_def)

lemma horner_bound: "\<forall>d \<in> set ds. d < B \<Longrightarrow> horner B ds < B ^ length ds"
proof (induction ds)
  case Nil
  then show ?case by simp
next
  case (Cons d ds)
  then have "d + 1 \<le> B" "horner B ds < B ^ length ds" by auto
  then have "d * B ^ length ds + horner B ds < (d + 1) * B ^ length ds" by simp
  also have "\<dots> \<le> B * B ^ length ds" using \<open>d + 1 \<le> B\<close> by (rule mult_le_mono1)
  finally show ?case by (simp add: horner_Cons)
qed

lemma horner_less_iff:
  assumes "length xs = length ys" "\<forall>d \<in> set xs. d < B" "\<forall>d \<in> set ys. d < B"
  shows "horner B xs < horner B ys \<longleftrightarrow> xs < ys"
  using assms
proof (induction xs ys rule: list_induct2)
  case Nil
  then show ?case by simp
next
  case (Cons x xs y ys)
  have bx: "horner B xs < B ^ length ys" and hy: "horner B ys < B ^ length ys"
    using horner_bound [of xs B] horner_bound [of ys B] Cons.prems Cons.hyps by auto
  have step: "u * B ^ length ys + r < v * B ^ length ys + s"
    if "u < v" "r < B ^ length ys" for u v r s
  proof -
    have "u * B ^ length ys + r < (u + 1) * B ^ length ys" using that by simp
    also have "\<dots> \<le> v * B ^ length ys" using that by (intro mult_le_mono1) simp
    finally show ?thesis by simp
  qed
  consider "x < y" | "x = y" | "y < x" by linarith
  then show ?case
  proof cases
    case 1
    then show ?thesis using step [OF 1 bx, of "horner B ys"] Cons.hyps by (simp add: horner_Cons)
  next
    case 2
    then show ?thesis using Cons by (simp add: horner_Cons)
  next
    case 3
    then show ?thesis using step [OF 3 hy, of "horner B xs"] Cons.hyps
      by (simp add: horner_Cons)
  qed
qed

lemma map_less_iff:
  fixes f :: "'a :: linorder \<Rightarrow> 'b :: linorder"
  assumes "length xs = length ys"
    and "\<And>a b. a \<in> set xs \<union> set ys \<Longrightarrow> b \<in> set xs \<union> set ys \<Longrightarrow> (f a < f b \<longleftrightarrow> a < b)"
  shows "map f xs < map f ys \<longleftrightarrow> xs < ys"
  using assms
proof (induction xs ys rule: list_induct2)
  case Nil
  then show ?case by simp
next
  case (Cons x xs y ys)
  have IH: "map f xs < map f ys \<longleftrightarrow> xs < ys" using Cons by auto
  have "f x < f y \<longleftrightarrow> x < y" "f y < f x \<longleftrightarrow> y < x" using Cons.prems by auto
  then have "f x = f y \<longleftrightarrow> x = y" by (metis linorder_neqE order_less_irrefl)
  with IH \<open>f x < f y \<longleftrightarrow> x < y\<close> show ?case by simp
qed

subsection \<open>The encoding is base 32\<close>

lemma bit_u8_high: "8 \<le> n \<Longrightarrow> \<not> bit (x :: u8) n"
  using bit_imp_le_length [of x n] by auto

lemma less8:
  "n < (8 :: nat) \<Longrightarrow> n = 0 \<or> n = 1 \<or> n = 2 \<or> n = 3 \<or> n = 4 \<or> n = 5 \<or> n = 6 \<or> n = 7"
  by linarith

lemma u8_masks:
  fixes x :: u8
  shows "drop_bit 7 (x AND 128) = drop_bit 7 x"
    and "drop_bit 6 (x AND 192) = drop_bit 6 x"
    and "drop_bit 5 (x AND 224) = drop_bit 5 x"
    and "drop_bit 4 (x AND 240) = drop_bit 4 x"
    and "drop_bit 3 (x AND 248) = drop_bit 3 x"
    and "drop_bit 2 (x AND 124) = take_bit 5 (drop_bit 2 x)"
    and "drop_bit 1 (x AND 62) = take_bit 5 (drop_bit 1 x)"
    and "x AND 31 = take_bit 5 x"
    and "x AND 15 = take_bit 4 x"
    and "x AND 7 = take_bit 3 x"
    and "x AND 3 = take_bit 2 x"
    and "x AND 1 = take_bit 1 x"
  by (rule bit_word_eqI; auto simp: bit_simps bit_u8_high bit_0 dest!: less8)+

lemma unat_take_bit_u8: "unat (take_bit k (x :: u8)) = unat x mod 2 ^ k"
  by (simp only: unsigned_take_bit_eq) (simp only: take_bit_eq_mod)

lemma unat_drop_bit_u8: "unat (drop_bit k (x :: u8)) = unat x div 2 ^ k"
  by (simp only: unat_drop_bit_eq) (simp only: drop_bit_eq_div)

lemma unat_or_parts:
  fixes x y :: u8
  assumes "unat y < 2 ^ k" "unat x * 2 ^ k + 2 ^ k \<le> 256"
  shows "unat (push_bit k x OR y) = unat x * 2 ^ k + unat y"
proof -
  have y: "take_bit k y = y"
    by (rule word_unat_eq_iff [THEN iffD2]) (use assms(1) in \<open>simp add: unat_take_bit_u8\<close>)
  have "push_bit k x + y = push_bit k x OR y"
  proof (rule disjunctive_add)
    fix n show "\<not> bit (push_bit k x) n \<or> \<not> bit y n"
      by (subst y [symmetric]) (auto simp: bit_simps)
  qed
  moreover have p: "unat (push_bit k x) = unat x * 2 ^ k"
    unfolding unsigned_push_bit_eq using assms by (simp add: push_bit_eq_mult take_bit_eq_mod)
  moreover have "unat (push_bit k x + y) = unat (push_bit k x) + unat y"
    by (rule unat_add_lem [THEN iffD1]) (use p assms in simp)
  ultimately show ?thesis by simp
qed

lemma unat_u8: "unat (x :: u8) < 256"
  using unsigned_less [of x] by simp

lemma byte_parts:
  fixes x y :: u8
  shows "unat (drop_bit 5 (x AND 224)) = unat x div 32"
    and "unat (x AND 31) = unat x mod 32"
    and "unat (drop_bit 3 (x AND 248)) = unat x div 8"
    and "unat (drop_bit 1 (x AND 62)) = unat x div 2 mod 32"
    and "unat (drop_bit 2 (x AND 124)) = unat x div 4 mod 32"
    and "unat (push_bit 2 (x AND 7) OR drop_bit 6 (y AND 192)) = unat x mod 8 * 4 + unat y div 64"
    and "unat (push_bit 4 (x AND 1) OR drop_bit 4 (y AND 240)) = unat x mod 2 * 16 + unat y div 16"
    and "unat (push_bit 1 (x AND 15) OR drop_bit 7 (y AND 128)) = unat x mod 16 * 2 + unat y div 128"
    and "unat (push_bit 3 (x AND 3) OR drop_bit 5 (y AND 224)) = unat x mod 4 * 8 + unat y div 32"
proof -
  note parts = u8_masks unat_take_bit_u8 unat_drop_bit_u8
  show "unat (drop_bit 5 (x AND 224)) = unat x div 32"
    "unat (x AND 31) = unat x mod 32"
    "unat (drop_bit 3 (x AND 248)) = unat x div 8"
    "unat (drop_bit 1 (x AND 62)) = unat x div 2 mod 32"
    "unat (drop_bit 2 (x AND 124)) = unat x div 4 mod 32"
    by (simp_all only: parts) simp_all
  have d: "unat y div 64 < 4" "unat y div 16 < 16" "unat y div 128 < 2" "unat y div 32 < 8"
    using unat_u8 [of y] by linarith+
  have m: "unat x mod 8 < 8" "unat x mod 2 < 2" "unat x mod 16 < 16" "unat x mod 4 < 4"
    by simp_all
  have "unat (push_bit 2 (take_bit 3 x) OR drop_bit 6 y) =
      unat (take_bit 3 x) * 2 ^ 2 + unat (drop_bit 6 y)"
    by (rule unat_or_parts) (use d m in \<open>simp_all only: parts\<close>, simp_all)
  then show "unat (push_bit 2 (x AND 7) OR drop_bit 6 (y AND 192))
      = unat x mod 8 * 4 + unat y div 64"
    by (simp only: parts) simp
  have "unat (push_bit 4 (take_bit 1 x) OR drop_bit 4 y) =
      unat (take_bit 1 x) * 2 ^ 4 + unat (drop_bit 4 y)"
    by (rule unat_or_parts) (use d m in \<open>simp_all only: parts\<close>, simp_all)
  then show "unat (push_bit 4 (x AND 1) OR drop_bit 4 (y AND 240))
      = unat x mod 2 * 16 + unat y div 16"
    by (simp only: parts) simp
  have "unat (push_bit 1 (take_bit 4 x) OR drop_bit 7 y) =
      unat (take_bit 4 x) * 2 ^ 1 + unat (drop_bit 7 y)"
    by (rule unat_or_parts) (use d m in \<open>simp_all only: parts\<close>, simp_all)
  then show "unat (push_bit 1 (x AND 15) OR drop_bit 7 (y AND 128))
      = unat x mod 16 * 2 + unat y div 128"
    by (simp only: parts) simp
  have "unat (push_bit 3 (take_bit 2 x) OR drop_bit 5 y) =
      unat (take_bit 2 x) * 2 ^ 3 + unat (drop_bit 5 y)"
    by (rule unat_or_parts) (use d m in \<open>simp_all only: parts\<close>, simp_all)
  then show "unat (push_bit 3 (x AND 3) OR drop_bit 5 (y AND 224))
      = unat x mod 4 * 8 + unat y div 32"
    by (simp only: parts) simp
qed

lemma three_parts:
  fixes n m :: nat
  shows "n = n div (m * 32) * (m * 32) + n div m mod 32 * m + n mod m"
proof -
  have "n div m = n div m div 32 * 32 + n div m mod 32" by simp
  then have "n div m * m = n div (m * 32) * 32 * m + n div m mod 32 * m"
    by (metis add_mult_distrib div_mult2_eq)
  then show ?thesis using div_mult_mod_eq [of n m] by (simp add: mult.assoc mult.commute)
qed

text \<open>Five bytes are eight base-32 digits; the first byte alone gives the two leading ones.\<close>

lemma horner_five:
  fixes a b c d e :: nat
  shows "horner 32 [a div 8, a mod 8 * 4 + b div 64, b div 2 mod 32, b mod 2 * 16 + c div 16,
      c mod 16 * 2 + d div 128, d div 4 mod 32, d mod 4 * 8 + e div 32, e mod 32]
    = horner 256 [a, b, c, d, e]"
proof -
  have a: "a = a div 8 * 8 + a mod 8" by simp
  have b: "b = b div 64 * 64 + b div 2 mod 32 * 2 + b mod 2" using three_parts [of b 2] by simp
  have c: "c = c div 16 * 16 + c mod 16" by simp
  have d: "d = d div 128 * 128 + d div 4 mod 32 * 4 + d mod 4" using three_parts [of d 4] by simp
  have e: "e = e div 32 * 32 + e mod 32" by simp
  have r: "horner 32 [p, q * 4 + r, s, t * 16 + u, v * 2 + w, x, y * 8 + z, k]
      = horner 256 [p * 8 + q, r * 64 + s * 2 + t, u * 16 + v, w * 128 + x * 4 + y, z * 32 + k]"
    for p q r s t u v w x y z k
    by (simp add: horner_Cons algebra_simps)
  show ?thesis by (subst r) (simp only: flip: a b c d e)
qed

lemma horner_encode_idx:
  assumes "length b = 16"
  shows "horner 32 (map unat (encode_idx b)) = horner 256 (map unat b)"
proof -
  obtain b0 b1 b2 b3 b4 b5 b6 b7 b8 b9 b10 b11 b12 b13 b14 b15 where
    b: "b = [b0] @ [b1, b2, b3, b4, b5] @ [b6, b7, b8, b9, b10] @ [b11, b12, b13, b14, b15]"
    using assms by (auto simp: numeral_eq_Suc length_Suc_conv)
  let ?g = "\<lambda>a b c d e :: nat. [a div 8, a mod 8 * 4 + b div 64, b div 2 mod 32,
      b mod 2 * 16 + c div 16, c mod 16 * 2 + d div 128, d div 4 mod 32,
      d mod 4 * 8 + e div 32, e mod 32]"
  have "map unat (encode_idx b) = [unat b0 div 32, unat b0 mod 32]
      @ ?g (unat b1) (unat b2) (unat b3) (unat b4) (unat b5)
      @ ?g (unat b6) (unat b7) (unat b8) (unat b9) (unat b10)
      @ ?g (unat b11) (unat b12) (unat b13) (unat b14) (unat b15)"
    unfolding b encode_idx_def by (simp only: list.map byte_parts) (simp add: byte_parts)
  moreover have "horner 32 [unat b0 div 32, unat b0 mod 32] = horner 256 [unat b0]"
    by (simp add: horner_def)
  ultimately show ?thesis
    unfolding b by (simp only: map_append list.map horner_append horner_five) simp
qed

lemma length_encode_idx [simp]: "length (encode_idx b) = 26"
  by (simp add: encode_idx_def)

lemma length_encode [simp]: "length (encode b) = 26"
  by (simp add: encode_def)

lemma encode_idx_range:
  assumes "length b = 16" "i \<in> set (encode_idx b)"
  shows "unat i < 32"
proof -
  have l: "k div 32 < 32" "k div 8 < 32" "k mod 8 * 4 + l div 64 < 32"
    "k mod 2 * 16 + l div 16 < 32" "k mod 16 * 2 + l div 128 < 32" "k mod 4 * 8 + l div 32 < 32"
    if "k < 256" "l < 256" for k l :: nat
    using that by linarith+
  show ?thesis
    using assms(2) unfolding encode_idx_def
    by (auto simp only: list.set insert_iff empty_iff byte_parts intro!: l unat_u8)
qed

lemma crockford_less_iff: "i < 32 \<Longrightarrow> j < 32 \<Longrightarrow> crockford ! i < crockford ! j \<longleftrightarrow> i < j"
proof -
  assume ij: "i < 32" "j < 32"
  have "sorted_wrt (<) crockford" by code_simp
  moreover have "length crockford = 32" by code_simp
  ultimately show ?thesis
    using ij sorted_wrt_iff_nth_less [of "(<)" crockford]
    by (metis linorder_neqE_nat order_less_asym order_less_irrefl)
qed

text \<open>The numeric value of sixteen bytes, big-endian.\<close>

definition ulid_val :: "u8 list \<Rightarrow> nat" where
  "ulid_val b = horner 256 (map unat b)"

lemma encode_less_iff:
  assumes "length a = 16" "length b = 16"
  shows "encode a < encode b \<longleftrightarrow> ulid_val a < ulid_val b"
proof -
  let ?ia = "map unat (encode_idx a)" and ?ib = "map unat (encode_idx b)"
  have r: "d < 32" if "d \<in> set ?ia \<union> set ?ib" for d
    using that encode_idx_range assms by auto
  have "encode x = map ((!) crockford) (map unat (encode_idx x))" for x
    by (simp add: encode_def)
  then have "encode a < encode b \<longleftrightarrow> ?ia < ?ib"
    using map_less_iff [of ?ia ?ib "(!) crockford"] r crockford_less_iff
    by (metis (no_types, lifting) length_encode_idx length_map)
  also have "\<dots> \<longleftrightarrow> horner 32 ?ia < horner 32 ?ib"
    by (subst horner_less_iff) (use r in auto)
  finally show ?thesis using assms by (simp only: horner_encode_idx ulid_val_def)
qed

lemma encode_inj:
  assumes "length a = 16" "length b = 16" "encode a = encode b"
  shows "a = b"
proof -
  have "ulid_val a = ulid_val b"
    using encode_less_iff [of a b] encode_less_iff [of b a] assms by (metis linorder_neqE_nat order_less_irrefl)
  then have "\<not> map unat a < map unat b" "\<not> map unat b < map unat a"
    using horner_less_iff [of "map unat a" "map unat b" 256]
      horner_less_iff [of "map unat b" "map unat a" 256] assms unat_u8
    by (auto simp: ulid_val_def)
  then have "map unat a = map unat b" by (metis linorder_neqE)
  then show ?thesis by (meson injI map_injective word_unat_eq_iff)
qed

subsection \<open>The timestamp and the counter\<close>

lemma horner_ms_bytes: "unat ms < 2 ^ 48 \<Longrightarrow> horner 256 (map unat (ms_bytes ms)) = unat ms"
proof -
  assume ms: "unat ms < 2 ^ 48"
  have byte: "unat (ucast (drop_bit k ms) :: u8) = unat ms div 2 ^ k mod 256" for k
    by (simp only: unsigned_ucast_eq unat_drop_bit_eq) (simp add: drop_bit_eq_div take_bit_eq_mod)
  have "unat (ucast ms :: u8) = unat ms mod 256" using byte [of 0] by simp
  moreover have "n = (((((n div 2 ^ 40 mod 256) * 256 + n div 2 ^ 32 mod 256) * 256
      + n div 2 ^ 24 mod 256) * 256 + n div 2 ^ 16 mod 256) * 256 + n div 2 ^ 8 mod 256) * 256
      + n mod 256" if "n < 2 ^ 48" for n :: nat
  proof -
    have s: "n div 2 ^ k = n div 2 ^ (k + 8) * 256 + n div 2 ^ k mod 256" for k
      using div_mult_mod_eq [of "n div 2 ^ k" 256] by (simp add: power_add div_mult2_eq)
    have z: "n div 2 ^ (40 + 8) = 0" using that by simp
    have e: "(32 + 8 :: nat) = 40" "(24 + 8 :: nat) = 32" "(16 + 8 :: nat) = 24"
      "(8 + 8 :: nat) = 16" "(0 + 8 :: nat) = 8" "n div 2 ^ 0 = n"
      by simp_all
    have chain: "n = ((((a * 256 + b) * 256 + c) * 256 + d) * 256 + e) * 256 + f"
      if "q40 = 0 * 256 + a" "q32 = q40 * 256 + b" "q24 = q32 * 256 + c" "q16 = q24 * 256 + d"
        "q8 = q16 * 256 + e" "n = q8 * 256 + f" for a b c d e f q40 q32 q24 q16 q8 :: nat
      using that by simp
    show ?thesis
      by (rule chain [OF s [of 40, unfolded z] s [of 32, unfolded e] s [of 24, unfolded e]
        s [of 16, unfolded e] s [of 8, unfolded e] s [of 0, unfolded e]])
  qed
  ultimately show ?thesis using ms
    by (simp add: ms_bytes_def horner_def byte)
qed

lemma length_ms_bytes [simp]: "length (ms_bytes ms) = 6"
  by (simp add: ms_bytes_def)

lemma length_incr_rev [simp]: "length (incr_rev xs) = length xs"
  by (induction xs) auto

lemma length_incr [simp]: "length (incr e) = length e"
  by (simp add: incr_def)

lemma u8_wrap: "x + 1 = (0 :: u8) \<Longrightarrow> unat x = 255"
proof -
  assume "x + 1 = 0"
  then have "x = - 1" by (metis eq_neg_iff_add_eq_0)
  then have "x = 255" by simp
  then show ?thesis by simp
qed

lemma unat_u8_Suc: "x + 1 \<noteq> (0 :: u8) \<Longrightarrow> unat (x + 1) = unat x + 1"
  by (metis Suc_eq_plus1 unatSuc add.commute)

text \<open>Incrementing adds one, unless every byte is 255, when the counter wraps to zero.\<close>

lemma horner_incr:
  "list_ex (\<lambda>x. x \<noteq> 255) e \<Longrightarrow> horner 256 (map unat (incr e)) = horner 256 (map unat e) + 1"
proof (induction e rule: rev_induct)
  case Nil
  then show ?case by simp
next
  case (snoc x e)
  show ?case
  proof (cases "x + 1 = 0")
    case True
    then have "unat x = 255" by (rule u8_wrap)
    then have "x = 255" by (simp add: word_unat_eq_iff)
    with snoc.prems have "list_ex (\<lambda>x. x \<noteq> 255) e" by simp
    with snoc.IH True \<open>unat x = 255\<close> show ?thesis
      by (simp add: incr_def horner_append horner_Cons)
  next
    case False
    then show ?thesis by (simp add: incr_def horner_append horner_Cons unat_u8_Suc)
  qed
qed

lemma incr_wraps: "incr (replicate n 255) = replicate n 0"
proof -
  have "incr_rev (replicate n 255) = replicate n 0" by (induction n) auto
  then show ?thesis by (simp add: incr_def)
qed

subsection \<open>What a generator promises\<close>

text \<open>The ids of a sequence of calls, and that every call is made when the generator is ready.\<close>

fun mint_all :: "('i \<Rightarrow> 'g \<Rightarrow> string \<times> 'g) \<Rightarrow> 'i list \<Rightarrow> 'g \<Rightarrow> string list" where
  "mint_all mint [] g = []"
| "mint_all mint (i # is) g = fst (mint i g) # mint_all mint is (snd (mint i g))"

fun all_ready :: "('i \<Rightarrow> 'g \<Rightarrow> string \<times> 'g) \<Rightarrow> ('i \<Rightarrow> 'g \<Rightarrow> bool) \<Rightarrow> 'i list \<Rightarrow> 'g \<Rightarrow> bool" where
  "all_ready mint ready [] g = True"
| "all_ready mint ready (i # is) g = (ready i g \<and> all_ready mint ready is (snd (mint i g)))"

text \<open>
  \<^verbatim>\<open>id.Generator\<close>, as the message store relies on it: minting moves the generator's rank up, and
  the id minted for a higher rank is the larger string. \<open>ready\<close> is when a mint is safe (the clock
  did not step back, the counter does not overflow); \<open>id_of\<close> is the id of the last mint.
\<close>

locale id_generator =
  fixes mint :: "'i \<Rightarrow> 'g \<Rightarrow> string \<times> 'g"
    and ready :: "'i \<Rightarrow> 'g \<Rightarrow> bool"
    and wf :: "'g \<Rightarrow> bool"
    and rank :: "'g \<Rightarrow> nat"
    and id_of :: "'g \<Rightarrow> string"
    and sib :: "'g \<Rightarrow> 'g \<Rightarrow> bool"
  assumes wf_mint: "wf g \<Longrightarrow> ready i g \<Longrightarrow> wf (snd (mint i g)) \<and> sib g (snd (mint i g))"
    and rank_mint: "wf g \<Longrightarrow> ready i g \<Longrightarrow> rank g < rank (snd (mint i g))"
    and id_mint: "fst (mint i g) = id_of (snd (mint i g))"
    and id_order: "wf g \<Longrightarrow> wf h \<Longrightarrow> sib g h \<Longrightarrow> rank g < rank h \<Longrightarrow> id_of g < id_of h"
    and sib_refl: "sib g g"
    and sib_trans: "sib g h \<Longrightarrow> sib h k \<Longrightarrow> sib g k"
begin

lemma ids_above: "wf g \<Longrightarrow> all_ready mint ready is g \<Longrightarrow> \<forall>s \<in> set (mint_all mint is g). id_of g < s"
proof (induction "is" arbitrary: g)
  case Nil
  then show ?case by simp
next
  case (Cons i "is")
  let ?h = "snd (mint i g)"
  have h: "wf ?h" "id_of g < id_of ?h"
    using Cons.prems wf_mint rank_mint id_order by auto
  then have "\<forall>s \<in> set (mint_all mint is ?h). id_of ?h < s" using Cons by simp
  with h show ?case by (auto simp: id_mint)
qed

lemma ids_increasing: "wf g \<Longrightarrow> all_ready mint ready is g \<Longrightarrow> sorted_wrt (<) (mint_all mint is g)"
proof (induction "is" arbitrary: g)
  case Nil
  then show ?case by simp
next
  case (Cons i "is")
  then have "wf (snd (mint i g))" using wf_mint by simp
  with Cons show ?case using ids_above [of "snd (mint i g)" "is"] by (auto simp: id_mint)
qed

lemma ids_distinct: "wf g \<Longrightarrow> all_ready mint ready is g \<Longrightarrow> distinct (mint_all mint is g)"
  using ids_increasing strict_sorted_iff by blast

end

definition ulid_wf :: "ULID \<Rightarrow> bool" where
  "ulid_wf g = (length (lastEnt g) = 10 \<and> unat (lastMs g) < 2 ^ 48)"

definition ulid_bytes :: "ULID \<Rightarrow> u8 list" where
  "ulid_bytes g = ms_bytes (lastMs g) @ lastEnt g"

text \<open>
  A mint is ordered after the last one: the clock reads the same or a later millisecond of the
  48-bit range, and within the same millisecond the 80-bit counter is not at its maximum.
\<close>

definition ulid_ready :: "time \<times> u8 list \<Rightarrow> ULID \<Rightarrow> bool" where
  "ulid_ready inp g = (0 \<le> unix_milli (fst inp) \<and> unix_milli (fst inp) < 2 ^ 48
     \<and> unat (lastMs g) \<le> nat (unix_milli (fst inp))
     \<and> (unat (lastMs g) = nat (unix_milli (fst inp)) \<longrightarrow> list_ex (\<lambda>x. x \<noteq> 255) (lastEnt g)))"

lemma ulid_val_bytes:
  "ulid_wf g \<Longrightarrow> ulid_val (ulid_bytes g) =
    unat (lastMs g) * 256 ^ 10 + horner 256 (map unat (lastEnt g))"
  by (simp add: ulid_val_def ulid_bytes_def ulid_wf_def horner_append horner_ms_bytes)

lemma length_ReadFull: "length (fst (ReadFull rd buf)) = length buf"
  by (simp add: ReadFull_def)

lemma unat_ms: "0 \<le> x \<Longrightarrow> x < 2 ^ 48 \<Longrightarrow> unat (word_of_int x :: u64) = nat x"
  by (simp add: unat_eq_nat_uint uint_word_of_int)

lemma ULID_New_ms:
  "ulid_ready inp g \<Longrightarrow> unat (lastMs (snd (ULID_New inp g))) = nat (unix_milli (fst inp))"
  by (cases inp) (simp add: ULID_New_def ulid_ready_def Let_def unat_ms)

lemma ULID_New_wf:
  assumes "ulid_wf g" "ulid_ready inp g"
  shows "ulid_wf (snd (ULID_New inp g))"
proof -
  have "length (lastEnt (snd (ULID_New inp g))) = 10"
    using assms(1) length_ReadFull [of "snd inp" "lastEnt g"]
    by (auto simp: ULID_New_def ulid_wf_def Let_def split: prod.splits)
  then show ?thesis
    using assms(2) by (simp add: ulid_wf_def ULID_New_ms) (auto simp: ulid_ready_def nat_less_iff)
qed

lemma ULID_New_id: "fst (ULID_New inp g) = encode (ulid_bytes (snd (ULID_New inp g)))"
  by (cases inp) (simp add: ULID_New_def ulid_bytes_def Let_def)

lemma ULID_New_same_ms:
  assumes "ulid_ready inp g" "unat (lastMs g) = nat (unix_milli (fst inp))"
  shows "snd (ULID_New inp g) = \<lparr>lastMs = lastMs g, lastEnt = incr (lastEnt g)\<rparr>"
proof -
  have "word_of_int (unix_milli (fst inp)) = lastMs g"
    using assms unat_ms [of "unix_milli (fst inp)"]
    by (intro word_unat_eq_iff [THEN iffD2]) (auto simp: ulid_ready_def)
  then show ?thesis by (cases inp) (simp add: ULID_New_def Let_def)
qed

lemma ULID_New_rank:
  assumes g: "ulid_wf g" and r: "ulid_ready inp g"
  shows "ulid_val (ulid_bytes g) < ulid_val (ulid_bytes (snd (ULID_New inp g)))"
proof (cases "unat (lastMs g) = nat (unix_milli (fst inp))")
  case True
  with r have "list_ex (\<lambda>x. x \<noteq> 255) (lastEnt g)" by (simp add: ulid_ready_def)
  moreover have "ulid_wf \<lparr>lastMs = lastMs g, lastEnt = incr (lastEnt g)\<rparr>"
    using g by (simp add: ulid_wf_def)
  ultimately show ?thesis
    using g by (simp add: ULID_New_same_ms [OF r True] ulid_val_bytes horner_incr)
next
  case False
  let ?h = "snd (ULID_New inp g)"
  have "unat (lastMs g) + 1 \<le> unat (lastMs ?h)"
    using r False by (simp add: ULID_New_ms) (auto simp: ulid_ready_def)
  then have "(unat (lastMs g) + 1) * 256 ^ 10 \<le> unat (lastMs ?h) * 256 ^ 10"
    by (rule mult_le_mono1)
  moreover have "horner 256 (map unat (lastEnt g)) < 256 ^ 10"
    using horner_bound [of "map unat (lastEnt g)" 256] g unat_u8 by (auto simp: ulid_wf_def)
  ultimately show ?thesis
    using ULID_New_wf [OF g r] g by (simp add: ulid_val_bytes)
qed

interpretation ulid_gen: id_generator ULID_New ulid_ready ulid_wf
  "\<lambda>g. ulid_val (ulid_bytes g)" "\<lambda>g. encode (ulid_bytes g)" "\<lambda>_ _. True"
proof (unfold_locales, goal_cases)
  case (4 g h)
  then show ?case by (simp add: encode_less_iff ulid_bytes_def ulid_wf_def)
qed (auto simp: ULID_New_wf ULID_New_rank ULID_New_id)

subsection \<open>The fake generator\<close>

lemma low_digits_horner:
  "n < 10 ^ w \<Longrightarrow> horner 10 (map (\<lambda>c. byte c - 48) (low_digits w n)) = n
     \<and> list_all is_digit (low_digits w n)"
proof (induction w arbitrary: n)
  case 0
  then show ?case by simp
next
  case (Suc w)
  have "n div 10 < 10 ^ w" using Suc.prems by (simp add: less_mult_imp_div_less mult.commute)
  with Suc.IH [of "n div 10"] show ?case
    by (simp add: horner_append horner_Cons byte_char_of_small is_digit_def)
qed

lemma low_digits_less:
  assumes "m < 10 ^ w" "n < 10 ^ w" "m < n"
  shows "low_digits w m < low_digits w n"
proof -
  let ?v = "\<lambda>c :: char. byte c - 48"
  have dig: "list_all is_digit (low_digits w m)" "list_all is_digit (low_digits w n)"
    using assms low_digits_horner by auto
  then have small: "\<forall>d \<in> set (map ?v (low_digits w m)). d < 10"
    "\<forall>d \<in> set (map ?v (low_digits w n)). d < 10"
    by (auto simp: list_all_iff is_digit_def)
  have "map ?v (low_digits w m) < map ?v (low_digits w n)"
    using horner_less_iff [OF _ small] assms by (simp add: low_digits_horner)
  moreover have "(?v a < ?v b) = (a < b)" if "is_digit a" "is_digit b" for a b
    using that by (auto simp: is_digit_def less_char_def)
  ultimately show ?thesis
    using map_less_iff [of "low_digits w m" "low_digits w n" ?v] dig
    by (simp add: list_all_iff) blast
qed

definition fake_id :: "FakeGen \<Rightarrow> string" where
  "fake_id f = (if fk_prefix f = [] then ''id'' else fk_prefix f) @ ''_''
     @ low_digits 20 (unat (fk_seq f))"

lemma append_less_iff: "(u :: string) @ x < u @ y \<longleftrightarrow> x < y"
  by (induction u) auto

lemma fake_id_less:
  assumes "fk_prefix f = fk_prefix g" "unat (fk_seq f) < unat (fk_seq g)"
  shows "fake_id f < fake_id g"
proof -
  have b: "unat (x :: u64) < 10 ^ 20" for x
    using unsigned_less [of x] by (rule order_less_trans) simp
  show ?thesis
    using assms low_digits_less [OF b b assms(2)] by (simp add: fake_id_def append_less_iff)
qed

interpretation fake_gen: id_generator Fake_New "\<lambda>_ f. fk_seq f + 1 \<noteq> 0" "\<lambda>_. True"
  "\<lambda>f. unat (fk_seq f)" fake_id "\<lambda>f g. fk_prefix f = fk_prefix g"
proof (unfold_locales, goal_cases)
  case (2 g i)
  then show ?case
    by (simp add: Fake_New_def Let_def) (metis Suc_eq_plus1 add.commute lessI unatSuc)
next
  case (4 g h)
  then show ?case by (intro fake_id_less)
qed (auto simp: Fake_New_def Let_def fake_id_def)

subsection \<open>Properties\<close>

text \<open>
  The 26-character rendering is order-preserving: for two 16-byte ids, comparing the encoded
  strings byte-wise is comparing the 128-bit big-endian numbers, which is what makes sorting ids as
  strings sort them by time and counter.
\<close>

theorem encode_order:
  assumes "length a = 16" "length b = 16"
  shows "(encode a < encode b \<longleftrightarrow> ulid_val a < ulid_val b) \<and> (encode a = encode b \<longleftrightarrow> a = b)"
  using encode_less_iff [OF assms] encode_inj [OF assms] by blast

theorem encode_order_witness:
  "length (replicate 16 (0 :: u8)) = 16 \<and> length (replicate 15 0 @ [1 :: u8]) = 16
   \<and> encode (replicate 16 0) < encode (replicate 15 0 @ [1])"
proof -
  have "length (replicate 16 (0 :: u8)) = 16" "length (replicate 15 0 @ [1 :: u8]) = 16" by simp_all
  note this encode_order [OF this]
  moreover have "ulid_val (replicate 16 0) < ulid_val (replicate 15 0 @ [1])"
    by (simp add: ulid_val_def horner_def numeral_eq_Suc)
  ultimately show ?thesis by blast
qed

text \<open>
  A run of the ULID generator mints strictly increasing, hence distinct, ids whatever the
  entropy source does (a failing reader included), as long as each call reads a millisecond not
  before the last one and no single millisecond exhausts the 80-bit counter.
\<close>

theorem ulid_monotonic:
  assumes "ulid_wf g" "all_ready ULID_New ulid_ready is g"
  shows "sorted_wrt (<) (mint_all ULID_New is g) \<and> distinct (mint_all ULID_New is g)"
  using ulid_gen.ids_increasing [OF assms] ulid_gen.ids_distinct [OF assms] by blast

theorem ulid_monotonic_witness:
  "ulid_wf NewULID \<and> all_ready ULID_New ulid_ready [(10 ^ 9, []), (10 ^ 9, []), (2 * 10 ^ 9, [])] NewULID
   \<and> sorted_wrt (<) (mint_all ULID_New [(10 ^ 9, []), (10 ^ 9, []), (2 * 10 ^ 9, [])] NewULID)"
proof -
  have w: "ulid_wf NewULID" by (simp add: ulid_wf_def NewULID_def)
  have r: "all_ready ULID_New ulid_ready [(10 ^ 9, []), (10 ^ 9, []), (2 * 10 ^ 9, [])] NewULID"
    by code_simp
  show ?thesis using w r ulid_monotonic [OF w r] by blast
qed

text \<open>
  The hypothesis on the clock is needed: when the clock reads an earlier millisecond than the
  last mint, the next id is strictly smaller than the last one, since the generator re-draws
  instead of keeping the larger timestamp.
\<close>

theorem ulid_clock_back:
  assumes "ulid_wf g" "0 \<le> unix_milli now" "nat (unix_milli now) < unat (lastMs g)"
  shows "fst (ULID_New (now, rd) g) < encode (ulid_bytes g)"
proof -
  let ?h = "snd (ULID_New (now, rd) g)"
  have lt: "unix_milli now < 2 ^ 48" using assms by (auto simp: ulid_wf_def)
  then have ms: "unat (lastMs ?h) = nat (unix_milli now)"
    using assms(2) by (simp add: ULID_New_def Let_def unat_ms)
  have wf: "ulid_wf ?h"
    using assms(1,2) lt length_ReadFull [of rd "lastEnt g"] ms
    by (auto simp: ulid_wf_def ULID_New_def Let_def nat_less_iff split: prod.splits)
  have "(unat (lastMs ?h) + 1) * 256 ^ 10 \<le> unat (lastMs g) * 256 ^ 10"
    using assms(2,3) ms by (intro mult_le_mono1) simp
  moreover have "horner 256 (map unat (lastEnt ?h)) < 256 ^ 10"
    using horner_bound [of "map unat (lastEnt ?h)" 256] wf unat_u8 by (auto simp: ulid_wf_def)
  ultimately have "ulid_val (ulid_bytes ?h) < ulid_val (ulid_bytes g)"
    using wf assms(1) by (simp add: ulid_val_bytes)
  then show ?thesis
    using wf assms(1) encode_less_iff [of "ulid_bytes ?h" "ulid_bytes g"]
    by (simp add: ULID_New_id) (simp add: ulid_bytes_def ulid_wf_def)
qed

theorem ulid_clock_back_witness:
  "fst (ULID_New (10 ^ 9, []) \<lparr>lastMs = 2000, lastEnt = replicate 10 0\<rparr>)
     < encode (ulid_bytes \<lparr>lastMs = 2000, lastEnt = replicate 10 0\<rparr>)"
proof (rule ulid_clock_back)
  show "ulid_wf \<lparr>lastMs = 2000, lastEnt = replicate 10 0\<rparr>" by (simp add: ulid_wf_def)
qed (simp_all add: unix_milli_def)

end
