(* ===== verification/Governor.thy ===== *)
theory Governor
  imports Go_Values
begin

text \<open>
  \<^verbatim>\<open>internal/ratelimit\<close>: the per-channel token bucket with its ordered queue (\<^verbatim>\<open>governor.go\<close>) and the
  adaptive layer for platforms with undocumented limits (\<^verbatim>\<open>adaptive.go\<close>).

  Tokens and rates are float64 values (\<open>fl\<close>). A queued send is a value of type \<open>'e\<close>. \<^verbatim>\<open>drainKey\<close>
  runs its sends outside the lock, so it is three operations: \<open>drain_begin\<close> (its first locked
  section, which takes the ready entries), \<open>drain_send\<close> (one \<^verbatim>\<open>e.result <- e.send()\<close>) and
  \<open>drain_end\<close> (its second locked section); \<open>drainKey\<close> is their composition when nothing interleaves,
  and \<open>gv_step\<close> lets them interleave with every other operation. \<open>cs_inflight\<close> is the local \<^verbatim>\<open>ready\<close>
  of the running drain; \<open>cs_sent\<close> and \<open>cs_submitted\<close> record the history and are read by nothing.
\<close>

subsection \<open>State\<close>

record Limit =
  Burst :: int
  Window :: duration

record 'e channelState =
  cs_limit :: Limit
  cs_tokens :: rat
  cs_lastRefill :: time
  cs_queue :: "'e list"
  cs_sending :: bool
  cs_inflight :: "'e list"
  cs_sent :: "'e list"
  cs_submitted :: "'e list"

record 'e Governor =
  gv_def :: Limit
  gv_channels :: "(string \<times> 'e channelState) list"

definition refillPerSec :: "Limit \<Rightarrow> rat" where
  "refillPerSec l = (if Window l \<le> 0 \<or> Burst l \<le> 0 then 0
     else fl (fl_int (Burst l) / seconds (Window l)))"

definition NewGovernor :: "Limit \<Rightarrow> 'e Governor" where
  "NewGovernor d = \<lparr>gv_def = d, gv_channels = []\<rparr>"

subsection \<open>Operations\<close>

definition state :: "string \<Rightarrow> time \<Rightarrow> 'e Governor \<Rightarrow> 'e channelState" where
  "state key now g = (case map_of (gv_channels g) key of
     Some cs \<Rightarrow> cs
   | None \<Rightarrow> \<lparr>cs_limit = gv_def g, cs_tokens = fl_int (Burst (gv_def g)), cs_lastRefill = now,
       cs_queue = [], cs_sending = False, cs_inflight = [], cs_sent = [], cs_submitted = []\<rparr>)"

text \<open>\<^verbatim>\<open>state\<close> hands out a pointer into the map; writing through it is \<open>put_state\<close>.\<close>

definition put_state :: "string \<Rightarrow> 'e channelState \<Rightarrow> 'e Governor \<Rightarrow> 'e Governor" where
  "put_state key cs g = g\<lparr>gv_channels := AList.update key cs (gv_channels g)\<rparr>"

definition refill :: "time \<Rightarrow> 'e channelState \<Rightarrow> 'e channelState" where
  "refill now cs =
    (if cs_lastRefill cs = zero_time then cs\<lparr>cs_lastRefill := now\<rparr>
     else
       let elapsed = seconds (time_sub now (cs_lastRefill cs)) in
       if elapsed \<le> 0 then cs
       else
         let tokens = fl (cs_tokens cs + fl (elapsed * refillPerSec (cs_limit cs)));
             mx = fl_int (Burst (cs_limit cs));
             tokens = (if tokens > mx then mx else tokens)
         in cs\<lparr>cs_tokens := tokens, cs_lastRefill := now\<rparr>)"

definition SetLimit :: "string \<Rightarrow> Limit \<Rightarrow> time \<Rightarrow> 'e Governor \<Rightarrow> 'e Governor" where
  "SetLimit key l now g =
    (let cs = (state key now g)\<lparr>cs_limit := l\<rparr>;
         cs = (if cs_tokens cs > fl_int (Burst l) then cs\<lparr>cs_tokens := fl_int (Burst l)\<rparr> else cs)
     in put_state key cs g)"

definition Penalize :: "string \<Rightarrow> duration \<Rightarrow> time \<Rightarrow> 'e Governor \<Rightarrow> 'e Governor" where
  "Penalize key wait now g =
    (let cs = refill now (state key now g);
         floor = fl (1 - fl (seconds wait * refillPerSec (cs_limit cs)));
         floor = (if floor > 0 then 0 else floor);
         cs = (if cs_tokens cs > floor then cs\<lparr>cs_tokens := floor\<rparr> else cs)
     in put_state key cs g)"

fun take_ready :: "rat \<Rightarrow> 'e list \<Rightarrow> 'e list \<times> rat \<times> 'e list" where
  "take_ready tokens [] = ([], tokens, [])"
| "take_ready tokens (e # queue) =
     (if 1 \<le> tokens
      then let (ready, tokens', queue') = take_ready (fl (tokens - 1)) queue
           in (e # ready, tokens', queue')
      else ([], tokens, e # queue))"

definition drain_begin :: "string \<Rightarrow> time \<Rightarrow> 'e Governor \<Rightarrow> 'e Governor" where
  "drain_begin key now g =
    (case map_of (gv_channels g) key of
       None \<Rightarrow> g
     | Some cs \<Rightarrow>
       if cs_sending cs then g
       else
         let cs = refill now cs;
             (ready, tokens, queue) = take_ready (cs_tokens cs) (cs_queue cs);
             cs = cs\<lparr>cs_tokens := tokens, cs_queue := queue\<rparr>
         in put_state key (if ready = [] then cs
              else cs\<lparr>cs_sending := True, cs_inflight := ready\<rparr>) g)"

definition drain_send :: "string \<Rightarrow> 'e Governor \<Rightarrow> 'e Governor" where
  "drain_send key g =
    (case map_of (gv_channels g) key of
       None \<Rightarrow> g
     | Some cs \<Rightarrow> (case cs_inflight cs of
         [] \<Rightarrow> g
       | e # rest \<Rightarrow> put_state key (cs\<lparr>cs_inflight := rest, cs_sent := cs_sent cs @ [e]\<rparr>) g))"

definition drain_end :: "string \<Rightarrow> 'e Governor \<Rightarrow> 'e Governor" where
  "drain_end key g =
    (case map_of (gv_channels g) key of
       None \<Rightarrow> g
     | Some cs \<Rightarrow> if cs_sending cs \<and> cs_inflight cs = [] then put_state key (cs\<lparr>cs_sending := False\<rparr>) g else g)"

definition drainKey :: "string \<Rightarrow> time \<Rightarrow> 'e Governor \<Rightarrow> 'e Governor" where
  "drainKey key now g =
    (let g = drain_begin key now g;
         n = (case map_of (gv_channels g) key of None \<Rightarrow> 0 | Some cs \<Rightarrow> length (cs_inflight cs))
     in drain_end key ((drain_send key ^^ n) g))"

definition enqueue :: "string \<Rightarrow> 'e \<Rightarrow> time \<Rightarrow> 'e Governor \<Rightarrow> 'e Governor" where
  "enqueue key e now g =
    (let cs = state key now g
     in put_state key (cs\<lparr>cs_queue := cs_queue cs @ [e], cs_submitted := cs_submitted cs @ [e]\<rparr>) g)"

definition gov_Submit :: "string \<Rightarrow> 'e \<Rightarrow> time \<Rightarrow> 'e Governor \<Rightarrow> 'e Governor" where
  "gov_Submit key e now g = drainKey key now (enqueue key e now g)"

definition Drain :: "time \<Rightarrow> 'e Governor \<Rightarrow> 'e Governor" where
  "Drain now g = fold (\<lambda>key. drainKey key now) (map fst (gv_channels g)) g"

text \<open>\<^verbatim>\<open>time.Duration(x)\<close> of a float truncates toward zero (in range).\<close>

definition trunc_rat :: "rat \<Rightarrow> int" where
  "trunc_rat x = (if 0 \<le> x then \<lfloor>x\<rfloor> else \<lceil>x\<rceil>)"

definition gov_State :: "string \<Rightarrow> time \<Rightarrow> 'e Governor \<Rightarrow> (nat \<times> duration) \<times> 'e Governor" where
  "gov_State key now g =
    (case map_of (gv_channels g) key of
       None \<Rightarrow> ((0, 0), g)
     | Some cs \<Rightarrow>
       let cs = refill now cs; g = put_state key cs g; rps = refillPerSec (cs_limit cs) in
       if 1 \<le> cs_tokens cs \<or> cs_queue cs = [] then ((length (cs_queue cs), 0), g)
       else if rps \<le> 0 then ((length (cs_queue cs), 0), g)
       else ((length (cs_queue cs),
              trunc_rat (fl (fl (fl (1 - cs_tokens cs) / rps) * fl_int second))), g))"

text \<open>Every operation, from any goroutine, at any time.\<close>

definition limit_ok :: "Limit \<Rightarrow> bool" where
  "limit_ok l = (\<bar>Burst l\<bar> \<le> 2 ^ 53)"

inductive gv_step :: "'e Governor \<Rightarrow> 'e Governor \<Rightarrow> bool" where
  "limit_ok l \<Longrightarrow> gv_step g (SetLimit key l now g)"
| "gv_step g (Penalize key wait now g)"
| "gv_step g (enqueue key e now g)"
| "gv_step g (drain_begin key now g)"
| "gv_step g (drain_send key g)"
| "gv_step g (drain_end key g)"
| "gv_step g (snd (gov_State key now g))"


subsection \<open>The channel invariant\<close>

definition chan_inv :: "'e channelState \<Rightarrow> bool" where
  "chan_inv cs = (cs_submitted cs = cs_sent cs @ cs_inflight cs @ cs_queue cs
     \<and> (\<not> cs_sending cs \<longrightarrow> cs_inflight cs = [])
     \<and> limit_ok (cs_limit cs) \<and> cs_tokens cs \<le> of_int (Burst (cs_limit cs)))"

definition gv_inv :: "'e Governor \<Rightarrow> bool" where
  "gv_inv g = (limit_ok (gv_def g) \<and> (\<forall>k cs. map_of (gv_channels g) k = Some cs \<longrightarrow> chan_inv cs))"

lemma limit_ok_burst: "limit_ok l \<Longrightarrow> fl_int (Burst l) = of_int (Burst l)"
  by (simp add: limit_ok_def fl_of_int)

lemma gv_inv_state: "gv_inv g \<Longrightarrow> chan_inv (state key now g)"
  by (auto simp: gv_inv_def state_def chan_inv_def limit_ok_burst split: option.splits)

lemma gv_inv_lookup: "gv_inv g \<Longrightarrow> map_of (gv_channels g) key = Some cs \<Longrightarrow> chan_inv cs"
  by (simp add: gv_inv_def)

lemma gv_inv_put: "gv_inv g \<Longrightarrow> chan_inv cs \<Longrightarrow> gv_inv (put_state key cs g)"
  by (simp add: gv_inv_def put_state_def)

lemma refill_frame [frame, simp]:
  "cs_limit (refill now cs) = cs_limit cs" "cs_queue (refill now cs) = cs_queue cs"
  "cs_sending (refill now cs) = cs_sending cs" "cs_inflight (refill now cs) = cs_inflight cs"
  "cs_sent (refill now cs) = cs_sent cs" "cs_submitted (refill now cs) = cs_submitted cs"
  by (simp_all add: refill_def Let_def)

lemma chan_inv_refill: "chan_inv cs \<Longrightarrow> chan_inv (refill now cs)"
proof -
  assume inv: "chan_inv cs"
  then have "cs_tokens (refill now cs) \<le> of_int (Burst (cs_limit cs))"
    by (auto simp: chan_inv_def refill_def Let_def limit_ok_burst)
  then show ?thesis using inv by (simp add: chan_inv_def)
qed

lemma chan_inv_tokens_le: "chan_inv cs \<Longrightarrow> t \<le> cs_tokens cs \<Longrightarrow> chan_inv (cs\<lparr>cs_tokens := t\<rparr>)"
  by (auto simp: chan_inv_def)

text \<open>The loop takes a prefix of the queue, no longer than the tokens allow.\<close>

lemma take_ready_split: "take_ready t q = (r, t', q') \<Longrightarrow> q = r @ q'"
  by (induction t q arbitrary: r t' q' rule: take_ready.induct) (auto split: if_splits prod.splits)

lemma take_ready_tokens:
  "take_ready t q = (r, t', q') \<Longrightarrow> t \<le> of_int b \<Longrightarrow> \<bar>b\<bar> \<le> 2 ^ 53 \<Longrightarrow>
    t' \<le> of_int b \<and> length r \<le> nat b"
proof (induction t q arbitrary: r t' q' b rule: take_ready.induct)
  case (2 t e q)
  show ?case
  proof (cases "1 \<le> t")
    case True
    then obtain r1 where r1: "take_ready (fl (t - 1)) q = (r1, t', q')" "r = e # r1"
      using "2.prems"(1) by (auto split: prod.splits)
    have b: "1 \<le> b" using True "2.prems"(2) by (metis of_int_1_le_iff order_trans)
    then have b1: "\<bar>b - 1\<bar> \<le> 2 ^ 53" using "2.prems"(3) by simp
    have "fl (t - 1) \<le> of_int (b - 1)" by (rule fl_le_int [OF b1]) (use "2.prems"(2) in simp)
    from "2.IH" [OF True r1(1) this b1] have "t' \<le> of_int (b - 1)" "length r1 \<le> nat (b - 1)" by simp_all
    then show ?thesis using r1(2) b by auto
  qed (use 2 in auto)
qed auto

lemma drain_begin_cases:
  obtains (idle) "drain_begin key now g = g"
  | (drain) cs r t q where "map_of (gv_channels g) key = Some cs" "\<not> cs_sending cs"
      "take_ready (cs_tokens (refill now cs)) (cs_queue cs) = (r, t, q)"
      "drain_begin key now g = put_state key (if r = [] then (refill now cs)\<lparr>cs_tokens := t, cs_queue := q\<rparr>
         else (refill now cs)\<lparr>cs_tokens := t, cs_queue := q, cs_sending := True, cs_inflight := r\<rparr>) g"
proof (cases "map_of (gv_channels g) key")
  case None
  then show thesis using idle by (simp add: drain_begin_def)
next
  case (Some cs)
  obtain r t q where "take_ready (cs_tokens (refill now cs)) (cs_queue cs) = (r, t, q)"
    by (metis prod_cases3)
  with Some show thesis
    using idle drain by (cases "cs_sending cs") (auto simp: drain_begin_def Let_def)
qed

lemma gv_inv_drain_begin: "gv_inv g \<Longrightarrow> gv_inv (drain_begin key now g)"
proof (cases rule: drain_begin_cases [of key now g])
  case (drain cs r t q)
  assume inv: "gv_inv g"
  have c: "chan_inv (refill now cs)" using gv_inv_lookup [OF inv drain(1)] by (rule chan_inv_refill)
  have "t \<le> of_int (Burst (cs_limit cs))"
    using take_ready_tokens [OF drain(3)] c by (simp add: chan_inv_def limit_ok_def)
  then have "chan_inv (if r = [] then (refill now cs)\<lparr>cs_tokens := t, cs_queue := q\<rparr>
      else (refill now cs)\<lparr>cs_tokens := t, cs_queue := q, cs_sending := True, cs_inflight := r\<rparr>)"
    using c drain(2) take_ready_split [OF drain(3)] by (auto simp: chan_inv_def)
  then show ?thesis unfolding drain(4) by (rule gv_inv_put [OF inv])
qed simp

lemma gv_inv_step: "gv_step g g' \<Longrightarrow> gv_inv g \<Longrightarrow> gv_inv g'"
proof (induction rule: gv_step.induct)
  case (1 l g key now)
  have "chan_inv (state key now g)" using 1 by (simp add: gv_inv_state)
  then show ?case using 1
    by (auto simp: SetLimit_def Let_def limit_ok_burst intro!: gv_inv_put) (auto simp: chan_inv_def)
next
  case (2 g key wait now)
  have "chan_inv (refill now (state key now g))" using 2 by (simp add: gv_inv_state chan_inv_refill)
  then show ?case using 2
    by (auto simp: Penalize_def Let_def intro!: gv_inv_put chan_inv_tokens_le)
next
  case (3 g key e now)
  have "chan_inv (state key now g)" using 3 by (simp add: gv_inv_state)
  then show ?case using 3
    by (auto simp: enqueue_def Let_def chan_inv_def intro!: gv_inv_put)
next
  case (5 g key)
  then show ?case using gv_inv_lookup [of g key]
    by (auto simp: drain_send_def chan_inv_def split: option.splits list.splits intro!: gv_inv_put)
next
  case (6 g key)
  then show ?case using gv_inv_lookup [of g key]
    by (auto simp: drain_end_def chan_inv_def split: option.splits intro!: gv_inv_put)
next
  case (7 g key now)
  then show ?case
    by (auto simp: gov_State_def Let_def split: option.splits
        intro!: gv_inv_put chan_inv_refill gv_inv_lookup)
qed (rule gv_inv_drain_begin)

lemma gv_inv_reach: "gv_step\<^sup>*\<^sup>* g g' \<Longrightarrow> gv_inv g \<Longrightarrow> gv_inv g'"
  by (induction rule: rtranclp_induct) (auto intro: gv_inv_step)

lemma gv_inv_new: "limit_ok d \<Longrightarrow> gv_inv (NewGovernor d)"
  by (simp add: gv_inv_def NewGovernor_def)


subsection \<open>Order, pacing and progress\<close>

text \<open>
  C4. Nothing is ever dropped or reordered: under any interleaving of submits, drains, limit
  changes and penalties, the sends submitted for a channel are exactly those already sent, then
  those in flight, then those queued, in submission order.
\<close>

theorem governor_fifo:
  assumes "limit_ok d" "gv_step\<^sup>*\<^sup>* (NewGovernor d) g" "map_of (gv_channels g) key = Some cs"
  shows "cs_submitted cs = cs_sent cs @ cs_inflight cs @ cs_queue cs"
  using gv_inv_lookup [OF gv_inv_reach [OF assms(2) gv_inv_new [OF assms(1)]] assms(3)]
  by (simp add: chan_inv_def)

lemma enqueue_lookup [simp]:
  "map_of (gv_channels (enqueue key e now g)) key =
    Some ((state key now g)\<lparr>cs_queue := cs_queue (state key now g) @ [e],
      cs_submitted := cs_submitted (state key now g) @ [e]\<rparr>)"
  by (simp add: enqueue_def put_state_def Let_def)

theorem governor_fifo_witness:
  "\<exists>cs. map_of (gv_channels (enqueue ''k'' ''b'' 0 (enqueue ''k'' ''a'' 0
      (NewGovernor \<lparr>Burst = 20, Window = 30 * second\<rparr>)))) ''k'' = Some cs
    \<and> cs_submitted cs = [''a'', ''b''] \<and> cs_sent cs @ cs_inflight cs @ cs_queue cs = [''a'', ''b'']"
proof -
  let ?d = "\<lparr>Burst = 20, Window = 30 * second\<rparr>"
  let ?g = "enqueue ''k'' ''b'' 0 (enqueue ''k'' ''a'' 0 (NewGovernor ?d))"
  have "gv_step\<^sup>*\<^sup>* (NewGovernor ?d) ?g"
    by (meson gv_step.intros(3) converse_rtranclp_into_rtranclp r_into_rtranclp)
  moreover have "limit_ok ?d" by (simp add: limit_ok_def)
  moreover obtain cs where cs: "map_of (gv_channels ?g) ''k'' = Some cs" by simp
  ultimately have "cs_submitted cs = cs_sent cs @ cs_inflight cs @ cs_queue cs"
    using governor_fifo by blast
  moreover have "cs_submitted cs = [''a'', ''b'']"
    using cs by (auto simp: state_def enqueue_def put_state_def Let_def NewGovernor_def)
  ultimately show ?thesis using cs by (intro exI [of _ cs]) simp
qed

lemma drain_sends:
  "map_of (gv_channels g) key = Some cs \<Longrightarrow> n = length (cs_inflight cs) \<Longrightarrow>
    map_of (gv_channels ((drain_send key ^^ n) g)) key =
      Some (cs\<lparr>cs_inflight := [], cs_sent := cs_sent cs @ cs_inflight cs\<rparr>)"
proof (induction n arbitrary: g cs)
  case (Suc n)
  then obtain e rest where e: "cs_inflight cs = e # rest" by (cases "cs_inflight cs") auto
  then have "map_of (gv_channels (drain_send key g)) key =
      Some (cs\<lparr>cs_inflight := rest, cs_sent := cs_sent cs @ [e]\<rparr>)"
    using Suc.prems by (simp add: drain_send_def put_state_def)
  from Suc.IH [OF this] show ?case using Suc.prems e by (simp add: funpow_Suc_right del: funpow.simps)
qed auto

text \<open>One uninterrupted drain of an idle channel: the ready prefix of the queue is sent.\<close>

lemma drainKey_lookup:
  assumes cs: "map_of (gv_channels g) key = Some cs" "\<not> cs_sending cs" "cs_inflight cs = []"
    and take: "take_ready (cs_tokens (refill now cs)) (cs_queue cs) = (r, t, q)"
  shows "map_of (gv_channels (drainKey key now g)) key =
    Some ((refill now cs)\<lparr>cs_tokens := t, cs_queue := q, cs_sending := False, cs_inflight := [],
      cs_sent := cs_sent cs @ r\<rparr>)"
proof (cases "r = []")
  case True
  then have "drain_begin key now g = put_state key ((refill now cs)\<lparr>cs_tokens := t, cs_queue := q\<rparr>) g"
    using cs take by (simp add: drain_begin_def Let_def)
  then show ?thesis using True cs by (simp add: drainKey_def drain_end_def put_state_def Let_def)
next
  case False
  let ?cs = "(refill now cs)\<lparr>cs_tokens := t, cs_queue := q, cs_sending := True, cs_inflight := r\<rparr>"
  have "map_of (gv_channels (drain_begin key now g)) key = Some ?cs"
    using False cs take by (simp add: drain_begin_def put_state_def Let_def)
  with drain_sends [OF this refl] show ?thesis
    by (simp add: drainKey_def drain_end_def put_state_def Let_def)
qed

text \<open>
  One drain of a channel sends at most \<open>Burst\<close> of its queued sends, and sends them from the front
  of the queue: what was queued before is what was just sent followed by what is queued after.
\<close>

theorem drain_burst:
  assumes "limit_ok d" "gv_step\<^sup>*\<^sup>* (NewGovernor d) g" "map_of (gv_channels g) key = Some cs"
    and "\<not> cs_sending cs"
  shows "\<exists>cs' r. map_of (gv_channels (drainKey key now g)) key = Some cs'
    \<and> cs_sent cs' = cs_sent cs @ r \<and> cs_queue cs = r @ cs_queue cs'
    \<and> length r \<le> nat (Burst (cs_limit cs)) \<and> \<not> cs_sending cs'"
proof -
  have inv: "chan_inv cs" using gv_inv_lookup [OF gv_inv_reach [OF assms(2) gv_inv_new [OF assms(1)]] assms(3)] .
  obtain r t q where take: "take_ready (cs_tokens (refill now cs)) (cs_queue cs) = (r, t, q)"
    by (metis prod_cases3)
  have "chan_inv (refill now cs)" by (rule chan_inv_refill [OF inv])
  then have "length r \<le> nat (Burst (cs_limit cs))"
    using take_ready_tokens [OF take] by (simp add: chan_inv_def limit_ok_def)
  moreover have "cs_inflight cs = []" using inv assms(4) by (simp add: chan_inv_def)
  ultimately show ?thesis
    using drainKey_lookup [OF assms(3,4) _ take] take_ready_split [OF take] by auto
qed


theorem drain_burst_witness:
  "let g = enqueue ''k'' ''b'' 0 (enqueue ''k'' ''a'' 0 (NewGovernor \<lparr>Burst = 1, Window = second\<rparr>))
   in \<exists>cs' r. map_of (gv_channels (drainKey ''k'' 0 g)) ''k'' = Some cs'
     \<and> cs_sent cs' = r \<and> [''a'', ''b''] = r @ cs_queue cs' \<and> length r \<le> 1"
proof -
  let ?d = "\<lparr>Burst = 1, Window = second\<rparr>"
  let ?g = "enqueue ''k'' ''b'' 0 (enqueue ''k'' ''a'' 0 (NewGovernor ?d))"
  have "gv_step\<^sup>*\<^sup>* (NewGovernor ?d) ?g"
    by (meson gv_step.intros(3) converse_rtranclp_into_rtranclp r_into_rtranclp)
  moreover have "limit_ok ?d" by (simp add: limit_ok_def)
  moreover obtain cs where cs: "map_of (gv_channels ?g) ''k'' = Some cs" by simp
  moreover have "\<not> cs_sending cs" "cs_queue cs = [''a'', ''b'']" "cs_sent cs = []" "Burst (cs_limit cs) = 1"
    using cs by (auto simp: state_def enqueue_def put_state_def Let_def NewGovernor_def)
  ultimately show ?thesis using drain_burst [of ?d ?g "''k''" cs 0]
    by (simp add: Let_def) blast
qed

text \<open>
  The tokens a refill adds are, up to six roundings, the elapsed share of the window: once a window
  and a millionth of it have passed, they make a whole token.
\<close>

lemma refill_arith:
  fixes W E b w e :: rat
  defines "k \<equiv> 1 - 1 / 2 ^ 52" and "K \<equiv> 1 + 1 / 2 ^ 52"
  assumes "0 < w" "1 \<le> b" "1000001 * w \<le> 1000000 * e" "0 < W" "W \<le> K ^ 2 * w" "k ^ 2 * e \<le> E"
  shows "1 \<le> k ^ 3 * (E * (b / W))"
proof -
  have kK: "0 < k" "0 < K" by (simp_all add: k_def K_def)
  have "1 / (K ^ 2 * w) \<le> b / W" using assms kK by (intro frac_le) auto
  moreover have e: "0 < e" using assms(3,5) by linarith
  then have "0 \<le> E" using assms(8) kK by (metis less_imp_le mult_pos_pos order_trans zero_less_power)
  ultimately have "(k ^ 2 * e) * (1 / (K ^ 2 * w)) \<le> E * (b / W)"
    using assms(3,8) e kK by (intro mult_mono) auto
  then have "k ^ 3 * ((k ^ 2 * e) * (1 / (K ^ 2 * w))) \<le> k ^ 3 * (E * (b / W))"
    using kK by (intro mult_left_mono) auto
  moreover have "k ^ 3 * ((k ^ 2 * e) * (1 / (K ^ 2 * w))) = k ^ 5 / K ^ 2 * (e / w)"
    by (simp add: power_numeral_reduce)
  moreover have "1000000 / 1000001 \<le> k ^ 5 / K ^ 2" unfolding k_def K_def by code_simp
  moreover have "1000001 / 1000000 \<le> e / w" using assms(3,5) by (simp add: field_simps)
  ultimately have "1000000 / 1000001 * (1000001 / 1000000) \<le> k ^ 5 / K ^ 2 * (e / w)"
    by (intro mult_mono) (use kK in auto)
  then show ?thesis
    using \<open>k ^ 3 * ((k ^ 2 * e) * (1 / (K ^ 2 * w))) \<le> k ^ 3 * (E * (b / W))\<close>
      \<open>k ^ 3 * ((k ^ 2 * e) * (1 / (K ^ 2 * w))) = k ^ 5 / K ^ 2 * (e / w)\<close> by simp
qed

lemma refill_tokens:
  assumes l: "limit_ok (cs_limit cs)" "1 \<le> Burst (cs_limit cs)" "0 < Window (cs_limit cs)"
    and t: "0 \<le> cs_tokens cs" "cs_lastRefill cs \<noteq> zero_time" "int64_ok (now - cs_lastRefill cs)"
    and late: "1000001 * Window (cs_limit cs) \<le> 1000000 * (now - cs_lastRefill cs)"
  shows "1 \<le> cs_tokens (refill now cs)"
proof -
  define b where "b = (of_int (Burst (cs_limit cs)) :: rat)"
  define k where "k = (1 - 1 / 2 ^ 52 :: rat)"
  have k: "0 \<le> k" and flk: "\<And>x. 0 \<le> x \<Longrightarrow> k * x \<le> fl x"
    using fl_error by (simp_all add: k_def)
  define W E R where "W = seconds (Window (cs_limit cs))" and "E = seconds (now - cs_lastRefill cs)"
    and "R = refillPerSec (cs_limit cs)"
  have pos: "0 < now - cs_lastRefill cs" using late l(3) by (simp add: algebra_simps)
  have W: "0 < W" and E: "0 < E" using l(3) pos by (simp_all add: W_def E_def seconds_pos)
  have "(of_int (1000001 * Window (cs_limit cs)) :: rat) \<le> of_int (1000000 * (now - cs_lastRefill cs))"
    using late by (simp only: of_int_le_iff)
  then have one: "1 \<le> k ^ 3 * (E * (b / W))"
    unfolding k_def
    using seconds_error(2) [of "Window (cs_limit cs)"] seconds_error(1) [of "now - cs_lastRefill cs"] l pos W
    by (intro refill_arith [of "of_int (Window (cs_limit cs)) / 10 ^ 9" b
          "of_int (now - cs_lastRefill cs) / 10 ^ 9"]) (simp_all add: b_def W_def E_def)
  have R: "R = fl (b / W)" using l by (simp add: R_def refillPerSec_def b_def W_def limit_ok_burst)
  have bW: "0 \<le> b / W" using l W by (simp add: b_def)
  have 1: "k * (b / W) \<le> R" using flk [OF bW] R by simp
  have rn: "0 \<le> E * R" using bW E R by (simp add: fl_nonneg)
  have "k * (k * (E * (b / W))) \<le> k * (E * R)"
    using mult_left_mono [OF 1, of "k * E"] E k by (simp add: mult_ac)
  also have "\<dots> \<le> cs_tokens cs + fl (E * R)" using flk [OF rn] t(1) by simp
  finally have "k * (k * (k * (E * (b / W)))) \<le> k * (cs_tokens cs + fl (E * R))"
    using k by (intro mult_left_mono)
  also have "\<dots> \<le> fl (cs_tokens cs + fl (E * R))" using t(1) rn by (intro flk) (simp add: fl_nonneg)
  finally have "1 \<le> fl (cs_tokens cs + fl (E * R))" using one by (simp add: power3_eq_cube mult_ac)
  then show ?thesis
    using t l E by (simp add: refill_def E_def R_def Let_def time_sub_exact limit_ok_burst)
qed

text \<open>
  C38. Sends make progress: if a channel has a queued send, its bucket is not in debt and no batch is
  in flight, then a drain at least one refill window (and a millionth of it, for rounding) after
  the last refill sends the front of the queue.
\<close>

theorem drain_progress:
  assumes cs: "map_of (gv_channels g) key = Some cs" "\<not> cs_sending cs" "cs_inflight cs = []"
    and l: "limit_ok (cs_limit cs)" "1 \<le> Burst (cs_limit cs)" "0 < Window (cs_limit cs)"
    and t: "0 \<le> cs_tokens cs" "cs_lastRefill cs \<noteq> zero_time" "int64_ok (now - cs_lastRefill cs)"
    and late: "1000001 * Window (cs_limit cs) \<le> 1000000 * (now - cs_lastRefill cs)"
    and q: "cs_queue cs = e # q"
  shows "\<exists>cs' r. map_of (gv_channels (drainKey key now g)) key = Some cs'
    \<and> cs_sent cs' = cs_sent cs @ e # r"
proof -
  obtain r tk q' where take: "take_ready (cs_tokens (refill now cs)) (cs_queue cs) = (r, tk, q')"
    by (metis prod_cases3)
  then obtain r' where "r = e # r'"
    using refill_tokens [OF l t late] q by (auto split: prod.splits)
  then show ?thesis using drainKey_lookup [OF cs take] by auto
qed

theorem drain_progress_witness:
  "let cs = \<lparr>cs_limit = \<lparr>Burst = 1, Window = 49 * second\<rparr>, cs_tokens = 0, cs_lastRefill = 0,
       cs_queue = [''a''], cs_sending = False, cs_inflight = [], cs_sent = [], cs_submitted = [''a'']\<rparr>;
     g = \<lparr>gv_def = \<lparr>Burst = 1, Window = 49 * second\<rparr>, gv_channels = [(''k'', cs)]\<rparr>
   in \<exists>cs' r. map_of (gv_channels (drainKey ''k'' (50 * second) g)) ''k'' = Some cs' \<and> cs_sent cs' = ''a'' # r"
  using drain_progress [of "\<lparr>gv_def = \<lparr>Burst = 1, Window = 49 * second\<rparr>, gv_channels = [(''k'',
      \<lparr>cs_limit = \<lparr>Burst = 1, Window = 49 * second\<rparr>, cs_tokens = 0, cs_lastRefill = 0,
       cs_queue = [''a''], cs_sending = False, cs_inflight = [], cs_sent = [], cs_submitted = [''a'']\<rparr>)]\<rparr>"
      "''k''" _ "50 * second" "''a''" "[]"]
  by (simp add: Let_def limit_ok_def second_def int64_ok_def zero_time_def)


subsection \<open>The contract callers rely on\<close>

text \<open>
  The interface the dispatcher calls (its \<^verbatim>\<open>submitter\<close>): submitting adds the send behind everything
  submitted for that key before, touches no other key, and takes nothing back that was sent.
\<close>

locale paced_queue =
  fixes submit :: "string \<Rightarrow> 'e \<Rightarrow> time \<Rightarrow> 's \<Rightarrow> 's"
    and submitted :: "string \<Rightarrow> 's \<Rightarrow> 'e list"
    and sent :: "string \<Rightarrow> 's \<Rightarrow> 'e list"
    and wf :: "'s \<Rightarrow> bool"
  assumes wf_submit: "wf s \<Longrightarrow> wf (submit k e now s)"
    and submitted_submit: "wf s \<Longrightarrow>
      submitted j (submit k e now s) = (if j = k then submitted j s @ [e] else submitted j s)"
    and sent_prefix: "wf s \<Longrightarrow> prefix (sent k s) (submitted k s)"
    and sent_mono: "wf s \<Longrightarrow> prefix (sent j s) (sent j (submit k e now s))"
begin

definition submit_all :: "(string \<times> 'e \<times> time) list \<Rightarrow> 's \<Rightarrow> 's" where
  "submit_all xs s = fold (\<lambda>(k, e, now). submit k e now) xs s"

lemma wf_submit_all: "wf s \<Longrightarrow> wf (submit_all xs s)"
  unfolding submit_all_def by (induction xs arbitrary: s) (auto simp: wf_submit)

lemma submitted_all:
  "wf s \<Longrightarrow> submitted j (submit_all xs s) = submitted j s @ map (fst \<circ> snd) (filter (\<lambda>x. fst x = j) xs)"
  unfolding submit_all_def by (induction xs arbitrary: s) (auto simp: wf_submit submitted_submit)

lemma sent_all:
  "wf s \<Longrightarrow> submitted j s = [] \<Longrightarrow>
    prefix (sent j (submit_all xs s)) (map (fst \<circ> snd) (filter (\<lambda>x. fst x = j) xs))"
  by (metis append_Nil sent_prefix submitted_all wf_submit_all)

end

definition gv_submitted :: "string \<Rightarrow> 'e Governor \<Rightarrow> 'e list" where
  "gv_submitted k g = (case map_of (gv_channels g) k of None \<Rightarrow> [] | Some cs \<Rightarrow> cs_submitted cs)"

definition gv_sent :: "string \<Rightarrow> 'e Governor \<Rightarrow> 'e list" where
  "gv_sent k g = (case map_of (gv_channels g) k of None \<Rightarrow> [] | Some cs \<Rightarrow> cs_sent cs)"

lemma gv_sent_prefix: "gv_inv g \<Longrightarrow> prefix (gv_sent k g) (gv_submitted k g)"
  using gv_inv_lookup [of g k]
  by (auto simp: gv_sent_def gv_submitted_def chan_inv_def split: option.splits)

text \<open>What each operation does to the two histories of a key.\<close>

definition keeps_log :: "'e Governor \<Rightarrow> 'e Governor \<Rightarrow> bool" where
  "keeps_log g g' = (\<forall>j. gv_submitted j g' = gv_submitted j g \<and> prefix (gv_sent j g) (gv_sent j g'))"

lemma keeps_log_refl [simp]: "keeps_log g g"
  by (simp add: keeps_log_def)

lemma keeps_log_trans: "keeps_log g h \<Longrightarrow> keeps_log h i \<Longrightarrow> keeps_log g i"
  by (auto simp: keeps_log_def intro: prefix_order.order_trans)

lemma keeps_log_put:
  "map_of (gv_channels g) key = Some c \<Longrightarrow> cs_submitted cs = cs_submitted c \<Longrightarrow>
    prefix (cs_sent c) (cs_sent cs) \<Longrightarrow> keeps_log g (put_state key cs g)"
  by (auto simp: keeps_log_def gv_submitted_def gv_sent_def put_state_def)

lemma keeps_log_drain_begin: "keeps_log g (drain_begin key now g)"
  by (cases rule: drain_begin_cases [of key now g]) (auto intro: keeps_log_put)

lemma keeps_log_drain_send: "keeps_log g (drain_send key g)"
  by (auto simp: drain_send_def split: option.splits list.splits intro: keeps_log_put)

lemma keeps_log_drain_end: "keeps_log g (drain_end key g)"
  by (auto simp: drain_end_def split: option.splits intro: keeps_log_put)

lemma keeps_log_drain_sends: "keeps_log g ((drain_send key ^^ n) g)"
  by (induction n) (auto intro: keeps_log_trans keeps_log_drain_send)

lemma keeps_log_drainKey: "keeps_log g (drainKey key now g)"
  unfolding drainKey_def Let_def
  by (rule keeps_log_trans [OF keeps_log_trans [OF keeps_log_drain_begin keeps_log_drain_sends]
        keeps_log_drain_end])

lemma gv_inv_drain_sends: "gv_inv g \<Longrightarrow> gv_inv ((drain_send key ^^ n) g)"
  by (induction n) (auto intro: gv_inv_step gv_step.intros)

lemma gv_inv_drainKey: "gv_inv g \<Longrightarrow> gv_inv (drainKey key now g)"
  unfolding drainKey_def Let_def
  by (intro gv_inv_step [OF gv_step.intros(6)] gv_inv_drain_sends gv_inv_drain_begin)

lemma enqueue_log:
  "gv_submitted j (enqueue key e now g) = (if j = key then gv_submitted j g @ [e] else gv_submitted j g)"
  "gv_sent j (enqueue key e now g) = gv_sent j g"
  by (auto simp: enqueue_def put_state_def state_def gv_submitted_def gv_sent_def Let_def split: option.splits)

interpretation governor_queue: paced_queue gov_Submit gv_submitted gv_sent gv_inv
proof (unfold_locales, goal_cases)
  case (1 s k e now)
  then show ?case by (auto simp: gov_Submit_def intro: gv_inv_drainKey gv_inv_step gv_step.intros)
next
  case (2 s j k e now)
  then show ?case
    using keeps_log_drainKey [of "enqueue k e now s" k now]
    by (simp add: gov_Submit_def keeps_log_def enqueue_log)
next
  case (4 s j k e now)
  then show ?case
    using keeps_log_drainKey [of "enqueue k e now s" k now]
    by (simp add: gov_Submit_def keeps_log_def enqueue_log)
qed (rule gv_sent_prefix)

end
