(* ===== verification/Adaptive.thy ===== *)
theory Adaptive
  imports Governor
begin

text \<open>
  \<^verbatim>\<open>internal/ratelimit/adaptive.go\<close>: the layer over the governor for platforms whose limits are
  undocumented. A channel starts at its seed, halves its burst on every rate-limit answer and
  doubles back toward the seed after a quiet stretch.

  \<^verbatim>\<open>Submit\<close> wraps each send in a closure that looks at the answer; the closure's body is \<open>observe\<close>,
  and the platform's answer to a send is the argument \<open>answer\<close>. The lemmas show that the burst stays
  between 1 and the seed's, that the governor always holds the limit this layer believes in, and
  that the wrapped queue keeps the governor's ordering contract.
\<close>

subsection \<open>State and operations\<close>

datatype outcome = Sent | RateLimited duration | Failed

record adaptiveState =
  as_base :: Limit
  as_cur :: Limit
  as_lastStep :: time

record 'e Adaptive =
  av_g :: "'e Governor"
  av_def :: Limit
  av_quiet :: duration
  av_seeds :: "(string \<times> Limit) list"
  av_per :: "string \<rightharpoonup> adaptiveState"

definition defaultQuiet :: duration where
  "defaultQuiet = minute"

definition NewAdaptive :: "'e Governor \<Rightarrow> Limit \<Rightarrow> 'e Adaptive" where
  "NewAdaptive g d = \<lparr>av_g = g, av_def = d, av_quiet = defaultQuiet, av_seeds = [], av_per = Map.empty\<rparr>"

definition SetSeed :: "string \<Rightarrow> Limit \<Rightarrow> 'e Adaptive \<Rightarrow> 'e Adaptive" where
  "SetSeed p l a = a\<lparr>av_seeds := AList.update p l (av_seeds a)\<rparr>"

definition SetQuiet :: "duration \<Rightarrow> 'e Adaptive \<Rightarrow> 'e Adaptive" where
  "SetQuiet d a = a\<lparr>av_quiet := d\<rparr>"

definition baseFor :: "string \<Rightarrow> 'e Adaptive \<Rightarrow> Limit" where
  "baseFor key a = fst (fold (\<lambda>(p, l) (best, bestLen).
     if has_prefix key p \<and> int (length p) > bestLen then (l, int (length p)) else (best, bestLen))
     (av_seeds a) (av_def a, -1))"

definition adaptive_Limit :: "string \<Rightarrow> 'e Adaptive \<Rightarrow> Limit" where
  "adaptive_Limit key a = (case av_per a key of Some st \<Rightarrow> as_cur st | None \<Rightarrow> baseFor key a)"

definition ensure :: "string \<Rightarrow> time \<Rightarrow> 'e Adaptive \<Rightarrow> 'e Adaptive" where
  "ensure key now a =
    (case av_per a key of
       Some _ \<Rightarrow> a
     | None \<Rightarrow>
       let base = baseFor key a
       in a\<lparr>av_per := (av_per a)(key \<mapsto> \<lparr>as_base = base, as_cur = base, as_lastStep = zero_time\<rparr>),
            av_g := SetLimit key base now (av_g a)\<rparr>)"

definition hit :: "string \<Rightarrow> duration \<Rightarrow> time \<Rightarrow> 'e Adaptive \<Rightarrow> 'e Adaptive" where
  "hit key wait now a =
    (case av_per a key of
       None \<Rightarrow> a
     | Some st \<Rightarrow>
       let cur = (if Burst (as_cur st) > 1 then (as_cur st)\<lparr>Burst := trunc_div (Burst (as_cur st)) 2\<rparr>
                  else as_cur st)
       in a\<lparr>av_per := (av_per a)(key \<mapsto> st\<lparr>as_cur := cur, as_lastStep := now\<rparr>),
            av_g := Penalize key wait now (SetLimit key cur now (av_g a))\<rparr>)"

definition maybeRecover :: "string \<Rightarrow> time \<Rightarrow> 'e Adaptive \<Rightarrow> 'e Adaptive" where
  "maybeRecover key now a =
    (case av_per a key of
       None \<Rightarrow> a
     | Some st \<Rightarrow>
       if Burst (as_cur st) \<ge> Burst (as_base st) \<or> time_sub now (as_lastStep st) < av_quiet a then a
       else
         let b = Burst (as_cur st) * 2;
             b = (if b > Burst (as_base st) then Burst (as_base st) else b);
             cur = (as_cur st)\<lparr>Burst := b\<rparr>
         in a\<lparr>av_per := (av_per a)(key \<mapsto> st\<lparr>as_cur := cur, as_lastStep := now\<rparr>),
              av_g := SetLimit key cur now (av_g a)\<rparr>)"

definition observe :: "string \<Rightarrow> outcome \<Rightarrow> time \<Rightarrow> 'e Adaptive \<Rightarrow> 'e Adaptive" where
  "observe key r now a = (case r of
     RateLimited wait \<Rightarrow> hit key wait now a
   | Sent \<Rightarrow> maybeRecover key now a
   | Failed \<Rightarrow> a)"

text \<open>One send of the batch: the governor runs the wrapped closure and delivers its result.\<close>

definition adaptive_send :: "('e \<Rightarrow> outcome) \<Rightarrow> string \<Rightarrow> time \<Rightarrow> 'e Adaptive \<Rightarrow> 'e Adaptive" where
  "adaptive_send answer key now a =
    (case map_of (gv_channels (av_g a)) key of
       None \<Rightarrow> a
     | Some cs \<Rightarrow> (case cs_inflight cs of
         [] \<Rightarrow> a
       | e # _ \<Rightarrow> observe key (answer e) now (a\<lparr>av_g := drain_send key (av_g a)\<rparr>)))"

definition adaptive_drainKey :: "('e \<Rightarrow> outcome) \<Rightarrow> string \<Rightarrow> time \<Rightarrow> 'e Adaptive \<Rightarrow> 'e Adaptive" where
  "adaptive_drainKey answer key now a =
    (let a = a\<lparr>av_g := drain_begin key now (av_g a)\<rparr>;
         n = (case map_of (gv_channels (av_g a)) key of None \<Rightarrow> 0 | Some cs \<Rightarrow> length (cs_inflight cs));
         a = (adaptive_send answer key now ^^ n) a
     in a\<lparr>av_g := drain_end key (av_g a)\<rparr>)"

definition adaptive_Submit :: "('e \<Rightarrow> outcome) \<Rightarrow> string \<Rightarrow> 'e \<Rightarrow> time \<Rightarrow> 'e Adaptive \<Rightarrow> 'e Adaptive" where
  "adaptive_Submit answer key e now a =
    (let a = ensure key now a
     in adaptive_drainKey answer key now (a\<lparr>av_g := enqueue key e now (av_g a)\<rparr>))"

definition adaptive_Drain :: "('e \<Rightarrow> outcome) \<Rightarrow> time \<Rightarrow> 'e Adaptive \<Rightarrow> 'e Adaptive" where
  "adaptive_Drain answer now a =
    fold (\<lambda>key. adaptive_drainKey answer key now) (map fst (gv_channels (av_g a))) a"

definition adaptive_State :: "string \<Rightarrow> time \<Rightarrow> 'e Adaptive \<Rightarrow> (nat \<times> duration) \<times> 'e Adaptive" where
  "adaptive_State key now a = (let (r, g) = gov_State key now (av_g a) in (r, a\<lparr>av_g := g\<rparr>))"

subsection \<open>Seeds: the longest matching prefix wins\<close>

text \<open>
  The loop runs over a Go map, in any order. Two different prefixes of one key differ in length, so
  the answer does not depend on the order.
\<close>

lemma baseFor_fold:
  fixes seeds :: "(string \<times> Limit) list" and key :: string
  defines "step \<equiv> \<lambda>(p, l) (best, bestLen). if has_prefix key p \<and> int (length p) > bestLen
     then (l, int (length p)) else (best, bestLen)"
  shows "fold step seeds (l0, n0) = (l, n) \<Longrightarrow>
    n0 \<le> n \<and> (\<forall>(p, m) \<in> set seeds. has_prefix key p \<longrightarrow> int (length p) \<le> n)
    \<and> ((l, n) = (l0, n0) \<or> (\<exists>p. (p, l) \<in> set seeds \<and> has_prefix key p \<and> n = int (length p)))"
proof (induction seeds arbitrary: l0 n0)
  case (Cons s seeds)
  obtain p m where s: "s = (p, m)" by fastforce
  show ?case
    using Cons.IH [of "fst (step s (l0, n0))" "snd (step s (l0, n0))"] Cons.prems
    by (auto simp: s step_def split: if_splits)
qed simp

lemma baseFor_longest:
  assumes "keys_distinct (av_seeds a)" "(p, l) \<in> set (av_seeds a)" "has_prefix key p"
    and "\<And>q m. (q, m) \<in> set (av_seeds a) \<Longrightarrow> has_prefix key q \<Longrightarrow> length q \<le> length p"
  shows "baseFor key a = l"
proof -
  obtain l' n where f: "fold (\<lambda>(p, l) (best, bestLen).
     if has_prefix key p \<and> int (length p) > bestLen then (l, int (length p)) else (best, bestLen))
     (av_seeds a) (av_def a, -1) = (l', n)" by fastforce
  note r = baseFor_fold [OF f]
  have "int (length p) \<le> n" using r assms(2,3) by auto
  then obtain q where q: "(q, l') \<in> set (av_seeds a)" "has_prefix key q" "n = int (length q)"
    using r by auto
  then have "length q = length p" using assms(4) [OF q(1,2)] \<open>int (length p) \<le> n\<close> by simp
  then have "q = p" using q(2) assms(3) by (simp add: has_prefix_def)
  then have "l' = l" using q(1) assms(1,2) by (metis map_of_eq_Some_iff option.inject)
  then show ?thesis using f by (simp add: baseFor_def)
qed

lemma baseFor_cases: "baseFor key a = av_def a \<or> baseFor key a \<in> snd ` set (av_seeds a)"
proof -
  obtain l' n where f: "fold (\<lambda>(p, l) (best, bestLen).
     if has_prefix key p \<and> int (length p) > bestLen then (l, int (length p)) else (best, bestLen))
     (av_seeds a) (av_def a, -1) = (l', n)" by fastforce
  then show ?thesis using baseFor_fold [OF f] by (force simp: baseFor_def)
qed


subsection \<open>The governor holds the limit this layer believes in\<close>

definition gv_limit :: "string \<Rightarrow> 'e Governor \<Rightarrow> Limit option" where
  "gv_limit k g = map_option cs_limit (map_of (gv_channels g) k)"

lemma gv_limit_put [simp]:
  "gv_limit j (put_state k cs g) = (if j = k then Some (cs_limit cs) else gv_limit j g)"
  by (simp add: gv_limit_def put_state_def)

lemma gv_limit_SetLimit [simp]:
  "gv_limit j (SetLimit k l now g) = (if j = k then Some l else gv_limit j g)"
  by (simp add: SetLimit_def Let_def)

lemma gv_limit_known: "gv_limit j g = Some l \<Longrightarrow> cs_limit (state j now g) = l"
  by (auto simp: gv_limit_def state_def split: option.splits)

lemma gv_limit_Penalize: "gv_limit j g = Some l \<Longrightarrow> gv_limit j (Penalize k w now g) = Some l"
  using gv_limit_known by (auto simp: Penalize_def Let_def)

lemma gv_limit_enqueue: "gv_limit j g = Some l \<Longrightarrow> gv_limit j (enqueue k e now g) = Some l"
  using gv_limit_known by (auto simp: enqueue_def Let_def)

lemma gv_limit_drain_begin [simp]: "gv_limit j (drain_begin k now g) = gv_limit j g"
  by (cases rule: drain_begin_cases [of k now g]) (auto, simp_all add: gv_limit_def)

lemma gv_limit_drain_send [simp]: "gv_limit j (drain_send k g) = gv_limit j g"
  by (auto simp: drain_send_def gv_limit_def put_state_def split: option.splits list.splits)

lemma gv_limit_drain_end [simp]: "gv_limit j (drain_end k g) = gv_limit j g"
  by (auto simp: drain_end_def gv_limit_def put_state_def split: option.splits)

lemma gv_limit_State [simp]: "gv_limit j (snd (gov_State k now g)) = gv_limit j g"
  by (auto simp: gov_State_def Let_def split: option.splits, simp_all add: gv_limit_def)

definition seed_ok :: "Limit \<Rightarrow> bool" where
  "seed_ok l = (limit_ok l \<and> 1 \<le> Burst l)"

definition as_inv :: "adaptiveState \<Rightarrow> bool" where
  "as_inv st = (seed_ok (as_base st) \<and> 1 \<le> Burst (as_cur st) \<and> Burst (as_cur st) \<le> Burst (as_base st)
     \<and> Window (as_cur st) = Window (as_base st))"

definition av_inv :: "'e Adaptive \<Rightarrow> bool" where
  "av_inv a = (gv_inv (av_g a) \<and> seed_ok (av_def a) \<and> (\<forall>l \<in> snd ` set (av_seeds a). seed_ok l)
     \<and> (\<forall>k st. av_per a k = Some st \<longrightarrow> as_inv st \<and> gv_limit k (av_g a) = Some (as_cur st)))"

lemma as_inv_cur: "as_inv st \<Longrightarrow> limit_ok (as_cur st)"
  by (auto simp: as_inv_def seed_ok_def limit_ok_def)

text \<open>The operations that leave this layer's own state alone.\<close>

lemma av_inv_governor:
  assumes "av_inv a" "gv_inv g" "\<And>k l. gv_limit k (av_g a) = Some l \<Longrightarrow> gv_limit k g = Some l"
  shows "av_inv (a\<lparr>av_g := g\<rparr>)"
  using assms by (auto simp: av_inv_def)

text \<open>A step of one channel's position, the governor being told its new limit.\<close>

lemma av_inv_position:
  assumes inv: "av_inv a" and st: "as_inv st"
    and g: "gv_inv g" "gv_limit k g = Some (as_cur st)"
      "\<And>j l. j \<noteq> k \<Longrightarrow> gv_limit j (av_g a) = Some l \<Longrightarrow> gv_limit j g = Some l"
  shows "av_inv (a\<lparr>av_per := (av_per a)(k \<mapsto> st), av_g := g\<rparr>)"
  using assms by (auto simp: av_inv_def)

lemmas gv_inv_ops = gv_inv_step [OF gv_step.intros(1)] gv_inv_step [OF gv_step.intros(2)]
  gv_inv_step [OF gv_step.intros(3)] gv_inv_step [OF gv_step.intros(4)]
  gv_inv_step [OF gv_step.intros(5)] gv_inv_step [OF gv_step.intros(6)]
  gv_inv_step [OF gv_step.intros(7)]

lemma av_inv_ensure: "av_inv a \<Longrightarrow> av_inv (ensure key now a)"
proof (cases "av_per a key")
  case None
  assume inv: "av_inv a"
  then have "seed_ok (baseFor key a)" using baseFor_cases [of key a] by (auto simp: av_inv_def)
  then show ?thesis
    unfolding ensure_def None Let_def option.case using inv
    by (intro av_inv_position gv_inv_ops(1)) (auto simp: as_inv_def seed_ok_def av_inv_def)
qed (simp add: ensure_def)

lemma av_inv_hit: "av_inv a \<Longrightarrow> av_inv (hit key wait now a)"
proof (cases "av_per a key")
  case (Some st)
  assume inv: "av_inv a"
  let ?cur = "if Burst (as_cur st) > 1 then (as_cur st)\<lparr>Burst := trunc_div (Burst (as_cur st)) 2\<rparr>
     else as_cur st"
  have "as_inv st" using inv Some by (simp add: av_inv_def)
  then have st: "as_inv (st\<lparr>as_cur := ?cur, as_lastStep := now\<rparr>)"
    by (auto simp: as_inv_def trunc_div_nonneg)
  then have "gv_inv (Penalize key wait now (SetLimit key ?cur now (av_g a)))"
    using inv as_inv_cur [OF st] by (intro gv_inv_ops) (auto simp: av_inv_def)
  then show ?thesis
    unfolding hit_def Some Let_def option.case using inv st
    by (intro av_inv_position) (auto simp: gv_limit_Penalize)
qed (simp add: hit_def)

lemma av_inv_recover: "av_inv a \<Longrightarrow> av_inv (maybeRecover key now a)"
proof (cases "av_per a key")
  case (Some st)
  assume inv: "av_inv a"
  let ?b = "if Burst (as_cur st) * 2 > Burst (as_base st) then Burst (as_base st) else Burst (as_cur st) * 2"
  let ?st = "st\<lparr>as_cur := (as_cur st)\<lparr>Burst := ?b\<rparr>, as_lastStep := now\<rparr>"
  have "as_inv st" using inv Some by (simp add: av_inv_def)
  then have st: "as_inv ?st" by (auto simp: as_inv_def seed_ok_def)
  then have "av_inv (a\<lparr>av_per := (av_per a)(key \<mapsto> ?st), av_g := SetLimit key (as_cur ?st) now (av_g a)\<rparr>)"
    using inv as_inv_cur [OF st] by (intro av_inv_position gv_inv_ops) (auto simp: av_inv_def)
  then show ?thesis using inv Some by (auto simp: maybeRecover_def Let_def)
qed (simp add: maybeRecover_def)

lemma av_inv_send: "av_inv a \<Longrightarrow> av_inv (adaptive_send answer key now a)"
proof -
  assume inv: "av_inv a"
  then have "av_inv (a\<lparr>av_g := drain_send key (av_g a)\<rparr>)"
    by (intro av_inv_governor gv_inv_ops) (auto simp: av_inv_def)
  then show ?thesis
    using inv by (auto simp: adaptive_send_def observe_def av_inv_hit av_inv_recover
        split: option.splits list.splits outcome.splits)
qed

lemma av_inv_enqueue: "av_inv a \<Longrightarrow> av_inv (a\<lparr>av_g := enqueue key e now (av_g a)\<rparr>)"
  by (intro av_inv_governor gv_inv_ops) (auto simp: av_inv_def gv_limit_enqueue)

lemma av_inv_begin: "av_inv a \<Longrightarrow> av_inv (a\<lparr>av_g := drain_begin key now (av_g a)\<rparr>)"
  by (intro av_inv_governor gv_inv_ops) (auto simp: av_inv_def)

lemma av_inv_end: "av_inv a \<Longrightarrow> av_inv (a\<lparr>av_g := drain_end key (av_g a)\<rparr>)"
  by (intro av_inv_governor gv_inv_ops) (auto simp: av_inv_def)

text \<open>Every call and every turn of a drain, in any interleaving.\<close>

inductive av_step :: "'e Adaptive \<Rightarrow> 'e Adaptive \<Rightarrow> bool" where
  "seed_ok l \<Longrightarrow> av_step a (SetSeed p l a)"
| "av_step a (SetQuiet d a)"
| "av_step a (ensure key now a)"
| "av_step a (a\<lparr>av_g := enqueue key e now (av_g a)\<rparr>)"
| "av_step a (a\<lparr>av_g := drain_begin key now (av_g a)\<rparr>)"
| "av_step a (adaptive_send answer key now a)"
| "av_step a (a\<lparr>av_g := drain_end key (av_g a)\<rparr>)"
| "av_step a (snd (adaptive_State key now a))"

lemma av_inv_step: "av_step a a' \<Longrightarrow> av_inv a \<Longrightarrow> av_inv a'"
proof (induction rule: av_step.induct)
  case (1 l a p)
  have "snd ` set (AList.update p l (av_seeds a)) \<subseteq> insert l (snd ` set (av_seeds a))"
    using set_update_subset [of p l "av_seeds a"] by force
  moreover have "\<forall>m \<in> insert l (snd ` set (av_seeds a)). seed_ok m" using 1 by (simp add: av_inv_def)
  ultimately have "\<forall>m \<in> snd ` set (AList.update p l (av_seeds a)). seed_ok m" by blast
  then show ?case using 1 by (simp add: av_inv_def SetSeed_def)
next
  case (8 a key now)
  then have "av_inv (a\<lparr>av_g := snd (gov_State key now (av_g a))\<rparr>)"
    by (intro av_inv_governor gv_inv_ops) (auto simp: av_inv_def)
  then show ?case by (simp add: adaptive_State_def case_prod_beta Let_def)
qed (auto simp: av_inv_ensure av_inv_enqueue av_inv_begin av_inv_send av_inv_end,
    simp add: av_inv_def SetQuiet_def)

lemma av_inv_reach: "av_step\<^sup>*\<^sup>* a a' \<Longrightarrow> av_inv a \<Longrightarrow> av_inv a'"
  by (induction rule: rtranclp_induct) (auto intro: av_inv_step)

lemma av_inv_new: "seed_ok d \<Longrightarrow> av_inv (NewAdaptive (NewGovernor d) d)"
  by (simp add: av_inv_def NewAdaptive_def gv_inv_new seed_ok_def)




subsection \<open>Tightening and recovery\<close>

definition cur_burst :: "string \<Rightarrow> 'e Adaptive \<Rightarrow> int" where
  "cur_burst key a = Burst (adaptive_Limit key a)"

lemma hit_burst:
  assumes "av_per a key = Some st" "1 \<le> cur_burst key a"
  shows "av_per (hit key w now a) key \<noteq> None"
    and "cur_burst key (hit key w now a) = max 1 (cur_burst key a div 2)"
  using assms by (auto simp: hit_def cur_burst_def adaptive_Limit_def Let_def trunc_div_nonneg)

text \<open>
  Rate-limit answers tighten the budget geometrically: after \<open>n\<close> answers in a row the burst is
  the current one halved \<open>n\<close> times, and 1 at the least.
\<close>

theorem adaptive_halving:
  assumes "av_per a key \<noteq> None" "1 \<le> cur_burst key a"
  shows "cur_burst key (fold (\<lambda>(w, now). hit key w now) hits a) =
    max 1 (cur_burst key a div 2 ^ length hits)"
  using assms
proof (induction hits arbitrary: a)
  case (Cons h hits)
  obtain w now where h: "h = (w, now)" by fastforce
  obtain st where st: "av_per a key = Some st" using Cons.prems by blast
  note b = hit_burst [OF st Cons.prems(2), of w now]
  have "1 \<le> cur_burst key (hit key w now a)" by (simp add: b(2))
  from Cons.IH [OF b(1) this]
  have "cur_burst key (fold (\<lambda>(w, now). hit key w now) (h # hits) a) =
      max 1 (max 1 (cur_burst key a div 2) div 2 ^ length hits)" by (simp add: h b(2))
  also have "\<dots> = max 1 (cur_burst key a div 2 div 2 ^ length hits)"
  proof (cases "cur_burst key a div 2 \<le> 1")
    case True
    then have "cur_burst key a div 2 div 2 ^ length hits \<le> 1 div 2 ^ length hits"
      by (intro zdiv_mono1) auto
    moreover have "1 div (2 :: int) ^ n \<le> 1" for n
      using zdiv_mono2 [of 1 1 "2 ^ n"] by simp
    ultimately show ?thesis using True by (simp add: max_def)
  qed auto
  also have "cur_burst key a div 2 div 2 ^ length hits = cur_burst key a div 2 ^ length (h # hits)"
    by (simp add: zdiv_zmult2_eq)
  finally show ?case .
qed simp

theorem adaptive_halving_witness:
  "let a = ensure ''k'' 0 (NewAdaptive (NewGovernor \<lparr>Burst = 8, Window = second\<rparr>) \<lparr>Burst = 8, Window = second\<rparr> :: nat Adaptive)
   in cur_burst ''k'' (fold (\<lambda>(w, now). hit ''k'' w now) [(0, 1), (0, 2)] a) = 2"
  using adaptive_halving [of "ensure ''k'' 0 (NewAdaptive (NewGovernor \<lparr>Burst = 8, Window = second\<rparr>)
      \<lparr>Burst = 8, Window = second\<rparr> :: nat Adaptive)" "''k''" "[(0, 1), (0, 2)]"]
  by (simp add: Let_def ensure_def NewAdaptive_def baseFor_def cur_burst_def adaptive_Limit_def)

subsection \<open>The adaptive queue keeps the governor's contract\<close>

lemma keeps_log_state_put:
  "cs_submitted cs = cs_submitted (state k now g) \<Longrightarrow> cs_sent cs = cs_sent (state k now g) \<Longrightarrow>
    keeps_log g (put_state k cs g)"
  by (auto simp: keeps_log_def gv_submitted_def gv_sent_def put_state_def state_def split: option.splits)

lemma keeps_log_SetLimit: "keeps_log g (SetLimit k l now g)"
  by (auto simp: SetLimit_def Let_def intro!: keeps_log_state_put [where now = now])

lemma keeps_log_Penalize: "keeps_log g (Penalize k w now g)"
  by (auto simp: Penalize_def Let_def intro!: keeps_log_state_put [where now = now])

lemma keeps_log_ensure: "keeps_log (av_g a) (av_g (ensure k now a))"
  by (auto simp: ensure_def Let_def keeps_log_SetLimit split: option.splits)

lemma keeps_log_observe: "keeps_log (av_g a) (av_g (observe k r now a))"
  by (auto simp: observe_def hit_def maybeRecover_def Let_def split: outcome.splits option.splits
      intro: keeps_log_trans keeps_log_SetLimit keeps_log_Penalize)

lemma keeps_log_adaptive_send: "keeps_log (av_g a) (av_g (adaptive_send answer k now a))"
proof -
  have "keeps_log (av_g a) (av_g (observe k (answer e) now (a\<lparr>av_g := drain_send k (av_g a)\<rparr>)))" for e
    by (rule keeps_log_trans [OF keeps_log_drain_send])
      (use keeps_log_observe [of "a\<lparr>av_g := drain_send k (av_g a)\<rparr>"] in simp)
  then show ?thesis by (auto simp: adaptive_send_def split: option.splits list.splits)
qed

lemma keeps_log_adaptive_sends: "keeps_log (av_g a) (av_g ((adaptive_send answer k now ^^ n) a))"
  by (induction n) (auto intro: keeps_log_trans keeps_log_adaptive_send)

lemma keeps_log_adaptive_drain: "keeps_log (av_g a) (av_g (adaptive_drainKey answer k now a))"
proof -
  let ?a = "a\<lparr>av_g := drain_begin k now (av_g a)\<rparr>"
  have "keeps_log (av_g a) (av_g ?a)" by (simp add: keeps_log_drain_begin)
  then have "keeps_log (av_g a) (av_g ((adaptive_send answer k now ^^ n) ?a))" for n
    using keeps_log_adaptive_sends keeps_log_trans by blast
  then show ?thesis
    unfolding adaptive_drainKey_def Let_def by (simp add: keeps_log_trans [OF _ keeps_log_drain_end])
qed

lemma av_inv_sends: "av_inv a \<Longrightarrow> av_inv ((adaptive_send answer k now ^^ n) a)"
  by (induction n) (auto simp: av_inv_send)

lemma av_inv_drainKey: "av_inv a \<Longrightarrow> av_inv (adaptive_drainKey answer k now a)"
  unfolding adaptive_drainKey_def Let_def by (intro av_inv_end av_inv_sends av_inv_begin)

lemma av_inv_Submit: "av_inv a \<Longrightarrow> av_inv (adaptive_Submit answer k e now a)"
  unfolding adaptive_Submit_def Let_def by (intro av_inv_drainKey av_inv_enqueue av_inv_ensure)

lemma adaptive_Submit_log:
  "gv_submitted j (av_g (adaptive_Submit answer k e now a)) =
     (if j = k then gv_submitted j (av_g a) @ [e] else gv_submitted j (av_g a))"
  "prefix (gv_sent j (av_g a)) (gv_sent j (av_g (adaptive_Submit answer k e now a)))"
  using keeps_log_ensure [of a k now]
    keeps_log_adaptive_drain [of "(ensure k now a)\<lparr>av_g := enqueue k e now (av_g (ensure k now a))\<rparr>" answer k now]
  by (auto simp: adaptive_Submit_def Let_def keeps_log_def enqueue_log dest: prefix_order.order_trans)

interpretation adaptive_queue: paced_queue "adaptive_Submit answer"
  "\<lambda>k a. gv_submitted k (av_g a)" "\<lambda>k a. gv_sent k (av_g a)" av_inv
proof (unfold_locales, goal_cases)
  case (3 s k)
  then show ?case by (simp add: gv_sent_prefix av_inv_def)
qed (simp_all add: av_inv_Submit adaptive_Submit_log)


text \<open>
  Callers may swap the adaptive layer for the governor: whatever the platform answers, the sends
  made for a channel are a prefix of those submitted for it, in submission order, so a rate-limit
  answer never reorders, drops or duplicates a queued send.
\<close>

theorem adaptive_order:
  assumes "seed_ok d"
  shows "prefix (gv_sent j (av_g (fold (\<lambda>(k, e, now). adaptive_Submit answer k e now) xs
      (NewAdaptive (NewGovernor d) d)))) (map (fst \<circ> snd) (filter (\<lambda>x. fst x = j) xs))"
proof -
  have "gv_submitted j (av_g (NewAdaptive (NewGovernor d) d)) = ([] :: 'a list)"
    by (simp add: NewAdaptive_def NewGovernor_def gv_submitted_def)
  then show ?thesis
    using adaptive_queue.sent_all [OF av_inv_new [OF assms], of j answer xs]
    by (simp add: adaptive_queue.submit_all_def)
qed

theorem adaptive_order_witness:
  "prefix (gv_sent ''a'' (av_g (fold (\<lambda>(k, e, now). adaptive_Submit (\<lambda>e. if e = 2 then RateLimited 0 else Sent) k e now)
      [(''a'', 1, 0), (''b'', 2, 1), (''a'', 3 :: nat, 2)]
      (NewAdaptive (NewGovernor \<lparr>Burst = 8, Window = second\<rparr>) \<lparr>Burst = 8, Window = second\<rparr>)))) [1, 3]"
  using adaptive_order [of "\<lparr>Burst = 8, Window = second\<rparr>" "''a''" "\<lambda>e. if e = 2 then RateLimited 0 else Sent"
      "[(''a'', 1, 0), (''b'', 2, 1), (''a'', 3 :: nat, 2)]"]
  by (simp add: seed_ok_def limit_ok_def del: fold_simps)

end
