(* ===== verification/Command.thy ===== *)
theory Command
  imports Platform
begin

text \<open>
  \<^verbatim>\<open>internal/command\<close>: the parser that turns composer input into one typed intent. The command table
  is the association list \<open>commands\<close>, its \<^verbatim>\<open>build\<close> functions answer an action or a usage hint.
  Durations are \<^verbatim>\<open>int64\<close> nanoseconds, so the products of \<^verbatim>\<open>buildTimeout\<close>, \<^verbatim>\<open>buildSlow\<close> and
  \<^verbatim>\<open>buildFollowers\<close> wrap.
\<close>

subsection \<open>Results\<close>

datatype Kind = KindSend | KindMod | KindHelp | KindHint

record Parsed =
  pa_Kind :: Kind
  pa_Text :: string
  pa_IsAction :: bool
  pa_Action :: ModAction
  pa_Hint :: string

definition parsed_send :: "string \<Rightarrow> bool \<Rightarrow> Parsed" where
  "parsed_send text act = \<lparr>pa_Kind = KindSend, pa_Text = text, pa_IsAction = act, pa_Action = no_action, pa_Hint = []\<rparr>"

definition parsed_mod :: "ModAction \<Rightarrow> Parsed" where
  "parsed_mod a = \<lparr>pa_Kind = KindMod, pa_Text = [], pa_IsAction = False, pa_Action = a, pa_Hint = []\<rparr>"

definition parsed_help :: Parsed where
  "parsed_help = \<lparr>pa_Kind = KindHelp, pa_Text = [], pa_IsAction = False, pa_Action = no_action, pa_Hint = []\<rparr>"

definition parsed_hint :: "string \<Rightarrow> Parsed" where
  "parsed_hint h = \<lparr>pa_Kind = KindHint, pa_Text = [], pa_IsAction = False, pa_Action = no_action, pa_Hint = h\<rparr>"

lemmas parsed_defs = parsed_send_def parsed_mod_def parsed_help_def parsed_hint_def

subsection \<open>Builders\<close>

type_synonym build = "string list \<Rightarrow> string + ModAction"

definition defaultTimeout :: duration where
  "defaultTimeout = 10 * minute"

definition times_dur :: "int \<Rightarrow> duration \<Rightarrow> duration" where
  "times_dur n d = wrap64 (n * d)"

definition buildTarget :: "ModActionType \<Rightarrow> build" where
  "buildTarget t args = (case args of
     [] \<Rightarrow> Inl ''usage: a username is required''
   | u # _ \<Rightarrow> Inr (no_action\<lparr>ma_Type := t, ma_TargetUserID := u\<rparr>))"

definition buildBan :: build where
  "buildBan args = (case args of
     [] \<Rightarrow> Inl ''usage: /ban <user> [reason]''
   | u # reason \<Rightarrow> Inr (no_action\<lparr>ma_Type := ModBan, ma_TargetUserID := u, ma_Reason := join '' '' reason\<rparr>))"

definition buildTimeout :: build where
  "buildTimeout args = (case args of
     [] \<Rightarrow> Inl ''usage: /timeout <user> [seconds] [reason]''
   | u # rest \<Rightarrow>
     let a = no_action\<lparr>ma_Type := ModTimeout, ma_TargetUserID := u, ma_Duration := defaultTimeout\<rparr>
     in case rest of
          [] \<Rightarrow> Inr a
        | s # reason \<Rightarrow> (case atoi s of
            Some secs \<Rightarrow>
              if secs \<le> 0 then Inl ''usage: /timeout <user> [seconds>0] [reason]''
              else Inr (a\<lparr>ma_Duration := times_dur secs second, ma_Reason := join '' '' reason\<rparr>)
          | None \<Rightarrow> Inr (a\<lparr>ma_Reason := join '' '' (s # reason)\<rparr>)))"

definition buildDelete :: build where
  "buildDelete args = (case args of
     [] \<Rightarrow> Inl ''usage: /delete <message-id>''
   | i # _ \<Rightarrow> Inr (no_action\<lparr>ma_Type := ModDeleteMessage, ma_TargetMessageID := i\<rparr>))"

definition buildSimple :: "ModActionType \<Rightarrow> build" where
  "buildSimple t args = Inr (no_action\<lparr>ma_Type := t\<rparr>)"

definition buildToggle :: "ModActionType \<Rightarrow> bool \<Rightarrow> build" where
  "buildToggle t enabled args = Inr (no_action\<lparr>ma_Type := t, ma_Enabled := enabled\<rparr>)"

definition buildSlow :: build where
  "buildSlow args =
    (case (case args of [] \<Rightarrow> Some 30
           | s # _ \<Rightarrow> (case atoi s of None \<Rightarrow> None | Some n \<Rightarrow> if n < 0 then None else Some n)) of
       None \<Rightarrow> Inl ''usage: /slow [seconds>=0]''
     | Some secs \<Rightarrow> Inr (no_action\<lparr>ma_Type := ModSetSlow, ma_Duration := times_dur secs second,
         ma_Enabled := secs > 0\<rparr>))"

definition buildFollowers :: build where
  "buildFollowers args =
    (case (case args of [] \<Rightarrow> Some 0
           | s # _ \<Rightarrow> (case atoi s of None \<Rightarrow> None | Some n \<Rightarrow> if n < 0 then None else Some n)) of
       None \<Rightarrow> Inl ''usage: /followers [minutes>=0]''
     | Some mins \<Rightarrow> Inr (no_action\<lparr>ma_Type := ModSetFollowers, ma_Duration := times_dur mins minute,
         ma_Enabled := True\<rparr>))"

text \<open>Every entry of the table needs the moderation capability, so the flag is left out.\<close>

definition commands :: "(string \<times> build) list" where
  "commands = [
     (''ban'', buildBan),
     (''unban'', buildTarget ModUnban),
     (''timeout'', buildTimeout),
     (''untimeout'', buildTarget ModUntimeout),
     (''delete'', buildDelete),
     (''clear'', buildSimple ModClear),
     (''slow'', buildSlow),
     (''slowoff'', buildToggle ModSetSlow False),
     (''followers'', buildFollowers),
     (''followersoff'', buildToggle ModSetFollowers False),
     (''emoteonly'', buildToggle ModSetEmoteOnly True),
     (''emoteonlyoff'', buildToggle ModSetEmoteOnly False),
     (''uniquechat'', buildToggle ModSetUniqueChat True),
     (''uniquechatoff'', buildToggle ModSetUniqueChat False)]"

definition splitArgs :: "string \<Rightarrow> string list" where
  "splitArgs s = Go_Values.fields s"

text \<open>\<^verbatim>\<open>strings.Cut(s, " ")\<close>; the em dash of the hint is spelled in UTF-8.\<close>

definition cut_space :: "string \<Rightarrow> string \<times> string" where
  "cut_space s = (case cut_at CHR '' '' s of None \<Rightarrow> (s, []) | Some p \<Rightarrow> p)"

definition unknown_hint :: string where
  "unknown_hint = ''unknown command '' @ [CHR 0xE2, CHR 0x80, CHR 0x94] @ '' see /help''"

definition Parse :: "string \<Rightarrow> ChannelRef \<Rightarrow> Capabilities \<Rightarrow> Parsed" where
  "Parse input ch caps =
    (if \<not> has_prefix input ''/'' then parsed_send input False
     else if has_prefix input ''//'' then parsed_send (tl input) False
     else
       let (name, rest) = cut_space (tl input);
           name = to_lower name;
           args = splitArgs rest
       in if name = ''me'' then parsed_send (trim_space rest) True
          else if name = ''help'' then parsed_help
          else (case map_of commands name of
             None \<Rightarrow> parsed_hint unknown_hint
           | Some build \<Rightarrow>
             if \<not> cap_Moderation caps
             then parsed_hint (''/'' @ name @ '' needs moderator access on this channel'')
             else (case build args of
                Inl hint \<Rightarrow> parsed_hint hint
              | Inr action \<Rightarrow> parsed_mod (action\<lparr>ma_Channel := ch\<rparr>))))"

subsection \<open>Properties\<close>

text \<open>The literal form of a message: a leading slash is doubled.\<close>

definition literal :: "string \<Rightarrow> string" where
  "literal t = (if has_prefix t ''/'' then CHR ''/'' # t else t)"

text \<open>
  Every text can be sent as it is: its literal form parses to a plain send of exactly that
  text, whatever the capabilities.
\<close>

theorem Parse_literal: "Parse (literal t) ch caps = parsed_send t False"
  by (cases t) (auto simp: Parse_def literal_def has_prefix_def)

text \<open>
  A command is never sent as chat: input starting with a single slash is a send only for
  \<open>/me\<close>, and then as an action; any other command becomes a moderation action, help, or a hint.
\<close>

theorem command_not_sent:
  assumes "has_prefix input ''/''" "\<not> has_prefix input ''//''"
    and "pa_Kind (Parse input ch caps) = KindSend"
  shows "to_lower (fst (cut_space (tl input))) = ''me'' \<and> pa_IsAction (Parse input ch caps)"
  using assms by (auto simp: Parse_def Let_def parsed_defs split: prod.splits option.splits sum.splits if_splits)

definition no_caps :: Capabilities where
  "no_caps = \<lparr>ReadAnonymous = True, ReadAuthed = False, cap_Send = True, cap_Moderation = False,
     cap_Replies = False, HeldQueue = False, Stability = TierOfficial\<rparr>"

theorem command_not_sent_witness:
  "pa_IsAction (Parse ''/Me waves'' (twitch_channel ''v'') no_caps)
    \<and> pa_Text (Parse ''/Me waves'' (twitch_channel ''v'') no_caps) = ''waves''"
proof -
  have "pa_Kind (Parse ''/Me waves'' (twitch_channel ''v'') no_caps) = KindSend"
    and t: "pa_Text (Parse ''/Me waves'' (twitch_channel ''v'') no_caps) = ''waves''" by code_simp+
  then show ?thesis
    using command_not_sent [of "''/Me waves''" "twitch_channel ''v''" no_caps] by (simp add: has_prefix_def)
qed


text \<open>What a well-formed moderation action carries: the target its type needs.\<close>

definition action_ok :: "ModAction \<Rightarrow> bool" where
  "action_ok a = ((ma_Type a \<in> {ModBan, ModUnban, ModTimeout, ModUntimeout} \<longrightarrow> ma_TargetUserID a \<noteq> [])
     \<and> (ma_Type a = ModDeleteMessage \<longrightarrow> ma_TargetMessageID a \<noteq> []))"

lemmas build_defs = buildTarget_def buildBan_def buildTimeout_def buildDelete_def buildSimple_def
  buildToggle_def buildSlow_def buildFollowers_def no_action_def

lemma commands_ok:
  assumes "map_of commands name = Some b" "[] \<notin> set args" "b args = Inr a"
  shows "action_ok a"
  using assms unfolding commands_def
  by (simp only: map_of.simps fst_conv snd_conv split: if_splits option.splits)
    (auto simp: build_defs action_ok_def Let_def split: list.splits option.splits if_splits)

lemma parsed_mod_cap:
  assumes "pa_Kind (Parse input ch caps) = KindMod"
  shows "cap_Moderation caps \<and> ma_Channel (pa_Action (Parse input ch caps)) = ch
    \<and> action_ok (pa_Action (Parse input ch caps))"
proof -
  obtain name rest where nr: "cut_space (tl input) = (name, rest)" by fastforce
  obtain b a where b: "map_of commands (to_lower name) = Some b" "b (splitArgs rest) = Inr a"
    and p: "Parse input ch caps = parsed_mod (a\<lparr>ma_Channel := ch\<rparr>)" "cap_Moderation caps"
    using assms nr
    by (auto simp: Parse_def Let_def parsed_defs split: option.splits sum.splits if_splits)
  have "action_ok a"
    using commands_ok [OF b(1) _ b(2)] fields_nonempty by (auto simp: splitArgs_def)
  then show ?thesis using p by (simp add: parsed_mod_def action_ok_def)
qed

text \<open>
  A moderation action comes out of the parser only for an account that may moderate; it is
  addressed to the channel the input was typed in, and carries the target user or message id its
  kind needs.
\<close>

theorem mod_needs_capability:
  assumes "pa_Kind (Parse input ch caps) = KindMod"
  shows "cap_Moderation caps \<and> ma_Channel (pa_Action (Parse input ch caps)) = ch
    \<and> action_ok (pa_Action (Parse input ch caps))"
  by (rule parsed_mod_cap [OF assms])

definition mod_caps :: Capabilities where
  "mod_caps = no_caps\<lparr>cap_Moderation := True\<rparr>"

theorem mod_needs_capability_witness:
  "action_ok (pa_Action (Parse ''/Ban troll spam links'' (twitch_channel ''v'') mod_caps))
    \<and> ma_TargetUserID (pa_Action (Parse ''/Ban troll spam links'' (twitch_channel ''v'') mod_caps)) = ''troll''"
proof -
  have "pa_Kind (Parse ''/Ban troll spam links'' (twitch_channel ''v'') mod_caps) = KindMod"
    and "ma_TargetUserID (pa_Action (Parse ''/Ban troll spam links'' (twitch_channel ''v'') mod_caps)) = ''troll''"
    by code_simp+
  then show ?thesis using mod_needs_capability by blast
qed

text \<open>
  The seconds given to \<open>/timeout\<close> become the duration exactly as long as the product fits
  (up to 9223372036 seconds, about 292 years); beyond, it wraps to a different, possibly negative,
  duration, which the \<open>seconds > 0\<close> guard does not catch.
\<close>

theorem timeout_duration:
  assumes "atoi s = Some secs" "0 < secs"
  shows "(secs \<le> 9223372036 \<longrightarrow> buildTimeout (u # s # reason) =
      Inr (no_action\<lparr>ma_Type := ModTimeout, ma_TargetUserID := u, ma_Duration := secs * second,
        ma_Reason := join '' '' reason\<rparr>))
    \<and> (9223372036 < secs \<longrightarrow> (\<exists>d. d \<noteq> secs * second \<and> buildTimeout (u # s # reason) =
      Inr (no_action\<lparr>ma_Type := ModTimeout, ma_TargetUserID := u, ma_Duration := d,
        ma_Reason := join '' '' reason\<rparr>)))"
proof (intro conjI impI)
  assume "secs \<le> 9223372036"
  then have "wrap64 (secs * second) = secs * second"
    using assms(2) by (intro wrap64_id) (auto simp: int64_ok_def second_def)
  then show "buildTimeout (u # s # reason) =
      Inr (no_action\<lparr>ma_Type := ModTimeout, ma_TargetUserID := u, ma_Duration := secs * second,
        ma_Reason := join '' '' reason\<rparr>)"
    using assms by (simp add: buildTimeout_def times_dur_def Let_def)
next
  assume "9223372036 < secs"
  then have "wrap64 (secs * second) \<noteq> secs * second"
    using wrap64_ok [of "secs * second"] by (auto simp: int64_ok_def second_def)
  then show "\<exists>d. d \<noteq> secs * second \<and> buildTimeout (u # s # reason) =
      Inr (no_action\<lparr>ma_Type := ModTimeout, ma_TargetUserID := u, ma_Duration := d,
        ma_Reason := join '' '' reason\<rparr>)"
    using assms by (auto simp: buildTimeout_def times_dur_def Let_def)
qed

theorem timeout_duration_witness:
  "buildTimeout [''u'', ''600''] = Inr (no_action\<lparr>ma_Type := ModTimeout, ma_TargetUserID := ''u'',
      ma_Duration := 600 * second, ma_Reason := []\<rparr>)
    \<and> buildTimeout [''u'', ''9223372037''] \<noteq> Inr (no_action\<lparr>ma_Type := ModTimeout, ma_TargetUserID := ''u'',
      ma_Duration := 9223372037 * second, ma_Reason := []\<rparr>)"
proof -
  have "atoi ''600'' = Some 600" "atoi ''9223372037'' = Some 9223372037" by code_simp+
  then show ?thesis
    using timeout_duration [of "''600''" 600 "''u''" "[]"]
      timeout_duration [of "''9223372037''" 9223372037 "''u''" "[]"]
    by (auto simp: no_action_def)
qed

end
