(* ===== verification/Dispatch.thy ===== *)
theory Dispatch
  imports Command Adaptive
begin

text \<open>
  \<^verbatim>\<open>internal/dispatch\<close>: the one path outbound input takes. \<open>Do\<close> parses and executes one input,
  \<open>SendMany\<close> cross-posts to several channels, \<open>Targets\<close> and \<open>QueueState\<close> report without sending.

  The sender holds its governor behind an interface; so do the definitions, which take \<^verbatim>\<open>Submit\<close> and
  \<^verbatim>\<open>State\<close> as arguments over a state \<open>'s\<close>. The application passes the adaptive layer, whose
  \<open>adaptive_Submit\<close> and \<open>adaptive_State\<close> the properties instantiate. A queued closure is a
  \<open>send_call\<close>, what it captured; \<open>dw_moderated\<close> records the actions handed to adapters.
\<close>

subsection \<open>State\<close>

record send_call =
  sc_Adapter :: Adapter
  sc_Channel :: ChannelRef
  sc_Text :: string
  sc_Opts :: SendOpts

record Sender =
  sn_adapters :: "Platform \<rightharpoonup> Adapter"
  sn_help :: string

record Outcome =
  oc_Kind :: Kind
  oc_Hint :: string
  oc_Sent :: "send_call option"

record 's dispatch_world =
  dw_gov :: 's
  dw_moderated :: "ModAction list"

type_synonym 's submit = "string \<Rightarrow> send_call \<Rightarrow> time \<Rightarrow> 's \<Rightarrow> 's"

definition NewSender :: "(Platform \<rightharpoonup> Adapter) \<Rightarrow> string \<Rightarrow> Sender" where
  "NewSender adapters helpText = \<lparr>sn_adapters = adapters, sn_help = helpText\<rparr>"

definition dispatch_key :: "ChannelRef \<Rightarrow> string" where
  "dispatch_key ch = ChannelRef_Key ch"

subsection \<open>Operations\<close>

definition Do :: "'s submit \<Rightarrow> Sender \<Rightarrow> ChannelRef \<Rightarrow> string \<Rightarrow> time \<Rightarrow> 's dispatch_world \<Rightarrow>
    (Outcome \<times> error) \<times> 's dispatch_world" where
  "Do submit s ch input now w =
    (case sn_adapters s (ch_Platform ch) of
       None \<Rightarrow> ((\<lparr>oc_Kind = KindHint, oc_Hint = ''platform not available'', oc_Sent = None\<rparr>, None), w)
     | Some a \<Rightarrow>
       let caps = ad_Capabilities a; p = Parse input ch caps in
       case pa_Kind p of
         KindHelp \<Rightarrow> ((\<lparr>oc_Kind = KindHelp, oc_Hint = sn_help s, oc_Sent = None\<rparr>, None), w)
       | KindHint \<Rightarrow> ((\<lparr>oc_Kind = KindHint, oc_Hint = pa_Hint p, oc_Sent = None\<rparr>, None), w)
       | KindMod \<Rightarrow> ((\<lparr>oc_Kind = KindMod, oc_Hint = [], oc_Sent = None\<rparr>, ad_Moderate a (pa_Action p)),
           w\<lparr>dw_moderated := dw_moderated w @ [pa_Action p]\<rparr>)
       | KindSend \<Rightarrow>
           if \<not> cap_Send caps
           then ((\<lparr>oc_Kind = KindHint, oc_Hint = ''you can'' @ [CHR 0x27] @ ''t send to this channel'', oc_Sent = None\<rparr>, None), w)
           else
             let call = \<lparr>sc_Adapter = a, sc_Channel = ch, sc_Text = pa_Text p,
                   sc_Opts = \<lparr>so_Action = pa_IsAction p, so_ReplyParentID = []\<rparr>\<rparr>
             in ((\<lparr>oc_Kind = KindSend, oc_Hint = [], oc_Sent = Some call\<rparr>, None),
                 w\<lparr>dw_gov := submit (dispatch_key ch) call now (dw_gov w)\<rparr>))"

definition sender_Moderate :: "Sender \<Rightarrow> ModAction \<Rightarrow> 's dispatch_world \<Rightarrow> error \<times> 's dispatch_world" where
  "sender_Moderate s action w =
    (case sn_adapters s (ch_Platform (ma_Channel action)) of
       None \<Rightarrow> (Some ErrUnsupported, w)
     | Some a \<Rightarrow> (ad_Moderate a action, w\<lparr>dw_moderated := dw_moderated w @ [action]\<rparr>))"

definition canSend :: "Sender \<Rightarrow> ChannelRef \<Rightarrow> bool \<times> ReasonCode" where
  "canSend s ch =
    (case sn_adapters s (ch_Platform ch) of
       None \<Rightarrow> (False, ReasonNone)
     | Some a \<Rightarrow> if \<not> cap_Send (ad_Capabilities a) then (False, ReasonAuthRequired) else (True, ReasonNone))"

record TargetState =
  ts_Channel :: ChannelRef
  ts_CanSend :: bool
  ts_Reason :: ReasonCode

definition Targets :: "Sender \<Rightarrow> ChannelRef list \<Rightarrow> TargetState list" where
  "Targets s targets = map (\<lambda>ch. let (ok, reason) = canSend s ch
     in \<lparr>ts_Channel = ch, ts_CanSend = ok, ts_Reason = reason\<rparr>) targets"

record TargetSend =
  tg_Channel :: ChannelRef
  tg_Reachable :: bool
  tg_Reason :: ReasonCode
  tg_Sent :: "send_call option"

fun SendMany :: "'s submit \<Rightarrow> Sender \<Rightarrow> ChannelRef list \<Rightarrow> string \<Rightarrow> SendOpts \<Rightarrow> time \<Rightarrow> 's \<Rightarrow>
    TargetSend list \<times> 's" where
  "SendMany submit s [] text opts now g = ([], g)"
| "SendMany submit s (ch # targets) text opts now g =
    (case (canSend s ch, sn_adapters s (ch_Platform ch)) of
       ((True, _), Some a) \<Rightarrow>
         let call = \<lparr>sc_Adapter = a, sc_Channel = ch, sc_Text = text, sc_Opts = opts\<rparr>;
             (out, g) = SendMany submit s targets text opts now (submit (dispatch_key ch) call now g)
         in (\<lparr>tg_Channel = ch, tg_Reachable = True, tg_Reason = ReasonNone, tg_Sent = Some call\<rparr> # out, g)
     | ((_, reason), _) \<Rightarrow>
         let (out, g) = SendMany submit s targets text opts now g
         in (\<lparr>tg_Channel = ch, tg_Reachable = False, tg_Reason = reason, tg_Sent = None\<rparr> # out, g))"

fun QueueState :: "(string \<Rightarrow> time \<Rightarrow> 's \<Rightarrow> (nat \<times> duration) \<times> 's) \<Rightarrow> ChannelRef list \<Rightarrow> time \<Rightarrow> 's \<Rightarrow>
    (ChannelRef \<times> nat \<times> duration) list \<times> 's" where
  "QueueState st [] now g = ([], g)"
| "QueueState st (ch # targets) now g =
    (let ((q, next), g) = st (dispatch_key ch) now g; (out, g) = QueueState st targets now g
     in ((ch, q, next) # out, g))"

subsection \<open>What reaches the governor\<close>

text \<open>
  One input has at most one effect, and only one the account may have: a hint or help changes
  nothing; a send queues exactly the parsed text on the channel's own queue and needs the send
  capability; a moderation action needs the moderation capability, goes to the typed channel and
  queues nothing.
\<close>

theorem Do_effect:
  assumes "Do submit s ch input now w = ((out, err), w')"
  shows "case oc_Kind out of
      KindSend \<Rightarrow> (\<exists>a call. sn_adapters s (ch_Platform ch) = Some a \<and> cap_Send (ad_Capabilities a)
        \<and> oc_Sent out = Some call \<and> sc_Channel call = ch \<and> sc_Text call = pa_Text (Parse input ch (ad_Capabilities a))
        \<and> w' = w\<lparr>dw_gov := submit (ChannelRef_Key ch) call now (dw_gov w)\<rparr>)
    | KindMod \<Rightarrow> (\<exists>a act. sn_adapters s (ch_Platform ch) = Some a \<and> cap_Moderation (ad_Capabilities a)
        \<and> ma_Channel act = ch \<and> err = ad_Moderate a act
        \<and> w' = w\<lparr>dw_moderated := dw_moderated w @ [act]\<rparr>)
    | _ \<Rightarrow> w' = w \<and> err = None"
proof (cases "sn_adapters s (ch_Platform ch)")
  case (Some a)
  have "pa_Kind (Parse input ch (ad_Capabilities a)) = KindMod \<Longrightarrow>
      cap_Moderation (ad_Capabilities a) \<and> ma_Channel (pa_Action (Parse input ch (ad_Capabilities a))) = ch"
    using parsed_mod_cap by blast
  then show ?thesis
    using assms Some by (auto simp: Do_def Let_def dispatch_key_def split: Kind.splits if_splits)
qed (use assms in \<open>auto simp: Do_def\<close>)


definition send_adapter :: "Capabilities \<Rightarrow> Adapter" where
  "send_adapter c = \<lparr>ad_Platform = Twitch, ad_Capabilities = c, ad_Join = (\<lambda>_ _. None), ad_Leave = (\<lambda>_. None),
     ad_Send = (\<lambda>_ _ _. None), ad_Moderate = (\<lambda>_. None),
     ad_Health = \<lparr>hs_State = HealthOK, hs_Reason = ReasonNone, hs_Detail = []\<rparr>\<rparr>"

theorem Do_effect_witness:
  "let s = NewSender [Twitch \<mapsto> send_adapter no_caps] ''help'';
       ((out, err), w) = Do (\<lambda>k call now q. q @ [(k, sc_Text call)]) s (twitch_channel ''V'') ''hello'' 0
         \<lparr>dw_gov = [], dw_moderated = []\<rparr>
   in oc_Kind out = KindSend \<and> dw_gov w = [(''twitch:v'', ''hello'')]"
proof -
  let ?sub = "\<lambda>k call now q. q @ [(k, sc_Text call)]"
  let ?s = "NewSender [Twitch \<mapsto> send_adapter no_caps] ''help''"
  obtain out err w where d: "Do ?sub ?s (twitch_channel ''V'') ''hello'' 0
      \<lparr>dw_gov = [], dw_moderated = []\<rparr> = ((out, err), w)" by (metis prod.exhaust)
  have p: "Parse ''hello'' (twitch_channel ''V'') no_caps = parsed_send ''hello'' False"
    by (simp add: Parse_def has_prefix_def)
  then have k: "oc_Kind out = KindSend"
    using d by (auto simp: Do_def NewSender_def twitch_channel_def send_adapter_def no_caps_def parsed_send_def Let_def)
  have "ChannelRef_Key (twitch_channel ''V'') = ''twitch:v''" by code_simp
  then show ?thesis
    using Do_effect [OF d] d k p
    by (auto simp: Let_def NewSender_def twitch_channel_def send_adapter_def parsed_send_def)
qed

text \<open>The calls a cross-post makes, per reachable target.\<close>

definition reachable :: "Sender \<Rightarrow> ChannelRef \<Rightarrow> bool" where
  "reachable s ch = (case sn_adapters s (ch_Platform ch) of
     None \<Rightarrow> False | Some a \<Rightarrow> cap_Send (ad_Capabilities a))"

definition call_for :: "Sender \<Rightarrow> string \<Rightarrow> SendOpts \<Rightarrow> ChannelRef \<Rightarrow> send_call" where
  "call_for s text opts ch = \<lparr>sc_Adapter = the (sn_adapters s (ch_Platform ch)), sc_Channel = ch,
     sc_Text = text, sc_Opts = opts\<rparr>"

lemma canSend_reachable: "fst (canSend s ch) = reachable s ch"
  by (simp add: canSend_def reachable_def split: option.splits)

lemma SendMany_Cons:
  "SendMany submit s (ch # targets) text opts now g =
    (let (out, g) = SendMany submit s targets text opts now
           (if reachable s ch then submit (ChannelRef_Key ch) (call_for s text opts ch) now g else g)
     in (\<lparr>tg_Channel = ch, tg_Reachable = reachable s ch, tg_Reason = snd (canSend s ch),
          tg_Sent = (if reachable s ch then Some (call_for s text opts ch) else None)\<rparr> # out, g))"
  by (auto simp: canSend_def reachable_def call_for_def dispatch_key_def Let_def split: option.splits prod.splits)

declare SendMany.simps(2) [simp del]

lemma SendMany_report:
  "map tg_Channel (fst (SendMany submit s targets text opts now g)) = targets"
  "map tg_Reachable (fst (SendMany submit s targets text opts now g)) = map (reachable s) targets"
  by (induction targets arbitrary: g) (auto simp: SendMany_Cons Let_def case_prod_beta)

text \<open>The governor as the sender uses it: a paced queue of send calls.\<close>

locale sender_queue = paced_queue submit submitted sent wf
  for submit :: "string \<Rightarrow> send_call \<Rightarrow> time \<Rightarrow> 's \<Rightarrow> 's"
    and submitted :: "string \<Rightarrow> 's \<Rightarrow> send_call list"
    and sent :: "string \<Rightarrow> 's \<Rightarrow> send_call list"
    and wf :: "'s \<Rightarrow> bool"
begin

lemma SendMany_submitted:
  assumes "wf g"
  shows "submitted j (snd (SendMany submit s targets text opts now g)) =
      submitted j g @ map (call_for s text opts) (filter (\<lambda>ch. reachable s ch \<and> ChannelRef_Key ch = j) targets)"
  using assms
proof (induction targets arbitrary: g)
  case (Cons ch targets)
  have "wf (if reachable s ch then submit (ChannelRef_Key ch) (call_for s text opts ch) now g else g)"
    using Cons.prems by (simp add: wf_submit)
  from Cons.IH [OF this] show ?case
    using Cons.prems by (auto simp: SendMany_Cons Let_def submitted_submit case_prod_beta)
qed simp

end

interpretation sender_adaptive: sender_queue "adaptive_Submit answer"
  "\<lambda>k a. gv_submitted k (av_g a)" "\<lambda>k a. gv_sent k (av_g a)" av_inv
  by (rule sender_queue.intro) (rule adaptive_queue.paced_queue_axioms)

text \<open>
  Cross-posting reports every target, in order, and queues one send of the text on the queue of
  each reachable target, in target order, behind what was queued there before; an unreachable target
  (no adapter, or signed out) is reported as such and affects no other. This holds through the
  adaptive governor whatever the platforms answer while the sends are drained.
\<close>

theorem SendMany_all:
  assumes "av_inv a"
  shows "map (\<lambda>t. (tg_Channel t, tg_Reachable t))
        (fst (SendMany (adaptive_Submit answer) s targets text opts now a)) =
      map (\<lambda>ch. (ch, reachable s ch)) targets
    \<and> gv_submitted j (av_g (snd (SendMany (adaptive_Submit answer) s targets text opts now a))) =
      gv_submitted j (av_g a) @ map (call_for s text opts)
        (filter (\<lambda>ch. reachable s ch \<and> ChannelRef_Key ch = j) targets)"
proof
  let ?r = "fst (SendMany (adaptive_Submit answer) s targets text opts now a)"
  have "map (\<lambda>t. (tg_Channel t, tg_Reachable t)) ?r = zip (map tg_Channel ?r) (map tg_Reachable ?r)"
    by (simp add: zip_map_map zip_same_conv_map)
  then show "map (\<lambda>t. (tg_Channel t, tg_Reachable t)) ?r = map (\<lambda>ch. (ch, reachable s ch)) targets"
    unfolding SendMany_report by (simp add: zip_map2 zip_same_conv_map)
qed (rule sender_adaptive.SendMany_submitted [OF assms])

theorem SendMany_all_witness:
  "let s = NewSender [Twitch \<mapsto> send_adapter no_caps] [];
       a = NewAdaptive (NewGovernor \<lparr>Burst = 8, Window = second\<rparr>) \<lparr>Burst = 8, Window = second\<rparr>;
       kick = \<lparr>ch_Platform = Kick, ch_ID = [], ch_Slug = ''v'', ch_DisplayName = []\<rparr>;
       r = SendMany (adaptive_Submit (\<lambda>_. RateLimited 0)) s [kick, twitch_channel ''v''] ''hi''
         \<lparr>so_Action = False, so_ReplyParentID = []\<rparr> 0 a
   in map (\<lambda>t. (tg_Channel t, tg_Reachable t)) (fst r) = [(kick, False), (twitch_channel ''v'', True)]
     \<and> map sc_Text (gv_submitted ''twitch:v'' (av_g (snd r))) = [''hi'']"
proof -
  let ?d = "\<lparr>Burst = 8, Window = second\<rparr>"
  let ?s = "NewSender [Twitch \<mapsto> send_adapter no_caps] []"
  let ?a = "NewAdaptive (NewGovernor ?d) ?d"
  let ?kick = "\<lparr>ch_Platform = Kick, ch_ID = [], ch_Slug = ''v'', ch_DisplayName = []\<rparr>"
  have inv: "av_inv ?a" by (rule av_inv_new) (simp add: seed_ok_def limit_ok_def)
  have k: "ChannelRef_Key (twitch_channel ''v'') = ''twitch:v''" by code_simp
  have r: "\<not> reachable ?s ?kick" "reachable ?s (twitch_channel ''v'')"
    by (simp_all add: reachable_def NewSender_def twitch_channel_def send_adapter_def no_caps_def)
  have "gv_submitted j (av_g ?a) = []" for j
    by (simp add: gv_submitted_def NewAdaptive_def NewGovernor_def)
  then show ?thesis
    using SendMany_all [OF inv, of "\<lambda>_. RateLimited 0" ?s "[?kick, twitch_channel ''v'']" "''hi''"
        "\<lparr>so_Action = False, so_ReplyParentID = []\<rparr>" 0 "''twitch:v''"]
    by (simp add: Let_def r k call_for_def)
qed

end
