(* ===== verification/Chat_Filter.thy ===== *)
theory Chat_Filter
  imports Pipeline
begin

text \<open>
  \<^verbatim>\<open>internal/filter\<close>: the pipeline's rule stage (\<^verbatim>\<open>filter.go\<close>), the word-list parser (\<^verbatim>\<open>lists.go\<close>) and
  the pure part of the list loader (\<^verbatim>\<open>wordlist/loader.go\<close>).

  Two things the source takes from Go's library are arguments here: a compiled regular expression,
  which is what its two methods answer (\<open>regex\<close>), with \<^verbatim>\<open>regexp.Compile\<close> as the argument \<open>compile_re\<close>;
  and \<open>letter\<close>, the Unicode tables behind \<^verbatim>\<open>unicode.IsLetter\<close> and \<^verbatim>\<open>unicode.IsDigit\<close> from \<open>0x80\<close> on.
  Go sets are lists whose order and repetitions nothing observes.

  The lemmas show that masking hides exactly the matched bytes and nothing else, that the original
  can always be recovered from the reveal text, and what hide and highlight rules do to the
  annotations.
\<close>

subsection \<open>Rules\<close>

definition maskToken :: string where
  "maskToken = [CHR 0xE2, CHR 0x88, CHR 0x97, CHR 0xE2, CHR 0x88, CHR 0x97, CHR 0xE2, CHR 0x88, CHR 0x97]"

datatype Action = ActionHide | ActionHighlight | ActionMask | ActionOther string

record Match =
  mt_Platforms :: "Platform list"
  mt_Channels :: "string list"
  mt_Authors :: "string list"
  mt_Types :: "MessageType list"
  mt_Keywords :: "string list"
  mt_Regexes :: "string list"

record Rule =
  ru_ID :: string
  ru_Action :: Action
  ru_Match :: Match

record regex =
  MatchString :: "string \<Rightarrow> bool"
  FindAllStringIndex :: "string \<Rightarrow> (nat \<times> nat) list"

record compiledRule =
  cr_id :: string
  cr_action :: Action
  cr_platforms :: "Platform list"
  cr_channels :: "string list"
  cr_authors :: "string list"
  cr_types :: "MessageType list"
  cr_keywords :: "string list"
  cr_regexes :: "regex list"

type_synonym Ruleset = "compiledRule list"

fun compile_regexes :: "(string \<Rightarrow> regex option) \<Rightarrow> string list \<Rightarrow> string + regex list" where
  "compile_regexes compile_re [] = Inr []"
| "compile_regexes compile_re (e # es) =
    (case compile_re e of
       None \<Rightarrow> Inl e
     | Some re \<Rightarrow> (case compile_regexes compile_re es of Inl x \<Rightarrow> Inl x | Inr res \<Rightarrow> Inr (re # res)))"

text \<open>The error is the rule's id and the bad expression.\<close>

fun Compile :: "(string \<Rightarrow> regex option) \<Rightarrow> Rule list \<Rightarrow> (string \<times> string) + Ruleset" where
  "Compile compile_re [] = Inr []"
| "Compile compile_re (r # rs) =
    (case compile_regexes compile_re (mt_Regexes (ru_Match r)) of
       Inl e \<Rightarrow> Inl (ru_ID r, e)
     | Inr res \<Rightarrow> (case Compile compile_re rs of
         Inl x \<Rightarrow> Inl x
       | Inr crs \<Rightarrow> Inr (\<lparr>cr_id = ru_ID r, cr_action = ru_Action r,
           cr_platforms = mt_Platforms (ru_Match r), cr_channels = mt_Channels (ru_Match r),
           cr_authors = map to_lower (mt_Authors (ru_Match r)), cr_types = mt_Types (ru_Match r),
           cr_keywords = map to_lower (mt_Keywords (ru_Match r)), cr_regexes = res\<rparr> # crs)))"

text \<open>A nil set (from an empty list) does not constrain.\<close>

definition scopeMatches :: "compiledRule \<Rightarrow> UnifiedMessage \<Rightarrow> bool" where
  "scopeMatches r msg =
    ((cr_platforms r = [] \<or> um_Platform msg \<in> set (cr_platforms r))
     \<and> (cr_channels r = [] \<or> ch_Slug (um_Channel msg) \<in> set (cr_channels r))
     \<and> (cr_authors r = [] \<or> to_lower (au_Login (um_Author msg)) \<in> set (cr_authors r))
     \<and> (cr_types r = [] \<or> um_Type msg \<in> set (cr_types r)))"

definition textHit :: "compiledRule \<Rightarrow> string \<Rightarrow> string \<Rightarrow> bool" where
  "textHit r text lower =
    (if cr_keywords r = [] \<and> cr_regexes r = [] then True
     else list_ex (\<lambda>kw. contains lower kw) (cr_keywords r)
       \<or> list_ex (\<lambda>re. MatchString re text) (cr_regexes r))"

definition needsText :: "compiledRule \<Rightarrow> bool" where
  "needsText r = (cr_keywords r \<noteq> [] \<or> cr_regexes r \<noteq> [])"

subsection \<open>Masking\<close>

definition isWordRune :: "(nat \<Rightarrow> bool) \<Rightarrow> nat \<Rightarrow> bool" where
  "isWordRune letter r = (if r < 128 then (48 \<le> r \<and> r \<le> 57) \<or> (65 \<le> r \<and> r \<le> 90) \<or> (97 \<le> r \<and> r \<le> 122)
     else letter r)"

text \<open>
  The keyword half of \<^verbatim>\<open>collectSpans\<close>: the text is walked rune by rune, each maximal run of word runes
  being looked up; \<open>pos\<close> is the byte offset \<^verbatim>\<open>i\<close>.
\<close>

function keyword_spans :: "(nat \<Rightarrow> bool) \<Rightarrow> string list \<Rightarrow> nat \<Rightarrow> (nat \<times> string) list \<Rightarrow> (nat \<times> nat) list" where
  "keyword_spans letter kw pos [] = []"
| "keyword_spans letter kw pos (r # rs) =
    (let word = (\<lambda>r. isWordRune letter (fst r)) in
     if \<not> word r then keyword_spans letter kw (pos + length (snd r)) rs
     else
       let run = bytes_of (takeWhile word (r # rs)); end = pos + length run
       in (if to_lower run \<in> set kw then [(pos, end)] else [])
          @ keyword_spans letter kw end (dropWhile word (r # rs)))"
  by pat_completeness auto
termination
  by (relation "measure (\<lambda>(_, _, _, rs). length rs)") (auto simp: less_Suc_eq_le length_dropWhile_le)

text \<open>\<^verbatim>\<open>mergeSpans\<close> on the sorted list; \<open>a, b\<close> is the last merged span.\<close>

fun merge_sorted :: "nat \<times> nat \<Rightarrow> (nat \<times> nat) list \<Rightarrow> (nat \<times> nat) list" where
  "merge_sorted (a, b) [] = [(a, b)]"
| "merge_sorted (a, b) ((c, d) # sps) =
    (if c \<le> b then merge_sorted (a, max b d) sps else (a, b) # merge_sorted (c, d) sps)"

definition mergeSpans :: "(nat \<times> nat) list \<Rightarrow> (nat \<times> nat) list" where
  "mergeSpans spans = (if length spans < 2 then spans
     else (case sort_key fst spans of [] \<Rightarrow> [] | sp # sps \<Rightarrow> merge_sorted sp sps))"

definition raw_spans :: "(nat \<Rightarrow> bool) \<Rightarrow> string \<Rightarrow> string list \<Rightarrow> regex list \<Rightarrow> (nat \<times> nat) list" where
  "raw_spans letter text kw regexes =
    (if kw \<noteq> [] then keyword_spans letter kw 0 (runes text) else [])
    @ concat (map (\<lambda>re. filter (\<lambda>m. fst m \<noteq> snd m) (FindAllStringIndex re text)) regexes)"

definition collectSpans :: "(nat \<Rightarrow> bool) \<Rightarrow> string \<Rightarrow> string list \<Rightarrow> regex list \<Rightarrow> (nat \<times> nat) list" where
  "collectSpans letter text kw regexes = mergeSpans (raw_spans letter text kw regexes)"

definition slice :: "nat \<Rightarrow> nat \<Rightarrow> string \<Rightarrow> string" where
  "slice i j s = take (j - i) (drop i s)"

fun splitMasked :: "string \<Rightarrow> nat \<Rightarrow> (nat \<times> nat) list \<Rightarrow> Segment list" where
  "splitMasked text cursor [] = (if cursor < length text then [seg SegText (drop cursor text)] else [])"
| "splitMasked text cursor ((a, b) # spans) =
    (if a > cursor then [seg SegText (slice cursor a text)] else [])
    @ (seg SegMasked maskToken)\<lparr>sg_Reveal := slice a b text\<rparr> # splitMasked text b spans"

definition mask_segment :: "(nat \<Rightarrow> bool) \<Rightarrow> string list \<Rightarrow> regex list \<Rightarrow> Segment \<Rightarrow> Segment list option" where
  "mask_segment letter kw regexes sg =
    (if sg_Kind sg \<noteq> SegText then None
     else let spans = collectSpans letter (sg_Text sg) kw regexes
          in if spans = [] then None else Some (splitMasked (sg_Text sg) 0 spans))"

text \<open>None of the segments masked is \<^verbatim>\<open>false\<close>, and the message is left as it was.\<close>

definition maskSegments :: "(nat \<Rightarrow> bool) \<Rightarrow> string list \<Rightarrow> regex list \<Rightarrow> UnifiedMessage \<Rightarrow> bool \<times> UnifiedMessage" where
  "maskSegments letter kw regexes msg =
    (if kw = [] \<and> regexes = [] then (False, msg)
     else
       let rewritten = map (\<lambda>sg. (sg, mask_segment letter kw regexes sg)) (um_Segments msg);
           masked = list_ex (\<lambda>(sg, out). out \<noteq> None) rewritten
       in (masked, if masked
             then msg\<lparr>um_Segments := concat (map (\<lambda>(sg, out). case out of None \<Rightarrow> [sg] | Some ss \<Rightarrow> ss) rewritten)\<rparr>
             else msg))"

subsection \<open>The stage\<close>

text \<open>
  One rule of the loop. The second component is the lazily computed body (\<^verbatim>\<open>text\<close>, \<^verbatim>\<open>lower\<close>): taken
  from the message the first time a hide or highlight rule needs it, and reused after that.
\<close>

definition hit_cached :: "compiledRule \<Rightarrow> UnifiedMessage \<Rightarrow> (string \<times> string) option \<Rightarrow>
    bool \<times> (string \<times> string) option" where
  "hit_cached r msg cache =
    (if \<not> needsText r then (True, cache)
     else
       let (text, lower) = (case cache of Some c \<Rightarrow> c | None \<Rightarrow> (PlainText msg, to_lower (PlainText msg)))
       in (textHit r text lower, Some (text, lower)))"

definition apply_rule :: "(nat \<Rightarrow> bool) \<Rightarrow> compiledRule \<Rightarrow> UnifiedMessage \<times> (string \<times> string) option \<Rightarrow>
    UnifiedMessage \<times> (string \<times> string) option" where
  "apply_rule letter r = (\<lambda>(msg, cache).
    (if \<not> scopeMatches r msg then (msg, cache)
     else (case cr_action r of
       ActionHide \<Rightarrow> let (h, cache) = hit_cached r msg cache
         in ((if h then Annotate (\<lambda>an. an\<lparr>an_Hidden := True\<rparr>) msg else msg), cache)
     | ActionHighlight \<Rightarrow> let (h, cache) = hit_cached r msg cache
         in ((if h then Annotate (\<lambda>an. an\<lparr>an_Highlight := cr_id r\<rparr>) msg else msg), cache)
     | ActionMask \<Rightarrow> let (h, msg) = maskSegments letter (cr_keywords r) (cr_regexes r) msg
         in ((if h then Annotate (\<lambda>an. an\<lparr>an_Masked := True\<rparr>) msg else msg), cache)
     | ActionOther _ \<Rightarrow> (msg, cache))))"

definition filter_Annotate :: "(nat \<Rightarrow> bool) \<Rightarrow> Ruleset \<Rightarrow> UnifiedMessage \<Rightarrow> UnifiedMessage" where
  "filter_Annotate letter rs msg = fst (fold (apply_rule letter) rs (msg, None))"

text \<open>The stage as the runner sees it: its ruleset is the state, swapped by \<open>SetRuleset\<close>; it never fails.\<close>

definition filter_stage :: "(nat \<Rightarrow> bool) \<Rightarrow> Ruleset stage" where
  "filter_stage letter rs msg = (StageOk (filter_Annotate letter rs msg), rs)"

definition SetRuleset :: "Ruleset option \<Rightarrow> Ruleset \<Rightarrow> Ruleset" where
  "SetRuleset rs old = (case rs of None \<Rightarrow> [] | Some r \<Rightarrow> r)"

subsection \<open>Word lists\<close>

text \<open>
  \<^verbatim>\<open>bufio.Scanner\<close> with its default split: lines without their newline and one trailing carriage
  return, no final empty line. (A line over 64 KiB stops the real scanner.)
\<close>

definition drop_cr :: "string \<Rightarrow> string" where
  "drop_cr l = (if l \<noteq> [] \<and> last l = CHR 0x0D then butlast l else l)"

definition scan_lines :: "string \<Rightarrow> string list" where
  "scan_lines s = map drop_cr (let ls = split_on CHR 0x0A s in if last ls = [] then butlast ls else ls)"

definition ParseList :: "string \<Rightarrow> string list" where
  "ParseList s = map to_lower (filter (\<lambda>l. l \<noteq> [] \<and> \<not> has_prefix l ''#'') (map trim_space (scan_lines s)))"

definition parseLines :: "string \<Rightarrow> string list" where
  "parseLines data = map to_lower (filter (\<lambda>l. l \<noteq> [] \<and> \<not> has_prefix l ''#'') (map trim_space (scan_lines data)))"

definition dedup :: "string list \<Rightarrow> string list \<Rightarrow> string list" where
  "dedup a b = rev (fold (\<lambda>t out. if t \<in> set out then out else t # out) (a @ b) [])"

definition ProfanityRule :: "string \<Rightarrow> string list \<Rightarrow> Rule" where
  "ProfanityRule rid terms = \<lparr>ru_ID = rid, ru_Action = ActionMask, ru_Match =
     \<lparr>mt_Platforms = [], mt_Channels = [], mt_Authors = [], mt_Types = [], mt_Keywords = terms, mt_Regexes = []\<rparr>\<rparr>"


subsection \<open>Spans\<close>

definition covered :: "(nat \<times> nat) list \<Rightarrow> nat set" where
  "covered spans = {i. \<exists>(a, b) \<in> set spans. a \<le> i \<and> i < b}"

lemma covered_simps [simp]:
  "covered [] = {}"
  "covered ((a, b) # sps) = {a ..< b} \<union> covered sps"
  "covered (xs @ ys) = covered xs \<union> covered ys"
  by (auto simp: covered_def)

lemma covered_mem: "(a, b) \<in> set sps \<Longrightarrow> {a ..< b} \<subseteq> covered sps"
  by (force simp: covered_def)

lemma covered_cong: "set xs = set ys \<Longrightarrow> covered xs = covered ys"
  by (simp add: covered_def)

text \<open>Spans in order, without overlap, inside a text of length \<open>n\<close>, from offset \<open>c\<close> on.\<close>

fun in_order :: "nat \<Rightarrow> nat \<Rightarrow> (nat \<times> nat) list \<Rightarrow> bool" where
  "in_order n c [] = True"
| "in_order n c ((a, b) # sps) = (c \<le> a \<and> a < b \<and> b \<le> n \<and> in_order n b sps)"

definition spans_ok :: "nat \<Rightarrow> (nat \<times> nat) list \<Rightarrow> bool" where
  "spans_ok n sps = (\<forall>(a, b) \<in> set sps. a < b \<and> b \<le> n)"

lemma in_order_weaken: "in_order n c sps \<Longrightarrow> d \<le> c \<Longrightarrow> in_order n d sps"
  by (cases sps) auto

lemma merge_sorted_ok:
  "sorted (a # map fst sps) \<Longrightarrow> a < b \<Longrightarrow> b \<le> n \<Longrightarrow> spans_ok n sps \<Longrightarrow>
    in_order n a (merge_sorted (a, b) sps) \<and> covered (merge_sorted (a, b) sps) = {a ..< b} \<union> covered sps"
proof (induction "(a, b)" sps arbitrary: a b rule: merge_sorted.induct)
  case (2 a b c d sps)
  have cd: "c < d" "d \<le> n" "a \<le> c" and ok: "spans_ok n sps" using "2.prems" by (auto simp: spans_ok_def)
  show ?case
  proof (cases "c \<le> b")
    case True
    have "in_order n a (merge_sorted (a, max b d) sps)
        \<and> covered (merge_sorted (a, max b d) sps) = {a ..< max b d} \<union> covered sps"
      using "2.hyps"(1) [OF True] "2.prems" cd ok by simp
    moreover have "{a ..< max b d} = {a ..< b} \<union> {c ..< d}" using True cd "2.prems"(2) by auto
    ultimately show ?thesis using True by auto
  next
    case False
    have "in_order n c (merge_sorted (c, d) sps) \<and> covered (merge_sorted (c, d) sps) = {c ..< d} \<union> covered sps"
      using "2.hyps"(2) [OF False] "2.prems" cd ok by simp
    then show ?thesis using False "2.prems" by (auto intro: in_order_weaken)
  qed
qed auto

lemma mergeSpans_ok:
  assumes "spans_ok n sps"
  shows "in_order n 0 (mergeSpans sps) \<and> covered (mergeSpans sps) = covered sps"
proof (cases "sort_key fst sps")
  case Nil
  then have "sps = []" by (metis length_0_conv length_sort)
  then show ?thesis by (simp add: mergeSpans_def)
next
  case (Cons sp sps')
  obtain a b where sp: "sp = (a, b)" by fastforce
  have set: "set (sp # sps') = set sps" using Cons by (metis set_sort)
  have "sorted (map fst (sp # sps'))" using Cons by (metis sorted_sort_key)
  then have "in_order n a (merge_sorted (a, b) sps')
      \<and> covered (merge_sorted (a, b) sps') = {a ..< b} \<union> covered sps'"
    using assms set by (intro merge_sorted_ok) (auto simp: sp spans_ok_def)
  moreover have "{a ..< b} \<union> covered sps' = covered sps" using covered_cong [OF set] by (simp add: sp)
  moreover have "in_order n 0 sps" if "length sps < 2"
    using that assms by (cases sps) (auto simp: spans_ok_def)
  ultimately show ?thesis
    using Cons by (auto simp: mergeSpans_def sp intro: in_order_weaken)
qed

lemma mergeSpans_Nil: "spans_ok n sps \<Longrightarrow> mergeSpans sps = [] \<longleftrightarrow> sps = []"
proof
  assume "spans_ok n sps" "mergeSpans sps = []"
  then have "covered sps = {}" using mergeSpans_ok by (metis covered_simps(1))
  then show "sps = []" using \<open>spans_ok n sps\<close>
    by (cases sps) (auto simp: spans_ok_def)
qed (simp add: mergeSpans_def)

subsection \<open>What is shown and what can be revealed\<close>

definition shown :: "Segment list \<Rightarrow> string" where
  "shown ss = concat (map sg_Text (filter (\<lambda>s. sg_Kind s = SegText) ss))"

definition original :: "Segment list \<Rightarrow> string" where
  "original ss = concat (map (\<lambda>s. if sg_Kind s = SegMasked then sg_Reveal s else sg_Text s) ss)"

lemma shown_original_simps [simp]:
  "shown [] = []" "shown (s # ss) = (if sg_Kind s = SegText then sg_Text s else []) @ shown ss"
  "shown (xs @ ys) = shown xs @ shown ys"
  "original [] = []"
  "original (s # ss) = (if sg_Kind s = SegMasked then sg_Reveal s else sg_Text s) @ original ss"
  "original (xs @ ys) = original xs @ original ys"
  by (simp_all add: shown_def original_def)

lemma slice_upt: "j \<le> length s \<Longrightarrow> slice i j s = map ((!) s) [i ..< j]"
  by (cases "i \<le> j") (auto simp: slice_def intro!: nth_equalityI)

lemma in_order_above: "in_order n c sps \<Longrightarrow> covered sps \<subseteq> {c ..< n}"
  by (induction n c sps rule: in_order.induct) (auto dest: subsetD)

lemma splitMasked_shown:
  "in_order (length body) c sps \<Longrightarrow> c \<le> length body \<Longrightarrow>
    shown (splitMasked body c sps) = map ((!) body) (filter (\<lambda>i. i \<notin> covered sps) [c ..< length body])"
proof (induction body c sps rule: splitMasked.induct)
  case (1 body c)
  then show ?case using slice_upt [of "length body" body c] by (auto simp: slice_def)
next
  case (2 body c a b sps)
  have ab: "c \<le> a" "a < b" "b \<le> length body" and rest: "in_order (length body) b sps"
    using "2.prems" by auto
  have above: "covered sps \<subseteq> {b ..< length body}" by (rule in_order_above [OF rest])
  have "[c ..< length body] = [c ..< a] @ [a ..< b] @ [b ..< length body]"
    using ab by (metis le_trans less_imp_le upt_add_eq_append le_add_diff_inverse)
  then have "filter (\<lambda>i. i \<notin> covered ((a, b) # sps)) [c ..< length body] =
      filter (\<lambda>i. i \<notin> covered ((a, b) # sps)) [c ..< a] @ filter (\<lambda>i. i \<notin> covered ((a, b) # sps)) [a ..< b]
      @ filter (\<lambda>i. i \<notin> covered ((a, b) # sps)) [b ..< length body]" by simp
  moreover have "filter (\<lambda>i. i \<notin> covered ((a, b) # sps)) [c ..< a] = [c ..< a]"
    using above ab by (intro filter_True) auto
  moreover have "filter (\<lambda>i. i \<notin> covered ((a, b) # sps)) [a ..< b] = []" by (intro filter_False) auto
  moreover have "filter (\<lambda>i. i \<notin> covered ((a, b) # sps)) [b ..< length body] =
      filter (\<lambda>i. i \<notin> covered sps) [b ..< length body]" by (intro filter_cong) auto
  ultimately show ?case using "2.IH" [OF rest ab(3)] ab slice_upt [of a body c] by auto
qed

lemma slice_drop: "i \<le> j \<Longrightarrow> slice i j s @ drop j s = drop i s"
  by (simp add: slice_def) (metis append_take_drop_id drop_drop le_add_diff_inverse2)

lemma splitMasked_original:
  "in_order (length body) c sps \<Longrightarrow> c \<le> length body \<Longrightarrow> original (splitMasked body c sps) = drop c body"
proof (induction body c sps rule: splitMasked.induct)
  case (2 body c a b sps)
  then have ab: "c \<le> a" "a < b" "b \<le> length body" and "original (splitMasked body b sps) = drop b body" by auto
  then show ?case using slice_drop [of a b body] slice_drop [of c a body] by (cases "a = c") auto
qed auto


subsection \<open>Whole words\<close>

text \<open>
  An occurrence of a listed word: a maximal run of word runes, \<open>xs\<close> and \<open>ys\<close> being what comes before
  and after it.
\<close>

definition word_at :: "(nat \<Rightarrow> bool) \<Rightarrow> string list \<Rightarrow> (nat \<times> string) list \<Rightarrow> (nat \<times> string) list \<Rightarrow>
    (nat \<times> string) list \<Rightarrow> bool" where
  "word_at letter kw xs run ys = (run \<noteq> [] \<and> (\<forall>r \<in> set run. isWordRune letter (fst r))
     \<and> (xs \<noteq> [] \<longrightarrow> \<not> isWordRune letter (fst (last xs)))
     \<and> (ys \<noteq> [] \<longrightarrow> \<not> isWordRune letter (fst (hd ys)))
     \<and> to_lower (bytes_of run) \<in> set kw)"

lemma bytes_of_simps [simp]: "bytes_of [] = []" "bytes_of (r # rs) = snd r @ bytes_of rs"
  by (simp_all add: bytes_of_def)

lemma keyword_spans_skip:
  "isWordRune letter (fst r) \<Longrightarrow>
    set (keyword_spans letter kw (pos + length (bytes_of (takeWhile (\<lambda>r. isWordRune letter (fst r)) (r # rs))))
      (dropWhile (\<lambda>r. isWordRune letter (fst r)) (r # rs)))
    \<subseteq> set (keyword_spans letter kw pos (r # rs))"
  by (simp add: Let_def)

lemma keyword_spans_complete:
  "word_at letter kw xs run ys \<Longrightarrow>
    (pos + length (bytes_of xs), pos + length (bytes_of (xs @ run))) \<in>
      set (keyword_spans letter kw pos (xs @ run @ ys))"
proof (induction letter kw pos "xs @ run @ ys" arbitrary: xs rule: keyword_spans.induct)
  case (1 letter kw pos)
  then show ?case by (simp add: word_at_def)
next
  case (2 letter kw pos r rs)
  let ?word = "\<lambda>r. isWordRune letter (fst r)"
  have run: "\<forall>r \<in> set run. ?word r" "run \<noteq> []" and ys: "ys \<noteq> [] \<longrightarrow> \<not> ?word (hd ys)"
    using "2.prems" by (auto simp: word_at_def)
  have tw: "takeWhile ?word ys = []" "dropWhile ?word ys = ys" using ys by (cases ys; simp)+
  show ?case
  proof (cases "xs = []")
    case True
    then obtain run' where run': "run = r # run'" using "2.hyps"(3) run by (cases run) auto
    have "takeWhile ?word (run' @ ys) = run'" using run run' tw by (simp add: takeWhile_append2)
    then show ?thesis using True "2.prems" run run' by (simp add: Let_def word_at_def)
  next
    case False
    then obtain xs' where xs: "xs = r # xs'" "rs = xs' @ run @ ys" using "2.hyps"(3) by (cases xs) auto
    have lst: "\<not> ?word (last xs)" using False "2.prems" by (simp add: word_at_def)
    show ?thesis
    proof (cases "?word r")
      case True
      define ws where "ws = dropWhile ?word xs"
      have ws: "ws \<noteq> []"
        using lst False last_in_set [OF False] by (auto simp: ws_def dropWhile_eq_Nil_conv)
      have "last ws = last xs"
        using ws unfolding ws_def by (metis last_appendR takeWhile_dropWhile_id)
      then have "word_at letter kw ws run ys" using "2.prems" lst by (simp add: word_at_def)
      moreover have split: "takeWhile ?word (xs @ run @ ys) = takeWhile ?word xs"
        "dropWhile ?word (xs @ run @ ys) = ws @ run @ ys"
        using lst False by (auto simp: ws_def intro!: takeWhile_append1 dropWhile_append1 [of "last xs"])
      ultimately have "(pos + length (bytes_of (takeWhile ?word xs)) + length (bytes_of ws),
          pos + length (bytes_of (takeWhile ?word xs)) + length (bytes_of (ws @ run))) \<in>
          set (keyword_spans letter kw (pos + length (bytes_of (takeWhile ?word xs))) (ws @ run @ ys))"
        using "2.hyps"(2) [OF refl _ refl refl, of ws] True unfolding "2.hyps"(3) by simp
      moreover have "set (keyword_spans letter kw (pos + length (bytes_of (takeWhile ?word xs))) (ws @ run @ ys))
          \<subseteq> set (keyword_spans letter kw pos (r # rs))"
        using keyword_spans_skip [OF True, of kw pos rs] unfolding "2.hyps"(3) split .
      moreover have "bytes_of xs = bytes_of (takeWhile ?word xs) @ bytes_of ws"
        unfolding ws_def by (metis bytes_of_append takeWhile_dropWhile_id)
      ultimately show ?thesis unfolding "2.hyps"(3) [symmetric] by (auto simp: add.assoc)
    next
      case notword: False
      have "word_at letter kw xs' run ys" using "2.prems" xs by (auto simp: word_at_def split: if_splits)
      from "2.hyps"(1) [OF refl _ xs(2) this] notword show ?thesis by (simp add: xs add.assoc)
    qed
  qed
qed

lemma keyword_spans_bounds:
  "(a, b) \<in> set (keyword_spans letter kw pos rs) \<Longrightarrow> \<forall>r \<in> set rs. snd r \<noteq> [] \<Longrightarrow>
    pos \<le> a \<and> a < b \<and> b \<le> pos + length (bytes_of rs)"
proof (induction letter kw pos rs rule: keyword_spans.induct)
  case (2 letter kw pos r rs)
  let ?word = "\<lambda>r. isWordRune letter (fst r)"
  show ?case
  proof (cases "?word r")
    case True
    let ?run = "bytes_of (takeWhile ?word (r # rs))" and ?rest = "dropWhile ?word (r # rs)"
    have len: "length (bytes_of (r # rs)) = length ?run + length (bytes_of ?rest)"
      by (metis bytes_of_append length_append takeWhile_dropWhile_id)
    have "0 < length ?run" using True "2.prems"(2) by simp
    moreover have "\<forall>x \<in> set ?rest. snd x \<noteq> []" using "2.prems"(2) set_dropWhileD by fastforce
    moreover have "(a, b) = (pos, pos + length ?run) \<or>
        (a, b) \<in> set (keyword_spans letter kw (pos + length ?run) ?rest)"
      using "2.prems"(1) True by (auto simp: Let_def split: if_splits)
    ultimately show ?thesis using "2.IH"(2) [OF refl _ refl refl] True len by fastforce
  next
    case False
    then show ?thesis using "2.IH"(1) [OF refl] "2.prems" by (auto simp: Let_def)
  qed
qed simp


text \<open>What \<^verbatim>\<open>FindAllStringIndex\<close> documents of the spans it returns.\<close>

definition regex_ok :: "regex \<Rightarrow> bool" where
  "regex_ok re = (\<forall>s. \<forall>(a, b) \<in> set (FindAllStringIndex re s). a \<le> b \<and> b \<le> length s)"

lemma raw_spans_ok:
  assumes "\<forall>re \<in> set res. regex_ok re"
  shows "spans_ok (length body) (raw_spans letter body kw res)"
proof -
  have "a < b \<and> b \<le> length body" if "(a, b) \<in> set (keyword_spans letter kw 0 (runes body))" for a b
    using keyword_spans_bounds [OF that] runes_nonempty by auto
  moreover have "a < b \<and> b \<le> length body"
    if "re \<in> set res" "(a, b) \<in> set (FindAllStringIndex re body)" "a \<noteq> b" for re a b
    using that assms by (fastforce simp: regex_ok_def)
  ultimately show ?thesis by (auto simp: spans_ok_def raw_spans_def)
qed

text \<open>
  C7. Masking a text hides exactly the matched bytes: what remains as plain text is the text without
  the bytes of the matched spans, in order, and what the mask tokens reveal put back in place is the
  original text. A listed word standing as a whole word is always among the matched spans.
\<close>

theorem mask_exact:
  assumes "\<forall>re \<in> set res. regex_ok re"
  shows "shown (splitMasked body 0 (collectSpans letter body kw res)) =
      map ((!) body) (filter (\<lambda>i. i \<notin> covered (raw_spans letter body kw res)) [0 ..< length body])
    \<and> original (splitMasked body 0 (collectSpans letter body kw res)) = body
    \<and> (\<forall>xs run ys. runes body = xs @ run @ ys \<longrightarrow> word_at letter kw xs run ys \<longrightarrow>
        {length (bytes_of xs) ..< length (bytes_of (xs @ run))} \<subseteq> covered (raw_spans letter body kw res))"
proof (intro conjI allI impI)
  have m: "in_order (length body) 0 (collectSpans letter body kw res)"
    "covered (collectSpans letter body kw res) = covered (raw_spans letter body kw res)"
    using mergeSpans_ok [OF raw_spans_ok [OF assms]] by (simp_all add: collectSpans_def)
  show "shown (splitMasked body 0 (collectSpans letter body kw res)) =
      map ((!) body) (filter (\<lambda>i. i \<notin> covered (raw_spans letter body kw res)) [0 ..< length body])"
    using splitMasked_shown [OF m(1)] m(2) by simp
  show "original (splitMasked body 0 (collectSpans letter body kw res)) = body"
    using splitMasked_original [OF m(1)] by simp
  fix xs run ys
  assume r: "runes body = xs @ run @ ys" and w: "word_at letter kw xs run ys"
  then have "kw \<noteq> []" by (auto simp: word_at_def)
  then have "(length (bytes_of xs), length (bytes_of (xs @ run))) \<in> set (raw_spans letter body kw res)"
    using keyword_spans_complete [OF w, of 0] r by (simp add: raw_spans_def)
  then show "{length (bytes_of xs) ..< length (bytes_of (xs @ run))} \<subseteq> covered (raw_spans letter body kw res)"
    by (rule covered_mem)
qed

theorem mask_exact_witness:
  "let out = splitMasked ''a Bad day'' 0 (collectSpans (\<lambda>_. False) ''a Bad day'' [''bad''] [])
   in shown out = ''a  day'' \<and> original out = ''a Bad day''"
proof -
  have "raw_spans (\<lambda>_. False) ''a Bad day'' [''bad''] [] = [(2, 5)]" by code_simp
  moreover have "[0 ..< length ''a Bad day''] = [0, 1, 2, 3, 4, 5, 6, 7, 8]" by code_simp
  ultimately show ?thesis
    using mask_exact [of "[]" "''a Bad day''" "\<lambda>_. False" "[''bad'']"]
    by (simp add: Let_def nth_Cons' numeral_eq_Suc)
qed

subsection \<open>The stage keeps what it must\<close>

lemma maskSegments_frame [frame]:
  "maskSegments letter kw res m = (h, m') \<Longrightarrow>
    m' = m\<lparr>um_Segments := um_Segments m'\<rparr> \<and> (\<not> h \<longrightarrow> m' = m)"
  by (auto simp: maskSegments_def Let_def split: if_splits)

lemma apply_rule_core:
  "apply_rule letter r (m, c) = (m', c') \<Longrightarrow> ev_core (MessageEvent m') = ev_core (MessageEvent m)"
proof -
  have "ev_core (MessageEvent m1) = ev_core (MessageEvent m)"
    if "maskSegments letter (cr_keywords r) (cr_regexes r) m = (h, m1)" for h m1
    using maskSegments_frame [OF that] by (metis ev_core_Segments)
  then show "apply_rule letter r (m, c) = (m', c') \<Longrightarrow> ?thesis"
    by (auto simp: apply_rule_def Let_def split: if_splits Action.splits prod.splits)
qed

lemma filter_core: "ev_core (MessageEvent (filter_Annotate letter rs m)) = ev_core (MessageEvent m)"
proof -
  have "ev_core (MessageEvent (fst (fold (apply_rule letter) rs (m, c)))) = ev_core (MessageEvent m)" for c
  proof (induction rs arbitrary: m c)
    case (Cons r rs)
    obtain m1 c1 where 1: "apply_rule letter r (m, c) = (m1, c1)" by fastforce
    then show ?case using Cons.IH [of m1 c1] apply_rule_core [OF 1] by simp
  qed simp
  then show ?thesis by (simp add: filter_Annotate_def)
qed

interpretation filter_ok: annotation_stage "filter_stage letter"
  by unfold_locales (auto simp: filter_stage_def filter_core)


text \<open>The hide and highlight rules that match a message with a given body.\<close>

definition rule_hits :: "UnifiedMessage \<Rightarrow> compiledRule \<Rightarrow> bool" where
  "rule_hits m r = (scopeMatches r m \<and> textHit r (PlainText m) (to_lower (PlainText m)))"

definition cache_ok :: "UnifiedMessage \<Rightarrow> (string \<times> string) option \<Rightarrow> bool" where
  "cache_ok m c = (\<forall>x. c = Some x \<longrightarrow> x = (PlainText m, to_lower (PlainText m)))"

lemma hit_cached_ok:
  assumes "cache_ok m c"
  shows "fst (hit_cached r m c) = textHit r (PlainText m) (to_lower (PlainText m))"
    and "cache_ok m (snd (hit_cached r m c))"
  using assms by (auto simp: hit_cached_def needsText_def textHit_def cache_ok_def Let_def split: option.splits)

lemma frame_Annotate [simp]:
  "scopeMatches r (Annotate f m) = scopeMatches r m" "PlainText (Annotate f m) = PlainText m"
  "rule_hits (Annotate f m) r = rule_hits m r" "cache_ok (Annotate f m) c = cache_ok m c"
  by (simp_all add: scopeMatches_def PlainText_def rule_hits_def cache_ok_def)

lemma apply_rule_annotation:
  assumes "cr_action r \<noteq> ActionMask" "cache_ok m c"
  shows "\<exists>f c'. apply_rule letter r (m, c) = ((if rule_hits m r \<and> cr_action r \<in> {ActionHide, ActionHighlight}
      then Annotate f m else m), c') \<and> cache_ok m c'
      \<and> (cr_action r = ActionHide \<longrightarrow> f = (\<lambda>an. an\<lparr>an_Hidden := True\<rparr>))
      \<and> (cr_action r = ActionHighlight \<longrightarrow> f = (\<lambda>an. an\<lparr>an_Highlight := cr_id r\<rparr>))"
  using assms hit_cached_ok [OF assms(2), of r]
  by (cases "cr_action r") (auto simp: apply_rule_def Let_def rule_hits_def split: prod.splits)

definition highlights :: "UnifiedMessage \<Rightarrow> Ruleset \<Rightarrow> string list" where
  "highlights m rs = map cr_id (filter (\<lambda>r. cr_action r = ActionHighlight \<and> rule_hits m r) rs)"

lemma apply_rules_annotation:
  "\<forall>r \<in> set rs. cr_action r \<noteq> ActionMask \<Longrightarrow> cache_ok m c \<Longrightarrow>
    (let a = annotation (fst (fold (apply_rule letter) rs (m, c))) in
      a = (annotation m)\<lparr>an_Hidden := an_Hidden (annotation m) \<or> (\<exists>r \<in> set rs. cr_action r = ActionHide \<and> rule_hits m r),
        an_Highlight := last (an_Highlight (annotation m) # highlights m rs)\<rparr>)"
proof (induction rs arbitrary: m c)
  case (Cons r rs)
  obtain f c' where f: "apply_rule letter r (m, c) = ((if rule_hits m r \<and> cr_action r \<in> {ActionHide, ActionHighlight}
      then Annotate f m else m), c')" "cache_ok m c'"
    "cr_action r = ActionHide \<Longrightarrow> f = (\<lambda>an. an\<lparr>an_Hidden := True\<rparr>)"
    "cr_action r = ActionHighlight \<Longrightarrow> f = (\<lambda>an. an\<lparr>an_Highlight := cr_id r\<rparr>)"
    using apply_rule_annotation [of r m c letter] Cons.prems by auto
  have h: "highlights (Annotate f m) rs = highlights m rs" by (simp add: highlights_def)
  have rest: "\<forall>r \<in> set rs. cr_action r \<noteq> ActionMask" using Cons.prems by simp
  show ?case
  proof (cases "rule_hits m r \<and> cr_action r \<in> {ActionHide, ActionHighlight}")
    case True
    then have "fold (apply_rule letter) (r # rs) (m, c) = fold (apply_rule letter) rs (Annotate f m, c')"
      using f(1) by simp
    then show ?thesis
      using Cons.IH [OF rest, of "Annotate f m" c'] f True h by (auto simp: Let_def highlights_def)
  next
    case False
    then have "fold (apply_rule letter) (r # rs) (m, c) = fold (apply_rule letter) rs (m, c')" using f(1) by auto
    then show ?thesis
      using Cons.IH [OF rest f(2)] False by (auto simp: Let_def highlights_def)
  qed
qed (simp add: highlights_def)

text \<open>
  A ruleset of hide and highlight rules does to a message exactly this: it is hidden if it was or
  if some hide rule matches its scope and body, its highlight is the id of the last matching
  highlight rule, and no other annotation and no segment changes.
\<close>

theorem filter_annotations:
  assumes "\<forall>r \<in> set rs. cr_action r \<noteq> ActionMask"
  shows "annotation (filter_Annotate letter rs m) = (annotation m)\<lparr>
      an_Hidden := an_Hidden (annotation m) \<or> (\<exists>r \<in> set rs. cr_action r = ActionHide \<and> rule_hits m r),
      an_Highlight := last (an_Highlight (annotation m) # highlights m rs)\<rparr>"
  using apply_rules_annotation [OF assms, of m None letter]
  by (simp add: filter_Annotate_def Let_def cache_ok_def)

definition keyword_rule :: "string \<Rightarrow> Action \<Rightarrow> string \<Rightarrow> compiledRule" where
  "keyword_rule rid act kw = \<lparr>cr_id = rid, cr_action = act, cr_platforms = [], cr_channels = [], cr_authors = [],
     cr_types = [], cr_keywords = [kw], cr_regexes = []\<rparr>"

theorem filter_annotations_witness:
  "let m = chat_message (twitch_channel ''v'') [] ''ann'' ''Hello Bob'';
       a = annotation (filter_Annotate (\<lambda>_. False)
         [keyword_rule ''1'' ActionHide ''spam'', keyword_rule ''2'' ActionHighlight ''bob''] m)
   in \<not> an_Hidden a \<and> an_Highlight a = ''2''"
proof -
  let ?m = "chat_message (twitch_channel ''v'') [] ''ann'' ''Hello Bob''"
  have "rule_hits ?m (keyword_rule ''1'' ActionHide ''spam'') = False"
    "rule_hits ?m (keyword_rule ''2'' ActionHighlight ''bob'') = True" by code_simp+
  moreover have "annotation ?m = no_annotations" by (simp add: chat_message_def annotation_def)
  ultimately show ?thesis
    using filter_annotations [of "[keyword_rule ''1'' ActionHide ''spam'', keyword_rule ''2'' ActionHighlight ''bob'']"
        "\<lambda>_. False" ?m]
    by (simp add: Let_def highlights_def keyword_rule_def no_annotations_def)
qed

text \<open>
  The lazily cached body makes a hide rule's answer depend on rules before it that do not match: after
  a mask rule, it reads the masked text, unless an earlier rule with a text term had already read the
  original.
\<close>

theorem hide_after_mask:
  "let m = chat_message (twitch_channel ''v'') [] ''ann'' ''a bad day'';
       mask = keyword_rule ''m'' ActionMask ''bad''; hide = keyword_rule ''h'' ActionHide ''bad'';
       other = keyword_rule ''o'' ActionHighlight ''zzz''
   in \<not> an_Hidden (annotation (filter_Annotate (\<lambda>_. False) [mask, hide] m))
     \<and> an_Hidden (annotation (filter_Annotate (\<lambda>_. False) [other, mask, hide] m))"
  by code_simp

text \<open>A listed phrase is never masked: the text is looked up one word at a time.\<close>

theorem phrase_not_masked:
  "collectSpans (\<lambda>_. False) ''a bad word here'' [''bad word''] [] = []"
  by code_simp

end
