(* ===== verification/Segment.thy ===== *)
theory Segment
  imports Platform
begin

text \<open>
  \<^verbatim>\<open>internal/platform/segment\<close>: splitting plain message text into text, mention and link segments.

  \<^verbatim>\<open>Text\<close> here and \<^verbatim>\<open>applyEmotes\<close> of the emote stage are the same loop over space-delimited tokens with
  a text buffer; \<open>carve\<close> is that loop, its argument the decision for one token: None appends the token
  to the buffer, \<open>Some (s, rest)\<close> flushes the buffer, emits \<open>s\<close> and goes on with \<open>rest\<close> in the buffer.
\<close>

subsection \<open>The token loop\<close>

abbreviation space :: char where "space \<equiv> CHR '' ''"

function tokens :: "string \<Rightarrow> string list" where
  "tokens [] = []"
| "tokens (c # s) = (if c = space then [c] # tokens s
     else takeWhile (\<lambda>x. x \<noteq> space) (c # s) # tokens (dropWhile (\<lambda>x. x \<noteq> space) (c # s)))"
  by pat_completeness auto
termination
  by (relation "measure length") (auto simp: less_Suc_eq_le length_dropWhile_le)

definition flush :: "string \<Rightarrow> Segment list" where
  "flush buf = (if buf = [] then [] else [seg SegText buf])"

fun carve :: "(string \<Rightarrow> (Segment \<times> string) option) \<Rightarrow> string \<Rightarrow> string list \<Rightarrow> Segment list" where
  "carve f buf [] = flush buf"
| "carve f buf (t # ts) =
    (if t = [space] then carve f (buf @ t) ts
     else (case f t of
       None \<Rightarrow> carve f (buf @ t) ts
     | Some (s, rest) \<Rightarrow> flush buf @ s # carve f rest ts))"

lemma concat_tokens [simp]: "concat (tokens s) = s"
  by (induction s rule: tokens.induct) (auto simp: takeWhile_dropWhile_id)

lemma seg_text_flush [simp]: "seg_text (flush buf) = buf"
  by (simp add: flush_def)

lemma tokens_nonempty: "t \<in> set (tokens s) \<Longrightarrow> t \<noteq> []"
  by (induction s rule: tokens.induct) (auto split: if_splits)

text \<open>A token is a single space or a word, and a word holds no space.\<close>

lemma tokens_word: "t \<in> set (tokens s) \<Longrightarrow> t = [space] \<or> space \<notin> set t"
  by (induction s rule: tokens.induct) (auto split: if_splits dest: set_takeWhileD)

text \<open>The contract of a token decision: what it emits and leaves over is the token.\<close>

locale carver =
  fixes decide :: "string \<Rightarrow> (Segment \<times> string) option"
  assumes text_kept: "decide t = Some (s, rest) \<Longrightarrow> sg_Text s @ rest = t"
    and emits_special: "decide t = Some (s, rest) \<Longrightarrow> sg_Kind s \<noteq> SegText \<and> sg_Text s \<noteq> []"
begin

lemma carve_exact: "seg_text (carve decide buf ts) = buf @ concat ts"
  by (induction ts arbitrary: buf)
    (auto split: option.splits dest: text_kept)

lemma carve_nonempty: "s \<in> set (carve decide buf ts) \<Longrightarrow> sg_Text s \<noteq> []"
  by (induction ts arbitrary: buf)
    (auto simp: flush_def split: option.splits if_splits dest: emits_special)

text \<open>Text is coalesced: no two text segments are neighbours.\<close>

lemma carve_coalesced:
  "successively (\<lambda>s s'. \<not> (sg_Kind s = SegText \<and> sg_Kind s' = SegText)) (carve decide buf ts)"
proof (induction ts arbitrary: buf)
  case (Cons t ts)
  show ?case
  proof (cases "t = [space] \<or> decide t = None")
    case True
    then show ?thesis using Cons.IH [of "buf @ t"] by auto
  next
    case False
    then obtain s rest where s: "decide t = Some (s, rest)" "t \<noteq> [space]" by auto
    then have "sg_Kind s \<noteq> SegText" by (simp add: emits_special)
    then show ?thesis using s Cons.IH [of rest] by (auto simp: flush_def successively_Cons)
  qed
qed (simp add: flush_def)

text \<open>Every segment that is not text was emitted for a token.\<close>

lemma carve_emitted:
  "s \<in> set (carve decide buf ts) \<Longrightarrow> sg_Kind s \<noteq> SegText \<Longrightarrow>
    \<exists>t rest. t \<in> set ts \<and> t \<noteq> [space] \<and> decide t = Some (s, rest)"
  by (induction ts arbitrary: buf)
    (auto simp: flush_def split: option.splits if_splits, blast+)

text \<open>And every token the decision takes is emitted.\<close>

lemma carve_takes:
  "t \<in> set ts \<Longrightarrow> t \<noteq> [space] \<Longrightarrow> decide t = Some (s, rest) \<Longrightarrow> s \<in> set (carve decide buf ts)"
  by (induction ts arbitrary: buf) (auto split: option.splits if_splits)

end

subsection \<open>Mentions and links\<close>

definition isLink :: "string \<Rightarrow> bool" where
  "isLink tok = (has_prefix tok ''http://'' \<or> has_prefix tok ''https://'')"

definition isUserChar :: "char \<Rightarrow> bool" where
  "isUserChar b = (b = CHR ''_'' \<or> (97 \<le> byte b \<and> byte b \<le> 122) \<or> (65 \<le> byte b \<and> byte b \<le> 90)
     \<or> (48 \<le> byte b \<and> byte b \<le> 57))"

definition mentionLen :: "string \<Rightarrow> nat" where
  "mentionLen tok = 1 + length (takeWhile isUserChar (tl tok))"

definition text_token :: "string \<Rightarrow> (Segment \<times> string) option" where
  "text_token tok =
    (if isLink tok then Some (seg SegLink tok, [])
     else if tok \<noteq> [] \<and> hd tok = CHR ''@'' then
       (let n = mentionLen tok in
        if n > 1 then Some (seg SegMention (take n tok), drop n tok) else None)
     else None)"

definition Text :: "string \<Rightarrow> Segment list" where
  "Text s = carve text_token [] (tokens s)"

interpretation text_carver: carver text_token
  by unfold_locales
    (auto simp: text_token_def isLink_def has_prefix_def Let_def mentionLen_def split: if_splits)

lemma mention_take:
  assumes "hd tok = CHR ''@''" "mentionLen tok > 1"
  shows "\<exists>u. u \<noteq> [] \<and> take (mentionLen tok) tok = CHR ''@'' # u \<and> list_all isUserChar u"
proof (cases tok)
  case (Cons c t)
  then have "take (mentionLen tok) tok = CHR ''@'' # takeWhile isUserChar t"
    using assms by (simp add: mentionLen_def takeWhile_eq_take [symmetric])
  moreover have "takeWhile isUserChar t \<noteq> []" using assms Cons by (auto simp: mentionLen_def)
  ultimately show ?thesis by (auto simp: list_all_iff dest: set_takeWhileD)
qed (use assms in \<open>simp add: mentionLen_def\<close>)

text \<open>
  Segmenting loses nothing: the segments' texts concatenate to the input, none is empty, no two
  text segments are neighbours, and every other segment is a link (starting with \<open>http://\<close> or
  \<open>https://\<close>) or a mention (an at sign and at least one user-name character, nothing else).
\<close>

theorem Text_segments:
  "seg_text (Text s) = s
    \<and> [] \<notin> set (map sg_Text (Text s))
    \<and> successively (\<lambda>x y. \<not> (sg_Kind x = SegText \<and> sg_Kind y = SegText)) (Text s)
    \<and> list_all (\<lambda>x. sg_Kind x = SegText \<or> (sg_Kind x = SegLink \<and> isLink (sg_Text x))
        \<or> (sg_Kind x = SegMention \<and> hd (sg_Text x) = CHR ''@'' \<and> tl (sg_Text x) \<noteq> []
           \<and> list_all isUserChar (tl (sg_Text x)))) (Text s)"
proof (intro conjI)
  show "list_all (\<lambda>x. sg_Kind x = SegText \<or> (sg_Kind x = SegLink \<and> isLink (sg_Text x))
        \<or> (sg_Kind x = SegMention \<and> hd (sg_Text x) = CHR ''@'' \<and> tl (sg_Text x) \<noteq> []
           \<and> list_all isUserChar (tl (sg_Text x)))) (Text s)"
  proof (unfold list_all_iff, intro ballI)
    fix x
    assume x: "x \<in> set (Text s)"
    show "sg_Kind x = SegText \<or> (sg_Kind x = SegLink \<and> isLink (sg_Text x))
        \<or> (sg_Kind x = SegMention \<and> hd (sg_Text x) = CHR ''@'' \<and> tl (sg_Text x) \<noteq> []
           \<and> (\<forall>c \<in> set (tl (sg_Text x)). isUserChar c))"
    proof (cases "sg_Kind x = SegText")
      case False
      then obtain t rest where "text_token t = Some (x, rest)"
        using x text_carver.carve_emitted unfolding Text_def by blast
      then show ?thesis
        using mention_take [of t]
        by (auto simp: text_token_def Let_def list_all_iff split: if_splits)
    qed simp
  qed
  show "[] \<notin> set (map sg_Text (Text s))"
    using text_carver.carve_nonempty by (fastforce simp: Text_def)
  show "successively (\<lambda>x y. \<not> (sg_Kind x = SegText \<and> sg_Kind y = SegText)) (Text s)"
    unfolding Text_def by (rule text_carver.carve_coalesced)
qed (simp add: Text_def text_carver.carve_exact)

text \<open>No segment of plain text is an emote.\<close>

lemma carve_either: "s \<in> set (carve f buf ts) \<Longrightarrow> s \<in> range (seg SegText) \<or> (\<exists>t rest. f t = Some (s, rest))"
proof (induction ts arbitrary: buf)
  case (Cons t ts)
  show ?case
  proof (cases "t = [space] \<or> f t = None")
    case True
    then have "s \<in> set (carve f (buf @ t) ts)" using Cons.prems by (cases "f t") (auto split: if_splits)
    then show ?thesis by (rule Cons.IH)
  next
    case False
    then obtain s' rest where f: "f t = Some (s', rest)" by auto
    then consider "s \<in> set (flush buf)" | "s = s'" | "s \<in> set (carve f rest ts)" using False Cons.prems by auto
    then show ?thesis by cases (use f Cons.IH [of rest] in \<open>auto simp: flush_def split: if_splits\<close>)
  qed
qed (simp add: flush_def split: if_splits)

lemma Text_no_emote: "s \<in> set (Text t) \<Longrightarrow> sg_Emote s = None"
  unfolding Text_def using carve_either [of s text_token "[]" "tokens t"]
  by (auto simp: text_token_def Let_def split: if_splits)

lemma seg_text_Text [simp]: "seg_text (Text s) = s"
  by (simp add: Text_segments)

end
