(* ===== verification/Emotes.thy ===== *)
theory Emotes
  imports Segment Pipeline
begin

text \<open>
  \<^verbatim>\<open>internal/emotes\<close>: the per-channel emote snapshots, their resolver and the annotation stage
  (\<^verbatim>\<open>emotes.go\<close>), and the caching provider (\<^verbatim>\<open>cache.go\<close>).

  A provider's \<^verbatim>\<open>Fetch\<close> is network code, here a function of the channel that may fail; the cache's \<^verbatim>\<open>Get\<close>
  and \<^verbatim>\<open>Put\<close> are those of a key-value store. A resolver's published snapshots are one map from channel
  key to set; a channel without one reads as the empty set.
\<close>

subsection \<open>Sets\<close>

definition emotes_Key :: "ChannelRef \<Rightarrow> string" where
  "emotes_Key ch = ch_Platform ch @ '':'' @ ch_Slug ch"

type_synonym emote_set = "(string \<times> EmoteRef) list"

definition emote_Lookup :: "emote_set \<Rightarrow> string \<Rightarrow> EmoteRef option" where
  "emote_Lookup s name = map_of s name"

definition emote_Len :: "emote_set \<Rightarrow> nat" where
  "emote_Len s = length s"

definition emote_Entries :: "emote_set \<Rightarrow> EmoteRef list" where
  "emote_Entries s = map snd s"

definition merge_one :: "EmoteRef \<Rightarrow> emote_set \<Rightarrow> emote_set" where
  "merge_one e s = (if em_Name e = [] then s
     else (case map_of s (em_Name e) of None \<Rightarrow> s @ [(em_Name e, e)] | Some _ \<Rightarrow> s))"

definition emotes_merge :: "EmoteRef list list \<Rightarrow> emote_set" where
  "emotes_merge groups = fold (fold merge_one) groups []"

subsection \<open>The resolver\<close>

record emote_provider =
  ep_Name :: string
  ep_Fetch :: "ChannelRef \<Rightarrow> EmoteRef list option"

record emote_resolver =
  er_providers :: "emote_provider list"
  er_sets :: "string \<rightharpoonup> emote_set"

definition NewEmoteResolver :: "emote_provider list \<Rightarrow> emote_resolver" where
  "NewEmoteResolver ps = \<lparr>er_providers = ps, er_sets = Map.empty\<rparr>"

definition emotes_Snapshot :: "emote_resolver \<Rightarrow> string \<Rightarrow> emote_set" where
  "emotes_Snapshot r key = (case er_sets r key of None \<Rightarrow> [] | Some s \<Rightarrow> s)"

definition emotes_Refresh :: "ChannelRef \<Rightarrow> emote_resolver \<Rightarrow> emote_set \<times> emote_resolver" where
  "emotes_Refresh ch r =
    (let groups = List.map_filter (\<lambda>p. ep_Fetch p ch) (er_providers r);
         s = emotes_merge groups
     in (s, r\<lparr>er_sets := (er_sets r)(emotes_Key ch \<mapsto> s)\<rparr>))"

subsection \<open>The stage\<close>

definition emote_token :: "emote_set \<Rightarrow> string \<Rightarrow> (Segment \<times> string) option" where
  "emote_token s word = (case emote_Lookup s word of
     None \<Rightarrow> None | Some e \<Rightarrow> Some ((seg SegEmote word)\<lparr>sg_Emote := Some e\<rparr>, []))"

definition containsEmote :: "string \<Rightarrow> emote_set \<Rightarrow> bool" where
  "containsEmote body s = list_ex (\<lambda>t. t \<noteq> [space] \<and> emote_Lookup s t \<noteq> None) (tokens body)"

definition applyEmotes :: "string \<Rightarrow> emote_set \<Rightarrow> Segment list option" where
  "applyEmotes body s = (if \<not> containsEmote body s then None
     else Some (carve (emote_token s) [] (tokens body)))"

text \<open>A segment list is rebuilt only when some text segment changed; unchanged, it is the old one.\<close>

definition emotes_Annotate :: "emote_resolver \<Rightarrow> UnifiedMessage \<Rightarrow> UnifiedMessage" where
  "emotes_Annotate r msg =
    (let s = emotes_Snapshot r (emotes_Key (um_Channel msg)) in
     if emote_Len s = 0 then msg
     else
       let parts = map (\<lambda>sg. (sg, if sg_Kind sg = SegText then applyEmotes (sg_Text sg) s else None)) (um_Segments msg);
           changed = list_ex (\<lambda>(_, repl). repl \<noteq> None) parts
       in if changed
          then msg\<lparr>um_Segments := concat (map (\<lambda>(sg, repl). case repl of None \<Rightarrow> [sg] | Some ss \<Rightarrow> ss) parts)\<rparr>
          else msg)"

definition emotes_stage :: "emote_resolver stage" where
  "emotes_stage r msg = (StageOk (emotes_Annotate r msg), r)"

subsection \<open>The caching provider\<close>

definition EmoteTTL :: duration where
  "EmoteTTL = 24 * 60 * minute"

type_synonym set_cache = "string \<rightharpoonup> EmoteRef list \<times> time"

definition cache_ttl :: "duration \<Rightarrow> duration" where
  "cache_ttl ttl = (if ttl \<le> 0 then EmoteTTL else ttl)"

definition cached_Fetch :: "emote_provider \<Rightarrow> duration \<Rightarrow> time \<Rightarrow> ChannelRef \<Rightarrow> set_cache \<Rightarrow>
    EmoteRef list option \<times> set_cache" where
  "cached_Fetch inner ttl now ch cache =
    (let key = ep_Name inner @ '':'' @ ch_Platform ch @ '':'' @ ch_ID ch in
     case cache key of
       Some (cached, fetchedAt) \<Rightarrow>
         if time_sub now fetchedAt < cache_ttl ttl then (Some cached, cache)
         else (case ep_Fetch inner ch of
                 None \<Rightarrow> (Some cached, cache)
               | Some fresh \<Rightarrow> (Some fresh, cache(key \<mapsto> (fresh, now))))
     | None \<Rightarrow> (case ep_Fetch inner ch of
                 None \<Rightarrow> (None, cache)
               | Some fresh \<Rightarrow> (Some fresh, cache(key \<mapsto> (fresh, now)))))"

subsection \<open>Precedence\<close>

lemma merge_one_lookup:
  "map_of (merge_one e s) n = (if n \<noteq> [] \<and> n = em_Name e \<and> map_of s n = None then Some e else map_of s n)"
  by (auto simp: merge_one_def map_add_def split: option.splits)

lemma merge_fold_lookup:
  "n \<noteq> [] \<Longrightarrow> map_of (fold merge_one es s) n =
    (case map_of s n of Some e \<Rightarrow> Some e | None \<Rightarrow> find (\<lambda>e. em_Name e = n) es)"
  by (induction es arbitrary: s) (auto simp: merge_one_lookup split: option.splits)

lemma emotes_merge_concat: "emotes_merge groups = fold merge_one (concat groups) []"
proof -
  have "fold (fold merge_one) groups s = fold merge_one (concat groups) s" for s
    by (induction groups arbitrary: s) auto
  then show ?thesis by (simp add: emotes_merge_def)
qed

lemma merge_lookup:
  "emote_Lookup (emotes_merge groups) n = (if n = [] then None else find (\<lambda>e. em_Name e = n) (concat groups))"
proof (cases "n = []")
  case True
  have "map_of s [] = None \<Longrightarrow> map_of (fold merge_one es s) [] = None" for es s
    by (induction es arbitrary: s) (auto simp: merge_one_lookup)
  then show ?thesis by (simp add: True emote_Lookup_def emotes_merge_concat)
qed (simp add: emote_Lookup_def emotes_merge_concat merge_fold_lookup)

text \<open>
  After a refresh the channel's snapshot answers every name with the first emote of that name in
  provider order, taking only the providers that answered: a failing provider removes its own emotes
  and nothing else, and the snapshots of other channels do not change.
\<close>

theorem refresh_precedence:
  "emote_Lookup (emotes_Snapshot (snd (emotes_Refresh ch r)) (emotes_Key ch)) n =
      (if n = [] then None
       else find (\<lambda>e. em_Name e = n) (concat (List.map_filter (\<lambda>p. ep_Fetch p ch) (er_providers r))))
    \<and> (key = emotes_Key ch \<or> emotes_Snapshot (snd (emotes_Refresh ch r)) key = emotes_Snapshot r key)"
  by (simp add: emotes_Refresh_def emotes_Snapshot_def Let_def merge_lookup)

subsection \<open>The stage keeps the text\<close>

lemma emote_token_carver: "emote_Lookup s [] = None \<Longrightarrow> carver (emote_token s)"
  by unfold_locales (auto simp: emote_token_def split: option.splits)

text \<open>Snapshots come from \<open>merge\<close>, which never keeps an empty name.\<close>

definition sets_ok :: "emote_resolver \<Rightarrow> bool" where
  "sets_ok r = (\<forall>key s. er_sets r key = Some s \<longrightarrow> emote_Lookup s [] = None)"

lemma sets_ok_new: "sets_ok (NewEmoteResolver ps)"
  by (simp add: sets_ok_def NewEmoteResolver_def)

lemma sets_ok_refresh: "sets_ok r \<Longrightarrow> sets_ok (snd (emotes_Refresh ch r))"
  by (simp add: sets_ok_def emotes_Refresh_def Let_def merge_lookup)

lemma snapshot_ok: "sets_ok r \<Longrightarrow> emote_Lookup (emotes_Snapshot r key) [] = None"
  by (auto simp: sets_ok_def emotes_Snapshot_def emote_Lookup_def split: option.splits)

lemma applyEmotes_exact:
  assumes "emote_Lookup s [] = None" "applyEmotes body s = Some ss"
  shows "seg_text ss = body"
  using assms carver.carve_exact [OF emote_token_carver [OF assms(1)]]
  by (auto simp: applyEmotes_def split: if_splits)

lemma emotes_Annotate_frame: "emotes_Annotate r m = m\<lparr>um_Segments := um_Segments (emotes_Annotate r m)\<rparr>"
  by (simp add: emotes_Annotate_def Let_def)

interpretation emotes_ok: annotation_stage emotes_stage
proof
  fix w m m' w'
  assume "emotes_stage w m = (StageOk m', w')"
  then have "m' = emotes_Annotate w m" by (auto simp: emotes_stage_def)
  then show "ev_core (MessageEvent m') = ev_core (MessageEvent m)"
    using emotes_Annotate_frame [of w m] by (metis ev_core_Segments)
qed

lemma emotes_text:
  assumes "sets_ok r"
  shows "PlainText (emotes_Annotate r m) = PlainText m"
proof -
  let ?s = "emotes_Snapshot r (emotes_Key (um_Channel m))"
  have "seg_text (concat (map (\<lambda>sg. case if sg_Kind sg = SegText then applyEmotes (sg_Text sg) ?s else None of
      None \<Rightarrow> [sg] | Some ss \<Rightarrow> ss) segs)) = seg_text segs" for segs
    using applyEmotes_exact [OF snapshot_ok [OF assms]]
    by (induction segs) (auto split: option.splits)
  then show ?thesis by (simp add: PlainText_def emotes_Annotate_def Let_def comp_def)
qed

text \<open>
  Emote resolution never changes what a message says: the plain text of an annotated message is
  the plain text it came with, and every emote segment it adds is a whole word of a text segment that
  the channel's snapshot lists, carrying the emote the snapshot answers for it.
\<close>

theorem emotes_keep_text:
  assumes "sets_ok r"
  shows "PlainText (emotes_Annotate r m) = PlainText m
    \<and> (\<forall>sg \<in> set (um_Segments (emotes_Annotate r m)). sg \<in> set (um_Segments m) \<or> sg_Kind sg = SegText
        \<or> (space \<notin> set (sg_Text sg)
           \<and> sg_Emote sg = emote_Lookup (emotes_Snapshot r (emotes_Key (um_Channel m))) (sg_Text sg)
           \<and> sg_Emote sg \<noteq> None))"
proof (intro conjI ballI)
  let ?s = "emotes_Snapshot r (emotes_Key (um_Channel m))"
  show "PlainText (emotes_Annotate r m) = PlainText m" by (rule emotes_text [OF assms])
  fix sg
  assume sg: "sg \<in> set (um_Segments (emotes_Annotate r m))"
  show "sg \<in> set (um_Segments m) \<or> sg_Kind sg = SegText
      \<or> (space \<notin> set (sg_Text sg) \<and> sg_Emote sg = emote_Lookup ?s (sg_Text sg) \<and> sg_Emote sg \<noteq> None)"
  proof (cases "sg \<in> set (um_Segments m) \<or> sg_Kind sg = SegText")
    case False
    with sg obtain body ss where "applyEmotes body ?s = Some ss" "sg \<in> set ss"
      by (auto simp: emotes_Annotate_def Let_def split: if_splits option.splits)
    then have "sg \<in> set (carve (emote_token ?s) [] (tokens body))" by (auto simp: applyEmotes_def split: if_splits)
    then obtain t rest where "t \<in> set (tokens body)" "t \<noteq> [space]" "emote_token ?s t = Some (sg, rest)"
      using carver.carve_emitted [OF emote_token_carver [OF snapshot_ok [OF assms]]] False by blast
    then show ?thesis using tokens_word [of t body] by (auto simp: emote_token_def split: option.splits)
  qed blast
qed


definition emote_named :: "string \<Rightarrow> EmoteRef" where
  "emote_named n = \<lparr>em_Provider = ''7tv'', em_ID = n, em_Name = n, em_URLTemplate = [], em_Animated = False\<rparr>"

theorem emotes_keep_text_witness:
  "let r = snd (emotes_Refresh (twitch_channel ''v'') (NewEmoteResolver [\<lparr>ep_Name = ''7tv'', ep_Fetch = (\<lambda>_. Some [emote_named ''Kappa''])\<rparr>]));
       m = emotes_Annotate r (chat_message (twitch_channel ''v'') [] ''ann'' ''hi  Kappa !'')
   in PlainText m = ''hi  Kappa !'' \<and> map sg_Kind (um_Segments m) = [SegText, SegEmote, SegText]"
proof -
  let ?p = "\<lparr>ep_Name = ''7tv'', ep_Fetch = (\<lambda>_. Some [emote_named ''Kappa''])\<rparr>"
  let ?r = "snd (emotes_Refresh (twitch_channel ''v'') (NewEmoteResolver [?p]))"
  let ?m = "chat_message (twitch_channel ''v'') [] ''ann'' ''hi  Kappa !''"
  have "sets_ok ?r" by (intro sets_ok_refresh sets_ok_new)
  then have "PlainText (emotes_Annotate ?r ?m) = PlainText ?m" using emotes_keep_text by blast
  moreover have "PlainText ?m = ''hi  Kappa !''" by (simp add: PlainText_def chat_message_def)
  moreover have "map sg_Kind (um_Segments (emotes_Annotate ?r ?m)) = [SegText, SegEmote, SegText]" by code_simp
  ultimately show ?thesis by (simp add: Let_def)
qed

text \<open>A cached provider answers from any cached set, fresh or stale, rather than fail.\<close>

lemma cached_Fetch_resilient:
  "cache (ep_Name p @ '':'' @ ch_Platform ch @ '':'' @ ch_ID ch) \<noteq> None \<Longrightarrow>
    fst (cached_Fetch p ttl now ch cache) \<noteq> None"
  by (auto simp: cached_Fetch_def Let_def split: option.splits)

end
