(* ===== verification/Badges.thy ===== *)
theory Badges
  imports Pipeline
begin

text \<open>
  \<^verbatim>\<open>internal/badges\<close>: per-channel badge artwork, its resolver, and the stage that stamps the artwork
  onto a message's badges. The one-shot background fetch the stage starts for a channel without
  artwork is the set \<open>bs_inflight\<close> of keys being fetched; \<open>badges_fetched\<close> is the fetch's completion.
\<close>

subsection \<open>Sets and resolver\<close>

definition badges_Key :: "ChannelRef \<Rightarrow> string" where
  "badges_Key ch = ch_Platform ch @ '':'' @ ch_Slug ch"

definition setKey :: "string \<Rightarrow> string \<Rightarrow> string" where
  "setKey st version = st @ ''/'' @ version"

type_synonym badge_set = "(string \<times> string) list"

definition badge_Lookup :: "badge_set \<Rightarrow> string \<Rightarrow> string \<Rightarrow> string option" where
  "badge_Lookup s st version = map_of s (setKey st version)"

type_synonym badge_provider = "ChannelRef \<Rightarrow> badge_set option"

record badge_resolver =
  br_providers :: "badge_provider list"
  br_sets :: "string \<rightharpoonup> badge_set"

definition badges_Snapshot :: "badge_resolver \<Rightarrow> string \<Rightarrow> badge_set" where
  "badges_Snapshot r key = (case br_sets r key of None \<Rightarrow> [] | Some s \<Rightarrow> s)"

definition badges_Refresh :: "ChannelRef \<Rightarrow> badge_resolver \<Rightarrow> badge_set \<times> badge_resolver" where
  "badges_Refresh ch r =
    (let merged = fold (\<lambda>p merged. case p ch of
           None \<Rightarrow> merged
         | Some m \<Rightarrow> fold (\<lambda>(k, v) s. AList.update k v s) m merged) (br_providers r) []
     in (merged, r\<lparr>br_sets := (br_sets r)(badges_Key ch \<mapsto> merged)\<rparr>))"

subsection \<open>The stage\<close>

record badge_stage =
  bs_resolver :: badge_resolver
  bs_lazy :: bool
  bs_inflight :: "(string \<times> ChannelRef) list"

definition stamp :: "badge_set \<Rightarrow> Badge \<Rightarrow> Badge" where
  "stamp s b = (case badge_Lookup s (bd_Set b) (bd_Version b) of None \<Rightarrow> b | Some url \<Rightarrow> b\<lparr>bd_URL := url\<rparr>)"

definition badges_Annotate :: "badge_stage \<Rightarrow> UnifiedMessage \<Rightarrow> UnifiedMessage \<times> badge_stage" where
  "badges_Annotate st msg =
    (if au_Badges (um_Author msg) = [] then (msg, st)
     else
       let key = badges_Key (um_Channel msg); s = badges_Snapshot (bs_resolver st) key in
       if s = [] then
         (msg, if bs_lazy st \<and> map_of (bs_inflight st) key = None
               then st\<lparr>bs_inflight := (key, um_Channel msg) # bs_inflight st\<rparr> else st)
       else (msg\<lparr>um_Author := (um_Author msg)\<lparr>au_Badges := map (stamp s) (au_Badges (um_Author msg))\<rparr>\<rparr>, st))"

definition badges_stage :: "badge_stage stage" where
  "badges_stage st msg = (let (m, st) = badges_Annotate st msg in (StageOk m, st))"

definition badges_fetched :: "string \<Rightarrow> badge_stage \<Rightarrow> badge_stage" where
  "badges_fetched key st = (case map_of (bs_inflight st) key of
     None \<Rightarrow> st
   | Some ch \<Rightarrow> st\<lparr>bs_resolver := snd (badges_Refresh ch (bs_resolver st)),
                  bs_inflight := AList.delete key (bs_inflight st)\<rparr>)"

subsection \<open>What the stage changes\<close>

lemma ev_core_badges: "ev_core (MessageEvent (m\<lparr>um_Author := (um_Author m)\<lparr>au_Badges := bs\<rparr>\<rparr>)) = ev_core (MessageEvent m)"
  by (simp add: ev_core_def)

interpretation badges_ok: annotation_stage badges_stage
proof
  fix w m m' w'
  assume "badges_stage w m = (StageOk m', w')"
  then show "ev_core (MessageEvent m') = ev_core (MessageEvent m)"
    by (auto simp: badges_stage_def badges_Annotate_def Let_def ev_core_badges split: if_splits)
qed

text \<open>At most one fetch per channel is in flight.\<close>

definition inflight_ok :: "badge_stage \<Rightarrow> bool" where
  "inflight_ok st = (keys_distinct (bs_inflight st) \<and> (\<forall>(k, ch) \<in> set (bs_inflight st). k = badges_Key ch))"

lemma inflight_Annotate: "inflight_ok st \<Longrightarrow> inflight_ok (snd (badges_Annotate st m))"
  by (auto simp: inflight_ok_def badges_Annotate_def Let_def map_of_None_iff)

lemma inflight_fetched: "inflight_ok st \<Longrightarrow> inflight_ok (badges_fetched k st)"
  using set_delete_subset [of k "bs_inflight st"]
  by (auto simp: inflight_ok_def badges_fetched_def split: option.splits)

text \<open>Later providers win a key; a failing provider is skipped.\<close>

lemma fold_update_lookup:
  "map_of (fold (\<lambda>(k, v) s. AList.update k v s) m s) j = (map_of s ++ map_of (rev m)) j"
  by (induction m arbitrary: s) (auto simp: map_add_def split: option.splits)

lemma badges_last_wins:
  "br_providers r = ps @ [p] \<Longrightarrow> p ch = Some m \<Longrightarrow> keys_distinct m \<Longrightarrow> map_of m k = Some v \<Longrightarrow>
    map_of (fst (badges_Refresh ch r)) k = Some v"
  by (simp add: badges_Refresh_def Let_def fold_update_lookup map_of_rev_distinct)

end
