(* ===== verification/Irc.thy ===== *)
theory Irc
  imports Go_Values
begin

text \<open>
  \<^verbatim>\<open>internal/platform/twitch/irc.go\<close>: the IRCv3 line parser. The tag map is an association list, its
  nil value None. The properties relate it to a printer: parsing a printed message gives it back.
\<close>

subsection \<open>The parser\<close>

record ircMessage =
  ir_tags :: "(string \<times> string) list option"
  ir_prefix :: string
  ir_command :: string
  ir_params :: "string list"
  ir_tr :: string

definition nick :: "ircMessage \<Rightarrow> string" where
  "nick m = (if ir_prefix m = [] then []
     else (case cut_at CHR ''!'' (ir_prefix m) of None \<Rightarrow> ir_prefix m | Some (n, _) \<Rightarrow> n))"

abbreviation backslash :: char where "backslash \<equiv> CHR 0x5C"
abbreviation CR :: char where "CR \<equiv> CHR 0x0D"
abbreviation LF :: char where "LF \<equiv> CHR 0x0A"

definition unescape_char :: "char \<Rightarrow> char" where
  "unescape_char c = (if c = CHR '':'' then CHR '';'' else if c = CHR ''s'' then CHR '' ''
     else if c = backslash then backslash else if c = CHR ''r'' then CR else if c = CHR ''n'' then LF else c)"

fun unescape_loop :: "string \<Rightarrow> string" where
  "unescape_loop [] = []"
| "unescape_loop (c # s) =
    (if c \<noteq> backslash then c # unescape_loop s
     else (case s of [] \<Rightarrow> [] | d # s' \<Rightarrow> unescape_char d # unescape_loop s'))"

definition unescapeTagValue :: "string \<Rightarrow> string" where
  "unescapeTagValue v = (if backslash \<notin> set v then v else unescape_loop v)"

definition parse_pair :: "string \<Rightarrow> (string \<times> string) list \<Rightarrow> (string \<times> string) list" where
  "parse_pair pair tags =
    (if pair = [] then tags
     else (case cut_at CHR ''='' pair of
       Some (k, v) \<Rightarrow> AList.update k (unescapeTagValue v) tags
     | None \<Rightarrow> AList.update pair [] tags))"

definition parseTags :: "string \<Rightarrow> (string \<times> string) list" where
  "parseTags s = fold parse_pair (split_on CHR '';'' s) []"

function parse_params :: "string \<Rightarrow> string list \<times> string" where
  "parse_params line =
    (if line = [] then ([], [])
     else if hd line = CHR '':'' then ([], tl line)
     else (case cut_at CHR '' '' line of
       None \<Rightarrow> ([line], [])
     | Some (p, rest) \<Rightarrow>
         let (ps, tr) = parse_params rest in ((if p \<noteq> [] then p # ps else ps), tr)))"
  by pat_completeness auto
termination
  by (relation "measure length") (auto dest: cut_at_length)

declare parse_params.simps [simp del]

text \<open>The optional tags and the optional prefix: None when the line stops before the space.\<close>

definition parse_tag_part :: "string \<Rightarrow> ((string \<times> string) list option \<times> string) option" where
  "parse_tag_part line =
    (if line \<noteq> [] \<and> hd line = CHR ''@''
     then (case cut_at CHR '' '' (tl line) of None \<Rightarrow> None | Some (t, rest) \<Rightarrow> Some (Some (parseTags t), rest))
     else Some (None, line))"

definition parse_prefix_part :: "string \<Rightarrow> (string \<times> string) option" where
  "parse_prefix_part line =
    (if line \<noteq> [] \<and> hd line = CHR '':'' then cut_at CHR '' '' (tl line) else Some ([], line))"

text \<open>\<open>None\<close> is the \<^verbatim>\<open>false\<close> answer.\<close>

definition parseLine :: "string \<Rightarrow> ircMessage option" where
  "parseLine line =
    (let line = trim_right {CR, LF} line in
     if line = [] then None
     else (case parse_tag_part line of
       None \<Rightarrow> None
     | Some (tags, line) \<Rightarrow> (case parse_prefix_part line of
         None \<Rightarrow> None
       | Some (pre, line) \<Rightarrow> (case cut_at CHR '' '' line of
           None \<Rightarrow> if line = [] then None
             else Some \<lparr>ir_tags = tags, ir_prefix = pre, ir_command = line, ir_params = [], ir_tr = []\<rparr>
         | Some (cmd, line) \<Rightarrow>
             let (params, tr) = parse_params line
             in Some \<lparr>ir_tags = tags, ir_prefix = pre, ir_command = cmd, ir_params = params, ir_tr = tr\<rparr>))))"

subsection \<open>A printer\<close>

definition escape_char :: "char \<Rightarrow> string" where
  "escape_char c = (if c = CHR '';'' then [backslash, CHR '':''] else if c = CHR '' '' then [backslash, CHR ''s'']
     else if c = backslash then [backslash, backslash] else if c = CR then [backslash, CHR ''r'']
     else if c = LF then [backslash, CHR ''n''] else [c])"

definition escapeTagValue :: "string \<Rightarrow> string" where
  "escapeTagValue v = concat (map escape_char v)"

definition print_tags :: "(string \<times> string) list \<Rightarrow> string" where
  "print_tags ts = join '';'' (map (\<lambda>(k, v). k @ ''='' @ escapeTagValue v) ts)"

definition print_params :: "string list \<Rightarrow> string \<Rightarrow> string list" where
  "print_params ps tr = ps @ (if tr = [] then [] else [CHR '':'' # tr])"

definition print_line :: "ircMessage \<Rightarrow> string" where
  "print_line m =
    (case ir_tags m of None \<Rightarrow> [] | Some ts \<Rightarrow> ''@'' @ print_tags ts @ '' '')
    @ (if ir_prefix m = [] then [] else '':'' @ ir_prefix m @ '' '')
    @ join '' '' (ir_command m # print_params (ir_params m) (ir_tr m))"

subsection \<open>Round trips\<close>

lemma escape_no_special:
  "c \<in> set (escapeTagValue v) \<Longrightarrow> c \<noteq> CHR '';'' \<and> c \<noteq> CHR '' '' \<and> c \<noteq> CR \<and> c \<noteq> LF"
  by (auto simp: escapeTagValue_def escape_char_def split: if_splits)

lemma unescape_escape_loop: "unescape_loop (escapeTagValue v) = v"
  by (induction v) (auto simp: escapeTagValue_def escape_char_def unescape_char_def)

lemma unescape_loop_id: "backslash \<notin> set v \<Longrightarrow> unescape_loop v = v"
  by (induction v) auto

lemma unescape_escape: "unescapeTagValue (escapeTagValue v) = v"
  using unescape_escape_loop [of v] unescape_loop_id [of "escapeTagValue v"]
  by (auto simp: unescapeTagValue_def)

text \<open>What a tag key, a middle parameter and a whole message may look like.\<close>

definition key_ok :: "string \<Rightarrow> bool" where
  "key_ok k = (k \<noteq> [] \<and> list_all (\<lambda>c. c \<notin> {CHR ''='', CHR '';'', CHR '' '', CR, LF}) k)"

definition param_ok :: "string \<Rightarrow> bool" where
  "param_ok p = (p \<noteq> [] \<and> hd p \<noteq> CHR '':'' \<and> list_all (\<lambda>c. c \<notin> {CHR '' '', CR, LF}) p)"

definition irc_ok :: "ircMessage \<Rightarrow> bool" where
  "irc_ok m = ((case ir_tags m of None \<Rightarrow> True | Some ts \<Rightarrow> distinct (map fst ts) \<and> list_all (key_ok \<circ> fst) ts)
     \<and> list_all (\<lambda>c. c \<notin> {CHR '' '', CR, LF}) (ir_prefix m)
     \<and> param_ok (ir_command m) \<and> hd (ir_command m) \<noteq> CHR ''@''
     \<and> list_all param_ok (ir_params m) \<and> list_all (\<lambda>c. c \<notin> {CR, LF}) (ir_tr m))"

lemma parse_pair_printed:
  assumes "key_ok k"
  shows "parse_pair (k @ ''='' @ escapeTagValue v) tags = AList.update k v tags"
proof -
  have "CHR ''='' \<notin> set k" using assms by (auto simp: key_ok_def list_all_iff)
  then have "cut_at CHR ''='' (k @ ''='' @ escapeTagValue v) = Some (k, escapeTagValue v)"
    by (simp add: cut_at_append)
  then show ?thesis by (simp add: parse_pair_def unescape_escape)
qed

lemma parse_pairs_printed:
  "list_all (key_ok \<circ> fst) ts \<Longrightarrow> distinct (map fst (acc @ ts)) \<Longrightarrow>
    fold parse_pair (map (\<lambda>(k, v). k @ ''='' @ escapeTagValue v) ts) acc = acc @ ts"
proof (induction ts arbitrary: acc)
  case (Cons t ts)
  obtain k v where t: "t = (k, v)" by fastforce
  have "AList.update k v acc = acc @ [(k, v)]" using Cons.prems t by (intro update_fresh) auto
  then show ?case using Cons.IH [of "acc @ [(k, v)]"] Cons.prems t parse_pair_printed [of k v acc] by auto
qed simp

lemma parseTags_print:
  assumes "list_all (key_ok \<circ> fst) ts" "distinct (map fst ts)"
  shows "parseTags (print_tags ts) = ts"
proof (cases "ts = []")
  case True
  then show ?thesis by (simp add: parseTags_def print_tags_def parse_pair_def)
next
  case False
  have "CHR '';'' \<notin> set (k @ ''='' @ escapeTagValue v)" if "(k, v) \<in> set ts" for k v
    using that assms(1) escape_no_special [of _ v] by (fastforce simp: list_all_iff key_ok_def)
  then have "split_on CHR '';'' (print_tags ts) = map (\<lambda>(k, v). k @ ''='' @ escapeTagValue v) ts"
    unfolding print_tags_def using False by (intro split_on_join) auto
  then show ?thesis using parse_pairs_printed [of ts "[]"] assms by (simp add: parseTags_def)
qed

lemma parse_params_print:
  "list_all param_ok ps \<Longrightarrow> parse_params (join '' '' (print_params ps tr)) = (ps, tr)"
proof (induction ps)
  case Nil
  then show ?case by (subst parse_params.simps) (simp add: print_params_def)
next
  case (Cons p ps)
  have p: "p \<noteq> []" "hd p \<noteq> CHR '':''" "CHR '' '' \<notin> set p"
    using Cons.prems by (auto simp: param_ok_def list_all_iff)
  show ?case
  proof (cases "print_params ps tr")
    case Nil
    then have "print_params (p # ps) tr = [p]" "ps = []" "tr = []"
      by (auto simp: print_params_def split: if_splits)
    moreover have "cut_at CHR '' '' p = None" using p by (simp add: cut_at_None)
    ultimately show ?thesis using p by (subst parse_params.simps) simp
  next
    case (Cons q qs)
    then have line: "join '' '' (print_params (p # ps) tr) = p @ CHR '' '' # join '' '' (print_params ps tr)"
      by (simp add: print_params_def)
    have "cut_at CHR '' '' (p @ CHR '' '' # join '' '' (print_params ps tr)) =
        Some (p, join '' '' (print_params ps tr))" using p by (simp add: cut_at_append)
    then show ?thesis
      using p Cons.IH Cons.prems Cons.prems unfolding line
      by (subst parse_params.simps) (use \<open>list_all param_ok (p # ps)\<close> in auto)
  qed
qed


lemma print_tags_chars:
  assumes "list_all (key_ok \<circ> fst) ts" "c \<in> set (print_tags ts)"
  shows "c \<noteq> CHR '' '' \<and> c \<noteq> CR \<and> c \<noteq> LF"
proof -
  have "c = CHR '';'' \<or> (\<exists>(k, v) \<in> set ts. c \<in> set k \<or> c = CHR ''='' \<or> c \<in> set (escapeTagValue v))"
    using set_join [of "'';''" "map (\<lambda>(k, v). k @ ''='' @ escapeTagValue v) ts"] assms(2)
    by (fastforce simp: print_tags_def)
  then show ?thesis
    using assms(1) escape_no_special by (fastforce simp: list_all_iff key_ok_def)
qed

lemma print_body_chars:
  assumes "param_ok cmd" "list_all param_ok ps" "list_all (\<lambda>c. c \<notin> {CR, LF}) tr"
    and "c \<in> set (join '' '' (cmd # print_params ps tr))"
  shows "c \<noteq> CR \<and> c \<noteq> LF"
proof -
  have "c = CHR '' '' \<or> (\<exists>p \<in> set (cmd # print_params ps tr). c \<in> set p)"
    using set_join [of "'' ''" "cmd # print_params ps tr"] assms(4) by fastforce
  then show ?thesis
    using assms(1-3) by (fastforce simp: print_params_def param_ok_def list_all_iff split: if_splits)
qed

lemma print_line_chars:
  assumes ok: "irc_ok m" and c: "c \<in> set (print_line m)"
  shows "c \<notin> {CR, LF}"
proof -
  consider (tags) ts where "ir_tags m = Some ts" "c \<in> set (''@'' @ print_tags ts @ '' '')"
    | (pre) "c \<in> set ('':'' @ ir_prefix m @ '' '')"
    | (body) "c \<in> set (join '' '' (ir_command m # print_params (ir_params m) (ir_tr m)))"
    using c unfolding print_line_def
    by (cases "ir_tags m") (auto simp del: join.simps split: if_splits)
  then show ?thesis
  proof cases
    case (tags ts)
    then have "list_all (key_ok \<circ> fst) ts" using ok by (simp add: irc_ok_def)
    then show ?thesis using print_tags_chars [of ts c] tags(2) by auto
  next
    case pre
    then show ?thesis using ok by (auto simp: irc_ok_def list_all_iff)
  next
    case body
    then show ?thesis using print_body_chars [OF _ _ _ body] ok by (simp add: irc_ok_def)
  qed
qed

lemma parse_body:
  assumes "param_ok cmd" "list_all param_ok ps"
  shows "(case cut_at CHR '' '' (join '' '' (cmd # print_params ps tr)) of
      None \<Rightarrow> if join '' '' (cmd # print_params ps tr) = [] then None
        else Some (join '' '' (cmd # print_params ps tr), [], [])
    | Some (c, line) \<Rightarrow> Some (c, parse_params line)) = Some (cmd, ps, tr)"
proof -
  have cmd: "cmd \<noteq> []" "CHR '' '' \<notin> set cmd" using assms(1) by (auto simp: param_ok_def list_all_iff)
  show ?thesis
  proof (cases "print_params ps tr")
    case Nil
    then have "ps = []" "tr = []" by (auto simp: print_params_def split: if_splits)
    then show ?thesis using Nil cmd by (simp add: cut_at_None [THEN iffD2])
  next
    case (Cons q qs)
    then have "join '' '' (cmd # print_params ps tr) = cmd @ CHR '' '' # join '' '' (print_params ps tr)" by simp
    then show ?thesis using cmd parse_params_print [OF assms(2), of tr] by (simp add: cut_at_append)
  qed
qed

lemma hd_join: "cmd \<noteq> [] \<Longrightarrow> join sep (cmd # rest) \<noteq> [] \<and> hd (join sep (cmd # rest)) = hd cmd"
  by (cases rest) auto

text \<open>
  Parsing is the inverse of printing: a message whose parts respect the grammar (keys distinct,
  no separators inside keys, prefix, command or middle parameters, no line breaks) is read back from
  its printed line exactly, tag values with any bytes included.
\<close>

theorem parseLine_print:
  assumes "irc_ok m"
  shows "parseLine (print_line m) = Some m"
proof -
  let ?body = "join '' '' (ir_command m # print_params (ir_params m) (ir_tr m))"
  let ?pre = "(if ir_prefix m = [] then [] else '':'' @ ir_prefix m @ '' '') @ ?body"
  have cmd: "param_ok (ir_command m)" "hd (ir_command m) \<noteq> CHR ''@''"
    and ps: "list_all param_ok (ir_params m)" using assms by (auto simp: irc_ok_def)
  have hd: "?body \<noteq> []" "hd ?body \<noteq> CHR ''@''" "hd ?body \<noteq> CHR '':''"
    using hd_join [of "ir_command m"] cmd by (auto simp: param_ok_def)
  have pre: "parse_prefix_part ?pre = Some (ir_prefix m, ?body)"
    using assms hd cut_at_append [of "CHR '' ''" "ir_prefix m" ?body]
    by (auto simp: parse_prefix_part_def irc_ok_def list_all_iff)
  have tags: "parse_tag_part (print_line m) = Some (ir_tags m, ?pre)"
  proof (cases "ir_tags m")
    case None
    then show ?thesis using hd by (auto simp: parse_tag_part_def print_line_def)
  next
    case (Some ts)
    then have ts: "list_all (key_ok \<circ> fst) ts" "distinct (map fst ts)" using assms by (auto simp: irc_ok_def)
    then have "CHR '' '' \<notin> set (print_tags ts)" using print_tags_chars by blast
    then have "cut_at CHR '' '' (print_tags ts @ CHR '' '' # ?pre) = Some (print_tags ts, ?pre)"
      by (rule cut_at_append)
    then show ?thesis using Some parseTags_print [OF ts] by (simp add: parse_tag_part_def print_line_def)
  qed
  have trim: "trim_right {CR, LF} (print_line m) = print_line m"
    using print_line_chars [OF assms] by (intro trim_right_id) blast
  have "print_line m \<noteq> []" using hd by (auto simp: print_line_def)
  then show ?thesis
    unfolding parseLine_def trim Let_def tags
    using pre parse_body [OF cmd(1) ps, of "ir_tr m"]
    by (auto split: option.splits if_splits prod.splits)
qed

theorem parseLine_print_witness:
  "let m = \<lparr>ir_tags = Some [(''id'', ''a;b''), (''mod'', [])], ir_prefix = ''ann!ann@tmi'', ir_command = ''PRIVMSG'',
       ir_params = [''#v''], ir_tr = ''hi : there''\<rparr>
   in parseLine (print_line m) = Some m"
  unfolding Let_def by (rule parseLine_print) code_simp

end
