(* ===== verification/Scrollback.thy ===== *)
theory Scrollback
  imports Platform
begin

text \<open>
  \<^verbatim>\<open>internal/scrollback\<close>: the in-memory tail of recent messages per channel, the history the API serves
  while logging is off. \<^verbatim>\<open>Search\<close> may range over every channel, so the channel map is an association
  list.
\<close>

subsection \<open>State and operations\<close>

abbreviation scrollCap :: nat where "scrollCap \<equiv> 500"

record Msg =
  sm_ID :: string
  sm_Channel :: ChannelRef
  sm_Author :: string
  sm_Body :: string
  sm_SentAt :: int
  sm_Deleted :: bool

record Ring =
  rg_byChannel :: "(string \<times> Msg list) list"

definition NewRing :: Ring where
  "NewRing = \<lparr>rg_byChannel = []\<rparr>"

definition retained :: "string \<Rightarrow> Ring \<Rightarrow> Msg list" where
  "retained key r = (case map_of (rg_byChannel r) key of None \<Rightarrow> [] | Some buf \<Rightarrow> buf)"

definition compact :: "UnifiedMessage \<Rightarrow> Msg" where
  "compact m = \<lparr>sm_ID = um_ID m, sm_Channel = um_Channel m,
     sm_Author = (if au_DisplayName (um_Author m) = [] then au_Login (um_Author m) else au_DisplayName (um_Author m)),
     sm_Body = PlainText m, sm_SentAt = unix_milli (um_SentAt m), sm_Deleted = False\<rparr>"

definition push_msg :: "Msg \<Rightarrow> Msg list \<Rightarrow> Msg list" where
  "push_msg rec buf = (let buf = buf @ [rec]
     in if length buf > scrollCap then drop (length buf - scrollCap) buf else buf)"

definition ring_add :: "UnifiedMessage \<Rightarrow> Ring \<Rightarrow> Ring" where
  "ring_add m r =
    (if um_ID m = [] then r
     else let key = ChannelRef_Key (um_Channel m)
          in r\<lparr>rg_byChannel := AList.update key (push_msg (compact m) (retained key r)) (rg_byChannel r)\<rparr>)"

fun mark_first :: "string \<Rightarrow> Msg list \<Rightarrow> Msg list" where
  "mark_first mid [] = []"
| "mark_first mid (m # ms) = (if sm_ID m = mid then m\<lparr>sm_Deleted := True\<rparr> # ms else m # mark_first mid ms)"

text \<open>A channel without a buffer has nothing to mark, and the map does not grow.\<close>

definition markDeleted :: "string \<Rightarrow> string \<Rightarrow> Ring \<Rightarrow> Ring" where
  "markDeleted channelKey mid r =
    (if mid = [] then r
     else (case map_of (rg_byChannel r) channelKey of
       None \<Rightarrow> r
     | Some buf \<Rightarrow> r\<lparr>rg_byChannel := AList.update channelKey (mark_first mid buf) (rg_byChannel r)\<rparr>))"

definition ring_Consume :: "Event \<Rightarrow> Ring \<Rightarrow> Ring" where
  "ring_Consume ev r = (case ev of
     MessageEvent m \<Rightarrow> ring_add m r
   | MessageDeletedEvent ch _ mid \<Rightarrow> markDeleted (ChannelRef_Key ch) mid r
   | _ \<Rightarrow> r)"

definition clampLimit :: "int \<Rightarrow> nat" where
  "clampLimit n = (if n \<le> 0 then 100 else if n > 1000 then 1000 else nat n)"

definition History :: "string \<Rightarrow> string \<Rightarrow> int \<Rightarrow> Ring \<Rightarrow> Msg list" where
  "History channelKey before limit r =
    take (clampLimit limit) (filter (\<lambda>m. \<not> (before \<noteq> [] \<and> sm_ID m \<ge> before)) (rev (retained channelKey r)))"

definition search_hit :: "string \<Rightarrow> string \<Rightarrow> string \<Rightarrow> Msg \<Rightarrow> bool" where
  "search_hit needle author before m =
    (\<not> (before \<noteq> [] \<and> sm_ID m \<ge> before)
     \<and> \<not> (author \<noteq> [] \<and> \<not> equal_fold (sm_Author m) author)
     \<and> contains (to_lower (sm_Body m)) needle)"

definition ring_Search :: "string \<Rightarrow> string \<Rightarrow> string \<Rightarrow> string \<Rightarrow> int \<Rightarrow> Ring \<Rightarrow> Msg list" where
  "ring_Search channelKey query author before limit r =
    (let needle = to_lower (trim_space query) in
     if needle = [] then []
     else
       let bufs = (if channelKey \<noteq> [] then [retained channelKey r] else map snd (rg_byChannel r));
           hits = filter (search_hit needle author before) (concat bufs)
       in take (clampLimit limit) (sort_desc sm_ID hits))"

subsection \<open>The tail is a drop-oldest buffer\<close>

lemma push_msg_last: "length buf \<le> scrollCap \<Longrightarrow> push_msg m buf = last_n scrollCap (buf @ [m])"
  by (simp add: push_msg_def last_n_def Let_def)

interpretation tail: drop_oldest push_msg "\<lambda>buf. buf" scrollCap "\<lambda>buf. length buf \<le> scrollCap"
  by unfold_locales (simp_all add: push_msg_last)

lemma retained_update [simp]:
  "retained k (r\<lparr>rg_byChannel := AList.update j buf (rg_byChannel r)\<rparr>) = (if k = j then buf else retained k r)"
  by (simp add: retained_def)

lemma mark_first_ids [simp]: "map sm_ID (mark_first mid ms) = map sm_ID ms"
  by (induction ms) auto

lemma length_mark_first [simp]: "length (mark_first mid ms) = length ms"
  by (induction ms) auto

text \<open>The ids a channel was given, in order.\<close>

definition ids_of :: "string \<Rightarrow> Event list \<Rightarrow> string list" where
  "ids_of key evs = concat (map (\<lambda>ev. case ev of
     MessageEvent m \<Rightarrow> if um_ID m \<noteq> [] \<and> ChannelRef_Key (um_Channel m) = key then [um_ID m] else []
   | _ \<Rightarrow> []) evs)"

lemma retained_Consume:
  assumes "length (retained key r) \<le> scrollCap"
  shows "length (retained key (ring_Consume ev r)) \<le> scrollCap
    \<and> map sm_ID (retained key (ring_Consume ev r)) = last_n scrollCap (map sm_ID (retained key r) @ ids_of key [ev])"
  using assms
  by (cases ev) (auto simp: ring_Consume_def ring_add_def markDeleted_def ids_of_def Let_def last_n_id
      push_msg_last map_last_n compact_def retained_def split: option.splits)

lemma retained_ids:
  "length (retained key r) \<le> scrollCap \<Longrightarrow>
    map sm_ID (retained key (fold ring_Consume evs r)) = last_n scrollCap (map sm_ID (retained key r) @ ids_of key evs)"
proof (induction evs arbitrary: r)
  case Nil
  then show ?case by (simp add: ids_of_def last_n_id)
next
  case (Cons ev evs)
  have "ids_of key (ev # evs) = ids_of key [ev] @ ids_of key evs" by (simp add: ids_of_def)
  then show ?case
    using Cons.IH [of "ring_Consume ev r"] retained_Consume [OF Cons.prems, of ev]
    by (simp add: last_n_absorb)
qed

text \<open>
  A session's history is the newest part of what the channel showed: after any sequence of events,
  a request without a cursor answers the ids of the channel's last 500 identified messages, newest
  first, cut at the requested limit (100 by default, at most 1000); deletions mark messages but never
  remove, reorder or duplicate any.
\<close>

theorem history_tail:
  "map sm_ID (History key [] limit (fold ring_Consume evs NewRing)) =
    take (clampLimit limit) (rev (last_n scrollCap (ids_of key evs)))"
proof -
  have new: "retained key NewRing = []" by (simp add: NewRing_def retained_def)
  show ?thesis
    using retained_ids [of key NewRing evs]
    by (simp add: History_def new flip: take_map rev_map)
qed

text \<open>
  A search answers only retained messages that match, newest first: every hit contains the
  trimmed, lower-cased query in its lower-cased body, lies before the cursor and has the requested
  author up to case; the ids never increase along the list; and if fewer hits than the limit come
  back, no retained match is missing.
\<close>

theorem search_hits:
  assumes "to_lower (trim_space query) \<noteq> []"
  shows "(\<forall>m \<in> set (ring_Search [] query author before limit r).
      search_hit (to_lower (trim_space query)) author before m \<and> m \<in> (\<Union>b \<in> snd ` set (rg_byChannel r). set b))
    \<and> sorted_wrt (\<lambda>m m'. sm_ID m' \<le> sm_ID m) (ring_Search [] query author before limit r)
    \<and> (length (ring_Search [] query author before limit r) < clampLimit limit \<longrightarrow>
        (\<forall>b \<in> snd ` set (rg_byChannel r). \<forall>m \<in> set b.
          search_hit (to_lower (trim_space query)) author before m \<longrightarrow>
          m \<in> set (ring_Search [] query author before limit r)))"
proof -
  let ?hits = "filter (search_hit (to_lower (trim_space query)) author before) (concat (map snd (rg_byChannel r)))"
  have s: "ring_Search [] query author before limit r = take (clampLimit limit) (sort_desc sm_ID ?hits)"
    using assms by (simp add: ring_Search_def Let_def)
  have "sorted_wrt (\<lambda>m m'. sm_ID m' \<le> sm_ID m) (ring_Search [] query author before limit r)"
    unfolding s by (intro sorted_wrt_take sorted_sort_desc)
  moreover have "set (ring_Search [] query author before limit r) \<subseteq> set ?hits"
    unfolding s by (metis set_sort_desc set_take_subset)
  moreover have "set ?hits \<subseteq> set (ring_Search [] query author before limit r)"
    if "length (ring_Search [] query author before limit r) < clampLimit limit"
    using that unfolding s by (simp add: min_def split: if_splits)
  ultimately show ?thesis by fastforce
qed

theorem search_hits_witness:
  "let m = (chat_message (twitch_channel ''v'') [] ''ann'' ''Hello World'')\<lparr>um_ID := ''01''\<rparr>;
       r = ring_Consume (MessageEvent m) NewRing;
       hits = ring_Search [] '' WORLD '' [] [] 10 r
   in map sm_ID hits = [''01''] \<and> sorted_wrt (\<lambda>m m'. sm_ID m' \<le> sm_ID m) hits"
proof -
  let ?m = "(chat_message (twitch_channel ''v'') [] ''ann'' ''Hello World'')\<lparr>um_ID := ''01''\<rparr>"
  let ?r = "ring_Consume (MessageEvent ?m) NewRing"
  have "map sm_ID (ring_Search [] '' WORLD '' [] [] 10 ?r) = [''01'']" by code_simp
  moreover have "to_lower (trim_space '' WORLD '') \<noteq> []" by code_simp
  ultimately show ?thesis using search_hits [of "'' WORLD ''" "[]" "[]" 10 ?r] by (simp add: Let_def)
qed

end
