(* ===== verification/Held.thy ===== *)
theory Held
  imports Platform "HOL-Library.Multiset"
begin

text \<open>
  \<^verbatim>\<open>internal/held\<close>: the queue of messages held for moderator review. The code keeps a map of maps
  with arrival numbers and sorts on demand; the property is that this is, seen through \<open>List\<close>, one
  oldest-first list with the obvious operations on it.
\<close>

subsection \<open>State and operations\<close>

abbreviation heldCap :: nat where "heldCap \<equiv> 200"

record entry =
  et_msg :: HeldMessage
  et_seq :: nat

record Queue =
  hq_seq :: nat
  hq_byChannel :: "(string \<times> (string \<times> entry) list) list"

definition NewQueue :: Queue where
  "NewQueue = \<lparr>hq_seq = 0, hq_byChannel = []\<rparr>"

definition evict :: "(string \<times> entry) list \<Rightarrow> (string \<times> entry) list" where
  "evict st =
    (if length st \<le> heldCap then st
     else let ids = sort_key (\<lambda>i. et_seq (the (map_of st i))) (map fst st)
          in fold AList.delete (take (length st - heldCap) ids) st)"

definition held_add :: "HeldMessage \<Rightarrow> Queue \<Rightarrow> Queue" where
  "held_add m q =
    (if hm_ID m = [] then q
     else
       let key = ChannelRef_Key (hm_Channel m);
           st = (case map_of (hq_byChannel q) key of None \<Rightarrow> [] | Some s \<Rightarrow> s)
       in case map_of st (hm_ID m) of
            Some _ \<Rightarrow> q\<lparr>hq_byChannel := AList.update key st (hq_byChannel q)\<rparr>
          | None \<Rightarrow>
            let s = hq_seq q + 1
            in q\<lparr>hq_seq := s, hq_byChannel :=
                 AList.update key (evict (AList.update (hm_ID m) \<lparr>et_msg = m, et_seq = s\<rparr> st)) (hq_byChannel q)\<rparr>)"

definition held_remove :: "string \<Rightarrow> string \<Rightarrow> Queue \<Rightarrow> Queue" where
  "held_remove channelKey i q =
    (case map_of (hq_byChannel q) channelKey of
       None \<Rightarrow> q
     | Some st \<Rightarrow>
       let st = AList.delete i st
       in q\<lparr>hq_byChannel := (if st = [] then AList.delete channelKey (hq_byChannel q)
            else AList.update channelKey st (hq_byChannel q))\<rparr>)"

definition held_Consume :: "Event \<Rightarrow> Queue \<Rightarrow> Queue" where
  "held_Consume ev q = (case ev of
     MessageHeldEvent h \<Rightarrow> held_add h q
   | HeldResolvedEvent ch i _ \<Rightarrow> held_remove (ChannelRef_Key ch) i q
   | _ \<Rightarrow> q)"

definition held_Get :: "string \<Rightarrow> Queue \<Rightarrow> HeldMessage option" where
  "held_Get i q = map_option et_msg (List.find (\<lambda>_. True)
     (List.map_filter (\<lambda>(_, st). map_of st i) (hq_byChannel q)))"

definition entries :: "Queue \<Rightarrow> entry list" where
  "entries q = concat (map (map snd \<circ> snd) (hq_byChannel q))"

definition held_List :: "Queue \<Rightarrow> HeldMessage list" where
  "held_List q = map et_msg (sort_key et_seq (entries q))"

subsection \<open>The abstract queue\<close>

text \<open>One list, oldest first: the channel's oldest message goes when the channel exceeds its cap.\<close>

definition in_channel :: "string \<Rightarrow> HeldMessage \<Rightarrow> bool" where
  "in_channel key m = (ChannelRef_Key (hm_Channel m) = key)"

fun drop_first :: "('a \<Rightarrow> bool) \<Rightarrow> 'a list \<Rightarrow> 'a list" where
  "drop_first P [] = []"
| "drop_first P (x # xs) = (if P x then xs else x # drop_first P xs)"

definition spec_add :: "HeldMessage \<Rightarrow> HeldMessage list \<Rightarrow> HeldMessage list" where
  "spec_add m L =
    (let key = ChannelRef_Key (hm_Channel m) in
     if hm_ID m = [] \<or> list_ex (\<lambda>x. in_channel key x \<and> hm_ID x = hm_ID m) L then L
     else if length (filter (in_channel key) L) < heldCap then L @ [m]
     else drop_first (in_channel key) L @ [m])"

definition spec_remove :: "string \<Rightarrow> string \<Rightarrow> HeldMessage list \<Rightarrow> HeldMessage list" where
  "spec_remove key i L = filter (\<lambda>x. \<not> (in_channel key x \<and> hm_ID x = i)) L"

definition spec_step :: "Event \<Rightarrow> HeldMessage list \<Rightarrow> HeldMessage list" where
  "spec_step ev L = (case ev of
     MessageHeldEvent h \<Rightarrow> spec_add h L
   | HeldResolvedEvent ch i _ \<Rightarrow> spec_remove (ChannelRef_Key ch) i L
   | _ \<Rightarrow> L)"

subsection \<open>Invariant\<close>

definition chan_ok :: "nat \<Rightarrow> string \<Rightarrow> (string \<times> entry) list \<Rightarrow> bool" where
  "chan_ok n key st = (keys_distinct st \<and> length st \<le> heldCap
     \<and> (\<forall>(i, e) \<in> set st. hm_ID (et_msg e) = i \<and> in_channel key (et_msg e) \<and> et_seq e \<le> n))"

definition held_inv :: "Queue \<Rightarrow> bool" where
  "held_inv q = (keys_distinct (hq_byChannel q) \<and> (\<forall>(k, st) \<in> set (hq_byChannel q). chan_ok (hq_seq q) k st)
     \<and> distinct (map et_seq (entries q)))"


definition ents :: "(string \<times> (string \<times> entry) list) list \<Rightarrow> entry list" where
  "ents bc = concat (map (map snd \<circ> snd) bc)"

definition chan :: "string \<Rightarrow> (string \<times> (string \<times> entry) list) list \<Rightarrow> (string \<times> entry) list" where
  "chan k bc = (case map_of bc k of None \<Rightarrow> [] | Some st \<Rightarrow> st)"

lemma ents_simps [simp]: "ents [] = []" "ents (x # bc) = map snd (snd x) @ ents bc"
  by (simp_all add: ents_def)

lemma entries_ents: "entries q = ents (hq_byChannel q)"
  by (simp add: entries_def ents_def)

lemma chan_simps [simp]: "chan k [] = []" "chan k ((j, st) # bc) = (if k = j then st else chan k bc)"
  by (simp_all add: chan_def)

lemma chan_absent: "k \<notin> fst ` set bc \<Longrightarrow> chan k bc = []"
  by (simp add: chan_def map_of_None_iff [THEN iffD2])

lemma mset_ents_update:
  "keys_distinct bc \<Longrightarrow>
    mset (ents (AList.update k st bc)) + mset (map snd (chan k bc)) = mset (ents bc) + mset (map snd st)"
  by (induction bc) (auto simp: chan_absent ac_simps)

lemma map_of_update_chan: "chan j (AList.update k st bc) = (if j = k then st else chan j bc)"
  by (simp add: chan_def)

text \<open>With distinct arrival numbers, the sorted list is determined by what it holds.\<close>

lemma sort_key_unique:
  assumes "distinct (map f xs)" "mset xs = mset ys" "sorted (map f ys)"
  shows "sort_key f xs = ys"
proof (rule properties_for_sort_key)
  show "mset ys = mset xs" using assms(2) by simp
  show "sorted (map f ys)" by (rule assms(3))
  have d: "distinct (map f ys)" using assms(1,2) by (metis mset_map mset_eq_imp_distinct_iff)
  have one: "filter (\<lambda>x. f k = f x) zs = [k]" if "k \<in> set zs" "distinct (map f zs)" for k zs
    using that by (induction zs) (auto simp: filter_empty_conv image_iff)
  fix k
  assume "k \<in> set ys"
  then show "filter (\<lambda>x. f k = f x) ys = filter (\<lambda>x. f k = f x) xs"
    using one [OF _ d] one [OF _ assms(1)] assms(2) by (metis set_mset_mset)
qed

lemma sort_key_add_max:
  assumes "distinct (map f xs)" "\<forall>x \<in> set xs. f x < f e" "mset ys = mset xs + {#e#}"
  shows "sort_key f ys = sort_key f xs @ [e]"
proof (rule sort_key_unique)
  show "mset ys = mset (sort_key f xs @ [e])" using assms(3) by simp
  have "distinct (map f (xs @ [e]))" using assms(1,2) by auto
  then show "distinct (map f ys)"
    using assms(3) by (metis mset_append mset_eq_imp_distinct_iff mset_map mset_single_iff_right)
  show "sorted (map f (sort_key f xs @ [e]))" using assms(2) by (auto simp: sorted_append less_imp_le)
qed

lemma drop_first_set: "set (drop_first P xs) \<subseteq> set xs"
  by (induction xs) auto

lemma drop_first_distinct: "distinct (map f xs) \<Longrightarrow> distinct (map f (drop_first P xs))"
proof (induction xs)
  case (Cons x xs)
  then show ?case using drop_first_set [of P xs] by auto
qed simp

lemma drop_first_min:
  "sorted (map f xs) \<Longrightarrow> distinct (map f xs) \<Longrightarrow> e0 \<in> set xs \<Longrightarrow> P e0 \<Longrightarrow>
    \<forall>x \<in> set xs. P x \<longrightarrow> f e0 \<le> f x \<Longrightarrow>
    add_mset e0 (mset (drop_first P xs)) = mset xs \<and> sorted (map f (drop_first P xs))"
proof (induction xs)
  case (Cons x xs)
  show ?case
  proof (cases "P x")
    case True
    then have "f x = f e0" using Cons.prems by (auto intro: order_antisym)
    then have "x = e0" using Cons.prems by (auto simp: image_iff)
    then show ?thesis using True Cons.prems by simp
  next
    case False
    then have "e0 \<in> set xs" using Cons.prems by auto
    then have "add_mset e0 (mset (drop_first P xs)) = mset xs \<and> sorted (map f (drop_first P xs))"
      using Cons by simp
    then show ?thesis
      using False Cons.prems drop_first_set [of P xs] by (auto simp: add_mset_commute dest: subsetD)
  qed
qed simp

lemma drop_first_map: "drop_first P (map g xs) = map g (drop_first (P \<circ> g) xs)"
  by (induction xs) auto

lemma mset_delete:
  "keys_distinct st \<Longrightarrow> map_of st i = Some x \<Longrightarrow>
    add_mset x (mset (map snd (AList.delete i st))) = mset (map snd st)"
proof (induction st)
  case (Cons p st)
  obtain k v where p: "p = (k, v)" by fastforce
  show ?case
  proof (cases "k = i")
    case True
    then have "i \<notin> fst ` set st" using Cons.prems p by simp
    then show ?thesis using True Cons.prems p by (simp add: delete_idem)
  next
    case False
    then show ?thesis using Cons p by (simp add: add_mset_commute)
  qed
qed simp


subsection \<open>One channel\<close>

lemma chan_ok_lookup: "held_inv q \<Longrightarrow> chan_ok (hq_seq q) k (chan k (hq_byChannel q))"
  by (auto simp: held_inv_def chan_def chan_ok_def split: option.splits dest!: map_of_SomeD)

text \<open>The entries of a channel are the entries with its key.\<close>

lemma ents_channel:
  "keys_distinct bc \<Longrightarrow> \<forall>(k, st) \<in> set bc. chan_ok n k st \<Longrightarrow>
    filter (in_channel k \<circ> et_msg) (ents bc) = map snd (chan k bc)"
proof (induction bc)
  case (Cons b bc)
  obtain j st where b: "b = (j, st)" by fastforce
  have "filter (in_channel k \<circ> et_msg) (map snd st) = (if k = j then map snd st else [])"
    using Cons.prems b by (auto simp: filter_empty_conv filter_id_conv chan_ok_def in_channel_def)
  then show ?case using Cons b by (auto simp: chan_absent comp_def)
qed simp

lemma held_channel:
  assumes "held_inv q"
  shows "filter (in_channel k) (held_List q) = map et_msg (sort_key et_seq (map snd (chan k (hq_byChannel q))))"
proof -
  have "filter (in_channel k \<circ> et_msg) (entries q) = map snd (chan k (hq_byChannel q))"
    using assms by (auto simp: entries_ents held_inv_def intro!: ents_channel)
  then show ?thesis by (simp add: held_List_def filter_map filter_sort)
qed

lemma held_channel_length:
  "held_inv q \<Longrightarrow> length (filter (in_channel k) (held_List q)) = length (chan k (hq_byChannel q))"
  by (simp add: held_channel)

lemma held_known:
  assumes "held_inv q"
  shows "list_ex (\<lambda>x. in_channel k x \<and> hm_ID x = i) (held_List q) \<longleftrightarrow> map_of (chan k (hq_byChannel q)) i \<noteq> None"
proof -
  have ok: "chan_ok (hq_seq q) k (chan k (hq_byChannel q))" by (rule chan_ok_lookup [OF assms])
  have "list_ex (\<lambda>x. in_channel k x \<and> hm_ID x = i) (held_List q) \<longleftrightarrow>
      (\<exists>x \<in> set (filter (in_channel k) (held_List q)). hm_ID x = i)" by (auto simp: list_ex_iff)
  also have "\<dots> \<longleftrightarrow> (\<exists>e \<in> snd ` set (chan k (hq_byChannel q)). hm_ID (et_msg e) = i)"
    by (simp add: held_channel [OF assms])
  also have "\<dots> \<longleftrightarrow> i \<in> fst ` set (chan k (hq_byChannel q))"
    using ok by (force simp: chan_ok_def)
  finally show ?thesis using map_of_None_iff by metis
qed

lemma sort_key_hd: "sort_key f xs = y # ys \<Longrightarrow> y \<in> set xs \<and> (\<forall>x \<in> set xs. f y \<le> f x)"
proof -
  assume s: "sort_key f xs = y # ys"
  then have "set xs = set (y # ys)" "sorted (map f (y # ys))" by (metis set_sort, metis sorted_sort_key)
  then show ?thesis by auto
qed

text \<open>Evicting from a channel one over its cap removes the entry that arrived first.\<close>

lemma evict_one:
  assumes d: "keys_distinct st" and len: "length st = Suc heldCap"
  obtains i e where "map_of st i = Some e" "evict st = AList.delete i st"
    "\<forall>x \<in> snd ` set st. et_seq e \<le> et_seq x"
proof -
  let ?f = "\<lambda>i. et_seq (the (map_of st i))"
  let ?ids = "sort_key ?f (map fst st)"
  have "length ?ids = Suc heldCap" using len by simp
  then obtain i js where ids: "?ids = i # js" by (metis length_Suc_conv)
  have i: "i \<in> fst ` set st" and min: "\<forall>j \<in> fst ` set st. ?f i \<le> ?f j"
    using sort_key_hd [OF ids] by simp_all
  then obtain e where e: "map_of st i = Some e" by (metis map_of_None_iff not_None_eq)
  have "\<forall>x \<in> snd ` set st. et_seq e \<le> et_seq x"
  proof
    fix x
    assume "x \<in> snd ` set st"
    then obtain j where j: "(j, x) \<in> set st" by force
    then have "map_of st j = Some x" using d by (simp add: map_of_is_SomeI)
    then show "et_seq e \<le> et_seq x" using min j e by force
  qed
  moreover have "evict st = AList.delete i st" using len ids by (simp add: evict_def Let_def)
  ultimately show thesis using that e by blast
qed


subsection \<open>The operations refine the abstract queue\<close>

lemma chan_ok_mono: "chan_ok n k st \<Longrightarrow> n \<le> n' \<Longrightarrow> chan_ok n' k st"
  by (fastforce simp: chan_ok_def)

lemma held_inv_seqs: "held_inv q \<Longrightarrow> \<forall>x \<in> set (entries q). et_seq x \<le> hq_seq q"
  by (fastforce simp: held_inv_def entries_def chan_ok_def)

lemma held_add_known:
  assumes "hm_ID m = [] \<or> map_of (chan (ChannelRef_Key (hm_Channel m)) (hq_byChannel q)) (hm_ID m) \<noteq> None"
    and "held_inv q"
  shows "held_inv (held_add m q) \<and> held_List (held_add m q) = held_List q"
proof (cases "hm_ID m = []")
  case False
  let ?k = "ChannelRef_Key (hm_Channel m)"
  obtain st where st: "map_of (hq_byChannel q) ?k = Some st" "map_of st (hm_ID m) \<noteq> None"
    using assms(1) False by (auto simp: chan_def split: option.splits)
  have "AList.update ?k st (hq_byChannel q) = hq_byChannel q"
    using st(1) by (rule update_triv)
  then have "held_add m q = q" using False st by (auto simp: held_add_def Let_def)
  then show ?thesis using assms(2) by simp
qed (use assms in \<open>simp add: held_add_def\<close>)


text \<open>A new id: the entry gets the next arrival number, and the channel's first one goes if it is full.\<close>

lemma held_add_state:
  assumes inv: "held_inv q" and new: "hm_ID m \<noteq> []" "map_of (chan k (hq_byChannel q)) (hm_ID m) = None"
    and k: "k = ChannelRef_Key (hm_Channel m)" and e: "e = \<lparr>et_msg = m, et_seq = hq_seq q + 1\<rparr>"
  shows "held_add m q = q\<lparr>hq_seq := hq_seq q + 1, hq_byChannel :=
    AList.update k (evict (chan k (hq_byChannel q) @ [(hm_ID m, e)])) (hq_byChannel q)\<rparr>"
proof -
  have "AList.update (hm_ID m) e (chan k (hq_byChannel q)) = chan k (hq_byChannel q) @ [(hm_ID m, e)]"
    using new(2) by (intro update_fresh) (simp add: map_of_eq_None_iff)
  then show ?thesis
    using new k e by (auto simp: held_add_def Let_def chan_def split: option.splits)
qed

text \<open>Putting a new channel content back keeps the invariant if the content is in order.\<close>

lemma distinct_map_mset: "mset xs = mset ys \<Longrightarrow> distinct (map f xs) = distinct (map f ys)"
  by (metis mset_eq_imp_distinct_iff mset_map)

lemma held_inv_update:
  assumes inv: "held_inv q" and st: "chan_ok n k st" and n: "hq_seq q \<le> n"
    and d: "distinct (map et_seq (ents (AList.update k st (hq_byChannel q))))"
  shows "held_inv (q\<lparr>hq_seq := n, hq_byChannel := AList.update k st (hq_byChannel q)\<rparr>)"
proof -
  have "chan_ok n a b" if "(a, b) \<in> set (AList.update k st (hq_byChannel q))" for a b
    using that set_update_subset [of k st "hq_byChannel q"] st inv chan_ok_mono [OF _ n]
    by (fastforce simp: held_inv_def)
  then show ?thesis using inv d by (auto simp: held_inv_def entries_ents)
qed

text \<open>The entries after adding \<open>e\<close> to a channel, with the oldest one gone if the channel was full.\<close>

lemma ents_add_room:
  assumes kd: "keys_distinct bc" and room: "length (chan k bc) < heldCap"
  shows "mset (ents (AList.update k (evict (chan k bc @ [(i, e)])) bc)) = mset (ents bc @ [e])"
proof -
  have "evict (chan k bc @ [(i, e)]) = chan k bc @ [(i, e)]" using room by (simp add: evict_def)
  then show ?thesis using mset_ents_update [OF kd, of k "chan k bc @ [(i, e)]"] by simp
qed

lemma ents_add_full:
  assumes kd: "keys_distinct bc" and ok: "\<forall>(k, st) \<in> set bc. chan_ok n k st"
    and full: "length (chan k bc) = heldCap" and d: "distinct (map et_seq (ents bc))"
    and new: "i \<notin> fst ` set (chan k bc)" and less: "\<forall>x \<in> set (ents bc). et_seq x < et_seq e"
    and P: "P = in_channel k \<circ> et_msg"
  shows "mset (ents (AList.update k (evict (chan k bc @ [(i, e)])) bc)) =
      mset (drop_first P (sort_key et_seq (ents bc)) @ [e])
    \<and> sorted (map et_seq (drop_first P (sort_key et_seq (ents bc)))) \<and> length (evict (chan k bc @ [(i, e)])) = heldCap"
proof -
  let ?st = "chan k bc" and ?st' = "chan k bc @ [(i, e)]" and ?S = "sort_key et_seq (ents bc)"
  have chan: "filter P (ents bc) = map snd ?st" unfolding P by (rule ents_channel [OF kd ok])
  have "chan_ok n k ?st"
    using ok by (auto simp: chan_def chan_ok_def split: option.splits dest!: map_of_SomeD)
  then have kd': "keys_distinct ?st'" using new by (simp add: chan_ok_def)
  have "length ?st' = Suc heldCap" using full by simp
  from kd' this obtain j e0 where j: "map_of ?st' j = Some e0" "evict ?st' = AList.delete j ?st'"
    "\<forall>x \<in> snd ` set ?st'. et_seq e0 \<le> et_seq x" by (rule evict_one)
  have ev: "add_mset e0 (mset (map snd (evict ?st'))) = mset (map snd ?st')"
    using mset_delete [OF kd' j(1)] j(2) by simp
  obtain x where x: "x \<in> set (map snd ?st)" using full by (metis length_map list.set_sel(1) list.size(3) zero_neq_numeral)
  then have "x \<in> set (ents bc)" using chan by (metis filter_is_subset subsetD)
  then have "et_seq e0 < et_seq e" using j(3) x less by fastforce
  moreover have "e0 \<in> snd ` set ?st'" using map_of_SomeD [OF j(1)] by (metis image_eqI snd_conv)
  ultimately have "e0 \<in> set (map snd ?st)" by auto
  then have "e0 \<in> set (filter P (ents bc))" unfolding chan .
  then have e0: "e0 \<in> set ?S" "P e0" by simp_all
  have min: "\<forall>x \<in> set ?S. P x \<longrightarrow> et_seq e0 \<le> et_seq x"
  proof (intro ballI impI)
    fix x
    assume "x \<in> set ?S" "P x"
    then have "x \<in> set (map snd ?st)" unfolding chan [symmetric] by simp
    then show "et_seq e0 \<le> et_seq x" using j(3) by auto
  qed
  have "distinct (map et_seq ?S)" using d distinct_map_mset [of ?S "ents bc" et_seq] by simp
  from drop_first_min [OF _ this e0 min]
  have df: "add_mset e0 (mset (drop_first P ?S)) = mset (ents bc)" "sorted (map et_seq (drop_first P ?S))" by simp_all
  have "mset (ents (AList.update k (evict ?st') bc)) + mset (map snd ?st) = mset (ents bc) + mset (map snd (evict ?st'))"
    by (rule mset_ents_update [OF kd])
  then have "add_mset e0 (mset (ents (AList.update k (evict ?st') bc))) + mset (map snd ?st) =
      mset (ents bc) + mset (map snd ?st')" using ev by simp
  then have "add_mset e0 (mset (ents (AList.update k (evict ?st') bc))) = add_mset e0 (mset (drop_first P ?S @ [e]))"
    using df(1) by simp
  moreover have "size (mset (map snd (evict ?st'))) = heldCap"
    using arg_cong [OF ev, of size] full by simp
  ultimately show ?thesis using df(2) by simp
qed


lemma evict_sub:
  assumes "keys_distinct st"
  shows "set (evict st) \<subseteq> set st \<and> keys_distinct (evict st)"
proof -
  have "keys_distinct st \<Longrightarrow> set (fold AList.delete js st) \<subseteq> set st \<and> keys_distinct (fold AList.delete js st)" for js st
  proof (induction js arbitrary: st)
    case (Cons j js)
    have "keys_distinct (AList.delete j st)" using Cons.prems by simp
    from Cons.IH [OF this] show ?case using set_delete_subset [of j st] by auto
  qed simp
  from this [OF assms] show ?thesis using assms by (auto simp: evict_def Let_def)
qed

text \<open>The sorted entries once \<open>e\<close> is in: \<open>L\<close> is what is left of the old ones.\<close>

lemma held_add_sorted:
  assumes inv: "held_inv q" and new: "i \<notin> fst ` set (chan k (hq_byChannel q))"
    and less: "\<forall>x \<in> set (entries q). et_seq x < et_seq e"
    and L: "L = (if length (chan k (hq_byChannel q)) < heldCap then sort_key et_seq (entries q)
       else drop_first (in_channel k \<circ> et_msg) (sort_key et_seq (entries q)))"
    and bc: "bc = AList.update k (evict (chan k (hq_byChannel q) @ [(i, e)])) (hq_byChannel q)"
  shows "distinct (map et_seq (ents bc)) \<and> sort_key et_seq (ents bc) = L @ [e]
    \<and> length (evict (chan k (hq_byChannel q) @ [(i, e)])) \<le> heldCap"
proof -
  let ?st = "chan k (hq_byChannel q)" and ?S = "sort_key et_seq (entries q)"
  have d: "distinct (map et_seq (entries q))" and kd: "keys_distinct (hq_byChannel q)"
    and oks: "\<forall>(k, st) \<in> set (hq_byChannel q). chan_ok (hq_seq q) k st"
    using inv by (auto simp: held_inv_def)
  have "length ?st \<le> heldCap" using chan_ok_lookup [OF inv] by (simp add: chan_ok_def)
  then consider (room) "length ?st < heldCap" | (full) "length ?st = heldCap" by linarith
  then have m: "mset (ents bc) = mset (L @ [e]) \<and> sorted (map et_seq L) \<and> length (evict (?st @ [(i, e)])) \<le> heldCap"
  proof cases
    case room
    then show ?thesis using ents_add_room [OF kd room] by (simp add: L bc entries_ents evict_def)
  next
    case full
    then show ?thesis
      using ents_add_full [OF kd oks full _ new _ refl] d less unfolding L bc entries_ents by simp
  qed
  have "distinct (map et_seq ?S)" using d distinct_map_mset [of ?S "entries q" et_seq] by simp
  then have "distinct (map et_seq L)" by (simp add: L drop_first_distinct)
  moreover have lt: "\<forall>x \<in> set L. et_seq x < et_seq e"
    using less drop_first_set [of "in_channel k \<circ> et_msg" ?S] by (auto simp: L dest: subsetD split: if_splits)
  ultimately have "distinct (map et_seq (L @ [e]))" by auto
  then have dist: "distinct (map et_seq (ents bc))" using m distinct_map_mset by blast
  have "sorted (map et_seq (L @ [e]))" using m lt by (auto simp: sorted_append less_imp_le)
  with dist m show ?thesis by (simp add: sort_key_unique)
qed

lemma held_add_new:
  assumes inv: "held_inv q" and new: "hm_ID m \<noteq> []" "map_of (chan k (hq_byChannel q)) (hm_ID m) = None"
    and k: "k = ChannelRef_Key (hm_Channel m)"
  shows "held_inv (held_add m q) \<and> held_List (held_add m q) =
    (if length (chan k (hq_byChannel q)) < heldCap then held_List q @ [m]
     else drop_first (in_channel k) (held_List q) @ [m])"
proof -
  define e where "e = \<lparr>et_msg = m, et_seq = hq_seq q + 1\<rparr>"
  let ?st = "chan k (hq_byChannel q)" and ?st' = "chan k (hq_byChannel q) @ [(hm_ID m, e)]"
  have ok: "chan_ok (hq_seq q) k ?st" by (rule chan_ok_lookup [OF inv])
  have fresh: "hm_ID m \<notin> fst ` set ?st" using new(2) by (simp add: map_of_eq_None_iff)
  have less: "\<forall>x \<in> set (entries q). et_seq x < et_seq e"
    using held_inv_seqs [OF inv] by (auto simp: e_def less_Suc_eq_le)
  note S = held_add_sorted [OF inv fresh less refl refl]
  have "keys_distinct ?st'" using ok fresh by (simp add: chan_ok_def)
  then have "chan_ok (hq_seq q + 1) k (evict ?st')"
    using evict_sub [of ?st'] ok S k by (fastforce simp: chan_ok_def e_def in_channel_def)
  then have "held_inv (held_add m q)"
    unfolding held_add_state [OF inv new k e_def] using S by (intro held_inv_update inv) simp_all
  then show ?thesis
    using S unfolding held_add_state [OF inv new k e_def]
    by (simp add: held_List_def entries_ents drop_first_map e_def)
qed

text \<open>Resolving: exactly the entry with that key and id goes.\<close>

lemma ents_filter:
  "keys_distinct bc \<Longrightarrow> \<forall>(k, st) \<in> set bc. chan_ok n k st \<Longrightarrow>
    ents (AList.update k (AList.delete i (chan k bc)) bc) =
      filter (\<lambda>e. \<not> (in_channel k (et_msg e) \<and> hm_ID (et_msg e) = i)) (ents bc)"
proof (induction bc)
  case (Cons b bc)
  obtain j st where b: "b = (j, st)" by fastforce
  let ?keep = "\<lambda>e. \<not> (in_channel k (et_msg e) \<and> hm_ID (et_msg e) = i)"
  have ok: "chan_ok n j st" using Cons.prems b by simp
  show ?case
  proof (cases "j = k")
    case True
    have "filter ?keep (map snd st) = map snd (AList.delete i st)"
      using ok True by (auto simp: AList.delete_eq filter_map comp_def chan_ok_def case_prod_beta
          intro!: arg_cong [of _ _ "map snd"] filter_cong)
    moreover have "filter ?keep (ents bc) = ents bc"
    proof -
      have "filter (in_channel k \<circ> et_msg) (ents bc) = []"
        using ents_channel [of bc n k] Cons.prems b True by (simp add: chan_absent)
      then show ?thesis by (auto simp: filter_empty_conv filter_id_conv)
    qed
    ultimately show ?thesis using True b by simp
  next
    case False
    have "filter ?keep (map snd st) = map snd st"
      using ok False by (auto simp: filter_id_conv chan_ok_def in_channel_def)
    then show ?thesis using False Cons b by simp
  qed
qed simp

lemma ents_drop_empty:
  "keys_distinct bc \<Longrightarrow> ents (AList.delete k bc) = ents (AList.update k [] bc)"
  by (induction bc) (auto simp: delete_idem)

lemma held_remove_refines:
  assumes inv: "held_inv q"
  shows "held_inv (held_remove k i q) \<and> held_List (held_remove k i q) = spec_remove k i (held_List q)"
proof -
  let ?bc = "hq_byChannel q" and ?keep = "\<lambda>e. \<not> (in_channel k (et_msg e) \<and> hm_ID (et_msg e) = i)"
  have kd: "keys_distinct ?bc" and oks: "\<forall>(k, st) \<in> set ?bc. chan_ok (hq_seq q) k st"
    and d: "distinct (map et_seq (ents ?bc))" using inv by (auto simp: held_inv_def entries_ents)
  have f: "ents (AList.update k (AList.delete i (chan k ?bc)) ?bc) = filter ?keep (ents ?bc)"
    by (rule ents_filter [OF kd oks])
  have e: "entries (held_remove k i q) = filter ?keep (ents ?bc)"
  proof (cases "map_of ?bc k")
    case None
    then have "chan k ?bc = []" "AList.update k [] ?bc = ?bc @ [(k, [])]"
      by (simp_all add: chan_def) (simp add: update_fresh map_of_eq_None_iff)
    then have "ents (AList.update k (AList.delete i (chan k ?bc)) ?bc) = ents ?bc"
      by (simp add: ents_def)
    then show ?thesis using None f by (simp add: held_remove_def entries_ents)
  next
    case (Some st)
    then show ?thesis
      using f ents_drop_empty [OF kd, of k] by (auto simp: held_remove_def entries_ents Let_def chan_def)
  qed
  have "chan_ok (hq_seq q) j st" if "(j, st) \<in> set (hq_byChannel (held_remove k i q))" for j st
  proof -
    have "chan_ok (hq_seq q) k (AList.delete i (chan k ?bc))"
      using chan_ok_lookup [OF inv, of k] set_delete_subset [of i "chan k ?bc"]
      by (auto simp: chan_ok_def AList.delete_eq distinct_map_filter intro: order_trans [OF length_filter_le])
    then show ?thesis
      using that oks set_update_subset [of k _ ?bc] set_delete_subset [of k ?bc]
      by (fastforce simp: held_remove_def Let_def chan_def split: option.splits if_splits)
  qed
  moreover have "keys_distinct (hq_byChannel (held_remove k i q))" "hq_seq (held_remove k i q) = hq_seq q"
    using kd by (auto simp: held_remove_def Let_def split: option.splits)
  moreover have "distinct (map et_seq (filter ?keep (ents ?bc)))" using d by (simp add: distinct_map_filter)
  ultimately have "held_inv (held_remove k i q)" using e by (auto simp: held_inv_def)
  then show ?thesis
    using e by (simp add: held_List_def entries_ents spec_remove_def filter_map filter_sort comp_def)
qed


lemma held_Consume_refines:
  assumes inv: "held_inv q"
  shows "held_inv (held_Consume ev q) \<and> held_List (held_Consume ev q) = spec_step ev (held_List q)"
proof (cases ev)
  case (MessageHeldEvent m)
  let ?k = "ChannelRef_Key (hm_Channel m)"
  show ?thesis
  proof (cases "hm_ID m = [] \<or> map_of (chan ?k (hq_byChannel q)) (hm_ID m) \<noteq> None")
    case True
    then have "spec_add m (held_List q) = held_List q"
      using held_known [OF inv, of ?k "hm_ID m"] by (auto simp: spec_add_def Let_def)
    then show ?thesis
      using held_add_known [OF True inv] by (simp add: MessageHeldEvent held_Consume_def spec_step_def)
  next
    case False
    then have "spec_add m (held_List q) = (if length (chan ?k (hq_byChannel q)) < heldCap
        then held_List q @ [m] else drop_first (in_channel ?k) (held_List q) @ [m])"
      using held_known [OF inv, of ?k "hm_ID m"] held_channel_length [OF inv, of ?k]
      by (auto simp: spec_add_def Let_def)
    then show ?thesis
      using held_add_new [OF inv, of m ?k] False by (simp add: MessageHeldEvent held_Consume_def spec_step_def)
  qed
qed (use inv held_remove_refines [OF inv] in \<open>auto simp: held_Consume_def spec_step_def\<close>)

lemma held_inv_new: "held_inv NewQueue"
  by (simp add: held_inv_def NewQueue_def entries_def)

lemma held_run:
  "held_inv q \<Longrightarrow> held_inv (fold held_Consume evs q) \<and> held_List (fold held_Consume evs q) = fold spec_step evs (held_List q)"
  by (induction evs arbitrary: q) (auto simp: held_Consume_refines)

text \<open>
  C6. The held-message queue is an oldest-first list per its contract: after any sequence of events,
  the listing is what the abstract queue gives, in which a newly held id goes to the end (a re-held
  one keeps its place), a channel over 200 messages loses its own oldest one only, and a resolution
  removes exactly the message of that channel and id. No channel ever holds more than 200.
\<close>

theorem held_refines_list:
  "held_List (fold held_Consume evs NewQueue) = fold spec_step evs []
    \<and> length (filter (in_channel key) (held_List (fold held_Consume evs NewQueue))) \<le> heldCap"
proof -
  have r: "held_inv (fold held_Consume evs NewQueue)"
    "held_List (fold held_Consume evs NewQueue) = fold spec_step evs (held_List NewQueue)"
    using held_run [OF held_inv_new] by auto
  moreover have "held_List NewQueue = []" by (simp add: held_List_def entries_def NewQueue_def)
  moreover have "length (chan key (hq_byChannel (fold held_Consume evs NewQueue))) \<le> heldCap"
    using chan_ok_lookup [OF r(1), of key] by (simp add: chan_ok_def)
  ultimately show ?thesis using held_channel_length [OF r(1), of key] by simp
qed

end
