(* ===== verification/Rolling.thy ===== *)
theory Rolling
  imports Go_Values
begin

text \<open>
  Rolling windows of per-second buckets. The statistics, the moment detector and the velocity stage
  each keep a ring of buckets indexed by the second modulo the window, reusing a bucket when a new
  second falls on it. The locale states what their \<^verbatim>\<open>record\<close> does to the buckets, and proves once what
  such a ring knows: for events recorded in time order, exactly the events of the window.
\<close>

subsection \<open>The last second of each residue\<close>

definition slot_of :: "nat \<Rightarrow> int \<Rightarrow> nat" where
  "slot_of W t = nat (t mod int W)"

definition latest :: "nat \<Rightarrow> int list \<Rightarrow> nat \<Rightarrow> int option" where
  "latest W ts i = (let xs = filter (\<lambda>t. slot_of W t = i) ts in if xs = [] then None else Some (last xs))"

lemma slot_of_less: "0 < W \<Longrightarrow> slot_of W t < W"
  by (simp add: slot_of_def nat_less_iff)

lemma latest_Nil [simp]: "latest W [] i = None"
  by (simp add: latest_def)

lemma latest_snoc [simp]:
  "latest W (ts @ [t]) i = (if slot_of W t = i then Some t else latest W ts i)"
  by (simp add: latest_def)

lemma latest_Some: "latest W ts i = Some s \<Longrightarrow> s \<in> set ts \<and> slot_of W s = i"
proof (induction ts rule: rev_induct)
  case (snoc t ts)
  then show ?case by (auto split: if_splits)
qed simp

lemma latest_max: "sorted ts \<Longrightarrow> t \<in> set ts \<Longrightarrow> slot_of W t = i \<Longrightarrow> \<exists>s. latest W ts i = Some s \<and> t \<le> s"
proof (induction ts rule: rev_induct)
  case (snoc u ts)
  then show ?case by (auto simp: sorted_append split: if_splits)
qed simp

text \<open>Two seconds of one residue less than a window apart are the same second.\<close>

lemma same_slot:
  assumes "0 < W" "slot_of W s = slot_of W t" "t \<le> s" "s - t < int W"
  shows "s = t"
proof -
  have "s mod int W = t mod int W"
    using assms(1,2) by (simp add: slot_of_def) (metis nat_eq_iff pos_mod_sign of_nat_0_less_iff)
  then have "int W dvd s - t" by (simp add: mod_eq_dvd_iff)
  then show ?thesis using assms(3,4) by (metis diff_ge_0_iff_ge eq_iff_diff_eq_0 linorder_not_le zdvd_imp_le order_le_less)
qed

text \<open>The recorded events of one slot inside the window are those of the slot's last second.\<close>

lemma slot_window:
  assumes W: "0 < W" and s: "sorted (map sec evs)" and now: "\<forall>e \<in> set evs. sec e \<le> now"
  shows "filter (\<lambda>e. now - sec e < int W \<and> slot_of W (sec e) = i) evs =
    (case latest W (map sec evs) i of None \<Rightarrow> []
     | Some s \<Rightarrow> if now - s < int W then filter (\<lambda>e. sec e = s) evs else [])"
proof (cases "latest W (map sec evs) i")
  case None
  then have "\<forall>e \<in> set evs. slot_of W (sec e) \<noteq> i"
    using latest_max [OF s, of "sec e" W i for e] by auto
  then show ?thesis using None by (auto simp: filter_empty_conv)
next
  case (Some l)
  then have l: "l \<in> sec ` set evs" "slot_of W l = i" using latest_Some by fastforce+
  have le: "sec e \<le> l" if "e \<in> set evs" "slot_of W (sec e) = i" for e
    using latest_max [OF s, of "sec e" W i] that Some by auto
  have "sec e = l" if "e \<in> set evs" "now - sec e < int W" "slot_of W (sec e) = i" for e
    using same_slot [OF W, of l "sec e"] le that l now by fastforce
  then have "(now - sec e < int W \<and> slot_of W (sec e) = i) = (now - l < int W \<and> sec e = l)" if "e \<in> set evs" for e
    using that l(2) by auto
  then have "filter (\<lambda>e. now - sec e < int W \<and> slot_of W (sec e) = i) evs = filter (\<lambda>e. now - l < int W \<and> sec e = l) evs"
    by (intro filter_cong) auto
  then show ?thesis using Some by auto
qed

lemma sum_slots_weighted:
  fixes f :: "'e \<Rightarrow> 'n :: comm_monoid_add"
  assumes "0 < W"
  shows "(\<Sum>i<W. sum_list (map f (filter (\<lambda>e. P e \<and> slot_of W (sec e) = i) evs))) = sum_list (map f (filter P evs))"
proof (induction evs)
  case (Cons e evs)
  have "(\<Sum>i<W. if P e \<and> slot_of W (sec e) = i then f e else 0) = (if P e then f e else 0)"
    using slot_of_less [OF assms, of "sec e"] by (auto simp: sum.delta if_distrib)
  moreover have "sum_list (map f (filter (\<lambda>x. P x \<and> slot_of W (sec x) = i) (e # evs))) =
      (if P e \<and> slot_of W (sec e) = i then f e else 0)
      + sum_list (map f (filter (\<lambda>x. P x \<and> slot_of W (sec x) = i) evs))" for i
    by simp
  ultimately show ?case using Cons by (simp add: sum.distrib)
qed simp

lemma sum_slots:
  assumes "0 < W"
  shows "(\<Sum>i<W. length (filter (\<lambda>e. P e \<and> slot_of W (sec e) = i) evs)) = length (filter P evs)"
  using sum_slots_weighted [OF assms, of "\<lambda>_. 1 :: nat" P sec evs] by (simp add: sum_list_triv)

subsection \<open>Rings of buckets\<close>

text \<open>\<open>view r i\<close> is bucket \<open>i\<close> as its second and content, None for one never used.\<close>

locale bucket_ring =
  fixes W :: nat
    and sec :: "'e \<Rightarrow> int"
    and rec :: "'e \<Rightarrow> 'r \<Rightarrow> 'r"
    and view :: "'r \<Rightarrow> nat \<Rightarrow> (int \<times> 'b) option"
    and fresh :: 'b
    and add :: "'e \<Rightarrow> 'b \<Rightarrow> 'b"
    and wf :: "'r \<Rightarrow> bool"
    and ok :: "'e \<Rightarrow> bool"
  assumes W_pos: "0 < W"
    and wf_rec: "wf r \<Longrightarrow> ok e \<Longrightarrow> wf (rec e r)"
    and view_rec: "wf r \<Longrightarrow> ok e \<Longrightarrow> view (rec e r) i = (if i = slot_of W (sec e)
      then Some (sec e, add e (case view r i of None \<Rightarrow> fresh | Some (s, b) \<Rightarrow> if s = sec e then b else fresh))
      else view r i)"
begin

definition summary :: "'e list \<Rightarrow> 'b" where
  "summary es = fold add es fresh"

lemma summary_snoc [simp]: "summary (es @ [e]) = add e (summary es)"
  by (simp add: summary_def)

lemma wf_records: "wf r \<Longrightarrow> \<forall>e \<in> set evs. ok e \<Longrightarrow> wf (fold rec evs r)"
  by (induction evs arbitrary: r) (auto simp: wf_rec)

lemma view_records:
  assumes "wf r0" "\<forall>i. view r0 i = None"
  shows "sorted (map sec evs) \<Longrightarrow> \<forall>e \<in> set evs. ok e \<Longrightarrow>
    view (fold rec evs r0) i =
      map_option (\<lambda>s. (s, summary (filter (\<lambda>e. sec e = s) evs))) (latest W (map sec evs) i)"
proof (induction evs arbitrary: i rule: rev_induct)
  case Nil
  then show ?case using assms(2) by simp
next
  case (snoc e evs)
  have srt: "sorted (map sec evs)" and le: "\<forall>x \<in> set evs. sec x \<le> sec e"
    using snoc.prems(1) by (auto simp: sorted_append)
  have IH: "view (fold rec evs r0) j =
      map_option (\<lambda>s. (s, summary (filter (\<lambda>e. sec e = s) evs))) (latest W (map sec evs) j)" for j
    using snoc.IH srt snoc.prems(2) by simp
  have step: "view (fold rec (evs @ [e]) r0) i = (if i = slot_of W (sec e)
      then Some (sec e, add e (case view (fold rec evs r0) i of None \<Rightarrow> fresh | Some (s, b) \<Rightarrow> if s = sec e then b else fresh))
      else view (fold rec evs r0) i)"
    using view_rec [OF wf_records [OF assms(1)], of evs e i] snoc.prems(2) by simp
  show ?case
  proof (cases "i = slot_of W (sec e)")
    case True
    have "(case view (fold rec evs r0) i of None \<Rightarrow> fresh | Some (s, b) \<Rightarrow> if s = sec e then b else fresh) =
        summary (filter (\<lambda>x. sec x = sec e) evs)"
    proof (cases "latest W (map sec evs) i = Some (sec e)")
      case False
      have "sec x \<noteq> sec e" if x: "x \<in> set evs" for x
      proof
        assume "sec x = sec e"
        then have "sec e \<in> set (map sec evs)" using x by (metis image_eqI set_map)
        then obtain l where "latest W (map sec evs) i = Some l" "sec e \<le> l"
          using latest_max [OF srt, of "sec e" W i] True by auto
        moreover from this(1) have "l \<le> sec e" using latest_Some [of W "map sec evs" i l] le by auto
        ultimately show False using False by simp
      qed
      then have "filter (\<lambda>x. sec x = sec e) evs = []" by (simp add: filter_empty_conv)
      then show ?thesis using False by (auto simp: IH summary_def split: option.splits)
    qed (simp add: IH)
    then show ?thesis using True step by simp
  next
    case False
    have "sec e \<noteq> s" if "latest W (map sec evs) i = Some s" for s
      using latest_Some [OF that] False by auto
    then show ?thesis using False step IH by (cases "latest W (map sec evs) i") auto
  qed
qed

text \<open>So the buckets of the window hold the events of the window.\<close>

definition in_window :: "int \<Rightarrow> 'e list \<Rightarrow> 'e list" where
  "in_window now evs = filter (\<lambda>e. now - sec e < int W) evs"

lemma window_bucket:
  assumes "wf r0" "\<forall>i. view r0 i = None" "sorted (map sec evs)" "\<forall>e \<in> set evs. ok e" "\<forall>e \<in> set evs. sec e \<le> now"
  shows "(case view (fold rec evs r0) i of None \<Rightarrow> None | Some (s, b) \<Rightarrow> if now - s < int W then Some b else None) =
    (let es = filter (\<lambda>e. now - sec e < int W \<and> slot_of W (sec e) = i) evs in if es = [] then None else Some (summary es))"
proof (cases "latest W (map sec evs) i")
  case None
  then show ?thesis
    using slot_window [OF W_pos assms(3,5), of i] view_records [OF assms(1,2,3,4), of i] by simp
next
  case (Some s)
  then have "filter (\<lambda>e. sec e = s) evs \<noteq> []" using latest_Some by (force simp: filter_empty_conv)
  then show ?thesis
    using Some slot_window [OF W_pos assms(3,5), of i] view_records [OF assms(1,2,3,4), of i] by (simp add: Let_def)
qed

lemma window_total:
  assumes "wf r0" "\<forall>i. view r0 i = None" "sorted (map sec evs)" "\<forall>e \<in> set evs. ok e" "\<forall>e \<in> set evs. sec e \<le> now"
    and count: "\<And>es. cnt (summary es) = length es"
  shows "(\<Sum>i<W. case view (fold rec evs r0) i of None \<Rightarrow> 0 | Some (s, b) \<Rightarrow> if now - s < int W then cnt b else 0) =
    length (in_window now evs)"
proof -
  have "(case view (fold rec evs r0) i of None \<Rightarrow> 0 | Some (s, b) \<Rightarrow> if now - s < int W then cnt b else 0) =
      length (filter (\<lambda>e. now - sec e < int W \<and> slot_of W (sec e) = i) evs)" for i
    using window_bucket [OF assms(1-5), of i] count by (auto simp: Let_def split: option.splits if_splits)
  then show ?thesis using sum_slots [OF W_pos] by (simp add: in_window_def)
qed

end

end
