(* ===== verification/Stats_Agg.thy ===== *)
theory Stats_Agg
  imports Platform Rolling "HOL-Library.Product_Lexorder"
begin

text \<open>
  \<^verbatim>\<open>internal/stats\<close>: rolling messages per second, unique chatters and the emote leaderboard, per channel.
  A bucket whose author map is still nil is None. Author sets are lists without repetition; emote
  counts are an association list, since \<^verbatim>\<open>topEmotes\<close> ranges over them.
\<close>

subsection \<open>Buckets\<close>

abbreviation statsWindow :: nat where "statsWindow \<equiv> 60"
abbreviation topEmoteCount :: nat where "topEmoteCount \<equiv> 5"

record bucket =
  bk_sec :: int
  bk_count :: int
  bk_authors :: "string list"
  bk_emotes :: "(string \<times> int) list"

definition bucket_reset :: "int \<Rightarrow> bucket" where
  "bucket_reset s = \<lparr>bk_sec = s, bk_count = 0, bk_authors = [], bk_emotes = []\<rparr>"

definition bump :: "string \<Rightarrow> int \<Rightarrow> (string \<times> int) list \<Rightarrow> (string \<times> int) list" where
  "bump n c m = AList.update n ((case map_of m n of None \<Rightarrow> 0 | Some x \<Rightarrow> x) + c) m"

record channelStats =
  ct_ref :: ChannelRef
  ct_buckets :: "bucket option list"

definition newChannelStats :: "ChannelRef \<Rightarrow> channelStats" where
  "newChannelStats ref = \<lparr>ct_ref = ref, ct_buckets = replicate statsWindow None\<rparr>"

definition tally :: "string \<Rightarrow> string list \<Rightarrow> bucket \<Rightarrow> bucket" where
  "tally author emoteNames b = b\<lparr>bk_count := bk_count b + 1,
     bk_authors := (if author \<noteq> [] then List.insert author (bk_authors b) else bk_authors b),
     bk_emotes := fold (\<lambda>n m. bump n 1 m) emoteNames (bk_emotes b)\<rparr>"

definition stats_record :: "int \<Rightarrow> string \<Rightarrow> string list \<Rightarrow> channelStats \<Rightarrow> channelStats" where
  "stats_record now author emoteNames cs =
    (let i = slot_of statsWindow now;
         b = (case ct_buckets cs ! i of
                None \<Rightarrow> bucket_reset now
              | Some b \<Rightarrow> if bk_sec b \<noteq> now then bucket_reset now else b)
     in cs\<lparr>ct_buckets := (ct_buckets cs)[i := Some (tally author emoteNames b)]\<rparr>)"

text \<open>The buckets a snapshot counts.\<close>

definition live_bucket :: "int \<Rightarrow> bucket option \<Rightarrow> bucket option" where
  "live_bucket now b = (case b of None \<Rightarrow> None
     | Some b \<Rightarrow> if now - bk_sec b \<ge> int statsWindow \<or> bk_sec b > now then None else Some b)"

definition topEmotes :: "(string \<times> int) list \<Rightarrow> nat \<Rightarrow> EmoteCount list" where
  "topEmotes counts n = take n (map (\<lambda>(name, c). \<lparr>ec_Name = name, ec_Count = c\<rparr>)
     (sort_key (\<lambda>(name, c). (- c, name)) counts))"

definition stats_snapshot :: "int \<Rightarrow> channelStats \<Rightarrow> StatsSnapshot" where
  "stats_snapshot now cs =
    (let live = List.map_filter (live_bucket now) (ct_buckets cs);
         total = sum_list (map bk_count live);
         authors = remdups (concat (map bk_authors live));
         emotes = fold (\<lambda>b m. fold (\<lambda>(n, c) m. bump n c m) (bk_emotes b) m) live []
     in \<lparr>ss_WindowSeconds = int statsWindow,
         ss_MessagesPerSec = fl (fl_int total / fl_int (int statsWindow)),
         ss_UniqueChatters = length authors,
         ss_TopEmotes = topEmotes emotes topEmoteCount\<rparr>)"

definition stats_active :: "int \<Rightarrow> channelStats \<Rightarrow> bool" where
  "stats_active now cs = list_ex (\<lambda>b. live_bucket now b \<noteq> None) (ct_buckets cs)"

subsection \<open>The aggregator\<close>

record Aggregator =
  ag_channels :: "(string \<times> channelStats) list"
  ag_out :: "Event list"

definition NewAggregator :: Aggregator where
  "NewAggregator = \<lparr>ag_channels = [], ag_out = []\<rparr>"

definition emote_names :: "UnifiedMessage \<Rightarrow> string list" where
  "emote_names m = map sg_Text (filter (\<lambda>sg. sg_Kind sg = SegEmote) (um_Segments m))"

definition stats_Consume :: "time \<Rightarrow> Event \<Rightarrow> Aggregator \<Rightarrow> Aggregator" where
  "stats_Consume now ev a = (case ev of
     MessageEvent m \<Rightarrow>
       let author = (if au_ID (um_Author m) = [] then au_Login (um_Author m) else au_ID (um_Author m));
           key = ChannelRef_Key (um_Channel m);
           cs = (case map_of (ag_channels a) key of None \<Rightarrow> newChannelStats (um_Channel m) | Some cs \<Rightarrow> cs)
       in a\<lparr>ag_channels := AList.update key (stats_record (unix now) author (emote_names m) cs) (ag_channels a)\<rparr>
   | _ \<Rightarrow> a)"

definition emit :: "time \<Rightarrow> Aggregator \<Rightarrow> Aggregator" where
  "emit now a = a\<lparr>ag_out := ag_out a @ map (\<lambda>(_, cs). StatsEvent (ct_ref cs) (stats_snapshot (unix now) cs))
     (filter (\<lambda>(_, cs). stats_active (unix now) cs) (ag_channels a))\<rparr>"

subsection \<open>The ring holds the last minute\<close>

text \<open>One recorded message: its second, author and emote names.\<close>

type_synonym seen = "int \<times> string \<times> string list"

abbreviation record_seen :: "seen \<Rightarrow> channelStats \<Rightarrow> channelStats" where
  "record_seen e cs \<equiv> stats_record (fst e) (fst (snd e)) (snd (snd e)) cs"

definition stats_view :: "channelStats \<Rightarrow> nat \<Rightarrow> (int \<times> bucket) option" where
  "stats_view cs i = (if i < statsWindow then map_option (\<lambda>b. (bk_sec b, b\<lparr>bk_sec := 0\<rparr>)) (ct_buckets cs ! i) else None)"

interpretation stats_ring: bucket_ring statsWindow "fst :: seen \<Rightarrow> int" record_seen stats_view "bucket_reset 0"
  "\<lambda>e. tally (fst (snd e)) (snd (snd e))" "\<lambda>cs. length (ct_buckets cs) = statsWindow" "\<lambda>_. True"
proof (unfold_locales, goal_cases)
  case (3 cs e i)
  have "slot_of statsWindow (fst e) < statsWindow" by (rule slot_of_less) simp
  then show ?case
    using 3 by (auto simp: stats_view_def stats_record_def Let_def tally_def bucket_reset_def
        split: option.splits)
qed (simp_all add: stats_record_def Let_def)


subsection \<open>Counting\<close>

definition cnt :: "(string \<times> int) list \<Rightarrow> string \<Rightarrow> int" where
  "cnt m n = (case map_of m n of None \<Rightarrow> 0 | Some c \<Rightarrow> c)"

lemma cnt_bump: "cnt (bump n c m) j = cnt m j + (if j = n then c else 0)"
  by (simp add: cnt_def bump_def)

lemma keys_distinct_bump: "keys_distinct m \<Longrightarrow> keys_distinct (bump n c m)"
  by (simp add: bump_def)

lemma cnt_names: "cnt (fold (\<lambda>n m. bump n 1 m) ns m) j = cnt m j + int (count_list ns j)"
  by (induction ns arbitrary: m) (auto simp: cnt_bump)

lemma keys_distinct_names: "keys_distinct m \<Longrightarrow> keys_distinct (fold (\<lambda>n m. bump n 1 m) ns m)"
  by (induction ns arbitrary: m) (auto simp: keys_distinct_bump)

lemma cnt_counts:
  "keys_distinct em \<Longrightarrow> cnt (fold (\<lambda>(n, c) m. bump n c m) em m) j = cnt m j + cnt em j"
proof (induction em arbitrary: m)
  case (Cons p em)
  obtain n c where p: "p = (n, c)" by fastforce
  have "j \<notin> fst ` set em" if "n = j" using Cons.prems p that by auto
  then have "n = j \<Longrightarrow> cnt em j = 0" by (metis cnt_def map_of_eq_None_iff option.simps(4))
  moreover have "cnt (p # em) j = (if j = n then c else cnt em j)" by (simp add: cnt_def p)
  ultimately show ?case using Cons p by (auto simp: cnt_bump)
qed (simp add: cnt_def)

lemma keys_distinct_counts: "keys_distinct m \<Longrightarrow> keys_distinct (fold (\<lambda>(n, c) m. bump n c m) em m)"
  by (induction em arbitrary: m) (auto simp: keys_distinct_bump)

lemma cnt_buckets:
  "\<forall>b \<in> set bs. keys_distinct (bk_emotes b) \<Longrightarrow>
    cnt (fold (\<lambda>b m. fold (\<lambda>(n, c) m. bump n c m) (bk_emotes b) m) bs m) j =
      cnt m j + sum_list (map (\<lambda>b. cnt (bk_emotes b) j) bs)"
  by (induction bs arbitrary: m) (auto simp: cnt_counts)

lemma keys_distinct_buckets:
  "keys_distinct m \<Longrightarrow> keys_distinct (fold (\<lambda>b m. fold (\<lambda>(n, c) m. bump n c m) (bk_emotes b) m) bs m)"
  by (induction bs arbitrary: m) (auto simp: keys_distinct_counts)

text \<open>What a bucket knows of the messages it stands for.\<close>

lemma tally_sel [simp]:
  "bk_count (tally a ns b) = bk_count b + 1"
  "set (bk_authors (tally a ns b)) = {x \<in> insert a (set (bk_authors b)). x = a \<longrightarrow> a \<noteq> [] \<or> a \<in> set (bk_authors b)}"
  "bk_emotes (tally a ns b) = fold (\<lambda>n m. bump n 1 m) ns (bk_emotes b)"
  by (auto simp: tally_def)

lemma summary_Nil: "stats_ring.summary [] = bucket_reset 0"
  by (simp add: stats_ring.summary_def)

lemma summary_count: "bk_count (stats_ring.summary es) = int (length es)"
proof (induction es rule: rev_induct)
  case Nil
  show ?case unfolding summary_Nil by (simp add: bucket_reset_def)
qed simp

lemma summary_authors: "set (bk_authors (stats_ring.summary es)) = {a \<in> (fst \<circ> snd) ` set es. a \<noteq> []}"
proof (induction es rule: rev_induct)
  case Nil
  show ?case unfolding summary_Nil by (simp add: bucket_reset_def)
next
  case (snoc e es)
  show ?case by (simp add: snoc) auto
qed

lemma summary_distinct: "keys_distinct (bk_emotes (stats_ring.summary es))"
proof (induction es rule: rev_induct)
  case Nil
  show ?case unfolding summary_Nil by (simp add: bucket_reset_def)
qed (simp add: keys_distinct_names)

lemma summary_emotes:
  "cnt (bk_emotes (stats_ring.summary es)) n = sum_list (map (\<lambda>e. int (count_list (snd (snd e)) n)) es)"
proof (induction es rule: rev_induct)
  case Nil
  show ?case unfolding summary_Nil by (simp add: bucket_reset_def cnt_def)
qed (simp add: cnt_names)

text \<open>The live buckets of a snapshot, slot by slot.\<close>

lemma live_slot:
  assumes "sorted (map fst evs)" "\<forall>e \<in> set evs. fst e \<le> now" "i < statsWindow"
  shows "map_option (\<lambda>b. b\<lparr>bk_sec := 0\<rparr>) (live_bucket now (ct_buckets (fold record_seen evs (newChannelStats ref)) ! i)) =
    (let es = filter (\<lambda>e. now - fst e < int statsWindow \<and> slot_of statsWindow (fst e) = i) evs
     in if es = [] then None else Some (stats_ring.summary es))"
proof -
  let ?cs = "fold record_seen evs (newChannelStats ref)"
  have new: "length (ct_buckets (newChannelStats ref)) = statsWindow" "\<forall>i. stats_view (newChannelStats ref) i = None"
    by (simp_all add: newChannelStats_def stats_view_def)
  have "bk_sec b \<le> now" if b: "ct_buckets ?cs ! i = Some b" for b
  proof -
    have "stats_view ?cs i = Some (bk_sec b, b\<lparr>bk_sec := 0\<rparr>)" using b assms(3) by (simp add: stats_view_def)
    then have "latest statsWindow (map fst evs) i = Some (bk_sec b)"
      using stats_ring.view_records [OF new assms(1), of i] by auto
    then show ?thesis using latest_Some assms(2) by fastforce
  qed
  then have "map_option (\<lambda>b. b\<lparr>bk_sec := 0\<rparr>) (live_bucket now (ct_buckets ?cs ! i)) =
      (case stats_view ?cs i of None \<Rightarrow> None | Some (s, b) \<Rightarrow> if now - s < int statsWindow then Some b else None)"
    using assms(3) by (auto simp: live_bucket_def stats_view_def split: option.splits)
  then show ?thesis using stats_ring.window_bucket [OF new assms(1) _ assms(2)] by simp
qed

lemma sum_map_filter:
  fixes f :: "'b \<Rightarrow> int"
  shows "sum_list (map f (List.map_filter h xs)) = (\<Sum>i<length xs. case h (xs ! i) of None \<Rightarrow> 0 | Some y \<Rightarrow> f y)"
proof (induction xs rule: rev_induct)
  case (snoc x xs)
  have "(\<Sum>i<length xs. case h ((xs @ [x]) ! i) of None \<Rightarrow> 0 | Some y \<Rightarrow> f y) =
      (\<Sum>i<length xs. case h (xs ! i) of None \<Rightarrow> 0 | Some y \<Rightarrow> f y)"
    by (intro sum.cong) (auto simp: nth_append)
  then show ?case using snoc by (simp add: List.map_filter_def split: option.split)
qed (simp add: List.map_filter_def)

text \<open>A quantity of the live buckets is the sum over the slots of what each slot's messages give.\<close>

lemma live_sum:
  fixes f :: "bucket \<Rightarrow> int" and g :: "seen \<Rightarrow> int"
  assumes evs: "sorted (map fst evs)" "\<forall>e \<in> set evs. fst e \<le> now"
    and f: "\<And>b s. f (b\<lparr>bk_sec := s\<rparr>) = f b" "\<And>es. f (stats_ring.summary es) = sum_list (map g es)"
  shows "sum_list (map f (List.map_filter (live_bucket now) (ct_buckets (fold record_seen evs (newChannelStats ref))))) =
    sum_list (map g (filter (\<lambda>e. now - fst e < int statsWindow) evs))"
proof -
  let ?bs = "ct_buckets (fold record_seen evs (newChannelStats ref))"
  let ?es = "\<lambda>i. filter (\<lambda>e. now - fst e < int statsWindow \<and> slot_of statsWindow (fst e) = i) evs"
  have len: "length ?bs = statsWindow"
    using stats_ring.wf_records [of "newChannelStats ref" evs] by (simp add: newChannelStats_def)
  have "(case live_bucket now (?bs ! i) of None \<Rightarrow> 0 | Some b \<Rightarrow> f b) = sum_list (map g (?es i))" if "i < statsWindow" for i
  proof (cases "live_bucket now (?bs ! i)")
    case None
    then have "?es i = []" using live_slot [OF evs that, of ref] by (simp add: Let_def split: if_splits)
    then show ?thesis using None by simp
  next
    case (Some b)
    then have "b\<lparr>bk_sec := 0\<rparr> = stats_ring.summary (?es i)"
      using live_slot [OF evs that, of ref] by (simp add: Let_def split: if_splits)
    then have "f b = sum_list (map g (?es i))" using f(1) [of 0 b] f(2) [of "?es i"] by simp
    then show ?thesis using Some by simp
  qed
  then have "(\<Sum>i<statsWindow. case live_bucket now (?bs ! i) of None \<Rightarrow> 0 | Some b \<Rightarrow> f b) =
      (\<Sum>i<statsWindow. sum_list (map g (?es i)))"
    by (intro sum.cong refl) (simp only: lessThan_iff)
  also have "\<dots> = sum_list (map g (filter (\<lambda>e. now - fst e < int statsWindow) evs))"
    by (rule sum_slots_weighted) simp
  finally show ?thesis
    unfolding sum_map_filter len .
qed

text \<open>The live buckets are summaries of the window's messages, and every such message is in one.\<close>

lemma live_summary:
  assumes evs: "sorted (map fst evs)" "\<forall>e \<in> set evs. fst e \<le> now"
    and b: "b \<in> set (List.map_filter (live_bucket now) (ct_buckets (fold record_seen evs (newChannelStats ref))))"
  obtains i where "i < statsWindow" "b\<lparr>bk_sec := 0\<rparr> =
    stats_ring.summary (filter (\<lambda>e. now - fst e < int statsWindow \<and> slot_of statsWindow (fst e) = i) evs)"
proof -
  let ?bs = "ct_buckets (fold record_seen evs (newChannelStats ref))"
  have len: "length ?bs = statsWindow"
    using stats_ring.wf_records [of "newChannelStats ref" evs] by (simp add: newChannelStats_def)
  obtain x where "x \<in> set ?bs" "live_bucket now x = Some b" using b by (auto simp: List.map_filter_def)
  then obtain i where i: "i < statsWindow" "live_bucket now (?bs ! i) = Some b"
    unfolding in_set_conv_nth len by blast
  then show thesis using that [OF i(1)] live_slot [OF evs i(1), of ref] by (simp add: Let_def split: if_splits)
qed

lemma map_option_SomeE: "map_option f x = Some y \<Longrightarrow> (\<And>z. x = Some z \<Longrightarrow> f z = y \<Longrightarrow> P) \<Longrightarrow> P"
  by auto

lemma live_covers:
  assumes evs: "sorted (map fst evs)" "\<forall>e \<in> set evs. fst e \<le> now" and i: "i < statsWindow"
    and e: "e \<in> set evs" "now - fst e < int statsWindow" "slot_of statsWindow (fst e) = i"
  obtains b where "b \<in> set (List.map_filter (live_bucket now) (ct_buckets (fold record_seen evs (newChannelStats ref))))"
    "b\<lparr>bk_sec := 0\<rparr> =
      stats_ring.summary (filter (\<lambda>e. now - fst e < int statsWindow \<and> slot_of statsWindow (fst e) = i) evs)"
proof -
  let ?bs = "ct_buckets (fold record_seen evs (newChannelStats ref))"
  have len: "length ?bs = statsWindow"
    using stats_ring.wf_records [of "newChannelStats ref" evs] by (simp add: newChannelStats_def)
  have ne: "filter (\<lambda>e. now - fst e < int statsWindow \<and> slot_of statsWindow (fst e) = i) evs \<noteq> []"
    using e by (auto simp: filter_empty_conv)
  have "map_option (\<lambda>b. b\<lparr>bk_sec := 0\<rparr>) (live_bucket now (?bs ! i)) = Some (stats_ring.summary
      (filter (\<lambda>e. now - fst e < int statsWindow \<and> slot_of statsWindow (fst e) = i) evs))"
    unfolding live_slot [OF evs i] Let_def if_not_P [OF ne] ..
  then obtain b where b: "live_bucket now (?bs ! i) = Some b" and eq: "b\<lparr>bk_sec := 0\<rparr> =
      stats_ring.summary (filter (\<lambda>e. now - fst e < int statsWindow \<and> slot_of statsWindow (fst e) = i) evs)"
    by (rule map_option_SomeE)
  have "?bs ! i \<in> set ?bs" using i unfolding len [symmetric] by (rule nth_mem)
  then have "b \<in> set (List.map_filter (live_bucket now) ?bs)" unfolding List.map_filter_def using b by force
  then show thesis using that eq by blast
qed

lemma bk_authors_cong: "b\<lparr>bk_sec := 0\<rparr> = b' \<Longrightarrow> bk_authors b = bk_authors b'"
  by auto

lemma bk_emotes_cong: "b\<lparr>bk_sec := 0\<rparr> = b' \<Longrightarrow> bk_emotes b = bk_emotes b'"
  by auto

lemma live_authors:
  assumes evs: "sorted (map fst evs)" "\<forall>e \<in> set evs. fst e \<le> now"
  shows "a \<in> (\<Union>b \<in> set (List.map_filter (live_bucket now) (ct_buckets (fold record_seen evs (newChannelStats ref)))). set (bk_authors b))
    \<longleftrightarrow> a \<noteq> [] \<and> (\<exists>e \<in> set evs. now - fst e < int statsWindow \<and> fst (snd e) = a)" (is "?L \<longleftrightarrow> ?R")
proof
  assume ?L
  then obtain b where b: "b \<in> set (List.map_filter (live_bucket now) (ct_buckets (fold record_seen evs (newChannelStats ref))))"
    "a \<in> set (bk_authors b)" by blast
  obtain i where i: "b\<lparr>bk_sec := 0\<rparr> = stats_ring.summary
      (filter (\<lambda>e. now - fst e < int statsWindow \<and> slot_of statsWindow (fst e) = i) evs)"
    using live_summary [OF evs b(1)] .
  from b(2) show ?R unfolding bk_authors_cong [OF i] summary_authors by auto
next
  assume ?R
  then obtain e where e: "a \<noteq> []" "e \<in> set evs" "now - fst e < int statsWindow" "fst (snd e) = a" by blast
  have i: "slot_of statsWindow (fst e) < statsWindow" by (rule slot_of_less) simp
  obtain b where b: "b \<in> set (List.map_filter (live_bucket now) (ct_buckets (fold record_seen evs (newChannelStats ref))))"
    "b\<lparr>bk_sec := 0\<rparr> = stats_ring.summary
      (filter (\<lambda>x. now - fst x < int statsWindow \<and> slot_of statsWindow (fst x) = slot_of statsWindow (fst e)) evs)"
    using live_covers [OF evs i e(2,3) refl] .
  have "a \<in> set (bk_authors b)" unfolding bk_authors_cong [OF b(2)] summary_authors using e by force
  then show ?L using b(1) by blast
qed

subsection \<open>A snapshot is exact\<close>

lemma cnt_pair: "keys_distinct m \<Longrightarrow> (n, c) \<in> set m \<Longrightarrow> cnt m n = c"
  by (simp add: cnt_def)

text \<open>The emote counts a snapshot gathers before it ranks them.\<close>

lemma live_emotes:
  fixes ref :: ChannelRef
  assumes evs: "sorted (map fst evs)" "\<forall>e \<in> set evs. fst e \<le> now"
  defines "live \<equiv> List.map_filter (live_bucket now) (ct_buckets (fold record_seen evs (newChannelStats ref)))"
  shows "cnt (fold (\<lambda>b m. fold (\<lambda>(n, c) m. bump n c m) (bk_emotes b) m) live []) n =
    sum_list (map (\<lambda>e. int (count_list (snd (snd e)) n)) (filter (\<lambda>e. now - fst e < int statsWindow) evs))"
proof -
  have "keys_distinct (bk_emotes b)" if b: "b \<in> set live" for b
  proof -
    obtain i where i: "b\<lparr>bk_sec := 0\<rparr> = stats_ring.summary
        (filter (\<lambda>e. now - fst e < int statsWindow \<and> slot_of statsWindow (fst e) = i) evs)"
      using live_summary [OF evs b [unfolded live_def]] .
    show ?thesis unfolding bk_emotes_cong [OF i] by (rule summary_distinct)
  qed
  then have "cnt (fold (\<lambda>b m. fold (\<lambda>(n, c) m. bump n c m) (bk_emotes b) m) live []) n =
      cnt [] n + sum_list (map (\<lambda>b. cnt (bk_emotes b) n) live)" by (intro cnt_buckets) blast
  moreover have "cnt [] n = 0" by (simp add: cnt_def)
  moreover have "sum_list (map (\<lambda>b. cnt (bk_emotes b) n) live) =
      sum_list (map (\<lambda>e. int (count_list (snd (snd e)) n)) (filter (\<lambda>e. now - fst e < int statsWindow) evs))"
    unfolding live_def by (rule live_sum [OF evs]) (simp_all add: summary_emotes)
  ultimately show ?thesis by simp
qed

lemma topEmotes_counts:
  "keys_distinct m \<Longrightarrow> ec \<in> set (topEmotes m k) \<Longrightarrow> ec_Count ec = cnt m (ec_Name ec)"
  unfolding topEmotes_def by (auto dest!: in_set_takeD simp: cnt_pair)

lemma sort_key_pair_desc: "sorted (map (\<lambda>(n :: string, c :: int). - c) (sort_key (\<lambda>(n, c). (- c, n)) m))"
proof -
  have "sorted (map (\<lambda>(n, c). (- c, n)) (sort_key (\<lambda>(n :: string, c :: int). (- c, n)) m))" by (rule sorted_sort_key)
  then show ?thesis unfolding sorted_map by (rule sorted_wrt_mono_rel [rotated]) auto
qed

text \<open>
  The per-channel statistics are exact: after any messages recorded in time order, a snapshot
  taken at or after the last of them reports as messages per second the number of messages of the
  last 60 seconds divided by 60 (in float64), as unique chatters the number of distinct non-empty
  authors of those messages, and with every listed emote the number of times it occurs in them. The
  ring of 60 reused buckets forgets nothing of the window and remembers nothing older.
\<close>

theorem stats_exact:
  assumes "sorted (map fst evs)" and "\<forall>e \<in> set evs. fst e \<le> now"
  shows "let win = filter (\<lambda>e. now - fst e < 60) evs;
             s = stats_snapshot now (fold record_seen evs (newChannelStats ref))
         in ss_MessagesPerSec s = fl (fl_int (int (length win)) / fl_int 60)
          \<and> ss_UniqueChatters s = card {a \<in> (fst \<circ> snd) ` set win. a \<noteq> []}
          \<and> (\<forall>ec \<in> set (ss_TopEmotes s). ec_Count ec = (\<Sum>e\<leftarrow>win. int (count_list (snd (snd e)) (ec_Name ec))))
          \<and> length (ss_TopEmotes s) \<le> 5"
proof -
  define win where "win = filter (\<lambda>e. now - fst e < int statsWindow) evs"
  define s where "s = stats_snapshot now (fold record_seen evs (newChannelStats ref))"
  let ?live = "List.map_filter (live_bucket now) (ct_buckets (fold record_seen evs (newChannelStats ref)))"
  have "sum_list (map bk_count ?live) = sum_list (map (\<lambda>_. 1) win)"
    unfolding win_def by (rule live_sum [OF assms(1,2)]) (simp_all add: summary_count sum_list_triv)
  then have rate: "ss_MessagesPerSec s = fl (fl_int (int (length win)) / fl_int 60)"
    by (simp add: s_def stats_snapshot_def Let_def sum_list_triv)
  have "set (concat (map bk_authors ?live)) = {a \<in> (fst \<circ> snd) ` set win. a \<noteq> []}"
  proof (rule Set.set_eqI)
    fix a
    have "a \<in> set (concat (map bk_authors ?live)) \<longleftrightarrow> a \<noteq> [] \<and> (\<exists>e \<in> set evs. now - fst e < int statsWindow \<and> fst (snd e) = a)"
      using live_authors [OF assms(1,2), of a ref] by (simp only: set_concat set_map image_image)
    then show "a \<in> set (concat (map bk_authors ?live)) \<longleftrightarrow> a \<in> {a \<in> (fst \<circ> snd) ` set win. a \<noteq> []}"
      by (auto simp: win_def)
  qed
  then have chatters: "ss_UniqueChatters s = card {a \<in> (fst \<circ> snd) ` set win. a \<noteq> []}"
    by (simp only: s_def stats_snapshot_def Let_def length_remdups_card_conv StatsSnapshot.simps)
  have top: "ss_TopEmotes s = topEmotes (fold (\<lambda>b m. fold (\<lambda>(n, c) m. bump n c m) (bk_emotes b) m) ?live []) 5"
    by (simp add: s_def stats_snapshot_def Let_def)
  have dist: "keys_distinct (fold (\<lambda>b m. fold (\<lambda>(n, c) m. bump n c m) (bk_emotes b) m) ?live [])"
    by (rule keys_distinct_buckets) simp
  have "\<forall>ec \<in> set (ss_TopEmotes s). ec_Count ec = (\<Sum>e\<leftarrow>win. int (count_list (snd (snd e)) (ec_Name ec)))"
    unfolding top using topEmotes_counts [OF dist] live_emotes [OF assms(1,2), of ref] by (simp add: win_def)
  moreover have "length (ss_TopEmotes s) \<le> 5" unfolding top topEmotes_def by simp
  ultimately show ?thesis using rate chatters by (simp add: Let_def win_def s_def)
qed

theorem stats_exact_witness:
  "ss_MessagesPerSec (stats_snapshot 100 (fold record_seen
      [(10, ''a'', [''Kappa'']), (70, ''b'', [''Kappa'', ''LUL'']), (100, ''b'', [])] (newChannelStats (twitch_channel ''x'')))) =
    fl (fl_int 2 / fl_int 60)
   \<and> ss_UniqueChatters (stats_snapshot 100 (fold record_seen
      [(10, ''a'', [''Kappa'']), (70, ''b'', [''Kappa'', ''LUL'']), (100, ''b'', [])] (newChannelStats (twitch_channel ''x'')))) = 1"
proof -
  have "{a. (a = ''b'') \<and> a \<noteq> []} = {''b''}" by auto
  then show ?thesis
    using stats_exact [of "[(10, ''a'', [''Kappa'']), (70, ''b'', [''Kappa'', ''LUL'']), (100, ''b'', [])]" 100 "twitch_channel ''x''"]
    by (auto simp: Let_def)
qed

end
