(* ===== verification/Store.thy ===== *)
theory Store
  imports Platform Ulid
begin

text \<open>
  \<^verbatim>\<open>internal/store\<close>: the records of the persistence port and its in-memory implementation, the reference
  every backend is tested against. Each repository method is one function that reads the clock as an
  argument and returns its result beside the new state; a result is an error (\<open>Inl\<close>) or a value.
  JSON documents are opaque byte strings (None for a nil one). A stored message keeps its segments as
  the list that \<^verbatim>\<open>json.Marshal\<close> encodes, which never fails for this type. Copies made so that callers do
  not share slices with the store are the identity on values, except that copying an empty document
  gives nil.
\<close>

subsection \<open>Records\<close>

datatype store_error = ErrNotFound | ErrConflict | ErrEphemeral

type_synonym json = "string option"

definition cloneJSON :: "json \<Rightarrow> json" where
  "cloneJSON b = (case b of None \<Rightarrow> None | Some d \<Rightarrow> if d = [] then None else Some d)"

record Setting =
  se_Scope :: string
  se_Data :: json
  se_UpdatedAt :: time

record Profile =
  pf_ID :: string
  pf_Name :: string
  pf_Doc :: json
  pf_IsDefault :: bool
  pf_CreatedAt :: time
  pf_UpdatedAt :: time

record Account =
  ac_ID :: string
  ac_Platform :: Platform
  ac_PlatformUID :: string
  ac_Login :: string
  ac_DisplayName :: string
  ac_SecretRef :: string
  ac_Scopes :: "string list"
  ac_CreatedAt :: time
  ac_UpdatedAt :: time

record Channel =
  cn_ID :: string
  cn_Platform :: Platform
  cn_PlatformID :: string
  cn_Slug :: string
  cn_DisplayName :: string
  cn_Meta :: json
  cn_LastSeenAt :: time

record StoredMessage =
  sd_ID :: string
  sd_ChannelID :: string
  sd_Platform :: Platform
  sd_Type :: MessageType
  sd_AuthorUID :: string
  sd_AuthorName :: string
  sd_Body :: string
  sd_Segments :: "Segment list"
  sd_SentAt :: time
  sd_ReceivedAt :: time
  sd_Deleted :: bool

record HistoryQuery =
  hq_ChannelID :: string
  hq_Before :: string
  hq_Limit :: int

record SearchQuery =
  sq_Text :: string
  sq_ChannelID :: string
  sq_Author :: string
  sq_Before :: string
  sq_Limit :: int

record EmoteSet =
  es_Key :: string
  es_Data :: json
  es_FetchedAt :: time

record EmoteFile =
  ef_URLHash :: string
  ef_Path :: string
  ef_Bytes :: int
  ef_FetchedAt :: time

record Conversation =
  cv_ID :: string
  cv_Title :: string
  cv_Messages :: json
  cv_Model :: string
  cv_CreatedAt :: time
  cv_UpdatedAt :: time

record MomentQuery =
  mq_Channel :: string
  mq_Before :: string
  mq_Limit :: int

subsection \<open>The in-memory store\<close>

text \<open>
  Maps the code ranges over (settings, profiles, accounts, channels, conversations) are association
  lists, the indexes and caches it only looks up are functions.
\<close>

record Memory =
  me_seq :: int
  me_settings :: "(string \<times> Setting) list"
  me_profiles :: "(string \<times> Profile) list"
  me_profileByName :: "string \<rightharpoonup> string"
  me_accounts :: "(string \<times> Account) list"
  me_channels :: "(string \<times> Channel) list"
  me_channelBySlug :: "string \<rightharpoonup> string"
  me_messages :: "StoredMessage list"
  me_emoteSets :: "string \<rightharpoonup> EmoteSet"
  me_emoteFiles :: "string \<rightharpoonup> EmoteFile"
  me_conversations :: "(string \<times> Conversation) list"
  me_moments :: "Moment list"

definition NewMemory :: Memory where
  "NewMemory = \<lparr>me_seq = 0, me_settings = [], me_profiles = [], me_profileByName = Map.empty,
     me_accounts = [], me_channels = [], me_channelBySlug = Map.empty, me_messages = [],
     me_emoteSets = Map.empty, me_emoteFiles = Map.empty, me_conversations = [], me_moments = []\<rparr>"

text \<open>\<^verbatim>\<open>%020d\<close> of an int64: twenty characters, the sign of a negative number among them.\<close>

definition pad20 :: "int \<Rightarrow> string" where
  "pad20 n = (if n < 0 then CHR ''-'' # low_digits 19 (nat (- n)) else low_digits 20 (nat n))"

definition nextID :: "string \<Rightarrow> Memory \<Rightarrow> string \<times> Memory" where
  "nextID pre m = (let n = wrap64 (me_seq m + 1) in (pre @ ''_'' @ pad20 n, m\<lparr>me_seq := n\<rparr>))"

subsection \<open>Settings\<close>

definition Settings_Get :: "string \<Rightarrow> Memory \<Rightarrow> store_error + Setting" where
  "Settings_Get scope m = (case map_of (me_settings m) scope of
     None \<Rightarrow> Inl ErrNotFound
   | Some s \<Rightarrow> Inr (s\<lparr>se_Data := cloneJSON (se_Data s)\<rparr>))"

definition Settings_Put :: "time \<Rightarrow> Setting \<Rightarrow> Memory \<Rightarrow> Memory" where
  "Settings_Put now s m = m\<lparr>me_settings := AList.update (se_Scope s)
     (s\<lparr>se_Data := cloneJSON (se_Data s), se_UpdatedAt := now\<rparr>) (me_settings m)\<rparr>"

definition Settings_All :: "Memory \<Rightarrow> Setting list" where
  "Settings_All m = sort_key se_Scope (map (\<lambda>(_, s). s\<lparr>se_Data := cloneJSON (se_Data s)\<rparr>) (me_settings m))"

subsection \<open>Profiles\<close>

definition out_profile :: "Profile \<Rightarrow> Profile" where
  "out_profile p = p\<lparr>pf_Doc := cloneJSON (pf_Doc p)\<rparr>"

definition Profiles_Create :: "time \<Rightarrow> string \<Rightarrow> json \<Rightarrow> Memory \<Rightarrow> (store_error + Profile) \<times> Memory" where
  "Profiles_Create now name doc m =
    (if me_profileByName m name \<noteq> None then (Inl ErrConflict, m)
     else
       let (i, m) = nextID ''prof'' m;
           p = \<lparr>pf_ID = i, pf_Name = name, pf_Doc = cloneJSON doc, pf_IsDefault = (me_profiles m = []),
                pf_CreatedAt = now, pf_UpdatedAt = now\<rparr>
       in (Inr (out_profile p), m\<lparr>me_profiles := AList.update i p (me_profiles m),
             me_profileByName := (me_profileByName m)(name \<mapsto> i)\<rparr>))"

definition Profiles_Get :: "string \<Rightarrow> Memory \<Rightarrow> store_error + Profile" where
  "Profiles_Get i m = (case map_of (me_profiles m) i of None \<Rightarrow> Inl ErrNotFound | Some p \<Rightarrow> Inr (out_profile p))"

text \<open>A profile missing from the main map would read as the zero value; the invariant excludes it.\<close>

definition zero_profile :: Profile where
  "zero_profile = \<lparr>pf_ID = [], pf_Name = [], pf_Doc = None, pf_IsDefault = False,
     pf_CreatedAt = zero_time, pf_UpdatedAt = zero_time\<rparr>"

definition Profiles_GetByName :: "string \<Rightarrow> Memory \<Rightarrow> store_error + Profile" where
  "Profiles_GetByName name m = (case me_profileByName m name of
     None \<Rightarrow> Inl ErrNotFound
   | Some i \<Rightarrow> Inr (out_profile (case map_of (me_profiles m) i of None \<Rightarrow> zero_profile | Some p \<Rightarrow> p)))"

definition Profiles_List :: "Memory \<Rightarrow> Profile list" where
  "Profiles_List m = sort_key pf_ID (map (\<lambda>(_, p). out_profile p) (me_profiles m))"

definition Profiles_Update :: "time \<Rightarrow> string \<Rightarrow> json \<Rightarrow> Memory \<Rightarrow> (store_error + Profile) \<times> Memory" where
  "Profiles_Update now i doc m = (case map_of (me_profiles m) i of
     None \<Rightarrow> (Inl ErrNotFound, m)
   | Some p \<Rightarrow>
       let p = p\<lparr>pf_Doc := cloneJSON doc, pf_UpdatedAt := now\<rparr>
       in (Inr (out_profile p), m\<lparr>me_profiles := AList.update i p (me_profiles m)\<rparr>))"

definition Profiles_Delete :: "string \<Rightarrow> Memory \<Rightarrow> (store_error + unit) \<times> Memory" where
  "Profiles_Delete i m = (case map_of (me_profiles m) i of
     None \<Rightarrow> (Inl ErrNotFound, m)
   | Some p \<Rightarrow> (Inr (), m\<lparr>me_profiles := AList.delete i (me_profiles m),
       me_profileByName := (me_profileByName m)(pf_Name p := None)\<rparr>))"

definition Profiles_SetDefault :: "string \<Rightarrow> Memory \<Rightarrow> (store_error + unit) \<times> Memory" where
  "Profiles_SetDefault i m =
    (if map_of (me_profiles m) i = None then (Inl ErrNotFound, m)
     else (Inr (), m\<lparr>me_profiles := map (\<lambda>(j, p). (j, p\<lparr>pf_IsDefault := (j = i)\<rparr>)) (me_profiles m)\<rparr>))"

definition Profiles_Default :: "Memory \<Rightarrow> store_error + Profile" where
  "Profiles_Default m = (case find (\<lambda>(_, p). pf_IsDefault p) (me_profiles m) of
     None \<Rightarrow> Inl ErrNotFound
   | Some (_, p) \<Rightarrow> Inr (out_profile p))"

subsection \<open>Accounts\<close>

definition same_identity :: "Account \<Rightarrow> Account \<Rightarrow> bool" where
  "same_identity a b \<longleftrightarrow> ac_Platform a = ac_Platform b \<and> ac_PlatformUID a = ac_PlatformUID b"

definition Accounts_Upsert :: "time \<Rightarrow> Account \<Rightarrow> Memory \<Rightarrow> Account \<times> Memory" where
  "Accounts_Upsert now a m = (case find (\<lambda>(_, ex). same_identity ex a) (me_accounts m) of
     Some (i, ex) \<Rightarrow>
       let a = a\<lparr>ac_ID := i, ac_CreatedAt := ac_CreatedAt ex, ac_UpdatedAt := now\<rparr>
       in (a, m\<lparr>me_accounts := AList.update i a (me_accounts m)\<rparr>)
   | None \<Rightarrow>
       let (i, m) = nextID ''acct'' m;
           a = a\<lparr>ac_ID := i, ac_CreatedAt := now, ac_UpdatedAt := now\<rparr>
       in (a, m\<lparr>me_accounts := AList.update i a (me_accounts m)\<rparr>))"

definition Accounts_Get :: "string \<Rightarrow> Memory \<Rightarrow> store_error + Account" where
  "Accounts_Get i m = (case map_of (me_accounts m) i of None \<Rightarrow> Inl ErrNotFound | Some a \<Rightarrow> Inr a)"

definition Accounts_List :: "Memory \<Rightarrow> Account list" where
  "Accounts_List m = sort_key ac_ID (map snd (me_accounts m))"

definition Accounts_ListByPlatform :: "Platform \<Rightarrow> Memory \<Rightarrow> Account list" where
  "Accounts_ListByPlatform p m = sort_key ac_ID (filter (\<lambda>a. ac_Platform a = p) (map snd (me_accounts m)))"

definition Accounts_Delete :: "string \<Rightarrow> Memory \<Rightarrow> (store_error + unit) \<times> Memory" where
  "Accounts_Delete i m = (if map_of (me_accounts m) i = None then (Inl ErrNotFound, m)
     else (Inr (), m\<lparr>me_accounts := AList.delete i (me_accounts m)\<rparr>))"

subsection \<open>Channels\<close>

definition store_channelKey :: "Platform \<Rightarrow> string \<Rightarrow> string" where
  "store_channelKey p slug = p @ ''|'' @ slug"

abbreviation cn_key :: "Channel \<Rightarrow> string" where
  "cn_key c \<equiv> store_channelKey (cn_Platform c) (cn_Slug c)"

definition zero_channel :: Channel where
  "zero_channel = \<lparr>cn_ID = [], cn_Platform = [], cn_PlatformID = [], cn_Slug = [], cn_DisplayName = [],
     cn_Meta = None, cn_LastSeenAt = zero_time\<rparr>"

definition channel_at :: "string \<Rightarrow> Memory \<Rightarrow> Channel" where
  "channel_at i m = (case map_of (me_channels m) i of None \<Rightarrow> zero_channel | Some c \<Rightarrow> c)"

definition Channels_Upsert :: "Channel \<Rightarrow> Memory \<Rightarrow> Channel \<times> Memory" where
  "Channels_Upsert c m = (case me_channelBySlug m (cn_key c) of
     Some i \<Rightarrow>
       let c = c\<lparr>cn_ID := cn_ID (channel_at i m), cn_Meta := cloneJSON (cn_Meta c)\<rparr>
       in (c, m\<lparr>me_channels := AList.update i c (me_channels m)\<rparr>)
   | None \<Rightarrow>
       let (i, m) = nextID ''chan'' m;
           c = c\<lparr>cn_ID := i, cn_Meta := cloneJSON (cn_Meta c)\<rparr>
       in (c, m\<lparr>me_channels := AList.update i c (me_channels m),
            me_channelBySlug := (me_channelBySlug m)(cn_key c \<mapsto> i)\<rparr>))"

definition out_channel :: "Channel \<Rightarrow> Channel" where
  "out_channel c = c\<lparr>cn_Meta := cloneJSON (cn_Meta c)\<rparr>"

definition Channels_GetBySlug :: "Platform \<Rightarrow> string \<Rightarrow> Memory \<Rightarrow> store_error + Channel" where
  "Channels_GetBySlug p slug m = (case me_channelBySlug m (store_channelKey p slug) of
     None \<Rightarrow> Inl ErrNotFound
   | Some i \<Rightarrow> Inr (out_channel (channel_at i m)))"

definition Channels_List :: "Memory \<Rightarrow> Channel list" where
  "Channels_List m = sort_key cn_ID (map (\<lambda>(_, c). out_channel c) (me_channels m))"

definition Channels_Delete :: "string \<Rightarrow> Memory \<Rightarrow> (store_error + unit) \<times> Memory" where
  "Channels_Delete i m = (case map_of (me_channels m) i of
     None \<Rightarrow> (Inl ErrNotFound, m)
   | Some c \<Rightarrow> (Inr (), m\<lparr>me_channels := AList.delete i (me_channels m),
       me_channelBySlug := (me_channelBySlug m)(cn_key c := None)\<rparr>))"

subsection \<open>Messages\<close>

definition stored :: "UnifiedMessage \<Rightarrow> StoredMessage" where
  "stored um = \<lparr>sd_ID = um_ID um, sd_ChannelID = ch_ID (um_Channel um), sd_Platform = um_Platform um,
     sd_Type = um_Type um, sd_AuthorUID = au_ID (um_Author um), sd_AuthorName = au_DisplayName (um_Author um),
     sd_Body = PlainText um, sd_Segments = um_Segments um, sd_SentAt = um_SentAt um,
     sd_ReceivedAt = um_ReceivedAt um, sd_Deleted = False\<rparr>"

definition Messages_Append :: "UnifiedMessage list \<Rightarrow> Memory \<Rightarrow> (store_error + unit) \<times> Memory" where
  "Messages_Append msgs m =
    (if list_ex um_Ephemeral msgs then (Inl ErrEphemeral, m)
     else (Inr (), m\<lparr>me_messages := me_messages m @ map stored msgs\<rparr>))"

definition page_limit :: "int \<Rightarrow> nat" where
  "page_limit n = (if n \<le> 0 \<or> n > 1000 then 100 else nat n)"

abbreviation past_cursor :: "string \<Rightarrow> string \<Rightarrow> bool" where
  "past_cursor before i \<equiv> before \<noteq> [] \<and> i \<ge> before"

definition Messages_History :: "HistoryQuery \<Rightarrow> Memory \<Rightarrow> StoredMessage list" where
  "Messages_History q m = take (page_limit (hq_Limit q)) (sort_desc sd_ID
     (filter (\<lambda>sm. \<not> sd_ChannelID sm \<noteq> hq_ChannelID q \<and> \<not> past_cursor (hq_Before q) (sd_ID sm)) (me_messages m)))"

definition stored_hit :: "string \<Rightarrow> SearchQuery \<Rightarrow> StoredMessage \<Rightarrow> bool" where
  "stored_hit needle q sm =
    (\<not> (sq_ChannelID q \<noteq> [] \<and> sd_ChannelID sm \<noteq> sq_ChannelID q)
     \<and> \<not> (sq_Author q \<noteq> [] \<and> \<not> equal_fold (sd_AuthorUID sm) (sq_Author q) \<and> \<not> equal_fold (sd_AuthorName sm) (sq_Author q))
     \<and> contains (to_lower (sd_Body sm)) needle)"

definition Messages_Search :: "SearchQuery \<Rightarrow> Memory \<Rightarrow> StoredMessage list" where
  "Messages_Search q m =
    (let needle = to_lower (trim_space (sq_Text q)) in
     if needle = [] then []
     else take (page_limit (sq_Limit q)) (sort_desc sd_ID
       (filter (\<lambda>sm. stored_hit needle q sm \<and> \<not> past_cursor (sq_Before q) (sd_ID sm)) (me_messages m))))"

fun mark_stored :: "string \<Rightarrow> StoredMessage list \<Rightarrow> StoredMessage list option" where
  "mark_stored i [] = None"
| "mark_stored i (sm # sms) = (if sd_ID sm = i then Some (sm\<lparr>sd_Deleted := True\<rparr> # sms)
     else map_option ((#) sm) (mark_stored i sms))"

definition Messages_MarkDeleted :: "string \<Rightarrow> Memory \<Rightarrow> (store_error + unit) \<times> Memory" where
  "Messages_MarkDeleted i m = (case mark_stored i (me_messages m) of
     None \<Rightarrow> (Inl ErrNotFound, m)
   | Some sms \<Rightarrow> (Inr (), m\<lparr>me_messages := sms\<rparr>))"

abbreviation swept :: "string \<Rightarrow> time \<Rightarrow> StoredMessage \<Rightarrow> bool" where
  "swept cid olderThan sm \<equiv> sd_ChannelID sm = cid \<and> sd_ReceivedAt sm < olderThan"

definition Messages_Sweep :: "string \<Rightarrow> time \<Rightarrow> Memory \<Rightarrow> nat \<times> Memory" where
  "Messages_Sweep cid olderThan m =
    (length (filter (swept cid olderThan) (me_messages m)),
     m\<lparr>me_messages := filter (\<lambda>sm. \<not> swept cid olderThan sm) (me_messages m)\<rparr>)"

subsection \<open>Emotes, conversations, moments\<close>

definition Emotes_PutSet :: "EmoteSet \<Rightarrow> Memory \<Rightarrow> Memory" where
  "Emotes_PutSet s m = m\<lparr>me_emoteSets := (me_emoteSets m)(es_Key s \<mapsto> s\<lparr>es_Data := cloneJSON (es_Data s)\<rparr>)\<rparr>"

definition Emotes_GetSet :: "string \<Rightarrow> Memory \<Rightarrow> store_error + EmoteSet" where
  "Emotes_GetSet key m = (case me_emoteSets m key of None \<Rightarrow> Inl ErrNotFound
     | Some s \<Rightarrow> Inr (s\<lparr>es_Data := cloneJSON (es_Data s)\<rparr>))"

definition Emotes_PutFile :: "EmoteFile \<Rightarrow> Memory \<Rightarrow> Memory" where
  "Emotes_PutFile f m = m\<lparr>me_emoteFiles := (me_emoteFiles m)(ef_URLHash f \<mapsto> f)\<rparr>"

definition Emotes_GetFile :: "string \<Rightarrow> Memory \<Rightarrow> store_error + EmoteFile" where
  "Emotes_GetFile h m = (case me_emoteFiles m h of None \<Rightarrow> Inl ErrNotFound | Some f \<Rightarrow> Inr f)"

definition Conversations_Create :: "string \<Rightarrow> string \<Rightarrow> string \<Rightarrow> json \<Rightarrow> Memory \<Rightarrow> Conversation \<times> Memory" where
  "Conversations_Create i title model msgs m =
    (let c = \<lparr>cv_ID = i, cv_Title = title, cv_Messages = (case msgs of None \<Rightarrow> Some ''[]'' | Some d \<Rightarrow> Some d),
              cv_Model = model, cv_CreatedAt = zero_time, cv_UpdatedAt = zero_time\<rparr>
     in (c, m\<lparr>me_conversations := AList.update i c (me_conversations m)\<rparr>))"

definition Conversations_Get :: "string \<Rightarrow> Memory \<Rightarrow> store_error + Conversation" where
  "Conversations_Get i m = (case map_of (me_conversations m) i of None \<Rightarrow> Inl ErrNotFound | Some c \<Rightarrow> Inr c)"

definition Conversations_List :: "Memory \<Rightarrow> Conversation list" where
  "Conversations_List m = map snd (me_conversations m)"

definition Conversations_Update :: "string \<Rightarrow> string \<Rightarrow> string \<Rightarrow> json \<Rightarrow> Memory \<Rightarrow> (store_error + unit) \<times> Memory" where
  "Conversations_Update i title model msgs m = (case map_of (me_conversations m) i of
     None \<Rightarrow> (Inl ErrNotFound, m)
   | Some c \<Rightarrow>
       let c = c\<lparr>cv_Title := title, cv_Model := model,
                 cv_Messages := (case msgs of None \<Rightarrow> cv_Messages c | Some d \<Rightarrow> Some d)\<rparr>
       in (Inr (), m\<lparr>me_conversations := AList.update i c (me_conversations m)\<rparr>))"

definition Conversations_Delete :: "string \<Rightarrow> Memory \<Rightarrow> (store_error + unit) \<times> Memory" where
  "Conversations_Delete i m = (if map_of (me_conversations m) i = None then (Inl ErrNotFound, m)
     else (Inr (), m\<lparr>me_conversations := AList.delete i (me_conversations m)\<rparr>))"

definition Moments_Add :: "Moment \<Rightarrow> Memory \<Rightarrow> Memory" where
  "Moments_Add mo m = m\<lparr>me_moments := me_moments m @ [mo]\<rparr>"

definition Moments_List :: "MomentQuery \<Rightarrow> Memory \<Rightarrow> Moment list" where
  "Moments_List q m = take (page_limit (mq_Limit q)) (sort_desc mo_ID
     (filter (\<lambda>mo. \<not> (mq_Channel q \<noteq> [] \<and> ChannelRef_Key (mo_Channel mo) \<noteq> mq_Channel q)
        \<and> \<not> past_cursor (mq_Before q) (mo_ID mo)) (me_moments m)))"

fun remove_moment :: "string \<Rightarrow> Moment list \<Rightarrow> Moment list option" where
  "remove_moment i [] = None"
| "remove_moment i (mo # mos) = (if mo_ID mo = i then Some mos else map_option ((#) mo) (remove_moment i mos))"

definition Moments_Delete :: "string \<Rightarrow> Memory \<Rightarrow> (store_error + unit) \<times> Memory" where
  "Moments_Delete i m = (case remove_moment i (me_moments m) of
     None \<Rightarrow> (Inl ErrNotFound, m)
   | Some mos \<Rightarrow> (Inr (), m\<lparr>me_moments := mos\<rparr>))"

end
