(* ===== verification/Store_Laws.thy ===== *)
theory Store_Laws
  imports Store
begin

text \<open>
  What the in-memory store promises: its name and slug indexes always agree with the records they
  index, at most one profile is the default, every identity has one account, and reading page by page
  with a cursor shows every record once. The first part is an invariant of all sequences of calls,
  the second a locale shared by the three paged listings.
\<close>

subsection \<open>A primary map and an index on it\<close>

definition index_of :: "('v \<Rightarrow> 'k) \<Rightarrow> (string \<rightharpoonup> 'v) \<Rightarrow> ('k \<rightharpoonup> string) \<Rightarrow> bool" where
  "index_of k M ix \<longleftrightarrow> (\<forall>key i. ix key = Some i \<longleftrightarrow> (\<exists>v. M i = Some v \<and> k v = key))"

lemma index_of_insert:
  "index_of k M ix \<Longrightarrow> ix (k v) = None \<Longrightarrow> M i = None \<Longrightarrow> index_of k (M(i \<mapsto> v)) (ix(k v \<mapsto> i))"
  unfolding index_of_def by (auto, metis option.distinct(1))

lemma index_of_update:
  "index_of k M ix \<Longrightarrow> M i = Some u \<Longrightarrow> k v = k u \<Longrightarrow> index_of k (M(i \<mapsto> v)) ix"
  unfolding index_of_def by (metis fun_upd_other fun_upd_same option.inject)

lemma index_of_delete:
  "index_of k M ix \<Longrightarrow> M i = Some u \<Longrightarrow> index_of k (M(i := None)) (ix(k u := None))"
  unfolding index_of_def by (simp split: if_split) (metis option.inject)

lemma index_of_map:
  "index_of k M ix \<Longrightarrow> (\<And>j v. k (f j v) = k v) \<Longrightarrow> index_of k (\<lambda>j. map_option (f j) (M j)) ix"
  unfolding index_of_def by auto

definition indexed :: "('v \<Rightarrow> 'k) \<Rightarrow> (string \<times> 'v) list \<Rightarrow> ('k \<rightharpoonup> string) \<Rightarrow> bool" where
  "indexed k xs ix \<longleftrightarrow> keys_distinct xs \<and> index_of k (map_of xs) ix"

lemma map_of_update_fun: "map_of (AList.update i v xs) = (map_of xs)(i \<mapsto> v)"
  by (rule ext) simp

lemma map_of_delete_fun: "map_of (AList.delete i xs) = (map_of xs)(i := None)"
  by (rule ext) simp

lemma indexed_empty: "indexed k [] Map.empty"
  by (simp add: indexed_def index_of_def)

lemma indexed_insert:
  "indexed k xs ix \<Longrightarrow> ix (k v) = None \<Longrightarrow> map_of xs i = None \<Longrightarrow>
    indexed k (AList.update i v xs) (ix(k v \<mapsto> i))"
  by (simp add: indexed_def map_of_update_fun index_of_insert del: map_of_update)

lemma indexed_update:
  "indexed k xs ix \<Longrightarrow> map_of xs i = Some u \<Longrightarrow> k v = k u \<Longrightarrow> indexed k (AList.update i v xs) ix"
  unfolding indexed_def map_of_update_fun by (blast intro: index_of_update distinct_update)

lemma indexed_delete:
  "indexed k xs ix \<Longrightarrow> map_of xs i = Some u \<Longrightarrow> indexed k (AList.delete i xs) (ix(k u := None))"
  unfolding indexed_def map_of_delete_fun by (blast intro: index_of_delete distinct_delete)

lemma map_of_map_pair: "map_of (map (\<lambda>(j, v). (j, f j v)) xs) = (\<lambda>i. map_option (f i) (map_of xs i))"
  by (induction xs) auto

lemma indexed_map:
  assumes "indexed k xs ix" "\<And>j v. k (f j v) = k v"
  shows "indexed k (map (\<lambda>(j, v). (j, f j v)) xs) ix"
proof -
  have "map fst (map (\<lambda>(j, v). (j, f j v)) xs) = map fst xs" by (simp add: case_prod_unfold comp_def)
  then show ?thesis using assms index_of_map [of k "map_of xs" ix f] by (simp only: indexed_def map_of_map_pair)
qed

lemma indexed_lookup:
  "indexed k xs ix \<Longrightarrow> ix key = Some i \<Longrightarrow> \<exists>v. map_of xs i = Some v \<and> k v = key"
  by (simp only: indexed_def index_of_def)

lemma indexed_mem:
  "indexed k xs ix \<Longrightarrow> (i, v) \<in> set xs \<Longrightarrow> ix (k v) = Some i"
  unfolding indexed_def index_of_def by (metis map_of_eq_Some_iff)

lemma indexed_inj:
  assumes "indexed k xs ix"
  shows "distinct (map (k \<circ> snd) xs)"
proof -
  have d: "keys_distinct xs" using assms by (simp add: indexed_def)
  have "x = y" if "x \<in> set xs" "y \<in> set xs" "(k \<circ> snd) x = (k \<circ> snd) y" for x y
  proof -
    obtain i u j v where xy: "x = (i, u)" "y = (j, v)" by fastforce
    then have "ix (k u) = Some i" "ix (k u) = Some j"
      using indexed_mem [OF assms] that by (metis comp_apply snd_conv)+
    then have "i = j" by simp
    then show ?thesis using d that xy by (metis map_of_eq_Some_iff option.inject)
  qed
  moreover have "distinct xs" using d by (simp add: distinct_map)
  ultimately show ?thesis by (simp add: distinct_map inj_on_def)
qed

subsection \<open>Issued ids\<close>

lemma pad20_inj:
  assumes "0 \<le> a" "a < 2 ^ 63" "0 \<le> b" "b < 2 ^ 63" "pad20 a = pad20 b"
  shows "a = b"
proof (rule ccontr)
  assume "a \<noteq> b"
  have bound: "nat x < 10 ^ 20" if "0 \<le> x" "x < 2 ^ 63" for x :: int
    using that by (simp add: nat_less_iff)
  have "low_digits 20 (nat a) \<noteq> low_digits 20 (nat b)"
    using \<open>a \<noteq> b\<close> assms low_digits_less [of "nat a" 20 "nat b"] low_digits_less [of "nat b" 20 "nat a"] bound
    by (cases "a < b") fastforce+
  then show False using assms by (simp add: pad20_def)
qed

definition numbered :: "string \<Rightarrow> int \<Rightarrow> string \<Rightarrow> bool" where
  "numbered pre s i \<longleftrightarrow> (\<exists>n. 1 \<le> n \<and> n \<le> s \<and> i = pre @ ''_'' @ pad20 n)"

definition issued :: "('v \<Rightarrow> string) \<Rightarrow> string \<Rightarrow> int \<Rightarrow> (string \<times> 'v) list \<Rightarrow> bool" where
  "issued f pre s xs \<longleftrightarrow> (\<forall>e \<in> set xs. f (snd e) = fst e \<and> numbered pre s (fst e))"

lemma numbered_fresh: "0 \<le> s \<Longrightarrow> s + 1 < 2 ^ 63 \<Longrightarrow> \<not> numbered pre s (pre @ ''_'' @ pad20 (s + 1))"
  unfolding numbered_def by (auto dest: pad20_inj [of "s + 1", rotated 4])

lemma numbered_mono: "numbered pre s i \<Longrightarrow> s \<le> t \<Longrightarrow> numbered pre t i"
  unfolding numbered_def by force

lemma numbered_next: "0 \<le> s \<Longrightarrow> numbered pre (s + 1) (pre @ ''_'' @ pad20 (s + 1))"
  unfolding numbered_def by (intro exI [of _ "s + 1"]) simp

lemma issued_fresh:
  "issued f pre s xs \<Longrightarrow> 0 \<le> s \<Longrightarrow> s + 1 < 2 ^ 63 \<Longrightarrow> map_of xs (pre @ ''_'' @ pad20 (s + 1)) = None"
  unfolding issued_def map_of_None_iff using numbered_fresh [of s pre] by (metis imageE)

lemma issued_mono: "issued f pre s xs \<Longrightarrow> s \<le> t \<Longrightarrow> issued f pre t xs"
  unfolding issued_def using numbered_mono by blast

lemma issued_insert:
  "issued f pre s xs \<Longrightarrow> numbered pre s i \<Longrightarrow> f v = i \<Longrightarrow> issued f pre s (AList.update i v xs)"
  using set_update_subset [of i v xs] unfolding issued_def by (metis fst_conv in_mono insert_iff snd_conv)

lemma issued_update:
  "issued f pre s xs \<Longrightarrow> map_of xs i = Some u \<Longrightarrow> f v = i \<Longrightarrow> issued f pre s (AList.update i v xs)"
  by (rule issued_insert) (use map_of_SomeD [of xs i u] in \<open>fastforce simp: issued_def\<close>)+

lemma issued_delete: "issued f pre s xs \<Longrightarrow> issued f pre s (AList.delete i xs)"
  using set_delete_subset [of i xs] unfolding issued_def by blast

subsection \<open>The invariant of the store\<close>

text \<open>The calls that change the store, with the clock's reading where they take one.\<close>

datatype store_op =
    SettingsPut time Setting
  | ProfileCreate time string json
  | ProfileUpdate time string json
  | ProfileDelete string
  | ProfileSetDefault string
  | AccountUpsert time Account
  | AccountDelete string
  | ChannelUpsert Channel
  | ChannelDelete string
  | MessagesAppend "UnifiedMessage list"
  | MessageMarkDeleted string
  | MessagesSweep string time
  | EmotePutSet EmoteSet
  | EmotePutFile EmoteFile
  | ConversationCreate string string string json
  | ConversationUpdate string string string json
  | ConversationDelete string
  | MomentAdd Moment
  | MomentDelete string

fun store_step :: "store_op \<Rightarrow> Memory \<Rightarrow> Memory" where
  "store_step (SettingsPut now s) m = Settings_Put now s m"
| "store_step (ProfileCreate now name doc) m = snd (Profiles_Create now name doc m)"
| "store_step (ProfileUpdate now i doc) m = snd (Profiles_Update now i doc m)"
| "store_step (ProfileDelete i) m = snd (Profiles_Delete i m)"
| "store_step (ProfileSetDefault i) m = snd (Profiles_SetDefault i m)"
| "store_step (AccountUpsert now a) m = snd (Accounts_Upsert now a m)"
| "store_step (AccountDelete i) m = snd (Accounts_Delete i m)"
| "store_step (ChannelUpsert c) m = snd (Channels_Upsert c m)"
| "store_step (ChannelDelete i) m = snd (Channels_Delete i m)"
| "store_step (MessagesAppend ms) m = snd (Messages_Append ms m)"
| "store_step (MessageMarkDeleted i) m = snd (Messages_MarkDeleted i m)"
| "store_step (MessagesSweep cid t) m = snd (Messages_Sweep cid t m)"
| "store_step (EmotePutSet s) m = Emotes_PutSet s m"
| "store_step (EmotePutFile f) m = Emotes_PutFile f m"
| "store_step (ConversationCreate i t mo d) m = snd (Conversations_Create i t mo d m)"
| "store_step (ConversationUpdate i t mo d) m = snd (Conversations_Update i t mo d m)"
| "store_step (ConversationDelete i) m = snd (Conversations_Delete i m)"
| "store_step (MomentAdd mo) m = Moments_Add mo m"
| "store_step (MomentDelete i) m = snd (Moments_Delete i m)"

definition one_default :: "(string \<rightharpoonup> Profile) \<Rightarrow> bool" where
  "one_default M \<longleftrightarrow> (\<forall>i j p q. M i = Some p \<longrightarrow> M j = Some q \<longrightarrow> pf_IsDefault p \<longrightarrow> pf_IsDefault q \<longrightarrow> i = j)"

definition profiles_inv :: "Memory \<Rightarrow> bool" where
  "profiles_inv m \<longleftrightarrow> indexed pf_Name (me_profiles m) (me_profileByName m)
     \<and> issued pf_ID ''prof'' (me_seq m) (me_profiles m) \<and> one_default (map_of (me_profiles m))"

definition channels_inv :: "Memory \<Rightarrow> bool" where
  "channels_inv m \<longleftrightarrow> indexed cn_key (me_channels m) (me_channelBySlug m)
     \<and> issued cn_ID ''chan'' (me_seq m) (me_channels m)"

definition one_account :: "(string \<rightharpoonup> Account) \<Rightarrow> bool" where
  "one_account M \<longleftrightarrow> (\<forall>i j a b. M i = Some a \<longrightarrow> M j = Some b \<longrightarrow> same_identity a b \<longrightarrow> i = j)"

definition accounts_inv :: "Memory \<Rightarrow> bool" where
  "accounts_inv m \<longleftrightarrow> keys_distinct (me_accounts m) \<and> one_account (map_of (me_accounts m))
     \<and> issued ac_ID ''acct'' (me_seq m) (me_accounts m)"

lemma nextID_eq:
  assumes "0 \<le> me_seq m" "me_seq m + 1 < 2 ^ 63"
  shows "nextID pre m = (pre @ ''_'' @ pad20 (me_seq m + 1), m\<lparr>me_seq := me_seq m + 1\<rparr>)"
proof -
  have "wrap64 (me_seq m + 1) = me_seq m + 1" using assms by (intro wrap64_id) (simp add: int64_ok_def)
  then show ?thesis by (simp add: nextID_def Let_def)
qed

lemma out_profile_sel [simp]:
  "pf_ID (out_profile p) = pf_ID p" "pf_Name (out_profile p) = pf_Name p" "pf_IsDefault (out_profile p) = pf_IsDefault p"
  by (simp_all add: out_profile_def)

lemma out_channel_sel [simp]:
  "cn_ID (out_channel c) = cn_ID c" "cn_Platform (out_channel c) = cn_Platform c" "cn_Slug (out_channel c) = cn_Slug c"
  by (simp_all add: out_channel_def)

text \<open>Profiles.\<close>

lemma Create_inv:
  assumes "profiles_inv m" "0 \<le> me_seq m" "me_seq m + 1 < 2 ^ 63"
  shows "profiles_inv (snd (Profiles_Create now name doc m))"
proof (cases "me_profileByName m name")
  case None
  let ?i = "''prof'' @ ''_'' @ pad20 (me_seq m + 1)"
  have inv: "indexed pf_Name (me_profiles m) (me_profileByName m)" "issued pf_ID ''prof'' (me_seq m) (me_profiles m)"
    "one_default (map_of (me_profiles m))" using assms(1) by (simp_all add: profiles_inv_def)
  have fresh: "map_of (me_profiles m) ?i = None" using issued_fresh [OF inv(2) assms(2,3)] .
  define p where "p = \<lparr>pf_ID = ?i, pf_Name = name, pf_Doc = cloneJSON doc, pf_IsDefault = (me_profiles m = []),
    pf_CreatedAt = now, pf_UpdatedAt = now\<rparr>"
  have sel: "pf_ID p = ?i" "pf_Name p = name" "pf_IsDefault p \<Longrightarrow> me_profiles m = []" by (simp_all add: p_def)
  have "indexed pf_Name (AList.update ?i p (me_profiles m)) ((me_profileByName m)(name \<mapsto> ?i))"
    using indexed_insert [OF inv(1), of p ?i] None fresh sel(2) by simp
  moreover have "issued pf_ID ''prof'' (me_seq m + 1) (AList.update ?i p (me_profiles m))"
    using issued_insert [OF issued_mono [OF inv(2), of "me_seq m + 1"] numbered_next [OF assms(2)], of p] sel(1) by simp
  moreover have "one_default (map_of (AList.update ?i p (me_profiles m)))"
  proof (cases "me_profiles m = []")
    case False
    then have "\<not> pf_IsDefault p" using sel(3) by blast
    then show ?thesis using inv(3) unfolding one_default_def map_of_update_fun by (metis fun_upd_apply option.inject)
  qed (simp add: one_default_def)
  moreover have "snd (Profiles_Create now name doc m) = m\<lparr>me_seq := me_seq m + 1,
      me_profiles := AList.update ?i p (me_profiles m), me_profileByName := (me_profileByName m)(name \<mapsto> ?i)\<rparr>"
    using None by (simp add: Profiles_Create_def nextID_eq [OF assms(2,3)] p_def Let_def)
  ultimately show ?thesis by (simp add: profiles_inv_def)
qed (use assms(1) in \<open>simp add: Profiles_Create_def\<close>)

lemma Update_inv: "profiles_inv m \<Longrightarrow> profiles_inv (snd (Profiles_Update now i doc m))"
proof (cases "map_of (me_profiles m) i")
  case (Some p)
  assume "profiles_inv m"
  then have inv: "indexed pf_Name (me_profiles m) (me_profileByName m)" "issued pf_ID ''prof'' (me_seq m) (me_profiles m)"
    "one_default (map_of (me_profiles m))" by (simp_all add: profiles_inv_def)
  define q where "q = p\<lparr>pf_Doc := cloneJSON doc, pf_UpdatedAt := now\<rparr>"
  have q: "pf_Name q = pf_Name p" "pf_ID q = pf_ID p" "pf_IsDefault q = pf_IsDefault p" by (simp_all add: q_def)
  have "pf_ID p = i" using inv(2) map_of_SomeD [OF Some] by (fastforce simp: issued_def)
  then have "issued pf_ID ''prof'' (me_seq m) (AList.update i q (me_profiles m))"
    using issued_update [OF inv(2) Some, of q] q(2) by simp
  moreover have "one_default (map_of (AList.update i q (me_profiles m)))"
    using inv(3) q(3) Some unfolding one_default_def map_of_update_fun by (metis fun_upd_apply option.inject)
  ultimately show ?thesis
    using indexed_update [OF inv(1) Some q(1)] Some by (simp add: Profiles_Update_def profiles_inv_def q_def Let_def)
qed (simp add: Profiles_Update_def)

lemma Delete_inv: "profiles_inv m \<Longrightarrow> profiles_inv (snd (Profiles_Delete i m))"
  using indexed_delete [of pf_Name "me_profiles m" "me_profileByName m" i]
  by (simp add: Profiles_Delete_def profiles_inv_def issued_delete one_default_def split: option.split)

lemma SetDefault_inv: "profiles_inv m \<Longrightarrow> profiles_inv (snd (Profiles_SetDefault i m))"
proof -
  assume "profiles_inv m"
  then have inv: "indexed pf_Name (me_profiles m) (me_profileByName m)" "issued pf_ID ''prof'' (me_seq m) (me_profiles m)"
    "one_default (map_of (me_profiles m))" by (simp_all add: profiles_inv_def)
  let ?f = "\<lambda>j p. p\<lparr>pf_IsDefault := (j = i)\<rparr>"
  have "indexed pf_Name (map (\<lambda>(j, p). (j, ?f j p)) (me_profiles m)) (me_profileByName m)"
    by (rule indexed_map [OF inv(1)]) simp
  moreover have "issued pf_ID ''prof'' (me_seq m) (map (\<lambda>(j, p). (j, ?f j p)) (me_profiles m))"
    using inv(2) by (auto simp: issued_def)
  moreover have "one_default (map_of (map (\<lambda>(j, p). (j, ?f j p)) (me_profiles m)))"
    by (auto simp: one_default_def map_of_map_pair)
  ultimately show ?thesis using \<open>profiles_inv m\<close> by (simp add: Profiles_SetDefault_def profiles_inv_def)
qed

text \<open>Channels.\<close>

lemma Upsert_channel_inv:
  assumes "channels_inv m" "0 \<le> me_seq m" "me_seq m + 1 < 2 ^ 63"
  shows "channels_inv (snd (Channels_Upsert c m))"
proof (cases "me_channelBySlug m (cn_key c)")
  case None
  let ?i = "''chan'' @ ''_'' @ pad20 (me_seq m + 1)"
  have inv: "indexed cn_key (me_channels m) (me_channelBySlug m)" "issued cn_ID ''chan'' (me_seq m) (me_channels m)"
    using assms(1) by (simp_all add: channels_inv_def)
  have fresh: "map_of (me_channels m) ?i = None" using issued_fresh [OF inv(2) assms(2,3)] .
  define d where "d = c\<lparr>cn_ID := ?i, cn_Meta := cloneJSON (cn_Meta c)\<rparr>"
  have d: "cn_ID d = ?i" "cn_key d = cn_key c" by (simp_all add: d_def)
  have "indexed cn_key (AList.update ?i d (me_channels m)) ((me_channelBySlug m)(cn_key d \<mapsto> ?i))"
    using indexed_insert [OF inv(1), of d ?i] None fresh d(2) by simp
  moreover have "issued cn_ID ''chan'' (me_seq m + 1) (AList.update ?i d (me_channels m))"
    using issued_insert [OF issued_mono [OF inv(2), of "me_seq m + 1"] numbered_next [OF assms(2)], of d] d(1) by simp
  moreover have "snd (Channels_Upsert c m) = m\<lparr>me_seq := me_seq m + 1,
      me_channels := AList.update ?i d (me_channels m), me_channelBySlug := (me_channelBySlug m)(cn_key d \<mapsto> ?i)\<rparr>"
    using None by (simp add: Channels_Upsert_def nextID_eq [OF assms(2,3)] d_def Let_def)
  ultimately show ?thesis by (simp add: channels_inv_def)
next
  case (Some i)
  have inv: "indexed cn_key (me_channels m) (me_channelBySlug m)" "issued cn_ID ''chan'' (me_seq m) (me_channels m)"
    using assms(1) by (simp_all add: channels_inv_def)
  obtain u where u: "map_of (me_channels m) i = Some u" "cn_key u = cn_key c" using indexed_lookup [OF inv(1) Some] by blast
  define d where "d = c\<lparr>cn_ID := cn_ID (channel_at i m), cn_Meta := cloneJSON (cn_Meta c)\<rparr>"
  have "cn_ID u = i" using inv(2) map_of_SomeD [OF u(1)] by (fastforce simp: issued_def)
  then have d: "cn_ID d = i" "cn_key d = cn_key u" using u by (simp_all add: d_def channel_at_def)
  have "snd (Channels_Upsert c m) = m\<lparr>me_channels := AList.update i d (me_channels m)\<rparr>"
    using Some by (simp add: Channels_Upsert_def d_def Let_def)
  then show ?thesis
    using indexed_update [OF inv(1) u(1) d(2)] issued_update [OF inv(2) u(1) d(1)] by (simp add: channels_inv_def)
qed

lemma Delete_channel_inv: "channels_inv m \<Longrightarrow> channels_inv (snd (Channels_Delete i m))"
  using indexed_delete [of cn_key "me_channels m" "me_channelBySlug m" i]
  by (simp add: Channels_Delete_def channels_inv_def issued_delete split: option.split)

text \<open>Accounts.\<close>

lemma same_identity_sym: "same_identity a b = same_identity b a"
  by (auto simp: same_identity_def)

lemma one_account_upd:
  assumes "one_account M" "\<And>j x. j \<noteq> i \<Longrightarrow> M j = Some x \<Longrightarrow> \<not> same_identity x b"
  shows "one_account (M(i \<mapsto> b))"
  unfolding one_account_def
proof (intro allI impI)
  fix j k x y
  assume xy: "(M(i \<mapsto> b)) j = Some x" "(M(i \<mapsto> b)) k = Some y" "same_identity x y"
  show "j = k"
  proof (cases "j = i \<or> k = i")
    case True
    then show ?thesis using xy assms(2) [of j x] assms(2) [of k y] same_identity_sym [of x y] by (cases "j = i"; cases "k = i") auto
  next
    case False
    then show ?thesis using xy assms(1) unfolding one_account_def by (metis fun_upd_other)
  qed
qed

lemma Upsert_account_inv:
  assumes "accounts_inv m" "0 \<le> me_seq m" "me_seq m + 1 < 2 ^ 63"
  shows "accounts_inv (snd (Accounts_Upsert now a m))"
proof -
  have inv: "keys_distinct (me_accounts m)" "one_account (map_of (me_accounts m))" "issued ac_ID ''acct'' (me_seq m) (me_accounts m)"
    using assms(1) by (simp_all add: accounts_inv_def)
  show ?thesis
  proof (cases "find (\<lambda>(_, ex). same_identity ex a) (me_accounts m)")
    case None
    let ?i = "''acct'' @ ''_'' @ pad20 (me_seq m + 1)"
    define b where "b = a\<lparr>ac_ID := ?i, ac_CreatedAt := now, ac_UpdatedAt := now\<rparr>"
    have b: "ac_ID b = ?i" "\<And>x. same_identity x b = same_identity x a" "\<And>x. same_identity b x = same_identity x a"
      by (auto simp: b_def same_identity_def)
    have "\<not> same_identity x a" if "map_of (me_accounts m) j = Some x" for j x
      using None map_of_SomeD [OF that] by (auto simp: find_None_iff)
    then have "one_account (map_of (AList.update ?i b (me_accounts m)))"
      unfolding map_of_update_fun by (intro one_account_upd [OF inv(2)]) (simp only: b(2) not_False_eq_True)
    moreover have "issued ac_ID ''acct'' (me_seq m + 1) (AList.update ?i b (me_accounts m))"
      using issued_insert [OF issued_mono [OF inv(3), of "me_seq m + 1"] numbered_next [OF assms(2)], of b] b(1) by simp
    moreover have "snd (Accounts_Upsert now a m) = m\<lparr>me_seq := me_seq m + 1, me_accounts := AList.update ?i b (me_accounts m)\<rparr>"
      using None by (simp add: Accounts_Upsert_def nextID_eq [OF assms(2,3)] b_def Let_def)
    ultimately show ?thesis using inv(1) by (simp add: accounts_inv_def)
  next
    case (Some e)
    obtain i x where e: "e = (i, x)" by fastforce
    have x: "map_of (me_accounts m) i = Some x" "same_identity x a"
      using Some e inv(1) by (auto simp: find_Some_iff) (metis map_of_eq_Some_iff nth_mem)
    define b where "b = a\<lparr>ac_ID := i, ac_CreatedAt := ac_CreatedAt x, ac_UpdatedAt := now\<rparr>"
    have b: "ac_ID b = i" "\<And>y. same_identity y b = same_identity y x" "\<And>y. same_identity b y = same_identity x y"
      using x(2) by (auto simp: b_def same_identity_def)
    have "\<not> same_identity y b" if "j \<noteq> i" "map_of (me_accounts m) j = Some y" for j y
      using inv(2) x(1) that unfolding one_account_def b(2) by blast
    then have "one_account (map_of (AList.update i b (me_accounts m)))"
      unfolding map_of_update_fun by (rule one_account_upd [OF inv(2)])
    moreover have "snd (Accounts_Upsert now a m) = m\<lparr>me_accounts := AList.update i b (me_accounts m)\<rparr>"
      using Some e by (simp add: Accounts_Upsert_def b_def Let_def)
    ultimately show ?thesis using inv(1) issued_update [OF inv(3) x(1) b(1)] by (simp add: accounts_inv_def)
  qed
qed

lemma Delete_account_inv: "accounts_inv m \<Longrightarrow> accounts_inv (snd (Accounts_Delete i m))"
  by (auto simp: Accounts_Delete_def accounts_inv_def issued_delete one_account_def simp del: map_of_eq_Some_iff)

text \<open>The three parts are independent: a call on another part at most draws an id.\<close>

definition store_inv :: "Memory \<Rightarrow> bool" where
  "store_inv m \<longleftrightarrow> 0 \<le> me_seq m \<and> profiles_inv m \<and> channels_inv m \<and> accounts_inv m"

lemma store_inv_new: "store_inv NewMemory"
  by (simp add: store_inv_def profiles_inv_def channels_inv_def accounts_inv_def NewMemory_def indexed_empty
      issued_def one_default_def one_account_def)

lemmas store_op_defs = Settings_Put_def Profiles_Create_def Profiles_Update_def Profiles_Delete_def
  Profiles_SetDefault_def Accounts_Upsert_def Accounts_Delete_def Channels_Upsert_def Channels_Delete_def
  Messages_Append_def Messages_MarkDeleted_def Messages_Sweep_def Emotes_PutSet_def Emotes_PutFile_def
  Conversations_Create_def Conversations_Update_def Conversations_Delete_def Moments_Add_def Moments_Delete_def

lemma profiles_frame:
  "me_profiles m' = me_profiles m \<Longrightarrow> me_profileByName m' = me_profileByName m \<Longrightarrow> me_seq m \<le> me_seq m' \<Longrightarrow>
    profiles_inv m \<Longrightarrow> profiles_inv m'"
  by (auto simp: profiles_inv_def intro: issued_mono)

lemma channels_frame:
  "me_channels m' = me_channels m \<Longrightarrow> me_channelBySlug m' = me_channelBySlug m \<Longrightarrow> me_seq m \<le> me_seq m' \<Longrightarrow>
    channels_inv m \<Longrightarrow> channels_inv m'"
  by (auto simp: channels_inv_def intro: issued_mono)

lemma accounts_frame:
  "me_accounts m' = me_accounts m \<Longrightarrow> me_seq m \<le> me_seq m' \<Longrightarrow> accounts_inv m \<Longrightarrow> accounts_inv m'"
  by (auto simp: accounts_inv_def intro: issued_mono)

lemma step_seq:
  assumes "0 \<le> me_seq m" "me_seq m + 1 < 2 ^ 63"
  shows "me_seq m \<le> me_seq (store_step op m) \<and> me_seq (store_step op m) \<le> me_seq m + 1"
  by (cases op) (simp_all add: store_op_defs nextID_eq [OF assms] Let_def split: option.split prod.split)

fun on_profiles :: "store_op \<Rightarrow> bool" where
  "on_profiles (ProfileCreate _ _ _) = True"
| "on_profiles (ProfileUpdate _ _ _) = True"
| "on_profiles (ProfileDelete _) = True"
| "on_profiles (ProfileSetDefault _) = True"
| "on_profiles _ = False"

fun on_channels :: "store_op \<Rightarrow> bool" where
  "on_channels (ChannelUpsert _) = True"
| "on_channels (ChannelDelete _) = True"
| "on_channels _ = False"

fun on_accounts :: "store_op \<Rightarrow> bool" where
  "on_accounts (AccountUpsert _ _) = True"
| "on_accounts (AccountDelete _) = True"
| "on_accounts _ = False"

lemma step_frame [frame]:
  assumes "0 \<le> me_seq m" "me_seq m + 1 < 2 ^ 63"
  shows "\<not> on_profiles op \<Longrightarrow> me_profiles (store_step op m) = me_profiles m"
    and "\<not> on_profiles op \<Longrightarrow> me_profileByName (store_step op m) = me_profileByName m"
    and "\<not> on_channels op \<Longrightarrow> me_channels (store_step op m) = me_channels m"
    and "\<not> on_channels op \<Longrightarrow> me_channelBySlug (store_step op m) = me_channelBySlug m"
    and "\<not> on_accounts op \<Longrightarrow> me_accounts (store_step op m) = me_accounts m"
  by (cases op; simp add: store_op_defs nextID_eq [OF assms] Let_def split: option.split prod.split)+

lemma step_store_inv:
  assumes "store_inv m" "me_seq m + 1 < 2 ^ 63"
  shows "store_inv (store_step op m)"
proof -
  have inv: "0 \<le> me_seq m" "profiles_inv m" "channels_inv m" "accounts_inv m" using assms(1) by (simp_all add: store_inv_def)
  note seq = step_seq [OF inv(1) assms(2), of op, THEN conjunct1]
  note fr = step_frame [OF inv(1) assms(2), of op]
  have "profiles_inv (store_step op m)"
  proof (cases "on_profiles op")
    case True
    then show ?thesis using inv assms(2)
      by (cases op) (simp_all add: Create_inv Update_inv Delete_inv SetDefault_inv)
  qed (rule profiles_frame [OF fr(1,2) seq inv(2)])
  moreover have "channels_inv (store_step op m)"
  proof (cases "on_channels op")
    case True
    then show ?thesis using inv assms(2) by (cases op) (simp_all add: Upsert_channel_inv Delete_channel_inv)
  qed (rule channels_frame [OF fr(3,4) seq inv(3)])
  moreover have "accounts_inv (store_step op m)"
  proof (cases "on_accounts op")
    case True
    then show ?thesis using inv assms(2) by (cases op) (simp_all add: Upsert_account_inv Delete_account_inv)
  qed (rule accounts_frame [OF fr(5) seq inv(4)])
  ultimately show ?thesis using seq inv(1) by (simp add: store_inv_def)
qed

lemma steps_store_inv:
  "store_inv m \<Longrightarrow> me_seq m + int (length ops) < 2 ^ 63 \<Longrightarrow> store_inv (fold store_step ops m)"
proof (induction ops arbitrary: m)
  case (Cons op ops)
  have s: "0 \<le> me_seq m" "me_seq m + 1 < 2 ^ 63" using Cons.prems by (simp_all add: store_inv_def)
  have "me_seq (store_step op m) + int (length ops) < 2 ^ 63" using step_seq [OF s, of op] Cons.prems(2) by simp
  then show ?case using Cons.IH [OF step_store_inv [OF Cons.prems(1) s(2)]] by simp
qed simp

subsection \<open>What a client of the store sees\<close>

lemma indexed_unique:
  assumes "indexed k xs ix" "(i, v) \<in> set xs" "(j, u) \<in> set xs" "k u = k v"
  shows "u = v"
proof -
  have "i = j" using indexed_mem [OF assms(1,2)] indexed_mem [OF assms(1,3)] assms(4) by simp
  moreover have "keys_distinct xs" using assms(1) by (simp add: indexed_def)
  ultimately show ?thesis using assms(2,3) by (blast dest: eq_key_imp_eq_value)
qed

text \<open>A lookup that answers the only listed record with a given feature.\<close>

lemma listed_iff:
  assumes "(i, q) \<in> set xs" "P (f q)" "\<And>j r. (j, r) \<in> set xs \<Longrightarrow> P (f r) \<Longrightarrow> r = q"
  shows "f q = p \<longleftrightarrow> p \<in> set (sort_key g (map (\<lambda>(_, v). f v) xs)) \<and> P p"
proof
  assume "f q = p"
  then show "p \<in> set (sort_key g (map (\<lambda>(_, v). f v) xs)) \<and> P p"
    using assms(1,2) imageI [OF assms(1), of "\<lambda>(_, v). f v"] by simp
next
  assume "p \<in> set (sort_key g (map (\<lambda>(_, v). f v) xs)) \<and> P p"
  then obtain j r where "(j, r) \<in> set xs" "p = f r" "P (f r)" by auto
  then show "f q = p" using assms(3) by blast
qed

lemma GetByName_iff:
  assumes "profiles_inv m"
  shows "Profiles_GetByName name m = Inr p \<longleftrightarrow> p \<in> set (Profiles_List m) \<and> pf_Name p = name"
proof -
  have inv: "indexed pf_Name (me_profiles m) (me_profileByName m)" using assms by (simp add: profiles_inv_def)
  show ?thesis
  proof (cases "me_profileByName m name")
    case None
    then have "pf_Name (out_profile q) \<noteq> name" if "(i, q) \<in> set (me_profiles m)" for i q
      using indexed_mem [OF inv that] by auto
    then have "\<not> (p \<in> set (Profiles_List m) \<and> pf_Name p = name)" by (auto simp: Profiles_List_def) blast
    then show ?thesis using None by (simp add: Profiles_GetByName_def)
  next
    case (Some i)
    then obtain q where q: "map_of (me_profiles m) i = Some q" "pf_Name q = name" using indexed_lookup [OF inv] by blast
    have "Profiles_GetByName name m = Inr (out_profile q)" using Some q by (simp add: Profiles_GetByName_def)
    moreover have "out_profile q = p \<longleftrightarrow> p \<in> set (Profiles_List m) \<and> pf_Name p = name"
      unfolding Profiles_List_def
      by (rule listed_iff [OF map_of_SomeD [OF q(1)]])
        (use q(2) indexed_unique [OF inv map_of_SomeD [OF q(1)]] in \<open>auto\<close>)
    ultimately show ?thesis by simp
  qed
qed

lemma Default_iff:
  assumes "profiles_inv m"
  shows "Profiles_Default m = Inr p \<longleftrightarrow> p \<in> set (Profiles_List m) \<and> pf_IsDefault p"
proof -
  have d: "keys_distinct (me_profiles m)" and one: "one_default (map_of (me_profiles m))"
    using assms by (simp_all add: profiles_inv_def indexed_def)
  show ?thesis
  proof (cases "find (\<lambda>(_, p). pf_IsDefault p) (me_profiles m)")
    case None
    then have "\<not> pf_IsDefault (out_profile q)" if "(i, q) \<in> set (me_profiles m)" for i q
      using that unfolding find_None_iff by auto
    then have "\<not> (p \<in> set (Profiles_List m) \<and> pf_IsDefault p)" by (auto simp: Profiles_List_def)
    then show ?thesis using None by (simp add: Profiles_Default_def)
  next
    case (Some e)
    obtain i q where e: "e = (i, q)" by fastforce
    have q: "(i, q) \<in> set (me_profiles m)" "pf_IsDefault q"
      using Some unfolding e find_Some_iff by (auto, metis nth_mem)
    have "r = q" if "(j, r) \<in> set (me_profiles m)" "pf_IsDefault r" for j r
      using one q that d unfolding one_default_def by (metis map_of_eq_Some_iff option.inject)
    then have "out_profile q = p \<longleftrightarrow> p \<in> set (Profiles_List m) \<and> pf_IsDefault p"
      unfolding Profiles_List_def by (intro listed_iff [OF q(1)]) (simp_all add: q(2))
    then show ?thesis using Some e by (simp add: Profiles_Default_def)
  qed
qed

lemma GetBySlug_iff:
  assumes "channels_inv m"
  shows "Channels_GetBySlug pl slug m = Inr c \<longleftrightarrow> c \<in> set (Channels_List m) \<and> cn_key c = store_channelKey pl slug"
proof -
  have inv: "indexed cn_key (me_channels m) (me_channelBySlug m)" using assms by (simp add: channels_inv_def)
  show ?thesis
  proof (cases "me_channelBySlug m (store_channelKey pl slug)")
    case None
    then have "cn_key (out_channel q) \<noteq> store_channelKey pl slug" if "(i, q) \<in> set (me_channels m)" for i q
      using indexed_mem [OF inv that] by auto
    then have "\<not> (c \<in> set (Channels_List m) \<and> cn_key c = store_channelKey pl slug)" by (auto simp: Channels_List_def)
    then show ?thesis using None by (simp add: Channels_GetBySlug_def)
  next
    case (Some i)
    then obtain q where q: "map_of (me_channels m) i = Some q" "cn_key q = store_channelKey pl slug"
      using indexed_lookup [OF inv] by blast
    have "Channels_GetBySlug pl slug m = Inr (out_channel q)"
      using Some q by (simp add: Channels_GetBySlug_def channel_at_def)
    moreover have "out_channel q = c \<longleftrightarrow> c \<in> set (Channels_List m) \<and> cn_key c = store_channelKey pl slug"
      unfolding Channels_List_def
      by (rule listed_iff [OF map_of_SomeD [OF q(1)]])
        (use q(2) indexed_unique [OF inv map_of_SomeD [OF q(1)]] in \<open>auto\<close>)
    ultimately show ?thesis by simp
  qed
qed

lemma distinct_sorted_map: "distinct (map f xs) \<Longrightarrow> distinct (map f (sort_key g xs))"
  by (metis distinct_map distinct_sort set_sort)

lemma Profiles_List_names: "profiles_inv m \<Longrightarrow> distinct (map pf_Name (Profiles_List m))"
  unfolding Profiles_List_def
  by (rule distinct_sorted_map) (use indexed_inj [of pf_Name] in \<open>auto simp: profiles_inv_def comp_def case_prod_unfold\<close>)

lemma Accounts_List_identities:
  assumes "accounts_inv m"
  shows "distinct (map (\<lambda>a. (ac_Platform a, ac_PlatformUID a)) (Accounts_List m))"
proof -
  have d: "keys_distinct (me_accounts m)" and one: "one_account (map_of (me_accounts m))"
    using assms by (simp_all add: accounts_inv_def)
  have "x = y" if "x \<in> set (me_accounts m)" "y \<in> set (me_accounts m)" "same_identity (snd x) (snd y)" for x y
    using one that d unfolding one_account_def by (metis map_of_eq_Some_iff option.inject prod.collapse)
  moreover have "distinct (me_accounts m)" using d by (simp add: distinct_map)
  ultimately have "distinct (map (\<lambda>x. (ac_Platform (snd x), ac_PlatformUID (snd x))) (me_accounts m))"
    by (simp add: distinct_map inj_on_def same_identity_def)
  then show ?thesis unfolding Accounts_List_def by (intro distinct_sorted_map) (simp add: comp_def)
qed

text \<open>
  C11. The store's indexes never disagree with its records: after any sequence of calls (fewer than
  2^63), looking a profile up by name finds exactly the listed profile of that name, the default
  profile is exactly the listed one flagged so, looking a channel up by platform and slug finds
  exactly the listed channel with that key, no two profiles share a name, and no two accounts share
  an identity.
\<close>

theorem store_consistent:
  assumes "length ops < 2 ^ 63"
  shows "let m = fold store_step ops NewMemory in
      (\<forall>name p. Profiles_GetByName name m = Inr p \<longleftrightarrow> p \<in> set (Profiles_List m) \<and> pf_Name p = name)
    \<and> (\<forall>p. Profiles_Default m = Inr p \<longleftrightarrow> p \<in> set (Profiles_List m) \<and> pf_IsDefault p)
    \<and> (\<forall>pl slug c. Channels_GetBySlug pl slug m = Inr c \<longleftrightarrow>
          c \<in> set (Channels_List m) \<and> cn_key c = store_channelKey pl slug)
    \<and> distinct (map pf_Name (Profiles_List m))
    \<and> distinct (map (\<lambda>a. (ac_Platform a, ac_PlatformUID a)) (Accounts_List m))"
proof -
  have "int (length ops) < 2 ^ 63" using assms by (metis of_nat_less_iff of_nat_numeral of_nat_power)
  then have "store_inv (fold store_step ops NewMemory)"
    by (intro steps_store_inv store_inv_new) (simp add: NewMemory_def)
  then show ?thesis
    unfolding Let_def store_inv_def
    by (simp only: GetByName_iff Default_iff GetBySlug_iff Profiles_List_names Accounts_List_identities simp_thms)
qed

theorem store_consistent_witness:
  "let m = fold store_step [ProfileCreate 1 ''a'' None, ProfileCreate 2 ''b'' None,
        ProfileSetDefault (''prof_'' @ pad20 2)] NewMemory
   in \<forall>p. Profiles_Default m = Inr p \<longleftrightarrow> p \<in> set (Profiles_List m) \<and> pf_IsDefault p"
  using store_consistent [of "[ProfileCreate 1 ''a'' None, ProfileCreate 2 ''b'' None,
        ProfileSetDefault (''prof_'' @ pad20 2)]"]
  by (simp only: Let_def list.size) simp

subsection \<open>Reading page by page\<close>

text \<open>
  A client that pages through a listing: it asks with an empty cursor, then with the id of the last
  record of each page, until a page comes back empty. The bound counts the requests.
\<close>

fun read_pages :: "nat \<Rightarrow> (string \<Rightarrow> 'a list) \<Rightarrow> ('a \<Rightarrow> string) \<Rightarrow> string \<Rightarrow> 'a list" where
  "read_pages 0 get key before = []"
| "read_pages (Suc n) get key before =
    (let page = get before in if page = [] then [] else page @ read_pages n get key (key (last page)))"

lemma sort_desc_filter: "sort_desc f (filter P xs) = filter P (sort_desc f xs)"
  unfolding sort_desc_def by (simp only: rev_filter [symmetric] filter_sort)

lemma sort_desc_strict:
  assumes "distinct (map f xs)"
  shows "sorted_wrt (\<lambda>x y. f y < f x) (sort_desc f xs)"
proof -
  have "distinct (map f (sort_desc f xs))"
    using assms by (simp add: sort_desc_def distinct_map rev_map [symmetric])
  then have "sorted_wrt (\<lambda>x y. f x \<noteq> f y) (sort_desc f xs)"
    by (simp add: distinct_conv_nth sorted_wrt_iff_nth_less)
  moreover have "sorted_wrt (\<lambda>x y. f y \<le> f x) (sort_desc f xs)" by (rule sorted_sort_desc)
  ultimately show ?thesis unfolding sorted_wrt_iff_nth_less by (metis order_less_le)
qed

lemma filter_split: "(\<And>x. x \<in> set us \<Longrightarrow> \<not> P x) \<Longrightarrow> (\<And>x. x \<in> set vs \<Longrightarrow> P x) \<Longrightarrow> filter P (us @ vs) = vs"
  by (auto simp: filter_empty_conv intro: filter_True)

locale paged_listing =
  fixes query :: "'q \<Rightarrow> string \<Rightarrow> 's \<Rightarrow> 'a list"
    and items :: "'q \<Rightarrow> 's \<Rightarrow> 'a list"
    and key :: "'a \<Rightarrow> string"
    and limit :: "'q \<Rightarrow> nat"
  assumes limit_pos: "0 < limit q"
    and query_eq: "query q before s =
      take (limit q) (sort_desc key (filter (\<lambda>x. \<not> past_cursor before (key x)) (items q s)))"
begin

lemma query_bound: "length (query q before s) \<le> limit q"
  by (simp add: query_eq)

lemma query_sorted: "sorted_wrt (\<lambda>x y. key y \<le> key x) (query q before s)"
  unfolding query_eq by (intro sorted_wrt_take sorted_sort_desc)

lemma pages_from:
  assumes srt: "sorted_wrt (\<lambda>x y. key y < key x) L" and L: "L = sort_desc key (items q s)"
    and ne: "\<forall>x \<in> set L. key x \<noteq> []"
  shows "L = ys @ zs \<Longrightarrow> filter (\<lambda>x. \<not> past_cursor before (key x)) L = zs \<Longrightarrow> length zs < fuel \<Longrightarrow>
    read_pages fuel (\<lambda>b. query q b s) key before = zs"
proof (induction fuel arbitrary: ys zs before)
  case (Suc fuel)
  let ?page = "take (limit q) zs" and ?rest = "drop (limit q) zs"
  have page: "query q before s = ?page" using Suc.prems(2) L by (simp add: query_eq sort_desc_filter)
  show ?case
  proof (cases "zs = []")
    case False
    then have "?page \<noteq> []" using limit_pos [of q] by simp
    then have last: "last ?page \<in> set ?page" by (rule last_in_set)
    have split: "L = (ys @ ?page) @ ?rest" using Suc.prems(1) by simp
    have "key (last ?page) \<le> key x" if "x \<in> set (ys @ ?page)" for x
    proof -
      obtain us where us: "ys @ ?page = us @ [last ?page]" using \<open>?page \<noteq> []\<close> by (metis append_assoc append_butlast_last_id)
      have "sorted_wrt (\<lambda>x y. key y < key x) (us @ [last ?page])" 
        using srt unfolding us [symmetric] by (subst (asm) split) (auto simp: sorted_wrt_append dest: in_set_takeD)
      then show ?thesis using that unfolding us by (auto simp: sorted_wrt_append)
    qed
    moreover have "key x < key (last ?page)" if "x \<in> set ?rest" for x
      using srt [unfolded split, unfolded sorted_wrt_append [of _ "ys @ ?page" ?rest]] last that by simp
    moreover have "key (last ?page) \<noteq> []" using ne last split by (metis in_set_conv_decomp append_assoc Un_iff set_append)
    ultimately have "filter (\<lambda>x. \<not> past_cursor (key (last ?page)) (key x)) L = ?rest"
      unfolding split by (intro filter_split) (simp_all add: not_le)
    moreover have "length ?rest < fuel" using Suc.prems(3) False limit_pos [of q] by (cases zs) auto
    ultimately have "read_pages fuel (\<lambda>b. query q b s) key (key (last ?page)) = ?rest"
      using Suc.IH [OF split] by blast
    then show ?thesis using page \<open>?page \<noteq> []\<close> by (simp add: Let_def)
  qed (use page in simp)
qed simp

lemma pages_all:
  assumes "distinct (map key (items q s))" "\<forall>x \<in> set (items q s). key x \<noteq> []" "length (items q s) < fuel"
  shows "read_pages fuel (\<lambda>b. query q b s) key [] = sort_desc key (items q s)"
  using pages_from [OF sort_desc_strict [OF assms(1)] refl, of "[]" "sort_desc key (items q s)" "[]" fuel] assms(2,3)
  by simp

end

lemma page_limit_pos: "0 < page_limit n"
  by (simp add: page_limit_def)

interpretation history_pages: paged_listing
  "\<lambda>q before. Messages_History (q\<lparr>hq_Before := before\<rparr>)"
  "\<lambda>q m. filter (\<lambda>sm. sd_ChannelID sm = hq_ChannelID q) (me_messages m)" sd_ID "\<lambda>q. page_limit (hq_Limit q)"
  by unfold_locales (simp_all add: page_limit_pos Messages_History_def conj_commute)

interpretation search_pages: paged_listing
  "\<lambda>q before. Messages_Search (q\<lparr>sq_Before := before\<rparr>)"
  "\<lambda>q m. if to_lower (trim_space (sq_Text q)) = [] then []
     else filter (stored_hit (to_lower (trim_space (sq_Text q))) q) (me_messages m)" sd_ID "\<lambda>q. page_limit (sq_Limit q)"
  by unfold_locales
    (auto simp: page_limit_pos Messages_Search_def stored_hit_def Let_def sort_desc_def conj_ac
      intro!: arg_cong [of _ _ "take _"] filter_cong)

interpretation moment_pages: paged_listing
  "\<lambda>q before. Moments_List (q\<lparr>mq_Before := before\<rparr>)"
  "\<lambda>q m. filter (\<lambda>mo. \<not> (mq_Channel q \<noteq> [] \<and> ChannelRef_Key (mo_Channel mo) \<noteq> mq_Channel q)) (me_moments m)"
  mo_ID "\<lambda>q. page_limit (mq_Limit q)"
  by unfold_locales (simp_all add: page_limit_pos Moments_List_def conj_commute)

text \<open>
  C19. Paging through a channel's logged history shows every message once, newest first: as long as
  the channel's messages have distinct, non-empty ids, a client that follows the cursor from page to
  page, whatever page size it asks for, gets exactly the channel's messages in descending id order,
  and it is done after at most one request more than there are messages.
\<close>

theorem history_paging:
  assumes "distinct (map sd_ID (filter (\<lambda>sm. sd_ChannelID sm = hq_ChannelID q) (me_messages m)))"
    and "\<forall>sm \<in> set (me_messages m). sd_ID sm \<noteq> []"
    and "length (filter (\<lambda>sm. sd_ChannelID sm = hq_ChannelID q) (me_messages m)) < fuel"
  shows "read_pages fuel (\<lambda>b. Messages_History (q\<lparr>hq_Before := b\<rparr>) m) sd_ID [] =
    sort_desc sd_ID (filter (\<lambda>sm. sd_ChannelID sm = hq_ChannelID q) (me_messages m))"
  using history_pages.pages_all [of q m fuel] assms by simp

definition logged_example :: Memory where
  "logged_example = snd (Messages_Append
     (map (\<lambda>i. (chat_message (twitch_channel ''v'') [] ''ann'' ''hi'')\<lparr>um_ID := i\<rparr>) [''02'', ''01'', ''03'']) NewMemory)"

theorem history_paging_witness:
  "map sd_ID (read_pages 4 (\<lambda>b. Messages_History \<lparr>hq_ChannelID = [], hq_Before = b, hq_Limit = 2\<rparr> logged_example) sd_ID []) =
    [''03'', ''02'', ''01'']"
proof -
  let ?q = "\<lparr>hq_ChannelID = [], hq_Before = [], hq_Limit = 2\<rparr>"
  let ?L = "filter (\<lambda>sm. sd_ChannelID sm = hq_ChannelID ?q) (me_messages logged_example)"
  have "distinct (map sd_ID ?L)" "\<forall>sm \<in> set (me_messages logged_example). sd_ID sm \<noteq> []" "length ?L < 4"
    "map sd_ID (sort_desc sd_ID ?L) = [''03'', ''02'', ''01'']"
    by code_simp+
  then show ?thesis using history_paging [of ?q logged_example 4] by simp
qed

end
