(* ===== verification/Logbook.thy ===== *)
theory Logbook
  imports Store
begin

text \<open>
  \<^verbatim>\<open>internal/logbook\<close>: the sink that persists chat when logging is on, and the sweeper that enforces
  retention. The sink batches messages and hands batches to the store; its flush loop, the pipeline
  worker that feeds it and the profile manager that switches it are interleaved calls on one state.
\<close>

subsection \<open>The sink\<close>

abbreviation flushAt :: nat where "flushAt \<equiv> 200"

record LogSink =
  ls_enabled :: bool
  ls_closed :: bool
  ls_running :: bool
  ls_buf :: "UnifiedMessage list"
  ls_channels :: "string list"
  ls_store :: Memory

definition NewSink :: "Memory \<Rightarrow> LogSink" where
  "NewSink m = \<lparr>ls_enabled = False, ls_closed = False, ls_running = False, ls_buf = [], ls_channels = [],
     ls_store = m\<rparr>"

definition log_channelID :: "ChannelRef \<Rightarrow> string" where
  "log_channelID ch = ch_Platform ch @ '':'' @ ch_Slug ch"

definition SetEnabled :: "bool \<Rightarrow> LogSink \<Rightarrow> LogSink" where
  "SetEnabled on s = (let s = s\<lparr>ls_enabled := on\<rparr> in if \<not> on then s\<lparr>ls_buf := []\<rparr> else s)"

text \<open>A failed write drops the batch: the error is only logged.\<close>

definition log_flush :: "LogSink \<Rightarrow> LogSink" where
  "log_flush s = (if ls_buf s = [] then s
     else s\<lparr>ls_buf := [], ls_store := snd (Messages_Append (ls_buf s) (ls_store s))\<rparr>)"

definition log_keyed :: "UnifiedMessage \<Rightarrow> UnifiedMessage" where
  "log_keyed m = m\<lparr>um_Channel := (um_Channel m)\<lparr>ch_ID := log_channelID (um_Channel m)\<rparr>\<rparr>"

definition log_Consume :: "Event \<Rightarrow> LogSink \<Rightarrow> LogSink" where
  "log_Consume ev s =
    (if ls_closed s \<or> \<not> ls_enabled s then s
     else (case ev of
       MessageEvent m \<Rightarrow>
         if um_Ephemeral m then s
         else
           let m = log_keyed m;
               s = s\<lparr>ls_buf := ls_buf s @ [m], ls_channels := List.insert (ch_ID (um_Channel m)) (ls_channels s)\<rparr>
           in if length (ls_buf s) \<ge> flushAt then log_flush s else s
     | MessageDeletedEvent _ _ mid \<Rightarrow>
         if mid = [] then s else s\<lparr>ls_store := snd (Messages_MarkDeleted mid (ls_store s))\<rparr>
     | _ \<Rightarrow> s))"

definition log_Start :: "LogSink \<Rightarrow> LogSink" where
  "log_Start s = s\<lparr>ls_running := True\<rparr>"

text \<open>Closing stops intake, then the flush loop, if it was started, drains once more and ends.\<close>

definition log_Close :: "LogSink \<Rightarrow> LogSink" where
  "log_Close s = (if ls_closed s then s
     else let s = s\<lparr>ls_closed := True\<rparr>
          in if ls_running s then (log_flush s)\<lparr>ls_running := False\<rparr> else s)"

subsection \<open>The sweeper\<close>

definition hour :: duration where
  "hour = 3600 * second"

text \<open>
  \<^verbatim>\<open>time.Duration(n) * 24 * time.Hour\<close> is int64 arithmetic, left to right, so a huge count wraps.
\<close>

definition unit_count :: "char \<Rightarrow> string \<Rightarrow> int option" where
  "unit_count u p = (if p \<noteq> [] \<and> last p = u
     then (case atoi (butlast p) of None \<Rightarrow> None | Some n \<Rightarrow> if n > 0 then Some n else None)
     else None)"

definition parseRetention :: "string \<Rightarrow> duration option" where
  "parseRetention policy =
    (let p = trim_space (to_lower policy) in
     if p = [] \<or> p = ''forever'' then None
     else (case unit_count CHR ''d'' p of
       Some n \<Rightarrow> Some (wrap64 (wrap64 (n * 24) * hour))
     | None \<Rightarrow> (case unit_count CHR ''h'' p of
         Some n \<Rightarrow> Some (wrap64 (n * hour))
       | None \<Rightarrow> None)))"

record Sweeper =
  sw_retain :: int

definition SetRetention :: "string \<Rightarrow> Sweeper \<Rightarrow> bool \<times> Sweeper" where
  "SetRetention policy w = (case parseRetention policy of
     None \<Rightarrow> (False, w\<lparr>sw_retain := 0\<rparr>)
   | Some d \<Rightarrow> (True, w\<lparr>sw_retain := trunc_div d second\<rparr>))"

definition loggedChannels :: "LogSink \<Rightarrow> string list" where
  "loggedChannels s = ls_channels s"

definition sweep :: "time \<Rightarrow> Sweeper \<Rightarrow> LogSink \<Rightarrow> LogSink" where
  "sweep now w s =
    (if sw_retain w \<le> 0 then s
     else
       let cutoff = now + wrap64 (wrap64 (- sw_retain w) * second)
       in s\<lparr>ls_store := fold (\<lambda>ch m. snd (Messages_Sweep ch cutoff m)) (loggedChannels s) (ls_store s)\<rparr>)"

subsection \<open>Nothing logged is lost, nothing ephemeral is logged\<close>

definition undeleted :: "StoredMessage \<Rightarrow> StoredMessage" where
  "undeleted sm = sm\<lparr>sd_Deleted := False\<rparr>"

lemma undeleted_stored [simp]: "undeleted (stored m) = stored m"
  by (simp add: undeleted_def stored_def)

text \<open>What is stored or about to be, deletion marks aside.\<close>

definition written :: "LogSink \<Rightarrow> StoredMessage list" where
  "written s = map undeleted (me_messages (ls_store s)) @ map stored (ls_buf s)"

definition log_ok :: "LogSink \<Rightarrow> bool" where
  "log_ok s \<longleftrightarrow> (\<forall>m \<in> set (ls_buf s). \<not> um_Ephemeral m)"

fun logged :: "Event \<Rightarrow> StoredMessage list" where
  "logged (MessageEvent m) = (if um_Ephemeral m then [] else [stored (log_keyed m)])"
| "logged ev = []"

lemma mark_stored_undeleted: "mark_stored i sms = Some sms' \<Longrightarrow> map undeleted sms' = map undeleted sms"
proof (induction sms arbitrary: sms')
  case (Cons sm sms)
  then show ?case by (auto simp: undeleted_def split: if_splits)
qed simp

lemma MarkDeleted_written: "map undeleted (me_messages (snd (Messages_MarkDeleted i m))) = map undeleted (me_messages m)"
  by (simp add: Messages_MarkDeleted_def mark_stored_undeleted split: option.split)

lemma log_flush_written:
  assumes "log_ok s"
  shows "written (log_flush s) = written s" and "ls_buf (log_flush s) = []" and "log_ok (log_flush s)"
    and "ls_enabled (log_flush s) = ls_enabled s" and "ls_closed (log_flush s) = ls_closed s"
proof -
  have "\<not> list_ex um_Ephemeral (ls_buf s)" using assms by (auto simp: log_ok_def list_ex_iff)
  then show "written (log_flush s) = written s" by (simp add: log_flush_def written_def Messages_Append_def)
qed (simp_all add: log_flush_def log_ok_def)

lemma log_Consume_written:
  assumes "log_ok s" "ls_enabled s" "\<not> ls_closed s"
  shows "written (log_Consume ev s) = written s @ logged ev"
    and "log_ok (log_Consume ev s)" "ls_enabled (log_Consume ev s)" "\<not> ls_closed (log_Consume ev s)"
proof -
  have "written (log_Consume ev s) = written s @ logged ev \<and> log_ok (log_Consume ev s)
      \<and> ls_enabled (log_Consume ev s) \<and> \<not> ls_closed (log_Consume ev s)"
  proof (cases ev)
    case (MessageEvent m)
    show ?thesis
    proof (cases "um_Ephemeral m")
      case False
      define t where "t = s\<lparr>ls_buf := ls_buf s @ [log_keyed m],
        ls_channels := List.insert (ch_ID (um_Channel (log_keyed m))) (ls_channels s)\<rparr>"
      have t: "log_ok t" "ls_enabled t" "\<not> ls_closed t" "written t = written s @ logged ev"
        using assms False MessageEvent by (auto simp: t_def log_ok_def written_def log_keyed_def)
      have "log_Consume ev s = (if length (ls_buf t) \<ge> flushAt then log_flush t else t)"
        using assms False MessageEvent by (simp add: log_Consume_def t_def Let_def)
      then show ?thesis using t log_flush_written [OF t(1)] by simp
    qed (use assms MessageEvent in \<open>simp add: log_Consume_def\<close>)
  next
    case (MessageDeletedEvent ch pid mid)
    then show ?thesis using assms by (simp add: log_Consume_def written_def MarkDeleted_written log_ok_def)
  qed (use assms in \<open>simp_all add: log_Consume_def\<close>)
  then show "written (log_Consume ev s) = written s @ logged ev"
    and "log_ok (log_Consume ev s)" "ls_enabled (log_Consume ev s)" "\<not> ls_closed (log_Consume ev s)"
    by simp_all
qed

lemma log_Consumes_written:
  "log_ok s \<Longrightarrow> ls_enabled s \<Longrightarrow> \<not> ls_closed s \<Longrightarrow>
    written (fold log_Consume evs s) = written s @ concat (map logged evs) \<and> log_ok (fold log_Consume evs s)"
  by (induction evs arbitrary: s) (simp_all add: log_Consume_written)


definition log_example :: "Event list" where
  "log_example = [MessageEvent ((chat_message (twitch_channel ''v'') ''p1'' ''ann'' ''hi'')\<lparr>um_ID := ''01''\<rparr>),
     MessageEvent ((chat_message (twitch_channel ''v'') ''p2'' ''bob'' ''psst'')\<lparr>um_ID := ''02'', um_Ephemeral := True\<rparr>)]"


text \<open>
  A deletion that arrives while its message is still buffered is lost: the store does not know the id
  yet, so the later flush stores the message unmarked.
\<close>

theorem deletion_while_buffered:
  "let s = SetEnabled True (NewSink NewMemory);
       s = fold log_Consume (log_example @ [MessageDeletedEvent (twitch_channel ''v'') ''p1'' ''01'']) s
   in map (\<lambda>sm. (sd_ID sm, sd_Deleted sm)) (me_messages (ls_store (log_flush s))) = [(''01'', False)]"
  by code_simp

subsection \<open>Retention\<close>

lemma fold_Sweep:
  "me_messages (fold (\<lambda>ch m. snd (Messages_Sweep ch cutoff m)) chs m) =
    filter (\<lambda>sm. \<not> (sd_ChannelID sm \<in> set chs \<and> sd_ReceivedAt sm < cutoff)) (me_messages m)"
proof (induction chs arbitrary: m)
  case (Cons ch chs)
  then show ?case by (simp add: Messages_Sweep_def) (intro filter_cong; auto)
qed (simp add: filter_True)

lemma parseRetention_days:
  "unit_count CHR ''d'' (trim_space (to_lower policy)) = Some n \<Longrightarrow>
    parseRetention policy = Some (wrap64 (wrap64 (n * 24) * hour))"
  by (auto simp: parseRetention_def Let_def unit_count_def)

lemma days_exact:
  assumes "0 < n" "n \<le> 106751"
  shows "wrap64 (wrap64 (n * 24) * hour) = n * (24 * hour)"
    and "trunc_div (n * (24 * hour)) second = n * 86400"
    and "wrap64 (wrap64 (- (n * 86400)) * second) = - (n * (24 * hour))"
proof -
  have w: "wrap64 x = x" if "- 9223372036854775808 \<le> x" "x < 9223372036854775808" for x
    using that by (intro wrap64_id) (simp add: int64_ok_def)
  show "wrap64 (wrap64 (n * 24) * hour) = n * (24 * hour)" using assms by (simp add: w hour_def second_def)
  show "trunc_div (n * (24 * hour)) second = n * 86400"
    using assms trunc_div_nonneg [of "n * (24 * hour)" second] by (simp add: hour_def second_def)
  show "wrap64 (wrap64 (- (n * 86400)) * second) = - (n * (24 * hour))" using assms by (simp add: w hour_def second_def)
qed

text \<open>
  C35. A retention of \<open>n\<close> days (up to 106751, what an int64 duration holds) is enforced exactly: a sweep
  removes the messages of the logged channels received more than \<open>n\<close> days before, keeps every other
  message, and keeps their order.
\<close>

theorem retention_exact:
  assumes "unit_count CHR ''d'' (trim_space (to_lower policy)) = Some n" "n \<le> 106751"
  shows "me_messages (ls_store (sweep now (snd (SetRetention policy w)) s)) =
    filter (\<lambda>sm. \<not> (sd_ChannelID sm \<in> set (loggedChannels s) \<and> sd_ReceivedAt sm < now - n * (24 * hour)))
      (me_messages (ls_store s))"
proof -
  have n: "0 < n" using assms(1) by (auto simp: unit_count_def split: if_splits option.splits)
  have "sw_retain (snd (SetRetention policy w)) = n * 86400"
    using days_exact [OF n assms(2)] by (simp add: SetRetention_def parseRetention_days [OF assms(1)])
  then show ?thesis using n days_exact(3) [OF n assms(2)] by (simp add: sweep_def Let_def fold_Sweep)
qed

theorem retention_exact_witness:
  "me_messages (ls_store (sweep 0 (snd (SetRetention '' 30D'' \<lparr>sw_retain = 0\<rparr>)) (NewSink NewMemory))) =
    filter (\<lambda>sm. \<not> (sd_ChannelID sm \<in> set (loggedChannels (NewSink NewMemory)) \<and> sd_ReceivedAt sm < 0 - 30 * (24 * hour)))
      (me_messages (ls_store (NewSink NewMemory)))"
proof -
  have "unit_count CHR ''d'' (trim_space (to_lower '' 30D'')) = Some 30" by code_simp
  then show ?thesis by (rule retention_exact) simp
qed

text \<open>
  Beyond that the day count wraps: a policy of 213504 days (584 years) is taken as 1526 seconds, so
  the sweeper deletes everything older than about 25 minutes.
\<close>

theorem retention_wraps: "SetRetention ''213504d'' \<lparr>sw_retain = 0\<rparr> = (True, \<lparr>sw_retain = 1526\<rparr>)"
  by code_simp

end
