(* ===== verification/Velocity.thy ===== *)
theory Velocity
  imports Pipeline Rolling
begin

text \<open>
  \<^verbatim>\<open>internal/velocity\<close>: the pipeline stage that marks ordinary messages of a flooded channel as sampled.
  The two parallel arrays of a channel are lists of three; the array index is Go's remainder, so a
  second before 1970 can index below zero, which panics (the runner then drops the message and counts
  the panic).
\<close>

subsection \<open>A channel's rate\<close>

abbreviation velWindow :: nat where "velWindow \<equiv> 3"
abbreviation DefaultThreshold :: int where "DefaultThreshold \<equiv> 25"

record channelRate =
  vr_buckets :: "int list"
  vr_secs :: "int list"
  vr_firstSec :: int
  vr_keep :: rat

definition zero_rate :: channelRate where
  "zero_rate = \<lparr>vr_buckets = replicate velWindow 0, vr_secs = replicate velWindow 0, vr_firstSec = 0, vr_keep = 0\<rparr>"

definition vel_first :: "int \<Rightarrow> channelRate \<Rightarrow> channelRate" where
  "vel_first now c = (if vr_firstSec c = 0 then c\<lparr>vr_firstSec := now\<rparr> else c)"

definition vel_tally :: "int \<Rightarrow> channelRate \<Rightarrow> channelRate" where
  "vel_tally now c =
    (let c = vel_first now c;
         idx = nat (trunc_mod now (int velWindow));
         c = (if vr_secs c ! idx \<noteq> now
              then c\<lparr>vr_secs := (vr_secs c)[idx := now], vr_buckets := (vr_buckets c)[idx := 0]\<rparr> else c)
     in c\<lparr>vr_buckets := (vr_buckets c)[idx := vr_buckets c ! idx + 1]\<rparr>)"

definition vel_rate :: "int \<Rightarrow> channelRate \<Rightarrow> rat" where
  "vel_rate now c =
    (let total = (\<Sum>i\<leftarrow>[0..<velWindow]. if now - vr_secs c ! i < int velWindow then vr_buckets c ! i else 0);
         span = now - vr_firstSec c + 1;
         span = (if span > int velWindow then int velWindow else span);
         span = (if span < 1 then 1 else span)
     in fl (fl_int total / fl_int span))"

text \<open>None is the out-of-range panic.\<close>

definition vel_record :: "int \<Rightarrow> channelRate \<Rightarrow> (rat \<times> channelRate) option" where
  "vel_record now c = (if trunc_mod now (int velWindow) < 0 then None
     else let c = vel_tally now c in Some (vel_rate now c, c))"

subsection \<open>The stage\<close>

record VelocityStage =
  vs_threshold :: int
  vs_channels :: "string \<rightharpoonup> channelRate"

definition NewVelocity :: "int \<Rightarrow> VelocityStage" where
  "NewVelocity threshold = \<lparr>vs_threshold = threshold, vs_channels = Map.empty\<rparr>"

definition SetThreshold :: "int \<Rightarrow> VelocityStage \<Rightarrow> VelocityStage" where
  "SetThreshold n s = s\<lparr>vs_threshold := n\<rparr>"

definition isPriority :: "UnifiedMessage \<Rightarrow> bool" where
  "isPriority m = ((case um_Annotations m of None \<Rightarrow> False | Some a \<Rightarrow> an_FirstTime a)
     \<or> list_ex (\<lambda>b. bd_Set b \<in> {''broadcaster'', ''moderator'', ''vip'', ''subscriber'', ''founder''})
         (au_Badges (um_Author m)))"

definition velocity_Annotate :: "VelocityStage stage" where
  "velocity_Annotate s msg =
    (if um_Type msg \<noteq> TypeChat then (StageOk msg, s)
     else
       let threshold = vs_threshold s;
           key = ChannelRef_Key (um_Channel msg);
           c = (case vs_channels s key of None \<Rightarrow> zero_rate | Some c \<Rightarrow> c);
           put = (\<lambda>c. s\<lparr>vs_channels := (vs_channels s)(key \<mapsto> c)\<rparr>)
       in (case vel_record (unix (um_ReceivedAt msg)) c of
             None \<Rightarrow> (StagePanic, put (vel_first (unix (um_ReceivedAt msg)) c))
           | Some (rate, c) \<Rightarrow>
               if threshold \<le> 0 \<or> rate \<le> fl_int threshold then (StageOk msg, put (c\<lparr>vr_keep := 0\<rparr>))
               else if isPriority msg then (StageOk msg, put c)
               else
                 let keep = fl (vr_keep c + fl (fl_int threshold / rate))
                 in if keep \<ge> 1 then (StageOk msg, put (c\<lparr>vr_keep := fl (keep - 1)\<rparr>))
                    else (StageOk (Annotate (\<lambda>a. a\<lparr>an_Sampled := True\<rparr>) msg), put (c\<lparr>vr_keep := keep\<rparr>))))"

subsection \<open>The rate is the window's\<close>

definition vel_wf :: "channelRate \<Rightarrow> bool" where
  "vel_wf c \<longleftrightarrow> length (vr_buckets c) = velWindow \<and> length (vr_secs c) = velWindow \<and> (\<forall>n \<in> set (vr_buckets c). 0 \<le> n)"

definition vel_view :: "channelRate \<Rightarrow> nat \<Rightarrow> (int \<times> int) option" where
  "vel_view c i = (if i < velWindow \<and> 0 < vr_buckets c ! i then Some (vr_secs c ! i, vr_buckets c ! i) else None)"

lemma vel_slot: "0 \<le> now \<Longrightarrow> nat (trunc_mod now 3) = slot_of velWindow now"
  by (simp add: slot_of_def trunc_mod_nonneg)

interpretation vel_ring: bucket_ring velWindow "\<lambda>t :: int. t" vel_tally vel_view 0 "\<lambda>_ n. n + 1" vel_wf "\<lambda>t. 0 \<le> t"
proof (unfold_locales, goal_cases)
  case (2 c now)
  have "slot_of velWindow now < velWindow" by (rule slot_of_less) simp
  then have "vr_buckets c ! slot_of velWindow now \<in> set (vr_buckets c)" using 2 by (simp add: vel_wf_def)
  then have "0 \<le> vr_buckets c ! slot_of velWindow now" using 2 by (simp add: vel_wf_def)
  then show ?case
    using 2 \<open>slot_of velWindow now < velWindow\<close>
    by (auto simp: vel_wf_def vel_tally_def vel_first_def vel_slot Let_def dest!: subsetD [OF set_update_subset_insert])
next
  case (3 c now i)
  have "slot_of velWindow now < velWindow" by (rule slot_of_less) simp
  moreover from this have "0 \<le> vr_buckets c ! slot_of velWindow now" using 3 by (simp add: vel_wf_def)
  then have "0 < vr_buckets c ! slot_of velWindow now \<or> vr_buckets c ! slot_of velWindow now = 0" by auto
  ultimately show ?case
    using 3 by (auto simp: vel_view_def vel_tally_def vel_first_def vel_slot Let_def vel_wf_def nth_list_update)
qed simp

lemma zero_rate_ok: "vel_wf zero_rate" "vel_view zero_rate i = None"
  by (auto simp: vel_wf_def vel_view_def zero_rate_def)

lemma vel_summary: "vel_ring.summary es = int (length es)"
  by (induction es rule: rev_induct) (simp_all add: vel_ring.summary_def)

lemma vel_firstSec: "\<forall>t \<in> set ts. 0 < t \<Longrightarrow> vr_firstSec (fold vel_tally ts c) = (if vr_firstSec c = 0 \<and> ts \<noteq> [] then hd ts else vr_firstSec c)"
  by (induction ts arbitrary: c) (auto simp: vel_tally_def vel_first_def Let_def)

definition vel_span :: "int list \<Rightarrow> int" where
  "vel_span ts = min 3 (last ts - hd ts + 1)"

lemma vel_rate_exact:
  assumes "ts \<noteq> []" "sorted ts" "\<forall>t \<in> set ts. 0 < t"
  shows "vel_rate (last ts) (fold vel_tally ts zero_rate) =
    fl (fl_int (int (length (filter (\<lambda>t. last ts - t < 3) ts))) / fl_int (vel_span ts))"
proof -
  let ?c = "fold vel_tally ts zero_rate" and ?now = "last ts"
  have pos: "\<forall>t \<in> set ts. 0 \<le> t" using assms(3) by auto
  have le: "\<forall>t \<in> set ts. t \<le> ?now"
    using assms(1,2) by (induction ts rule: rev_induct) (auto simp: sorted_append)
  have wf: "vel_wf ?c" using vel_ring.wf_records [OF zero_rate_ok(1) pos] .
  have "(\<Sum>i<velWindow. case vel_view ?c i of None \<Rightarrow> 0 | Some (s, b) \<Rightarrow> if ?now - s < int velWindow then nat b else 0) =
      length (vel_ring.in_window ?now ts)"
    using vel_ring.window_total [of zero_rate ts ?now nat] zero_rate_ok assms(2) pos le vel_summary by simp
  then have win: "(\<Sum>i<velWindow. case vel_view ?c i of None \<Rightarrow> 0 | Some (s, b) \<Rightarrow> if ?now - s < 3 then nat b else 0) =
      length (filter (\<lambda>t. ?now - t < 3) ts)" unfolding vel_ring.in_window_def of_nat_numeral .
  have each: "(if ?now - vr_secs ?c ! i < 3 then vr_buckets ?c ! i else 0) =
      int (case vel_view ?c i of None \<Rightarrow> 0 | Some (s, b) \<Rightarrow> if ?now - s < 3 then nat b else 0)" if "i < velWindow" for i
  proof -
    have "vr_buckets ?c ! i \<in> set (vr_buckets ?c)" using wf that by (simp add: vel_wf_def)
    then have "0 \<le> vr_buckets ?c ! i" using wf by (simp add: vel_wf_def)
    then show ?thesis using that by (auto simp: vel_view_def)
  qed
  have "(\<Sum>i\<leftarrow>[0..<velWindow]. if ?now - vr_secs ?c ! i < int velWindow then vr_buckets ?c ! i else 0) =
      (\<Sum>i<velWindow. int (case vel_view ?c i of None \<Rightarrow> 0 | Some (s, b) \<Rightarrow> if ?now - s < 3 then nat b else 0))"
    unfolding interv_sum_list_conv_sum_set_nat atLeast0LessThan by (rule sum.cong) (auto simp: each)
  then have total: "(\<Sum>i\<leftarrow>[0..<velWindow]. if ?now - vr_secs ?c ! i < int velWindow then vr_buckets ?c ! i else 0) =
      int (length (filter (\<lambda>t. ?now - t < 3) ts))" using win by (simp only: of_nat_sum [symmetric])
  have first: "vr_firstSec ?c = hd ts" using vel_firstSec [OF assms(3), of zero_rate] assms(1) by (simp add: zero_rate_def)
  have "hd ts \<le> ?now" using le assms(1) by simp
  then have "(if (if ?now - hd ts + 1 > int velWindow then int velWindow else ?now - hd ts + 1) < 1 then 1
      else if ?now - hd ts + 1 > int velWindow then int velWindow else ?now - hd ts + 1) = vel_span ts"
    by (simp add: vel_span_def min_def)
  then show ?thesis unfolding vel_rate_def Let_def total first by (simp only:)
qed

subsection \<open>What the stage does\<close>

lemma velocity_core: "velocity_Annotate s m = (StageOk m', s') \<Longrightarrow> ev_core (MessageEvent m') = ev_core (MessageEvent m)"
  by (auto simp: velocity_Annotate_def Let_def split: if_splits option.splits prod.splits)

interpretation velocity_ok: annotation_stage velocity_Annotate
  by unfold_locales (rule velocity_core)

text \<open>Running the stage over a sequence of messages.\<close>

definition vel_run :: "UnifiedMessage list \<Rightarrow> VelocityStage \<Rightarrow> VelocityStage" where
  "vel_run ms s = fold (\<lambda>m s. snd (velocity_Annotate s m)) ms s"

definition chat_secs :: "string \<Rightarrow> UnifiedMessage list \<Rightarrow> int list" where
  "chat_secs key ms = map (\<lambda>m. unix (um_ReceivedAt m))
     (filter (\<lambda>m. um_Type m = TypeChat \<and> ChannelRef_Key (um_Channel m) = key) ms)"

definition rate_of :: "string \<Rightarrow> VelocityStage \<Rightarrow> channelRate" where
  "rate_of key s = (case vs_channels s key of None \<Rightarrow> zero_rate | Some c \<Rightarrow> c)"

definition vel_core :: "channelRate \<Rightarrow> channelRate" where
  "vel_core c = c\<lparr>vr_keep := 0\<rparr>"

lemma vel_core_tally: "vel_core (vel_tally now c) = vel_tally now (vel_core c)"
  by (simp add: vel_core_def vel_tally_def vel_first_def Let_def)

lemma vel_core_keep [simp]: "vel_core (c\<lparr>vr_keep := k\<rparr>) = vel_core c" "vel_core (vel_core c) = vel_core c"
  by (simp_all add: vel_core_def)

lemma vel_rate_core: "vel_rate now (vel_core c) = vel_rate now c"
  by (simp add: vel_rate_def vel_core_def cong: if_cong)

lemma vel_step_rate:
  assumes "\<forall>t \<in> set (chat_secs key [m]). 0 \<le> t"
  shows "vel_core (rate_of key (snd (velocity_Annotate s m))) = fold vel_tally (chat_secs key [m]) (vel_core (rate_of key s))"
  using assms
  by (auto simp: velocity_Annotate_def rate_of_def chat_secs_def vel_record_def Let_def vel_core_tally trunc_mod_nonneg
      split: option.splits)

lemma vel_step_other:
  "ChannelRef_Key (um_Channel m) \<noteq> key \<Longrightarrow> rate_of key (snd (velocity_Annotate s m)) = rate_of key s"
  by (auto simp: velocity_Annotate_def rate_of_def Let_def split: option.splits prod.splits)

lemma chat_secs_Cons: "chat_secs key (m # ms) = chat_secs key [m] @ chat_secs key ms"
  by (simp add: chat_secs_def)

lemma vel_run_rate:
  "\<forall>t \<in> set (chat_secs key ms). 0 \<le> t \<Longrightarrow>
    vel_core (rate_of key (vel_run ms s)) = fold vel_tally (chat_secs key ms) (vel_core (rate_of key s))"
proof (induction ms arbitrary: s)
  case (Cons m ms)
  then have "\<forall>t \<in> set (chat_secs key [m]). 0 \<le> t" "\<forall>t \<in> set (chat_secs key ms). 0 \<le> t"
    by (simp_all add: chat_secs_Cons [of key m ms] ball_Un)
  then show ?case
    using Cons.IH [of "snd (velocity_Annotate s m)"] vel_step_rate [of key m s]
    by (simp add: vel_run_def chat_secs_Cons [of key m ms])
qed (simp add: vel_run_def chat_secs_def)

text \<open>
  Calm-mode sampling never touches what it must not: whatever messages came before, the stage
  returns a message unchanged or with only the sampled mark set, and it sets the mark only on an
  ordinary chat message (no first-time chatter, no broadcaster, moderator, VIP, subscriber or founder
  badge) with sampling enabled, and only if the channel's chat rate exceeds the threshold, where the
  rate is the number of its chat messages of the last 3 seconds, this one included, divided by the
  seconds it has been observed (3 at most).
\<close>

theorem velocity_sampling:
  assumes "sorted (chat_secs key (ms @ [m]))" and "\<forall>t \<in> set (chat_secs key (ms @ [m])). 0 < t"
    and "key = ChannelRef_Key (um_Channel m)"
    and "velocity_Annotate (vel_run ms (NewVelocity threshold)) m = (StageOk m', s')" and "m' \<noteq> m"
  shows "m' = Annotate (\<lambda>a. a\<lparr>an_Sampled := True\<rparr>) m \<and> um_Type m = TypeChat \<and> \<not> isPriority m \<and> 0 < threshold
    \<and> (let ts = chat_secs key (ms @ [m]); now = unix (um_ReceivedAt m) in
         fl_int threshold < fl (fl_int (int (length (filter (\<lambda>t. now - t < 3) ts))) / fl_int (vel_span ts)))"
proof -
  let ?s = "vel_run ms (NewVelocity threshold)" and ?now = "unix (um_ReceivedAt m)"
  let ?ts = "chat_secs key (ms @ [m])" and ?c = "vel_tally (unix (um_ReceivedAt m)) (rate_of key (vel_run ms (NewVelocity threshold)))"
  have thr: "vs_threshold (vel_run ms s) = vs_threshold s" for s
  proof -
    have "vs_threshold (snd (velocity_Annotate s m)) = vs_threshold s" for s m
      by (auto simp: velocity_Annotate_def Let_def split: option.splits prod.splits)
    then show ?thesis unfolding vel_run_def by (induction ms arbitrary: s) simp_all
  qed
  have chat: "um_Type m = TypeChat" 
    using assms(4,5) by (cases "um_Type m = TypeChat") (simp_all add: velocity_Annotate_def)
  then have ts: "?ts = chat_secs key ms @ [?now]" using assms(3) by (simp add: chat_secs_def)
  have "0 < ?now" using assms(2) ts by simp
  then have rec: "vel_record ?now (rate_of key ?s) = Some (vel_rate ?now ?c, ?c)"
    by (simp add: vel_record_def Let_def trunc_mod_nonneg)
  have step: "\<not> (threshold \<le> 0 \<or> vel_rate ?now ?c \<le> fl_int threshold)" "\<not> isPriority m"
    "m' = Annotate (\<lambda>a. a\<lparr>an_Sampled := True\<rparr>) m"
    using assms(3-5) chat rec thr [of "NewVelocity threshold"]
    by (auto simp: velocity_Annotate_def rate_of_def NewVelocity_def Let_def split: if_splits)
  have "rate_of key (NewVelocity threshold) = zero_rate" by (simp add: rate_of_def NewVelocity_def)
  moreover have "\<forall>t \<in> set (chat_secs key ms). 0 \<le> t" using assms(2) ts by auto
  ultimately have "vel_core (rate_of key ?s) = fold vel_tally (chat_secs key ms) zero_rate"
    using vel_run_rate [of key ms "NewVelocity threshold"] by (simp add: vel_core_def zero_rate_def)
  then have "vel_core ?c = fold vel_tally ?ts zero_rate" by (simp add: vel_core_tally ts)
  then have "vel_rate ?now ?c = vel_rate (last ?ts) (fold vel_tally ?ts zero_rate)"
    using vel_rate_core [of ?now ?c] ts by simp
  also have "\<dots> = fl (fl_int (int (length (filter (\<lambda>t. last ?ts - t < 3) ?ts))) / fl_int (vel_span ?ts))"
    by (rule vel_rate_exact) (use assms(1,2) ts in auto)
  finally show ?thesis using step chat ts unfolding Let_def by (simp add: not_le)
qed

theorem velocity_sampling_witness:
  "let m = (chat_message (twitch_channel ''v'') [] ''ann'' ''hi'')\<lparr>um_ReceivedAt := 5 * second\<rparr>
   in \<exists>m' s'. velocity_Annotate (vel_run [m] (NewVelocity 1)) m = (StageOk m', s') \<and> m' \<noteq> m \<and> \<not> isPriority m"
proof -
  define m where "m = (chat_message (twitch_channel ''v'') [] ''ann'' ''hi'')\<lparr>um_ReceivedAt := 5 * second\<rparr>"
  define key where "key = ChannelRef_Key (um_Channel m)"
  have secs: "chat_secs key [m, m] = [5, 5]"
    by (simp add: chat_secs_def key_def m_def chat_message_def unix_def second_def)
  define r where "r = velocity_Annotate (vel_run [m] (NewVelocity 1)) m"
  have "(case fst r of StageOk m' \<Rightarrow> an_Sampled (annotation m') \<and> \<not> an_Sampled (annotation m) | _ \<Rightarrow> False)"
    unfolding r_def m_def by code_simp
  then obtain m' s' where r: "velocity_Annotate (vel_run [m] (NewVelocity 1)) m = (StageOk m', s')" "m' \<noteq> m"
    by (cases r) (auto simp: r_def [symmetric] split: stage_result.splits)
  have "\<not> isPriority m" using velocity_sampling [of key "[m]" m 1 m' s'] r secs by (simp add: key_def)
  then show ?thesis using r unfolding Let_def m_def [symmetric] by blast
qed

end
