(* ===== verification/Moments.thy ===== *)
theory Moments
  imports Store Rolling
begin

text \<open>
  \<^verbatim>\<open>internal/moments\<close>: the detector of chat-activity spikes. Per channel it keeps a ring of ten
  per-second counts, a slow baseline, the last eight messages and the open moment; a tick advances
  every channel's state machine. The detector's clock reads a time after 1970, so that the ring index
  is a second modulo ten. Ids come from the generator argument \<open>new\<close>; the closed moments go to the
  store and to the pipeline's entry (\<open>dt_out\<close>, in submission order).
\<close>

subsection \<open>Constants\<close>

text \<open>Untyped constants are exact until they meet a float64.\<close>

abbreviation momWindow :: nat where "momWindow \<equiv> 10"
abbreviation excerptSize :: nat where "excerptSize \<equiv> 8"
abbreviation maxBodyLen :: nat where "maxBodyLen \<equiv> 140"
abbreviation closeQuietSeconds :: int where "closeQuietSeconds \<equiv> 5"
abbreviation cooldownSeconds :: int where "cooldownSeconds \<equiv> 30"
abbreviation idleSeconds :: int where "idleSeconds \<equiv> 300"

definition baselineAlpha :: rat where "baselineAlpha = fl (1 / 50)"
definition baselineKeep :: rat where "baselineKeep = fl (1 - 1 / 50)"
definition minSpikeRate :: rat where "minSpikeRate = fl 5"
definition spikeFactor :: rat where "spikeFactor = fl 3"
definition minSpikeDuration :: duration where "minSpikeDuration = 3 * second"

subsection \<open>A channel's state\<close>

definition no_moment :: Moment where
  "no_moment = \<lparr>mo_ID = [], mo_Channel = no_channel, mo_StartedAt = zero_time, mo_EndedAt = zero_time,
     mo_PeakRate = 0, mo_Baseline = 0, mo_Excerpt = []\<rparr>"

record spikeState =
  sp_ref :: ChannelRef
  sp_buckets :: "(int \<times> int) list"
  sp_lastSeen :: int
  sp_baseline :: rat
  sp_recent :: "MomentMessage list"
  sp_inSpike :: bool
  sp_moment :: Moment
  sp_quietSecs :: int
  sp_cooldownUntil :: int

definition newSpikeState :: "ChannelRef \<Rightarrow> spikeState" where
  "newSpikeState ref = \<lparr>sp_ref = ref, sp_buckets = replicate momWindow (0, 0), sp_lastSeen = 0, sp_baseline = 0,
     sp_recent = [], sp_inSpike = False, sp_moment = no_moment, sp_quietSecs = 0, sp_cooldownUntil = 0\<rparr>"

definition spike_record :: "int \<Rightarrow> spikeState \<Rightarrow> spikeState" where
  "spike_record now cs =
    (let i = nat (now mod int momWindow);
         b = (if fst (sp_buckets cs ! i) \<noteq> now then (now, 0) else sp_buckets cs ! i)
     in cs\<lparr>sp_buckets := (sp_buckets cs)[i := (fst b, snd b + 1)], sp_lastSeen := now\<rparr>)"

definition spike_rate :: "int \<Rightarrow> spikeState \<Rightarrow> rat" where
  "spike_rate now cs =
    (let total = (\<Sum>b\<leftarrow>sp_buckets cs. if now - fst b < int momWindow \<and> fst b \<le> now then snd b else 0)
     in fl (fl_int total / fl_int (int momWindow)))"

definition remember :: "MomentMessage \<Rightarrow> spikeState \<Rightarrow> spikeState" where
  "remember m cs =
    (let recent = sp_recent cs @ [m]
     in cs\<lparr>sp_recent := (if length recent > excerptSize then drop 1 recent else recent)\<rparr>)"

text \<open>
  The loop over the ring from the newest message: it stops once the excerpt is full, skips what it has
  seen, and collects newest first.
\<close>

fun pick_fresh :: "nat \<Rightarrow> MomentMessage list \<Rightarrow> MomentMessage list \<Rightarrow> MomentMessage list" where
  "pick_fresh 0 seen newest = []"
| "pick_fresh (Suc room) seen [] = []"
| "pick_fresh (Suc room) seen (m # ms) =
    (if m \<in> set seen then pick_fresh (Suc room) seen ms else m # pick_fresh room (m # seen) ms)"

lemma pick_fresh_code [code]:
  "pick_fresh room seen ms = (if room = 0 then [] else (case ms of [] \<Rightarrow> []
     | m # ms \<Rightarrow> if m \<in> set seen then pick_fresh room seen ms else m # pick_fresh (room - 1) (m # seen) ms))"
  by (cases room; cases ms) auto

definition refreshExcerpt :: "spikeState \<Rightarrow> spikeState" where
  "refreshExcerpt cs =
    (let head = take (excerptSize div 2) (mo_Excerpt (sp_moment cs));
         fresh = pick_fresh (excerptSize - length head) head (rev (sp_recent cs))
     in cs\<lparr>sp_moment := (sp_moment cs)\<lparr>mo_Excerpt := head @ rev fresh\<rparr>\<rparr>)"

definition excerptMessage :: "UnifiedMessage \<Rightarrow> time \<Rightarrow> MomentMessage" where
  "excerptMessage m now =
    (let author = au_DisplayName (um_Author m);
         author = (if author = [] then au_Login (um_Author m) else author);
         author = (if author = [] then au_ID (um_Author m) else author);
         body = PlainText m;
         body = (if length (runes body) > maxBodyLen then string_of_runes (take maxBodyLen (runes body)) else body);
         sentAt = (if um_SentAt m = zero_time then now else um_SentAt m)
     in \<lparr>mm_Author = author, mm_Body = body, mm_SentAt = unix_milli sentAt\<rparr>)"

subsection \<open>The state machine\<close>

definition advanceSpike :: "time \<Rightarrow> rat \<Rightarrow> spikeState \<Rightarrow> Moment option \<times> spikeState" where
  "advanceSpike now rate cs =
    (let cs = (if rate > mo_PeakRate (sp_moment cs) then cs\<lparr>sp_moment := (sp_moment cs)\<lparr>mo_PeakRate := rate\<rparr>\<rparr> else cs);
         cs = (if rate \<ge> fl (mo_PeakRate (sp_moment cs) * fl (9 / 10)) then refreshExcerpt cs else cs)
     in if rate \<ge> max (fl 3) (fl (sp_baseline cs * fl (3 / 2)))
        then (None, cs\<lparr>sp_quietSecs := 0\<rparr>)
        else
          let cs = cs\<lparr>sp_quietSecs := sp_quietSecs cs + 1\<rparr>
          in if sp_quietSecs cs < closeQuietSeconds then (None, cs)
             else
               let cs = cs\<lparr>sp_inSpike := False, sp_cooldownUntil := unix now + cooldownSeconds\<rparr>
               in if time_sub now (mo_StartedAt (sp_moment cs)) < minSpikeDuration then (None, cs)
                  else (Some ((sp_moment cs)\<lparr>mo_EndedAt := now\<rparr>), cs))"

record 'g Detector =
  dt_channels :: "(string \<times> spikeState) list"
  dt_gen :: 'g
  dt_store :: Memory
  dt_out :: "Event list"

definition NewDetector :: "Memory \<Rightarrow> 'g \<Rightarrow> 'g Detector" where
  "NewDetector repo gen = \<lparr>dt_channels = [], dt_gen = gen, dt_store = repo, dt_out = []\<rparr>"

definition detector_Consume :: "time \<Rightarrow> Event \<Rightarrow> 'g Detector \<Rightarrow> 'g Detector" where
  "detector_Consume now ev d = (case ev of
     MessageEvent m \<Rightarrow>
       let key = ChannelRef_Key (um_Channel m);
           cs = (case map_of (dt_channels d) key of None \<Rightarrow> newSpikeState (um_Channel m) | Some cs \<Rightarrow> cs);
           cs = remember (excerptMessage m now) (spike_record (unix now) cs)
       in d\<lparr>dt_channels := AList.update key cs (dt_channels d)\<rparr>
   | _ \<Rightarrow> d)"

text \<open>One channel's share of a tick: the state that stays (None for a pruned one) and the closed moment.\<close>

definition tick_channel :: "('g \<Rightarrow> string \<times> 'g) \<Rightarrow> time \<Rightarrow> spikeState \<Rightarrow> 'g \<Rightarrow> spikeState option \<times> Moment option \<times> 'g" where
  "tick_channel new now cs g =
    (if unix now - sp_lastSeen cs > idleSeconds then (None, None, g)
     else
       let rate = spike_rate (unix now) cs
       in if sp_inSpike cs then (case advanceSpike now rate cs of (m, cs) \<Rightarrow> (Some cs, m, g))
          else
            let cs = cs\<lparr>sp_baseline := fl (fl (sp_baseline cs * baselineKeep) + fl (rate * baselineAlpha))\<rparr>
            in if unix now \<ge> sp_cooldownUntil cs \<and> rate \<ge> max minSpikeRate (fl (spikeFactor * sp_baseline cs))
               then (case new g of (i, g) \<Rightarrow>
                 (Some (cs\<lparr>sp_inSpike := True, sp_quietSecs := 0,
                    sp_moment := \<lparr>mo_ID = i, mo_Channel = sp_ref cs, mo_StartedAt = now, mo_EndedAt = zero_time,
                      mo_PeakRate = rate, mo_Baseline = sp_baseline cs, mo_Excerpt = sp_recent cs\<rparr>\<rparr>), None, g))
               else (Some cs, None, g))"

fun tick_channels :: "('g \<Rightarrow> string \<times> 'g) \<Rightarrow> time \<Rightarrow> (string \<times> spikeState) list \<Rightarrow> 'g
    \<Rightarrow> (string \<times> spikeState) list \<times> Moment list \<times> 'g" where
  "tick_channels new now [] g = ([], [], g)"
| "tick_channels new now ((key, cs) # rest) g =
    (case tick_channel new now cs g of (cs', m, g) \<Rightarrow>
     case tick_channels new now rest g of (rest', ms, g) \<Rightarrow>
       ((case cs' of None \<Rightarrow> rest' | Some cs' \<Rightarrow> (key, cs') # rest'),
        (case m of None \<Rightarrow> ms | Some m \<Rightarrow> m # ms), g))"

definition tick :: "('g \<Rightarrow> string \<times> 'g) \<Rightarrow> time \<Rightarrow> 'g Detector \<Rightarrow> 'g Detector" where
  "tick new now d =
    (case tick_channels new now (dt_channels d) (dt_gen d) of (chs, fin, g) \<Rightarrow>
       d\<lparr>dt_channels := chs, dt_gen := g, dt_store := fold Moments_Add fin (dt_store d),
         dt_out := dt_out d @ map MomentEvent fin\<rparr>)"

subsection \<open>The recent messages and the excerpt\<close>

lemma remember_recent:
  assumes "length (sp_recent cs) \<le> excerptSize"
  shows "sp_recent (remember m cs) = last_n excerptSize (sp_recent cs @ [m])"
proof (cases "length (sp_recent cs) = excerptSize")
  case True
  then show ?thesis by (simp add: remember_def Let_def last_n_def)
qed (use assms in \<open>simp add: remember_def Let_def last_n_def\<close>)

interpretation recent_ring: drop_oldest remember sp_recent excerptSize "\<lambda>cs. length (sp_recent cs) \<le> excerptSize"
  by unfold_locales (simp_all add: remember_recent)

lemma pick_fresh_length: "length (pick_fresh room seen ms) \<le> room"
  by (induction room seen ms rule: pick_fresh.induct) auto

lemma pick_fresh_set: "set (pick_fresh room seen ms) \<subseteq> set ms"
  by (induction room seen ms rule: pick_fresh.induct) auto

lemma refreshExcerpt_length: "length (mo_Excerpt (sp_moment (refreshExcerpt cs))) \<le> excerptSize"
proof -
  let ?h = "take (excerptSize div 2) (mo_Excerpt (sp_moment cs))"
  have "length ?h \<le> excerptSize" by simp
  moreover have "length (pick_fresh (excerptSize - length ?h) ?h (rev (sp_recent cs))) \<le> excerptSize - length ?h"
    by (rule pick_fresh_length)
  ultimately have "length ?h + length (pick_fresh (excerptSize - length ?h) ?h (rev (sp_recent cs))) \<le> excerptSize"
    by linarith
  then show ?thesis by (simp add: refreshExcerpt_def Let_def)
qed

lemma refreshExcerpt_set:
  "set (mo_Excerpt (sp_moment (refreshExcerpt cs))) \<subseteq> set (mo_Excerpt (sp_moment cs)) \<union> set (sp_recent cs)"
  using pick_fresh_set [of _ _ "rev (sp_recent cs)"] set_take_subset [of _ "mo_Excerpt (sp_moment cs)"]
  by (fastforce simp: refreshExcerpt_def Let_def)

lemma refreshExcerpt_frame [simp]:
  "mo_PeakRate (sp_moment (refreshExcerpt cs)) = mo_PeakRate (sp_moment cs)"
  "mo_Baseline (sp_moment (refreshExcerpt cs)) = mo_Baseline (sp_moment cs)"
  "mo_Channel (sp_moment (refreshExcerpt cs)) = mo_Channel (sp_moment cs)"
  "sp_recent (refreshExcerpt cs) = sp_recent cs" "sp_ref (refreshExcerpt cs) = sp_ref cs"
  by (simp_all add: refreshExcerpt_def Let_def)

subsection \<open>The invariant of the state machine\<close>

text \<open>
  \<open>P key\<close> holds of the excerpt lines a channel may show. A channel's lines satisfy it, and an open
  moment is a real spike.
\<close>

definition open_ok :: "(MomentMessage \<Rightarrow> bool) \<Rightarrow> Moment \<Rightarrow> bool" where
  "open_ok P m \<longleftrightarrow> length (mo_Excerpt m) \<le> excerptSize \<and> (\<forall>x \<in> set (mo_Excerpt m). P x)
     \<and> minSpikeRate \<le> mo_PeakRate m \<and> fl (spikeFactor * mo_Baseline m) \<le> mo_PeakRate m"

definition spike_ok :: "(string \<Rightarrow> MomentMessage \<Rightarrow> bool) \<Rightarrow> string \<Rightarrow> spikeState \<Rightarrow> bool" where
  "spike_ok P key cs \<longleftrightarrow> length (sp_recent cs) \<le> excerptSize \<and> (\<forall>x \<in> set (sp_recent cs). P key x)
     \<and> ChannelRef_Key (sp_ref cs) = key
     \<and> (sp_inSpike cs \<longrightarrow> open_ok (P key) (sp_moment cs) \<and> mo_Channel (sp_moment cs) = sp_ref cs)"

definition closed_ok :: "(string \<Rightarrow> MomentMessage \<Rightarrow> bool) \<Rightarrow> Moment \<Rightarrow> bool" where
  "closed_ok P m \<longleftrightarrow> open_ok (P (ChannelRef_Key (mo_Channel m))) m
     \<and> mo_StartedAt m + minSpikeDuration \<le> mo_EndedAt m"

lemma remember_ok:
  "spike_ok P key cs \<Longrightarrow> P key x \<Longrightarrow> spike_ok P key (remember x (spike_record now cs))"
  by (auto simp: spike_ok_def remember_def spike_record_def Let_def dest: in_set_dropD)

lemma new_ok: "ChannelRef_Key ref = key \<Longrightarrow> spike_ok P key (newSpikeState ref)"
  by (simp add: spike_ok_def newSpikeState_def)

lemma open_peak: "open_ok P m \<Longrightarrow> mo_PeakRate m < r \<Longrightarrow> open_ok P (m\<lparr>mo_PeakRate := r\<rparr>)"
  by (auto simp: open_ok_def)

lemma open_ended: "open_ok P m \<Longrightarrow> open_ok P (m\<lparr>mo_EndedAt := t\<rparr>)"
  by (simp add: open_ok_def)

lemma open_refresh:
  "open_ok P (sp_moment cs) \<Longrightarrow> \<forall>x \<in> set (sp_recent cs). P x \<Longrightarrow> open_ok P (sp_moment (refreshExcerpt cs))"
  using refreshExcerpt_length [of cs] refreshExcerpt_set [of cs] by (auto simp: open_ok_def)

lemma advance_ok:
  assumes ok: "spike_ok P key cs" and sp: "sp_inSpike cs" and adv: "advanceSpike now rate cs = (m, cs')"
  shows "spike_ok P key cs' \<and> (\<forall>x. m = Some x \<longrightarrow> closed_ok P x)"
proof -
  define c1 where "c1 = (if rate > mo_PeakRate (sp_moment cs) then cs\<lparr>sp_moment := (sp_moment cs)\<lparr>mo_PeakRate := rate\<rparr>\<rparr> else cs)"
  define c2 where "c2 = (if rate \<ge> fl (mo_PeakRate (sp_moment c1) * fl (9 / 10)) then refreshExcerpt c1 else c1)"
  have 1: "open_ok (P key) (sp_moment c1)" "sp_recent c1 = sp_recent cs" "sp_ref c1 = sp_ref cs"
    "mo_Channel (sp_moment c1) = sp_ref cs"
    using ok sp open_peak [of "P key" "sp_moment cs" rate] by (auto simp: spike_ok_def c1_def)
  then have 2: "open_ok (P key) (sp_moment c2)" "sp_recent c2 = sp_recent cs" "sp_ref c2 = sp_ref cs"
    "mo_Channel (sp_moment c2) = sp_ref cs"
    using ok open_refresh [of "P key" c1] by (auto simp: spike_ok_def c2_def)
  have long: "u + minSpikeDuration \<le> t" if "\<not> time_sub t u < minSpikeDuration" for t u
    using that by (auto simp: time_sub_def minSpikeDuration_def second_def)
  have "(m, cs') = (if rate \<ge> max (fl 3) (fl (sp_baseline c2 * fl (3 / 2))) then (None, c2\<lparr>sp_quietSecs := 0\<rparr>)
      else let c3 = c2\<lparr>sp_quietSecs := sp_quietSecs c2 + 1\<rparr>
           in if sp_quietSecs c3 < closeQuietSeconds then (None, c3)
              else let c4 = c3\<lparr>sp_inSpike := False, sp_cooldownUntil := unix now + cooldownSeconds\<rparr>
                   in if time_sub now (mo_StartedAt (sp_moment c4)) < minSpikeDuration then (None, c4)
                      else (Some ((sp_moment c4)\<lparr>mo_EndedAt := now\<rparr>), c4))"
    using adv unfolding advanceSpike_def c2_def c1_def Let_def by simp
  then show ?thesis
    using ok 2 long [of now] open_ended [OF 2(1)]
    by (auto simp: spike_ok_def closed_ok_def Let_def split: if_splits)
qed

lemma tick_channel_ok:
  assumes ok: "spike_ok P key cs" and tk: "tick_channel new now cs g = (cs', m, g')"
  shows "(\<forall>c. cs' = Some c \<longrightarrow> spike_ok P key c) \<and> (\<forall>x. m = Some x \<longrightarrow> closed_ok P x)"
proof (cases "unix now - sp_lastSeen cs > idleSeconds")
  case False
  show ?thesis
  proof (cases "sp_inSpike cs")
    case True
    obtain m0 c0 where a: "advanceSpike now (spike_rate (unix now) cs) cs = (m0, c0)" by fastforce
    then have "cs' = Some c0 \<and> m = m0" using tk False True by (simp add: tick_channel_def Let_def)
    then show ?thesis using advance_ok [OF ok True a] by simp
  next
    case outside: False
    define c where "c = cs\<lparr>sp_baseline := fl (fl (sp_baseline cs * baselineKeep) + fl (spike_rate (unix now) cs * baselineAlpha))\<rparr>"
    obtain i h where n: "new g = (i, h)" by fastforce
    have c: "spike_ok P key c" using ok outside by (simp add: c_def spike_ok_def)
    have "m = None \<and> (cs' = Some c \<or> (spike_rate (unix now) cs \<ge> max minSpikeRate (fl (spikeFactor * sp_baseline c))
        \<and> cs' = Some (c\<lparr>sp_inSpike := True, sp_quietSecs := 0,
            sp_moment := \<lparr>mo_ID = i, mo_Channel = sp_ref c, mo_StartedAt = now, mo_EndedAt = zero_time,
              mo_PeakRate = spike_rate (unix now) cs, mo_Baseline = sp_baseline c, mo_Excerpt = sp_recent c\<rparr>\<rparr>)))"
      using tk False outside n unfolding tick_channel_def Let_def c_def [symmetric] by (auto split: if_splits)
    then show ?thesis using c by (auto simp: spike_ok_def open_ok_def)
  qed
qed (use tk in \<open>simp add: tick_channel_def\<close>)

definition detector_ok :: "(string \<Rightarrow> MomentMessage \<Rightarrow> bool) \<Rightarrow> (string \<times> spikeState) list \<Rightarrow> bool" where
  "detector_ok P chs \<longleftrightarrow> (\<forall>(key, cs) \<in> set chs. spike_ok P key cs)"

lemma tick_channels_ok:
  "detector_ok P chs \<Longrightarrow> tick_channels new now chs g = (chs', fin, g') \<Longrightarrow>
    detector_ok P chs' \<and> (\<forall>m \<in> set fin. closed_ok P m)"
proof (induction new now chs g arbitrary: chs' fin g' rule: tick_channels.induct)
  case (2 new now key cs rest g)
  obtain c m g1 where c: "tick_channel new now cs g = (c, m, g1)" by (metis prod_cases3)
  obtain r ms g2 where r: "tick_channels new now rest g1 = (r, ms, g2)" by (metis prod_cases3)
  have "spike_ok P key cs" "detector_ok P rest" using "2.prems"(1) by (simp_all add: detector_ok_def)
  then have "(\<forall>x. c = Some x \<longrightarrow> spike_ok P key x) \<and> (\<forall>x. m = Some x \<longrightarrow> closed_ok P x)"
    "detector_ok P r \<and> (\<forall>m \<in> set ms. closed_ok P m)"
    using tick_channel_ok [OF _ c] "2.IH" [OF c [symmetric] refl _ r] c r by auto
  then show ?case using "2.prems"(2) c r by (auto simp: detector_ok_def split: option.splits)
qed (auto simp: detector_ok_def)

subsection \<open>Runs\<close>

datatype detector_op = Feed time Event | Tick time

fun detector_step :: "('g \<Rightarrow> string \<times> 'g) \<Rightarrow> detector_op \<Rightarrow> 'g Detector \<Rightarrow> 'g Detector" where
  "detector_step new (Feed now ev) d = detector_Consume now ev d"
| "detector_step new (Tick now) d = tick new now d"

text \<open>The excerpt lines of the messages fed for a channel.\<close>

definition fed_lines :: "detector_op list \<Rightarrow> string \<Rightarrow> MomentMessage set" where
  "fed_lines ops key = {excerptMessage m now | m now.
     Feed now (MessageEvent m) \<in> set ops \<and> ChannelRef_Key (um_Channel m) = key}"

lemma Moments_Adds: "me_moments (fold Moments_Add ms m) = me_moments m @ ms"
  by (induction ms arbitrary: m) (simp_all add: Moments_Add_def)

lemma detector_step_ok:
  assumes "detector_ok P (dt_channels d)"
    and "\<And>now m. op = Feed now (MessageEvent m) \<Longrightarrow> P (ChannelRef_Key (um_Channel m)) (excerptMessage m now)"
  shows "detector_ok P (dt_channels (detector_step new op d))
    \<and> (\<exists>fin. me_moments (dt_store (detector_step new op d)) = me_moments (dt_store d) @ fin
        \<and> dt_out (detector_step new op d) = dt_out d @ map MomentEvent fin \<and> (\<forall>m \<in> set fin. closed_ok P m))"
proof (cases op)
  case (Feed now ev)
  show ?thesis
  proof (cases "\<exists>m. ev = MessageEvent m")
    case True
    then obtain m where ev: "ev = MessageEvent m" by blast
    define cs where "cs = (case map_of (dt_channels d) (ChannelRef_Key (um_Channel m)) of None \<Rightarrow> newSpikeState (um_Channel m) | Some cs \<Rightarrow> cs)"
    have "spike_ok P (ChannelRef_Key (um_Channel m)) cs"
      using assms(1) by (auto simp: cs_def new_ok detector_ok_def dest: map_of_SomeD split: option.split)
    then have "spike_ok P (ChannelRef_Key (um_Channel m)) (remember (excerptMessage m now) (spike_record (unix now) cs))"
      using assms(2) Feed ev by (intro remember_ok) auto
    then show ?thesis
      using assms(1) Feed ev set_update_subset [of "ChannelRef_Key (um_Channel m)"]
      by (fastforce simp: detector_Consume_def cs_def [symmetric] detector_ok_def Let_def)
  qed (use assms(1) Feed in \<open>auto simp: detector_Consume_def split: Event.split\<close>)
next
  case (Tick now)
  obtain chs fin g where t: "tick_channels new now (dt_channels d) (dt_gen d) = (chs, fin, g)" by (metis prod_cases3)
  then show ?thesis using Tick tick_channels_ok [OF assms(1) t] by (auto simp: tick_def Moments_Adds)
qed

lemma detector_run:
  assumes "\<And>now m. Feed now (MessageEvent m) \<in> set ops \<Longrightarrow> P (ChannelRef_Key (um_Channel m)) (excerptMessage m now)"
    and "detector_ok P (dt_channels d)"
  shows "\<exists>fin. me_moments (dt_store (fold (detector_step new) ops d)) = me_moments (dt_store d) @ fin
        \<and> dt_out (fold (detector_step new) ops d) = dt_out d @ map MomentEvent fin \<and> (\<forall>m \<in> set fin. closed_ok P m)"
  using assms
proof (induction ops arbitrary: d)
  case (Cons op ops)
  have "detector_ok P (dt_channels (detector_step new op d))
    \<and> (\<exists>fin. me_moments (dt_store (detector_step new op d)) = me_moments (dt_store d) @ fin
        \<and> dt_out (detector_step new op d) = dt_out d @ map MomentEvent fin \<and> (\<forall>m \<in> set fin. closed_ok P m))"
    by (rule detector_step_ok) (use Cons.prems in auto)
  then obtain f1 where 1: "detector_ok P (dt_channels (detector_step new op d))"
    "me_moments (dt_store (detector_step new op d)) = me_moments (dt_store d) @ f1"
    "dt_out (detector_step new op d) = dt_out d @ map MomentEvent f1" "\<forall>m \<in> set f1. closed_ok P m" by blast
  obtain f2 where 2: "me_moments (dt_store (fold (detector_step new) ops (detector_step new op d))) =
      me_moments (dt_store (detector_step new op d)) @ f2"
    "dt_out (fold (detector_step new) ops (detector_step new op d)) = dt_out (detector_step new op d) @ map MomentEvent f2"
    "\<forall>m \<in> set f2. closed_ok P m"
    using Cons.IH [OF _ 1(1)] Cons.prems(1) by auto
  show ?case using 1 2 by (intro exI [of _ "f1 @ f2"]) auto
qed (auto intro: exI [of _ "[]"])

lemma detector_ok_new: "detector_ok P (dt_channels (NewDetector repo g))"
  by (simp add: NewDetector_def detector_ok_def)

lemma detector_ok_mono: "detector_ok P chs \<Longrightarrow> (\<And>key x. P key x \<Longrightarrow> Q key x) \<Longrightarrow> detector_ok Q chs"
  by (fastforce simp: detector_ok_def spike_ok_def open_ok_def)

text \<open>
  Every bookmarked moment is a real spike: from a new detector, or any detector whose channels are
  in order (\<open>detector_ok\<close>: excerpts of at most 8 known lines, open moments above the opening
  thresholds), whatever messages and ticks come, each moment that closes is stored and announced once,
  in the same order, and it reached at least 5 messages per second and three times the baseline it was
  opened against (in float64), lasted at least 3 seconds, and shows at most 8 lines, each known before
  or of a message fed for its own channel.
\<close>

theorem moments_sound:
  assumes "detector_ok (\<lambda>key x. x \<in> L key) (dt_channels d)"
  shows "\<exists>fin. me_moments (dt_store (fold (detector_step new) ops d)) = me_moments (dt_store d) @ fin
    \<and> dt_out (fold (detector_step new) ops d) = dt_out d @ map MomentEvent fin
    \<and> (\<forall>m \<in> set fin. 5 \<le> mo_PeakRate m \<and> fl (3 * mo_Baseline m) \<le> mo_PeakRate m
        \<and> mo_StartedAt m + 3 * second \<le> mo_EndedAt m \<and> length (mo_Excerpt m) \<le> 8
        \<and> set (mo_Excerpt m) \<subseteq> L (ChannelRef_Key (mo_Channel m)) \<union> fed_lines ops (ChannelRef_Key (mo_Channel m)))"
proof -
  let ?P = "\<lambda>key x. x \<in> L key \<union> fed_lines ops key"
  have c: "minSpikeRate = 5" "spikeFactor = 3"
    using fl_of_int [of 5] fl_of_int [of 3] by (simp_all add: minSpikeRate_def spikeFactor_def)
  have "\<exists>fin. me_moments (dt_store (fold (detector_step new) ops d)) = me_moments (dt_store d) @ fin
      \<and> dt_out (fold (detector_step new) ops d) = dt_out d @ map MomentEvent fin \<and> (\<forall>m \<in> set fin. closed_ok ?P m)"
    by (rule detector_run) (use detector_ok_mono [OF assms, of ?P] in \<open>auto simp: fed_lines_def\<close>)
  then show ?thesis by (auto simp: closed_ok_def open_ok_def c minSpikeDuration_def subset_iff)
qed

text \<open>A channel whose moment closes at the next quiet second.\<close>

definition closing_state :: spikeState where
  "closing_state = (newSpikeState (twitch_channel ''v''))\<lparr>sp_lastSeen := 100, sp_inSpike := True, sp_quietSecs := 4,
     sp_moment := no_moment\<lparr>mo_ID := ''m'', mo_Channel := twitch_channel ''v'', mo_StartedAt := 101 * second, mo_PeakRate := 6\<rparr>\<rparr>"

definition closing_detector :: "unit Detector" where
  "closing_detector = (NewDetector NewMemory ())\<lparr>dt_channels := [(ChannelRef_Key (twitch_channel ''v''), closing_state)]\<rparr>"

theorem moments_sound_witness:
  "\<exists>m. me_moments (dt_store (fold (detector_step (\<lambda>g. ([], g))) [Tick (115 * second)] closing_detector)) = [m]
    \<and> mo_ID m = ''m'' \<and> 5 \<le> mo_PeakRate m \<and> mo_StartedAt m + 3 * second \<le> mo_EndedAt m"
proof -
  have "fl 5 \<le> 6" "fl 0 \<le> 6" using fl_of_int [of 5] by simp_all
  then have ok: "detector_ok (\<lambda>key x. x \<in> {}) (dt_channels closing_detector)"
    by (simp add: detector_ok_def closing_detector_def closing_state_def spike_ok_def open_ok_def newSpikeState_def
        no_moment_def minSpikeRate_def)
  have "map mo_ID (me_moments (dt_store (fold (detector_step (\<lambda>g. ([], g))) [Tick (115 * second)] closing_detector))) = [''m'']"
  proof -
    have rate: "spike_rate 115 closing_state = 0"
      by (simp add: spike_rate_def closing_state_def newSpikeState_def sum_list_replicate)
    have "fl 3 = 3" using fl_of_int [of 3] by simp
    then have "map_option mo_ID (fst (advanceSpike (115 * second) 0 closing_state)) = Some ''m''"
      by (simp add: advanceSpike_def closing_state_def newSpikeState_def no_moment_def Let_def refreshExcerpt_def
          minSpikeDuration_def time_sub_def second_def)
    then show ?thesis
      using rate by (auto simp: tick_def closing_detector_def NewDetector_def tick_channel_def Let_def Moments_Adds NewMemory_def
          unix_def second_def closing_state_def split: prod.splits option.splits)
  qed
  then obtain m where m: "me_moments (dt_store (fold (detector_step (\<lambda>g. ([], g))) [Tick (115 * second)] closing_detector)) = [m]"
    "mo_ID m = ''m''" by (auto simp: map_eq_Cons_conv)
  moreover have "me_moments (dt_store closing_detector) = []" by (simp add: closing_detector_def NewDetector_def NewMemory_def)
  ultimately show ?thesis
    using moments_sound [OF ok, of "\<lambda>g. ([], g)" "[Tick (115 * second)]"] by auto
qed

subsection \<open>The rate is the window's\<close>

definition spike_wf :: "spikeState \<Rightarrow> bool" where
  "spike_wf cs \<longleftrightarrow> length (sp_buckets cs) = momWindow \<and> (\<forall>b \<in> set (sp_buckets cs). 0 \<le> snd b)"

definition spike_view :: "spikeState \<Rightarrow> nat \<Rightarrow> (int \<times> int) option" where
  "spike_view cs i = (if i < momWindow \<and> 0 < snd (sp_buckets cs ! i) then Some (sp_buckets cs ! i) else None)"

interpretation moment_ring: bucket_ring momWindow "\<lambda>t :: int. t" spike_record spike_view 0 "\<lambda>_ n. n + 1" spike_wf "\<lambda>_. True"
proof (unfold_locales, goal_cases)
  case (2 c now)
  have i: "slot_of momWindow now < momWindow" by (rule slot_of_less) simp
  then have "sp_buckets c ! slot_of momWindow now \<in> set (sp_buckets c)" using 2 by (simp add: spike_wf_def)
  then have "0 \<le> snd (sp_buckets c ! slot_of momWindow now)" using 2 by (simp add: spike_wf_def)
  then show ?case
    using 2 by (auto simp: spike_wf_def spike_record_def Let_def slot_of_def dest!: subsetD [OF set_update_subset_insert])
next
  case (3 c now i)
  have i: "slot_of momWindow now < momWindow" by (rule slot_of_less) simp
  then have "sp_buckets c ! slot_of momWindow now \<in> set (sp_buckets c)" using 3 by (simp add: spike_wf_def)
  then have "0 < snd (sp_buckets c ! slot_of momWindow now) \<or> snd (sp_buckets c ! slot_of momWindow now) = 0"
    using 3 by (auto simp: spike_wf_def)
  then show ?case
    using 3 i by (auto simp: spike_view_def spike_record_def Let_def spike_wf_def slot_of_def nth_list_update split: prod.splits)
qed simp

lemma moment_summary: "moment_ring.summary es = int (length es)"
  by (induction es rule: rev_induct) (simp_all add: moment_ring.summary_def)

end
