(* ===== verification/Hub.thy ===== *)
theory Hub
  imports Platform "HOL-Library.Multiset"
begin

text \<open>
  \<^verbatim>\<open>internal/api/hub.go\<close> with the subscriptions of \<^verbatim>\<open>stream.go\<close>: the sink that broadcasts events to the
  connected stream clients and keeps a ring of recent ones for clients that resume. Clients are
  numbered; a number stands for the pointer, so a client that left the hub still exists. The JSON
  encoder is the argument \<open>enc\<close> (None when it fails, as it does on malformed plugin data). Sending on
  a closed channel panics: the operations that send return None then. A zero \<^verbatim>\<open>replayEntry\<close> is None.
\<close>

subsection \<open>The wire form\<close>

record WireHeld =
  wh_ID :: string
  wh_Channel :: string
  wh_Author :: string
  wh_Text :: string
  wh_Reason :: string
  wh_HeldAt :: int

definition HeldFrom :: "HeldMessage \<Rightarrow> WireHeld" where
  "HeldFrom m = \<lparr>wh_ID = hm_ID m, wh_Channel = ChannelRef_Key (hm_Channel m),
     wh_Author = (if au_DisplayName (hm_Author m) = [] then au_Login (hm_Author m) else au_DisplayName (hm_Author m)),
     wh_Text = hm_Text m, wh_Reason = hm_Reason m,
     wh_HeldAt = (if hm_HeldAt m = zero_time then 0 else unix_milli (hm_HeldAt m))\<rparr>"

abbreviation schemaVersion :: int where "schemaVersion \<equiv> 1"
abbreviation clientBuffer :: nat where "clientBuffer \<equiv> 256"
abbreviation replayBuffer :: nat where "replayBuffer \<equiv> 1024"

record WireEvent =
  we_Type :: string
  we_SchemaVersion :: int
  we_Seq :: nat
  we_Message :: "UnifiedMessage option"
  we_Channel :: "ChannelRef option"
  we_PlatformMessageID :: string
  we_MessageID :: string
  we_TargetUserID :: string
  we_State :: "HealthStatus option"
  we_Settings :: "ChatSettings option"
  we_Stats :: "StatsSnapshot option"
  we_Moment :: "Moment option"
  we_ProfileID :: string
  we_ProfileName :: string
  we_Held :: "WireHeld option"
  we_HeldID :: string
  we_Approved :: "bool option"
  we_Stream :: string
  we_Data :: string

definition wire :: "string \<Rightarrow> WireEvent" where
  "wire t = \<lparr>we_Type = t, we_SchemaVersion = schemaVersion, we_Seq = 0, we_Message = None, we_Channel = None,
     we_PlatformMessageID = [], we_MessageID = [], we_TargetUserID = [], we_State = None, we_Settings = None,
     we_Stats = None, we_Moment = None, we_ProfileID = [], we_ProfileName = [], we_Held = None, we_HeldID = [],
     we_Approved = None, we_Stream = [], we_Data = []\<rparr>"

fun toWire :: "Event \<Rightarrow> WireEvent \<times> string \<times> bool" where
  "toWire (MessageEvent m) = ((wire ''message'')\<lparr>we_Message := Some m\<rparr>, ChannelRef_Key (um_Channel m), False)"
| "toWire (MessageDeletedEvent ch pid mid) = ((wire ''message_deleted'')\<lparr>we_Channel := Some ch,
     we_PlatformMessageID := pid, we_MessageID := mid\<rparr>, ChannelRef_Key ch, False)"
| "toWire (ChannelClearEvent ch uid) = ((wire ''channel_clear'')\<lparr>we_Channel := Some ch, we_TargetUserID := uid\<rparr>,
     ChannelRef_Key ch, False)"
| "toWire (HealthEvent ch st) = (let we = (wire ''state'')\<lparr>we_State := Some st\<rparr> in
     (case ch of Some c \<Rightarrow> (we\<lparr>we_Channel := Some c\<rparr>, ChannelRef_Key c, False) | None \<Rightarrow> (we, [], True)))"
| "toWire (ChatSettingsEvent ch s) = ((wire ''chat_settings'')\<lparr>we_Channel := Some ch, we_Settings := Some s\<rparr>,
     ChannelRef_Key ch, False)"
| "toWire (StatsEvent ch st) = ((wire ''stats'')\<lparr>we_Channel := Some ch, we_Stats := Some st\<rparr>, ChannelRef_Key ch, False)"
| "toWire (MomentEvent m) = ((wire ''moment'')\<lparr>we_Moment := Some m\<rparr>, ChannelRef_Key (mo_Channel m), False)"
| "toWire (ProfileChangedEvent i name) = ((wire ''profile_changed'')\<lparr>we_ProfileID := i, we_ProfileName := name\<rparr>, [], True)"
| "toWire (MessageHeldEvent h) = ((wire ''held'')\<lparr>we_Channel := Some (hm_Channel h), we_Held := Some (HeldFrom h)\<rparr>,
     ChannelRef_Key (hm_Channel h), False)"
| "toWire (HeldResolvedEvent ch i approved) = ((wire ''held_resolved'')\<lparr>we_Channel := Some ch, we_HeldID := i,
     we_Approved := Some approved\<rparr>, ChannelRef_Key ch, False)"
| "toWire (PluginEvent stream data) = ((wire ''plugin'')\<lparr>we_Stream := stream, we_Data := data\<rparr>, [], True)"

subsection \<open>Clients\<close>

type_synonym subscription = "string list"

definition sub_matches :: "subscription \<Rightarrow> string \<Rightarrow> bool" where
  "sub_matches s key = (s = [] \<or> key \<in> set s)"

definition toSubscription :: "string list \<Rightarrow> subscription" where
  "toSubscription channels = (if channels = [] then [] else remdups (map to_lower channels))"

record client =
  cl_send :: "string list"
  cl_shut :: bool
  cl_sub :: subscription

definition newClient :: client where
  "newClient = \<lparr>cl_send = [], cl_shut = False, cl_sub = []\<rparr>"

definition pushBytes :: "string \<Rightarrow> client \<Rightarrow> client" where
  "pushBytes b c = c\<lparr>cl_send := (if length (cl_send c) < clientBuffer then cl_send c @ [b] else tl (cl_send c) @ [b])\<rparr>"

definition setSubscription :: "subscription \<Rightarrow> client \<Rightarrow> client" where
  "setSubscription s c = c\<lparr>cl_sub := s\<rparr>"

subsection \<open>The hub\<close>

record replayEntry =
  re_seq :: nat
  re_key :: string
  re_all :: bool
  re_bytes :: string

record hub =
  hb_conns :: "nat \<rightharpoonup> client"
  hb_clients :: "nat list"
  hb_closed :: bool
  hb_seq :: nat
  hb_replay :: "replayEntry option list"
  hb_rnext :: nat
  hb_unforwarded :: int

definition newHub :: hub where
  "newHub = \<lparr>hb_conns = Map.empty, hb_clients = [], hb_closed = False, hb_seq = 0, hb_replay = [], hb_rnext = 0,
     hb_unforwarded = 0\<rparr>"

definition hub_record :: "replayEntry \<Rightarrow> hub \<Rightarrow> hub" where
  "hub_record e h =
    (let h = (if hb_replay h = [] then h\<lparr>hb_replay := replicate replayBuffer None\<rparr> else h)
     in h\<lparr>hb_replay := (hb_replay h)[hb_rnext h := Some e], hb_rnext := (hb_rnext h + 1) mod length (hb_replay h)\<rparr>)"

abbreviation wants :: "client \<Rightarrow> string \<Rightarrow> bool" where
  "wants c key \<equiv> sub_matches (cl_sub c) key"

text \<open>Delivery to one client; None is the panic of a send on a closed channel.\<close>

definition deliver :: "nat \<Rightarrow> string \<Rightarrow> hub \<Rightarrow> hub option" where
  "deliver i b h = (case hb_conns h i of
     None \<Rightarrow> None
   | Some c \<Rightarrow> if cl_shut c then None else Some (h\<lparr>hb_conns := (hb_conns h)(i \<mapsto> pushBytes b c)\<rparr>))"

fun broadcast :: "nat list \<Rightarrow> string \<Rightarrow> bool \<Rightarrow> string \<Rightarrow> hub \<Rightarrow> hub option" where
  "broadcast [] key all b h = Some h"
| "broadcast (i # is) key all b h = (case hb_conns h i of
     None \<Rightarrow> None
   | Some c \<Rightarrow> if \<not> all \<and> \<not> wants c key then broadcast is key all b h
     else (case deliver i b h of None \<Rightarrow> None | Some h \<Rightarrow> broadcast is key all b h))"

definition hub_Consume :: "(WireEvent \<Rightarrow> string option) \<Rightarrow> Event \<Rightarrow> hub \<Rightarrow> hub option" where
  "hub_Consume enc ev h =
    (case toWire ev of (we, key, all) \<Rightarrow>
      if we_Type we = [] then Some (h\<lparr>hb_unforwarded := hb_unforwarded h + 1\<rparr>)
      else
        let seq = (hb_seq h + 1) mod 2 ^ 64;
            h = h\<lparr>hb_seq := seq\<rparr>
        in (case enc (we\<lparr>we_Seq := seq\<rparr>) of
              None \<Rightarrow> Some h
            | Some b \<Rightarrow>
                let h = hub_record \<lparr>re_seq = seq, re_key = key, re_all = all, re_bytes = b\<rparr> h
                in broadcast (hb_clients h) key all b h))"

fun deliver_all :: "nat \<Rightarrow> string list \<Rightarrow> hub \<Rightarrow> hub option" where
  "deliver_all i [] h = Some h"
| "deliver_all i (b # bs) h = (case deliver i b h of None \<Rightarrow> None | Some h \<Rightarrow> deliver_all i bs h)"

definition replayTo :: "nat \<Rightarrow> nat \<Rightarrow> hub \<Rightarrow> hub option" where
  "replayTo i since h = (case hb_conns h i of
     None \<Rightarrow> None
   | Some c \<Rightarrow>
       let pending = filter (\<lambda>e. re_seq e > since \<and> (re_all e \<or> wants c (re_key e))) (List.map_filter (\<lambda>e. e) (hb_replay h))
       in deliver_all i (map re_bytes (sort_key re_seq pending)) h)"

definition hub_register :: "nat \<Rightarrow> hub \<Rightarrow> bool \<times> hub" where
  "hub_register i h = (if hb_closed h then (False, h) else (True, h\<lparr>hb_clients := List.insert i (hb_clients h)\<rparr>))"

definition shut :: "nat \<Rightarrow> hub \<Rightarrow> hub" where
  "shut i h = h\<lparr>hb_conns := (case hb_conns h i of None \<Rightarrow> hb_conns h | Some c \<Rightarrow> (hb_conns h)(i \<mapsto> c\<lparr>cl_shut := True\<rparr>))\<rparr>"

definition hub_unregister :: "nat \<Rightarrow> hub \<Rightarrow> hub" where
  "hub_unregister i h = (if i \<in> set (hb_clients h) then shut i (h\<lparr>hb_clients := removeAll i (hb_clients h)\<rparr>) else h)"

definition hub_Close :: "hub \<Rightarrow> hub" where
  "hub_Close h = (fold shut (hb_clients h) (h\<lparr>hb_closed := True\<rparr>))\<lparr>hb_clients := []\<rparr>"

definition clientCount :: "hub \<Rightarrow> nat" where
  "clientCount h = length (hb_clients h)"

subsection \<open>Queues and the resume ring are drop-oldest buffers\<close>

interpretation client_queue: drop_oldest pushBytes cl_send clientBuffer "\<lambda>c. length (cl_send c) \<le> clientBuffer"
proof (unfold_locales, goal_cases)
  case (3 c b)
  then show ?case by (cases "cl_send c") (auto simp: pushBytes_def)
next
  case (4 c b)
  then show ?case
  proof (cases "length (cl_send c) = clientBuffer")
    case True
    then show ?thesis using last_n_Suc_full [OF True, of b] by (simp add: pushBytes_def)
  qed (simp add: pushBytes_def last_n_id)
qed simp_all

text \<open>The ring from its oldest slot.\<close>

definition hub_slots :: "hub \<Rightarrow> replayEntry option list" where
  "hub_slots h = drop (hb_rnext h) (hb_replay h) @ take (hb_rnext h) (hb_replay h)"

definition hub_recent :: "hub \<Rightarrow> replayEntry list" where
  "hub_recent h = List.map_filter (\<lambda>e. e) (hub_slots h)"

definition ring_ok :: "hub \<Rightarrow> bool" where
  "ring_ok h \<longleftrightarrow> (hb_replay h = [] \<and> hb_rnext h = 0)
     \<or> (length (hb_replay h) = replayBuffer \<and> hb_rnext h < replayBuffer
        \<and> hub_slots h = replicate (replayBuffer - length (hub_recent h)) None @ map Some (hub_recent h))"

lemma map_filter_id [simp]:
  "List.map_filter (\<lambda>e. e) (xs @ ys) = List.map_filter (\<lambda>e. e) xs @ List.map_filter (\<lambda>e. e) ys"
  "List.map_filter (\<lambda>e. e) (map Some zs) = zs" "List.map_filter (\<lambda>e. e) (replicate k None) = []"
  "List.map_filter (\<lambda>e. e) [Some z] = [z]"
  by (simp_all add: List.map_filter_def comp_def)

lemma rotate_write:
  assumes "r < length xs"
  shows "(let ys = xs[r := x]; r' = Suc r mod length xs in drop r' ys @ take r' ys) = tl (drop r xs @ take r xs) @ [x]"
proof (cases "Suc r = length xs")
  case True
  then have "xs[r := x] = take r xs @ [x]" using assms by (metis id_take_nth_drop drop_all le_refl list_update_length upd_conv_take_nth_drop)
  moreover have "drop r xs = [xs ! r]" using True assms by (metis Cons_nth_drop_Suc drop_all le_refl)
  ultimately show ?thesis using True by simp
next
  case False
  then have "Suc r mod length xs = Suc r" using assms by simp
  moreover have "xs[r := x] = take r xs @ x # drop (Suc r) xs" using assms by (rule upd_conv_take_nth_drop)
  moreover have "drop r xs = xs ! r # drop (Suc r) xs" using assms by (rule Cons_nth_drop_Suc [symmetric])
  ultimately show ?thesis using assms by (simp add: min_def)
qed

lemma record_slots:
  assumes "length (hb_replay h) = replayBuffer" "hb_rnext h < replayBuffer"
  shows "hub_slots (hub_record e h) = tl (hub_slots h) @ [Some e]"
    and "length (hb_replay (hub_record e h)) = replayBuffer" and "hb_rnext (hub_record e h) < replayBuffer"
proof -
  have ne: "hb_replay h \<noteq> []" using assms by auto
  then show "hub_slots (hub_record e h) = tl (hub_slots h) @ [Some e]"
    using rotate_write [of "hb_rnext h" "hb_replay h" "Some e"] assms by (simp add: hub_slots_def hub_record_def Let_def)
qed (use assms in \<open>auto simp: hub_record_def Let_def\<close>)

lemma record_full:
  assumes "length (hb_replay h) = replayBuffer" "hb_rnext h < replayBuffer"
    and "hub_slots h = replicate k None @ map Some xs" "k + length xs = replayBuffer"
  shows "ring_ok (hub_record e h) \<and> hub_recent (hub_record e h) = last_n replayBuffer (xs @ [e])"
proof (cases k)
  case 0
  then have len: "length xs = replayBuffer" using assms(4) by simp
  have "hub_slots (hub_record e h) = map Some (tl xs @ [e])"
    using record_slots(1) [OF assms(1,2)] assms(3) 0 by (simp add: map_tl)
  moreover from this have "hub_recent (hub_record e h) = tl xs @ [e]" by (simp only: hub_recent_def map_filter_id)
  moreover have "last_n replayBuffer (xs @ [e]) = tl xs @ [e]" using last_n_Suc_full [OF len] by simp
  ultimately show ?thesis using len record_slots(2,3) [OF assms(1,2), of e] by (simp add: ring_ok_def)
next
  case (Suc j)
  have "hub_slots (hub_record e h) = replicate j None @ map Some (xs @ [e])"
    using record_slots(1) [OF assms(1,2)] assms(3) Suc by simp
  moreover from this have r: "hub_recent (hub_record e h) = xs @ [e]" by (simp only: hub_recent_def map_filter_id append_Nil)
  moreover have "j = replayBuffer - length (xs @ [e])" using Suc assms(4) by simp
  ultimately show ?thesis using assms(4) Suc record_slots(2,3) [OF assms(1,2), of e] by (simp add: ring_ok_def last_n_id)
qed

lemma record_init: "hb_replay h = [] \<Longrightarrow> hub_record e h = hub_record e (h\<lparr>hb_replay := replicate replayBuffer None\<rparr>)"
  by (simp add: hub_record_def Let_def)

lemma ring_bound: "ring_ok h \<Longrightarrow> length (hub_recent h) \<le> replayBuffer"
proof -
  assume "ring_ok h"
  moreover have "length (hub_recent h) \<le> length (hub_slots h)"
    by (simp add: hub_recent_def List.map_filter_def)
  moreover have "length (hub_slots h) \<le> length (hb_replay h)" by (simp add: hub_slots_def)
  ultimately show ?thesis by (auto simp: ring_ok_def)
qed

interpretation replay_ring: drop_oldest hub_record hub_recent replayBuffer ring_ok
proof -
  have step: "ring_ok (hub_record e h) \<and> hub_recent (hub_record e h) = last_n replayBuffer (hub_recent h @ [e])" if "ring_ok h" for e h
  proof (cases "hb_replay h = []")
    case True
    then have "hb_rnext h = 0" using that by (auto simp: ring_ok_def)
    moreover have "hub_recent h = []" using True by (simp add: hub_recent_def hub_slots_def List.map_filter_def)
    ultimately show ?thesis
      using record_full [of "h\<lparr>hb_replay := replicate replayBuffer None\<rparr>" replayBuffer "[]" e] record_init [OF True, of e]
      by (simp add: hub_slots_def)
  next
    case False
    then show ?thesis using that record_full [of h _ "hub_recent h" e] ring_bound [OF that] by (auto simp: ring_ok_def)
  qed
  show "drop_oldest hub_record hub_recent replayBuffer ring_ok"
    by unfold_locales (simp_all add: step ring_bound)
qed

subsection \<open>Runs\<close>

text \<open>Consuming a sequence of events; None as soon as one consume panics.\<close>

fun hub_run :: "(WireEvent \<Rightarrow> string option) \<Rightarrow> Event list \<Rightarrow> hub \<Rightarrow> hub option" where
  "hub_run enc [] h = Some h"
| "hub_run enc (ev # evs) h = (case hub_Consume enc ev h of None \<Rightarrow> None | Some h \<Rightarrow> hub_run enc evs h)"

text \<open>The entries a sequence of events produces, numbered on from \<open>seq\<close>.\<close>

fun hub_log :: "(WireEvent \<Rightarrow> string option) \<Rightarrow> nat \<Rightarrow> Event list \<Rightarrow> replayEntry list" where
  "hub_log enc seq [] = []"
| "hub_log enc seq (ev # evs) = (case toWire ev of (we, key, all) \<Rightarrow>
     (case enc (we\<lparr>we_Seq := seq + 1\<rparr>) of
        None \<Rightarrow> []
      | Some b \<Rightarrow> [\<lparr>re_seq = seq + 1, re_key = key, re_all = all, re_bytes = b\<rparr>]) @ hub_log enc (seq + 1) evs)"

definition for_client :: "client \<Rightarrow> replayEntry \<Rightarrow> bool" where
  "for_client c e \<longleftrightarrow> re_all e \<or> wants c (re_key e)"

definition hub_ok :: "hub \<Rightarrow> bool" where
  "hub_ok h \<longleftrightarrow> distinct (hb_clients h) \<and> ring_ok h
     \<and> (\<forall>i \<in> set (hb_clients h). \<exists>c. hb_conns h i = Some c \<and> \<not> cl_shut c \<and> length (cl_send c) \<le> clientBuffer)
     \<and> sorted_wrt (<) (map re_seq (hub_recent h)) \<and> (\<forall>e \<in> set (hub_recent h). re_seq e \<le> hb_seq h)"

lemma toWire_typed: "toWire ev = (we, key, all) \<Longrightarrow> we_Type we \<noteq> []"
  by (cases ev rule: toWire.cases) (auto simp: wire_def Let_def split: option.splits)

lemma pushBytes_frame [simp]: "cl_shut (pushBytes b c) = cl_shut c" "cl_sub (pushBytes b c) = cl_sub c"
  by (simp_all add: pushBytes_def)

text \<open>A broadcast touches the queues of the wanting clients and nothing else.\<close>

lemma broadcast_effect:
  assumes "distinct is" "\<forall>i \<in> set is. \<exists>c. hb_conns h i = Some c \<and> \<not> cl_shut c"
  shows "\<exists>conns. broadcast is key all b h = Some (h\<lparr>hb_conns := conns\<rparr>)
    \<and> (\<forall>j. j \<notin> set is \<longrightarrow> conns j = hb_conns h j)
    \<and> (\<forall>j \<in> set is. conns j = map_option (\<lambda>c. if all \<or> wants c key then pushBytes b c else c) (hb_conns h j))"
  using assms
proof (induction "is" arbitrary: h)
  case Nil
  show ?case by (intro exI [of _ "hb_conns h"]) simp
next
  case (Cons i "is")
  then obtain c where c: "hb_conns h i = Some c" "\<not> cl_shut c" by auto
  let ?c' = "if all \<or> wants c key then pushBytes b c else c"
  let ?h = "h\<lparr>hb_conns := (hb_conns h)(i \<mapsto> ?c')\<rparr>"
  have "h\<lparr>hb_conns := (hb_conns h)(i \<mapsto> c)\<rparr> = h" using c(1) by (simp add: fun_upd_idem)
  then have "broadcast (i # is) key all b h = broadcast is key all b ?h"
    using c by (auto simp: deliver_def)
  moreover have "\<exists>conns. broadcast is key all b ?h = Some (?h\<lparr>hb_conns := conns\<rparr>)
    \<and> (\<forall>j. j \<notin> set is \<longrightarrow> conns j = hb_conns ?h j)
    \<and> (\<forall>j \<in> set is. conns j = map_option (\<lambda>c. if all \<or> wants c key then pushBytes b c else c) (hb_conns ?h j))"
    using Cons.prems by (intro Cons.IH) auto
  ultimately show ?case using Cons.prems(1) c by (auto 0 3 intro!: exI)
qed

text \<open>What consuming does, as a relation between the hub before and after and the new log entries.\<close>

definition hub_after :: "replayEntry list \<Rightarrow> nat \<Rightarrow> hub \<Rightarrow> hub \<Rightarrow> bool" where
  "hub_after l n h h' \<longleftrightarrow> hub_ok h' \<and> hb_seq h' = hb_seq h + n \<and> hb_clients h' = hb_clients h
     \<and> hub_recent h' = last_n replayBuffer (hub_recent h @ l)
     \<and> (\<forall>i \<in> set (hb_clients h). \<forall>c. hb_conns h i = Some c \<longrightarrow> (\<exists>c'. hb_conns h' i = Some c' \<and> cl_sub c' = cl_sub c
          \<and> cl_send c' = last_n clientBuffer (cl_send c @ map re_bytes (filter (for_client c) l))))"

lemma record_frame [simp]:
  "hb_conns (hub_record e h) = hb_conns h" "hb_clients (hub_record e h) = hb_clients h"
  "hb_seq (hub_record e h) = hb_seq h"
  by (simp_all add: hub_record_def Let_def)

lemma sorted_last_n: "sorted_wrt P xs \<Longrightarrow> sorted_wrt P (last_n n xs)"
  by (simp add: last_n_def sorted_wrt_drop)

lemma hub_recent_cong [simp]:
  "hub_recent (h\<lparr>hb_conns := x\<rparr>) = hub_recent h" "hub_recent (h\<lparr>hb_seq := n\<rparr>) = hub_recent h"
  "ring_ok (h\<lparr>hb_conns := x\<rparr>) = ring_ok h" "ring_ok (h\<lparr>hb_seq := n\<rparr>) = ring_ok h"
  by (simp_all add: hub_recent_def hub_slots_def ring_ok_def)

lemma Consume_effect:
  assumes ok: "hub_ok h" and seq: "hb_seq h + 1 < 2 ^ 64"
  shows "\<exists>h'. hub_Consume enc ev h = Some h' \<and> hub_after (hub_log enc (hb_seq h) [ev]) 1 h h'"
proof -
  obtain we key all where w: "toWire ev = (we, key, all)" by (metis prod_cases3)
  have ty: "we_Type we \<noteq> []" using toWire_typed [OF w] .
  have s: "(hb_seq h + 1) mod 2 ^ 64 = hb_seq h + 1" using seq by simp
  have live: "\<forall>i \<in> set (hb_clients h). \<exists>c. hb_conns h i = Some c \<and> \<not> cl_shut c \<and> length (cl_send c) \<le> clientBuffer"
    and ring: "ring_ok h" and d: "distinct (hb_clients h)" using ok by (simp_all add: hub_ok_def)
  show ?thesis
  proof (cases "enc (we\<lparr>we_Seq := hb_seq h + 1\<rparr>)")
    case None
    have "hub_after [] 1 h (h\<lparr>hb_seq := hb_seq h + 1\<rparr>)"
      using ok live replay_ring.wf_bound [OF ring] by (fastforce simp: hub_after_def hub_ok_def last_n_id)
    then show ?thesis using None w ty s by (simp add: hub_Consume_def Let_def)
  next
    case (Some b)
    define e where "e = \<lparr>re_seq = hb_seq h + 1, re_key = key, re_all = all, re_bytes = b\<rparr>"
    define g where "g = hub_record e (h\<lparr>hb_seq := hb_seq h + 1\<rparr>)"
    have g: "hb_conns g = hb_conns h" "hb_clients g = hb_clients h" "hb_seq g = hb_seq h + 1" by (simp_all add: g_def)
    have rec: "ring_ok g" "hub_recent g = last_n replayBuffer (hub_recent h @ [e])"
      using replay_ring.wf_push [of "h\<lparr>hb_seq := hb_seq h + 1\<rparr>" e] replay_ring.contents_push [of "h\<lparr>hb_seq := hb_seq h + 1\<rparr>" e] ring
      by (simp_all add: g_def)
    obtain conns where b: "broadcast (hb_clients g) key all b g = Some (g\<lparr>hb_conns := conns\<rparr>)"
      "\<forall>j \<in> set (hb_clients g). conns j = map_option (\<lambda>c. if all \<or> wants c key then pushBytes b c else c) (hb_conns g j)"
      using broadcast_effect [of "hb_clients g" g key all b] d live g by force
    have log: "hub_log enc (hb_seq h) [ev] = [e]" using w Some by (simp add: e_def)
    have "sorted_wrt (<) (map re_seq (hub_recent h @ [e]))" using ok by (auto simp: hub_ok_def sorted_wrt_append e_def)
    then have srt: "sorted_wrt (<) (map re_seq (hub_recent g))" unfolding rec(2) map_last_n by (rule sorted_last_n)
    have top: "\<forall>x \<in> set (hub_recent g). re_seq x \<le> hb_seq h + 1"
      using ok set_last_n [of replayBuffer "hub_recent h @ [e]"] unfolding rec(2) by (fastforce simp: hub_ok_def e_def)
    have cl: "\<exists>c'. conns i = Some c' \<and> cl_sub c' = cl_sub c \<and> \<not> cl_shut c' \<and> length (cl_send c') \<le> clientBuffer
        \<and> cl_send c' = last_n clientBuffer (cl_send c @ map re_bytes (filter (for_client c) [e]))"
      if "i \<in> set (hb_clients h)" "hb_conns h i = Some c" for i c
    proof -
      have "\<not> cl_shut c" "length (cl_send c) \<le> clientBuffer" using live that by auto
      then show ?thesis
        using b(2) that g client_queue.contents_push [of c b] client_queue.wf_push [of c b]
        by (auto simp: for_client_def e_def last_n_id)
    qed
    have "hub_after [e] 1 h (g\<lparr>hb_conns := conns\<rparr>)"
      unfolding hub_after_def hub_ok_def using cl live d srt top rec g by fastforce
    then show ?thesis using Some w ty s b(1) log by (simp add: hub_Consume_def Let_def e_def g_def)
  qed
qed

lemma run_effect:
  "hub_ok h \<Longrightarrow> hb_seq h + length evs < 2 ^ 64 \<Longrightarrow>
    \<exists>h'. hub_run enc evs h = Some h' \<and> hub_after (hub_log enc (hb_seq h) evs) (length evs) h h'"
proof (induction evs arbitrary: h)
  case Nil
  have "hub_after [] 0 h h"
    using Nil(1) replay_ring.wf_bound [of h] by (fastforce simp: hub_after_def hub_ok_def last_n_id)
  then show ?case by simp
next
  case (Cons ev evs)
  obtain h1 where 1: "hub_Consume enc ev h = Some h1" "hub_after (hub_log enc (hb_seq h) [ev]) 1 h h1"
    using Consume_effect [OF Cons.prems(1), of enc ev] Cons.prems(2) by auto
  then have "hub_ok h1" "hb_seq h1 = hb_seq h + 1" by (simp_all add: hub_after_def)
  then obtain h2 where 2: "hub_run enc evs h1 = Some h2" "hub_after (hub_log enc (hb_seq h + 1) evs) (length evs) h1 h2"
    using Cons.IH [of h1] Cons.prems(2) by auto
  let ?l1 = "hub_log enc (hb_seq h) [ev]" and ?l2 = "hub_log enc (hb_seq h + 1) evs"
  have log: "hub_log enc (hb_seq h) (ev # evs) = ?l1 @ ?l2" by (simp split: prod.split)
  have "\<exists>c'. hb_conns h2 i = Some c' \<and> cl_sub c' = cl_sub c
      \<and> cl_send c' = last_n clientBuffer (cl_send c @ map re_bytes (filter (for_client c) (?l1 @ ?l2)))"
    if i: "i \<in> set (hb_clients h)" "hb_conns h i = Some c" for i c
  proof -
    obtain c1 where c1: "hb_conns h1 i = Some c1" "cl_sub c1 = cl_sub c"
      "cl_send c1 = last_n clientBuffer (cl_send c @ map re_bytes (filter (for_client c) ?l1))"
      using 1(2) i unfolding hub_after_def by blast
    obtain c2 where c2: "hb_conns h2 i = Some c2" "cl_sub c2 = cl_sub c1"
      "cl_send c2 = last_n clientBuffer (cl_send c1 @ map re_bytes (filter (for_client c1) ?l2))"
      using 1(2) 2(2) i c1(1) unfolding hub_after_def by metis
    have "for_client c1 = for_client c" using c1(2) by (simp add: for_client_def fun_eq_iff)
    then show ?thesis using c1 c2 by (simp add: last_n_absorb)
  qed
  then have "hub_after (?l1 @ ?l2) (length (ev # evs)) h h2"
    using 1(2) 2(2) unfolding hub_after_def by (simp add: last_n_absorb)
  then show ?case using 1(1) 2(1) unfolding log by simp
qed


definition two_clients :: hub where
  "two_clients = newHub\<lparr>hb_clients := [1, 2], hb_conns := [1 \<mapsto> newClient\<lparr>cl_sub := [''twitch:v'']\<rparr>, 2 \<mapsto> newClient]\<rparr>"

lemma two_clients_ok: "hub_ok two_clients"
  by (simp add: hub_ok_def two_clients_def newHub_def newClient_def ring_ok_def hub_recent_def hub_slots_def List.map_filter_def)


subsection \<open>Resuming\<close>

lemma deliver_all_effect:
  "hb_conns h i = Some c \<Longrightarrow> \<not> cl_shut c \<Longrightarrow>
    deliver_all i bs h = Some (h\<lparr>hb_conns := (hb_conns h)(i \<mapsto> fold pushBytes bs c)\<rparr>)"
proof (induction bs arbitrary: h c)
  case (Cons b bs)
  let ?g = "h\<lparr>hb_conns := (hb_conns h)(i \<mapsto> pushBytes b c)\<rparr>"
  have "deliver_all i bs ?g = Some (?g\<lparr>hb_conns := (hb_conns ?g)(i \<mapsto> fold pushBytes bs (pushBytes b c))\<rparr>)"
    by (rule Cons.IH) (use Cons.prems in simp_all)
  moreover have "(hb_conns ?g)(i \<mapsto> x) = (hb_conns h)(i \<mapsto> x)" for x by simp
  ultimately show ?case using Cons.prems by (simp add: deliver_def fun_upd_def)
qed (simp add: fun_upd_idem)

lemma pending_sorted:
  assumes "hub_ok h"
  shows "sort_key re_seq (filter P (List.map_filter (\<lambda>e. e) (hb_replay h))) = filter P (hub_recent h)"
proof (rule sort_key_inj_key_eq)
  have "mset (List.map_filter (\<lambda>e. e) (hb_replay h)) = mset (hub_recent h)"
    unfolding hub_recent_def hub_slots_def map_filter_id(1)
    by (subst append_take_drop_id [of "hb_rnext h", symmetric]) (simp only: map_filter_id(1) mset_append add.commute)
  then show eq: "mset (filter P (List.map_filter (\<lambda>e. e) (hb_replay h))) = mset (filter P (hub_recent h))"
    by (simp add: mset_filter)
  have srt: "sorted_wrt (<) (map re_seq (hub_recent h))" using assms by (simp add: hub_ok_def)
  then have "inj_on re_seq (set (hub_recent h))" by (metis distinct_map strict_sorted_iff)
  then show "inj_on re_seq (set (filter P (List.map_filter (\<lambda>e. e) (hb_replay h))))"
    unfolding mset_eq_setD [OF eq] by (rule inj_on_subset) auto
  have "sorted (map re_seq (hub_recent h))" using srt by (simp add: strict_sorted_iff)
  then show "sorted (map re_seq (filter P (hub_recent h)))" by (rule sorted_filter)
qed

lemma replay_effect:
  assumes "hub_ok h" "i \<in> set (hb_clients h)" "hb_conns h i = Some c"
  shows "\<exists>h' c'. replayTo i since h = Some h' \<and> hb_conns h' i = Some c'
    \<and> cl_send c' = last_n clientBuffer (cl_send c @ map re_bytes (filter (\<lambda>e. since < re_seq e \<and> for_client c e) (hub_recent h)))"
proof -
  have c: "\<not> cl_shut c" "length (cl_send c) \<le> clientBuffer" using assms by (auto simp: hub_ok_def)
  then show ?thesis
    using assms(3) deliver_all_effect [OF assms(3) c(1)] client_queue.contents_pushes [OF c(2)]
    by (simp add: replayTo_def Let_def pending_sorted [OF assms(1)] for_client_def)
qed

text \<open>
  A client that resumes gets what it missed, in order: a client that subscribed and presents the
  last sequence number it processed is sent, behind what is queued for it, the retained events past
  that number that match its subscription, in sequence order; the retained events are the newest 1024
  of all the hub ever forwarded, but the client's queue keeps the newest 256.
\<close>

theorem hub_resume:
  assumes "hub_ok h" "hb_seq h + length evs < 2 ^ 64" "i \<in> set (hb_clients h)" "hb_conns h i = Some c"
  shows "\<exists>h1 c1 h2 c2. hub_run enc evs h = Some h1 \<and> hb_conns h1 i = Some c1
    \<and> replayTo i since h1 = Some h2 \<and> hb_conns h2 i = Some c2
    \<and> cl_send c2 = last_n 256 (cl_send c1 @ map re_bytes (filter (\<lambda>e. since < re_seq e \<and> for_client c e)
        (last_n 1024 (hub_recent h @ hub_log enc (hb_seq h) evs))))"
proof -
  obtain h1 where h1: "hub_run enc evs h = Some h1" "hub_after (hub_log enc (hb_seq h) evs) (length evs) h h1"
    using run_effect [OF assms(1,2)] by blast
  then obtain c1 where c1: "hb_conns h1 i = Some c1" "cl_sub c1 = cl_sub c" and "hub_ok h1" "i \<in> set (hb_clients h1)"
    and rec: "hub_recent h1 = last_n 1024 (hub_recent h @ hub_log enc (hb_seq h) evs)"
    using assms(3,4) unfolding hub_after_def by auto
  then obtain h2 c2 where "replayTo i since h1 = Some h2" "hb_conns h2 i = Some c2"
    "cl_send c2 = last_n 256 (cl_send c1 @ map re_bytes (filter (\<lambda>e. since < re_seq e \<and> for_client c1 e) (hub_recent h1)))"
    using replay_effect [of h1 i c1 since] by auto
  moreover have "for_client c1 = for_client c" using c1(2) by (simp add: for_client_def fun_eq_iff)
  ultimately show ?thesis using h1(1) c1(1) rec by auto
qed

theorem hub_resume_witness:
  "\<exists>h1 c1 h2 c2. hub_run (\<lambda>we. Some (we_Type we)) [ProfileChangedEvent [] [], ChannelClearEvent (twitch_channel ''w'') []] two_clients = Some h1
    \<and> hb_conns h1 2 = Some c1 \<and> replayTo 2 1 h1 = Some h2 \<and> hb_conns h2 2 = Some c2
    \<and> cl_send c2 = last_n 256 (cl_send c1 @ [''channel_clear''])"
  using hub_resume [OF two_clients_ok, of "[ProfileChangedEvent [] [], ChannelClearEvent (twitch_channel ''w'') []]" 2 newClient
      "\<lambda>we. Some (we_Type we)" 1]
  by (simp add: two_clients_def newHub_def newClient_def wire_def for_client_def sub_matches_def hub_recent_def hub_slots_def
      last_n_def List.map_filter_def)

text \<open>
  After \<^verbatim>\<open>Close\<close> the clients' channels are closed but their read loops still run: a resume request
  served then sends on a closed channel, which panics.
\<close>

lemma fold_shut_closed:
  "i \<in> set is \<Longrightarrow> hb_conns h i = Some c \<Longrightarrow> \<exists>c'. hb_conns (fold shut is h) i = Some c' \<and> cl_shut c' \<and> cl_sub c' = cl_sub c"
proof (induction "is" arbitrary: h c)
  case (Cons j "is")
  show ?case
  proof (cases "i \<in> set is")
    case True
    obtain c0 where "hb_conns (shut j h) i = Some c0" "cl_sub c0 = cl_sub c"
      using Cons.prems(2) by (cases "hb_conns h j"; cases "i = j") (auto simp: shut_def)
    then show ?thesis using Cons.IH [OF True, of "shut j h" c0] by simp
  next
    case False
    then have "hb_conns (fold shut is g) i = hb_conns g i" for g
      by (induction "is" arbitrary: g) (auto simp: shut_def split: option.split)
    moreover have "i = j" using Cons.prems(1) False by simp
    moreover have "hb_conns (shut i h) i = Some (c\<lparr>cl_shut := True\<rparr>)" using Cons.prems(2) by (simp add: shut_def)
    ultimately show ?thesis by simp
  qed
qed simp

lemma fold_shut_ring: "hb_replay (fold shut is h) = hb_replay h"
  by (induction "is" arbitrary: h) (simp_all add: shut_def)

theorem resume_after_close:
  assumes "hub_ok h" "i \<in> set (hb_clients h)" "hb_conns h i = Some c"
    and "filter (\<lambda>e. since < re_seq e \<and> for_client c e) (hub_recent h) \<noteq> []"
  shows "replayTo i since (hub_Close h) = None"
proof -
  obtain c' where c': "hb_conns (hub_Close h) i = Some c'" "cl_shut c'" "cl_sub c' = cl_sub c"
    using fold_shut_closed [OF assms(2), of "h\<lparr>hb_closed := True\<rparr>" c] assms(3) by (auto simp: hub_Close_def)
  have ring: "hb_replay (hub_Close h) = hb_replay h" by (simp add: hub_Close_def fold_shut_ring)
  have "for_client c' = for_client c" using c'(3) by (simp add: for_client_def fun_eq_iff)
  then obtain b bs where "map re_bytes (sort_key re_seq (filter (\<lambda>e. since < re_seq e \<and> for_client c' e)
      (List.map_filter (\<lambda>e. e) (hb_replay h)))) = b # bs"
    using assms(4) by (simp only: pending_sorted [OF assms(1)]) (metis list.exhaust map_is_Nil_conv)
  then show ?thesis using c' ring by (simp add: replayTo_def Let_def deliver_def for_client_def)
qed

end
