(* ===== verification/Profiles.thy ===== *)
theory Profiles
  imports Engine Chat_Filter Logbook Store_Laws
begin

text \<open>
  \<^verbatim>\<open>internal/profiles\<close>: the workspace document and the manager that activates one. The manager's ports
  are the components they are wired to (\<^verbatim>\<open>internal/app/wire.go\<close>): the engine for joins and leaves, the
  filter stage's ruleset, the engine, logbook sink and sweeper behind \<^verbatim>\<open>loggingControl\<close>, the pipeline's
  entry (\<open>mg_out\<close>) and the profile repository of the store the logbook also writes to. The JSON form of
  a document is the argument \<open>cd\<close>, whose two functions may fail; the regular expression compiler is the
  argument \<open>compile_re\<close>, as in the filter.
\<close>

subsection \<open>Documents\<close>

abbreviation CurrentVersion :: int where "CurrentVersion \<equiv> 1"

record ChannelSpec =
  sc_Platform :: Platform
  sc_Slug :: string
  sc_Mode :: ConnMode

record LoggingPolicy =
  lp_Enabled :: bool
  lp_Retention :: string

record Doc =
  dc_Version :: int
  dc_Channels :: "ChannelSpec list"
  dc_Methods :: "(Platform \<times> ConnMode) list"
  dc_Filters :: "Rule list"
  dc_Logging :: LoggingPolicy
  dc_Layouts :: json

definition methodFor :: "Doc \<Rightarrow> Platform \<Rightarrow> ConnMode" where
  "methodFor d p = (case map_of (dc_Methods d) p of
     Some m \<Rightarrow> if m \<noteq> [] then m else ModeAutomatic
   | None \<Rightarrow> ModeAutomatic)"

definition spec_mode :: "ChannelSpec \<Rightarrow> ConnMode" where
  "spec_mode c = (if sc_Mode c = [] then ModeAutomatic else sc_Mode c)"

definition effectiveMode :: "Doc \<Rightarrow> ChannelSpec \<Rightarrow> ConnMode" where
  "effectiveMode d c = (case map_of (dc_Methods d) (sc_Platform c) of
     Some m \<Rightarrow> if m \<noteq> [] then m else spec_mode c
   | None \<Rightarrow> spec_mode c)"

definition spec_Ref :: "ChannelSpec \<Rightarrow> ChannelRef" where
  "spec_Ref c = \<lparr>ch_Platform = sc_Platform c, ch_ID = [], ch_Slug = sc_Slug c, ch_DisplayName = []\<rparr>"

definition NewDoc :: Doc where
  "NewDoc = \<lparr>dc_Version = CurrentVersion, dc_Channels = [], dc_Methods = [], dc_Filters = [],
     dc_Logging = \<lparr>lp_Enabled = False, lp_Retention = []\<rparr>, dc_Layouts = None\<rparr>"

text \<open>The zero document of a manager that has activated nothing yet.\<close>

definition zero_doc :: Doc where
  "zero_doc = NewDoc\<lparr>dc_Version := 0\<rparr>"

record doc_codec =
  cd_Marshal :: "Doc \<Rightarrow> string option"
  cd_Unmarshal :: "string \<Rightarrow> Doc option"

definition Migrate :: "doc_codec \<Rightarrow> json \<Rightarrow> Doc option" where
  "Migrate cd raw = (case raw of
     None \<Rightarrow> Some NewDoc
   | Some d \<Rightarrow> if d = [] then Some NewDoc
     else (case cd_Unmarshal cd d of
         None \<Rightarrow> None
       | Some d \<Rightarrow>
           let d = (if dc_Version d = 0 then d\<lparr>dc_Version := 1\<rparr> else d)
           in Some (d\<lparr>dc_Version := CurrentVersion\<rparr>)))"

definition prof_channelKey :: "Platform \<Rightarrow> string \<Rightarrow> string" where
  "prof_channelKey p slug = p @ '':'' @ slug"

abbreviation spec_key :: "ChannelSpec \<Rightarrow> string" where
  "spec_key c \<equiv> prof_channelKey (sc_Platform c) (sc_Slug c)"

subsection \<open>The manager\<close>

record 'g Manager =
  mg_engine :: "'g engine"
  mg_rules :: Ruleset
  mg_sink :: LogSink
  mg_sweeper :: Sweeper
  mg_out :: "Event list"
  mg_active :: Doc
  mg_activeID :: string
  mg_loaded :: bool

definition NewManager :: "'g engine \<Rightarrow> Ruleset \<Rightarrow> LogSink \<Rightarrow> Sweeper \<Rightarrow> 'g Manager" where
  "NewManager e rs s w = \<lparr>mg_engine = e, mg_rules = rs, mg_sink = s, mg_sweeper = w, mg_out = [],
     mg_active = zero_doc, mg_activeID = [], mg_loaded = False\<rparr>"

abbreviation repo :: "'g Manager \<Rightarrow> Memory" where
  "repo m \<equiv> ls_store (mg_sink m)"

abbreviation set_repo :: "Memory \<Rightarrow> 'g Manager \<Rightarrow> 'g Manager" where
  "set_repo r m \<equiv> m\<lparr>mg_sink := (mg_sink m)\<lparr>ls_store := r\<rparr>\<rparr>"

datatype profile_error =
    RepoError store_error
  | DecodeError
  | EncodeError
  | FilterError "string \<times> string"
  | DeleteActive
  | DeleteDefault

definition loggingControl :: "bool \<Rightarrow> string \<Rightarrow> 'g Manager \<Rightarrow> 'g Manager" where
  "loggingControl enabled retention m = m\<lparr>mg_engine := SetLogging enabled (mg_engine m),
     mg_sink := SetEnabled enabled (mg_sink m), mg_sweeper := snd (SetRetention retention (mg_sweeper m))\<rparr>"

definition diffChannels :: "ChannelSpec list \<Rightarrow> ChannelSpec list \<Rightarrow> ChannelSpec list \<times> ChannelSpec list" where
  "diffChannels prev nxt =
    (filter (\<lambda>c. spec_key c \<notin> spec_key ` set prev) nxt, filter (\<lambda>c. spec_key c \<notin> spec_key ` set nxt) prev)"

definition EnsureDefault :: "doc_codec \<Rightarrow> time \<Rightarrow> 'g Manager \<Rightarrow> (profile_error + Profile) \<times> 'g Manager" where
  "EnsureDefault cd now m = (case Profiles_Default (repo m) of
     Inr p \<Rightarrow> (Inr p, m)
   | Inl _ \<Rightarrow> (case cd_Marshal cd NewDoc of
       None \<Rightarrow> (Inl EncodeError, m)
     | Some doc \<Rightarrow> (case Profiles_Create now ''default'' (Some doc) (repo m) of
         (Inl e, r) \<Rightarrow> (Inl (RepoError e), set_repo r m)
       | (Inr p, r) \<Rightarrow> (case Profiles_SetDefault (pf_ID p) r of
           (Inl e, r) \<Rightarrow> (Inl (RepoError e), set_repo r m)
         | (Inr _, r) \<Rightarrow> (Inr p, set_repo r m)))))"

text \<open>The calls on the engine: results are ignored, a refused join shows in the channel's health.\<close>

definition leave_all :: "ChannelSpec list \<Rightarrow> 'g engine \<Rightarrow> 'g engine" where
  "leave_all cs e = fold (\<lambda>c e. snd (Leave (spec_Ref c) e)) cs e"

definition join_all :: "Doc \<Rightarrow> ChannelSpec list \<Rightarrow> 'g engine \<Rightarrow> 'g engine" where
  "join_all d cs e = fold (\<lambda>c e. snd (Join (spec_Ref c) (effectiveMode d c) e)) cs e"

definition Activate :: "doc_codec \<Rightarrow> (string \<Rightarrow> regex option) \<Rightarrow> string \<Rightarrow> 'g Manager \<Rightarrow> profile_error option \<times> 'g Manager" where
  "Activate cd compile_re i m = (case Profiles_Get i (repo m) of
     Inl e \<Rightarrow> (Some (RepoError e), m)
   | Inr p \<Rightarrow> (case Migrate cd (pf_Doc p) of
       None \<Rightarrow> (Some DecodeError, m)
     | Some doc \<Rightarrow>
         let prevChannels = (if mg_loaded m then dc_Channels (mg_active m) else []);
             m = loggingControl (lp_Enabled (dc_Logging doc)) (lp_Retention (dc_Logging doc)) m;
             (add, remove) = diffChannels prevChannels (dc_Channels doc);
             m = m\<lparr>mg_engine := join_all doc add (leave_all remove (mg_engine m))\<rparr>
         in (case Compile compile_re (dc_Filters doc) of
               Inl e \<Rightarrow> (Some (FilterError e), m)
             | Inr rs \<Rightarrow> (None, m\<lparr>mg_rules := SetRuleset (Some rs) (mg_rules m), mg_active := doc, mg_activeID := i,
                 mg_loaded := True, mg_out := mg_out m @ [ProfileChangedEvent i (pf_Name p)]\<rparr>))))"

definition save :: "doc_codec \<Rightarrow> time \<Rightarrow> 'g Manager \<Rightarrow> profile_error option \<times> 'g Manager" where
  "save cd now m =
    (if mg_activeID m = [] then (None, m)
     else (case cd_Marshal cd (mg_active m) of
       None \<Rightarrow> (Some EncodeError, m)
     | Some raw \<Rightarrow> (case Profiles_Update now (mg_activeID m) (Some raw) (repo m) of
         (Inl e, r) \<Rightarrow> (Some (RepoError e), set_repo r m)
       | (Inr _, r) \<Rightarrow> (None, set_repo r m))))"

definition AddChannel :: "doc_codec \<Rightarrow> time \<Rightarrow> ChannelRef \<Rightarrow> ConnMode \<Rightarrow> 'g Manager \<Rightarrow> profile_error option \<times> 'g Manager" where
  "AddChannel cd now ch mode m =
    (if \<not> mg_loaded m then (None, m)
     else if list_ex (\<lambda>c. spec_key c = prof_channelKey (ch_Platform ch) (ch_Slug ch)) (dc_Channels (mg_active m)) then (None, m)
     else save cd now (m\<lparr>mg_active := (mg_active m)\<lparr>dc_Channels := dc_Channels (mg_active m)
       @ [\<lparr>sc_Platform = ch_Platform ch, sc_Slug = ch_Slug ch, sc_Mode = mode\<rparr>]\<rparr>\<rparr>))"

definition RemoveChannel :: "doc_codec \<Rightarrow> time \<Rightarrow> ChannelRef \<Rightarrow> 'g Manager \<Rightarrow> profile_error option \<times> 'g Manager" where
  "RemoveChannel cd now ch m =
    (if \<not> mg_loaded m then (None, m)
     else
       let key = prof_channelKey (ch_Platform ch) (ch_Slug ch);
           kept = filter (\<lambda>c. spec_key c \<noteq> key) (dc_Channels (mg_active m))
       in if \<not> list_ex (\<lambda>c. spec_key c = key) (dc_Channels (mg_active m)) then (None, m)
          else save cd now (m\<lparr>mg_active := (mg_active m)\<lparr>dc_Channels := kept\<rparr>\<rparr>))"

text \<open>The hosted-mode variants edit the stored default profile and leave the active one alone.\<close>

definition update_default :: "doc_codec \<Rightarrow> time \<Rightarrow> (Doc \<Rightarrow> Doc option) \<Rightarrow> 'g Manager \<Rightarrow> profile_error option \<times> 'g Manager" where
  "update_default cd now edit m = (case Profiles_Default (repo m) of
     Inl e \<Rightarrow> (Some (RepoError e), m)
   | Inr prof \<Rightarrow> (case Migrate cd (pf_Doc prof) of
       None \<Rightarrow> (Some DecodeError, m)
     | Some doc \<Rightarrow> (case edit doc of
         None \<Rightarrow> (None, m)
       | Some doc \<Rightarrow> (case cd_Marshal cd doc of
           None \<Rightarrow> (Some EncodeError, m)
         | Some raw \<Rightarrow> (case Profiles_Update now (pf_ID prof) (Some raw) (repo m) of
             (Inl e, r) \<Rightarrow> (Some (RepoError e), set_repo r m)
           | (Inr _, r) \<Rightarrow> (None, set_repo r m))))))"

definition AddChannelForUser :: "doc_codec \<Rightarrow> time \<Rightarrow> ChannelRef \<Rightarrow> ConnMode \<Rightarrow> 'g Manager \<Rightarrow> profile_error option \<times> 'g Manager" where
  "AddChannelForUser cd now ch mode = update_default cd now (\<lambda>doc.
     if list_ex (\<lambda>c. spec_key c = prof_channelKey (ch_Platform ch) (ch_Slug ch)) (dc_Channels doc) then None
     else Some (doc\<lparr>dc_Channels := dc_Channels doc
       @ [\<lparr>sc_Platform = ch_Platform ch, sc_Slug = ch_Slug ch, sc_Mode = mode\<rparr>]\<rparr>))"

definition RemoveChannelForUser :: "doc_codec \<Rightarrow> time \<Rightarrow> ChannelRef \<Rightarrow> 'g Manager \<Rightarrow> profile_error option \<times> 'g Manager" where
  "RemoveChannelForUser cd now ch = update_default cd now (\<lambda>doc.
     Some (doc\<lparr>dc_Channels := filter (\<lambda>c. spec_key c \<noteq> prof_channelKey (ch_Platform ch) (ch_Slug ch)) (dc_Channels doc)\<rparr>))"

definition Filters :: "'g Manager \<Rightarrow> Rule list" where
  "Filters m = dc_Filters (mg_active m)"

definition SetFilters :: "doc_codec \<Rightarrow> (string \<Rightarrow> regex option) \<Rightarrow> time \<Rightarrow> Rule list \<Rightarrow> 'g Manager \<Rightarrow> profile_error option \<times> 'g Manager" where
  "SetFilters cd compile_re now rules m = (case Compile compile_re rules of
     Inl e \<Rightarrow> (Some (FilterError e), m)
   | Inr rs \<Rightarrow> if \<not> mg_loaded m then (None, m)
       else save cd now (m\<lparr>mg_active := (mg_active m)\<lparr>dc_Filters := rules\<rparr>, mg_rules := SetRuleset (Some rs) (mg_rules m)\<rparr>))"

definition Methods :: "'g Manager \<Rightarrow> (Platform \<times> ConnMode) list" where
  "Methods m = dc_Methods (mg_active m)"

definition MethodFor :: "Platform \<Rightarrow> 'g Manager \<Rightarrow> ConnMode" where
  "MethodFor p m = methodFor (mg_active m) p"

definition rejoin :: "Doc \<Rightarrow> ChannelSpec list \<Rightarrow> 'g engine \<Rightarrow> 'g engine" where
  "rejoin d cs e = fold (\<lambda>c e. snd (Join (spec_Ref c) (effectiveMode d c) (snd (Leave (spec_Ref c) e)))) cs e"

definition SetMethod :: "doc_codec \<Rightarrow> time \<Rightarrow> Platform \<Rightarrow> ConnMode \<Rightarrow> 'g Manager \<Rightarrow> profile_error option \<times> 'g Manager" where
  "SetMethod cd now p mode m =
    (if \<not> mg_loaded m then (None, m)
     else
       let doc = (mg_active m)\<lparr>dc_Methods := (if mode = [] \<or> mode = ModeAutomatic then AList.delete p (dc_Methods (mg_active m))
                    else AList.update p mode (dc_Methods (mg_active m)))\<rparr>;
           todo = filter (\<lambda>c. sc_Platform c = p) (dc_Channels doc)
       in save cd now (m\<lparr>mg_active := doc, mg_engine := rejoin doc todo (mg_engine m)\<rparr>))"

definition DeleteProfile :: "string \<Rightarrow> 'g Manager \<Rightarrow> profile_error option \<times> 'g Manager" where
  "DeleteProfile i m =
    (if i = mg_activeID m then (Some DeleteActive, m)
     else (case Profiles_Get i (repo m) of
       Inl e \<Rightarrow> (Some (RepoError e), m)
     | Inr p \<Rightarrow> if pf_IsDefault p then (Some DeleteDefault, m)
         else (case Profiles_Delete i (repo m) of
           (Inl e, r) \<Rightarrow> (Some (RepoError e), set_repo r m)
         | (Inr _, r) \<Rightarrow> (None, set_repo r m))))"

definition ActiveID :: "'g Manager \<Rightarrow> string" where
  "ActiveID m = mg_activeID m"

subsection \<open>Switching profiles\<close>

lemma spec_engine_key: "channelKey (spec_Ref c) = prof_channelKey (sc_Platform c) (to_lower (sc_Slug c))"
  by (simp add: channelKey_def ChannelRef_Key_def spec_Ref_def prof_channelKey_def)

definition eng_keys :: "ChannelSpec list \<Rightarrow> string set" where
  "eng_keys cs = (\<lambda>c. channelKey (spec_Ref c)) ` set cs"

definition accepts :: "'g engine \<Rightarrow> ChannelSpec \<Rightarrow> bool" where
  "accepts e c \<longleftrightarrow> (\<exists>a. map_of (eg_adapters e) (sc_Platform c) = Some a \<and> (\<forall>mode. ad_Join a (spec_Ref c) mode = None))"

lemma Leave_effect:
  "map_of (eg_joined (snd (Leave ch e))) = (map_of (eg_joined e))(channelKey ch := None)"
  "eg_seen (snd (Leave ch e)) = (eg_seen e)(channelKey ch := None)"
  "eg_adapters (snd (Leave ch e)) = eg_adapters e" "eg_logging (snd (Leave ch e)) = eg_logging e"
  by (auto simp: Leave_def Let_def fun_eq_iff split: option.split)

lemma leave_all_effect:
  "map_of (eg_joined (leave_all cs e)) k = (if k \<in> eng_keys cs then None else map_of (eg_joined e) k)"
  "eg_seen (leave_all cs e) k = (if k \<in> eng_keys cs then None else eg_seen e k)"
  "eg_adapters (leave_all cs e) = eg_adapters e" "eg_logging (leave_all cs e) = eg_logging e"
  unfolding leave_all_def eng_keys_def
  by (induction cs arbitrary: e) (simp_all add: Leave_effect)

lemma Join_effect:
  assumes "accepts e c"
  shows "map_of (eg_joined (snd (Join (spec_Ref c) mode e))) = (map_of (eg_joined e))(channelKey (spec_Ref c) \<mapsto> spec_Ref c)"
    and "eg_seen (snd (Join (spec_Ref c) mode e)) = eg_seen e" and "eg_adapters (snd (Join (spec_Ref c) mode e)) = eg_adapters e"
    and "eg_logging (snd (Join (spec_Ref c) mode e)) = eg_logging e"
proof -
  obtain a where a: "map_of (eg_adapters e) (ch_Platform (spec_Ref c)) = Some a" "\<And>mode. ad_Join a (spec_Ref c) mode = None"
    using assms by (auto simp: accepts_def spec_Ref_def)
  then show "map_of (eg_joined (snd (Join (spec_Ref c) mode e))) = (map_of (eg_joined e))(channelKey (spec_Ref c) \<mapsto> spec_Ref c)"
    and "eg_seen (snd (Join (spec_Ref c) mode e)) = eg_seen e" and "eg_adapters (snd (Join (spec_Ref c) mode e)) = eg_adapters e"
    and "eg_logging (snd (Join (spec_Ref c) mode e)) = eg_logging e"
    by (simp_all add: Join_def Let_def fun_eq_iff)
qed

lemma join_all_effect:
  assumes "\<forall>c \<in> set cs. accepts e c"
  shows "k \<notin> eng_keys cs \<Longrightarrow> map_of (eg_joined (join_all d cs e)) k = map_of (eg_joined e) k"
    and "k \<in> eng_keys cs \<Longrightarrow> map_of (eg_joined (join_all d cs e)) k \<noteq> None"
    and "eg_seen (join_all d cs e) = eg_seen e" and "eg_logging (join_all d cs e) = eg_logging e"
proof -
  have "(k \<notin> eng_keys cs \<longrightarrow> map_of (eg_joined (join_all d cs e)) k = map_of (eg_joined e) k)
      \<and> (k \<in> eng_keys cs \<or> map_of (eg_joined e) k \<noteq> None \<longrightarrow> map_of (eg_joined (join_all d cs e)) k \<noteq> None)
      \<and> eg_seen (join_all d cs e) = eg_seen e \<and> eg_logging (join_all d cs e) = eg_logging e"
    using assms
  proof (induction cs arbitrary: e)
    case Nil
    then show ?case by (simp add: join_all_def eng_keys_def)
  next
    case (Cons c cs)
    let ?e = "snd (Join (spec_Ref c) (effectiveMode d c) e)"
    have c: "accepts e c" using Cons.prems by simp
    note j = Join_effect [OF c, of "effectiveMode d c"]
    have "\<forall>x \<in> set cs. accepts ?e x" using Cons.prems j(3) by (simp add: accepts_def)
    note IH = Cons.IH [OF this]
    have step: "join_all d (c # cs) e = join_all d cs ?e" by (simp add: join_all_def)
    have keys: "eng_keys (c # cs) = insert (channelKey (spec_Ref c)) (eng_keys cs)" by (simp add: eng_keys_def)
    show ?case unfolding step keys using IH by (auto simp: j)
  qed
  then show "k \<notin> eng_keys cs \<Longrightarrow> map_of (eg_joined (join_all d cs e)) k = map_of (eg_joined e) k"
    and "k \<in> eng_keys cs \<Longrightarrow> map_of (eg_joined (join_all d cs e)) k \<noteq> None"
    and "eg_seen (join_all d cs e) = eg_seen e" and "eg_logging (join_all d cs e) = eg_logging e"
    by blast+
qed

text \<open>On lower-case slugs the manager's diff and the engine's keys agree.\<close>

lemma diff_keys:
  assumes "\<forall>c \<in> set (prev @ nxt). to_lower (sc_Slug c) = sc_Slug c" "diffChannels prev nxt = (add, remove)"
  shows "eng_keys add = eng_keys nxt - eng_keys prev" and "eng_keys remove = eng_keys prev - eng_keys nxt"
proof -
  have key: "channelKey (spec_Ref c) = spec_key c" if "c \<in> set (prev @ nxt)" for c
    using assms(1) that by (simp add: spec_engine_key)
  have all: "eng_keys cs = spec_key ` set cs" if "set cs \<subseteq> set (prev @ nxt)" for cs
    unfolding eng_keys_def by (rule image_cong) (use key that in auto)
  have "set add \<subseteq> set (prev @ nxt)" "set remove \<subseteq> set (prev @ nxt)" using assms(2) by (auto simp: diffChannels_def)
  then show "eng_keys add = eng_keys nxt - eng_keys prev" "eng_keys remove = eng_keys prev - eng_keys nxt"
    using assms(2) by (auto simp: all diffChannels_def)
qed


subsection \<open>Edits are durable\<close>

text \<open>
  What the manager relies on of the JSON codec: a document it encodes reads back as itself. Go's encoder
  replaces invalid UTF-8, so the law is asked of the documents in \<open>rep\<close> only.
\<close>

definition codec_law :: "doc_codec \<Rightarrow> (Doc \<Rightarrow> bool) \<Rightarrow> bool" where
  "codec_law cd rep \<longleftrightarrow> (\<forall>d raw. rep d \<and> cd_Marshal cd d = Some raw \<longrightarrow> raw \<noteq> [] \<and> cd_Unmarshal cd raw = Some d)"

text \<open>The calls on one manager: activations and deletions, failed ones included, and the edits
  that report success. The hosted-mode edits of the stored default profile bypass the active document and are not among them.\<close>

inductive profile_step :: "doc_codec \<Rightarrow> (string \<Rightarrow> regex option) \<Rightarrow> (Doc \<Rightarrow> bool) \<Rightarrow> 'g Manager \<Rightarrow> 'g Manager \<Rightarrow> bool"
  for cd compile_re rep where
  activate: "i \<noteq> [] \<Longrightarrow> Activate cd compile_re i m = (err, m') \<Longrightarrow> profile_step cd compile_re rep m m'"
| delete: "DeleteProfile i m = (err, m') \<Longrightarrow> profile_step cd compile_re rep m m'"
| add: "AddChannel cd now ch mode m = (None, m') \<Longrightarrow> rep (mg_active m') \<Longrightarrow> profile_step cd compile_re rep m m'"
| remove: "RemoveChannel cd now ch m = (None, m') \<Longrightarrow> rep (mg_active m') \<Longrightarrow> profile_step cd compile_re rep m m'"
| filters: "SetFilters cd compile_re now rules m = (None, m') \<Longrightarrow> rep (mg_active m') \<Longrightarrow> profile_step cd compile_re rep m m'"
| set_method: "SetMethod cd now p mode m = (None, m') \<Longrightarrow> rep (mg_active m') \<Longrightarrow> profile_step cd compile_re rep m m'"

definition stored_as :: "doc_codec \<Rightarrow> Memory \<Rightarrow> string \<Rightarrow> Doc \<Rightarrow> bool" where
  "stored_as cd r i d \<longleftrightarrow> (\<exists>p. Profiles_Get i r = Inr p \<and> Migrate cd (pf_Doc p) = Some d)"

definition workspace_ok :: "doc_codec \<Rightarrow> (string \<Rightarrow> regex option) \<Rightarrow> 'g Manager \<Rightarrow> bool" where
  "workspace_ok cd compile_re m \<longleftrightarrow> (mg_loaded m \<longrightarrow> mg_activeID m \<noteq> [] \<and> dc_Version (mg_active m) = CurrentVersion
     \<and> stored_as cd (repo m) (mg_activeID m) (mg_active m) \<and> Compile compile_re (dc_Filters (mg_active m)) = Inr (mg_rules m))"

lemma Migrate_version: "Migrate cd raw = Some d \<Longrightarrow> dc_Version d = CurrentVersion"
  by (auto simp: Migrate_def NewDoc_def Let_def split: option.splits if_splits)

lemma Update_stored:
  assumes "codec_law cd rep" "rep d" "dc_Version d = CurrentVersion" "cd_Marshal cd d = Some raw"
    and "Profiles_Update now i (Some raw) r = (Inr p, r')"
  shows "stored_as cd r' i d"
proof -
  have raw: "raw \<noteq> []" "cd_Unmarshal cd raw = Some d" using assms(1,2,4) by (auto simp: codec_law_def)
  have "d\<lparr>dc_Version := CurrentVersion\<rparr> = d" using assms(3) by (cases d) simp
  then have "Migrate cd (Some raw) = Some d" using raw assms(3) by (simp add: Migrate_def)
  then show ?thesis using assms(5) raw(1)
    by (auto simp: stored_as_def Profiles_Update_def Profiles_Get_def out_profile_def cloneJSON_def update_conv split: option.splits)
qed

text \<open>A successful save stores the active document and changes nothing else.\<close>

lemma save_stores:
  assumes "codec_law cd rep" "save cd now m = (None, m')" "rep (mg_active m')" "mg_activeID m \<noteq> []"
    and "dc_Version (mg_active m) = CurrentVersion" "Compile compile_re (dc_Filters (mg_active m)) = Inr (mg_rules m)"
  shows "workspace_ok cd compile_re m'"
proof -
  obtain raw p r where r: "cd_Marshal cd (mg_active m) = Some raw"
      "Profiles_Update now (mg_activeID m) (Some raw) (repo m) = (Inr p, r)" "m' = set_repo r m"
    using assms(2,4) by (auto simp: save_def split: option.splits sum.splits prod.splits)
  have "stored_as cd r (mg_activeID m) (mg_active m)"
    by (rule Update_stored [OF assms(1) _ assms(5) r(1,2)]) (use assms(3) r(3) in simp)
  then show ?thesis using assms(4-6) r(3) by (simp add: workspace_ok_def)
qed

lemma Activate_cases:
  assumes "Activate cd compile_re i m = (err, m')"
  obtains (switched) p doc rs where "err = None" "Profiles_Get i (repo m) = Inr p" "Migrate cd (pf_Doc p) = Some doc"
      "Compile compile_re (dc_Filters doc) = Inr rs" "repo m' = repo m" "mg_active m' = doc" "mg_activeID m' = i"
      "mg_loaded m'" "mg_rules m' = rs"
  | (failed) e where "err = Some e" "repo m' = repo m" "mg_active m' = mg_active m" "mg_activeID m' = mg_activeID m"
      "mg_loaded m' = mg_loaded m" "mg_rules m' = mg_rules m"
proof -
  have "repo (loggingControl b ret m) = repo m" for b ret by (simp add: loggingControl_def SetEnabled_def Let_def)
  then show thesis using assms switched failed
    by (auto simp: Activate_def loggingControl_def SetRuleset_def Let_def split_beta split: sum.splits option.splits)
qed

lemma workspace_loaded:
  assumes "workspace_ok cd compile_re m" "mg_loaded m"
  shows "mg_activeID m \<noteq> []" "dc_Version (mg_active m) = CurrentVersion"
    "stored_as cd (repo m) (mg_activeID m) (mg_active m)" "Compile compile_re (dc_Filters (mg_active m)) = Inr (mg_rules m)"
  using assms by (auto simp: workspace_ok_def)

lemma Activate_workspace:
  assumes "workspace_ok cd compile_re m" "i \<noteq> []" "Activate cd compile_re i m = (err, m')"
  shows "workspace_ok cd compile_re m'"
  using assms(3)
proof (cases rule: Activate_cases)
  case (switched p doc rs)
  then show ?thesis using assms(2) Migrate_version by (auto simp: workspace_ok_def stored_as_def)
qed (use assms(1) in \<open>simp add: workspace_ok_def\<close>)

lemma Delete_workspace:
  assumes "workspace_ok cd compile_re m" "DeleteProfile i m = (err, m')"
  shows "workspace_ok cd compile_re m'"
  using assms
  by (auto simp: DeleteProfile_def workspace_ok_def stored_as_def Profiles_Delete_def Profiles_Get_def delete_conv
      split: if_splits sum.splits option.splits prod.splits)

lemma step_workspace:
  assumes "profile_step cd compile_re rep m m'" "codec_law cd rep" "workspace_ok cd compile_re m"
  shows "workspace_ok cd compile_re m'"
  using assms
proof (induction rule: profile_step.induct)
  case (add now ch mode m m')
  then show ?case using workspace_loaded [of cd compile_re m]
    by (auto simp: AddChannel_def split: if_splits intro: save_stores)
next
  case (remove now ch m m')
  then show ?case using workspace_loaded [of cd compile_re m]
    by (auto simp: RemoveChannel_def Let_def split: if_splits intro: save_stores)
next
  case (filters now rules m m')
  then show ?case using workspace_loaded [of cd compile_re m]
    by (auto simp: SetFilters_def SetRuleset_def split: if_splits sum.splits intro: save_stores)
next
  case (set_method now p mode m m')
  then show ?case using workspace_loaded [of cd compile_re m]
    by (auto simp: SetMethod_def Let_def split: if_splits intro: save_stores)
qed (blast intro: Activate_workspace Delete_workspace)+

lemma steps_workspace:
  assumes "(profile_step cd compile_re rep)\<^sup>*\<^sup>* m m'" "codec_law cd rep" "workspace_ok cd compile_re m"
  shows "workspace_ok cd compile_re m'"
  using assms by (induction rule: rtranclp_induct) (auto intro: step_workspace)

text \<open>
  C10. A workspace survives a restart: after any sequence of activations, deletions and successful edits
  on a fresh manager, whatever profile is active can be activated by another manager on the same
  store, however that one was left; this succeeds and yields the same document (channels, pinned
  methods, filter rules, logging policy, layouts) and the same compiled ruleset. The JSON codec is assumed to read
  back the documents it writes.
\<close>

theorem workspace_restored:
  assumes "codec_law cd rep" "(profile_step cd compile_re rep)\<^sup>*\<^sup>* (NewManager e rs s w) m" "mg_loaded m" "repo m0 = repo m"
  shows "let (err, m1) = Activate cd compile_re (ActiveID m) m0
    in err = None \<and> mg_active m1 = mg_active m \<and> mg_rules m1 = mg_rules m \<and> ActiveID m1 = ActiveID m"
proof -
  have "workspace_ok cd compile_re m"
    by (rule steps_workspace [OF assms(2,1)]) (simp add: workspace_ok_def NewManager_def)
  from workspace_loaded(3,4) [OF this assms(3)]
  obtain p where p: "Profiles_Get (mg_activeID m) (repo m0) = Inr p" "Migrate cd (pf_Doc p) = Some (mg_active m)"
      "Compile compile_re (dc_Filters (mg_active m)) = Inr (mg_rules m)"
    using assms(4) by (auto simp: stored_as_def)
  obtain err m1 where act: "Activate cd compile_re (mg_activeID m) m0 = (err, m1)" by fastforce
  have "err = None" using p act by (simp add: Activate_def Let_def split_beta)
  with act have "mg_active m1 = mg_active m \<and> mg_rules m1 = mg_rules m \<and> mg_activeID m1 = mg_activeID m"
    by (cases rule: Activate_cases) (use p in auto)
  then show ?thesis using act \<open>err = None\<close> by (simp add: ActiveID_def)
qed

subsection \<open>Two ways a switch goes wrong\<close>

definition spec :: "string \<Rightarrow> ChannelSpec" where
  "spec slug = \<lparr>sc_Platform = Twitch, sc_Slug = slug, sc_Mode = []\<rparr>"

text \<open>A codec of two documents, for the examples: one lists the channel \<open>forsen\<close>, the other has a bad filter.\<close>

definition doc_forsen :: Doc where
  "doc_forsen = NewDoc\<lparr>dc_Channels := [spec ''forsen'']\<rparr>"

definition doc_broken :: Doc where
  "doc_broken = doc_forsen\<lparr>dc_Filters := [\<lparr>ru_ID = ''r'', ru_Action = ActionHide,
     ru_Match = \<lparr>mt_Platforms = [], mt_Channels = [], mt_Authors = [], mt_Types = [], mt_Keywords = [], mt_Regexes = [''('']\<rparr>\<rparr>]\<rparr>"

definition small_codec :: doc_codec where
  "small_codec = \<lparr>cd_Marshal = (\<lambda>_. None),
     cd_Unmarshal = (\<lambda>s. if s = ''f'' then Some doc_forsen else if s = ''b'' then Some doc_broken else None)\<rparr>"

definition example_store :: Memory where
  "example_store = snd (Profiles_Create 1 ''broken'' (Some ''b'') (snd (Profiles_Create 0 ''forsen'' (Some ''f'') NewMemory)))"

definition started :: "string list \<Rightarrow> unit Manager" where
  "started slugs =
    (let e = Register (quiet_adapter Twitch) (New ());
         e = fold (\<lambda>s e. snd (Join (spec_Ref (spec s)) ModeAutomatic e)) slugs e
     in (NewManager e [] (NewSink example_store) \<lparr>sw_retain = 0\<rparr>)\<lparr>mg_active := NewDoc\<lparr>dc_Channels := map spec slugs\<rparr>, mg_loaded := True\<rparr>)"

lemma example_store_Get:
  "Profiles_Get (''prof_'' @ pad20 1) example_store = Inr \<lparr>pf_ID = ''prof_'' @ pad20 1, pf_Name = ''forsen'',
     pf_Doc = Some ''f'', pf_IsDefault = True, pf_CreatedAt = 0, pf_UpdatedAt = 0\<rparr>" (is ?first)
  "Profiles_Get (''prof_'' @ pad20 2) example_store = Inr \<lparr>pf_ID = ''prof_'' @ pad20 2, pf_Name = ''broken'',
     pf_Doc = Some ''b'', pf_IsDefault = False, pf_CreatedAt = 1, pf_UpdatedAt = 1\<rparr>" (is ?second)
proof -
  have "pad20 1 \<noteq> pad20 2" using pad20_inj [of 1 2] by auto
  moreover have "wrap64 1 = 1" "wrap64 2 = 2" by (simp_all add: wrap64_def)
  ultimately show ?first ?second
    by (auto simp: example_store_def Let_def Profiles_Create_def nextID_def NewMemory_def Profiles_Get_def
        out_profile_def cloneJSON_def)
qed

lemma started_repo: "repo (started slugs) = example_store"
  by (simp add: started_def Let_def NewManager_def NewSink_def)

lemma started_store:
  "Profiles_Get i example_store = x \<Longrightarrow> Profiles_Get i (repo (started slugs)) = x"
  by (simp add: started_repo)

lemma started_docs:
  "Migrate small_codec (Some ''f'') = Some doc_forsen" "Migrate small_codec (Some ''b'') = Some doc_broken"
  "Compile (\<lambda>_. None) (dc_Filters doc_forsen) = Inr []" "isl (Compile (\<lambda>_. None) (dc_Filters doc_broken))"
  by (simp_all add: Migrate_def small_codec_def doc_forsen_def doc_broken_def NewDoc_def)

lemma started_manager:
  "mg_active (started slugs) = NewDoc\<lparr>dc_Channels := map spec slugs\<rparr>" "mg_loaded (started slugs)"
  "mg_engine (started slugs) = fold (\<lambda>s e. snd (Join (spec_Ref (spec s)) ModeAutomatic e)) slugs
     (Register (quiet_adapter Twitch) (New ()))"
  by (simp_all add: started_def Let_def NewManager_def)

lemmas engine_eval = started_manager Register_def New_def Join_def Leave_def quiet_adapter_def Let_def
  channelKey_def ChannelRef_Key_def spec_Ref_def spec_def to_lower_def ascii_lower_def


text \<open>A codec that also writes one document, the one with a second channel.\<close>

definition doc_two :: Doc where
  "doc_two = doc_forsen\<lparr>dc_Channels := [spec ''forsen'', spec ''xqc'']\<rparr>"

definition writing_codec :: doc_codec where
  "writing_codec = \<lparr>cd_Marshal = (\<lambda>d. if d = doc_two then Some ''t'' else None),
     cd_Unmarshal = (\<lambda>s. if s = ''t'' then Some doc_two else cd_Unmarshal small_codec s)\<rparr>"

lemma writing_codec_law: "codec_law writing_codec (\<lambda>d. d = doc_two)"
  by (simp add: codec_law_def writing_codec_def)

definition fresh_manager :: "LogSink \<Rightarrow> unit Manager" where
  "fresh_manager s = NewManager (New ()) [] s \<lparr>sw_retain = 0\<rparr>"

definition edited :: "unit Manager" where
  "edited = snd (AddChannel writing_codec 5 (spec_Ref (spec ''xqc'')) []
     (snd (Activate writing_codec (\<lambda>_. None) (''prof_'' @ pad20 1) (fresh_manager (NewSink example_store)))))"

theorem workspace_restored_witness:
  "mg_active edited = doc_two
   \<and> (let (err, m1) = Activate writing_codec (\<lambda>_. None) (ActiveID edited) (fresh_manager (mg_sink edited))
      in err = None \<and> mg_active m1 = doc_two)"
proof -
  let ?m0 = "fresh_manager (NewSink example_store)" and ?i = "''prof_'' @ pad20 1"
  obtain err m1 where m1: "Activate writing_codec (\<lambda>_. None) ?i ?m0 = (err, m1)" by fastforce
  have get: "Profiles_Get ?i (repo ?m0) = Inr \<lparr>pf_ID = ?i, pf_Name = ''forsen'', pf_Doc = Some ''f'',
      pf_IsDefault = True, pf_CreatedAt = 0, pf_UpdatedAt = 0\<rparr>"
    using example_store_Get(1) by (simp add: fresh_manager_def NewManager_def NewSink_def)
  have doc: "Migrate writing_codec (Some ''f'') = Some doc_forsen"
    using started_docs(1) by (simp add: Migrate_def writing_codec_def split: option.splits)
  have "err = None" using m1 get doc started_docs(3) by (simp add: Activate_def Let_def split_beta)
  with m1 have a: "mg_active m1 = doc_forsen" "mg_activeID m1 = ?i" "mg_loaded m1" "repo m1 = example_store"
    by (cases rule: Activate_cases; use get doc in \<open>simp add: fresh_manager_def NewManager_def NewSink_def\<close>)+
  have two: "doc_forsen\<lparr>dc_Channels := [spec ''forsen'', spec ''xqc'']\<rparr> = doc_two" by (simp add: doc_two_def)
  have writes: "cd_Marshal writing_codec doc_two = Some ''t''" by (simp add: writing_codec_def)
  obtain p where p: "map_of (me_profiles example_store) ?i = Some p"
    using example_store_Get(1) by (cases "map_of (me_profiles example_store) ?i") (auto simp: Profiles_Get_def)
  have "\<not> list_ex (\<lambda>c. spec_key c = prof_channelKey (ch_Platform (spec_Ref (spec ''xqc''))) (ch_Slug (spec_Ref (spec ''xqc''))))
      (dc_Channels doc_forsen)" "dc_Channels doc_forsen = [spec ''forsen'']"
    "\<lparr>sc_Platform = ch_Platform (spec_Ref (spec ''xqc'')), sc_Slug = ch_Slug (spec_Ref (spec ''xqc'')), sc_Mode = []\<rparr> = spec ''xqc''"
    by (simp_all add: doc_forsen_def spec_def spec_Ref_def prof_channelKey_def)
  then have add: "AddChannel writing_codec 5 (spec_Ref (spec ''xqc'')) [] m1 = (None, edited) \<and> mg_active edited = doc_two \<and> mg_loaded edited"
    unfolding edited_def m1 snd_conv using a p writes by (simp add: AddChannel_def save_def two Profiles_Update_def Let_def)
  have "(profile_step writing_codec (\<lambda>_. None) (\<lambda>d. d = doc_two))\<^sup>*\<^sup>* ?m0 edited"
    by (rule rtranclp_trans [OF r_into_rtranclp r_into_rtranclp],
        rule profile_step.activate [OF _ m1], simp, rule profile_step.add) (use add in auto)
  then show ?thesis
    using workspace_restored [OF writing_codec_law, of "\<lambda>_. None" "New ()" "[]" "NewSink example_store" "\<lparr>sw_retain = 0\<rparr>"
        edited "fresh_manager (mg_sink edited)"] add
    by (simp add: fresh_manager_def NewManager_def Let_def split_beta)
qed

text \<open>
  The manager compares slugs exactly, the engine ignores their case. A profile that lists a channel in
  two spellings, left for one that lists it in lower case, leaves the channel although both list it.
\<close>

theorem case_split_leaves:
  "let (err, m') = Activate small_codec (\<lambda>_. None) (''prof_'' @ pad20 1) (started [''Forsen'', ''forsen''])
   in err = None \<and> eg_joined (mg_engine (started [''Forsen'', ''forsen''])) \<noteq> [] \<and> eg_joined (mg_engine m') = []"
proof -
  have "char_of (102 :: nat) = CHR ''f''" by code_simp
  then show ?thesis
    unfolding Activate_def started_repo example_store_Get
  by (simp add: started_docs loggingControl_def SetLogging_def diffChannels_def join_all_def
      leave_all_def doc_forsen_def NewDoc_def engine_eval prof_channelKey_def effectiveMode_def)
qed

text \<open>
  Activation is not atomic: the filters are compiled after the channels were joined and the logging
  policy set. If they do not compile, the old profile stays the active one while the engine is
  joined to the new one's channels, which no later switch will leave.
\<close>

theorem failed_switch_joins:
  "let (err, m') = Activate small_codec (\<lambda>_. None) (''prof_'' @ pad20 2) (started [''old''])
   in err \<noteq> None \<and> mg_active m' = mg_active (started [''old'']) \<and> map fst (eg_joined (mg_engine m')) = [''twitch:forsen'']"
    unfolding Activate_def started_repo example_store_Get
  by (simp add: started_docs small_codec_def Migrate_def loggingControl_def SetLogging_def diffChannels_def join_all_def
      leave_all_def doc_broken_def doc_forsen_def NewDoc_def engine_eval prof_channelKey_def effectiveMode_def)

end
