(* ===== verification/Twitch_Normalize.thy ===== *)
theory Twitch_Normalize
  imports Irc Segment
begin

text \<open>
  \<^verbatim>\<open>internal/platform/twitch/normalize.go\<close> and \<^verbatim>\<open>events.go\<close>: from a parsed IRC line to the event it stands
  for. \<^verbatim>\<open>sort.Slice\<close> leaves the order of emote spans with equal starts open; the model takes the stable
  one, and the properties hold for the spans in any order. The cheermote pattern
  \<^verbatim>\<open>^([A-Za-z]+)([1-9][0-9]*)$\<close> is the function \<open>cheer_digits\<close>.
\<close>

subsection \<open>Tags\<close>

text \<open>Reading an absent key, or a nil map, gives the empty string.\<close>

definition tag_opt :: "ircMessage \<Rightarrow> string \<Rightarrow> string option" where
  "tag_opt m k = (case ir_tags m of None \<Rightarrow> None | Some ts \<Rightarrow> map_of ts k)"

definition tag :: "ircMessage \<Rightarrow> string \<Rightarrow> string" where
  "tag m k = (case tag_opt m k of None \<Rightarrow> [] | Some v \<Rightarrow> v)"

text \<open>\<^verbatim>\<open>strings.Cut\<close> with its flag dropped, and \<^verbatim>\<open>strconv.Atoi\<close> with its error dropped: 0 on bad syntax, the nearest
  bound when out of range.\<close>

definition cut_or :: "char \<Rightarrow> string \<Rightarrow> string \<times> string" where
  "cut_or c s = (case cut_at c s of None \<Rightarrow> (s, []) | Some p \<Rightarrow> p)"

definition atoi_value :: "string \<Rightarrow> int" where
  "atoi_value s =
    (let neg = has_prefix s ''-''; body = (if neg \<or> has_prefix s ''+'' then tl s else s)
     in if body = [] \<or> \<not> list_all is_digit body then 0
        else max (- (2 ^ 63)) (min (2 ^ 63 - 1) (if neg then - digits_val body else digits_val body)))"

definition channelSlug :: "ircMessage \<Rightarrow> string" where
  "channelSlug m = (case ir_params m of [] \<Rightarrow> []
     | p # _ \<Rightarrow> if has_prefix p ''#'' then tl p else p)"

definition chanRef :: "ircMessage \<Rightarrow> ChannelRef" where
  "chanRef m = \<lparr>ch_Platform = Twitch, ch_ID = [], ch_Slug = channelSlug m, ch_DisplayName = []\<rparr>"

definition parseSentTS :: "string \<Rightarrow> time" where
  "parseSentTS v = (if v = [] then zero_time
     else (case atoi v of None \<Rightarrow> zero_time | Some ms \<Rightarrow> ms * millisecond))"

definition twitch_parseBadges :: "string \<Rightarrow> Badge list" where
  "twitch_parseBadges v = (if v = [] then []
     else map (\<lambda>p. case cut_or CHR ''/'' p of (badge, version) \<Rightarrow>
         \<lparr>bd_Set = badge, bd_Version = version, bd_Title = [], bd_URL = []\<rparr>)
       (filter (\<lambda>p. fst (cut_or CHR ''/'' p) \<noteq> []) (split_on CHR '','' v)))"

subsection \<open>Emotes\<close>

record emoteSpan =
  sp_id :: string
  sp_start :: int
  sp_end :: int

definition parse_range :: "string \<Rightarrow> string \<Rightarrow> emoteSpan list" where
  "parse_range i r = (case cut_at CHR ''-'' r of
     None \<Rightarrow> []
   | Some (lo, hi) \<Rightarrow> (case (atoi lo, atoi hi) of
       (Some s, Some e) \<Rightarrow> [\<lparr>sp_id = i, sp_start = s, sp_end = e\<rparr>]
     | _ \<Rightarrow> []))"

definition parseEmotes :: "string \<Rightarrow> emoteSpan list" where
  "parseEmotes v = (if v = [] then []
     else sort_key sp_start (concat (map (\<lambda>group. case cut_at CHR '':'' group of
         None \<Rightarrow> []
       | Some (i, ranges) \<Rightarrow> concat (map (parse_range i) (split_on CHR '','' ranges)))
       (split_on CHR ''/'' v))))"

definition emoteURL :: "string \<Rightarrow> string" where
  "emoteURL i = ''https://static-cdn.jtvnw.net/emoticons/v2/'' @ i @ ''/default/dark/{size}''"

definition emote_seg :: "string \<Rightarrow> string \<Rightarrow> Segment" where
  "emote_seg i name = (seg SegEmote name)\<lparr>sg_Emote := Some \<lparr>em_Provider = ''twitch'', em_ID = i, em_Name = name,
     em_URLTemplate = emoteURL i, em_Animated = False\<rparr>\<rparr>"

text \<open>\<open>rune_slice i j rs\<close> is \<^verbatim>\<open>string(runes[i:j])\<close>.\<close>

definition rune_slice :: "nat \<Rightarrow> nat \<Rightarrow> (nat \<times> string) list \<Rightarrow> string" where
  "rune_slice i j rs = string_of_runes (drop i (take j rs))"

fun span_segs :: "(nat \<times> string) list \<Rightarrow> nat \<Rightarrow> emoteSpan list \<Rightarrow> Segment list" where
  "span_segs rs cursor [] = (if cursor < length rs then Text (string_of_runes (drop cursor rs)) else [])"
| "span_segs rs cursor (sp # sps) =
    (if sp_start sp < 0 \<or> sp_end sp \<ge> int (length rs) \<or> sp_start sp > sp_end sp \<or> sp_start sp < int cursor
     then span_segs rs cursor sps
     else (if sp_start sp > int cursor then Text (rune_slice cursor (nat (sp_start sp)) rs) else [])
       @ emote_seg (sp_id sp) (rune_slice (nat (sp_start sp)) (nat (sp_end sp) + 1) rs)
       # span_segs rs (nat (sp_end sp) + 1) sps)"

definition buildSegments :: "string \<Rightarrow> emoteSpan list \<Rightarrow> Segment list" where
  "buildSegments text emotes = (if emotes = [] then Text text else span_segs (runes text) 0 emotes)"

subsection \<open>Cheers\<close>

definition is_letter :: "char \<Rightarrow> bool" where
  "is_letter c = ((65 \<le> byte c \<and> byte c \<le> 90) \<or> (97 \<le> byte c \<and> byte c \<le> 122))"

definition cheer_digits :: "string \<Rightarrow> string option" where
  "cheer_digits tok =
    (let ds = dropWhile is_letter tok
     in if takeWhile is_letter tok \<noteq> [] \<and> ds \<noteq> [] \<and> hd ds \<noteq> CHR ''0'' \<and> list_all is_digit ds then Some ds else None)"

definition cheer_token :: "string \<Rightarrow> (Segment \<times> string) option" where
  "cheer_token word = (case cheer_digits word of
     None \<Rightarrow> None
   | Some ds \<Rightarrow> Some ((seg SegCheer word)\<lparr>sg_CheerBits := atoi_value ds\<rparr>, []))"

definition splitTextCheers :: "string \<Rightarrow> Segment list" where
  "splitTextCheers s = carve cheer_token [] (tokens s)"

definition cheer_sum :: "Segment list \<Rightarrow> int" where
  "cheer_sum segs = fold (\<lambda>tok sum. case cheer_digits tok of None \<Rightarrow> sum | Some ds \<Rightarrow> wrap64 (sum + atoi_value ds))
     (concat (map (\<lambda>s. Go_Values.fields (sg_Text s)) (filter (\<lambda>s. sg_Kind s = SegText) segs))) 0"

definition splitCheers :: "Segment list \<Rightarrow> int \<Rightarrow> Segment list" where
  "splitCheers segs bits =
    (if cheer_sum segs \<noteq> bits then segs
     else concat (map (\<lambda>s. if sg_Kind s \<noteq> SegText then [s] else splitTextCheers (sg_Text s)) segs))"

subsection \<open>Messages\<close>

text \<open>The CTCP wrapper of a \<^verbatim>\<open>/me\<close> message.\<close>

definition actionPrefix :: string where
  "actionPrefix = CHR 0x01 # ''ACTION ''"

definition isAction :: "string \<Rightarrow> bool" where
  "isAction text = (has_prefix text actionPrefix \<and> text \<noteq> [] \<and> last text = CHR 0x01
     \<and> length text \<ge> length actionPrefix + 1)"

definition visible_text :: "string \<Rightarrow> string" where
  "visible_text text = (if isAction text then drop (length actionPrefix) (butlast text) else text)"

definition normalizePrivmsg :: "ircMessage \<Rightarrow> UnifiedMessage" where
  "normalizePrivmsg m =
    (let text = visible_text (ir_tr m);
         login = nick m;
         display = (if tag m ''display-name'' = [] then login else tag m ''display-name'');
         segs = buildSegments text (parseEmotes (tag m ''emotes''));
         bits = atoi_value (tag m ''bits'');
         segs = (if bits > 0 then splitCheers segs bits else segs);
         msg = \<lparr>um_ID = [], um_PlatformMessageID = tag m ''id'', um_Platform = Twitch, um_Channel = chanRef m,
           um_Type = (if isAction (ir_tr m) then TypeAction else TypeChat),
           um_Author = \<lparr>au_ID = tag m ''user-id'', au_Login = login, au_DisplayName = display,
             au_Color = tag m ''color'', au_Badges = twitch_parseBadges (tag m ''badges'')\<rparr>,
           um_Segments = segs,
           um_ReplyTo = (if tag m ''reply-parent-msg-id'' \<noteq> []
             then Some \<lparr>mr_PlatformMessageID = tag m ''reply-parent-msg-id'',
               mr_AuthorLogin = tag m ''reply-parent-user-login'', mr_TextSnippet = tag m ''reply-parent-msg-body''\<rparr>
             else None),
           um_SentAt = parseSentTS (tag m ''tmi-sent-ts''), um_ReceivedAt = zero_time, um_Ephemeral = False,
           um_Raw = [], um_Annotations = None\<rparr>
     in if tag m ''first-msg'' = ''1'' then Annotate (\<lambda>a. a\<lparr>an_FirstTime := True\<rparr>) msg else msg)"

definition usernoticeTypes :: "(string \<times> MessageType) list" where
  "usernoticeTypes = [(''sub'', TypeSub), (''resub'', TypeResub), (''subgift'', TypeGiftSub),
     (''anonsubgift'', TypeGiftSub), (''submysterygift'', TypeGiftSub), (''raid'', TypeRaid),
     (''announcement'', TypeAnnouncement)]"

definition normalizeUsernotice :: "ircMessage \<Rightarrow> UnifiedMessage" where
  "normalizeUsernotice m =
    (let login = tag m ''login'' in
     \<lparr>um_ID = [], um_PlatformMessageID = tag m ''id'', um_Platform = Twitch, um_Channel = chanRef m,
      um_Type = (case map_of usernoticeTypes (tag m ''msg-id'') of Some t \<Rightarrow> t | None \<Rightarrow> TypeSystem),
      um_Author = \<lparr>au_ID = tag m ''user-id'', au_Login = login,
        au_DisplayName = (if tag m ''display-name'' = [] then login else tag m ''display-name''),
        au_Color = tag m ''color'', au_Badges = twitch_parseBadges (tag m ''badges'')\<rparr>,
      um_Segments = (if ir_tr m \<noteq> [] then buildSegments (ir_tr m) (parseEmotes (tag m ''emotes''))
        else Text (tag m ''system-msg'')),
      um_ReplyTo = None, um_SentAt = parseSentTS (tag m ''tmi-sent-ts''), um_ReceivedAt = zero_time,
      um_Ephemeral = False, um_Raw = [], um_Annotations = None\<rparr>)"

definition clearTarget :: "ircMessage \<Rightarrow> string" where
  "clearTarget m = (if tag m ''target-user-id'' \<noteq> [] then tag m ''target-user-id'' else ir_tr m)"

definition parseRoomState :: "ircMessage \<Rightarrow> ChatSettings" where
  "parseRoomState m =
    (let flag = (\<lambda>k. tag_opt m k = Some ''1'');
         number = (\<lambda>k d. case tag_opt m k of None \<Rightarrow> d
           | Some v \<Rightarrow> (case atoi v of None \<Rightarrow> d | Some n \<Rightarrow> n))
     in \<lparr>cs_EmoteOnly = flag ''emote-only'', cs_SubsOnly = flag ''subs-only'', cs_UniqueChat = flag ''r9k'',
         cs_FollowersOnlyMinutes = number ''followers-only'' (- 1), cs_SlowSeconds = number ''slow'' 0\<rparr>)"

definition eventFromLine :: "ircMessage \<Rightarrow> Event option" where
  "eventFromLine m =
    (if ir_command m = ''PRIVMSG'' then Some (MessageEvent (normalizePrivmsg m))
     else if ir_command m = ''USERNOTICE'' then Some (MessageEvent (normalizeUsernotice m))
     else if ir_command m = ''CLEARMSG'' then Some (MessageDeletedEvent (chanRef m) (tag m ''target-msg-id'') [])
     else if ir_command m = ''CLEARCHAT'' then Some (ChannelClearEvent (chanRef m) (clearTarget m))
     else if ir_command m = ''ROOMSTATE'' then Some (ChatSettingsEvent (chanRef m) (parseRoomState m))
     else None)"

text \<open>One turn of a shard's read loop: the line written back and the event emitted, if any.\<close>

definition read_line :: "string \<Rightarrow> string option \<times> Event option" where
  "read_line line = (case parseLine line of
     None \<Rightarrow> (None, None)
   | Some m \<Rightarrow> if ir_command m = ''PING'' then (Some (''PONG :'' @ ir_tr m), None) else (None, eventFromLine m))"

subsection \<open>Nothing typed is lost\<close>

lemma Text_exact [simp]: "seg_text (Text s) = s"
  by (simp add: Text_def text_carver.carve_exact)

interpretation cheer_carver: carver cheer_token
  by unfold_locales (auto simp: cheer_token_def cheer_digits_def Let_def split: option.splits if_splits)

lemma splitTextCheers_exact [simp]: "seg_text (splitTextCheers s) = s"
  by (simp add: splitTextCheers_def cheer_carver.carve_exact)

lemma splitCheers_exact [simp]: "seg_text (splitCheers segs bits) = seg_text segs"
proof -
  have "seg_text (concat (map (\<lambda>s. if sg_Kind s \<noteq> SegText then [s] else splitTextCheers (sg_Text s)) segs)) = seg_text segs"
    by (induction segs) auto
  then show ?thesis by (simp add: splitCheers_def)
qed

lemma rune_slice_join: "i \<le> j \<Longrightarrow> rune_slice i j rs @ string_of_runes (drop j rs) = string_of_runes (drop i rs)"
proof -
  assume "i \<le> j"
  then have "drop i rs = drop i (take j rs) @ drop j rs"
    by (metis append_take_drop_id drop_append drop_drop take_drop add.commute le_add_diff_inverse)
  then show ?thesis by (simp add: rune_slice_def flip: string_of_runes_append)
qed

lemma rune_slice_split: "i \<le> j \<Longrightarrow> j \<le> k \<Longrightarrow> rune_slice i j rs @ rune_slice j k rs = rune_slice i k rs"
  using rune_slice_join [of i j "take k rs"] by (simp add: rune_slice_def min_def)

lemma span_segs_exact: "seg_text (span_segs rs cursor sps) = string_of_runes (drop cursor rs)"
proof (induction rs cursor sps rule: span_segs.induct)
  case (1 rs cursor)
  then show ?case by (simp add: string_of_runes_def)
next
  case (2 rs cursor sp sps)
  show ?case
  proof (cases "sp_start sp < 0 \<or> sp_end sp \<ge> int (length rs) \<or> sp_start sp > sp_end sp \<or> sp_start sp < int cursor")
    case False
    then have le: "cursor \<le> nat (sp_start sp)" "nat (sp_start sp) \<le> nat (sp_end sp) + 1" by linarith+
    have "rune_slice (nat (sp_start sp)) (nat (sp_end sp) + 1) rs @ string_of_runes (drop (nat (sp_end sp) + 1) rs)
        = string_of_runes (drop (nat (sp_start sp)) rs)"
      by (rule rune_slice_join [OF le(2)])
    moreover have "rune_slice cursor (nat (sp_start sp)) rs @ string_of_runes (drop (nat (sp_start sp)) rs)
        = string_of_runes (drop cursor rs)"
      by (rule rune_slice_join [OF le(1)])
    moreover have "sp_start sp > int cursor \<or> nat (sp_start sp) = cursor" using False by linarith
    ultimately show ?thesis using 2(2) [OF False] False by (auto simp: emote_seg_def)
  qed (use 2 in simp)
qed

lemma buildSegments_exact:
  "seg_text (buildSegments s sps) = (if sps = [] then s else string_of_runes (runes s))"
  by (simp add: buildSegments_def span_segs_exact)

subsection \<open>Where emotes and cheers come from\<close>

lemma Text_kinds: "x \<in> set (Text s) \<Longrightarrow> sg_Kind x \<in> {SegText, SegLink, SegMention}"
  using text_carver.carve_emitted [of x "[]" "tokens s"]
  by (cases "sg_Kind x = SegText") (auto simp: Text_def text_token_def Let_def split: if_splits)

definition marks :: "(nat \<times> string) list \<Rightarrow> emoteSpan \<Rightarrow> Segment \<Rightarrow> bool" where
  "marks rs sp x \<longleftrightarrow> 0 \<le> sp_start sp \<and> sp_start sp \<le> sp_end sp \<and> sp_end sp < int (length rs)
     \<and> x = emote_seg (sp_id sp) (rune_slice (nat (sp_start sp)) (nat (sp_end sp) + 1) rs)"

lemma span_segs_kinds:
  "x \<in> set (span_segs rs cursor sps) \<Longrightarrow>
    sg_Kind x \<in> {SegText, SegLink, SegMention} \<or> (\<exists>sp \<in> set sps. marks rs sp x)"
proof (induction rs cursor sps rule: span_segs.induct)
  case (2 rs cursor sp sps)
  then show ?case by (auto simp: marks_def split: if_splits dest: Text_kinds)
qed (auto split: if_splits dest: Text_kinds)

lemma buildSegments_kinds:
  "x \<in> set (buildSegments s sps) \<Longrightarrow>
    sg_Kind x \<in> {SegText, SegLink, SegMention} \<or> (\<exists>sp \<in> set sps. marks (runes s) sp x)"
  by (auto simp: buildSegments_def split: if_splits dest: Text_kinds span_segs_kinds)

definition cheer_seg :: "Segment \<Rightarrow> bool" where
  "cheer_seg x \<longleftrightarrow> (\<exists>ds. cheer_digits (sg_Text x) = Some ds \<and> x = (seg SegCheer (sg_Text x))\<lparr>sg_CheerBits := atoi_value ds\<rparr>)"

lemma cheer_seg_kind: "cheer_seg x \<Longrightarrow> sg_Kind x = SegCheer"
  unfolding cheer_seg_def by (metis Segment.select_convs(1) Segment.update_convs(4))

lemma splitTextCheers_kinds: "x \<in> set (splitTextCheers s) \<Longrightarrow> sg_Kind x = SegText \<or> cheer_seg x"
  using cheer_carver.carve_emitted [of x "[]" "tokens s"]
  by (cases "sg_Kind x = SegText") (auto simp: splitTextCheers_def cheer_token_def cheer_seg_def split: option.splits)

lemma splitCheers_kinds:
  "x \<in> set (splitCheers segs bits) \<Longrightarrow> x \<in> set segs \<or> sg_Kind x = SegText \<or> (cheer_seg x \<and> cheer_sum segs = bits)"
  by (auto simp: splitCheers_def split: if_splits dest: splitTextCheers_kinds)

lemma privmsg_segs:
  "um_Segments (normalizePrivmsg m) =
    (let segs = buildSegments (visible_text (ir_tr m)) (parseEmotes (tag m ''emotes''))
     in if atoi_value (tag m ''bits'') > 0 then splitCheers segs (atoi_value (tag m ''bits'')) else segs)"
  by (simp add: normalizePrivmsg_def Let_def)

text \<open>
  A chat message says what was typed: if its text (without the wrapper of a \<open>/me\<close>) is valid UTF-8,
  the plain text of the normalized message is that text, byte for byte, however the emote and bits
  tags are written; every emote segment is a well-formed range of the emotes tag, with that range's
  characters as its name; a cheer segment occurs only when the message carries bits and the
  amounts of all its cheer-like words add up to them, and it is such a word with its amount.
\<close>

theorem privmsg_segments:
  assumes "valid_utf8 (visible_text (ir_tr m))"
  shows "PlainText (normalizePrivmsg m) = visible_text (ir_tr m)
    \<and> (\<forall>x \<in> set (um_Segments (normalizePrivmsg m)). sg_Kind x = SegEmote \<longrightarrow>
         (\<exists>sp \<in> set (parseEmotes (tag m ''emotes'')). marks (runes (visible_text (ir_tr m))) sp x))
    \<and> (\<forall>x \<in> set (um_Segments (normalizePrivmsg m)). sg_Kind x = SegCheer \<longrightarrow>
         cheer_seg x \<and> 0 < atoi_value (tag m ''bits'')
         \<and> cheer_sum (buildSegments (visible_text (ir_tr m)) (parseEmotes (tag m ''emotes''))) = atoi_value (tag m ''bits''))"
proof (intro conjI ballI impI)
  let ?segs = "buildSegments (visible_text (ir_tr m)) (parseEmotes (tag m ''emotes''))"
  have "seg_text ?segs = visible_text (ir_tr m)"
    using assms by (simp add: buildSegments_exact string_of_runes_valid)
  then show "PlainText (normalizePrivmsg m) = visible_text (ir_tr m)"
    by (simp add: PlainText_def privmsg_segs Let_def)
  fix x
  assume x: "x \<in> set (um_Segments (normalizePrivmsg m))"
  show "\<exists>sp \<in> set (parseEmotes (tag m ''emotes'')). marks (runes (visible_text (ir_tr m))) sp x" if "sg_Kind x = SegEmote"
    using x that by (auto simp: privmsg_segs Let_def split: if_splits
        dest!: splitCheers_kinds buildSegments_kinds cheer_seg_kind)
  assume "sg_Kind x = SegCheer"
  then have "x \<notin> set ?segs" by (auto dest!: buildSegments_kinds simp: marks_def emote_seg_def)
  then have "x \<in> set (splitCheers ?segs (atoi_value (tag m ''bits'')))" and pos: "0 < atoi_value (tag m ''bits'')"
    using x by (auto simp: privmsg_segs Let_def split: if_splits)
  then have c: "cheer_seg x \<and> cheer_sum ?segs = atoi_value (tag m ''bits'')"
    using \<open>x \<notin> set ?segs\<close> \<open>sg_Kind x = SegCheer\<close> by (auto dest: splitCheers_kinds)
  then show "cheer_seg x" "cheer_sum ?segs = atoi_value (tag m ''bits'')" by simp_all
  show "0 < atoi_value (tag m ''bits'')" by (rule pos)
qed

definition cheer_line :: ircMessage where
  "cheer_line = \<lparr>ir_tags = Some [(''emotes'', ''25:0-4''), (''bits'', ''100'')], ir_prefix = ''ann!ann@x'', ir_command = ''PRIVMSG'',
     ir_params = [''#v''], ir_tr = ''Kappa Cheer100 yes''\<rparr>"

theorem privmsg_segments_witness:
  "PlainText (normalizePrivmsg cheer_line) = ''Kappa Cheer100 yes''
    \<and> map sg_Kind (um_Segments (normalizePrivmsg cheer_line)) = [SegEmote, SegText, SegCheer, SegText]"
proof -
  have "valid_utf8 (visible_text (ir_tr cheer_line))" "visible_text (ir_tr cheer_line) = ''Kappa Cheer100 yes''"
    "map sg_Kind (um_Segments (normalizePrivmsg cheer_line)) = [SegEmote, SegText, SegCheer, SegText]"
    by (code_simp, code_simp, code_simp)
  then show ?thesis using privmsg_segments [of cheer_line] by simp
qed

end
