(* ===== verification/Twitch_Shard.thy ===== *)
theory Twitch_Shard
  imports Twitch_Normalize "HOL-Library.Word"
begin

unbundle bit_operations_syntax

text \<open>
  \<^verbatim>\<open>internal/platform/twitch/shard.go\<close> and \<^verbatim>\<open>backoff.go\<close>: one IRC connection, its channels, and the supervisor
  that reads it and reconnects. The steps are the critical sections and single I/O calls of the
  goroutines (the supervisor, and any number of callers of \<^verbatim>\<open>join\<close> and \<^verbatim>\<open>leave\<close>, which write after they
  have released the lock). The network is an argument: every dial may fail, every connection may
  break at any time, and a write fails exactly on a broken connection or once the shard is closed.
\<close>

subsection \<open>Backoff\<close>

record backoff =
  bo_base :: duration
  bo_max :: duration

fun double :: "nat \<Rightarrow> duration \<Rightarrow> duration \<Rightarrow> duration" where
  "double 0 mx d = d"
| "double (Suc n) mx d = (if d < mx then double n mx (wrap64 (d * 2)) else d)"

definition delay :: "backoff \<Rightarrow> int \<Rightarrow> 64 word \<Rightarrow> duration" where
  "delay b attempt rnd =
    (let attempt = (if attempt < 1 then 1 else attempt);
         d = double (nat (attempt - 1)) (bo_max b) (bo_base b);
         d = (if d \<le> 0 \<or> d > bo_max b then bo_max b else d);
         half = trunc_div d 2
     in if half \<le> 0 then d else half + uint rnd mod (half + 1))"

lemma double_plain:
  "0 < d \<Longrightarrow> d \<le> mx \<Longrightarrow> mx \<le> 2 ^ 62 \<Longrightarrow>
    min mx (double n mx d) = min mx (d * 2 ^ n) \<and> 0 < double n mx d"
proof (induction n arbitrary: d)
  case (Suc n)
  show ?case
  proof (cases "d < mx")
    case True
    have w: "wrap64 (d * 2) = d * 2" using Suc.prems True by (intro wrap64_id) (simp add: int64_ok_def)
    show ?thesis
    proof (cases "d * 2 \<le> mx")
      case fits: True
      have "min mx (double n mx (d * 2)) = min mx (d * 2 * 2 ^ n) \<and> 0 < double n mx (d * 2)"
        by (rule Suc.IH) (use Suc.prems fits in auto)
      then show ?thesis using True w by (simp add: mult.assoc)
    next
      case False
      have "d * 2 * 1 \<le> d * 2 * 2 ^ n" by (rule mult_left_mono) (use Suc.prems in simp_all)
      then have "mx < d * 2 * 2 ^ n" using False by linarith
      moreover have "double n mx (d * 2) = d * 2" using False by (cases n) auto
      ultimately show ?thesis using True w False Suc.prems by (simp add: mult.assoc)
    qed
  next
    case False
    then have "d = mx" using Suc.prems by simp
    moreover have "mx * 1 \<le> mx * 2 ^ Suc n"
      by (rule mult_left_mono) (use Suc.prems one_le_power [of "2 :: int" "Suc n"] in simp_all)
    ultimately show ?thesis using Suc.prems by simp
  qed
qed simp

lemma delay_jitter:
  assumes "0 < d"
  shows "let half = trunc_div d 2; r = (if half \<le> 0 then d else half + x mod (half + 1)) in d div 2 \<le> r \<and> r \<le> d \<and> 0 < r"
proof -
  have half: "trunc_div d 2 = d div 2" using assms by (simp add: trunc_div_nonneg)
  show ?thesis
  proof (cases "d div 2 \<le> 0")
    case False
    then have "0 \<le> x mod (d div 2 + 1)" "x mod (d div 2 + 1) < d div 2 + 1"
      using pos_mod_bound [of "d div 2 + 1" x] pos_mod_sign [of "d div 2 + 1" x] by linarith+
    then have "d div 2 \<le> d div 2 + x mod (d div 2 + 1)" "d div 2 + x mod (d div 2 + 1) \<le> d" by linarith+
    then show ?thesis using False unfolding half Let_def if_not_P [OF False] by linarith
  qed (use assms in \<open>simp add: half Let_def\<close>)
qed

text \<open>
  Reconnect delays are bounded whatever the attempt number and the random value, even where
  doubling overflows an int64: every delay is positive and at most the ceiling, and as long as the ceiling
  is at most \<open>2 ^ 62\<close> nanoseconds (146 years), attempt \<open>n\<close> waits between half and all of the exponential
  delay \<open>base * 2 ^ (n - 1)\<close>, capped at the ceiling.
\<close>

theorem backoff_bounds:
  assumes "0 < bo_max b"
  shows "0 < delay b n rnd \<and> delay b n rnd \<le> bo_max b
    \<and> (0 < bo_base b \<and> bo_base b \<le> bo_max b \<and> bo_max b \<le> 2 ^ 62 \<and> 1 \<le> n \<longrightarrow>
        (let w = min (bo_max b) (bo_base b * 2 ^ nat (n - 1)) in w div 2 \<le> delay b n rnd \<and> delay b n rnd \<le> w))"
proof -
  define d where "d = double (nat ((if n < 1 then 1 else n) - 1)) (bo_max b) (bo_base b)"
  define e where "e = (if d \<le> 0 \<or> d > bo_max b then bo_max b else d)"
  have e: "0 < e" "e \<le> bo_max b" using assms by (auto simp: e_def)
  have del: "delay b n rnd = (let half = trunc_div e 2 in if half \<le> 0 then e else half + uint rnd mod (half + 1))"
    by (simp add: delay_def e_def d_def Let_def)
  have r: "e div 2 \<le> delay b n rnd" "delay b n rnd \<le> e" "0 < delay b n rnd"
    using delay_jitter [OF e(1), of "uint rnd"] unfolding del Let_def by blast+
  have w: "e = min (bo_max b) (bo_base b * 2 ^ nat (n - 1))"
    if "0 < bo_base b" "bo_base b \<le> bo_max b" "bo_max b \<le> 2 ^ 62" "1 \<le> n"
    using double_plain [OF that(1-3), of "nat (n - 1)"] that(4) by (auto simp: e_def d_def min_def split: if_splits)
  have "0 < delay b n rnd \<and> delay b n rnd \<le> bo_max b" using r e(2) by linarith
  then show ?thesis using w r(1,2) unfolding Let_def by metis
qed

theorem backoff_bounds_witness:
  "let b = \<lparr>bo_base = 500 * millisecond, bo_max = 30 * second\<rparr> in
    delay b 3 12345 \<le> 2 * second \<and> second \<le> delay b 3 12345 \<and> delay b 1000 7 \<le> 30 * second"
proof -
  define b where "b = \<lparr>bo_base = 500 * millisecond, bo_max = 30 * second\<rparr>"
  have b: "bo_base b = 500000000" "bo_max b = 30000000000" by (simp_all add: b_def millisecond_def second_def)
  have "0 < bo_max b" by (simp add: b)
  note bb = backoff_bounds [OF this]
  have "(let w = min (bo_max b) (bo_base b * 2 ^ nat (3 - 1)) in w div 2 \<le> delay b 3 12345 \<and> delay b 3 12345 \<le> w)"
    using bb [of 3 12345] by (simp add: b)
  then have "second \<le> delay b 3 12345" "delay b 3 12345 \<le> 2 * second" by (simp_all add: b second_def Let_def)
  moreover have "delay b 1000 7 \<le> 30 * second" using bb [of 1000 7] unfolding b second_def by simp
  ultimately show ?thesis by (simp add: b_def Let_def)
qed

subsection \<open>The shard\<close>

text \<open>
  Connections are numbered in dial order. The supervisor is reading a connection, waiting before or
  making reconnect attempt \<open>n\<close>, replaying joins on a fresh connection, or done. Ghost fields:
  \<open>sh_wire\<close>, the lines written to each connection; \<open>sh_dead\<close>, the broken ones; \<open>sh_events\<close> and
  \<open>sh_slept\<close>, what was emitted and how long the supervisor slept.
\<close>

abbreviation ReasonUpstreamDown :: ReasonCode where "ReasonUpstreamDown \<equiv> ''upstream_down''"

definition downAfterAttempts :: int where
  "downAfterAttempts = 5"

datatype phase = Reading nat | Waiting int | Dialing int | Replaying int nat "string list" | Stopped

record shard =
  sh_nick :: string
  sh_backoff :: backoff
  sh_channels :: "string list"
  sh_conn :: "nat option"
  sh_health :: HealthStatus
  sh_closed :: bool
  sh_rng :: "64 word"
  sh_phase :: phase
  sh_todo :: "(nat \<times> string) list"
  sh_next :: nat
  sh_wire :: "nat \<Rightarrow> string list"
  sh_dead :: "nat set"
  sh_events :: "Event list"
  sh_slept :: "duration list"

abbreviation health :: "HealthState \<Rightarrow> ReasonCode \<Rightarrow> HealthStatus" where
  "health st why \<equiv> \<lparr>hs_State = st, hs_Reason = why, hs_Detail = []\<rparr>"

definition newShard :: "string \<Rightarrow> backoff \<Rightarrow> 64 word \<Rightarrow> shard" where
  "newShard n bo seed = \<lparr>sh_nick = n, sh_backoff = bo, sh_channels = [], sh_conn = None,
     sh_health = health HealthOK ReasonNone, sh_closed = False, sh_rng = seed, sh_phase = Stopped, sh_todo = [],
     sh_next = 0, sh_wire = (\<lambda>_. []), sh_dead = {}, sh_events = [], sh_slept = []\<rparr>"

definition nextRand :: "shard \<Rightarrow> 64 word \<times> shard" where
  "nextRand s =
    (let r = sh_rng s + 0x9e3779b97f4a7c15;
         z = (r XOR drop_bit 30 r) * 0xbf58476d1ce4e5b9;
         z = (z XOR drop_bit 27 z) * 0x94d049bb133111eb
     in (z XOR drop_bit 31 z, s\<lparr>sh_rng := r\<rparr>))"

definition setHealth :: "HealthStatus \<Rightarrow> bool \<Rightarrow> shard \<Rightarrow> shard" where
  "setHealth h emit s =
    (let changed = (hs_State (sh_health s) \<noteq> hs_State h \<or> hs_Reason (sh_health s) \<noteq> hs_Reason h);
         s = s\<lparr>sh_health := h\<rparr>
     in if emit \<and> changed then s\<lparr>sh_events := sh_events s @ [HealthEvent None h]\<rparr> else s)"

definition capRequest :: string where
  "capRequest = ''CAP REQ :twitch.tv/tags twitch.tv/commands twitch.tv/membership''"

text \<open>A successful \<^verbatim>\<open>connect\<close>: a fresh connection on which the handshake has been written.\<close>

definition connect :: "shard \<Rightarrow> nat \<times> shard" where
  "connect s = (sh_next s, s\<lparr>sh_next := sh_next s + 1,
     sh_wire := (sh_wire s)(sh_next s := [capRequest, ''NICK '' @ sh_nick s])\<rparr>)"

definition shard_start :: "string option \<Rightarrow> shard \<Rightarrow> error \<times> shard" where
  "shard_start dial s = (case dial of
     Some err \<Rightarrow> (Some err, setHealth ((health HealthDown ReasonUpstreamDown)\<lparr>hs_Detail := err\<rparr>) False s)
   | None \<Rightarrow> (case connect s of (c, s) \<Rightarrow> (None, s\<lparr>sh_conn := Some c, sh_phase := Reading c\<rparr>)))"

definition join_line :: "string \<Rightarrow> string" where
  "join_line slug = ''JOIN #'' @ slug"

definition part_line :: "string \<Rightarrow> string" where
  "part_line slug = ''PART #'' @ slug"

text \<open>The critical sections of \<^verbatim>\<open>join\<close> and \<^verbatim>\<open>leave\<close>; the write on the connection they read is still to come.\<close>

definition then_write :: "string \<Rightarrow> shard \<Rightarrow> shard" where
  "then_write line s = (case sh_conn s of None \<Rightarrow> s | Some c \<Rightarrow> s\<lparr>sh_todo := sh_todo s @ [(c, line)]\<rparr>)"

definition shard_join :: "string \<Rightarrow> shard \<Rightarrow> error \<times> shard" where
  "shard_join slug s =
    (if sh_closed s then (Some ''twitch: adapter closed'', s)
     else if slug \<in> set (sh_channels s) then (None, s)
     else (None, then_write (join_line slug) (s\<lparr>sh_channels := sh_channels s @ [slug]\<rparr>)))"

definition shard_leave :: "string \<Rightarrow> shard \<Rightarrow> shard" where
  "shard_leave slug s =
    (if slug \<notin> set (sh_channels s) then s
     else then_write (part_line slug) (s\<lparr>sh_channels := removeAll slug (sh_channels s)\<rparr>))"

definition shard_has :: "string \<Rightarrow> shard \<Rightarrow> bool" where
  "shard_has slug s = (slug \<in> set (sh_channels s))"

definition shard_count :: "shard \<Rightarrow> nat" where
  "shard_count s = length (sh_channels s)"

text \<open>\<^verbatim>\<open>WriteLine\<close>: on a broken connection, or once the shard's context is cancelled, an error: None.\<close>

definition write_line :: "nat \<Rightarrow> string \<Rightarrow> shard \<Rightarrow> shard option" where
  "write_line c line s = (if c \<in> sh_dead s \<or> sh_closed s then None
     else Some (s\<lparr>sh_wire := (sh_wire s)(c := sh_wire s c @ [line])\<rparr>))"

definition try_write :: "nat \<Rightarrow> string \<Rightarrow> shard \<Rightarrow> shard" where
  "try_write c line s = (case write_line c line s of None \<Rightarrow> s | Some s \<Rightarrow> s)"

text \<open>A caller performs the write it still had to do; the error is ignored.\<close>

definition late_write :: "nat \<Rightarrow> shard \<Rightarrow> shard" where
  "late_write i s = (let (c, line) = sh_todo s ! i
     in try_write c line (s\<lparr>sh_todo := take i (sh_todo s) @ drop (Suc i) (sh_todo s)\<rparr>))"

definition shard_read :: "nat \<Rightarrow> string \<Rightarrow> shard \<Rightarrow> shard" where
  "shard_read c line s = (case read_line line of (reply, ev) \<Rightarrow>
     let s = (case reply of None \<Rightarrow> s | Some l \<Rightarrow> try_write c l s)
     in (case ev of None \<Rightarrow> s | Some ev \<Rightarrow> s\<lparr>sh_events := sh_events s @ [ev]\<rparr>))"

text \<open>The read failed: the supervisor stops, or gives up the connection and begins to reconnect.\<close>

definition read_failed :: "shard \<Rightarrow> shard" where
  "read_failed s = (if sh_closed s then s\<lparr>sh_phase := Stopped\<rparr>
     else s\<lparr>sh_conn := None, sh_dead := set_option (sh_conn s) \<union> sh_dead s, sh_phase := Waiting 1\<rparr>)"

definition announce :: "int \<Rightarrow> shard \<Rightarrow> shard" where
  "announce attempt s =
    (let s = setHealth (if attempt \<ge> downAfterAttempts then health HealthDown ReasonUpstreamDown
               else health HealthDegraded ReasonReconnecting) True s;
         (r, s) = nextRand s
     in s\<lparr>sh_slept := sh_slept s @ [delay (sh_backoff s) attempt r], sh_phase := Dialing attempt\<rparr>)"

text \<open>After the sleep: done if the shard was closed, else the dial.\<close>

definition dial_failed :: "int \<Rightarrow> shard \<Rightarrow> shard" where
  "dial_failed attempt s = s\<lparr>sh_phase := (if sh_closed s then Stopped else Waiting (attempt + 1))\<rparr>"

definition publish :: "int \<Rightarrow> string list \<Rightarrow> shard \<Rightarrow> shard" where
  "publish attempt slugs s = (case connect s of (c, s) \<Rightarrow>
     s\<lparr>sh_conn := Some c, sh_phase := Replaying attempt c slugs\<rparr>)"

definition replay_one :: "int \<Rightarrow> nat \<Rightarrow> string list \<Rightarrow> shard \<Rightarrow> shard" where
  "replay_one attempt c slugs s = (case slugs of
     [] \<Rightarrow> (setHealth (health HealthOK ReasonNone) True s)\<lparr>sh_phase := Reading c\<rparr>
   | slug # rest \<Rightarrow> (case write_line c (join_line slug) s of
       Some s \<Rightarrow> s\<lparr>sh_phase := Replaying attempt c rest\<rparr>
     | None \<Rightarrow> s\<lparr>sh_conn := (if sh_conn s = Some c then None else sh_conn s), sh_phase := Waiting (attempt + 1)\<rparr>))"

definition shard_close :: "shard \<Rightarrow> shard" where
  "shard_close s = (if sh_closed s then s
     else s\<lparr>sh_closed := True, sh_dead := set_option (sh_conn s) \<union> sh_dead s\<rparr>)"

inductive shard_step :: "shard \<Rightarrow> shard \<Rightarrow> bool" where
  join: "shard_step s (snd (shard_join slug s))"
| leave: "shard_step s (shard_leave slug s)"
| late: "i < length (sh_todo s) \<Longrightarrow> shard_step s (late_write i s)"
| break_conn: "shard_step s (s\<lparr>sh_dead := insert c (sh_dead s)\<rparr>)"
| read: "sh_phase s = Reading c \<Longrightarrow> c \<notin> sh_dead s \<Longrightarrow> shard_step s (shard_read c line s)"
| failed: "sh_phase s = Reading c \<Longrightarrow> c \<in> sh_dead s \<or> sh_closed s \<Longrightarrow> shard_step s (read_failed s)"
| announce: "sh_phase s = Waiting n \<Longrightarrow> shard_step s (announce n s)"
| no_dial: "sh_phase s = Dialing n \<Longrightarrow> shard_step s (dial_failed n s)"
| publish: "sh_phase s = Dialing n \<Longrightarrow> set slugs = set (sh_channels s) \<Longrightarrow> distinct slugs \<Longrightarrow>
    shard_step s (publish n slugs s)"
| replay: "sh_phase s = Replaying n c slugs \<Longrightarrow> shard_step s (replay_one n c slugs s)"
| close: "shard_step s (shard_close s)"

subsection \<open>Membership survives reconnects\<close>

text \<open>What the server thinks after reading the lines of a connection.\<close>

definition on_server :: "string \<Rightarrow> string list \<Rightarrow> bool" where
  "on_server slug lines = fold (\<lambda>l b. if l = join_line slug then True else if l = part_line slug then False else b) lines False"

lemma join_not_part [simp]: "join_line a \<noteq> part_line b" "part_line b \<noteq> join_line a"
  by (simp_all add: join_line_def part_line_def)

lemma latch_on: "x \<in> set ls \<Longrightarrow> y \<notin> set ls \<Longrightarrow> fold (\<lambda>l b. if l = x then True else if l = y then False else b) ls b"
proof -
  let ?f = "\<lambda>l b. if l = x then True else if l = y then False else b"
  have "fold ?f ls b" if "b \<or> x \<in> set ls" "y \<notin> set ls" for b
    using that
  proof (induction ls arbitrary: b)
    case (Cons l ls)
    have "?f l b \<or> x \<in> set ls" "y \<notin> set ls" using Cons.prems by auto
    from Cons.IH [OF this] show ?case by simp
  qed simp
  then show "x \<in> set ls \<Longrightarrow> y \<notin> set ls \<Longrightarrow> fold ?f ls b" by blast
qed

lemma on_server_joined:
  assumes "join_line slug \<in> set lines" "part_line slug \<notin> set lines"
  shows "on_server slug lines"
  unfolding on_server_def by (rule latch_on [OF assms])

text \<open>The channels still to be replayed on connection \<open>c\<close>; None when \<open>c\<close> is not the one in use.\<close>

fun replaying :: "phase \<Rightarrow> (nat \<times> string list) option" where
  "replaying (Reading c) = Some (c, [])"
| "replaying (Replaying n c slugs) = Some (c, slugs)"
| "replaying _ = None"

definition replay_covered :: "shard \<Rightarrow> bool" where
  "replay_covered s \<longleftrightarrow> (\<forall>c slugs. replaying (sh_phase s) = Some (c, slugs) \<longrightarrow> sh_conn s = Some c \<and>
     (c \<notin> sh_dead s \<and> \<not> sh_closed s \<longrightarrow> (\<forall>slug \<in> set (sh_channels s).
        join_line slug \<in> set (sh_wire s c) \<or> (c, join_line slug) \<in> set (sh_todo s) \<or> slug \<in> set slugs)))"

lemma covered_idle: "replaying (sh_phase s) = None \<Longrightarrow> replay_covered s"
  by (simp add: replay_covered_def)

lemma setHealth_frame [simp]:
  "sh_channels (setHealth h e s) = sh_channels s" "sh_conn (setHealth h e s) = sh_conn s"
  "sh_phase (setHealth h e s) = sh_phase s" "sh_todo (setHealth h e s) = sh_todo s"
  "sh_wire (setHealth h e s) = sh_wire s" "sh_dead (setHealth h e s) = sh_dead s"
  "sh_closed (setHealth h e s) = sh_closed s" "sh_health (setHealth h e s) = h"
  by (simp_all add: setHealth_def Let_def)

lemma try_write_frame [simp]:
  "sh_channels (try_write c l s) = sh_channels s" "sh_conn (try_write c l s) = sh_conn s"
  "sh_phase (try_write c l s) = sh_phase s" "sh_todo (try_write c l s) = sh_todo s"
  "sh_dead (try_write c l s) = sh_dead s" "sh_closed (try_write c l s) = sh_closed s"
  "sh_health (try_write c l s) = sh_health s" "sh_events (try_write c l s) = sh_events s"
  by (simp_all add: try_write_def write_line_def)

lemma try_write_mono: "x \<in> set (sh_wire s d) \<Longrightarrow> x \<in> set (sh_wire (try_write c l s) d)"
  by (auto simp add: try_write_def write_line_def)

lemma try_write_live: "c \<notin> sh_dead s \<Longrightarrow> \<not> sh_closed s \<Longrightarrow> l \<in> set (sh_wire (try_write c l s) c)"
  by (simp add: try_write_def write_line_def)

lemma shard_read_frame [simp]:
  "sh_channels (shard_read c l s) = sh_channels s" "sh_conn (shard_read c l s) = sh_conn s"
  "sh_phase (shard_read c l s) = sh_phase s" "sh_todo (shard_read c l s) = sh_todo s"
  "sh_dead (shard_read c l s) = sh_dead s" "sh_closed (shard_read c l s) = sh_closed s"
  "sh_health (shard_read c l s) = sh_health s"
  by (simp_all add: shard_read_def Let_def split: prod.splits option.splits)

lemma shard_read_mono: "x \<in> set (sh_wire s d) \<Longrightarrow> x \<in> set (sh_wire (shard_read c l s) d)"
  by (auto simp: shard_read_def Let_def try_write_mono split: prod.splits option.splits)

text \<open>Reads, breakages and closing only add lines and lose connections.\<close>

lemma covered_weaken:
  assumes "replay_covered s" "sh_phase s' = sh_phase s" "sh_conn s' = sh_conn s" "sh_channels s' = sh_channels s" "sh_todo s' = sh_todo s"
    and "\<And>c. set (sh_wire s c) \<subseteq> set (sh_wire s' c)" "sh_dead s \<subseteq> sh_dead s'" "sh_closed s \<Longrightarrow> sh_closed s'"
  shows "replay_covered s'"
  using assms(1,6-8) unfolding replay_covered_def assms(2-5) by blast

lemma split_nth: "i < length xs \<Longrightarrow> set xs = insert (xs ! i) (set (take i xs @ drop (Suc i) xs))"
  using id_take_nth_drop [of i xs] by (metis Un_insert_right list.simps(15) set_append)

lemma covered_late: assumes "i < length (sh_todo s)" "replay_covered s" shows "replay_covered (late_write i s)"
proof -
  obtain d l where d: "sh_todo s ! i = (d, l)" by fastforce
  let ?s = "s\<lparr>sh_todo := take i (sh_todo s) @ drop (Suc i) (sh_todo s)\<rparr>"
  have eq: "late_write i s = try_write d l ?s" by (simp add: late_write_def d)
  have todo: "set (sh_todo s) = insert (d, l) (set (sh_todo ?s))" using split_nth [OF assms(1)] d by simp
  show ?thesis unfolding replay_covered_def eq try_write_frame
  proof (intro allI impI conjI ballI)
    fix c slugs slug
    assume ph: "replaying (sh_phase ?s) = Some (c, slugs)"
    then show "sh_conn ?s = Some c" using assms(2) by (simp add: replay_covered_def)
    assume live: "c \<notin> sh_dead ?s \<and> \<not> sh_closed ?s" and "slug \<in> set (sh_channels ?s)"
    then have "join_line slug \<in> set (sh_wire ?s c) \<or> (c, join_line slug) \<in> set (sh_todo s) \<or> slug \<in> set slugs"
      using assms(2) ph by (simp add: replay_covered_def)
    moreover have "join_line slug \<in> set (sh_wire (try_write d l ?s) c)" if "(c, join_line slug) = (d, l)"
      using that live by (simp add: try_write_live)
    ultimately show "join_line slug \<in> set (sh_wire (try_write d l ?s) c) \<or> (c, join_line slug) \<in> set (sh_todo ?s) \<or> slug \<in> set slugs"
      using todo try_write_mono by blast
  qed
qed

lemma covered_replay:
  assumes "sh_phase s = Replaying n c slugs" "replay_covered s"
  shows "replay_covered (replay_one n c slugs s)"
proof (cases slugs)
  case Nil
  then show ?thesis using assms by (simp add: replay_covered_def replay_one_def)
next
  case (Cons slug rest)
  show ?thesis
  proof (cases "c \<in> sh_dead s \<or> sh_closed s")
    case True
    then show ?thesis using Cons by (intro covered_idle) (simp add: replay_one_def write_line_def)
  next
    case False
    then show ?thesis using assms Cons by (auto simp: replay_covered_def replay_one_def write_line_def)
  qed
qed

lemma step_covered: "shard_step s s' \<Longrightarrow> replay_covered s \<Longrightarrow> replay_covered s'"
proof (induction rule: shard_step.induct)
  case (join s slug)
  then show ?case by (auto simp: shard_join_def replay_covered_def then_write_def split: option.splits)
next
  case (leave s slug)
  then show ?case by (auto simp: shard_leave_def replay_covered_def then_write_def split: option.splits)
next
  case (read s c line)
  show ?case by (rule covered_weaken [OF read.prems]) (auto simp: shard_read_mono)
next
  case (break_conn s c)
  show ?case by (rule covered_weaken [OF break_conn.prems]) auto
next
  case (close s)
  show ?case by (rule covered_weaken [OF close.prems]) (auto simp: shard_close_def)
next
  case (announce s n)
  then show ?case by (intro covered_idle) (simp add: announce_def nextRand_def Let_def split_beta)
next
  case (publish s n slugs)
  then show ?case by (simp add: replay_covered_def publish_def connect_def)
qed (auto simp: covered_late covered_replay read_failed_def dial_failed_def intro: covered_idle)

text \<open>A shard whose first dial succeeded.\<close>

definition started_shard :: "string \<Rightarrow> backoff \<Rightarrow> 64 word \<Rightarrow> shard" where
  "started_shard n bo seed = snd (shard_start None (newShard n bo seed))"

lemma steps_covered: "shard_step\<^sup>*\<^sup>* (started_shard n bo seed) s \<Longrightarrow> replay_covered s"
proof (induction rule: rtranclp_induct)
  case base
  then show ?case by (simp add: started_shard_def shard_start_def newShard_def connect_def replay_covered_def)
qed (rule step_covered)

text \<open>
  C14. A reconnect never loses a channel: however joins, leaves, breakages, failed dials and the replay of
  joins interleave, once the supervisor reads a live connection again and no caller has a write
  outstanding, every channel of the shard that was not left on this connection has been joined on it,
  those added while the reconnect was under way included.
\<close>

theorem shard_rejoins:
  assumes "shard_step\<^sup>*\<^sup>* (started_shard n bo seed) s" "sh_phase s = Reading c" "c \<notin> sh_dead s" "\<not> sh_closed s" "sh_todo s = []"
    and "slug \<in> set (sh_channels s)" "part_line slug \<notin> set (sh_wire s c)"
  shows "sh_conn s = Some c \<and> on_server slug (sh_wire s c)"
proof -
  have "replay_covered s" by (rule steps_covered [OF assms(1)])
  then have "sh_conn s = Some c" "join_line slug \<in> set (sh_wire s c)" using assms(2-6) by (auto simp: replay_covered_def)
  then show ?thesis using assms(7) by (simp add: on_server_joined)
qed

subsection \<open>Health is reported honestly\<close>

definition health_log :: "shard \<Rightarrow> (HealthState \<times> ReasonCode) list" where
  "health_log s = (HealthOK, ReasonNone) #
     concat (map (\<lambda>ev. case ev of HealthEvent _ h \<Rightarrow> [(hs_State h, hs_Reason h)] | _ \<Rightarrow> []) (sh_events s))"

definition attempt_health :: "int \<Rightarrow> HealthState \<times> ReasonCode" where
  "attempt_health n = (if n \<ge> 5 then (HealthDown, ReasonUpstreamDown) else (HealthDegraded, ReasonReconnecting))"

fun phase_health :: "phase \<Rightarrow> (HealthState \<times> ReasonCode) option" where
  "phase_health (Reading c) = Some (HealthOK, ReasonNone)"
| "phase_health (Dialing n) = Some (attempt_health n)"
| "phase_health (Replaying n c slugs) = Some (attempt_health n)"
| "phase_health _ = None"

abbreviation state_reason :: "HealthStatus \<Rightarrow> HealthState \<times> ReasonCode" where
  "state_reason h \<equiv> (hs_State h, hs_Reason h)"

definition reported :: "shard \<Rightarrow> bool" where
  "reported s \<longleftrightarrow> distinct_adj (health_log s) \<and> last (health_log s) = state_reason (sh_health s)
     \<and> phase_health (sh_phase s) \<in> {None, Some (state_reason (sh_health s))}"

lemma health_log_frame: "sh_events s' = sh_events s \<Longrightarrow> health_log s' = health_log s"
  by (simp add: health_log_def)

lemma distinct_adj_snoc: "xs \<noteq> [] \<Longrightarrow> distinct_adj (xs @ [x]) \<longleftrightarrow> distinct_adj xs \<and> last xs \<noteq> x"
  by (simp add: distinct_adj_append_iff)

lemma log_setHealth:
  assumes "distinct_adj (health_log s)" "last (health_log s) = (hs_State (sh_health s), hs_Reason (sh_health s))"
  shows "distinct_adj (health_log (setHealth h True s)) \<and> last (health_log (setHealth h True s)) = (hs_State h, hs_Reason h)"
proof -
  have ne: "health_log s \<noteq> []" by (simp add: health_log_def)
  show ?thesis
  proof (cases "last (health_log s) = (hs_State h, hs_Reason h)")
    case True
    then have "health_log (setHealth h True s) = health_log s" using assms(2) by (simp add: setHealth_def Let_def health_log_def)
    then show ?thesis using True assms(1) by simp
  next
    case False
    then have "health_log (setHealth h True s) = health_log s @ [(hs_State h, hs_Reason h)]"
      using assms(2) by (auto simp: setHealth_def Let_def health_log_def)
    then show ?thesis using False assms(1) distinct_adj_snoc [OF ne] by simp
  qed
qed

lemma read_no_health: "read_line l = (reply, Some ev) \<Longrightarrow> \<not> (\<exists>ch h. ev = HealthEvent ch h)"
  by (auto simp: read_line_def eventFromLine_def split: option.splits if_splits)

lemma log_read: "health_log (shard_read c l s) = health_log s"
proof (cases "read_line l")
  case (Pair reply ev)
  then show ?thesis using read_no_health [of l reply]
    by (cases ev) (auto simp: shard_read_def health_log_def split: option.splits Event.splits)
qed

lemma reported_frame:
  "reported s \<Longrightarrow> health_log s' = health_log s \<Longrightarrow> sh_health s' = sh_health s \<Longrightarrow>
    phase_health (sh_phase s') \<in> {None, phase_health (sh_phase s)} \<Longrightarrow> reported s'"
  unfolding reported_def by auto

lemma then_write_frame [simp]:
  "sh_events (then_write l s) = sh_events s" "sh_health (then_write l s) = sh_health s" "sh_phase (then_write l s) = sh_phase s"
  "sh_conn (then_write l s) = sh_conn s" "sh_dead (then_write l s) = sh_dead s" "sh_closed (then_write l s) = sh_closed s"
  "sh_channels (then_write l s) = sh_channels s" "sh_wire (then_write l s) = sh_wire s"
  by (simp_all add: then_write_def split: option.split)

lemma calls_frame:
  "sh_events (snd (shard_join slug s)) = sh_events s" "sh_health (snd (shard_join slug s)) = sh_health s"
  "sh_phase (snd (shard_join slug s)) = sh_phase s"
  "sh_events (shard_leave slug s) = sh_events s" "sh_health (shard_leave slug s) = sh_health s"
  "sh_phase (shard_leave slug s) = sh_phase s"
  "sh_events (late_write i s) = sh_events s" "sh_health (late_write i s) = sh_health s" "sh_phase (late_write i s) = sh_phase s"
  by (simp_all add: shard_join_def shard_leave_def late_write_def split_beta)

lemma reported_announce: "reported s \<Longrightarrow> reported (announce n s)"
proof -
  assume r: "reported s"
  let ?h = "if n \<ge> downAfterAttempts then health HealthDown ReasonUpstreamDown else health HealthDegraded ReasonReconnecting"
  have ev: "sh_events (announce n s) = sh_events (setHealth ?h True s)" "sh_health (announce n s) = ?h" "sh_phase (announce n s) = Dialing n"
    by (simp_all add: announce_def nextRand_def Let_def split_beta)
  have "(hs_State ?h, hs_Reason ?h) = attempt_health n" by (simp add: attempt_health_def downAfterAttempts_def)
  moreover note log_setHealth [of s ?h]
  ultimately show ?thesis using r unfolding reported_def ev(2,3) health_log_frame [OF ev(1)] by simp
qed

lemma reported_replay: "reported s \<Longrightarrow> sh_phase s = Replaying n c slugs \<Longrightarrow> reported (replay_one n c slugs s)"
proof (cases slugs)
  case Nil
  assume r: "reported s"
  have log: "health_log (replay_one n c slugs s) = health_log (setHealth (health HealthOK ReasonNone) True s)"
    "sh_health (replay_one n c slugs s) = health HealthOK ReasonNone" "sh_phase (replay_one n c slugs s) = Reading c"
    using Nil by (simp_all add: replay_one_def health_log_def)
  show ?thesis using log_setHealth [of s "health HealthOK ReasonNone"] r by (simp add: reported_def log)
next
  case (Cons slug rest)
  assume r: "reported s" and ph: "sh_phase s = Replaying n c slugs"
  show ?thesis
    by (rule reported_frame [OF r]) (auto simp: Cons ph replay_one_def write_line_def health_log_def)
qed

lemma step_reported: "shard_step s s' \<Longrightarrow> reported s \<Longrightarrow> reported s'"
proof (induction rule: shard_step.induct)
  case (read s c line)
  show ?case by (rule reported_frame [OF read.prems]) (use read.hyps in \<open>simp_all add: log_read\<close>)
next
  case (publish s n slugs)
  show ?case by (rule reported_frame [OF publish.prems]) (use publish.hyps in \<open>simp_all add: publish_def connect_def health_log_def\<close>)
next
  case (failed s c)
  show ?case by (rule reported_frame [OF failed.prems]) (use failed.hyps in \<open>simp_all add: read_failed_def health_log_def\<close>)
next
  case (no_dial s n)
  show ?case by (rule reported_frame [OF no_dial.prems]) (use no_dial.hyps in \<open>simp_all add: dial_failed_def health_log_def\<close>)
next
  case (close s)
  show ?case by (rule reported_frame [OF close.prems]) (simp_all add: shard_close_def health_log_def)
qed (simp_all add: reported_announce reported_replay, (rule reported_frame, assumption, simp_all add: calls_frame health_log_def)+)

text \<open>
  Health is reported as it is, once per change: in any reachable state of a shard, the health events
  emitted so far, preceded by the initial "ok", never repeat a state and reason, the last of them is the
  current health; the shard is "ok" whenever it reads its connection, and while it dials or replays at
  attempt \<open>n\<close> it is "degraded" up to the fourth attempt and "down" from the fifth.
\<close>

theorem shard_health:
  assumes "shard_step\<^sup>*\<^sup>* (started_shard n bo seed) s"
  shows "distinct_adj (health_log s) \<and> last (health_log s) = (hs_State (sh_health s), hs_Reason (sh_health s))
    \<and> (\<forall>c. sh_phase s = Reading c \<longrightarrow> hs_State (sh_health s) = HealthOK)
    \<and> (\<forall>k. sh_phase s = Dialing k \<or> (\<exists>c slugs. sh_phase s = Replaying k c slugs) \<longrightarrow>
        hs_State (sh_health s) = (if k < 5 then HealthDegraded else HealthDown))"
proof -
  have "reported s" using assms
  proof (induction rule: rtranclp_induct)
    case base
    then show ?case by (simp add: started_shard_def shard_start_def newShard_def connect_def reported_def health_log_def)
  qed (rule step_reported)
  then show ?thesis by (auto simp: reported_def attempt_health_def split: if_splits)
qed

subsection \<open>A run\<close>

text \<open>Two channels joined, the connection lost, one failed dial, and a reconnect during which a third is joined.\<close>

abbreviation fresh :: shard where
  "fresh \<equiv> started_shard ''n'' \<lparr>bo_base = 1, bo_max = 8\<rparr> 0"

definition joined_two :: shard where
  "joined_two = late_write 0 (late_write 0 (snd (shard_join ''b'' (snd (shard_join ''a'' fresh)))))"

definition reconnecting :: shard where
  "reconnecting = publish 2 [''a'', ''b''] (announce 2 (dial_failed 1 (announce 1
     (read_failed (joined_two\<lparr>sh_dead := insert 0 (sh_dead joined_two)\<rparr>)))))"

definition recovered :: shard where
  "recovered = late_write 0 (replay_one 2 1 [] (replay_one 2 1 [''b''] (replay_one 2 1 [''a'', ''b'']
     (snd (shard_join ''c'' reconnecting)))))"

lemmas then_step = rtranclp.rtrancl_into_rtrancl [of shard_step]

lemma announce_frame [simp]:
  "sh_phase (announce n s) = Dialing n" "sh_channels (announce n s) = sh_channels s" "sh_conn (announce n s) = sh_conn s"
  "sh_todo (announce n s) = sh_todo s" "sh_wire (announce n s) = sh_wire s" "sh_dead (announce n s) = sh_dead s"
  "sh_closed (announce n s) = sh_closed s" "sh_next (announce n s) = sh_next s" "sh_nick (announce n s) = sh_nick s"
  by (simp_all add: announce_def nextRand_def setHealth_def Let_def split_beta)

lemma joined_two_state:
  "sh_phase joined_two = Reading 0" "sh_channels joined_two = [''a'', ''b'']" "sh_conn joined_two = Some 0" "sh_todo joined_two = []"
  "\<not> sh_closed joined_two" "sh_next joined_two = 1" "sh_nick joined_two = ''n''" "sh_dead joined_two = {}"
  "sh_health joined_two = health HealthOK ReasonNone" "sh_events joined_two = []"
  unfolding joined_two_def
  by (simp_all add: started_shard_def shard_start_def newShard_def connect_def shard_join_def then_write_def late_write_def
      try_write_def write_line_def)

lemma joined_two_reach: "shard_step\<^sup>*\<^sup>* fresh joined_two"
  unfolding joined_two_def
  by (rule then_step [OF then_step [OF then_step [OF then_step [OF rtranclp.rtrancl_refl shard_step.join]
      shard_step.join] shard_step.late] shard_step.late])
    (simp_all add: started_shard_def shard_start_def newShard_def connect_def shard_join_def then_write_def late_write_def
      try_write_def write_line_def)

lemmas reconnect_eval = joined_two_state read_failed_def dial_failed_def publish_def connect_def

lemma reconnecting_state:
  "sh_phase reconnecting = Replaying 2 1 [''a'', ''b'']" "sh_channels reconnecting = [''a'', ''b'']"
  "sh_conn reconnecting = Some 1" "sh_todo reconnecting = []" "\<not> sh_closed reconnecting" "sh_dead reconnecting = {0}"
  "sh_wire reconnecting (Suc 0) = [capRequest, ''NICK n'']" "sh_health reconnecting = health HealthDegraded ReasonReconnecting"
  "sh_events reconnecting = [HealthEvent None (health HealthDegraded ReasonReconnecting)]"
  unfolding reconnecting_def
  by (simp_all add: reconnect_eval announce_def [of 1] announce_def [of 2] downAfterAttempts_def setHealth_def nextRand_def
      Let_def)

lemma reconnecting_reach: "shard_step\<^sup>*\<^sup>* fresh reconnecting"
  unfolding reconnecting_def
  by (rule then_step [OF then_step [OF then_step [OF then_step [OF then_step [OF then_step [OF joined_two_reach
      shard_step.break_conn] shard_step.failed [where c = 0]] shard_step.announce] shard_step.no_dial] shard_step.announce] shard_step.publish])
    (simp_all add: reconnect_eval)

lemmas replay_eval = reconnecting_state shard_join_def shard_leave_def then_write_def replay_one_def write_line_def
  late_write_def try_write_def setHealth_def Let_def

lemma recovered_reach: "shard_step\<^sup>*\<^sup>* fresh recovered"
  unfolding recovered_def
  by (rule then_step [OF then_step [OF then_step [OF then_step [OF then_step [OF reconnecting_reach
      shard_step.join] shard_step.replay] shard_step.replay] shard_step.replay] shard_step.late])
    (simp_all add: replay_eval)

lemma replay_frame:
  "sh_events (replay_one n c (slug # slugs) s) = sh_events s" "sh_health (replay_one n c (slug # slugs) s) = sh_health s"
  "sh_events (replay_one n c [] s) = sh_events (setHealth (health HealthOK ReasonNone) True s)"
  by (simp_all add: replay_one_def write_line_def)

theorem shard_rejoins_witness:
  "sh_channels recovered = [''a'', ''b'', ''c''] \<and> on_server ''c'' (sh_wire recovered 1) \<and> sh_wire recovered 1 =
    [capRequest, ''NICK n'', ''JOIN #a'', ''JOIN #b'', ''JOIN #c'']"
proof -
  have s: "sh_phase recovered = Reading 1" "1 \<notin> sh_dead recovered" "\<not> sh_closed recovered" "sh_todo recovered = []"
    "sh_channels recovered = [''a'', ''b'', ''c'']" "part_line ''c'' \<notin> set (sh_wire recovered 1)"
    "sh_wire recovered 1 = [capRequest, ''NICK n'', ''JOIN #a'', ''JOIN #b'', ''JOIN #c'']"
    unfolding recovered_def by (simp_all add: replay_eval join_line_def part_line_def capRequest_def)
  then have "''c'' \<in> set (sh_channels recovered)" by simp
  then show ?thesis using shard_rejoins [OF recovered_reach s(1-4) _ s(6)] s(5,7) by simp
qed

theorem shard_health_witness:
  "health_log recovered = [(HealthOK, ReasonNone), (HealthDegraded, ReasonReconnecting), (HealthOK, ReasonNone)]
    \<and> hs_State (sh_health recovered) = HealthOK"
proof -
  have "sh_phase recovered = Reading 1" unfolding recovered_def by (simp add: replay_eval)
  moreover have "sh_events recovered = [HealthEvent None (health HealthDegraded ReasonReconnecting), HealthEvent None (health HealthOK ReasonNone)]"
    unfolding recovered_def calls_frame by (simp add: replay_frame calls_frame reconnecting_state setHealth_def)
  then have "health_log recovered = [(HealthOK, ReasonNone), (HealthDegraded, ReasonReconnecting), (HealthOK, ReasonNone)]"
    by (simp add: health_log_def)
  ultimately show ?thesis using shard_health [OF recovered_reach] by blast
qed

text \<open>
  Leaving is not as safe: a channel left while a reconnect is replaying its snapshot is parted first and joined
  again by the replay. The shard no longer holds it, but its messages keep coming.
\<close>

definition left_during_replay :: shard where
  "left_during_replay = replay_one 2 1 [] (replay_one 2 1 [''b''] (replay_one 2 1 [''a'', ''b'']
     (late_write 0 (shard_leave ''b'' reconnecting))))"

theorem leave_during_replay:
  "shard_step\<^sup>*\<^sup>* fresh left_during_replay \<and> sh_channels left_during_replay = [''a''] \<and> sh_todo left_during_replay = []
    \<and> sh_phase left_during_replay = Reading 1 \<and> on_server ''b'' (sh_wire left_during_replay 1)"
proof (intro conjI)
  show "shard_step\<^sup>*\<^sup>* fresh left_during_replay"
    unfolding left_during_replay_def
    by (rule then_step [OF then_step [OF then_step [OF then_step [OF then_step [OF reconnecting_reach
        shard_step.leave] shard_step.late] shard_step.replay] shard_step.replay] shard_step.replay])
      (simp_all add: replay_eval)
qed (simp_all add: left_during_replay_def replay_eval on_server_def join_line_def part_line_def capRequest_def)

end
