(* ===== verification/Twitch_Adapter.thy ===== *)
theory Twitch_Adapter
  imports Twitch_Shard Hub
begin

text \<open>
  The Twitch adapter over its shards (\<^verbatim>\<open>internal/platform/twitch/adapter.go\<close>): the deduplication of messages that
  arrive over two transports, the spread of channels over connections, and health. Sending and
  moderating are in \<open>Twitch_Helix\<close>; the EventSub side is represented by what it reports. A call of join runs
  without interruption here, though it releases the lock before the shard joins the channel.
\<close>

subsection \<open>Recent message ids\<close>

definition recentIDCap :: nat where
  "recentIDCap = 4096"

record recentIDs =
  rc_set :: "string set"
  rc_order :: "string list"
  rc_next :: nat

text \<open>The map and the slice are allocated on first use.\<close>

definition recent_init :: "recentIDs \<Rightarrow> recentIDs" where
  "recent_init r = (if rc_order r = [] then r\<lparr>rc_set := {}, rc_order := replicate recentIDCap []\<rparr> else r)"

definition seen :: "string \<Rightarrow> recentIDs \<Rightarrow> bool \<times> recentIDs" where
  "seen i r =
    (let r = recent_init r
     in if i \<in> rc_set r then (True, r)
        else let old = rc_order r ! rc_next r
          in (False, r\<lparr>rc_set := insert i (if old \<noteq> [] then rc_set r - {old} else rc_set r),
                       rc_order := (rc_order r)[rc_next r := i], rc_next := (rc_next r + 1) mod recentIDCap\<rparr>))"

definition no_recent :: recentIDs where
  "no_recent = \<lparr>rc_set = {}, rc_order = [], rc_next = 0\<rparr>"

subsection \<open>The adapter\<close>

record twitch_adapter =
  ta_nick :: string
  ta_backoff :: backoff
  ta_perConn :: int
  ta_events :: "Event list"
  ta_recent :: recentIDs
  ta_shards :: "shard list"
  ta_shardSeq :: "64 word"
  ta_health :: HealthStatus
  ta_closed :: bool
  ta_joined :: "string list"

definition defaultNick :: string where
  "defaultNick = ''justinfan12345''"

record Options =
  op_Nick :: string
  op_ChannelsPerConn :: int
  op_BackoffBase :: duration
  op_BackoffMax :: duration

definition twitch_New :: "Options \<Rightarrow> twitch_adapter" where
  "twitch_New opts = \<lparr>ta_nick = (if op_Nick opts = [] then defaultNick else op_Nick opts),
     ta_backoff = \<lparr>bo_base = (if op_BackoffBase opts \<le> 0 then 500 * millisecond else op_BackoffBase opts),
                   bo_max = (if op_BackoffMax opts \<le> 0 then 30 * second else op_BackoffMax opts)\<rparr>,
     ta_perConn = (if op_ChannelsPerConn opts \<le> 0 then 20 else op_ChannelsPerConn opts),
     ta_events = [], ta_recent = no_recent, ta_shards = [], ta_shardSeq = 0, ta_health = health HealthOK ReasonNone,
     ta_closed = False, ta_joined = []\<rparr>"

text \<open>Emitting is dropped once the adapter is closed.\<close>

definition twitch_emit :: "Event \<Rightarrow> twitch_adapter \<Rightarrow> twitch_adapter" where
  "twitch_emit ev a =
    (let (dup, a) = (case ev of
         MessageEvent m \<Rightarrow> if um_PlatformMessageID m \<noteq> []
           then (case seen (um_PlatformMessageID m) (ta_recent a) of (dup, r) \<Rightarrow> (dup, a\<lparr>ta_recent := r\<rparr>)) else (False, a)
       | _ \<Rightarrow> (False, a))
     in if dup then a else if ta_closed a then a else a\<lparr>ta_events := ta_events a @ [ev]\<rparr>)"

subsection \<open>Channels over shards\<close>

fun find_index :: "('a \<Rightarrow> bool) \<Rightarrow> 'a list \<Rightarrow> nat option" where
  "find_index P [] = None"
| "find_index P (x # xs) = (if P x then Some 0 else map_option Suc (find_index P xs))"

text \<open>\<open>ircJoin\<close>: \<open>now\<close> seeds a new shard, \<open>dial\<close> is the error of its first dial, if any.\<close>

definition ircJoin :: "64 word \<Rightarrow> string option \<Rightarrow> string \<Rightarrow> twitch_adapter \<Rightarrow> error \<times> twitch_adapter" where
  "ircJoin now dial slug a =
    (if ta_closed a then (Some ''twitch: adapter closed'', a)
     else if list_ex (shard_has slug) (ta_shards a) then (None, a)
     else (case find_index (\<lambda>sh. int (shard_count sh) < ta_perConn a) (ta_shards a) of
         Some k \<Rightarrow> (case shard_join slug (ta_shards a ! k) of (err, sh) \<Rightarrow> (err, a\<lparr>ta_shards := (ta_shards a)[k := sh]\<rparr>))
       | None \<Rightarrow>
           let sq = ta_shardSeq a + 1;
               seed = now XOR (sq * 0x9e3779b97f4a7c15);
               a = a\<lparr>ta_shardSeq := sq\<rparr>
           in (case shard_start dial (newShard (ta_nick a) (ta_backoff a) seed) of
               (Some err, _) \<Rightarrow> (Some err, a\<lparr>ta_health := (health HealthDown ReasonUpstreamDown)\<lparr>hs_Detail := err\<rparr>\<rparr>)
             | (None, sh) \<Rightarrow> (case shard_join slug sh of (err, sh) \<Rightarrow>
                 (err, a\<lparr>ta_health := health HealthOK ReasonNone, ta_shards := ta_shards a @ [sh]\<rparr>)))))"

definition ircLeave :: "string \<Rightarrow> twitch_adapter \<Rightarrow> twitch_adapter" where
  "ircLeave slug a = (case find_index (shard_has slug) (ta_shards a) of
     None \<Rightarrow> a | Some k \<Rightarrow> a\<lparr>ta_shards := (ta_shards a)[k := shard_leave slug (ta_shards a ! k)]\<rparr>)"

definition twitch_Join :: "64 word \<Rightarrow> string option \<Rightarrow> ChannelRef \<Rightarrow> twitch_adapter \<Rightarrow> error \<times> twitch_adapter" where
  "twitch_Join now dial ch a =
    (let slug = to_lower (ch_Slug ch)
     in if ta_closed a then (Some ''twitch: adapter closed'', a)
        else ircJoin now dial slug (a\<lparr>ta_joined := List.insert slug (ta_joined a)\<rparr>))"

definition twitch_Leave :: "ChannelRef \<Rightarrow> twitch_adapter \<Rightarrow> twitch_adapter" where
  "twitch_Leave ch a = (let slug = to_lower (ch_Slug ch)
     in ircLeave slug (a\<lparr>ta_joined := removeAll slug (ta_joined a)\<rparr>))"

text \<open>The report of the EventSub side: a channel whose reads are up there leaves IRC, one that is down comes back.\<close>

definition onESState :: "64 word \<Rightarrow> string option \<Rightarrow> string \<Rightarrow> bool \<Rightarrow> twitch_adapter \<Rightarrow> twitch_adapter" where
  "onESState now dial slug up a =
    (if slug \<notin> set (ta_joined a) then a
     else if up then ircLeave slug a else snd (ircJoin now dial slug a))"

definition twitch_Close :: "twitch_adapter \<Rightarrow> twitch_adapter" where
  "twitch_Close a = (if ta_closed a then a else a\<lparr>ta_closed := True, ta_shards := map shard_close (ta_shards a)\<rparr>)"

subsection \<open>Health\<close>

definition healthRank :: "HealthState \<Rightarrow> int" where
  "healthRank s = (if s = HealthDown then 2 else if s = HealthDegraded then 1 else 0)"

definition twitch_Health :: "HealthStatus option \<Rightarrow> twitch_adapter \<Rightarrow> HealthStatus" where
  "twitch_Health es a =
    (let worst = fold (\<lambda>sh worst. if healthRank (hs_State (sh_health sh)) > healthRank (hs_State worst) then sh_health sh else worst)
           (ta_shards a) (ta_health a)
     in (case es of None \<Rightarrow> worst
       | Some h \<Rightarrow> if hs_State h \<noteq> HealthOK \<and> healthRank HealthDegraded > healthRank (hs_State worst)
           then \<lparr>hs_State = HealthDegraded, hs_Reason = hs_Reason h, hs_Detail = hs_Detail h\<rparr> else worst))"

definition twitch_Capabilities :: "bool \<Rightarrow> Capabilities" where
  "twitch_Capabilities authed = \<lparr>ReadAnonymous = True, ReadAuthed = authed, cap_Send = authed, cap_Moderation = authed,
     cap_Replies = authed, HeldQueue = authed, Stability = TierOfficial\<rparr>"

subsection \<open>Deduplication\<close>

lemma cap_pos [simp]: "0 < recentIDCap"
  by (simp add: recentIDCap_def)

definition recent_slots :: "recentIDs \<Rightarrow> string list" where
  "recent_slots r = drop (rc_next r) (rc_order r) @ take (rc_next r) (rc_order r)"

text \<open>The set holds the last ids of the history of those let through.\<close>

definition recent_ok :: "string list \<Rightarrow> recentIDs \<Rightarrow> bool" where
  "recent_ok hist r \<longleftrightarrow> [] \<notin> set hist \<and> distinct (last_n recentIDCap hist) \<and> rc_next r < recentIDCap \<and>
     (if rc_order r = [] then hist = [] \<and> rc_set r = {} \<and> rc_next r = 0
      else length (rc_order r) = recentIDCap \<and> rc_set r = set (last_n recentIDCap hist) \<and>
        recent_slots r = last_n recentIDCap (replicate recentIDCap [] @ hist))"

lemma recent_ok_init: "recent_ok hist r \<Longrightarrow> recent_ok hist (recent_init r) \<and> rc_order (recent_init r) \<noteq> []"
  by (auto simp: recent_ok_def recent_init_def recent_slots_def last_n_id recentIDCap_def)

lemma recent_set: "recent_ok hist r \<Longrightarrow> rc_order r \<noteq> [] \<Longrightarrow> rc_set r = set (last_n recentIDCap hist)"
  by (simp add: recent_ok_def)

lemma set_last_n_snoc:
  assumes "[] \<notin> set hist" "distinct (last_n n hist)" "0 < n" "i \<notin> set (last_n n hist)"
  defines "old \<equiv> hd (last_n n (replicate n [] @ hist))"
  shows "set (last_n n (hist @ [i])) = insert i (if old \<noteq> [] then set (last_n n hist) - {old} else set (last_n n hist))"
    and "distinct (last_n n (hist @ [i]))"
proof -
  have snoc: "last_n n (hist @ [i]) = last_n (n - 1) hist @ [i]" using assms(3) by (simp add: last_n_snoc)
  show "set (last_n n (hist @ [i])) = insert i (if old \<noteq> [] then set (last_n n hist) - {old} else set (last_n n hist))"
    and "distinct (last_n n (hist @ [i]))"
  proof (atomize (full), cases "n \<le> length hist")
    case True
    then have l: "last_n n (replicate n [] @ hist) = last_n n hist" by (simp add: last_n_append)
    have "last_n n hist \<noteq> []" using True assms(3) by (auto simp: last_n_def)
    then obtain y ys where y: "last_n n hist = y # ys" by (cases "last_n n hist") auto
    have "length hist - (n - 1) = Suc (length hist - n)" using True assms(3) by simp
    then have "last_n (n - 1) hist = tl (last_n n hist)" by (simp add: last_n_def drop_Suc tl_drop)
    then have "last_n (n - 1) hist = ys" using y by simp
    moreover have "y \<noteq> []" using assms(1) y set_last_n [of n hist] by (metis list.set_intros(1) subsetD)
    ultimately show "set (last_n n (hist @ [i])) = insert i (if old \<noteq> [] then set (last_n n hist) - {old} else set (last_n n hist))
        \<and> distinct (last_n n (hist @ [i]))"
      using assms(2,4) snoc y l by (auto simp: old_def)
  next
    case False
    then have "old = []" using assms(3) by (simp add: old_def last_n_append last_n_def hd_append)
    then show "set (last_n n (hist @ [i])) = insert i (if old \<noteq> [] then set (last_n n hist) - {old} else set (last_n n hist))
        \<and> distinct (last_n n (hist @ [i]))"
      using False assms(2,4) snoc by (simp add: last_n_id)
  qed
qed

lemma seen_ok:
  assumes "recent_ok hist r" "i \<noteq> []"
  shows "fst (seen i r) = (i \<in> set (last_n recentIDCap hist))"
    and "recent_ok (if i \<in> set (last_n recentIDCap hist) then hist else hist @ [i]) (snd (seen i r))"
proof -
  let ?r = "recent_init r"
  have ok: "recent_ok hist ?r" "rc_order ?r \<noteq> []" using recent_ok_init [OF assms(1)] by auto
  have st: "rc_set ?r = set (last_n recentIDCap hist)" using recent_set [OF ok] .
  show "fst (seen i r) = (i \<in> set (last_n recentIDCap hist))" by (simp add: seen_def st Let_def)
  show "recent_ok (if i \<in> set (last_n recentIDCap hist) then hist else hist @ [i]) (snd (seen i r))"
  proof (cases "i \<in> set (last_n recentIDCap hist)")
    case True
    then show ?thesis using ok by (simp add: seen_def st Let_def)
  next
    case False
    have len: "length (rc_order ?r) = recentIDCap" "rc_next ?r < recentIDCap" and slots: "recent_slots ?r = last_n recentIDCap (replicate recentIDCap [] @ hist)"
      and h: "[] \<notin> set hist" "distinct (last_n recentIDCap hist)"
      using ok by (auto simp: recent_ok_def)
    have old: "rc_order ?r ! rc_next ?r = hd (last_n recentIDCap (replicate recentIDCap [] @ hist))"
      using len slots by (metis recent_slots_def hd_append2 hd_drop_conv_nth drop_eq_Nil2 linorder_not_le)
    have rot: "drop ((rc_next ?r + 1) mod recentIDCap) ((rc_order ?r)[rc_next ?r := i]) @
        take ((rc_next ?r + 1) mod recentIDCap) ((rc_order ?r)[rc_next ?r := i]) = tl (recent_slots ?r) @ [i]"
      using rotate_write [of "rc_next ?r" "rc_order ?r" i] len by (simp add: recent_slots_def Let_def)
    have "tl (recent_slots ?r) @ [i] = last_n recentIDCap (replicate recentIDCap [] @ hist @ [i])"
      using slots last_n_Suc_full [of "recent_slots ?r" recentIDCap i] last_n_absorb [of recentIDCap "replicate recentIDCap [] @ hist" "[i]"]
      by simp
    then show ?thesis using False st old rot len h assms(2) ok(2) set_last_n_snoc [OF h cap_pos False]
      by (simp add: seen_def Let_def recent_ok_def recent_slots_def)
  qed
qed

text \<open>The platform id of a message, none for other events; the ids let through; the filter an emitter sees.\<close>

definition platform_id :: "Event \<Rightarrow> string" where
  "platform_id ev = (case ev of MessageEvent m \<Rightarrow> um_PlatformMessageID m | _ \<Rightarrow> [])"

definition ids_of :: "Event list \<Rightarrow> string list" where
  "ids_of evs = filter (\<lambda>i. i \<noteq> []) (map platform_id evs)"

fun without_repeats :: "Event list \<Rightarrow> Event list \<Rightarrow> Event list" where
  "without_repeats out [] = out"
| "without_repeats out (ev # evs) =
    without_repeats (if platform_id ev \<noteq> [] \<and> platform_id ev \<in> set (last_n recentIDCap (ids_of out)) then out else out @ [ev]) evs"

lemma emit_eq:
  assumes "recent_ok (ids_of (ta_events a)) (ta_recent a)" "\<not> ta_closed a"
  shows "ta_events (twitch_emit ev a) = without_repeats (ta_events a) [ev]
    \<and> recent_ok (ids_of (ta_events (twitch_emit ev a))) (ta_recent (twitch_emit ev a)) \<and> \<not> ta_closed (twitch_emit ev a)"
proof (cases "platform_id ev = []")
  case True
  then show ?thesis using assms by (cases ev) (auto simp: twitch_emit_def platform_id_def ids_of_def)
next
  case False
  then obtain m where m: "ev = MessageEvent m" "um_PlatformMessageID m \<noteq> []" by (cases ev) (auto simp: platform_id_def)
  then show ?thesis using assms seen_ok [OF assms(1) m(2)]
    by (cases "seen (um_PlatformMessageID m) (ta_recent a)") (auto simp: twitch_emit_def platform_id_def ids_of_def)
qed

lemma emits_eq:
  "recent_ok (ids_of (ta_events a)) (ta_recent a) \<Longrightarrow> \<not> ta_closed a \<Longrightarrow>
    ta_events (fold twitch_emit evs a) = without_repeats (ta_events a) evs
    \<and> recent_ok (ids_of (ta_events (fold twitch_emit evs a))) (ta_recent (fold twitch_emit evs a))"
proof (induction evs arbitrary: a)
  case (Cons ev evs)
  note e = emit_eq [OF Cons.prems, of ev]
  from Cons.IH [of "twitch_emit ev a"] e show ?case by auto
qed simp

definition spaced :: "string list \<Rightarrow> bool" where
  "spaced xs \<longleftrightarrow> (\<forall>us x vs. xs = us @ [x] @ vs \<longrightarrow> x \<notin> set (last_n recentIDCap us))"

lemma spaced_snoc: "spaced xs \<Longrightarrow> x \<notin> set (last_n recentIDCap xs) \<Longrightarrow> spaced (xs @ [x])"
  unfolding spaced_def
proof (intro allI impI)
  fix us y vs
  assume "\<forall>us x vs. xs = us @ [x] @ vs \<longrightarrow> x \<notin> set (last_n recentIDCap us)" "x \<notin> set (last_n recentIDCap xs)" "xs @ [x] = us @ [y] @ vs"
  then show "y \<notin> set (last_n recentIDCap us)" by (cases vs rule: rev_cases) auto
qed

lemma ids_of_snoc: "ids_of (xs @ [ev]) = (if platform_id ev = [] then ids_of xs else ids_of xs @ [platform_id ev])"
  by (simp add: ids_of_def)

lemma without_repeats_spaced: "spaced (ids_of out) \<Longrightarrow> spaced (ids_of (without_repeats out evs))"
proof (induction out evs rule: without_repeats.induct)
  case (2 out ev evs)
  have "spaced (ids_of (out @ [ev]))" if "\<not> (platform_id ev \<noteq> [] \<and> platform_id ev \<in> set (last_n recentIDCap (ids_of out)))"
    using that 2 by (auto simp: ids_of_snoc intro: spaced_snoc)
  then have "spaced (ids_of (if platform_id ev \<noteq> [] \<and> platform_id ev \<in> set (last_n recentIDCap (ids_of out)) then out else out @ [ev]))"
    using 2(2) by simp
  then show ?case unfolding without_repeats.simps by (rule 2(1))
qed simp


subsection \<open>Channels are spread within the cap\<close>

datatype adapter_op =
    TJoin "64 word" "string option" ChannelRef
  | TLeave ChannelRef
  | TState "64 word" "string option" string bool
  | TClose

fun adapter_do :: "adapter_op \<Rightarrow> twitch_adapter \<Rightarrow> twitch_adapter" where
  "adapter_do (TJoin now dial ch) a = snd (twitch_Join now dial ch a)"
| "adapter_do (TLeave ch) a = twitch_Leave ch a"
| "adapter_do (TState now dial slug up) a = onESState now dial slug up a"
| "adapter_do TClose a = twitch_Close a"

definition carriers :: "string \<Rightarrow> twitch_adapter \<Rightarrow> shard list" where
  "carriers slug a = filter (shard_has slug) (ta_shards a)"

text \<open>Every connection is within the cap, and every channel on at most one of them and desired.\<close>

definition routed :: "twitch_adapter \<Rightarrow> bool" where
  "routed a \<longleftrightarrow> 0 < ta_perConn a \<and> (\<forall>sh \<in> set (ta_shards a). int (shard_count sh) \<le> ta_perConn a)
     \<and> (\<forall>slug. length (carriers slug a) \<le> 1 \<and> (carriers slug a \<noteq> [] \<longrightarrow> slug \<in> set (ta_joined a)))"

lemma find_index_Some: "find_index P xs = Some k \<Longrightarrow> k < length xs \<and> P (xs ! k) \<and> (\<forall>j < k. \<not> P (xs ! j))"
  by (induction xs arbitrary: k) (auto split: if_splits simp: less_Suc_eq_0_disj)

lemma find_index_None: "find_index P xs = None \<longleftrightarrow> (\<forall>x \<in> set xs. \<not> P x)"
  by (induction xs) auto

lemma shard_ops [simp]:
  "sh_channels (snd (shard_join slug sh)) = (if sh_closed sh \<or> slug \<in> set (sh_channels sh) then sh_channels sh else sh_channels sh @ [slug])"
  "sh_channels (shard_leave slug sh) = removeAll slug (sh_channels sh)"
  "sh_channels (shard_close sh) = sh_channels sh"
  by (auto simp: shard_join_def shard_leave_def shard_close_def then_write_def split: option.splits)

lemma started_channels: "shard_start None (newShard n bo seed) = (None, sh) \<Longrightarrow> sh_channels sh = [] \<and> \<not> sh_closed sh"
  by (auto simp: shard_start_def newShard_def connect_def)

text \<open>Replacing one shard by one with the same channels but for one more, or one less.\<close>

lemma filter_update:
  assumes "k < length xs"
  shows "filter P (xs[k := y]) = filter P (take k xs) @ (if P y then [y] else []) @ filter P (drop (Suc k) xs)"
    and "filter P xs = filter P (take k xs) @ (if P (xs ! k) then [xs ! k] else []) @ filter P (drop (Suc k) xs)"
proof -
  show "filter P (xs[k := y]) = filter P (take k xs) @ (if P y then [y] else []) @ filter P (drop (Suc k) xs)"
    using assms by (simp add: upd_conv_take_nth_drop)
  have "filter P xs = filter P (take k xs @ xs ! k # drop (Suc k) xs)" using id_take_nth_drop [OF assms] by simp
  then show "filter P xs = filter P (take k xs) @ (if P (xs ! k) then [xs ! k] else []) @ filter P (drop (Suc k) xs)"
    by simp
qed

lemma carriers_update:
  assumes "k < length (ta_shards a)" "\<forall>s. s \<noteq> slug \<longrightarrow> shard_has s sh = shard_has s (ta_shards a ! k)"
  shows "s \<noteq> slug \<Longrightarrow> length (carriers s (a\<lparr>ta_shards := (ta_shards a)[k := sh]\<rparr>)) = length (carriers s a)"
    and "length (carriers slug (a\<lparr>ta_shards := (ta_shards a)[k := sh]\<rparr>)) + (if shard_has slug (ta_shards a ! k) then 1 else 0)
      = length (carriers slug a) + (if shard_has slug sh then 1 else 0)"
  using assms(2) filter_update [OF assms(1)] by (simp_all add: carriers_def)

lemma join_has [simp]: "shard_has s (snd (shard_join slug sh)) = (shard_has s sh \<or> s = slug \<and> \<not> sh_closed sh)"
  by (auto simp: shard_has_def)

lemma leave_has [simp]: "shard_has s (shard_leave slug sh) = (shard_has s sh \<and> s \<noteq> slug)"
  by (auto simp: shard_has_def)

lemma join_count: "int (shard_count sh) < n \<Longrightarrow> int (shard_count (snd (shard_join slug sh))) \<le> n"
  by (auto simp: shard_count_def)

lemma leave_count: "shard_count (shard_leave slug sh) \<le> shard_count sh"
  by (simp add: shard_count_def length_removeAll_less_eq)

text \<open>What \<^verbatim>\<open>ircJoin\<close> and \<^verbatim>\<open>ircLeave\<close> do to the shards.\<close>

lemma ircJoin_cases:
  obtains "snd (ircJoin now dial slug a) = a" "ta_closed a \<or> carriers slug a \<noteq> []"
  | seq err where "snd (ircJoin now dial slug a) = a\<lparr>ta_shardSeq := seq, ta_health := err\<rparr>" "fst (ircJoin now dial slug a) \<noteq> None"
  | k where "carriers slug a = []" "k < length (ta_shards a)" "int (shard_count (ta_shards a ! k)) < ta_perConn a" "\<not> ta_closed a"
      "snd (ircJoin now dial slug a) = a\<lparr>ta_shards := (ta_shards a)[k := snd (shard_join slug (ta_shards a ! k))]\<rparr>"
      "fst (ircJoin now dial slug a) = fst (shard_join slug (ta_shards a ! k))"
  | seq h sh where "carriers slug a = []" "\<forall>sh \<in> set (ta_shards a). ta_perConn a \<le> int (shard_count sh)" "sh_channels sh = []" "\<not> sh_closed sh"
      "snd (ircJoin now dial slug a) = a\<lparr>ta_shardSeq := seq, ta_health := h, ta_shards := ta_shards a @ [snd (shard_join slug sh)]\<rparr>"
proof (cases "ta_closed a \<or> list_ex (shard_has slug) (ta_shards a)")
  case True
  then show ?thesis by (intro that(1)) (auto simp: ircJoin_def carriers_def list_ex_iff filter_empty_conv)
next
  case False
  then have none: "carriers slug a = []" by (auto simp: carriers_def list_ex_iff)
  show ?thesis
  proof (cases "find_index (\<lambda>sh. int (shard_count sh) < ta_perConn a) (ta_shards a)")
    case (Some k)
    then show ?thesis using False none find_index_Some [OF Some]
      by (intro that(3) [of k]) (auto simp: ircJoin_def split: prod.splits)
  next
    case None
    obtain err sh where st: "shard_start dial (newShard (ta_nick a) (ta_backoff a) (now XOR ((ta_shardSeq a + 1) * 0x9e3779b97f4a7c15))) = (err, sh)"
      by (metis prod.exhaust)
    show ?thesis
    proof (cases err)
      case None
      then have "sh_channels sh = [] \<and> \<not> sh_closed sh" using st started_channels by (cases dial) (auto simp: shard_start_def)
      moreover have "\<forall>sh \<in> set (ta_shards a). ta_perConn a \<le> int (shard_count sh)"
        using \<open>find_index _ _ = None\<close> by (simp add: find_index_None not_less)
      ultimately show ?thesis using False none st \<open>find_index _ _ = None\<close> None
        by (intro that(4)) (auto simp: ircJoin_def Let_def split: prod.splits)
    next
      case (Some e)
      then show ?thesis using False st \<open>find_index _ _ = None\<close>
        by (intro that(2)) (auto simp: ircJoin_def Let_def)
    qed
  qed
qed

lemma routed_join:
  assumes "routed a" "slug \<in> set (ta_joined a)"
  shows "routed (snd (ircJoin now dial slug a))"
proof (cases rule: ircJoin_cases [of now dial slug a])
  case (3 k)
  let ?sh = "snd (shard_join slug (ta_shards a ! k))"
  note len = carriers_update [OF 3(2), of slug ?sh]
  have "length (carriers s (snd (ircJoin now dial slug a))) \<le> 1 \<and>
      (carriers s (snd (ircJoin now dial slug a)) \<noteq> [] \<longrightarrow> s \<in> set (ta_joined a))" for s
    using len 3(1,5) assms by (cases "s = slug") (auto simp: routed_def simp flip: length_greater_0_conv split: if_splits)
  moreover have "\<forall>sh \<in> set ((ta_shards a)[k := ?sh]). int (shard_count sh) \<le> ta_perConn a"
    by (rule ball_list_update) (use assms(1) 3(3) join_count in \<open>auto simp: routed_def\<close>)
  ultimately show ?thesis using assms(1) 3(5) by (simp add: routed_def)
next
  case (4 seq h sh)
  then show ?thesis using assms
    by (auto simp: routed_def carriers_def shard_has_def shard_count_def filter_empty_conv)
qed (use assms in \<open>auto simp: routed_def carriers_def\<close>)

lemma routed_leave:
  assumes "routed a"
  shows "routed (ircLeave slug a) \<and> carriers slug (ircLeave slug a) = []
    \<and> (\<forall>s. s \<noteq> slug \<longrightarrow> length (carriers s (ircLeave slug a)) = length (carriers s a))"
proof (cases "find_index (shard_has slug) (ta_shards a)")
  case None
  then have "carriers slug a = []" by (simp add: find_index_None carriers_def)
  then show ?thesis using None assms by (simp add: ircLeave_def)
next
  case (Some k)
  then have k: "k < length (ta_shards a)" "shard_has slug (ta_shards a ! k)" using find_index_Some [OF Some] by simp_all
  let ?sh = "shard_leave slug (ta_shards a ! k)"
  have eq: "ircLeave slug a = a\<lparr>ta_shards := (ta_shards a)[k := ?sh]\<rparr>" using Some by (simp add: ircLeave_def)
  have len: "s \<noteq> slug \<Longrightarrow> length (carriers s (ircLeave slug a)) = length (carriers s a)"
    "length (carriers slug (ircLeave slug a)) = 0" for s
  proof -
    have "length (carriers slug a) \<le> 1" using assms by (simp add: routed_def)
    then show "s \<noteq> slug \<Longrightarrow> length (carriers s (ircLeave slug a)) = length (carriers s a)"
      "length (carriers slug (ircLeave slug a)) = 0"
      using carriers_update [OF k(1), of slug ?sh] k(2) by (simp_all add: eq del: length_0_conv)
  qed
  moreover have "\<forall>sh \<in> set ((ta_shards a)[k := ?sh]). int (shard_count sh) \<le> ta_perConn a"
    by (rule ball_list_update) (use assms k leave_count [of slug "ta_shards a ! k"] in \<open>auto simp: routed_def dest!: bspec [of _ _ "ta_shards a ! k"]\<close>)
  moreover have "length (carriers s (ircLeave slug a)) \<le> 1 \<and> (carriers s (ircLeave slug a) \<noteq> [] \<longrightarrow> s \<in> set (ta_joined a))" for s
    using len assms by (cases "s = slug") (auto simp: routed_def simp flip: length_greater_0_conv)
  ultimately show ?thesis using assms by (auto simp: eq routed_def)
qed

lemma carriers_joined [simp]: "carriers slug (a\<lparr>ta_joined := js\<rparr>) = carriers slug a"
  by (simp add: carriers_def)

lemma irc_frame [simp]:
  "ta_joined (ircLeave slug a) = ta_joined a" "ta_perConn (ircLeave slug a) = ta_perConn a" "ta_closed (ircLeave slug a) = ta_closed a"
  by (auto simp: ircLeave_def split: option.splits)

lemma ircLeave_joined: "ircLeave slug (a\<lparr>ta_joined := js\<rparr>) = (ircLeave slug a)\<lparr>ta_joined := js\<rparr>"
  by (auto simp: ircLeave_def split: option.splits)

lemma routed_do: "routed a \<Longrightarrow> routed (adapter_do op a)"
proof (cases op)
  case (TJoin now dial ch)
  assume r: "routed a"
  have "routed (a\<lparr>ta_joined := List.insert (to_lower (ch_Slug ch)) (ta_joined a)\<rparr>)" using r by (auto simp: routed_def)
  then show ?thesis using TJoin r by (simp add: twitch_Join_def Let_def routed_join)
next
  case (TLeave ch)
  let ?slug = "to_lower (ch_Slug ch)"
  assume r: "routed a"
  have "length (carriers s (ircLeave ?slug a)) = (if s = ?slug then 0 else length (carriers s a))" for s
    using routed_leave [OF r, of ?slug] by auto
  then show ?thesis using TLeave routed_leave [OF r, of ?slug] r
    by (auto simp: twitch_Leave_def Let_def ircLeave_joined routed_def simp flip: length_greater_0_conv)
next
  case (TState now dial slug up)
  assume r: "routed a"
  then show ?thesis using TState routed_leave [OF r, of slug] by (auto simp: onESState_def routed_join)
next
  case TClose
  assume "routed a"
  moreover have "shard_has s (shard_close sh) = shard_has s sh" "shard_count (shard_close sh) = shard_count sh" for s sh
    by (simp_all add: shard_has_def shard_count_def)
  ultimately show ?thesis using TClose
    by (auto simp: twitch_Close_def routed_def carriers_def filter_map comp_def)
qed

text \<open>
  However channels are joined and left and move between IRC and EventSub, no connection ever carries more
  than the cap, a channel is on at most one connection and only while it is wanted, and a join that
  succeeds puts it on exactly one, opening a new connection only when every other one is full.
\<close>

theorem channel_routing:
  assumes "a = fold adapter_do ops (twitch_New opts)" "twitch_Join now dial ch a = (None, a')"
  shows "routed a' \<and> length (carriers (to_lower (ch_Slug ch)) a') = 1
    \<and> (length (ta_shards a') > length (ta_shards a) \<longrightarrow> (\<forall>sh \<in> set (ta_shards a). int (shard_count sh) = ta_perConn a))"
proof -
  let ?slug = "to_lower (ch_Slug ch)" and ?a = "a\<lparr>ta_joined := List.insert (to_lower (ch_Slug ch)) (ta_joined a)\<rparr>"
  have "routed (twitch_New opts)" by (simp add: routed_def twitch_New_def carriers_def)
  then have r: "routed a" unfolding assms(1) 
    by (intro fold_invariant [where Q = "\<lambda>_. True" and P = routed]) (simp_all add: routed_do)
  then have r': "routed ?a" by (auto simp: routed_def)
  have open_a: "\<not> ta_closed a" and j: "ircJoin now dial ?slug ?a = (None, a')"
    using assms(2) by (auto simp: twitch_Join_def Let_def split: if_splits)
  have "routed a'" using routed_join [OF r', of ?slug now dial] j by simp
  then have one: "length (carriers ?slug a') \<le> 1" by (simp add: routed_def)
  have "carriers ?slug a' \<noteq> [] \<and> (length (ta_shards a') > length (ta_shards a) \<longrightarrow> (\<forall>sh \<in> set (ta_shards a). ta_perConn a \<le> int (shard_count sh)))"
  proof (cases rule: ircJoin_cases [of now dial ?slug ?a])
    case 1
    then show ?thesis using j open_a by simp
  next
    case (3 k)
    then have "\<not> sh_closed (ta_shards a ! k)" using j by (auto simp: shard_join_def split: if_splits)
    then have "shard_has ?slug (snd (shard_join ?slug (ta_shards a ! k)))" by simp
    moreover have "snd (shard_join ?slug (ta_shards a ! k)) \<in> set (ta_shards a')" "length (ta_shards a') = length (ta_shards a)"
      using 3(2,5) j set_update_memI [of k "ta_shards a"] by simp_all
    ultimately show ?thesis unfolding carriers_def filter_empty_conv by fastforce
  next
    case (4 seq h sh)
    then show ?thesis using j by (simp add: carriers_def)
  qed (use j in simp)
  then show ?thesis using one r \<open>routed a'\<close> by (cases "carriers ?slug a'") (auto simp: routed_def intro: order.antisym)
qed

definition small_options :: Options where
  "small_options = \<lparr>op_Nick = [], op_ChannelsPerConn = 1, op_BackoffBase = 0, op_BackoffMax = 0\<rparr>"

theorem channel_routing_witness:
  "routed (snd (twitch_Join 7 None (twitch_channel ''a'') (twitch_New small_options)))"
proof -
  have "fst (twitch_Join 7 None (twitch_channel ''a'') (twitch_New small_options)) = None"
    by (simp add: twitch_Join_def twitch_New_def ircJoin_def shard_start_def newShard_def connect_def shard_join_def Let_def)
  then show ?thesis
    using channel_routing [of "twitch_New small_options" "[]" small_options 7 None "twitch_channel ''a''"] by (metis fold_simps(1) prod.collapse)
qed

text \<open>A join that fails to dial is remembered as wanted: signing in later subscribes to the channel.\<close>

lemma failed_join_remembered:
  assumes "fst (twitch_Join now (Some err) ch (twitch_New opts)) \<noteq> None"
  shows "to_lower (ch_Slug ch) \<in> set (ta_joined (snd (twitch_Join now (Some err) ch (twitch_New opts))))"
  by (auto simp: twitch_Join_def twitch_New_def ircJoin_def shard_start_def Let_def)

subsection \<open>Health\<close>

text \<open>The adapter is as unhealthy as its worst connection, and the EventSub side can make it degraded at most.\<close>

lemma health_worst:
  "healthRank (hs_State (twitch_Health None a)) = Max (insert (healthRank (hs_State (ta_health a))) (set (map (healthRank \<circ> hs_State \<circ> sh_health) (ta_shards a))))"
proof -
  have "healthRank (hs_State (fold (\<lambda>sh worst. if healthRank (hs_State (sh_health sh)) > healthRank (hs_State worst) then sh_health sh else worst) shs h)) =
      fold max (map (healthRank \<circ> hs_State \<circ> sh_health) shs) (healthRank (hs_State h))" for shs h
    by (induction shs arbitrary: h) (auto simp: max_def)
  then show ?thesis by (simp add: twitch_Health_def Max.set_eq_fold [symmetric] Let_def)
qed

end
