(* ===== verification/Twitch_EventSub_Normalize.thy ===== *)
theory Twitch_EventSub_Normalize
  imports Twitch_Normalize
begin

text \<open>
  \<^verbatim>\<open>internal/platform/twitch/eventsub.go\<close>: EventSub notifications to platform events. The JSON decoders
  and \<^verbatim>\<open>time.Parse\<close> are the fields of \<open>es_decoders\<close>, each None where the standard library reports an
  error; the structs hold the fields the code decodes.
\<close>

subsection \<open>Frames\<close>

record esEnvelope =
  ev_MessageType :: string
  ev_SubscriptionType :: string
  ev_MessageTimestamp :: string
  ev_Payload :: string

record esSession =
  ess_ID :: string
  ess_ReconnectURL :: string

record esRevokedSub =
  rv_ID :: string
  rv_Type :: string
  rv_BroadcasterUserID :: string

record esFragment =
  fr_Type :: string
  fr_Text :: string
  fr_Emote :: "string option"
  fr_Cheermote :: "int option"

record esMessageBody =
  mb_Text :: string
  mb_Fragments :: "esFragment list"

record esBadge =
  eb_SetID :: string
  eb_ID :: string

text \<open>The author fields the chat and notification events share.\<close>

record esChatMessage =
  cm_BroadcasterLogin :: string
  cm_BroadcasterName :: string
  cm_ChatterID :: string
  cm_ChatterLogin :: string
  cm_ChatterName :: string
  cm_MessageID :: string
  cm_Message :: esMessageBody
  cm_Color :: string
  cm_Badges :: "esBadge list"
  cm_MessageType :: string
  cm_Reply :: "(string \<times> string \<times> string) option"

record esChatNotification =
  cn_BroadcasterLogin :: string
  cn_ChatterID :: string
  cn_ChatterLogin :: string
  cn_ChatterName :: string
  cn_Color :: string
  cn_Badges :: "esBadge list"
  cn_NoticeType :: string
  cn_SystemMessage :: string
  cn_Message :: esMessageBody

record esSettings =
  et_BroadcasterLogin :: string
  et_EmoteMode :: bool
  et_FollowerMode :: bool
  et_FollowerModeDurationMins :: "int option"
  et_SlowMode :: bool
  et_SlowModeWaitTimeSecs :: "int option"
  et_SubscriberMode :: bool
  et_UniqueChatMode :: bool

record esHold =
  eh_BroadcasterLogin :: string
  eh_UserID :: string
  eh_UserLogin :: string
  eh_UserName :: string
  eh_MessageID :: string
  eh_Message :: esMessageBody
  eh_Category :: string
  eh_HeldAt :: string

record es_decoders =
  dec_envelope :: "string \<Rightarrow> esEnvelope option"
  dec_session :: "string \<Rightarrow> esSession option"
  dec_revocation :: "string \<Rightarrow> esRevokedSub option"
  dec_event :: "string \<Rightarrow> string option"
  dec_chat :: "string \<Rightarrow> esChatMessage option"
  dec_notification :: "string \<Rightarrow> esChatNotification option"
  dec_deleted :: "string \<Rightarrow> (string \<times> string) option"
  dec_clear :: "string \<Rightarrow> string option"
  dec_settings :: "string \<Rightarrow> esSettings option"
  dec_hold :: "string \<Rightarrow> esHold option"
  dec_resolved :: "string \<Rightarrow> (string \<times> string \<times> string) option"
  dec_time :: "string \<Rightarrow> time option"

definition parseESTimestamp :: "es_decoders \<Rightarrow> string \<Rightarrow> time" where
  "parseESTimestamp dec v = (if v = [] then zero_time else (case dec_time dec v of None \<Rightarrow> zero_time | Some t \<Rightarrow> t))"

subsection \<open>Messages\<close>

definition chatType :: "string \<Rightarrow> MessageType" where
  "chatType t = (if t = ''action'' then TypeAction else TypeChat)"

definition fragment_segs :: "esFragment \<Rightarrow> Segment list" where
  "fragment_segs f =
    (if fr_Type f = ''emote'' then [emote_seg (case fr_Emote f of None \<Rightarrow> [] | Some i \<Rightarrow> i) (fr_Text f)]
     else if fr_Type f = ''mention'' then [seg SegMention (fr_Text f)]
     else if fr_Type f = ''cheermote'' then
       [(seg SegCheer (fr_Text f))\<lparr>sg_CheerBits := (case fr_Cheermote f of None \<Rightarrow> 0 | Some n \<Rightarrow> n)\<rparr>]
     else Text (fr_Text f))"

definition segmentsFromFragments :: "esFragment list \<Rightarrow> Segment list" where
  "segmentsFromFragments frags = concat (map fragment_segs frags)"

definition badgesFromEventSub :: "esBadge list \<Rightarrow> Badge list" where
  "badgesFromEventSub badges = map (\<lambda>b. \<lparr>bd_Set = eb_SetID b, bd_Version = eb_ID b, bd_Title = [], bd_URL = []\<rparr>) badges"

definition es_channel :: "string \<Rightarrow> ChannelRef" where
  "es_channel login = \<lparr>ch_Platform = Twitch, ch_ID = [], ch_Slug = login, ch_DisplayName = []\<rparr>"

definition normalizeEventSubMessage :: "es_decoders \<Rightarrow> string \<Rightarrow> UnifiedMessage option" where
  "normalizeEventSubMessage dec raw = (case dec_chat dec raw of
     None \<Rightarrow> None
   | Some e \<Rightarrow> Some \<lparr>um_ID = [], um_PlatformMessageID = cm_MessageID e, um_Platform = Twitch,
       um_Channel = (es_channel (cm_BroadcasterLogin e))\<lparr>ch_DisplayName := cm_BroadcasterName e\<rparr>,
       um_Type = chatType (cm_MessageType e),
       um_Author = \<lparr>au_ID = cm_ChatterID e, au_Login = cm_ChatterLogin e, au_DisplayName = cm_ChatterName e,
         au_Color = cm_Color e, au_Badges = badgesFromEventSub (cm_Badges e)\<rparr>,
       um_Segments = segmentsFromFragments (mb_Fragments (cm_Message e)),
       um_ReplyTo = (case cm_Reply e of None \<Rightarrow> None | Some (parent, login, body) \<Rightarrow>
         Some \<lparr>mr_PlatformMessageID = parent, mr_AuthorLogin = login, mr_TextSnippet = body\<rparr>),
       um_SentAt = zero_time, um_ReceivedAt = zero_time, um_Ephemeral = False, um_Raw = [], um_Annotations = None\<rparr>)"

definition esNoticeTypes :: "(string \<times> MessageType) list" where
  "esNoticeTypes = [(''sub'', TypeSub), (''resub'', TypeResub), (''sub_gift'', TypeGiftSub),
     (''community_sub_gift'', TypeGiftSub), (''raid'', TypeRaid), (''announcement'', TypeAnnouncement)]"

definition normalizeEventSubNotification :: "es_decoders \<Rightarrow> string \<Rightarrow> UnifiedMessage option" where
  "normalizeEventSubNotification dec raw = (case dec_notification dec raw of
     None \<Rightarrow> None
   | Some e \<Rightarrow>
       let segs = segmentsFromFragments (mb_Fragments (cn_Message e))
       in Some \<lparr>um_ID = [], um_PlatformMessageID = [], um_Platform = Twitch, um_Channel = es_channel (cn_BroadcasterLogin e),
         um_Type = (case map_of esNoticeTypes (cn_NoticeType e) of Some t \<Rightarrow> t | None \<Rightarrow> TypeSystem),
         um_Author = \<lparr>au_ID = cn_ChatterID e, au_Login = cn_ChatterLogin e, au_DisplayName = cn_ChatterName e,
           au_Color = cn_Color e, au_Badges = badgesFromEventSub (cn_Badges e)\<rparr>,
         um_Segments = (if segs = [] then Text (cn_SystemMessage e) else segs),
         um_ReplyTo = None, um_SentAt = zero_time, um_ReceivedAt = zero_time, um_Ephemeral = False,
         um_Raw = [], um_Annotations = None\<rparr>)"

subsection \<open>Other events\<close>

definition deletedFromEvent :: "es_decoders \<Rightarrow> string \<Rightarrow> Event option" where
  "deletedFromEvent dec raw = map_option (\<lambda>(login, i). MessageDeletedEvent (es_channel login) i []) (dec_deleted dec raw)"

definition clearFromEvent :: "es_decoders \<Rightarrow> string \<Rightarrow> Event option" where
  "clearFromEvent dec raw = map_option (\<lambda>login. ChannelClearEvent (es_channel login) []) (dec_clear dec raw)"

definition settingsFromEvent :: "es_decoders \<Rightarrow> string \<Rightarrow> Event option" where
  "settingsFromEvent dec raw = map_option (\<lambda>e. ChatSettingsEvent (es_channel (et_BroadcasterLogin e))
     \<lparr>cs_EmoteOnly = et_EmoteMode e, cs_SubsOnly = et_SubscriberMode e, cs_UniqueChat = et_UniqueChatMode e,
      cs_FollowersOnlyMinutes = (if et_FollowerMode e
        then (case et_FollowerModeDurationMins e of Some n \<Rightarrow> n | None \<Rightarrow> 0) else - 1),
      cs_SlowSeconds = (if et_SlowMode e then (case et_SlowModeWaitTimeSecs e of Some n \<Rightarrow> n | None \<Rightarrow> 0) else 0)\<rparr>)
     (dec_settings dec raw)"

definition heldFromEvent :: "es_decoders \<Rightarrow> string \<Rightarrow> time \<Rightarrow> Event option" where
  "heldFromEvent dec raw sentAt = map_option (\<lambda>e.
     let heldAt = parseESTimestamp dec (eh_HeldAt e)
     in MessageHeldEvent \<lparr>hm_ID = eh_MessageID e, hm_Channel = es_channel (eh_BroadcasterLogin e),
          hm_Author = \<lparr>au_ID = eh_UserID e, au_Login = eh_UserLogin e, au_DisplayName = eh_UserName e, au_Color = [], au_Badges = []\<rparr>,
          hm_Text = mb_Text (eh_Message e), hm_Reason = eh_Category e,
          hm_HeldAt = (if heldAt = zero_time then sentAt else heldAt)\<rparr>) (dec_hold dec raw)"

definition heldResolvedFromEvent :: "es_decoders \<Rightarrow> string \<Rightarrow> Event option" where
  "heldResolvedFromEvent dec raw = map_option (\<lambda>(login, i, status).
     HeldResolvedEvent (es_channel login) i (equal_fold status ''approved'')) (dec_resolved dec raw)"

abbreviation subChatMessage :: string where "subChatMessage \<equiv> ''channel.chat.message''"
abbreviation subChatNotif :: string where "subChatNotif \<equiv> ''channel.chat.notification''"
abbreviation subChatClear :: string where "subChatClear \<equiv> ''channel.chat.clear''"
abbreviation subChatDelete :: string where "subChatDelete \<equiv> ''channel.chat.message_delete''"
abbreviation subChatSettings :: string where "subChatSettings \<equiv> ''channel.chat_settings.update''"
abbreviation subAutomodHold :: string where "subAutomodHold \<equiv> ''automod.message.hold''"
abbreviation subAutomodUpd :: string where "subAutomodUpd \<equiv> ''automod.message.update''"

text \<open>None: an error, or a subscription type that is not surfaced; the caller treats both the same way.\<close>

definition eventFromNotification :: "es_decoders \<Rightarrow> string \<Rightarrow> string \<Rightarrow> time \<Rightarrow> Event option" where
  "eventFromNotification dec subType payload sentAt = (case dec_event dec payload of
     None \<Rightarrow> None
   | Some ev \<Rightarrow>
       if subType = subChatMessage then map_option (\<lambda>m. MessageEvent (m\<lparr>um_SentAt := sentAt\<rparr>)) (normalizeEventSubMessage dec ev)
       else if subType = subChatNotif then map_option (\<lambda>m. MessageEvent (m\<lparr>um_SentAt := sentAt\<rparr>)) (normalizeEventSubNotification dec ev)
       else if subType = subChatDelete then deletedFromEvent dec ev
       else if subType = subChatClear then clearFromEvent dec ev
       else if subType = subChatSettings then settingsFromEvent dec ev
       else if subType = subAutomodHold then heldFromEvent dec ev sentAt
       else if subType = subAutomodUpd then heldResolvedFromEvent dec ev
       else None)"

subsection \<open>Runes of a concatenation\<close>

lemma well_formed_append: "2 \<le> n \<Longrightarrow> well_formed_at n b s \<Longrightarrow> well_formed_at n b (s @ t)"
  using well_formed_at_length [of n b s]
  by (auto simp: well_formed_at_def in_range_def list_all_iff nth_append)

lemma decode_append:
  assumes "s \<noteq> []" "rune_bytes (fst (decode_rune s), take (snd (decode_rune s)) s) = take (snd (decode_rune s)) s"
  shows "decode_rune (s @ t) = decode_rune s"
proof (cases s)
  case (Cons c s')
  have len: "length (rune_bytes (rune_error, x)) = 3" for x by (simp add: rune_bytes_def)
  let ?b = "byte c"
  have err: "decode_rune s = (rune_error, 1)" if "\<not> ?b < 128" "\<not> (194 \<le> ?b \<and> ?b \<le> 223 \<and> well_formed_at 2 ?b s)"
    "\<not> (224 \<le> ?b \<and> ?b \<le> 239 \<and> well_formed_at 3 ?b s)" "\<not> (240 \<le> ?b \<and> ?b \<le> 244 \<and> well_formed_at 4 ?b s)"
    using that unfolding Cons decode_rune_def Let_def list.case by (simp only: if_False)
  consider "?b < 128" | "194 \<le> ?b \<and> ?b \<le> 223 \<and> well_formed_at 2 ?b s" | "224 \<le> ?b \<and> ?b \<le> 239 \<and> well_formed_at 3 ?b s"
    | "240 \<le> ?b \<and> ?b \<le> 244 \<and> well_formed_at 4 ?b s" | "decode_rune s = (rune_error, 1)"
    using err by blast
  then show ?thesis
  proof cases
    case 5
    then have "length (take 1 s) = 3" using assms(2) len by (metis fst_conv snd_conv)
    then show ?thesis by simp
  next
    case 2
    moreover have "2 \<le> length s" using well_formed_at_length [of 2 ?b s] 2 by simp
    ultimately show ?thesis using Cons well_formed_append [of 2 ?b s t]
      by (auto simp: decode_rune_def Let_def nth_append nth_Cons' split: if_splits)
  next
    case 3
    moreover have "3 \<le> length s" using well_formed_at_length [of 3 ?b s] 3 by simp
    ultimately show ?thesis using Cons well_formed_append [of 3 ?b s t]
      by (auto simp: decode_rune_def Let_def nth_append nth_Cons' split: if_splits)
  next
    case 4
    moreover have "4 \<le> length s" using well_formed_at_length [of 4 ?b s] 4 by simp
    ultimately show ?thesis using Cons well_formed_append [of 4 ?b s t]
      by (auto simp: decode_rune_def Let_def nth_append nth_Cons' split: if_splits)
  qed (use Cons in \<open>simp add: decode_rune_def\<close>)
qed (use assms in simp)

lemma runes_append: "valid_utf8 s \<Longrightarrow> runes (s @ t) = runes s @ runes t"
proof (induction s rule: runes.induct)
  case (1 s)
  show ?case
  proof (cases "s = []")
    case True
    then show ?thesis by (simp add: runes.simps [of "[]"])
  next
    case False
    obtain r n where d: "decode_rune s = (r, n)" by fastforce
    have n: "n \<le> length s" "0 < n" using decode_rune_size [OF False] d by auto
    have rs: "runes s = (r, take n s) # runes (drop n s)" using False d by (subst runes.simps) simp
    then have "valid_utf8 (drop n s)" "rune_bytes (r, take n s) = take n s" using "1.prems" by (simp_all add: valid_utf8_def)
    then have "decode_rune (s @ t) = (r, n)" "runes (drop n s @ t) = runes (drop n s) @ runes t"
      using decode_append [OF False] d "1.IH" [OF False] by auto
    then have "runes (s @ t) = (r, take n s) # runes (drop n s) @ runes t"
      using False n by (subst runes.simps) simp
    then show ?thesis using rs by simp
  qed
qed

lemma valid_append: "valid_utf8 s \<Longrightarrow> valid_utf8 t \<Longrightarrow> valid_utf8 (s @ t)"
  by (simp add: valid_utf8_def [of "s @ t"] runes_append) (simp add: valid_utf8_def)

subsection \<open>The two transports agree\<close>

text \<open>The emotes tag IRC carries for a message EventSub delivers as fragments: positions are counted in runes.\<close>

fun irc_spans :: "nat \<Rightarrow> esFragment list \<Rightarrow> emoteSpan list" where
  "irc_spans n [] = []"
| "irc_spans n (f # fs) =
    (if fr_Type f = ''emote''
     then \<lparr>sp_id = (case fr_Emote f of None \<Rightarrow> [] | Some i \<Rightarrow> i), sp_start = int n,
            sp_end = int (n + length (runes (fr_Text f))) - 1\<rparr> # irc_spans (n + length (runes (fr_Text f))) fs
     else irc_spans (n + length (runes (fr_Text f))) fs)"

definition frag_text :: "esFragment list \<Rightarrow> string" where
  "frag_text fs = concat (map fr_Text fs)"

text \<open>Text and emote fragments as Twitch cuts them: never empty, and a text runs on to the next emote.\<close>

fun well_cut :: "esFragment list \<Rightarrow> bool" where
  "well_cut [] = True"
| "well_cut (f # fs) =
    (fr_Type f \<in> {''text'', ''emote''} \<and> fr_Text f \<noteq> [] \<and> valid_utf8 (fr_Text f)
     \<and> (fr_Type f = ''text'' \<longrightarrow> fs = [] \<or> fr_Type (hd fs) = ''emote'') \<and> well_cut fs)"

lemma fragments_keep_text: "seg_text (segmentsFromFragments frags) = frag_text frags"
  by (induction frags) (auto simp: segmentsFromFragments_def fragment_segs_def frag_text_def emote_seg_def)

lemma runes_Nil [simp]: "runes [] = []"
  by (simp add: runes.simps)

lemma runes_empty [simp]: "runes s = [] \<longleftrightarrow> s = []"
  by (subst runes.simps) (simp add: case_prod_beta)

lemma well_cut_valid: "well_cut fs \<Longrightarrow> valid_utf8 (frag_text fs)"
  by (induction fs) (auto simp: frag_text_def valid_append, simp add: valid_utf8_def)

lemma span_segs_fragments:
  assumes "well_cut fs" "valid_utf8 mid" "mid \<noteq> [] \<Longrightarrow> fs = [] \<or> fr_Type (hd fs) = ''emote''"
    "rs = ps @ runes mid @ runes (frag_text fs)"
  shows "span_segs rs (length ps) (irc_spans (length ps + length (runes mid)) fs)
    = (if mid = [] then [] else Text mid) @ segmentsFromFragments fs"
  using assms
proof (induction fs arbitrary: ps mid)
  case Nil
  then show ?case
    by (auto simp: frag_text_def segmentsFromFragments_def string_of_runes_valid)
next
  case (Cons f fs)
  have f: "valid_utf8 (fr_Text f)" "fr_Text f \<noteq> []" "well_cut fs" using Cons.prems(1) by simp_all
  have rs: "rs = ps @ runes mid @ runes (fr_Text f) @ runes (frag_text fs)"
    using Cons.prems(4) f(1) by (simp add: frag_text_def runes_append)
  show ?case
  proof (cases "fr_Type f = ''emote''")
    case False
    then have t: "fr_Type f = ''text''" "mid = []" using Cons.prems(1,3) by auto
    then have "fs = [] \<or> fr_Type (hd fs) = ''emote''" using Cons.prems(1) by simp
    then have "span_segs rs (length ps) (irc_spans (length ps + length (runes (fr_Text f))) fs) = Text (fr_Text f) @ segmentsFromFragments fs"
      using Cons.IH [OF f(3,1), of ps] rs t(2) f(2) by simp
    then show ?thesis using t f(2) by (simp add: segmentsFromFragments_def fragment_segs_def)
  next
    case True
    let ?n = "length ps + length (runes mid)" and ?l = "length (runes (fr_Text f))"
    have pos: "0 < ?l" using f(2) by simp
    have len: "?n + ?l \<le> length rs" by (simp add: rs)
    have slices: "rune_slice (length ps) ?n rs = string_of_runes (runes mid)" "rune_slice ?n (?n + ?l) rs = fr_Text f"
      using f(1) by (simp_all add: rune_slice_def rs string_of_runes_valid)
    have ih: "span_segs rs (?n + ?l) (irc_spans (?n + ?l) fs) = segmentsFromFragments fs"
      using Cons.IH [OF f(3), of "[]" "ps @ runes mid @ runes (fr_Text f)"] rs by (simp add: valid_utf8_def add.assoc)
    have e: "nat (int ?n + int ?l - 1) + 1 = ?n + ?l" using pos by linarith
    have n: "nat (int (length ps) + int (length (runes mid))) = ?n" by linarith
    show ?thesis using True pos len slices ih e n Cons.prems(2) string_of_runes_valid [of mid]
      by (cases "mid = []") (simp_all add: segmentsFromFragments_def fragment_segs_def add.assoc)
  qed
qed

text \<open>
  C26. A message cut into text and emote fragments gives the same segments over EventSub as the IRC path builds
  from the whole text and the rune positions of its emotes, and neither loses a byte of it.
\<close>

theorem transports_agree:
  assumes "well_cut frags"
  shows "segmentsFromFragments frags = buildSegments (frag_text frags) (irc_spans 0 frags)
    \<and> seg_text (segmentsFromFragments frags) = frag_text frags"
proof -
  have no: "segmentsFromFragments frags = Text (frag_text frags)" if "irc_spans 0 frags = []"
  proof (cases frags rule: well_cut.cases)
    case 1
    then show ?thesis by (simp add: segmentsFromFragments_def frag_text_def Text_def) code_simp
  next
    case (2 f fs)
    then have "fr_Type f = ''text''" "fs = []" using assms that by (cases fs; auto split: if_splits)+
    then show ?thesis using 2 by (simp add: segmentsFromFragments_def fragment_segs_def frag_text_def)
  qed
  then show ?thesis using span_segs_fragments [OF assms, of "[]" "runes (frag_text frags)" "[]"]
    by (auto simp: buildSegments_def fragments_keep_text valid_utf8_def)
qed

theorem transports_agree_witness:
  "segmentsFromFragments [\<lparr>fr_Type = ''text'', fr_Text = ''hi '', fr_Emote = None, fr_Cheermote = None\<rparr>,
     \<lparr>fr_Type = ''emote'', fr_Text = ''Kappa'', fr_Emote = Some ''25'', fr_Cheermote = None\<rparr>]
   = buildSegments ''hi Kappa'' [\<lparr>sp_id = ''25'', sp_start = 3, sp_end = 7\<rparr>]"
proof -
  let ?fs = "[\<lparr>fr_Type = ''text'', fr_Text = ''hi '', fr_Emote = None, fr_Cheermote = None\<rparr>,
     \<lparr>fr_Type = ''emote'', fr_Text = ''Kappa'', fr_Emote = Some ''25'', fr_Cheermote = None\<rparr>]"
  have r: "length (runes ''hi '') = 3" "length (runes ''Kappa'') = 5" "valid_utf8 ''hi ''" "valid_utf8 ''Kappa''" by code_simp+
  then have "well_cut ?fs" by simp
  then show ?thesis using transports_agree [of ?fs] r by (simp add: frag_text_def)
qed

end
