(* ===== verification/Go_Encoding.thy ===== *)
theory Go_Encoding
  imports Go_Values
begin

text \<open>The encodings of \<^verbatim>\<open>encoding/hex\<close> and of decimal numbers, used by webhooks and API tokens.\<close>

definition hex_digit :: "nat \<Rightarrow> char" where
  "hex_digit n = (if n < 10 then char_of (48 + n) else char_of (87 + n))"

definition hex :: "string \<Rightarrow> string" where
  "hex s = concat (map (\<lambda>c. [hex_digit (byte c div 16), hex_digit (byte c mod 16)]) s)"

lemma hex_Nil [simp]: "hex [] = []"
  by (simp add: hex_def)

lemma hex_Cons [simp]: "hex (c # s) = hex_digit (byte c div 16) # hex_digit (byte c mod 16) # hex s"
  by (simp add: hex_def)

lemma length_hex [simp]: "length (hex s) = 2 * length s"
  by (induction s) simp_all

lemma hex_digit_inj: "m < 16 \<Longrightarrow> n < 16 \<Longrightarrow> hex_digit m = hex_digit n \<Longrightarrow> m = n"
proof -
  assume "m < 16" "n < 16" "hex_digit m = hex_digit n"
  moreover have "byte (hex_digit n) = (if n < 10 then 48 + n else 87 + n)" if "n < 16" for n
    using that by (simp add: hex_digit_def)
  ultimately have "(if m < 10 then 48 + m else 87 + m) = (if n < 10 then 48 + n else 87 + n)" by metis
  then show "m = n" by (simp split: if_splits)
qed

lemma hex_inj: "hex s = hex t \<Longrightarrow> s = t"
proof (induction s arbitrary: t)
  case Nil
  then show ?case by (cases t) simp_all
next
  case (Cons c s)
  then obtain d t' where t: "t = d # t'" by (cases t) simp_all
  have "byte c div 16 = byte d div 16" "byte c mod 16 = byte d mod 16"
    using Cons.prems t by (auto intro!: hex_digit_inj simp: less_mult_imp_div_less)
  then have "byte c = byte d" by (metis div_mult_mod_eq)
  then show ?case using Cons t by simp
qed

fun decimal :: "nat \<Rightarrow> string" where
  "decimal n = (if n < 10 then [char_of (48 + n)] else decimal (n div 10) @ [char_of (48 + n mod 10)])"

declare decimal.simps [simp del]

definition format_int :: "int \<Rightarrow> string" where
  "format_int n = (if n < 0 then CHR ''-'' # decimal (nat (- n)) else decimal (nat n))"

text \<open>\<^verbatim>\<open>%q\<close> of a string that has nothing to escape, such as a login.\<close>

definition quoted :: "string \<Rightarrow> string" where
  "quoted s = [CHR 0x22] @ s @ [CHR 0x22]"

end
