(* ===== verification/Http_Calls.thy ===== *)
theory Http_Calls
  imports Go_Encoding
begin

text \<open>
  Outgoing HTTP requests, as the platform clients shape them: method, endpoint, query parameters,
  credentials and a JSON body. The network is a \<open>transport\<close>, a function of the requests made
  before and the request, whose answer is an error or a status and a body; the requests made are
  kept in order, so that theorems can speak of what was sent.
\<close>

datatype jvalue = JStr string | JInt int | JBool bool | JList "jvalue list" | JObj "(string \<times> jvalue) list"

record http_call =
  hc_Method :: string
  hc_URL :: string
  hc_Query :: "(string \<times> string) list"
  hc_Token :: string
  hc_ClientID :: string
  hc_Body :: "jvalue option"

type_synonym http_answer = "string + int \<times> string"

type_synonym transport = "http_call list \<Rightarrow> http_call \<Rightarrow> http_answer"

text \<open>The answers the clients take for success: any 2xx.\<close>

definition accepted :: "http_answer \<Rightarrow> bool" where
  "accepted ans = (case ans of Inl e \<Rightarrow> False | Inr (status, raw) \<Rightarrow> 200 \<le> status \<and> status < 300)"

definition status_error :: "string \<Rightarrow> int \<Rightarrow> string \<Rightarrow> string" where
  "status_error label status raw = label @ '': status '' @ format_int status @ '': '' @ raw"

end
