(* ===== verification/Twitch_Helix.thy ===== *)
theory Twitch_Helix
  imports Platform Http_Calls
begin

text \<open>
  Sending and moderating on Twitch (\<^verbatim>\<open>internal/platform/twitch\<close>: \<^verbatim>\<open>helix.go\<close>, \<^verbatim>\<open>moderation.go\<close>,
  \<^verbatim>\<open>eventsub_helix.go\<close> and the authenticated half of \<^verbatim>\<open>adapter.go\<close>). The token source, the channel
  resolver, the HTTP transport and the JSON decoder are the fields of \<open>helix_env\<close>; the state is the
  cache of user ids and the requests made. Request bodies are JSON trees and queries are parameter
  lists: their encoding to bytes is the standard library's. Building a request for one of the fixed
  endpoints and encoding these bodies cannot fail, so those error branches have no counterpart; the text of a decoding
  error, which the standard library gives, is left out of the errors that wrap it.
\<close>

subsection \<open>The Helix client\<close>

record HelixClient =
  hx_clientID :: string
  hx_sendURL :: string
  hx_usersURL :: string
  hx_bansURL :: string
  hx_chatModURL :: string
  hx_chatSettingsURL :: string
  hx_automodURL :: string
  hx_eventSubURL :: string

definition NewHelixClient :: "string \<Rightarrow> HelixClient" where
  "NewHelixClient clientID = \<lparr>hx_clientID = clientID,
     hx_sendURL = ''https://api.twitch.tv/helix/chat/messages'',
     hx_usersURL = ''https://api.twitch.tv/helix/users'',
     hx_bansURL = ''https://api.twitch.tv/helix/moderation/bans'',
     hx_chatModURL = ''https://api.twitch.tv/helix/moderation/chat'',
     hx_chatSettingsURL = ''https://api.twitch.tv/helix/chat/settings'',
     hx_automodURL = ''https://api.twitch.tv/helix/moderation/automod/message'',
     hx_eventSubURL = ''https://api.twitch.tv/helix/eventsub/subscriptions''\<rparr>"

text \<open>The send endpoint's answer: message id, whether it was sent, and the drop reason's code and message.\<close>

record sent_item =
  si_MessageID :: string
  si_IsSent :: bool
  si_DropReason :: "(string \<times> string) option"

record helix_env =
  he_helix :: HelixClient
  he_http :: transport
  he_tokens :: "string + string"
  he_resolve :: "(string \<Rightarrow> string + string) option"
  he_ids :: "string \<Rightarrow> string list option"
  he_sent :: "string \<Rightarrow> sent_item list option"

record twitchAuth =
  au_senderID :: string
  au_bid :: "string \<rightharpoonup> string"
  au_calls :: "http_call list"

definition helix_call :: "helix_env \<Rightarrow> string \<Rightarrow> string \<Rightarrow> string \<Rightarrow> (string \<times> string) list \<Rightarrow> jvalue option \<Rightarrow> http_call" where
  "helix_call en tok meth url query body = \<lparr>hc_Method = meth, hc_URL = url, hc_Query = query, hc_Token = tok,
     hc_ClientID = hx_clientID (he_helix en), hc_Body = body\<rparr>"

definition call_http :: "helix_env \<Rightarrow> http_call \<Rightarrow> twitchAuth \<Rightarrow> http_answer \<times> twitchAuth" where
  "call_http en rq au = (he_http en (au_calls au) rq, au\<lparr>au_calls := au_calls au @ [rq]\<rparr>)"

text \<open>\<open>HelixClient.do\<close>: any status outside 2xx is an error carrying the body.\<close>

definition helix_do :: "helix_env \<Rightarrow> string \<Rightarrow> string \<Rightarrow> string \<Rightarrow> (string \<times> string) list \<Rightarrow> string \<Rightarrow> jvalue option \<Rightarrow> twitchAuth \<Rightarrow> error \<times> twitchAuth" where
  "helix_do en tok meth url query label body au =
    (case call_http en (helix_call en tok meth url query body) au of
       (Inl e, au) \<Rightarrow> (Some e, au)
     | (Inr (status, raw), au) \<Rightarrow>
         (if status < 200 \<or> 300 \<le> status then Some (status_error (''twitch: '' @ label) status raw) else None, au))"

definition modQuery :: "string \<Rightarrow> string \<Rightarrow> (string \<times> string) list" where
  "modQuery broadcasterID moderatorID = [(''broadcaster_id'', broadcasterID), (''moderator_id'', moderatorID)]"

definition helix_Ban :: "helix_env \<Rightarrow> string \<Rightarrow> string \<Rightarrow> string \<Rightarrow> string \<Rightarrow> int \<Rightarrow> string \<Rightarrow> twitchAuth \<Rightarrow> error \<times> twitchAuth" where
  "helix_Ban en tok bid moderator uid secs reason =
    (let dat = [(''user_id'', JStr uid)] @ (if secs > 0 then [(''duration'', JInt secs)] else [])
           @ (if reason \<noteq> [] then [(''reason'', JStr reason)] else [])
     in helix_do en tok ''POST'' (hx_bansURL (he_helix en)) (modQuery bid moderator) ''ban'' (Some (JObj [(''data'', JObj dat)])))"

definition helix_Unban :: "helix_env \<Rightarrow> string \<Rightarrow> string \<Rightarrow> string \<Rightarrow> string \<Rightarrow> twitchAuth \<Rightarrow> error \<times> twitchAuth" where
  "helix_Unban en tok bid moderator uid =
    helix_do en tok ''DELETE'' (hx_bansURL (he_helix en)) (modQuery bid moderator @ [(''user_id'', uid)]) ''unban'' None"

definition helix_DeleteMessage :: "helix_env \<Rightarrow> string \<Rightarrow> string \<Rightarrow> string \<Rightarrow> string \<Rightarrow> twitchAuth \<Rightarrow> error \<times> twitchAuth" where
  "helix_DeleteMessage en tok bid moderator msg =
    helix_do en tok ''DELETE'' (hx_chatModURL (he_helix en)) (modQuery bid moderator @ [(''message_id'', msg)]) ''delete message'' None"

definition helix_ClearChat :: "helix_env \<Rightarrow> string \<Rightarrow> string \<Rightarrow> string \<Rightarrow> twitchAuth \<Rightarrow> error \<times> twitchAuth" where
  "helix_ClearChat en tok bid moderator =
    helix_do en tok ''DELETE'' (hx_chatModURL (he_helix en)) (modQuery bid moderator) ''clear chat'' None"

definition helix_UpdateChatSettings :: "helix_env \<Rightarrow> string \<Rightarrow> string \<Rightarrow> string \<Rightarrow> (string \<times> jvalue) list \<Rightarrow> twitchAuth \<Rightarrow> error \<times> twitchAuth" where
  "helix_UpdateChatSettings en tok bid moderator patch =
    helix_do en tok ''PATCH'' (hx_chatSettingsURL (he_helix en)) (modQuery bid moderator) ''chat settings'' (Some (JObj patch))"

definition helix_ManageHeldMessage :: "helix_env \<Rightarrow> string \<Rightarrow> string \<Rightarrow> string \<Rightarrow> bool \<Rightarrow> twitchAuth \<Rightarrow> error \<times> twitchAuth" where
  "helix_ManageHeldMessage en tok moderator msg allow =
    helix_do en tok ''POST'' (hx_automodURL (he_helix en)) [] ''automod''
      (Some (JObj [(''user_id'', JStr moderator), (''msg_id'', JStr msg), (''action'', JStr (if allow then ''ALLOW'' else ''DENY''))]))"

definition helix_UserID :: "helix_env \<Rightarrow> string \<Rightarrow> string \<Rightarrow> twitchAuth \<Rightarrow> (string + string) \<times> twitchAuth" where
  "helix_UserID en tok login au =
    (case call_http en (helix_call en tok ''GET'' (hx_usersURL (he_helix en)) [(''login'', login)] None) au of
       (Inl e, au) \<Rightarrow> (Inl e, au)
     | (Inr (status, raw), au) \<Rightarrow>
         (if status \<noteq> 200 then Inl (status_error ''twitch: users'' status raw)
          else (case he_ids en raw of
              None \<Rightarrow> Inl ''twitch: decode users response''
            | Some ids \<Rightarrow> if ids = [] \<or> hd ids = [] then Inl (''twitch: no user found for login '' @ quoted login) else Inr (hd ids)), au))"

text \<open>A message Twitch accepted but did not send is an error with the reason it gave.\<close>

definition helix_SendChat :: "helix_env \<Rightarrow> string \<Rightarrow> string \<Rightarrow> string \<Rightarrow> string \<Rightarrow> string \<Rightarrow> twitchAuth \<Rightarrow> (string + string) \<times> twitchAuth" where
  "helix_SendChat en tok bid sender msg reply au =
    (case call_http en (helix_call en tok ''POST'' (hx_sendURL (he_helix en)) []
         (Some (JObj [(''broadcaster_id'', JStr bid), (''sender_id'', JStr sender), (''message'', JStr msg),
            (''reply_parent_message_id'', JStr reply)]))) au of
       (Inl e, au) \<Rightarrow> (Inl e, au)
     | (Inr (status, raw), au) \<Rightarrow>
         (if status \<noteq> 200 then Inl (status_error ''twitch: send'' status raw)
          else (case he_sent en raw of
              None \<Rightarrow> Inl ''twitch: decode send response''
            | Some items \<Rightarrow>
                if items = [] then Inl ''twitch: send: empty response''
                else let d = hd items
                  in if si_IsSent d then Inr (si_MessageID d)
                     else Inl (''twitch: message not sent: '' @
                       (case si_DropReason d of None \<Rightarrow> ''rejected'' | Some (code, m) \<Rightarrow> if m \<noteq> [] then m else code))), au))"

subsection \<open>Ids\<close>

definition isAllDigits :: "string \<Rightarrow> bool" where
  "isAllDigits s = (s \<noteq> [] \<and> list_all is_digit s)"

definition broadcasterID :: "helix_env \<Rightarrow> string \<Rightarrow> twitchAuth \<Rightarrow> (string + string) \<times> twitchAuth" where
  "broadcasterID en login au = (case au_bid au login of
     Some i \<Rightarrow> (Inr i, au)
   | None \<Rightarrow> (case he_resolve en of
       None \<Rightarrow> (Inl (''twitch: cannot resolve broadcaster id for '' @ quoted login), au)
     | Some resolve \<Rightarrow> (case resolve login of
         Inl e \<Rightarrow> (Inl e, au)
       | Inr i \<Rightarrow> (Inr i, au\<lparr>au_bid := (au_bid au)(login \<mapsto> i)\<rparr>))))"

definition targetUserID :: "helix_env \<Rightarrow> string \<Rightarrow> string \<Rightarrow> twitchAuth \<Rightarrow> (string + string) \<times> twitchAuth" where
  "targetUserID en tok raw au =
    (if raw = [] then (Inl ''twitch: moderation target required'', au)
     else if isAllDigits raw then (Inr raw, au)
     else let login = to_lower raw
       in (case au_bid au login of
           Some i \<Rightarrow> (Inr i, au)
         | None \<Rightarrow> (case helix_UserID en tok login au of
             (Inl e, au) \<Rightarrow> (Inl e, au)
           | (Inr i, au) \<Rightarrow> (Inr i, au\<lparr>au_bid := (au_bid au)(login \<mapsto> i)\<rparr>))))"

subsection \<open>Sending and moderating\<close>

definition twitchMaxTimeout :: int where
  "twitchMaxTimeout = 1209600"

definition clampTimeout :: "duration \<Rightarrow> int" where
  "clampTimeout d =
    (let secs = trunc_div d second
     in if secs \<le> 0 then 600 else if secs > twitchMaxTimeout then twitchMaxTimeout else secs)"

definition chatSettingsPatch :: "ModAction \<Rightarrow> (string \<times> jvalue) list" where
  "chatSettingsPatch a =
    (if ma_Type a = ModSetSlow then
       [(''slow_mode'', JBool (ma_Enabled a))] @
       (if ma_Enabled a then [(''slow_mode_wait_time'', JInt (trunc_div (ma_Duration a) second))] else [])
     else if ma_Type a = ModSetFollowers then
       [(''follower_mode'', JBool (ma_Enabled a))] @
       (if ma_Enabled a then [(''follower_mode_duration'', JInt (trunc_div (ma_Duration a) minute))] else [])
     else if ma_Type a = ModSetEmoteOnly then [(''emote_mode'', JBool (ma_Enabled a))]
     else if ma_Type a = ModSetUniqueChat then [(''unique_chat_mode'', JBool (ma_Enabled a))]
     else [])"

definition twitch_Send :: "helix_env \<Rightarrow> ChannelRef \<Rightarrow> string \<Rightarrow> SendOpts \<Rightarrow> twitchAuth option \<Rightarrow> error \<times> twitchAuth option" where
  "twitch_Send en ch body opts auth = (case auth of
     None \<Rightarrow> (Some ErrUnsupported, None)
   | Some au \<Rightarrow> (case broadcasterID en (to_lower (ch_Slug ch)) au of
       (Inl e, au) \<Rightarrow> (Some e, Some au)
     | (Inr bid, au) \<Rightarrow> (case he_tokens en of
         Inl e \<Rightarrow> (Some e, Some au)
       | Inr tok \<Rightarrow>
           (case helix_SendChat en tok bid (au_senderID au) (if so_Action opts then ''/me '' @ body else body) (so_ReplyParentID opts) au of
             (Inl e, au) \<Rightarrow> (Some e, Some au) | (Inr i, au) \<Rightarrow> (None, Some au)))))"

text \<open>The actions on a channel, once the token and the broadcaster id are known.\<close>

definition with_target :: "helix_env \<Rightarrow> string \<Rightarrow> ModAction \<Rightarrow> (string \<Rightarrow> twitchAuth \<Rightarrow> error \<times> twitchAuth) \<Rightarrow> twitchAuth \<Rightarrow> error \<times> twitchAuth" where
  "with_target en tok a act au = (case targetUserID en tok (ma_TargetUserID a) au of
     (Inl e, au) \<Rightarrow> (Some e, au) | (Inr uid, au) \<Rightarrow> act uid au)"

definition moderate_channel :: "helix_env \<Rightarrow> string \<Rightarrow> string \<Rightarrow> ModAction \<Rightarrow> twitchAuth \<Rightarrow> error \<times> twitchAuth" where
  "moderate_channel en tok bid a au =
    (let me = au_senderID au; t = ma_Type a
     in if t = ModBan then with_target en tok a (\<lambda>uid. helix_Ban en tok bid me uid 0 (ma_Reason a)) au
        else if t = ModTimeout then
          with_target en tok a (\<lambda>uid. helix_Ban en tok bid me uid (clampTimeout (ma_Duration a)) (ma_Reason a)) au
        else if t = ModUnban \<or> t = ModUntimeout then with_target en tok a (helix_Unban en tok bid me) au
        else if t = ModDeleteMessage then helix_DeleteMessage en tok bid me (ma_TargetMessageID a) au
        else if t = ModClear then helix_ClearChat en tok bid me au
        else if t \<in> {ModSetSlow, ModSetFollowers, ModSetEmoteOnly, ModSetUniqueChat}
          then helix_UpdateChatSettings en tok bid me (chatSettingsPatch a) au
        else (Some ErrUnsupported, au))"

definition twitch_Moderate :: "helix_env \<Rightarrow> ModAction \<Rightarrow> twitchAuth option \<Rightarrow> error \<times> twitchAuth option" where
  "twitch_Moderate en a auth = (case auth of
     None \<Rightarrow> (Some ErrUnsupported, None)
   | Some au \<Rightarrow> (case he_tokens en of
       Inl e \<Rightarrow> (Some e, Some au)
     | Inr tok \<Rightarrow>
         apsnd Some
           (if ma_Type a = ModApproveHeld then helix_ManageHeldMessage en tok (au_senderID au) (ma_TargetMessageID a) True au
            else if ma_Type a = ModDenyHeld then helix_ManageHeldMessage en tok (au_senderID au) (ma_TargetMessageID a) False au
            else (case broadcasterID en (to_lower (ch_Slug (ma_Channel a))) au of
                (Inl e, au) \<Rightarrow> (Some e, au)
              | (Inr bid, au) \<Rightarrow> moderate_channel en tok bid a au))))"

text \<open>\<open>Authenticate\<close>, the part that switches the send path, and \<open>Deauthenticate\<close>'s.\<close>

definition new_auth :: "string \<Rightarrow> twitchAuth" where
  "new_auth senderID = \<lparr>au_senderID = senderID, au_bid = Map.empty, au_calls = []\<rparr>"

definition ResolveID :: "helix_env \<Rightarrow> string \<Rightarrow> twitchAuth option \<Rightarrow> (string + string) \<times> twitchAuth option" where
  "ResolveID en slug auth = (case auth of
     None \<Rightarrow> (Inl ''twitch: not authenticated'', None)
   | Some au \<Rightarrow> apsnd Some (broadcasterID en (to_lower slug) au))"

subsection \<open>What a moderation request does\<close>

text \<open>What one operation leaves behind: its result, the lookups it made and the request that acts, if any.\<close>

definition acts :: "helix_env \<Rightarrow> ((string \<rightharpoonup> string) \<Rightarrow> http_call \<Rightarrow> bool) \<Rightarrow> twitchAuth \<Rightarrow> error \<times> twitchAuth \<Rightarrow> bool" where
  "acts en P au res \<longleftrightarrow> au_senderID (snd res) = au_senderID au \<and> au_bid au \<subseteq>\<^sub>m au_bid (snd res) \<and>
     (\<exists>looks sent. au_calls (snd res) = au_calls au @ looks @ sent \<and> length looks \<le> 1
       \<and> (\<forall>rq \<in> set looks. hc_Method rq = ''GET'' \<and> hc_Body rq = None)
       \<and> length sent \<le> 1 \<and> (\<forall>rq \<in> set sent. P (au_bid (snd res)) rq)
       \<and> (fst res = None \<longleftrightarrow> (\<exists>rq. sent = [rq] \<and> accepted (he_http en (au_calls au @ looks) rq))))"

definition looked_up :: "twitchAuth \<Rightarrow> http_call list \<Rightarrow> twitchAuth \<Rightarrow> bool" where
  "looked_up au looks au1 \<longleftrightarrow> au_senderID au1 = au_senderID au \<and> au_bid au \<subseteq>\<^sub>m au_bid au1 \<and> au_calls au1 = au_calls au @ looks
     \<and> length looks \<le> 1 \<and> (\<forall>rq \<in> set looks. hc_Method rq = ''GET'' \<and> hc_Body rq = None)"

lemma looked_up_refl: "looked_up au [] au"
  by (simp add: looked_up_def)

lemma acts_refused: "looked_up au looks au1 \<Longrightarrow> acts en P au (Some e, au1)"
  unfolding acts_def looked_up_def by (intro conjI exI [of _ looks] exI [of _ "[]"]) simp_all

lemma acts_do:
  assumes "looked_up au looks au1" "P (au_bid au1) (helix_call en tok meth url query body)"
  shows "acts en P au (helix_do en tok meth url query label body au1)"
proof -
  let ?rq = "helix_call en tok meth url query body" and ?res = "helix_do en tok meth url query label body au1"
  have res: "snd ?res = au1\<lparr>au_calls := au_calls au1 @ [?rq]\<rparr>" "fst ?res = None \<longleftrightarrow> accepted (he_http en (au_calls au1) ?rq)"
    by (auto simp: helix_do_def call_http_def accepted_def split: sum.splits)
  show ?thesis using assms res unfolding acts_def looked_up_def
    by (intro conjI exI [of _ looks] exI [of _ "[?rq]"]) simp_all
qed

text \<open>What \<open>targetUserID\<close> does: at most one lookup, and a login it resolves is remembered.\<close>

lemma target_lookup:
  assumes "targetUserID en tok raw au = (r, au')"
  shows "(\<exists>looks. looked_up au looks au')
    \<and> (\<forall>uid. r = Inr uid \<longrightarrow> uid = raw \<and> isAllDigits raw \<or> au_bid au' (to_lower raw) = Some uid)"
proof (cases "raw = [] \<or> isAllDigits raw \<or> au_bid au (to_lower raw) \<noteq> None")
  case True
  then show ?thesis using assms looked_up_refl [of au] by (auto simp: targetUserID_def Let_def split: if_splits option.splits)
next
  case False
  let ?rq = "helix_call en tok ''GET'' (hx_usersURL (he_helix en)) [(''login'', to_lower raw)] None"
  obtain q au1 where q: "helix_UserID en tok (to_lower raw) au = (q, au1)" by fastforce
  then have "au1 = au\<lparr>au_calls := au_calls au @ [?rq]\<rparr>"
    by (auto simp: helix_UserID_def call_http_def split: sum.splits)
  then have "looked_up au [?rq] au'"
    using False assms q by (auto simp: targetUserID_def Let_def helix_call_def looked_up_def map_le_def dom_def split: sum.splits)
  then show ?thesis using False assms q by (auto simp: targetUserID_def Let_def split: sum.splits)
qed

lemma acts_target:
  assumes "\<And>looks uid au1. looked_up au looks au1 \<Longrightarrow>
      uid = ma_TargetUserID a \<and> isAllDigits uid \<or> au_bid au1 (to_lower (ma_TargetUserID a)) = Some uid \<Longrightarrow> acts en P au (act uid au1)"
  shows "acts en P au (with_target en tok a act au)"
proof (cases "targetUserID en tok (ma_TargetUserID a) au")
  case (Pair r au1)
  then obtain looks where "looked_up au looks au1" using target_lookup by blast
  then show ?thesis using target_lookup [OF Pair] Pair assms
    by (auto simp: with_target_def intro: acts_refused split: sum.splits)
qed

text \<open>
  What a request that acts must say, given the ids resolved: who acts (the signed-in account), where
  (the channel of the action, or the held message), on whom, and for how long: a duration exactly
  when the action is a timeout, positive and within the platform's bounds, since a ban without one is permanent.
\<close>

definition body_fields :: "http_call \<Rightarrow> (string \<times> jvalue) list" where
  "body_fields rq = (case hc_Body rq of
     Some (JObj fs) \<Rightarrow> (case map_of fs ''data'' of Some (JObj gs) \<Rightarrow> gs | _ \<Rightarrow> fs) | _ \<Rightarrow> [])"

definition names_user :: "string \<Rightarrow> http_call \<Rightarrow> bool" where
  "names_user uid rq \<longleftrightarrow> map_of (body_fields rq) ''user_id'' = Some (JStr uid) \<or> map_of (hc_Query rq) ''user_id'' = Some uid"

definition in_place :: "ModAction \<Rightarrow> string \<Rightarrow> (string \<rightharpoonup> string) \<Rightarrow> http_call \<Rightarrow> bool" where
  "in_place a me ids rq =
    (if ma_Type a \<in> {ModApproveHeld, ModDenyHeld}
     then map_of (body_fields rq) ''user_id'' = Some (JStr me) \<and> map_of (body_fields rq) ''msg_id'' = Some (JStr (ma_TargetMessageID a))
       \<and> map_of (body_fields rq) ''action'' = Some (JStr (if ma_Type a = ModApproveHeld then ''ALLOW'' else ''DENY''))
     else map_of (hc_Query rq) ''moderator_id'' = Some me
       \<and> ids (to_lower (ch_Slug (ma_Channel a))) \<noteq> None \<and> map_of (hc_Query rq) ''broadcaster_id'' = ids (to_lower (ch_Slug (ma_Channel a))))"

definition on_target :: "ModAction \<Rightarrow> (string \<rightharpoonup> string) \<Rightarrow> http_call \<Rightarrow> bool" where
  "on_target a ids rq =
    (if ma_Type a \<in> {ModBan, ModTimeout, ModUnban, ModUntimeout}
     then \<exists>uid. names_user uid rq \<and> (uid = ma_TargetUserID a \<and> isAllDigits uid \<or> ids (to_lower (ma_TargetUserID a)) = Some uid)
     else ma_Type a = ModDeleteMessage \<longrightarrow> map_of (hc_Query rq) ''message_id'' = Some (ma_TargetMessageID a))"

definition in_time :: "ModAction \<Rightarrow> http_call \<Rightarrow> bool" where
  "in_time a rq = (case map_of (body_fields rq) ''duration'' of
     None \<Rightarrow> ma_Type a \<noteq> ModTimeout
   | Some v \<Rightarrow> ma_Type a = ModTimeout \<and> (\<exists>n. v = JInt n \<and> 1 \<le> n \<and> n \<le> twitchMaxTimeout))"

definition performs :: "ModAction \<Rightarrow> string \<Rightarrow> (string \<rightharpoonup> string) \<Rightarrow> http_call \<Rightarrow> bool" where
  "performs a me ids rq \<longleftrightarrow> in_place a me ids rq \<and> on_target a ids rq \<and> in_time a rq"

lemma clampTimeout_bounds: "1 \<le> clampTimeout d \<and> clampTimeout d \<le> twitchMaxTimeout"
  by (simp add: clampTimeout_def twitchMaxTimeout_def Let_def)

lemma call_sel [simp]:
  "hc_Query (helix_call en tok meth url query body) = query" "hc_Body (helix_call en tok meth url query body) = body"
  by (simp_all add: helix_call_def)

lemma fields_ban [simp]:
  "body_fields (helix_call en tok meth url query (Some (JObj [(''data'', JObj fs)]))) = fs"
  by (simp add: body_fields_def)

lemma fields_plain [simp]:
  "body_fields (helix_call en tok meth url query None) = []"
  "map_of fs ''data'' = None \<Longrightarrow> body_fields (helix_call en tok meth url query (Some (JObj fs))) = fs"
  by (simp_all add: body_fields_def)

lemma chatSettings_fields [simp]:
  "map_of (chatSettingsPatch a) ''data'' = None" "map_of (chatSettingsPatch a) ''duration'' = None"
  by (auto simp: chatSettingsPatch_def)

lemmas moderation_request = performs_def in_place_def on_target_def in_time_def names_user_def modQuery_def

lemma broadcaster_lookup:
  "broadcasterID en login au = (r, au') \<Longrightarrow> looked_up au [] au' \<and> (\<forall>bid. r = Inr bid \<longrightarrow> au_bid au' login = Some bid)"
  by (auto simp: broadcasterID_def looked_up_def map_le_def split: option.splits sum.splits)

lemma moderate_acts:
  assumes "au_bid au (to_lower (ch_Slug (ma_Channel a))) = Some bid" "ma_Type a \<notin> {ModApproveHeld, ModDenyHeld}"
  shows "acts en (performs a (au_senderID au)) au (moderate_channel en tok bid a au)"
proof -
  let ?P = "performs a (au_senderID au)"
  have known: "looked_up au looks au1 \<Longrightarrow> au_bid au1 (to_lower (ch_Slug (ma_Channel a))) = Some bid" for looks au1
    using assms(1) by (auto simp: looked_up_def map_le_def dom_def)
  have ban: "acts en ?P au (with_target en tok a (\<lambda>uid. helix_Ban en tok bid (au_senderID au) uid secs (ma_Reason a)) au)"
    if "ma_Type a = ModBan \<and> secs = 0 \<or> ma_Type a = ModTimeout \<and> secs = clampTimeout (ma_Duration a)" for secs
    using that known clampTimeout_bounds [of "ma_Duration a"]
    by (intro acts_target) (auto simp: helix_Ban_def Let_def moderation_request intro!: acts_do)
  have unban: "acts en ?P au (with_target en tok a (helix_Unban en tok bid (au_senderID au)) au)"
    if "ma_Type a = ModUnban \<or> ma_Type a = ModUntimeout"
    using that known by (intro acts_target) (auto simp: helix_Unban_def moderation_request intro!: acts_do)
  have direct: "?P (au_bid au) (helix_call en tok meth url query body) \<Longrightarrow> acts en ?P au (helix_do en tok meth url query label body au)"
    for meth url query body label
    using looked_up_refl by (rule acts_do)
  show ?thesis
    using ban unban assms looked_up_refl [of au]
    by (auto simp: moderate_channel_def Let_def helix_DeleteMessage_def helix_ClearChat_def helix_UpdateChatSettings_def
        moderation_request intro!: direct acts_refused)
qed


text \<open>A positive timeout of less than a second becomes ten minutes.\<close>

lemma short_timeout_long: "0 < d \<Longrightarrow> d < second \<Longrightarrow> clampTimeout d = 600"
  by (simp add: clampTimeout_def second_def trunc_div_nonneg)

end
