(* ===== verification/Twitch_EventSub.thy ===== *)
theory Twitch_EventSub
  imports Twitch_Shard Twitch_EventSub_Normalize Twitch_Helix "HOL-Library.Multiset"
begin

text \<open>
  \<^verbatim>\<open>internal/platform/twitch/eventsub_supervisor.go\<close>, \<^verbatim>\<open>eventsub_session.go\<close> and the subscription calls of
  \<^verbatim>\<open>eventsub_helix.go\<close>: the authenticated read path. The connection loop and the goroutines it starts are
  one state machine: a goroutine is an element of \<open>es_tasks\<close>, and each event of the run is one critical
  section or I/O call of the loop, of a caller of join or leave, or of one goroutine, in any order. What
  the outside answers (dials, frames, tokens, resolution, Helix, the iteration order of a map) is part of
  the event. A channel state is referred to by its index in \<open>es_objs\<close>, as the code refers to it by pointer:
  a goroutine keeps the object of a channel that has been left meanwhile.
\<close>

subsection \<open>Subscription budget\<close>

definition maxConnsPerUser :: nat where
  "maxConnsPerUser = 3"

definition maxSubsPerConn :: nat where
  "maxSubsPerConn = 300"

type_synonym subBudget = "nat list"

fun budget_reserve :: "subBudget \<Rightarrow> (nat \<times> subBudget) option" where
  "budget_reserve [] = None"
| "budget_reserve (n # ns) =
    (if n < maxSubsPerConn then Some (0, Suc n # ns) else map_option (\<lambda>(i, ns). (Suc i, n # ns)) (budget_reserve ns))"

definition budget_add :: "subBudget \<Rightarrow> (nat \<times> subBudget) option" where
  "budget_add b = (case budget_reserve b of
     Some r \<Rightarrow> Some r
   | None \<Rightarrow> if length b < maxConnsPerUser then Some (length b, b @ [1]) else None)"

definition budget_remove :: "nat \<Rightarrow> subBudget \<Rightarrow> subBudget" where
  "budget_remove i b = (if i < length b \<and> b ! i > 0 then b[i := b ! i - 1] else b)"

definition budget_total :: "subBudget \<Rightarrow> nat" where
  "budget_total b = sum_list b"

subsection \<open>Creating and deleting subscriptions\<close>

record esSubRequest =
  er_Type :: string
  er_Version :: string
  er_Condition :: "(string \<times> string) list"
  er_SessionID :: string

definition create_body :: "esSubRequest \<Rightarrow> jvalue" where
  "create_body sub = JObj [(''type'', JStr (er_Type sub)), (''version'', JStr (er_Version sub)),
     (''condition'', JObj (map (apsnd JStr) (er_Condition sub))),
     (''transport'', JObj [(''method'', JStr ''websocket''), (''session_id'', JStr (er_SessionID sub))])]"

text \<open>
  The request is \<open>create_body\<close>; the answer: 403 is the forbidden error, 409 is success with no id, any other
  status outside 2xx and a body without ids are errors.
\<close>

definition CreateEventSubSubscription :: "(string \<Rightarrow> string list option) \<Rightarrow> esSubRequest \<Rightarrow> http_answer \<Rightarrow> string + string" where
  "CreateEventSubSubscription ids sub ans = (case ans of
     Inl e \<Rightarrow> Inl e
   | Inr (status, raw) \<Rightarrow>
       if status = 403 then Inl (''twitch: eventsub subscription forbidden: '' @ er_Type sub @ '' ''
         @ (case map_of (er_Condition sub) ''broadcaster_user_id'' of Some b \<Rightarrow> b | None \<Rightarrow> []) @ '': '' @ raw)
       else if status = 409 then Inr []
       else if status < 200 \<or> 300 \<le> status then Inl (status_error (''twitch: eventsub create '' @ er_Type sub) status raw)
       else (case ids raw of
           Some (i # _) \<Rightarrow> Inr i
         | _ \<Rightarrow> Inl (''twitch: eventsub create '' @ er_Type sub @ '': unexpected response: '' @ raw)))"

definition DeleteEventSubSubscription :: "http_answer \<Rightarrow> error" where
  "DeleteEventSubSubscription ans = (case ans of
     Inl e \<Rightarrow> Some e
   | Inr (status, raw) \<Rightarrow> if status = 404 \<or> 200 \<le> status \<and> status < 300 then None
       else Some (status_error ''twitch: eventsub delete'' status raw))"

subsection \<open>State\<close>

record esChannelState =
  ech_slug :: string
  ech_bid :: string
  ech_subIDs :: "(string \<times> string) list"
  ech_up :: bool
  ech_automod :: bool

text \<open>
  The goroutines: \<open>Welcomed\<close> and \<open>Revoked\<close> before their first critical section; \<open>Subscribing\<close> between two channels of a
  session; \<open>Requesting\<close> before reserving a slot for the next of a channel's subscriptions (none left: before the final
  section); \<open>Creating\<close> with the slot reserved and the request out; \<open>Deleting\<close>, started by leave. The two last fields of a
  channel being subscribed are \<open>chatUp\<close> and \<open>automodUp\<close>.
\<close>

datatype es_task =
    Welcomed string bool
  | Revoked string string string
  | Subscribing string "nat list"
  | Requesting string "nat list" nat string "esSubRequest list" bool nat
  | Creating string "nat list" nat string esSubRequest "esSubRequest list" bool nat
  | Deleting "string list"
  | Returned

text \<open>What the supervisor did outside: resolutions, creations with the object and the answer, deletions, \<open>onState\<close> calls.\<close>

datatype es_effect =
    Resolved string string
  | Created nat esSubRequest http_answer
  | Deleted string
  | State string bool

record supervisor =
  es_userID :: string
  es_backoff :: backoff
  es_rng :: "64 word"
  es_channels :: "(string \<times> nat) list"
  es_objs :: "esChannelState list"
  es_sessionID :: string
  es_budget :: subBudget
  es_health :: HealthStatus
  es_url :: string
  es_carried :: bool
  es_attempt :: int
  es_connected :: bool
  es_closed :: bool
  es_slept :: "duration list"
  es_tasks :: "es_task list"
  es_effects :: "es_effect list"
  es_emitted :: "Event list"

definition twitchEventSubWS :: string where
  "twitchEventSubWS = ''wss://eventsub.wss.twitch.tv/ws''"

definition degraded :: "ReasonCode \<Rightarrow> string \<Rightarrow> HealthStatus" where
  "degraded r detail = \<lparr>hs_State = HealthDegraded, hs_Reason = r, hs_Detail = detail\<rparr>"

definition newESSupervisor :: "string \<Rightarrow> backoff \<Rightarrow> 64 word \<Rightarrow> supervisor" where
  "newESSupervisor userID bo now = \<lparr>es_userID = userID, es_backoff = bo, es_rng = now, es_channels = [], es_objs = [],
     es_sessionID = [], es_budget = [], es_health = degraded ReasonUpstreamDown ''eventsub connecting'',
     es_url = twitchEventSubWS, es_carried = False, es_attempt = 0, es_connected = False, es_closed = False, es_slept = [],
     es_tasks = [], es_effects = [], es_emitted = []\<rparr>"

definition effect :: "es_effect \<Rightarrow> supervisor \<Rightarrow> supervisor" where
  "effect x s = s\<lparr>es_effects := es_effects s @ [x]\<rparr>"

definition spawn :: "es_task \<Rightarrow> supervisor \<Rightarrow> supervisor" where
  "spawn t s = s\<lparr>es_tasks := es_tasks s @ [t]\<rparr>"

definition set_obj :: "nat \<Rightarrow> (esChannelState \<Rightarrow> esChannelState) \<Rightarrow> supervisor \<Rightarrow> supervisor" where
  "set_obj i f s = s\<lparr>es_objs := (es_objs s)[i := f (es_objs s ! i)]\<rparr>"

subsection \<open>Callers\<close>

definition es_join :: "string \<Rightarrow> supervisor \<Rightarrow> supervisor" where
  "es_join slug s =
    (let slug = to_lower slug
     in if map_of (es_channels s) slug \<noteq> None then s
        else let i = length (es_objs s);
                 s = s\<lparr>es_objs := es_objs s @ [\<lparr>ech_slug = slug, ech_bid = [], ech_subIDs = [], ech_up = False, ech_automod = False\<rparr>],
                       es_channels := es_channels s @ [(slug, i)]\<rparr>
          in if es_sessionID s \<noteq> [] then spawn (Subscribing (es_sessionID s) [i]) s else s)"

definition es_leave :: "string \<Rightarrow> supervisor \<Rightarrow> supervisor" where
  "es_leave slug s =
    (let slug = to_lower slug
     in (case map_of (es_channels s) slug of
         None \<Rightarrow> s
       | Some i \<Rightarrow>
           let subs = ech_subIDs (es_objs s ! i)
           in spawn (Deleting (filter (\<lambda>d. d \<noteq> []) (map snd subs)))
             (s\<lparr>es_channels := AList.delete slug (es_channels s),
                es_budget := (budget_remove 0 ^^ length subs) (es_budget s)\<rparr>)))"

definition channelUp :: "string \<Rightarrow> supervisor \<Rightarrow> bool" where
  "channelUp slug s = (case map_of (es_channels s) (to_lower slug) of None \<Rightarrow> False | Some i \<Rightarrow> ech_up (es_objs s ! i))"

definition es_close :: "supervisor \<Rightarrow> supervisor" where
  "es_close s = s\<lparr>es_closed := True\<rparr>"

subsection \<open>The connection loop\<close>

definition es_nextRand :: "supervisor \<Rightarrow> 64 word \<times> supervisor" where
  "es_nextRand s =
    (let s = s\<lparr>es_rng := es_rng s + 0x9e3779b97f4a7c15\<rparr>;
         z = es_rng s;
         z = (z XOR drop_bit 30 z) * 0xbf58476d1ce4e5b9;
         z = (z XOR drop_bit 27 z) * 0x94d049bb133111eb
     in (z XOR drop_bit 31 z, s))"

definition es_sleep :: "supervisor \<Rightarrow> supervisor" where
  "es_sleep s = (case es_nextRand s of (r, s) \<Rightarrow> s\<lparr>es_slept := es_slept s @ [delay (es_backoff s) (es_attempt s) r]\<rparr>)"

definition down :: "esChannelState \<Rightarrow> esChannelState" where
  "down ch = ch\<lparr>ech_up := False, ech_subIDs := [], ech_automod := False\<rparr>"

definition markAllDown :: "string \<Rightarrow> supervisor \<Rightarrow> supervisor" where
  "markAllDown detail s =
    (let flipped = map fst (filter (\<lambda>(k, i). ech_up (es_objs s ! i)) (es_channels s));
         is = map snd (es_channels s);
         s = s\<lparr>es_sessionID := [], es_budget := [],
               es_objs := map (\<lambda>i. if i \<in> set is then down (es_objs s ! i) else es_objs s ! i) [0 ..< length (es_objs s)],
               es_health := degraded ReasonUpstreamDown detail\<rparr>
     in fold (\<lambda>slug. effect (State slug False)) flipped s)"

text \<open>The end of a connection, or a dial that failed.\<close>

definition start_over :: "string \<Rightarrow> supervisor \<Rightarrow> supervisor" where
  "start_over detail s =
    es_sleep ((markAllDown detail s)\<lparr>es_url := twitchEventSubWS, es_carried := False, es_attempt := es_attempt s + 1,
                                     es_connected := False\<rparr>)"

definition es_dial :: "string option \<Rightarrow> supervisor \<Rightarrow> supervisor" where
  "es_dial failed s = (case failed of
     Some e \<Rightarrow> start_over (''eventsub dial failed: '' @ e) s
   | None \<Rightarrow> s\<lparr>es_connected := True\<rparr>)"

text \<open>One turn of \<^verbatim>\<open>session.run\<close>: None for the frame is a read error.\<close>

definition es_read :: "es_decoders \<Rightarrow> string option \<Rightarrow> supervisor \<Rightarrow> supervisor" where
  "es_read dec frame s = (case frame of
     None \<Rightarrow> start_over ''eventsub connection lost'' s
   | Some b \<Rightarrow> (case dec_envelope dec b of
       None \<Rightarrow> s
     | Some env \<Rightarrow>
         if ev_MessageType env = ''session_welcome'' then
           (case dec_session dec (ev_Payload env) of
              None \<Rightarrow> s
            | Some sess \<Rightarrow> spawn (Welcomed (ess_ID sess) (\<not> es_carried s)) (s\<lparr>es_attempt := 0, es_carried := False\<rparr>))
         else if ev_MessageType env = ''notification'' then
           (case eventFromNotification dec (ev_SubscriptionType env) (ev_Payload env) (parseESTimestamp dec (ev_MessageTimestamp env)) of
              None \<Rightarrow> s
            | Some ev \<Rightarrow> s\<lparr>es_emitted := es_emitted s @ [ev]\<rparr>)
         else if ev_MessageType env = ''session_reconnect'' then
           (case dec_session dec (ev_Payload env) of
              None \<Rightarrow> s
            | Some sess \<Rightarrow> if ess_ReconnectURL sess \<noteq> []
                then s\<lparr>es_url := ess_ReconnectURL sess, es_carried := True, es_connected := False\<rparr> else s)
         else if ev_MessageType env = ''revocation'' then
           (case dec_revocation dec (ev_Payload env) of
              None \<Rightarrow> s
            | Some sub \<Rightarrow> spawn (Revoked (rv_ID sub) (rv_Type sub) (rv_BroadcasterUserID sub)) s)
         else s))"

subsection \<open>Goroutines\<close>

definition subTypesFor :: "string \<Rightarrow> string \<Rightarrow> esSubRequest list" where
  "subTypesFor userID bid =
    [\<lparr>er_Type = subChatMessage, er_Version = ''1'', er_Condition = [(''broadcaster_user_id'', bid), (''user_id'', userID)], er_SessionID = []\<rparr>,
     \<lparr>er_Type = subAutomodHold, er_Version = ''1'', er_Condition = [(''broadcaster_user_id'', bid), (''moderator_user_id'', userID)], er_SessionID = []\<rparr>,
     \<lparr>er_Type = subAutomodUpd, er_Version = ''1'', er_Condition = [(''broadcaster_user_id'', bid), (''moderator_user_id'', userID)], er_SessionID = []\<rparr>]"

text \<open>The order a loop over the channels takes: any permutation of them.\<close>

definition in_order :: "nat list \<Rightarrow> nat list \<Rightarrow> nat list" where
  "in_order order is = (if mset order = mset is then order else is)"

record es_answer =
  an_token :: "string + string"
  an_resolved :: "string + string"
  an_http :: http_answer
  an_order :: "nat list"

text \<open>The first critical section of \<^verbatim>\<open>onWelcome\<close>.\<close>

definition onWelcome :: "es_answer \<Rightarrow> string \<Rightarrow> bool \<Rightarrow> supervisor \<Rightarrow> es_task \<times> supervisor" where
  "onWelcome an sess recreate s =
    (let s = s\<lparr>es_sessionID := sess, es_health := health HealthOK ReasonNone\<rparr>
     in if recreate then (Subscribing sess (in_order (an_order an) (map snd (es_channels s))), s\<lparr>es_budget := []\<rparr>)
        else (Subscribing sess [], s))"

text \<open>The start of \<^verbatim>\<open>subscribeChannel\<close>: the token, and the broadcaster if it is not known yet.\<close>

definition begin_channel :: "es_answer \<Rightarrow> string \<Rightarrow> nat \<Rightarrow> nat list \<Rightarrow> supervisor \<Rightarrow> es_task \<times> supervisor" where
  "begin_channel an sess i q s = (case an_token an of
     Inl e \<Rightarrow> (Subscribing sess q, s)
   | Inr tok \<Rightarrow>
       if ech_bid (es_objs s ! i) = [] then
         (case an_resolved an of
            Inl e \<Rightarrow> (Subscribing sess q, s)
          | Inr bid \<Rightarrow> (Requesting sess q i tok (subTypesFor (es_userID s) bid) False 0,
              set_obj i (\<lambda>ch. ch\<lparr>ech_bid := bid\<rparr>) (effect (Resolved (ech_slug (es_objs s ! i)) bid) s)))
       else (Requesting sess q i tok (subTypesFor (es_userID s) (ech_bid (es_objs s ! i))) False 0, s))"

definition reserve :: "string \<Rightarrow> nat list \<Rightarrow> nat \<Rightarrow> string \<Rightarrow> esSubRequest \<Rightarrow> esSubRequest list \<Rightarrow> bool \<Rightarrow> nat \<Rightarrow> supervisor \<Rightarrow> es_task \<times> supervisor" where
  "reserve sess q i tok sub subs chatUp automodUp s =
    (if es_sessionID s \<noteq> sess then (Subscribing sess q, s)
     else (case budget_add (es_budget s) of
         None \<Rightarrow> (Requesting sess q i tok [] chatUp automodUp,
           s\<lparr>es_health := degraded ReasonRateLimited ''eventsub subscription cap reached; overflow channels stay on IRC''\<rparr>)
       | Some (conn, b) \<Rightarrow> (Creating sess q i tok (sub\<lparr>er_SessionID := sess\<rparr>) subs chatUp automodUp, s\<lparr>es_budget := b\<rparr>)))"

definition created :: "(string \<Rightarrow> string list option) \<Rightarrow> es_answer \<Rightarrow> string \<Rightarrow> nat list \<Rightarrow> nat \<Rightarrow> string \<Rightarrow> esSubRequest \<Rightarrow> esSubRequest list \<Rightarrow> bool \<Rightarrow> nat \<Rightarrow> supervisor \<Rightarrow> es_task \<times> supervisor" where
  "created ids an sess q i tok sub subs chatUp automodUp s =
    (let s = effect (Created i sub (an_http an)) s
     in (case CreateEventSubSubscription ids sub (an_http an) of
         Inl e \<Rightarrow> (Requesting sess q i tok subs chatUp automodUp, s\<lparr>es_budget := budget_remove 0 (es_budget s)\<rparr>)
       | Inr sid \<Rightarrow> (Requesting sess q i tok subs (chatUp \<or> er_Type sub = subChatMessage)
             (if er_Type sub = subAutomodHold \<or> er_Type sub = subAutomodUpd then Suc automodUp else automodUp),
           set_obj i (\<lambda>ch. ch\<lparr>ech_subIDs := AList.update (er_Type sub) sid (ech_subIDs ch)\<rparr>) s)))"

text \<open>The end of \<^verbatim>\<open>subscribeChannel\<close>; the call of \<open>onState\<close> follows the critical section.\<close>

definition finish_channel :: "nat \<Rightarrow> bool \<Rightarrow> nat \<Rightarrow> supervisor \<Rightarrow> supervisor" where
  "finish_channel i chatUp automodUp s =
    (let ch = es_objs s ! i;
         s = set_obj i (\<lambda>ch. ch\<lparr>ech_up := chatUp, ech_automod := automodUp = 2\<rparr>) s
     in if chatUp \<and> \<not> ech_up ch then effect (State (ech_slug ch) True) s else s)"

definition onRevoke :: "es_answer \<Rightarrow> string \<Rightarrow> string \<Rightarrow> string \<Rightarrow> supervisor \<Rightarrow> es_task \<times> supervisor" where
  "onRevoke an subID subType owner s =
    (case find (\<lambda>i. let ch = es_objs s ! i
         in subID \<noteq> [] \<and> map_of (ech_subIDs ch) subType = Some subID \<or> ech_bid ch \<noteq> [] \<and> ech_bid ch = owner)
        (in_order (an_order an) (map snd (es_channels s))) of
       None \<Rightarrow> (Returned, s)
     | Some i \<Rightarrow>
         let ch = es_objs s ! i;
             s = (set_obj i (\<lambda>ch. ch\<lparr>ech_subIDs := AList.delete subType (ech_subIDs ch),
                   ech_up := ech_up ch \<and> subType \<noteq> subChatMessage, ech_automod := False\<rparr>) s)
                 \<lparr>es_budget := budget_remove 0 (es_budget s)\<rparr>;
             s = (if subType = subChatMessage \<and> ech_up ch then effect (State (ech_slug ch) False) s else s)
         in (if es_sessionID s \<noteq> [] then Subscribing (es_sessionID s) [i] else Returned, s))"

definition run_task :: "(string \<Rightarrow> string list option) \<Rightarrow> es_answer \<Rightarrow> es_task \<Rightarrow> supervisor \<Rightarrow> es_task \<times> supervisor" where
  "run_task ids an t s = (case t of
     Welcomed sess recreate \<Rightarrow> onWelcome an sess recreate s
   | Revoked subID subType bid \<Rightarrow> onRevoke an subID subType bid s
   | Subscribing sess q \<Rightarrow> (case q of [] \<Rightarrow> (Returned, s) | i # q \<Rightarrow> begin_channel an sess i q s)
   | Requesting sess q i tok subs chatUp automodUp \<Rightarrow> (case subs of
       [] \<Rightarrow> (Subscribing sess q, finish_channel i chatUp automodUp s)
     | sub # subs \<Rightarrow> reserve sess q i tok sub subs chatUp automodUp s)
   | Creating sess q i tok sub subs chatUp automodUp \<Rightarrow> created ids an sess q i tok sub subs chatUp automodUp s
   | Deleting dels \<Rightarrow> (Returned, case an_token an of Inl e \<Rightarrow> s | Inr tok \<Rightarrow> fold (\<lambda>d. effect (Deleted d)) dels s)
   | Returned \<Rightarrow> (Returned, s))"

subsection \<open>Runs\<close>

datatype es_event =
    Join string
  | Leave string
  | Close
  | Dial "string option"
  | Read "string option"
  | Run nat es_answer

definition es_step :: "es_decoders \<Rightarrow> (string \<Rightarrow> string list option) \<Rightarrow> es_event \<Rightarrow> supervisor \<Rightarrow> supervisor" where
  "es_step dec ids ev s = (case ev of
     Join slug \<Rightarrow> es_join slug s
   | Leave slug \<Rightarrow> es_leave slug s
   | Close \<Rightarrow> es_close s
   | Dial failed \<Rightarrow> if es_connected s \<or> es_closed s then s else es_dial failed s
   | Read frame \<Rightarrow> if es_connected s \<and> \<not> es_closed s then es_read dec frame s else s
   | Run k an \<Rightarrow> if k < length (es_tasks s)
       then (case run_task ids an (es_tasks s ! k) s of (t, s) \<Rightarrow> s\<lparr>es_tasks := (es_tasks s)[k := t]\<rparr>) else s)"

definition es_run :: "es_decoders \<Rightarrow> (string \<Rightarrow> string list option) \<Rightarrow> es_event list \<Rightarrow> supervisor \<Rightarrow> supervisor" where
  "es_run dec ids evs s = fold (es_step dec ids) evs s"

lemma es_run_simps [simp]: "es_run dec ids [] s = s" "es_run dec ids (ev # evs) s = es_run dec ids evs (es_step dec ids ev s)"
  by (simp_all add: es_run_def)

subsection \<open>The budget\<close>

definition budget_ok :: "subBudget \<Rightarrow> bool" where
  "budget_ok b \<longleftrightarrow> length b \<le> maxConnsPerUser \<and> (\<forall>n \<in> set b. n \<le> maxSubsPerConn)"

lemma reserve_None: "budget_reserve b = None \<longleftrightarrow> (\<forall>n \<in> set b. maxSubsPerConn \<le> n)"
  by (induction b) auto

lemma reserve_Some: "budget_reserve b = Some (i, b') \<Longrightarrow> i < length b \<and> b ! i < maxSubsPerConn \<and> b' = b[i := Suc (b ! i)]"
  by (induction b arbitrary: i b') (auto split: if_splits)

lemma sum_list_full: "length b \<le> k \<Longrightarrow> \<forall>n \<in> set b. n \<le> c \<Longrightarrow> 0 < c \<Longrightarrow>
    sum_list b = k * c \<longleftrightarrow> length b = k \<and> (\<forall>n \<in> set b. c \<le> n)" for b :: "nat list"
proof -
  assume a: "length b \<le> k" "\<forall>n \<in> set b. n \<le> c" "0 < c"
  have le: "sum_list b \<le> length b * c" "(\<exists>n \<in> set b. n < c) \<Longrightarrow> sum_list b < length b * c"
    using a(2) by (induction b) (auto, fastforce+)
  have eq: "(\<forall>n \<in> set b. c \<le> n) \<Longrightarrow> sum_list b = length b * c"
    using a(2) by (induction b) auto
  have "length b * c \<le> k * c" using a(1) by simp
  then show ?thesis using le eq a by (metis le_antisym linorder_not_le mult_right_cancel nat_less_le)
qed

lemma budget_add_exact:
  assumes "budget_ok b"
  shows "budget_add b = None \<longleftrightarrow> budget_total b = maxConnsPerUser * maxSubsPerConn"
    and "budget_add b = Some (i, b') \<Longrightarrow> budget_ok b' \<and> budget_total b' = budget_total b + 1"
proof -
  show "budget_add b = None \<longleftrightarrow> budget_total b = maxConnsPerUser * maxSubsPerConn"
  proof -
    have "budget_add b = None \<longleftrightarrow> (\<forall>n \<in> set b. maxSubsPerConn \<le> n) \<and> \<not> length b < maxConnsPerUser"
      unfolding reserve_None [symmetric] budget_add_def by (auto split: option.splits)
    then show ?thesis using assms sum_list_full [of b maxConnsPerUser maxSubsPerConn]
      by (auto simp: budget_ok_def budget_total_def maxSubsPerConn_def)
  qed
  assume a: "budget_add b = Some (i, b')"
  show "budget_ok b' \<and> budget_total b' = budget_total b + 1"
  proof (cases "budget_reserve b")
    case None
    then show ?thesis using a assms
      by (auto simp: budget_add_def budget_ok_def budget_total_def maxSubsPerConn_def split: if_splits)
  next
    case (Some p)
    then have "budget_reserve b = Some (i, b')" using a by (simp add: budget_add_def)
    then have r: "i < length b" "b ! i < maxSubsPerConn" "b' = b[i := Suc (b ! i)]" using reserve_Some by blast+
    then have "budget_total b' = budget_total b + 1"
      using member_le_sum_list [of "b ! i" b] by (simp add: budget_total_def sum_list_update)
    moreover have "budget_ok b'" using assms r set_update_subset_insert [of b i "Suc (b ! i)"] by (auto simp: budget_ok_def)
    ultimately show ?thesis by simp
  qed
qed

lemma budget_remove_ok: "budget_ok b \<Longrightarrow> budget_ok (budget_remove i b)"
  using set_update_subset_insert [of b i "b ! i - 1"] nth_mem [of i b]
  by (fastforce simp: budget_remove_def budget_ok_def)

lemma budget_removes_ok: "budget_ok b \<Longrightarrow> budget_ok ((budget_remove i ^^ n) b)"
  by (induction n) (auto simp: budget_remove_ok)

subsection \<open>Frames\<close>

lemma fold_effect: "fold (\<lambda>x. effect (g x)) xs s = s\<lparr>es_effects := es_effects s @ map g xs\<rparr>"
  by (induction xs arbitrary: s) (simp_all add: effect_def)

lemma effect_frame [simp]:
  "es_objs (effect x s) = es_objs s" "es_channels (effect x s) = es_channels s" "es_tasks (effect x s) = es_tasks s"
  "es_effects (effect x s) = es_effects s @ [x]" "es_userID (effect x s) = es_userID s" "es_budget (effect x s) = es_budget s"
  "es_sessionID (effect x s) = es_sessionID s"
  by (simp_all add: effect_def)

lemma spawn_frame [simp]:
  "es_objs (spawn t s) = es_objs s" "es_channels (spawn t s) = es_channels s" "es_tasks (spawn t s) = es_tasks s @ [t]"
  "es_effects (spawn t s) = es_effects s" "es_userID (spawn t s) = es_userID s" "es_budget (spawn t s) = es_budget s"
  "es_sessionID (spawn t s) = es_sessionID s"
  by (simp_all add: spawn_def)

lemma set_obj_frame [simp]:
  "es_objs (set_obj i f s) = (es_objs s)[i := f (es_objs s ! i)]" "es_channels (set_obj i f s) = es_channels s"
  "es_tasks (set_obj i f s) = es_tasks s" "es_effects (set_obj i f s) = es_effects s" "es_userID (set_obj i f s) = es_userID s"
  "es_budget (set_obj i f s) = es_budget s" "es_sessionID (set_obj i f s) = es_sessionID s"
  by (simp_all add: set_obj_def)

definition all_down :: "supervisor \<Rightarrow> esChannelState list" where
  "all_down s = map (\<lambda>i. if i \<in> snd ` set (es_channels s) then down (es_objs s ! i) else es_objs s ! i) [0 ..< length (es_objs s)]"

definition flipped :: "supervisor \<Rightarrow> string list" where
  "flipped s = map fst (filter (\<lambda>(k, i). ech_up (es_objs s ! i)) (es_channels s))"

lemma start_over_frame [simp]:
  "es_objs (start_over d s) = all_down s" "es_channels (start_over d s) = es_channels s" "es_tasks (start_over d s) = es_tasks s"
  "es_effects (start_over d s) = es_effects s @ map (\<lambda>k. State k False) (flipped s)" "es_userID (start_over d s) = es_userID s"
  "es_budget (start_over d s) = []" "es_sessionID (start_over d s) = []"
  by (simp_all add: start_over_def es_sleep_def es_nextRand_def markAllDown_def Let_def fold_effect all_down_def flipped_def)

lemma length_all_down [simp]: "length (all_down s) = length (es_objs s)"
  by (simp add: all_down_def)

lemma nth_all_down [simp]:
  "i < length (es_objs s) \<Longrightarrow> all_down s ! i = (if i \<in> snd ` set (es_channels s) then down (es_objs s ! i) else es_objs s ! i)"
  by (simp add: all_down_def)

text \<open>The cases of an event: what a step other than running a goroutine may do.\<close>

definition keeps :: "supervisor \<Rightarrow> supervisor \<Rightarrow> bool" where
  "keeps s s' \<longleftrightarrow> es_objs s' = es_objs s \<and> es_channels s' = es_channels s \<and> es_tasks s' = es_tasks s
     \<and> es_effects s' = es_effects s \<and> es_userID s' = es_userID s \<and> es_budget s' = es_budget s \<and> es_sessionID s' = es_sessionID s"

definition starts :: "es_task \<Rightarrow> bool" where
  "starts t = (case t of Welcomed sess r \<Rightarrow> True | Revoked a b c \<Rightarrow> True | _ \<Rightarrow> False)"

lemma keeps_refl: "keeps s s"
  by (simp add: keeps_def)

lemma es_read_cases:
  "(\<exists>d. es_read dec frame s = start_over d s) \<or> keeps s (es_read dec frame s)
    \<or> (\<exists>t s'. es_read dec frame s = spawn t s' \<and> keeps s s' \<and> starts t)"
proof (cases frame)
  case None
  then have "es_read dec frame s = start_over ''eventsub connection lost'' s" by (simp add: es_read_def)
  then show ?thesis by blast
next
  case (Some b)
  have frame: "keeps s (s\<lparr>es_attempt := 0, es_carried := False\<rparr>)" "keeps s (s\<lparr>es_emitted := evs\<rparr>)"
    "keeps s (s\<lparr>es_url := u, es_carried := True, es_connected := False\<rparr>)" "starts (Welcomed sess r)" "starts (Revoked x y z)"
    for evs u sess r x y z by (simp_all add: keeps_def starts_def)
  have spawned: "\<exists>t s'. spawn (Welcomed sess r) (s\<lparr>es_attempt := 0, es_carried := False\<rparr>) = spawn t s' \<and> keeps s s' \<and> starts t"
    "\<exists>t s'. spawn (Revoked x y z) s = spawn t s' \<and> keeps s s' \<and> starts t" for sess r x y z
    using frame keeps_refl by blast+
  show ?thesis
  proof (cases "dec_envelope dec b")
    case None
    then show ?thesis using Some by (simp add: es_read_def keeps_refl)
  next
    case env: (Some env)
    let ?t = "ev_MessageType env"
    consider "?t = ''session_welcome''" | "?t = ''notification''" | "?t = ''session_reconnect''" | "?t = ''revocation''"
      | "?t \<notin> {''session_welcome'', ''notification'', ''session_reconnect'', ''revocation''}" by blast
    then show ?thesis
    proof cases
      case 1
      then show ?thesis using Some env spawned keeps_refl by (cases "dec_session dec (ev_Payload env)") (simp_all add: es_read_def)
    next
      case 2
      then show ?thesis using Some env frame keeps_refl
        by (cases "eventFromNotification dec (ev_SubscriptionType env) (ev_Payload env) (parseESTimestamp dec (ev_MessageTimestamp env))")
          (auto simp: es_read_def)
    next
      case 3
      then show ?thesis using Some env frame keeps_refl by (cases "dec_session dec (ev_Payload env)") (auto simp: es_read_def)
    next
      case 4
      then show ?thesis using Some env spawned keeps_refl by (cases "dec_revocation dec (ev_Payload env)") (simp_all add: es_read_def)
    next
      case 5
      then show ?thesis using Some env keeps_refl by (simp add: es_read_def)
    qed
  qed
qed

lemma outer_step_cases:
  assumes "\<And>k an. ev \<noteq> Run k an"
  obtains (join) slug where "ev = Join slug" "es_step dec ids ev s = es_join slug s"
    | (leave) slug where "ev = Leave slug" "es_step dec ids ev s = es_leave slug s"
    | (quiet) s' where "es_step dec ids ev s = s'" "keeps s s'" "\<And>slug. ev \<noteq> Join slug" "\<And>slug. ev \<noteq> Leave slug"
    | (over) d where "es_step dec ids ev s = start_over d s" "\<And>slug. ev \<noteq> Join slug" "\<And>slug. ev \<noteq> Leave slug"
    | (task) t s' where "es_step dec ids ev s = spawn t s'" "keeps s s'" "starts t" "\<And>slug. ev \<noteq> Join slug" "\<And>slug. ev \<noteq> Leave slug"
proof (cases ev)
  case (Join slug)
  then show thesis using that(1) by (simp add: es_step_def)
next
  case (Leave slug)
  then show thesis using that(2) by (simp add: es_step_def)
next
  case Close
  have "keeps s (es_close s)" by (simp add: keeps_def es_close_def)
  then show thesis using Close that(3) by (simp add: es_step_def)
next
  case (Dial failed)
  show thesis
  proof (cases "es_connected s \<or> es_closed s")
    case True
    then show thesis using Dial that(3) [of s] by (simp add: es_step_def keeps_refl)
  next
    case False
    have "keeps s (s\<lparr>es_connected := True\<rparr>)" by (simp add: keeps_def)
    then show thesis using Dial False that(3) that(4) by (cases failed) (simp_all add: es_step_def es_dial_def)
  qed
next
  case (Read frame)
  show thesis
  proof (cases "es_connected s \<and> \<not> es_closed s")
    case True
    then have "es_step dec ids ev s = es_read dec frame s" using Read by (simp add: es_step_def)
    then show thesis using es_read_cases [of dec frame s] Read that(3,4,5) by (metis es_event.distinct(7,15))
  next
    case False
    then have "es_step dec ids ev s = s" using Read by (auto simp: es_step_def)
    then show thesis using Read that(3) [of s] by (simp add: keeps_refl)
  qed
next
  case (Run k an)
  then show thesis using assms by blast
qed

subsection \<open>A channel migrates only after Twitch accepted its subscription\<close>

definition chat_accepted :: "(string \<Rightarrow> string list option) \<Rightarrow> string \<Rightarrow> es_effect list \<Rightarrow> string \<Rightarrow> bool" where
  "chat_accepted ids user effs slug \<longleftrightarrow> (\<exists>i sub ans sid bid. Created i sub ans \<in> set effs \<and> er_Type sub = subChatMessage
     \<and> CreateEventSubSubscription ids sub ans = Inr sid \<and> Resolved slug bid \<in> set effs
     \<and> er_Condition sub = [(''broadcaster_user_id'', bid), (''user_id'', user)])"

definition subscribed_types :: "string set" where
  "subscribed_types = {subChatMessage, subAutomodHold, subAutomodUpd}"

definition migrations_ok :: "(string \<Rightarrow> string list option) \<Rightarrow> string \<Rightarrow> es_effect list \<Rightarrow> bool" where
  "migrations_ok ids user effs \<longleftrightarrow>
     (\<forall>k slug. k < length effs \<longrightarrow> effs ! k = State slug True \<longrightarrow> chat_accepted ids user (take k effs) slug)
   \<and> (\<forall>i sub ans. Created i sub ans \<in> set effs \<longrightarrow> er_Type sub \<in> subscribed_types)"

definition subs_ok :: "supervisor \<Rightarrow> nat \<Rightarrow> esSubRequest list \<Rightarrow> bool" where
  "subs_ok s i subs \<longleftrightarrow> (\<exists>bid. Resolved (ech_slug (es_objs s ! i)) bid \<in> set (es_effects s) \<and>
     (\<forall>sub \<in> set subs. er_Type sub \<in> subscribed_types \<and>
       (er_Type sub = subChatMessage \<longrightarrow> er_Condition sub = [(''broadcaster_user_id'', bid), (''user_id'', es_userID s)])))"

definition claims_up :: "(string \<Rightarrow> string list option) \<Rightarrow> supervisor \<Rightarrow> nat \<Rightarrow> bool \<Rightarrow> bool" where
  "claims_up ids s i up \<longleftrightarrow> (up \<longrightarrow> chat_accepted ids (es_userID s) (es_effects s) (ech_slug (es_objs s ! i)))"

definition known_objs :: "supervisor \<Rightarrow> nat list \<Rightarrow> bool" where
  "known_objs s q \<longleftrightarrow> (\<forall>i \<in> set q. i < length (es_objs s))"

definition task_ok :: "(string \<Rightarrow> string list option) \<Rightarrow> supervisor \<Rightarrow> es_task \<Rightarrow> bool" where
  "task_ok ids s t = (case t of
     Subscribing sess q \<Rightarrow> known_objs s q
   | Requesting sess q i tok subs up am \<Rightarrow> known_objs s (i # q) \<and> subs_ok s i subs \<and> claims_up ids s i up
   | Creating sess q i tok sub subs up am \<Rightarrow> known_objs s (i # q) \<and> subs_ok s i (sub # subs) \<and> claims_up ids s i up
   | _ \<Rightarrow> True)"

definition obj_ok :: "(string \<Rightarrow> string list option) \<Rightarrow> supervisor \<Rightarrow> esChannelState \<Rightarrow> bool" where
  "obj_ok ids s ch \<longleftrightarrow> (ech_bid ch \<noteq> [] \<longrightarrow> Resolved (ech_slug ch) (ech_bid ch) \<in> set (es_effects s))
     \<and> (ech_up ch \<longrightarrow> chat_accepted ids (es_userID s) (es_effects s) (ech_slug ch))"

definition core :: "(string \<Rightarrow> string list option) \<Rightarrow> supervisor \<Rightarrow> bool" where
  "core ids s \<longleftrightarrow> distinct (map fst (es_channels s))
     \<and> (\<forall>(k, i) \<in> set (es_channels s). i < length (es_objs s) \<and> ech_slug (es_objs s ! i) = k)
     \<and> (\<forall>ch \<in> set (es_objs s). obj_ok ids s ch) \<and> migrations_ok ids (es_userID s) (es_effects s) \<and> budget_ok (es_budget s)"

definition grows :: "supervisor \<Rightarrow> supervisor \<Rightarrow> bool" where
  "grows s s' \<longleftrightarrow> es_userID s' = es_userID s \<and> length (es_objs s) \<le> length (es_objs s') \<and> set (es_effects s) \<subseteq> set (es_effects s')
     \<and> (\<forall>i < length (es_objs s). ech_slug (es_objs s' ! i) = ech_slug (es_objs s ! i))"

lemma grows_refl [simp]: "grows s s"
  by (simp add: grows_def)

lemma grows_trans: "grows s t \<Longrightarrow> grows t u \<Longrightarrow> grows s u"
  by (auto simp: grows_def)

lemma accepted_mono: "chat_accepted ids user effs slug \<Longrightarrow> set effs \<subseteq> set effs' \<Longrightarrow> chat_accepted ids user effs' slug"
  unfolding chat_accepted_def by blast

lemma known_cons [simp]: "known_objs s (i # q) \<longleftrightarrow> i < length (es_objs s) \<and> known_objs s q" "known_objs s []"
  by (auto simp: known_objs_def)

lemma claims_mono: "grows s s' \<Longrightarrow> i < length (es_objs s) \<Longrightarrow> claims_up ids s i up \<Longrightarrow> claims_up ids s' i up"
  by (auto simp: claims_up_def grows_def intro: accepted_mono)

lemma subs_mono: "grows s s' \<Longrightarrow> i < length (es_objs s) \<Longrightarrow> subs_ok s i subs \<Longrightarrow> subs_ok s' i subs"
proof -
  assume g: "grows s s'" and i: "i < length (es_objs s)" and ok: "subs_ok s i subs"
  have same: "ech_slug (es_objs s' ! i) = ech_slug (es_objs s ! i)" "es_userID s' = es_userID s" "set (es_effects s) \<subseteq> set (es_effects s')"
    using g i by (simp_all add: grows_def)
  then show "subs_ok s' i subs" using ok unfolding subs_ok_def same(1,2) by blast
qed

lemma known_mono: "grows s s' \<Longrightarrow> known_objs s q \<Longrightarrow> known_objs s' q"
  by (auto simp: known_objs_def grows_def)

lemma task_ok_mono: "grows s s' \<Longrightarrow> task_ok ids s t \<Longrightarrow> task_ok ids s' t"
  by (cases t) (auto simp: task_ok_def known_mono subs_mono claims_mono, auto simp: grows_def)

lemma subs_ok_tail: "subs_ok s i (sub # subs) \<Longrightarrow> subs_ok s i subs"
  by (auto simp: subs_ok_def)

lemma core_budget: "core ids s \<Longrightarrow> budget_ok b \<Longrightarrow> core ids (s\<lparr>es_budget := b\<rparr>)"
  by (simp add: core_def obj_ok_def)

lemma core_quiet [simp]:
  "core ids (s\<lparr>es_sessionID := x\<rparr>) = core ids s" "core ids (s\<lparr>es_health := h\<rparr>) = core ids s" "core ids (s\<lparr>es_tasks := ts\<rparr>) = core ids s"
  by (simp_all add: core_def obj_ok_def)

lemma grows_quiet [simp]:
  "grows s (s\<lparr>es_sessionID := x\<rparr>)" "grows s (s\<lparr>es_health := h\<rparr>)" "grows s (s\<lparr>es_tasks := ts\<rparr>)" "grows s (s\<lparr>es_budget := b\<rparr>)"
  by (simp_all add: grows_def)

lemma core_set_obj:
  assumes "core ids s" "i < length (es_objs s)" "ech_slug (f (es_objs s ! i)) = ech_slug (es_objs s ! i)" "obj_ok ids s (f (es_objs s ! i))"
  shows "core ids (set_obj i f s)" "grows s (set_obj i f s)"
proof -
  have "\<forall>ch \<in> set ((es_objs s)[i := f (es_objs s ! i)]). obj_ok ids s ch"
    using assms(1,4) set_update_subset_insert [of "es_objs s" i "f (es_objs s ! i)"] by (auto simp: core_def)
  moreover have "obj_ok ids (set_obj i f s) ch = obj_ok ids s ch" for ch by (simp add: obj_ok_def)
  ultimately show "core ids (set_obj i f s)" using assms by (auto simp: core_def nth_list_update)
  show "grows s (set_obj i f s)" using assms(2,3) by (auto simp: grows_def nth_list_update)
qed

lemma migrations_snoc:
  "migrations_ok ids user (effs @ [x]) \<longleftrightarrow> migrations_ok ids user effs
    \<and> (\<forall>slug. x = State slug True \<longrightarrow> chat_accepted ids user effs slug)
    \<and> (\<forall>i sub ans. x = Created i sub ans \<longrightarrow> er_Type sub \<in> subscribed_types)"
proof -
  have "(\<forall>k slug. k < length (effs @ [x]) \<longrightarrow> (effs @ [x]) ! k = State slug True \<longrightarrow> chat_accepted ids user (take k (effs @ [x])) slug)
      \<longleftrightarrow> (\<forall>k slug. k < length effs \<longrightarrow> effs ! k = State slug True \<longrightarrow> chat_accepted ids user (take k effs) slug)
        \<and> (\<forall>slug. x = State slug True \<longrightarrow> chat_accepted ids user effs slug)"
    by (auto simp: nth_append less_Suc_eq)
  moreover have "(\<forall>i sub ans. Created i sub ans \<in> set (effs @ [x]) \<longrightarrow> er_Type sub \<in> subscribed_types)
      \<longleftrightarrow> (\<forall>i sub ans. Created i sub ans \<in> set effs \<longrightarrow> er_Type sub \<in> subscribed_types)
        \<and> (\<forall>i sub ans. x = Created i sub ans \<longrightarrow> er_Type sub \<in> subscribed_types)"
    unfolding set_append list.set by blast
  ultimately show ?thesis unfolding migrations_ok_def by blast
qed

lemma core_effect:
  assumes "core ids s" "\<And>slug. x = State slug True \<Longrightarrow> chat_accepted ids (es_userID s) (es_effects s) slug"
    "\<And>i sub ans. x = Created i sub ans \<Longrightarrow> er_Type sub \<in> subscribed_types"
  shows "core ids (effect x s)" "grows s (effect x s)"
proof -
  have "obj_ok ids s ch \<Longrightarrow> obj_ok ids (effect x s) ch" for ch
    using accepted_mono [of ids "es_userID s" "es_effects s" _ "es_effects s @ [x]"] by (auto simp: obj_ok_def)
  then show "core ids (effect x s)" using assms by (simp add: core_def migrations_snoc)
  show "grows s (effect x s)" by (auto simp: grows_def)
qed

text \<open>What one turn of a goroutine does: the invariant is kept, and what the goroutine becomes is in order.\<close>

definition sound :: "(string \<Rightarrow> string list option) \<Rightarrow> supervisor \<Rightarrow> es_task \<times> supervisor \<Rightarrow> bool" where
  "sound ids s r \<longleftrightarrow> core ids (snd r) \<and> grows s (snd r) \<and> task_ok ids (snd r) (fst r) \<and> es_tasks (snd r) = es_tasks s"

lemma quiet_ok [simp]:
  "known_objs (s\<lparr>es_sessionID := x\<rparr>) q = known_objs s q" "known_objs (s\<lparr>es_health := h\<rparr>) q = known_objs s q"
  "known_objs (s\<lparr>es_budget := b\<rparr>) q = known_objs s q"
  "subs_ok (s\<lparr>es_sessionID := x\<rparr>) i subs = subs_ok s i subs" "subs_ok (s\<lparr>es_health := h\<rparr>) i subs = subs_ok s i subs"
  "subs_ok (s\<lparr>es_budget := b\<rparr>) i subs = subs_ok s i subs"
  "claims_up ids (s\<lparr>es_sessionID := x\<rparr>) i up = claims_up ids s i up" "claims_up ids (s\<lparr>es_health := h\<rparr>) i up = claims_up ids s i up"
  "claims_up ids (s\<lparr>es_budget := b\<rparr>) i up = claims_up ids s i up"
  by (simp_all add: known_objs_def subs_ok_def claims_up_def)

lemma in_order_set: "set (in_order order is) = set is"
  by (auto simp: in_order_def dest: mset_eq_setD)

lemma known_channels: "core ids s \<Longrightarrow> known_objs s (map snd (es_channels s))"
  by (auto simp: core_def known_objs_def)

lemma budget_ok_Nil [simp]: "budget_ok []"
  by (simp add: budget_ok_def)

lemma sound_onWelcome: "core ids s \<Longrightarrow> sound ids s (onWelcome an sess recreate s)"
  using known_channels [of ids s]
  by (auto simp: sound_def onWelcome_def Let_def task_ok_def known_objs_def in_order_set core_budget grows_def)

lemma subs_ok_types: "Resolved (ech_slug (es_objs s ! i)) bid \<in> set (es_effects s) \<Longrightarrow> subs_ok s i (subTypesFor (es_userID s) bid)"
  unfolding subs_ok_def by (rule exI [of _ bid]) (simp add: subTypesFor_def subscribed_types_def)

lemma sound_begin:
  assumes "core ids s" "known_objs s (i # q)"
  shows "sound ids s (begin_channel an sess i q s)"
proof -
  let ?ch = "es_objs s ! i"
  have i: "i < length (es_objs s)" "known_objs s q" "obj_ok ids s ?ch" using assms by (auto simp: core_def)
  have refused: "sound ids s (Subscribing sess q, s)" using assms by (simp add: sound_def task_ok_def)
  have known: "sound ids s (Requesting sess q i tok (subTypesFor (es_userID s) (ech_bid ?ch)) False 0, s)" if "ech_bid ?ch \<noteq> []" for tok
    using assms i that subs_ok_types [of s i "ech_bid ?ch"] by (simp add: sound_def task_ok_def claims_up_def obj_ok_def)
  have resolved: "sound ids s (Requesting sess q i tok (subTypesFor (es_userID s) bid) False 0,
      set_obj i (\<lambda>ch. ch\<lparr>ech_bid := bid\<rparr>) (effect (Resolved (ech_slug ?ch) bid) s))" for tok bid
  proof -
    let ?s = "effect (Resolved (ech_slug ?ch) bid) s" and ?f = "\<lambda>ch. ch\<lparr>ech_bid := bid\<rparr>"
    have e: "core ids ?s" "grows s ?s" using assms(1) by (auto intro: core_effect)
    have ok: "obj_ok ids ?s (?f (es_objs ?s ! i))"
      using i(3) accepted_mono [of ids "es_userID s" "es_effects s" _ "es_effects s @ [Resolved (ech_slug ?ch) bid]"] by (auto simp: obj_ok_def)
    have st: "i < length (es_objs ?s)" "ech_slug (?f (es_objs ?s ! i)) = ech_slug (es_objs ?s ! i)" using i by simp_all
    let ?t = "set_obj i ?f ?s"
    have t: "core ids ?t" "grows ?s ?t" using core_set_obj [where f = ?f, OF e(1) st ok] by simp_all
    have g: "grows s ?t" using e(2) t(2) by (rule grows_trans)
    have "Resolved (ech_slug (es_objs ?t ! i)) bid \<in> set (es_effects ?t)" using i by simp
    then have "subs_ok ?t i (subTypesFor (es_userID s) bid)" using subs_ok_types [of ?t i bid] by simp
    moreover have "known_objs ?t (i # q)" using g assms(2) by (rule known_mono)
    ultimately show ?thesis using t(1) g by (simp add: sound_def task_ok_def claims_up_def)
  qed
  show ?thesis using refused known resolved by (auto simp: begin_channel_def split: sum.splits)
qed

lemma sound_reserve:
  assumes "core ids s" "task_ok ids s (Requesting sess q i tok (sub # subs) up am)"
  shows "sound ids s (reserve sess q i tok sub subs up am s)"
proof -
  have ok: "known_objs s (i # q)" "subs_ok s i (sub # subs)" "claims_up ids s i up" using assms(2) by (simp_all add: task_ok_def)
  then have subs: "subs_ok s i []" "subs_ok s i (sub\<lparr>er_SessionID := sess\<rparr> # subs)" by (auto simp: subs_ok_def)
  have b: "budget_ok (es_budget s)" using assms(1) by (simp add: core_def)
  show ?thesis
  proof (cases "budget_add (es_budget s)")
    case None
    then show ?thesis using assms(1) ok subs by (simp add: reserve_def sound_def task_ok_def)
  next
    case (Some p)
    then obtain c b' where "budget_add (es_budget s) = Some (c, b')" by (cases p) auto
    then show ?thesis using assms(1) ok subs budget_add_exact(2) [OF b] by (simp add: reserve_def sound_def task_ok_def core_budget)
  qed
qed

lemma sound_created:
  assumes "core ids s" "task_ok ids s (Creating sess q i tok sub subs up am)"
  shows "sound ids s (created ids an sess q i tok sub subs up am s)"
proof -
  have ok: "known_objs s (i # q)" "subs_ok s i (sub # subs)" "claims_up ids s i up" using assms(2) by (simp_all add: task_ok_def)
  let ?s = "effect (Created i sub (an_http an)) s"
  have i: "i < length (es_objs s)" using ok by simp
  have "er_Type sub \<in> subscribed_types" using ok(2) by (auto simp: subs_ok_def)
  then have e: "core ids ?s" "grows s ?s" using assms(1) by (auto intro: core_effect)
  have t: "known_objs ?s (i # q)" "subs_ok ?s i subs" "claims_up ids ?s i up"
    using e(2) ok i by (auto intro: known_mono subs_mono claims_mono dest: subs_ok_tail simp del: known_cons)
  show ?thesis
  proof (cases "CreateEventSubSubscription ids sub (an_http an)")
    case (Inl err)
    have "budget_ok (es_budget s)" using assms(1) by (simp add: core_def)
    then have "core ids (?s\<lparr>es_budget := budget_remove 0 (es_budget ?s)\<rparr>)" using e(1) by (intro core_budget) (simp_all add: budget_remove_ok)
    moreover have "grows s (?s\<lparr>es_budget := budget_remove 0 (es_budget ?s)\<rparr>)" using e(2) by (simp add: grows_def)
    ultimately show ?thesis using Inl t by (simp add: created_def Let_def sound_def task_ok_def)
  next
    case (Inr sid)
    let ?f = "\<lambda>ch. ch\<lparr>ech_subIDs := AList.update (er_Type sub) sid (ech_subIDs ch)\<rparr>"
    have "obj_ok ids ?s (?f (es_objs ?s ! i))" using e(1) i by (auto simp: core_def obj_ok_def dest!: bspec [of _ _ "es_objs s ! i"])
    then have c: "core ids (set_obj i ?f ?s)" "grows ?s (set_obj i ?f ?s)" using core_set_obj [OF e(1), of i ?f] i by simp_all
    have g: "grows s (set_obj i ?f ?s)" using e(2) c(2) by (rule grows_trans)
    have up: "claims_up ids ?s i (up \<or> er_Type sub = subChatMessage)"
    proof (cases "er_Type sub = subChatMessage")
      case True
      obtain bid where "Resolved (ech_slug (es_objs s ! i)) bid \<in> set (es_effects s)"
        "er_Condition sub = [(''broadcaster_user_id'', bid), (''user_id'', es_userID s)]"
        using ok(2) True by (auto simp: subs_ok_def)
      then show ?thesis using True Inr unfolding claims_up_def chat_accepted_def by (auto intro!: exI [of _ sub])
    qed (use t in simp)
    have "known_objs (set_obj i ?f ?s) (i # q)" "subs_ok (set_obj i ?f ?s) i subs"
      "claims_up ids (set_obj i ?f ?s) i (up \<or> er_Type sub = subChatMessage)"
      using known_mono [OF c(2) t(1)] subs_mono [OF c(2) _ t(2)] claims_mono [OF c(2) _ up] i by simp_all
    then show ?thesis using Inr c(1) g by (simp add: created_def Let_def sound_def task_ok_def)
  qed
qed

lemma sound_finish:
  assumes "core ids s" "known_objs s (i # q)" "claims_up ids s i up"
  shows "sound ids s (Subscribing sess q, finish_channel i up am s)"
proof -
  let ?f = "\<lambda>ch. ch\<lparr>ech_up := up, ech_automod := am = 2\<rparr>"
  have i: "i < length (es_objs s)" and q: "known_objs s q" using assms(2) by simp_all
  have "obj_ok ids s (?f (es_objs s ! i))"
    using assms(1,3) i by (simp add: core_def obj_ok_def claims_up_def)
  then have c: "core ids (set_obj i ?f s)" "grows s (set_obj i ?f s)" using core_set_obj [OF assms(1) i, of ?f] by simp_all
  have plain: "sound ids s (Subscribing sess q, set_obj i ?f s)" using c known_mono [OF c(2) q] by (simp add: sound_def task_ok_def)
  have told: "sound ids s (Subscribing sess q, effect (State (ech_slug (es_objs s ! i)) True) (set_obj i ?f s))" if up
  proof -
    have "chat_accepted ids (es_userID s) (es_effects s) (ech_slug (es_objs s ! i))" using assms(3) that by (simp add: claims_up_def)
    then have e: "core ids (effect (State (ech_slug (es_objs s ! i)) True) (set_obj i ?f s))"
      "grows (set_obj i ?f s) (effect (State (ech_slug (es_objs s ! i)) True) (set_obj i ?f s))"
      using c(1) by (auto intro: core_effect)
    then have "grows s (effect (State (ech_slug (es_objs s ! i)) True) (set_obj i ?f s))" using c(2) grows_trans by blast
    moreover from this have "known_objs (effect (State (ech_slug (es_objs s ! i)) True) (set_obj i ?f s)) q" using q by (rule known_mono)
    ultimately show ?thesis using e(1) by (simp add: sound_def task_ok_def)
  qed
  show ?thesis using plain told by (simp add: finish_channel_def Let_def)
qed

lemma find_Some_mem: "find P xs = Some x \<Longrightarrow> x \<in> set xs"
  by (auto simp: find_Some_iff)

lemma if_either: "(if c then x else y) = y \<or> (if c then x else y) = x"
  by simp

lemma sound_onRevoke:
  assumes "core ids s"
  shows "sound ids s (onRevoke an subID subType owner s)"
proof -
  let ?P = "\<lambda>i. let ch = es_objs s ! i
    in subID \<noteq> [] \<and> map_of (ech_subIDs ch) subType = Some subID \<or> ech_bid ch \<noteq> [] \<and> ech_bid ch = owner"
  show ?thesis
  proof (cases "find ?P (in_order (an_order an) (map snd (es_channels s)))")
    case None
    then show ?thesis using assms by (simp add: onRevoke_def sound_def task_ok_def)
  next
    case (Some i)
    have "i \<in> set (map snd (es_channels s))" using find_Some_mem [OF Some] by (simp only: in_order_set)
    then have i: "i < length (es_objs s)" using known_channels [OF assms] by (auto simp: known_objs_def)
    let ?f = "\<lambda>ch. ch\<lparr>ech_subIDs := AList.delete subType (ech_subIDs ch), ech_up := ech_up ch \<and> subType \<noteq> subChatMessage, ech_automod := False\<rparr>"
    let ?s = "(set_obj i ?f s)\<lparr>es_budget := budget_remove 0 (es_budget s)\<rparr>"
    have "obj_ok ids s (?f (es_objs s ! i))" using assms i by (auto simp: core_def obj_ok_def dest!: bspec [of _ _ "es_objs s ! i"])
    then have "core ids (set_obj i ?f s)" "grows s (set_obj i ?f s)" using core_set_obj [OF assms i, of ?f] by simp_all
    moreover have "budget_ok (budget_remove 0 (es_budget s))" using assms by (simp add: core_def budget_remove_ok)
    ultimately have c: "core ids ?s" "grows s ?s" by (simp_all add: core_budget, simp add: grows_def)
    have e: "core ids (effect (State (ech_slug (es_objs s ! i)) False) ?s)" "grows ?s (effect (State (ech_slug (es_objs s ! i)) False) ?s)"
      using c(1) by (auto intro: core_effect)
    have g: "grows s (effect (State (ech_slug (es_objs s ! i)) False) ?s)" using c(2) e(2) by (rule grows_trans)
    have res: "sound ids s (if es_sessionID t \<noteq> [] then Subscribing (es_sessionID t) [i] else Returned, t)"
      if "t = ?s \<or> t = effect (State (ech_slug (es_objs s ! i)) False) ?s" for t
      using that c e g i by (auto simp: sound_def task_ok_def)
    have eq: "onRevoke an subID subType owner s =
        (let t = (if subType = subChatMessage \<and> ech_up (es_objs s ! i) then effect (State (ech_slug (es_objs s ! i)) False) ?s else ?s)
         in (if es_sessionID t \<noteq> [] then Subscribing (es_sessionID t) [i] else Returned, t))"
      using Some by (simp add: onRevoke_def Let_def)
    show ?thesis unfolding eq unfolding Let_def by (rule res, rule if_either)
  qed
qed

lemma sound_run_task:
  assumes "core ids s" "task_ok ids s t"
  shows "sound ids s (run_task ids an t s)"
proof (cases t)
  case (Welcomed sess recreate)
  then show ?thesis using assms by (simp add: run_task_def sound_onWelcome)
next
  case (Revoked a b c)
  then show ?thesis using assms by (simp add: run_task_def sound_onRevoke)
next
  case (Subscribing sess q)
  then show ?thesis using assms sound_begin [of ids s _ _ an sess]
    by (cases q) (simp_all add: run_task_def task_ok_def sound_def)
next
  case (Requesting sess q i tok subs up am)
  then show ?thesis
  proof (cases subs)
    case Nil
    then show ?thesis using Requesting assms by (simp add: run_task_def task_ok_def sound_finish)
  next
    case (Cons sub subs')
    then show ?thesis using Requesting assms by (simp add: run_task_def sound_reserve)
  qed
next
  case (Creating sess q i tok sub subs up am)
  then show ?thesis using assms by (simp add: run_task_def sound_created)
next
  case (Deleting ds)
  have "core ids (fold (\<lambda>d. effect (Deleted d)) ds s') \<and> grows s' (fold (\<lambda>d. effect (Deleted d)) ds s')
      \<and> es_tasks (fold (\<lambda>d. effect (Deleted d)) ds s') = es_tasks s'" if "core ids s'" for s' using that
  proof (induction ds arbitrary: s')
    case (Cons d ds)
    have "core ids (effect (Deleted d) s')" "grows s' (effect (Deleted d) s')" using Cons.prems by (auto intro: core_effect)
    then show ?case using Cons.IH [of "effect (Deleted d) s'"] grows_trans by auto
  qed simp
  then show ?thesis using Deleting assms by (auto simp: run_task_def sound_def task_ok_def split: sum.splits)
next
  case Returned
  then show ?thesis using assms by (simp add: run_task_def sound_def)
qed

definition es_inv :: "(string \<Rightarrow> string list option) \<Rightarrow> supervisor \<Rightarrow> bool" where
  "es_inv ids s \<longleftrightarrow> core ids s \<and> (\<forall>t \<in> set (es_tasks s). task_ok ids s t)"

lemma tasks_grow: "\<forall>t \<in> set ts. task_ok ids s t \<Longrightarrow> grows s s' \<Longrightarrow> \<forall>t \<in> set ts. task_ok ids s' t"
  using task_ok_mono by blast

lemma task_ok_same: "es_objs s' = es_objs s \<Longrightarrow> es_effects s' = es_effects s \<Longrightarrow> es_userID s' = es_userID s \<Longrightarrow> task_ok ids s' t = task_ok ids s t"
  by (cases t) (simp_all add: task_ok_def known_objs_def subs_ok_def claims_up_def)

lemma core_same: "es_objs s' = es_objs s \<Longrightarrow> es_channels s' = es_channels s \<Longrightarrow> es_effects s' = es_effects s \<Longrightarrow>
    es_userID s' = es_userID s \<Longrightarrow> es_budget s' = es_budget s \<Longrightarrow> core ids s' = core ids s"
  by (simp add: core_def obj_ok_def)

lemma inv_run: "es_inv ids s \<Longrightarrow> es_inv ids (es_step dec ids (Run k an) s)"
proof -
  assume inv: "es_inv ids s"
  show ?thesis
  proof (cases "k < length (es_tasks s)")
    case True
    obtain t s' where r: "run_task ids an (es_tasks s ! k) s = (t, s')" by fastforce
    then have so: "core ids s'" "grows s s'" "task_ok ids s' t" "es_tasks s' = es_tasks s"
      using sound_run_task [of ids s "es_tasks s ! k" an] inv True by (simp_all add: es_inv_def sound_def)
    let ?s = "s'\<lparr>es_tasks := (es_tasks s')[k := t]\<rparr>"
    have "task_ok ids ?s u = task_ok ids s' u" for u by (rule task_ok_same) simp_all
    moreover have "\<forall>u \<in> set ((es_tasks s)[k := t]). task_ok ids s' u"
      using set_update_subset_insert [of "es_tasks s" k t] so(3) tasks_grow [OF _ so(2)] inv by (auto simp: es_inv_def)
    ultimately show ?thesis using True r so by (simp add: es_step_def es_inv_def)
  qed (simp add: es_step_def inv)
qed

lemma inv_join:
  assumes "es_inv ids s"
  shows "es_inv ids (es_join slug s)"
proof (cases "map_of (es_channels s) (to_lower slug)")
  case None
  let ?i = "length (es_objs s)" and ?o = "\<lparr>ech_slug = to_lower slug, ech_bid = [], ech_subIDs = [], ech_up = False, ech_automod = False\<rparr>"
  let ?s = "s\<lparr>es_objs := es_objs s @ [?o], es_channels := es_channels s @ [(to_lower slug, ?i)]\<rparr>"
  have core: "core ids ?s" using assms None by (auto simp: es_inv_def core_def obj_ok_def map_of_eq_None_iff nth_append)
  have "grows s ?s" by (simp add: grows_def nth_append)
  then have ts: "\<forall>t \<in> set (es_tasks s). task_ok ids ?s t" using assms tasks_grow by (auto simp: es_inv_def)
  have "core ids (spawn t ?s) = core ids ?s" "task_ok ids (spawn t ?s) u = task_ok ids ?s u" for t u
    by (rule core_same; simp) (rule task_ok_same; simp)
  then show ?thesis using None core ts by (simp add: es_join_def Let_def es_inv_def task_ok_def [of ids ?s "Subscribing _ _"])
qed (use assms in \<open>simp add: es_join_def Let_def\<close>)

lemma inv_leave:
  assumes "es_inv ids s"
  shows "es_inv ids (es_leave slug s)"
proof (cases "map_of (es_channels s) (to_lower slug)")
  case (Some i)
  let ?b = "(budget_remove 0 ^^ length (ech_subIDs (es_objs s ! i))) (es_budget s)"
  let ?s = "s\<lparr>es_channels := AList.delete (to_lower slug) (es_channels s), es_budget := ?b\<rparr>"
  have "budget_ok ?b" using assms by (intro budget_removes_ok) (simp add: es_inv_def core_def)
  then have core: "core ids ?s"
    using assms by (auto simp: es_inv_def core_def obj_ok_def AList.delete_eq intro: distinct_map_filter)
  have "core ids (spawn t ?s) = core ids ?s" "task_ok ids (spawn t ?s) u = task_ok ids s u" for t u
    by (rule core_same; simp) (rule task_ok_same; simp)
  then show ?thesis using Some core assms by (simp add: es_leave_def Let_def es_inv_def task_ok_def [of ids s "Deleting _"])
qed (use assms in \<open>simp add: es_leave_def Let_def\<close>)

lemma migrations_downs: "migrations_ok ids user effs \<Longrightarrow> migrations_ok ids user (effs @ map (\<lambda>k. State k False) ks)"
proof (induction ks arbitrary: effs)
  case (Cons k ks)
  have "migrations_ok ids user (effs @ [State k False])" using Cons.prems by (simp add: migrations_snoc)
  then show ?case using Cons.IH [of "effs @ [State k False]"] by simp
qed simp

lemma inv_over:
  assumes "es_inv ids s"
  shows "es_inv ids (start_over d s)"
proof -
  let ?s = "start_over d s"
  have g: "grows s ?s" by (auto simp: grows_def down_def)
  have objs: "\<forall>ch \<in> set (es_objs s). obj_ok ids s ch" using assms by (simp add: es_inv_def core_def)
  have obj: "obj_ok ids ?s ch" if o: "obj_ok ids s ch" for ch
    using o accepted_mono [of ids "es_userID s" "es_effects s" "ech_slug ch" "es_effects s @ map (\<lambda>k. State k False) (flipped s)"]
    by (simp add: obj_ok_def)
  then have objd: "obj_ok ids ?s (down ch)" if o: "obj_ok ids s ch" for ch using o by (auto simp: obj_ok_def down_def)
  have "\<forall>ch \<in> set (all_down s). obj_ok ids ?s ch"
  proof
    fix ch assume "ch \<in> set (all_down s)"
    then obtain i where "i < length (es_objs s)" "ch = down (es_objs s ! i) \<or> ch = es_objs s ! i"
      by (auto simp: all_down_def split: if_splits)
    then show "obj_ok ids ?s ch" using objs obj objd by auto
  qed
  moreover have "\<forall>(k, i) \<in> set (es_channels s). i < length (es_objs s) \<and> ech_slug (all_down s ! i) = k"
    using assms by (auto simp: es_inv_def core_def down_def)
  ultimately have "core ids ?s" using assms by (simp add: core_def es_inv_def migrations_downs)
  then show ?thesis using g assms tasks_grow [of "es_tasks s" ids s ?s] by (simp add: es_inv_def)
qed

lemma inv_keeps: "es_inv ids s \<Longrightarrow> keeps s s' \<Longrightarrow> es_inv ids s'"
  using core_same [of s' s ids] task_ok_same [of s' s ids] by (simp add: es_inv_def keeps_def)

lemma inv_spawn: "es_inv ids s \<Longrightarrow> starts t \<Longrightarrow> es_inv ids (spawn t s)"
  using core_same [of "spawn t s" s ids] task_ok_same [of "spawn t s" s ids]
  by (cases t) (simp_all add: es_inv_def starts_def task_ok_def [of ids s "Welcomed _ _"] task_ok_def [of ids s "Revoked _ _ _"])

lemma inv_step: "es_inv ids s \<Longrightarrow> es_inv ids (es_step dec ids ev s)"
proof -
  assume inv: "es_inv ids s"
  show ?thesis
  proof (cases "\<exists>k an. ev = Run k an")
    case True
    then show ?thesis using inv inv_run by blast
  next
    case False
    then have "\<And>k an. ev \<noteq> Run k an" by blast
    then show ?thesis
      by (cases rule: outer_step_cases [of ev dec ids s]) (use inv inv_join inv_leave inv_keeps inv_over inv_spawn in auto)
  qed
qed

lemma inv_reached: "es_inv ids (es_run dec ids evs (newESSupervisor user bo now))"
proof -
  have "es_inv ids (newESSupervisor user bo now)"
    by (simp add: es_inv_def core_def newESSupervisor_def migrations_ok_def)
  then show ?thesis unfolding es_run_def
    by (rule fold_invariant [where Q = "\<lambda>_. True", rotated]) (simp_all add: inv_step)
qed

lemma user_reached: "es_userID (es_run dec ids evs (newESSupervisor user bo now)) = user"
proof -
  have "es_userID (es_step dec ids ev s) = es_userID s" if "es_inv ids s" for ev s
  proof (cases "\<exists>k an. ev = Run k an")
    case True
    then obtain k an where ev: "ev = Run k an" by blast
    show ?thesis
    proof (cases "k < length (es_tasks s)")
      case True
      then have "grows s (snd (run_task ids an (es_tasks s ! k) s))"
        using that sound_run_task [of ids s "es_tasks s ! k" an] by (simp add: es_inv_def sound_def)
      then show ?thesis using ev True by (auto simp: es_step_def grows_def split: prod.splits)
    qed (simp add: es_step_def ev)
  next
    case False
    then have "\<And>k an. ev \<noteq> Run k an" by blast
    then show ?thesis
      by (cases rule: outer_step_cases [of ev dec ids s])
        (auto simp: keeps_def es_join_def es_leave_def Let_def split: option.splits)
  qed
  then have "es_userID (es_run dec ids evs (newESSupervisor user bo now)) = es_userID (newESSupervisor user bo now)"
  proof (induction evs rule: rev_induct)
    case (snoc ev evs)
    then show ?case using inv_reached [of ids dec evs user bo now] by (simp add: es_run_def)
  qed simp
  then show ?thesis by (simp add: newESSupervisor_def)
qed


subsection \<open>Every joined channel is read somewhere\<close>

text \<open>
  The adapter's side: the channels that are joined and those read over IRC. Joining connects IRC, leaving drops it,
  and each \<open>onState\<close> call for a joined channel moves it (\<^verbatim>\<open>Join\<close>, \<^verbatim>\<open>Leave\<close> and \<^verbatim>\<open>onESState\<close> of \<^verbatim>\<open>adapter.go\<close>, where every
  IRC connection succeeds).
\<close>

type_synonym reads = "string set \<times> string set"

definition migrate :: "es_effect \<Rightarrow> reads \<Rightarrow> reads" where
  "migrate x v = (case x of
     State slug up \<Rightarrow> if slug \<notin> fst v then v else if up then (fst v, snd v - {slug}) else (fst v, insert slug (snd v))
   | _ \<Rightarrow> v)"

definition view_step :: "es_decoders \<Rightarrow> (string \<Rightarrow> string list option) \<Rightarrow> es_event \<Rightarrow> supervisor \<times> reads \<Rightarrow> supervisor \<times> reads" where
  "view_step dec ids ev st = (case st of (s, joined, irc) \<Rightarrow>
     let s' = es_step dec ids ev s
     in (s', fold migrate (drop (length (es_effects s)) (es_effects s'))
         (case ev of Join slug \<Rightarrow> (insert (to_lower slug) joined, insert (to_lower slug) irc)
          | Leave slug \<Rightarrow> (joined - {to_lower slug}, irc - {to_lower slug})
          | _ \<Rightarrow> (joined, irc))))"

text \<open>
  The three races: a goroutine of an earlier membership finishes after the channel was joined again; a channel that is
  up is subscribed again and its chat subscription fails; a goroutine finishes after its session ended. And a welcome
  without a session id.
\<close>

definition disturbs :: "supervisor \<Rightarrow> es_event \<Rightarrow> bool" where
  "disturbs s ev \<longleftrightarrow> (case ev of
     Run k an \<Rightarrow> k < length (es_tasks s) \<and> (case es_tasks s ! k of
         Requesting sess q i tok subs up am \<Rightarrow> subs = [] \<and>
           (case map_of (es_channels s) (ech_slug (es_objs s ! i)) of
              None \<Rightarrow> False
            | Some j \<Rightarrow> if up then \<not> ech_up (es_objs s ! i) \<and> (j \<noteq> i \<or> es_sessionID s \<noteq> sess) else ech_up (es_objs s ! i) \<and> j = i)
       | Welcomed sess recreate \<Rightarrow> sess = []
       | _ \<Rightarrow> False)
   | _ \<Rightarrow> False)"

fun undisturbed :: "es_decoders \<Rightarrow> (string \<Rightarrow> string list option) \<Rightarrow> es_event list \<Rightarrow> supervisor \<Rightarrow> bool" where
  "undisturbed dec ids [] s = True"
| "undisturbed dec ids (ev # evs) s = (\<not> disturbs s ev \<and> undisturbed dec ids evs (es_step dec ids ev s))"

definition live :: "string \<Rightarrow> supervisor \<Rightarrow> bool" where
  "live slug s \<longleftrightarrow> channelUp slug s \<and> es_sessionID s \<noteq> []"

text \<open>The session a goroutine works for, none before its first section.\<close>

definition task_session :: "es_task \<Rightarrow> string option" where
  "task_session t = (case t of Subscribing sess q \<Rightarrow> Some sess | Requesting sess q i tok subs up am \<Rightarrow> Some sess
     | Creating sess q i tok sub subs up am \<Rightarrow> Some sess | _ \<Rightarrow> None)"

definition read_inv :: "(string \<Rightarrow> string list option) \<Rightarrow> supervisor \<times> reads \<Rightarrow> bool" where
  "read_inv ids st \<longleftrightarrow> (case st of (s, joined, irc) \<Rightarrow>
     es_inv ids s \<and> joined = fst ` set (es_channels s) \<and> Some [] \<notin> task_session ` set (es_tasks s)
     \<and> (\<forall>(k, i) \<in> set (es_channels s). k \<in> irc \<or> ech_up (es_objs s ! i) \<and> es_sessionID s \<noteq> []))"

lemma channels_lower: "es_inv ids s \<Longrightarrow> (k, i) \<in> set (es_channels s) \<Longrightarrow> map_of (es_channels s) k = Some i"
  by (simp add: es_inv_def core_def)

lemma migrate_simps [simp]:
  "migrate (Resolved a b) v = v" "migrate (Created i sub ans) v = v" "migrate (Deleted d) v = v"
  "slug \<notin> fst v \<Longrightarrow> migrate (State slug up) v = v"
  "slug \<in> fst v \<Longrightarrow> migrate (State slug True) v = (fst v, snd v - {slug})"
  "slug \<in> fst v \<Longrightarrow> migrate (State slug False) v = (fst v, insert slug (snd v))"
  by (simp_all add: migrate_def)

text \<open>What one turn of a goroutine does to what is read: at most one \<open>onState\<close> call, in step with the channel's state.\<close>

inductive turn :: "supervisor \<Rightarrow> supervisor \<Rightarrow> bool" where
  still: "es_channels s' = es_channels s \<Longrightarrow> (\<And>i. i < length (es_objs s) \<Longrightarrow> ech_up (es_objs s' ! i) = ech_up (es_objs s ! i)) \<Longrightarrow>
    es_effects s' = es_effects s @ xs \<Longrightarrow> \<forall>x \<in> set xs. \<forall>k up. x \<noteq> State k up \<Longrightarrow> es_sessionID s \<noteq> [] \<longrightarrow> es_sessionID s' \<noteq> [] \<Longrightarrow> turn s s'"
| told: "es_channels s' = es_channels s \<Longrightarrow> es_sessionID s' = es_sessionID s \<Longrightarrow> i < length (es_objs s) \<Longrightarrow>
    (\<And>j. j < length (es_objs s) \<Longrightarrow> j \<noteq> i \<Longrightarrow> ech_up (es_objs s' ! j) = ech_up (es_objs s ! j)) \<Longrightarrow>
    es_effects s' = es_effects s @ [State (ech_slug (es_objs s ! i)) (ech_up (es_objs s' ! i))] \<Longrightarrow>
    ech_up (es_objs s' ! i) \<longrightarrow> map_of (es_channels s) (ech_slug (es_objs s ! i)) \<in> {None, Some i} \<Longrightarrow>
    ech_up (es_objs s' ! i) \<longrightarrow> map_of (es_channels s) (ech_slug (es_objs s ! i)) \<noteq> None \<longrightarrow> es_sessionID s \<noteq> [] \<Longrightarrow> turn s s'"
| gone: "es_channels s' = es_channels s \<Longrightarrow> es_sessionID s' = es_sessionID s \<Longrightarrow> i \<notin> snd ` set (es_channels s) \<Longrightarrow>
    (\<And>j. j < length (es_objs s) \<Longrightarrow> j \<noteq> i \<Longrightarrow> ech_up (es_objs s' ! j) = ech_up (es_objs s ! j)) \<Longrightarrow> es_effects s' = es_effects s \<Longrightarrow> turn s s'"

lemma migrate_quiet: "\<forall>x \<in> set xs. \<forall>k up. x \<noteq> State k up \<Longrightarrow> fold migrate xs v = v"
proof (induction xs arbitrary: v)
  case (Cons x xs)
  then show ?case by (cases x) auto
qed simp

lemma migrate_downs: "set ks \<subseteq> joined \<Longrightarrow> fold migrate (map (\<lambda>k. State k False) ks) (joined, irc) = (joined, irc \<union> set ks)"
  by (induction ks arbitrary: irc) auto

definition all_read :: "supervisor \<Rightarrow> string set \<Rightarrow> bool" where
  "all_read s irc \<longleftrightarrow> (\<forall>(k, i) \<in> set (es_channels s). k \<in> irc \<or> ech_up (es_objs s ! i) \<and> es_sessionID s \<noteq> [])"

lemma all_readI: "(\<And>k i. (k, i) \<in> set (es_channels s) \<Longrightarrow> k \<in> irc \<or> ech_up (es_objs s ! i) \<and> es_sessionID s \<noteq> []) \<Longrightarrow> all_read s irc"
  unfolding all_read_def by blast

lemma all_readD: "all_read s irc \<Longrightarrow> (k, i) \<in> set (es_channels s) \<Longrightarrow> k \<in> irc \<or> ech_up (es_objs s ! i) \<and> es_sessionID s \<noteq> []"
  unfolding all_read_def by blast

lemma turn_read:
  assumes "turn s s'" "es_inv ids s" "all_read s irc" "joined = fst ` set (es_channels s)"
  shows "es_channels s' = es_channels s \<and>
    (\<exists>irc'. fold migrate (drop (length (es_effects s)) (es_effects s')) (joined, irc) = (joined, irc') \<and> all_read s' irc')"
proof -
  have reg: "i < length (es_objs s)" "ech_slug (es_objs s ! i) = k" "map_of (es_channels s) k = Some i" if "(k, i) \<in> set (es_channels s)" for k i
    using assms(2) that by (auto simp: es_inv_def core_def)
  note old = all_readD [OF assms(3)]
  show ?thesis using assms(1)
  proof cases
    case (still xs)
    have "all_read s' irc"
    proof (rule all_readI)
      fix k i assume "(k, i) \<in> set (es_channels s')"
      then have c: "(k, i) \<in> set (es_channels s)" by (simp add: still(1))
      show "k \<in> irc \<or> ech_up (es_objs s' ! i) \<and> es_sessionID s' \<noteq> []" using old [OF c] still(2) [OF reg(1) [OF c]] still(5) by auto
    qed
    then show ?thesis using still migrate_quiet by simp
  next
    case (told i)
    let ?slug = "ech_slug (es_objs s ! i)"
    have others: "k \<in> irc \<or> ech_up (es_objs s' ! j) \<and> es_sessionID s' \<noteq> []" if c: "(k, j) \<in> set (es_channels s')" and "k \<noteq> ?slug" for k j
    proof -
      have c: "(k, j) \<in> set (es_channels s)" using c by (simp add: told(1))
      then have "j \<noteq> i" using reg(2) that(2) by blast
      then show ?thesis using old [OF c] told(4) [OF reg(1) [OF c]] told(2) by simp
    qed
    show ?thesis
    proof (cases "?slug \<in> joined")
      case False
      then have "k \<noteq> ?slug" if "(k, j) \<in> set (es_channels s')" for k j using that told(1) assms(4) by force
      then have "all_read s' irc" using others by (blast intro: all_readI)
      then show ?thesis using False told by simp
    next
      case True
      then obtain j where j: "(?slug, j) \<in> set (es_channels s)" using assms(4) by force
      show ?thesis
      proof (cases "ech_up (es_objs s' ! i)")
        case False
        have "all_read s' (insert ?slug irc)" using others by (blast intro: all_readI)
        then show ?thesis using True False told by simp
      next
        case up: True
        then have i: "j = i" "es_sessionID s' \<noteq> []" using told(2,6,7) reg(3) [OF j] by auto
        have "all_read s' (irc - {?slug})"
        proof (rule all_readI)
          fix k l assume c: "(k, l) \<in> set (es_channels s')"
          show "k \<in> irc - {?slug} \<or> ech_up (es_objs s' ! l) \<and> es_sessionID s' \<noteq> []"
          proof (cases "k = ?slug")
            case True
            then have "l = i" using reg(3) [OF j] reg(3) [of k l] c i(1) told(1) by simp
            then show ?thesis using up i(2) by simp
          next
            case False
            then show ?thesis using others [OF c] by simp
          qed
        qed
        then show ?thesis using True up told by simp
      qed
    qed
  next
    case (gone i)
    have "all_read s' irc"
    proof (rule all_readI)
      fix k j assume "(k, j) \<in> set (es_channels s')"
      then have c: "(k, j) \<in> set (es_channels s)" by (simp add: gone(1))
      then have "j \<noteq> i" using gone(3) by force
      then show "k \<in> irc \<or> ech_up (es_objs s' ! j) \<and> es_sessionID s' \<noteq> []" using old [OF c] gone(4) [OF reg(1) [OF c]] gone(2) by simp
    qed
    then show ?thesis using gone by simp
  qed
qed

text \<open>A turn that does not disturb.\<close>

lemma turn_stillI:
  assumes "es_channels s' = es_channels s" "map ech_up (es_objs s') = map ech_up (es_objs s)" "es_effects s' = es_effects s @ xs"
    "\<forall>x \<in> set xs. \<forall>k up. x \<noteq> State k up" "es_sessionID s \<noteq> [] \<longrightarrow> es_sessionID s' \<noteq> []"
  shows "turn s s'"
proof -
  have "ech_up (es_objs s' ! i) = ech_up (es_objs s ! i)" if "i < length (es_objs s)" for i
    using arg_cong [OF assms(2), of "\<lambda>l. l ! i"] arg_cong [OF assms(2), of length] that by simp
  then show ?thesis by (rule turn.still [OF assms(1) _ assms(3-5)])
qed

lemma map_up_set_obj: "ech_up (f (es_objs s ! i)) = ech_up (es_objs s ! i) \<Longrightarrow> map ech_up (es_objs (set_obj i f s)) = map ech_up (es_objs s)"
  by (cases "i < length (es_objs s)") (simp_all add: map_update list_update_same_conv list_update_beyond)

lemma turn_begin: "turn s (snd (begin_channel an sess i q s))"
proof -
  have "turn s (set_obj i (\<lambda>ch. ch\<lparr>ech_bid := bid\<rparr>) (effect (Resolved (ech_slug (es_objs s ! i)) bid) s))" for bid
    by (rule turn_stillI [of _ _ "[Resolved (ech_slug (es_objs s ! i)) bid]"])
      (simp_all add: map_up_set_obj [of _ "effect _ s", simplified])
  moreover have "turn s s" by (rule turn_stillI [of _ _ "[]"]) simp_all
  ultimately show ?thesis by (auto simp: begin_channel_def split: sum.splits)
qed

lemma turn_reserve: "turn s (snd (reserve sess q i tok sub subs up am s))"
  by (rule turn_stillI [of _ _ "[]"]) (auto simp: reserve_def split: option.splits)

lemma turn_created: "turn s (snd (created ids an sess q i tok sub subs up am s))"
proof (rule turn_stillI [of _ _ "[Created i sub (an_http an)]"])
  show "map ech_up (es_objs (snd (created ids an sess q i tok sub subs up am s))) = map ech_up (es_objs s)"
    by (auto simp: created_def Let_def map_up_set_obj [of _ "effect _ s", simplified] split: sum.splits)
qed (auto simp: created_def Let_def split: sum.splits)

lemma turn_finish:
  assumes "es_inv ids s" "i < length (es_objs s)" "sess \<noteq> []"
    "\<And>j. map_of (es_channels s) (ech_slug (es_objs s ! i)) = Some j \<Longrightarrow>
       if up then \<not> ech_up (es_objs s ! i) \<longrightarrow> j = i \<and> es_sessionID s = sess else ech_up (es_objs s ! i) \<longrightarrow> j \<noteq> i"
  shows "turn s (finish_channel i up am s)"
proof (cases "up = ech_up (es_objs s ! i)")
  case True
  then show ?thesis
    by (intro turn_stillI [of _ _ "[]"]) (simp_all add: finish_channel_def Let_def map_update list_update_same_conv assms(2))
next
  case False
  show ?thesis
  proof (cases up)
    case True
    have "map_of (es_channels s) (ech_slug (es_objs s ! i)) \<in> {None, Some i}
        \<and> (map_of (es_channels s) (ech_slug (es_objs s ! i)) \<noteq> None \<longrightarrow> es_sessionID s \<noteq> [])"
      using assms(3,4) True False by (cases "map_of (es_channels s) (ech_slug (es_objs s ! i))") auto
    then show ?thesis using True False assms(2)
      by (intro turn.told [of _ _ i]) (auto simp: finish_channel_def Let_def)
  next
    case down: False
    have "i \<notin> snd ` set (es_channels s)"
    proof
      assume "i \<in> snd ` set (es_channels s)"
      then obtain k where "(k, i) \<in> set (es_channels s)" by force
      then have "map_of (es_channels s) (ech_slug (es_objs s ! i)) = Some i" using assms(1) by (auto simp: es_inv_def core_def)
      then show False using assms(4) down False by simp
    qed
    then show ?thesis using down by (intro turn.gone [of _ _ i]) (simp_all add: finish_channel_def Let_def)
  qed
qed

lemma turn_revoke:
  assumes "core ids s"
  shows "turn s (snd (onRevoke an subID subType owner s))"
proof -
  let ?P = "\<lambda>i. let ch = es_objs s ! i
    in subID \<noteq> [] \<and> map_of (ech_subIDs ch) subType = Some subID \<or> ech_bid ch \<noteq> [] \<and> ech_bid ch = owner"
  show ?thesis
  proof (cases "find ?P (in_order (an_order an) (map snd (es_channels s)))")
    case None
    then show ?thesis by (intro turn_stillI [of _ _ "[]"]) (simp_all add: onRevoke_def)
  next
    case (Some i)
    have "i \<in> set (map snd (es_channels s))" using find_Some_mem [OF Some] by (simp only: in_order_set)
    then have i: "i < length (es_objs s)" using known_channels [OF assms] by (auto simp: known_objs_def)
    show ?thesis
    proof (cases "subType = subChatMessage \<and> ech_up (es_objs s ! i)")
      case True
      then show ?thesis using Some i by (intro turn.told [of _ _ i]) (simp_all add: onRevoke_def Let_def)
    next
      case False
      then have "map ech_up ((es_objs s)[i := (es_objs s ! i)\<lparr>ech_subIDs := x, ech_up := ech_up (es_objs s ! i) \<and> subType \<noteq> subChatMessage,
          ech_automod := y\<rparr>]) = map ech_up (es_objs s)" for x y
        using i by (auto simp: map_update list_update_same_conv)
      then show ?thesis using Some False by (intro turn_stillI [of _ _ "[]"]) (auto simp: onRevoke_def Let_def)
    qed
  qed
qed

lemma turn_run_task:
  assumes "es_inv ids s" "k < length (es_tasks s)" "\<not> disturbs s (Run k an)" "task_session (es_tasks s ! k) \<noteq> Some []"
  shows "turn s (snd (run_task ids an (es_tasks s ! k) s)) \<and> task_session (fst (run_task ids an (es_tasks s ! k) s)) \<noteq> Some []"
proof -
  have c: "core ids s" and t: "task_ok ids s (es_tasks s ! k)" using assms(1,2) by (auto simp: es_inv_def)
  have same: "turn s s" by (rule turn_stillI [of _ _ "[]"]) simp_all
  show ?thesis
  proof (cases "es_tasks s ! k")
    case (Welcomed sess recreate)
    then have "sess \<noteq> []" using assms(2,3) by (simp add: disturbs_def)
    then show ?thesis using Welcomed
      by (auto simp: run_task_def onWelcome_def Let_def task_session_def intro!: turn_stillI [of _ _ "[]"])
  next
    case (Revoked a b c)
    then show ?thesis using turn_revoke [OF c] by (auto simp: run_task_def onRevoke_def Let_def task_session_def split: option.splits)
  next
    case (Subscribing sess q)
    then show ?thesis using turn_begin same assms(4)
      by (cases q) (auto simp: run_task_def task_session_def begin_channel_def split: sum.splits)
  next
    case (Requesting sess q i tok subs up am)
    then have i: "i < length (es_objs s)" using t by (simp add: task_ok_def)
    show ?thesis
    proof (cases subs)
      case Nil
      have "turn s (finish_channel i up am s)"
        using assms Requesting Nil i by (intro turn_finish [of ids s i sess up am]) (auto simp: disturbs_def task_session_def split: if_splits)
      then show ?thesis using Requesting Nil assms(4) by (simp add: run_task_def task_session_def)
    next
      case (Cons sub subs')
      then show ?thesis using Requesting assms(4) turn_reserve
        by (auto simp: run_task_def task_session_def reserve_def split: option.splits)
    qed
  next
    case (Creating sess q i tok sub subs up am)
    then show ?thesis using assms(4) turn_created
      by (auto simp: run_task_def task_session_def created_def Let_def split: sum.splits)
  next
    case (Deleting ds)
    then show ?thesis using same
      by (auto simp: run_task_def task_session_def fold_effect intro!: turn_stillI [of _ _ "map Deleted ds"] split: sum.splits)
  next
    case Returned
    then show ?thesis using same by (simp add: run_task_def task_session_def)
  qed
qed

definition read_ok :: "(string \<Rightarrow> string list option) \<Rightarrow> supervisor \<times> reads \<Rightarrow> bool" where
  "read_ok ids st \<longleftrightarrow> (case st of (s, joined, irc) \<Rightarrow>
     es_inv ids s \<and> joined = fst ` set (es_channels s) \<and> (\<forall>k \<in> joined. to_lower k = k)
     \<and> (\<forall>t \<in> set (es_tasks s). task_session t \<noteq> Some []) \<and> all_read s irc)"

lemma read_okI:
  "es_inv ids s \<Longrightarrow> joined = fst ` set (es_channels s) \<Longrightarrow> \<forall>k \<in> joined. to_lower k = k \<Longrightarrow>
    \<forall>t \<in> set (es_tasks s). task_session t \<noteq> Some [] \<Longrightarrow> all_read s irc \<Longrightarrow> read_ok ids (s, joined, irc)"
  by (simp add: read_ok_def)

lemma all_read_same: "es_channels s' = es_channels s \<Longrightarrow> es_objs s' = es_objs s \<Longrightarrow> es_sessionID s' = es_sessionID s \<Longrightarrow>
    all_read s' irc = all_read s irc"
  by (simp add: all_read_def)

lemma read_join:
  assumes "read_ok ids (s, joined, irc)"
  shows "read_ok ids (view_step dec ids (Join slug) (s, joined, irc))"
proof -
  have inv: "es_inv ids (es_step dec ids (Join slug) s)" using assms by (simp add: read_ok_def inv_step)
  have st: "es_step dec ids (Join slug) s = es_join slug s" by (simp add: es_step_def)
  have eff: "es_effects (es_join slug s) = es_effects s" by (simp add: es_join_def Let_def)
  have reg: "i < length (es_objs s)" if "(k, i) \<in> set (es_channels s)" for k i
    using assms that by (auto simp: read_ok_def es_inv_def core_def)
  have "all_read s irc" using assms by (simp add: read_ok_def)
  then have "all_read (es_join slug s) (insert (to_lower slug) irc)"
    using reg by (fastforce simp: all_read_def es_join_def Let_def nth_append)
  moreover have "insert (to_lower slug) joined = fst ` set (es_channels (es_join slug s))"
  proof (cases "map_of (es_channels s) (to_lower slug)")
    case None
    then show ?thesis using assms by (simp add: read_ok_def es_join_def Let_def)
  next
    case (Some i)
    then have "to_lower slug \<in> fst ` set (es_channels s)" by (metis map_of_eq_None_iff option.distinct(1))
    then show ?thesis using assms Some by (auto simp: read_ok_def es_join_def Let_def)
  qed
  moreover have "\<forall>t \<in> set (es_tasks (es_join slug s)). task_session t \<noteq> Some []"
    using assms by (auto simp: read_ok_def es_join_def Let_def task_session_def)
  moreover have "\<forall>k \<in> insert (to_lower slug) joined. to_lower k = k" using assms by (simp add: read_ok_def)
  ultimately show ?thesis using inv unfolding view_step_def st read_ok_def by (simp add: st eff)
qed

lemma read_leave:
  assumes "read_ok ids (s, joined, irc)"
  shows "read_ok ids (view_step dec ids (Leave slug) (s, joined, irc))"
proof -
  have inv: "es_inv ids (es_step dec ids (Leave slug) s)" using assms by (simp add: read_ok_def inv_step)
  have st: "es_step dec ids (Leave slug) s = es_leave slug s" by (simp add: es_step_def)
  have same: "es_effects (es_leave slug s) = es_effects s" "es_objs (es_leave slug s) = es_objs s" "es_sessionID (es_leave slug s) = es_sessionID s"
    by (simp_all add: es_leave_def Let_def split: option.splits)
  have ch: "set (es_channels (es_leave slug s)) = {(k, i) \<in> set (es_channels s). k \<noteq> to_lower slug}"
  proof (cases "map_of (es_channels s) (to_lower slug)")
    case None
    then have "es_leave slug s = s" by (simp only: es_leave_def Let_def option.case)
    then show ?thesis using None by (auto simp: map_of_eq_None_iff image_iff)
  next
    case (Some i)
    then show ?thesis by (auto simp: es_leave_def Let_def AList.delete_eq)
  qed
  have "all_read (es_leave slug s) (irc - {to_lower slug})"
    using assms by (auto simp: all_read_def read_ok_def ch same)
  moreover have "joined - {to_lower slug} = fst ` set (es_channels (es_leave slug s))"
    using assms by (auto simp: read_ok_def ch image_iff)
  moreover have "\<forall>t \<in> set (es_tasks (es_leave slug s)). task_session t \<noteq> Some []"
    using assms by (auto simp: read_ok_def es_leave_def Let_def task_session_def split: option.splits)
  moreover have "\<forall>k \<in> joined - {to_lower slug}. to_lower k = k" using assms by (simp add: read_ok_def)
  moreover have "view_step dec ids (Leave slug) (s, joined, irc) = (es_leave slug s, joined - {to_lower slug}, irc - {to_lower slug})"
    by (simp add: view_step_def st same)
  moreover have "es_inv ids (es_leave slug s)" using inv st by simp
  ultimately show ?thesis by (simp only: read_okI)
qed

lemma read_over:
  assumes "read_ok ids (s, joined, irc)"
  shows "read_ok ids (start_over d s, fold migrate (map (\<lambda>k. State k False) (flipped s)) (joined, irc))"
proof -
  have sub: "set (flipped s) \<subseteq> joined" using assms by (auto simp: flipped_def read_ok_def image_iff)
  have "all_read (start_over d s) (irc \<union> set (flipped s))"
  proof (rule all_readI)
    fix k i assume "(k, i) \<in> set (es_channels (start_over d s))"
    then have c: "(k, i) \<in> set (es_channels s)" by simp
    have "all_read s irc" using assms by (simp add: read_ok_def)
    then show "k \<in> irc \<union> set (flipped s) \<or> ech_up (es_objs (start_over d s) ! i) \<and> es_sessionID (start_over d s) \<noteq> []"
      using all_readD [OF _ c] c by (force simp: flipped_def)
  qed
  moreover have "es_inv ids (start_over d s)" using assms by (simp add: read_ok_def inv_over)
  ultimately show ?thesis using assms unfolding migrate_downs [OF sub] by (simp add: read_ok_def)
qed

lemma read_step:
  assumes "read_ok ids st" "\<not> disturbs (fst st) ev"
  shows "read_ok ids (view_step dec ids ev st)"
proof -
  obtain s joined irc where st: "st = (s, joined, irc)" by (cases st) auto
  show ?thesis
  proof (cases "\<exists>k an. ev = Run k an")
    case True
    then obtain k an where ev: "ev = Run k an" by blast
    have inv: "es_inv ids (es_step dec ids ev s)" using assms(1) by (simp add: st read_ok_def inv_step)
    show ?thesis
    proof (cases "k < length (es_tasks s)")
      case False
      then show ?thesis using assms(1) by (simp add: st ev view_step_def es_step_def)
    next
      case True
      obtain t s' where r: "run_task ids an (es_tasks s ! k) s = (t, s')" by fastforce
      have old: "es_inv ids s" "all_read s irc" "joined = fst ` set (es_channels s)" "\<forall>t \<in> set (es_tasks s). task_session t \<noteq> Some []"
        "\<forall>k \<in> joined. to_lower k = k"
        using assms(1) by (simp_all add: st read_ok_def)
      then have tr: "turn s s'" "task_session t \<noteq> Some []"
        using turn_run_task [of ids s k an] True assms(2) r by (simp_all add: st ev)
      have ts: "es_tasks s' = es_tasks s" using sound_run_task [of ids s "es_tasks s ! k" an] old(1) True r by (simp add: es_inv_def sound_def)
      obtain irc' where m: "es_channels s' = es_channels s"
        "fold migrate (drop (length (es_effects s)) (es_effects s')) (joined, irc) = (joined, irc')" "all_read s' irc'"
        using turn_read [OF tr(1) old(1-3)] by blast
      let ?s = "s'\<lparr>es_tasks := (es_tasks s)[k := t]\<rparr>"
      have step: "es_step dec ids ev s = ?s" using r True ts by (simp add: es_step_def ev)
      have "all_read ?s irc'" using m(3) all_read_same [of ?s s' irc'] by simp
      moreover have "\<forall>u \<in> set ((es_tasks s)[k := t]). task_session u \<noteq> Some []"
        using old(4) tr(2) set_update_subset_insert [of "es_tasks s" k t] by auto
      ultimately show ?thesis using inv m(1,2) old(3,5) by (simp add: st ev view_step_def step [unfolded ev] read_ok_def)
    qed
  next
    case False
    then have nr: "\<And>k an. ev \<noteq> Run k an" by blast
    then show ?thesis
    proof (cases rule: outer_step_cases [of ev dec ids s])
      case (join slug)
      then show ?thesis using assms(1) read_join by (simp add: st)
    next
      case (leave slug)
      then show ?thesis using assms(1) read_leave by (simp add: st)
    next
      case (quiet s')
      have "(case ev of Join slug \<Rightarrow> x slug | Leave slug \<Rightarrow> y slug | _ \<Rightarrow> z) = z" for x y and z :: reads
        using quiet(3,4) by (cases ev) auto
      then show ?thesis using assms(1) quiet(1,2) inv_keeps [of ids s s'] all_read_same [of s' s irc]
        by (simp add: st view_step_def read_ok_def keeps_def)
    next
      case (over d)
      have "(case ev of Join slug \<Rightarrow> x slug | Leave slug \<Rightarrow> y slug | _ \<Rightarrow> z) = z" for x y and z :: reads
        using over(2,3) by (cases ev) auto
      then show ?thesis using assms(1) over(1) read_over [of ids s joined irc d] by (simp add: st view_step_def)
    next
      case (task t s')
      have "(case ev of Join slug \<Rightarrow> x slug | Leave slug \<Rightarrow> y slug | _ \<Rightarrow> z) = z" for x y and z :: reads
        using task(4,5) by (cases ev) auto
      moreover have "es_inv ids s" using assms(1) by (simp add: st read_ok_def)
      then have "es_inv ids (spawn t s')" using inv_spawn [OF inv_keeps [OF _ task(2)] task(3)] by blast
      moreover have "task_session t \<noteq> Some []" using task(3) by (cases t) (simp_all add: starts_def task_session_def)
      ultimately show ?thesis using assms(1) task(1,2) all_read_same [of "spawn t s'" s irc]
        by (simp add: st view_step_def read_ok_def keeps_def)
    qed
  qed
qed

definition view_run :: "es_decoders \<Rightarrow> (string \<Rightarrow> string list option) \<Rightarrow> es_event list \<Rightarrow> supervisor \<Rightarrow> supervisor \<times> reads" where
  "view_run dec ids evs s = fold (view_step dec ids) evs (s, {}, {})"

lemma view_step_fst [simp]: "fst (view_step dec ids ev st) = es_step dec ids ev (fst st)"
  by (simp add: view_step_def Let_def split: prod.splits)


subsection \<open>Concrete runs\<close>

text \<open>Decoders for scripted frames: a frame is its message type, every welcome has one session id, every revocation is of one AutoMod subscription.\<close>

definition scripted :: es_decoders where
  "scripted = \<lparr>dec_envelope = (\<lambda>b. Some \<lparr>ev_MessageType = b, ev_SubscriptionType = [], ev_MessageTimestamp = [], ev_Payload = []\<rparr>),
     dec_session = (\<lambda>_. Some \<lparr>ess_ID = ''s'', ess_ReconnectURL = []\<rparr>),
     dec_revocation = (\<lambda>_. Some \<lparr>rv_ID = [], rv_Type = subAutomodHold, rv_BroadcasterUserID = ''7''\<rparr>),
     dec_event = (\<lambda>_. None), dec_chat = (\<lambda>_. None), dec_notification = (\<lambda>_. None), dec_deleted = (\<lambda>_. None),
     dec_clear = (\<lambda>_. None), dec_settings = (\<lambda>_. None), dec_hold = (\<lambda>_. None), dec_resolved = (\<lambda>_. None), dec_time = (\<lambda>_. None)\<rparr>"

definition one_id :: "string \<Rightarrow> string list option" where
  "one_id raw = Some [raw]"

definition answer :: "int \<Rightarrow> string \<Rightarrow> es_answer" where
  "answer status raw = \<lparr>an_token = Inr ''t'', an_resolved = Inr ''7'', an_http = Inr (status, raw), an_order = []\<rparr>"

definition quick :: backoff where
  "quick = \<lparr>bo_base = 0, bo_max = 0\<rparr>"

abbreviation es_start :: supervisor where
  "es_start \<equiv> newESSupervisor ''me'' quick 0"

text \<open>Joining one channel, the welcome, and its three subscriptions; then a goroutine's turns for a second round.\<close>

definition up_run :: "es_event list" where
  "up_run = [Dial None, Join ''a'', Read (Some ''session_welcome''), Run 0 (answer 202 ''w''), Run 0 (answer 202 ''x''),
     Run 0 (answer 202 ''x''), Run 0 (answer 202 ''chat''), Run 0 (answer 202 ''x''), Run 0 (answer 202 ''hold''),
     Run 0 (answer 202 ''x''), Run 0 (answer 202 ''upd''), Run 0 (answer 202 ''x''), Run 0 (answer 202 ''x'')]"

definition round :: "nat \<Rightarrow> int \<Rightarrow> int \<Rightarrow> int \<Rightarrow> es_event list" where
  "round k chat hold upd = [Run k (answer 202 ''x''), Run k (answer 202 ''x''), Run k (answer 202 ''x''), Run k (answer chat ''c''),
     Run k (answer 202 ''x''), Run k (answer hold ''h''), Run k (answer 202 ''x''), Run k (answer upd ''u''), Run k (answer 202 ''x'')]"


text \<open>
  Each race leaves a joined channel that nothing reads. First: an AutoMod subscription is revoked and the chat subscription,
  requested again although it is alive, fails once.
\<close>

lemma failed_refresh_silent:
  "case view_run scripted one_id (up_run @ [Read (Some ''revocation'')] @ round 1 500 202 409) es_start of (s, joined, irc) \<Rightarrow>
     joined = {''a''} \<and> irc = {} \<and> \<not> channelUp ''a'' s"
  by code_simp

text \<open>The channel is left and joined again while the goroutine of the first membership is about to finish.\<close>

lemma stale_goroutine_silent:
  "case view_run scripted one_id (take 11 up_run @ [Leave ''a'', Join ''a'', Run 0 (answer 202 ''x'')]) es_start of (s, joined, irc) \<Rightarrow>
     joined = {''a''} \<and> irc = {} \<and> \<not> channelUp ''a'' s"
  by code_simp

text \<open>The connection is lost while the goroutine is about to finish: the channel is taken off IRC for a session that is gone.\<close>

lemma dead_session_silent:
  "case view_run scripted one_id (take 11 up_run @ [Read None, Run 0 (answer 202 ''x'')]) es_start of (s, joined, irc) \<Rightarrow>
     joined = {''a''} \<and> irc = {} \<and> es_sessionID s = []"
  by code_simp

text \<open>
  After one AutoMod revocation the live chat subscription is requested again, answered 409 and recorded without its id:
  leaving the channel deletes nothing but the new AutoMod subscription, and the budget counts five subscriptions where Twitch has three.
\<close>

lemma revocation_loses_ids:
  "case es_run scripted one_id (up_run @ [Read (Some ''revocation'')] @ round 1 409 202 409) es_start of s \<Rightarrow>
     budget_total (es_budget s) = 5 \<and>
     [d. Deleted d \<leftarrow> es_effects (es_run scripted one_id [Leave ''a'', Run 2 (answer 204 [])] s)] = [''h'']"
  by code_simp

end
