(* ===== verification/Webhook.thy ===== *)
theory Webhook
  imports Platform Go_Encoding
begin

text \<open>
  Outbound webhooks (\<^verbatim>\<open>internal/webhook/webhook.go\<close>): which delivery an event becomes, the registry of
  endpoint workers with their bounded queues, the delivery loop with its retries, and the
  auto-pause. JSON, the MAC, the network and the random source are fields of \<open>wh_env\<close>. \<open>Register\<close>,
  \<open>Deregister\<close> and \<open>Close\<close> wait for the workers they stop; what such a worker still delivers is a \<open>work\<close> step
  before the call. Closing a closed channel panics: the result is None.
\<close>

subsection \<open>Data\<close>

abbreviation maxQueueDepth :: nat where "maxQueueDepth \<equiv> 200"
abbreviation maxRetries :: nat where "maxRetries \<equiv> 3"

definition initialBackoff :: duration where
  "initialBackoff = 1 * second"

record Endpoint =
  ep_ID :: string
  ep_URL :: string
  ep_Events :: "string list"
  ep_Active :: bool

record Delivery =
  dl_ID :: string
  dl_Type :: string
  dl_CreatedAt :: time
  dl_Data :: string

record AttemptRecord =
  at_AtMs :: int
  at_StatusCode :: int
  at_Error :: string
  at_LatencyMs :: int

type_synonym request = "string \<times> (string \<times> string) list \<times> string"

text \<open>
  What the code gets from outside: the JSON of a delivery, \<^verbatim>\<open>rand.Int63n\<close> and the clocks at each
  attempt, the MAC, whether a URL can be requested, and the answer of the network.
\<close>

record wh_env =
  en_marshal :: "Delivery \<Rightarrow> string option"
  en_rand :: "nat \<Rightarrow> int \<Rightarrow> int"
  en_start :: "nat \<Rightarrow> time"
  en_now :: "nat \<Rightarrow> time"
  en_latency :: "nat \<Rightarrow> duration"
  en_mac :: "string \<Rightarrow> string \<Rightarrow> string"
  en_bad_url :: "string \<Rightarrow> string option"
  en_do :: "nat \<Rightarrow> request \<Rightarrow> int + string"

record worker =
  wk_ep :: Endpoint
  wk_secret :: string
  wk_queue :: "Delivery list"
  wk_log :: "AttemptRecord list"
  wk_paused :: bool
  wk_fails :: int
  wk_stopped :: bool
  wk_done :: "(Delivery \<times> bool) list"

type_synonym manager = "(string \<times> worker) list"

text \<open>\<open>wk_fails\<close> is the worker's local \<^verbatim>\<open>consecFail\<close>, \<open>wk_stopped\<close> says that \<^verbatim>\<open>quit\<close> is closed and
  \<open>wk_done\<close> records, for the statements, what has been delivered and whether it succeeded.\<close>

subsection \<open>From events to deliveries\<close>

definition pipelineEventType :: "Event \<Rightarrow> string" where
  "pipelineEventType ev = (case ev of
     MessageEvent m \<Rightarrow>
       (if um_Type m = TypeChat then
          (case um_Annotations m of
             Some a \<Rightarrow> if an_Highlight a \<noteq> [] then ''message.highlighted'' else ''message.chat''
           | None \<Rightarrow> ''message.chat'')
        else if um_Type m = TypeSub then ''event.subscription''
        else if um_Type m = TypeResub then ''event.subscription''
        else if um_Type m = TypeGiftSub then ''event.subscription''
        else if um_Type m = TypeRaid then ''event.raid''
        else if um_Type m = TypeFollow then ''event.follow''
        else if um_Type m = TypeAnnouncement then ''event.announcement''
        else ''event.other'')
   | HealthEvent _ st \<Rightarrow> if hs_State st = HealthDegraded then ''adapter.degraded'' else []
   | ProfileChangedEvent _ _ \<Rightarrow> ''profile.changed''
   | ChannelClearEvent _ _ \<Rightarrow> []
   | _ \<Rightarrow> [])"

definition EventFromPipeline :: "(Event \<Rightarrow> string option) \<Rightarrow> time \<Rightarrow> Event \<Rightarrow> string \<Rightarrow> Delivery option" where
  "EventFromPipeline marshal now ev i =
    (let t = pipelineEventType ev
     in if t = [] then None
        else (case marshal ev of None \<Rightarrow> None
          | Some data \<Rightarrow> Some \<lparr>dl_ID = i, dl_Type = t, dl_CreatedAt = now, dl_Data = data\<rparr>))"

definition wh_matches :: "worker \<Rightarrow> string \<Rightarrow> bool" where
  "wh_matches w t = list_ex (\<lambda>e. e = t \<or> has_prefix t e) (ep_Events (wk_ep w))"

subsection \<open>The delivery log and the queue\<close>

definition log_record :: "AttemptRecord \<Rightarrow> AttemptRecord list \<Rightarrow> AttemptRecord list" where
  "log_record r l = (let l = l @ [r] in if length l > 100 then drop (length l - 100) l else l)"

definition push_queue :: "Delivery \<Rightarrow> Delivery list \<Rightarrow> Delivery list" where
  "push_queue d q = (if length q < maxQueueDepth then q else tl q) @ [d]"

definition offer :: "Delivery \<Rightarrow> worker \<Rightarrow> worker" where
  "offer d w = (if wh_matches w (dl_Type d) then w\<lparr>wk_queue := push_queue d (wk_queue w)\<rparr> else w)"

definition wh_Dispatch :: "Delivery \<Rightarrow> manager \<Rightarrow> manager" where
  "wh_Dispatch d m = map (\<lambda>(i, w). (i, offer d w)) m"

definition wh_Consume :: "(Event \<Rightarrow> string option) \<Rightarrow> time \<Rightarrow> string \<Rightarrow> Event \<Rightarrow> manager \<Rightarrow> manager" where
  "wh_Consume marshal now i ev m = (case EventFromPipeline marshal now ev i of
     None \<Rightarrow> m | Some d \<Rightarrow> wh_Dispatch d m)"

subsection \<open>Delivering\<close>

text \<open>The request of \<^verbatim>\<open>post\<close>.\<close>

definition wh_request :: "wh_env \<Rightarrow> nat \<Rightarrow> string \<Rightarrow> string \<Rightarrow> string \<Rightarrow> string \<Rightarrow> request" where
  "wh_request en k url secret i body =
    (let now = format_int (unix (en_now en k))
     in (url, [(''Content-Type'', ''application/json''), (''X-Virta-Delivery-Id'', i), (''X-Virta-Timestamp'', now)]
           @ (if secret \<noteq> [] then [(''X-Virta-Signature'', ''sha256='' @ hex (en_mac en secret (now @ body)))] else []),
         body))"

definition post :: "wh_env \<Rightarrow> nat \<Rightarrow> string \<Rightarrow> string \<Rightarrow> string \<Rightarrow> string \<Rightarrow> int + string" where
  "post en k url secret i body = (case en_bad_url en url of
     Some err \<Rightarrow> Inr err
   | None \<Rightarrow> en_do en k (wh_request en k url secret i body))"

record outcome =
  oc_ok :: bool
  oc_log :: "AttemptRecord list"
  oc_slept :: "duration list"

definition attempt_record :: "wh_env \<Rightarrow> nat \<Rightarrow> int + string \<Rightarrow> AttemptRecord" where
  "attempt_record en k res = \<lparr>at_AtMs = unix_milli (en_start en k),
     at_StatusCode = (case res of Inl code \<Rightarrow> code | Inr _ \<Rightarrow> 0),
     at_Error = (case res of Inl _ \<Rightarrow> [] | Inr err \<Rightarrow> err),
     at_LatencyMs = trunc_div (en_latency en k) millisecond\<rparr>"

definition delivered :: "int + string \<Rightarrow> bool" where
  "delivered res = (case res of Inl code \<Rightarrow> code \<ge> 200 \<and> code < 300 | Inr _ \<Rightarrow> False)"

function attempts :: "wh_env \<Rightarrow> (nat \<Rightarrow> int + string) \<Rightarrow> nat \<Rightarrow> duration \<Rightarrow> outcome" where
  "attempts en answer attempt backoff =
    (if attempt < maxRetries then
       let slept = (if attempt > 0 then [backoff + en_rand en attempt (trunc_div backoff 4)] else []);
           backoff = (if attempt > 0 then backoff * 2 else backoff);
           res = answer attempt;
           rec = attempt_record en attempt res
       in if delivered res then \<lparr>oc_ok = True, oc_log = [rec], oc_slept = slept\<rparr>
          else let o' = attempts en answer (attempt + 1) backoff
            in \<lparr>oc_ok = oc_ok o', oc_log = rec # oc_log o', oc_slept = slept @ oc_slept o'\<rparr>
     else \<lparr>oc_ok = False, oc_log = [], oc_slept = []\<rparr>)"
  by pat_completeness auto
termination by (relation "measure (\<lambda>(_, _, attempt, _). maxRetries - attempt)") auto

declare attempts.simps [simp del]

definition deliver_one :: "wh_env \<Rightarrow> worker \<Rightarrow> Delivery \<Rightarrow> outcome" where
  "deliver_one en w d = (case en_marshal en d of
     None \<Rightarrow> \<lparr>oc_ok = False, oc_log = [], oc_slept = []\<rparr>
   | Some body \<Rightarrow> attempts en (\<lambda>k. post en k (ep_URL (wk_ep w)) (wk_secret w) (dl_ID d) body) 0 initialBackoff)"

text \<open>One round of \<^verbatim>\<open>runWorker\<close>: the next delivery, if the worker has one and was not stopped.\<close>

definition work :: "wh_env \<Rightarrow> worker \<Rightarrow> worker" where
  "work en w = (case wk_queue w of
     [] \<Rightarrow> w
   | d # q \<Rightarrow>
       (if wk_stopped w then w
        else let w = w\<lparr>wk_queue := q\<rparr>
          in if wk_paused w then w
             else let r = deliver_one en w d;
                    w = w\<lparr>wk_log := fold log_record (oc_log r) (wk_log w), wk_done := wk_done w @ [(d, oc_ok r)]\<rparr>
               in if oc_ok r then w\<lparr>wk_fails := 0\<rparr>
                  else let w = w\<lparr>wk_fails := wk_fails w + 1\<rparr>
                    in if wk_fails w \<ge> 5 then w\<lparr>wk_paused := True\<rparr> else w))"

subsection \<open>The registry\<close>

definition newWorker :: "Endpoint \<Rightarrow> string \<Rightarrow> worker" where
  "newWorker ep secret = \<lparr>wk_ep = ep, wk_secret = secret, wk_queue = [], wk_log = [], wk_paused = False,
     wk_fails = 0, wk_stopped = False, wk_done = []\<rparr>"

text \<open>\<^verbatim>\<open>close(w.quit)\<close> and the wait for the goroutine.\<close>

definition stop :: "worker \<Rightarrow> worker option" where
  "stop w = (if wk_stopped w then None else Some (w\<lparr>wk_stopped := True\<rparr>))"

definition wh_Register :: "Endpoint \<Rightarrow> string \<Rightarrow> manager \<Rightarrow> manager option" where
  "wh_Register ep secret m =
    (let stopped = (case map_of m (ep_ID ep) of
         None \<Rightarrow> Some m
       | Some w \<Rightarrow> map_option (\<lambda>w. AList.update (ep_ID ep) w m) (stop w))
     in map_option (\<lambda>m. if \<not> ep_Active ep then m else AList.update (ep_ID ep) (newWorker ep secret) m) stopped)"

definition wh_Deregister :: "string \<Rightarrow> manager \<Rightarrow> manager option" where
  "wh_Deregister i m = (case map_of m i of
     None \<Rightarrow> Some m
   | Some w \<Rightarrow> (case stop w of None \<Rightarrow> None | Some _ \<Rightarrow> Some (AList.delete i m)))"

definition wh_DeliveryLog :: "string \<Rightarrow> manager \<Rightarrow> AttemptRecord list" where
  "wh_DeliveryLog i m = (case map_of m i of None \<Rightarrow> [] | Some w \<Rightarrow> wk_log w)"

definition wh_IsPaused :: "string \<Rightarrow> manager \<Rightarrow> bool" where
  "wh_IsPaused i m = (case map_of m i of None \<Rightarrow> False | Some w \<Rightarrow> wk_paused w)"

definition wh_resume :: "worker \<Rightarrow> worker" where
  "wh_resume w = w\<lparr>wk_paused := False\<rparr>"

definition wh_Resume :: "string \<Rightarrow> manager \<Rightarrow> manager" where
  "wh_Resume i m = (case map_of m i of None \<Rightarrow> m | Some w \<Rightarrow> AList.update i (wh_resume w) m)"

definition wh_Close :: "manager \<Rightarrow> manager option" where
  "wh_Close m = (if list_ex (\<lambda>(_, w). stop w = None) m then None else Some [])"

definition EventCatalog :: "string list" where
  "EventCatalog = [''adapter.degraded'', ''event.announcement'', ''event.follow'', ''event.other'', ''event.raid'',
     ''event.subscription'', ''message.chat'', ''message.highlighted'', ''profile.changed'']"

subsection \<open>Retries\<close>

lemma attempts_done [simp]: "attempts en ans 3 b = \<lparr>oc_ok = False, oc_log = [], oc_slept = []\<rparr>"
  by (simp add: attempts.simps)

definition rand_ok :: "wh_env \<Rightarrow> bool" where
  "rand_ok en \<longleftrightarrow> (\<forall>k n. 0 < n \<longrightarrow> 0 \<le> en_rand en k n \<and> en_rand en k n < n)"

lemma attempts_from:
  fixes en :: wh_env
  defines "j1 \<equiv> second + en_rand en 1 (second div 4)" and "j2 \<equiv> 2 * second + en_rand en 2 (2 * second div 4)"
  shows "attempts en ans 0 initialBackoff =
    (let rs = (\<lambda>n. map (\<lambda>k. attempt_record en k (ans k)) [0..<n])
     in if delivered (ans 0) then \<lparr>oc_ok = True, oc_log = rs 1, oc_slept = []\<rparr>
        else if delivered (ans 1) then \<lparr>oc_ok = True, oc_log = rs 2, oc_slept = [j1]\<rparr>
        else \<lparr>oc_ok = delivered (ans 2), oc_log = rs 3, oc_slept = [j1, j2]\<rparr>)"
proof -
  have 2: "attempts en ans 2 (2 * second) = \<lparr>oc_ok = delivered (ans 2),
      oc_log = [attempt_record en 2 (ans 2)], oc_slept = [j2]\<rparr>"
    by (simp add: attempts.simps [of _ _ 2] j2_def trunc_div_nonneg second_def Let_def)
  have 1: "attempts en ans (Suc 0) second =
      (if delivered (ans 1) then \<lparr>oc_ok = True, oc_log = [attempt_record en 1 (ans 1)], oc_slept = [j1]\<rparr>
       else \<lparr>oc_ok = delivered (ans 2), oc_log = [attempt_record en 1 (ans 1), attempt_record en 2 (ans 2)],
         oc_slept = [j1, j2]\<rparr>)"
    using 2 by (simp add: attempts.simps [of _ _ "Suc 0"] j1_def trunc_div_nonneg second_def Let_def numeral_2_eq_2)
  show ?thesis using 1
    by (simp add: attempts.simps [of _ _ 0] initialBackoff_def Let_def upt_rec numeral_3_eq_3 numeral_2_eq_2)
qed



subsection \<open>One worker\<close>

interpretation wh_queue: drop_oldest push_queue "\<lambda>q. q" maxQueueDepth "\<lambda>q. length q \<le> maxQueueDepth"
  by unfold_locales (auto simp: push_queue_def last_n_id last_n_Suc_full)

interpretation wh_log: drop_oldest log_record "\<lambda>l. l" 100 "\<lambda>l. length l \<le> 100"
  by unfold_locales (auto simp: log_record_def Let_def last_n_def)

datatype worker_op = Offer Delivery | Work wh_env | Unpause

fun worker_do :: "worker_op \<Rightarrow> worker \<Rightarrow> worker" where
  "worker_do (Offer d) w = offer d w"
| "worker_do (Work en) w = work en w"
| "worker_do Unpause w = wh_resume w"

fun offered :: "worker_op \<Rightarrow> Delivery list" where
  "offered (Offer d) = [d]"
| "offered _ = []"

text \<open>The deliveries the endpoint subscribed to, in the order they were dispatched.\<close>

definition wanted :: "Endpoint \<Rightarrow> worker_op list \<Rightarrow> Delivery list" where
  "wanted ep ops = filter (\<lambda>d. list_ex (\<lambda>e. has_prefix (dl_Type d) e) (ep_Events ep)) (concat (map offered ops))"

text \<open>The failures since the last success.\<close>

definition failing :: "worker \<Rightarrow> nat" where
  "failing w = length (takeWhile (\<lambda>x. \<not> snd x) (rev (wk_done w)))"

definition worker_ok :: "worker \<Rightarrow> bool" where
  "worker_ok w \<longleftrightarrow> length (wk_queue w) \<le> maxQueueDepth \<and> length (wk_log w) \<le> 100 \<and>
     wk_fails w = int (failing w) \<and> (wk_paused w \<longrightarrow> 5 \<le> wk_fails w)"

lemma worker_ok_new: "worker_ok (newWorker ep secret)"
  by (simp add: worker_ok_def newWorker_def failing_def)

lemma work_cases:
  obtains "wk_queue w = []" "work en w = w"
  | "wk_stopped w" "work en w = w"
  | d q where "wk_queue w = d # q" "wk_paused w" "work en w = w\<lparr>wk_queue := q\<rparr>"
  | d q r where "wk_queue w = d # q" "\<not> wk_paused w" "r = deliver_one en (w\<lparr>wk_queue := q\<rparr>) d"
      "work en w = w\<lparr>wk_queue := q, wk_log := fold log_record (oc_log r) (wk_log w),
         wk_done := wk_done w @ [(d, oc_ok r)], wk_fails := (if oc_ok r then 0 else wk_fails w + 1),
         wk_paused := (\<not> oc_ok r \<and> 5 \<le> wk_fails w + 1)\<rparr>"
proof (cases "wk_queue w")
  case (Cons d q)
  consider "wk_stopped w" | "\<not> wk_stopped w" "wk_paused w" | "\<not> wk_stopped w" "\<not> wk_paused w" by blast
  then show ?thesis
  proof cases
    case 3
    then show ?thesis using Cons by (intro that(4) [of d q, OF _ _ refl]) (cases w, simp_all add: work_def Let_def)
  qed (use Cons in \<open>auto simp: work_def intro: that(2,3)\<close>)
qed (auto simp: work_def intro: that(1))

lemma worker_do_ok: "worker_ok w \<Longrightarrow> worker_ok (worker_do op w)"
proof (cases op)
  case (Work en)
  assume ok: "worker_ok w"
  show ?thesis
  proof (cases rule: work_cases [of w en])
    case (4 d q r)
    then show ?thesis using ok Work wh_log.wf_pushes [of "wk_log w"]
      by (simp add: worker_ok_def failing_def)
  qed (use ok Work in \<open>auto simp: worker_ok_def failing_def\<close>)
qed (use wh_queue.wf_push in \<open>auto simp: worker_ok_def failing_def offer_def wh_resume_def\<close>)

lemma work_frame: "wk_ep (worker_do op w) = wk_ep w"
  by (cases op) (auto simp: offer_def wh_resume_def work_def Let_def split: list.splits)

text \<open>What an endpoint has been sent and what waits for it.\<close>

definition stream :: "worker \<Rightarrow> Delivery list" where
  "stream w = map fst (wk_done w) @ wk_queue w"

lemma stream_do: "subseq (stream (worker_do op w)) (stream w @ wanted (wk_ep w) [op])"
proof (cases op)
  case (Offer d)
  have "subseq (push_queue d q) (q @ [d])" for q
    by (cases q) (auto simp: push_queue_def intro: list_emb_append_mono)
  then show ?thesis using Offer
    by (auto simp: stream_def offer_def wanted_def wh_matches_def has_prefix_def list_ex_iff intro!: list_emb_append_mono)
next
  case (Work en)
  then show ?thesis
    by (cases rule: work_cases [of w en]) (auto simp: stream_def wanted_def intro: list_emb_append_mono)
qed (auto simp: stream_def wh_resume_def wanted_def)

lemma stream_run:
  "worker_ok w \<Longrightarrow> worker_ok (fold worker_do ops w) \<and> subseq (stream (fold worker_do ops w)) (stream w @ wanted (wk_ep w) ops)"
proof (induction ops arbitrary: w)
  case (Cons op ops)
  have "wanted (wk_ep w) (op # ops) = wanted (wk_ep w) [op] @ wanted (wk_ep w) ops" by (simp add: wanted_def)
  moreover have "subseq (stream (worker_do op w) @ wanted (wk_ep w) ops) ((stream w @ wanted (wk_ep w) [op]) @ wanted (wk_ep w) ops)"
    by (intro list_emb_append_mono stream_do) simp
  ultimately show ?case
    using Cons.IH [OF worker_do_ok [OF Cons.prems, of op]] by (auto simp: work_frame elim: subseq_order.trans)
qed (simp add: wanted_def)

text \<open>
  C27. Whatever is dispatched to an endpoint's worker, however its deliveries end and whenever it is
  resumed: what it has delivered and what waits is an ordered selection of the events the endpoint
  subscribed to, at most 200 of them wait and 100 attempts are logged, and it is paused only after
  five deliveries in a row have failed; a paused worker posts nothing and logs nothing, it
  discards what it takes from its queue, until it is resumed.
\<close>

theorem webhook_worker:
  assumes "w = fold worker_do ops (newWorker ep secret)"
  shows "subseq (map fst (wk_done w) @ wk_queue w) (wanted ep ops)
    \<and> length (wk_queue w) \<le> 200 \<and> length (wk_log w) \<le> 100
    \<and> (wk_paused w \<longrightarrow> 5 \<le> length (wk_done w) \<and> (\<forall>x \<in> set (last_n 5 (wk_done w)). \<not> snd x)
        \<and> work en w = w\<lparr>wk_queue := tl (wk_queue w)\<rparr>)"
proof -
  have ok: "worker_ok w" and sub: "subseq (stream w) (wanted ep ops)"
    using stream_run [OF worker_ok_new, of ops ep secret] assms by (simp_all add: stream_def newWorker_def)
  have stop: "\<not> wk_stopped (fold worker_do ops (newWorker ep secret))"
  proof -
    have "wk_stopped (worker_do op v) = wk_stopped v" for op v
      by (cases op) (auto simp: offer_def wh_resume_def work_def Let_def split: list.splits)
    then have "wk_stopped (fold worker_do ops v) = wk_stopped v" for v by (induction ops arbitrary: v) simp_all
    then show ?thesis by (simp add: newWorker_def)
  qed
  have "5 \<le> length (wk_done w) \<and> (\<forall>x \<in> set (last_n 5 (wk_done w)). \<not> snd x)" if "wk_paused w"
  proof -
    let ?t = "takeWhile (\<lambda>x. \<not> snd x) (rev (wk_done w))"
    have 5: "5 \<le> length ?t" using ok that by (simp add: worker_ok_def failing_def)
    then have "last_n 5 (wk_done w) = rev (take 5 ?t)" using length_takeWhile_le [of _ "rev (wk_done w)"]
      by (metis last_n_def length_rev rev_rev_ident rev_take takeWhile_eq_take take_take min_absorb1)
    then show ?thesis using 5 length_takeWhile_le [of "\<lambda>x. \<not> snd x" "rev (wk_done w)"]
      by (auto dest!: in_set_takeD set_takeWhileD)
  qed
  moreover have "work en w = w\<lparr>wk_queue := tl (wk_queue w)\<rparr>" if "wk_paused w"
    using that stop assms by (cases "wk_queue w") (auto simp: work_def)
  ultimately show ?thesis using ok sub by (simp add: worker_ok_def stream_def)
qed

definition example_env :: "int + string \<Rightarrow> wh_env" where
  "example_env res = \<lparr>en_marshal = (\<lambda>d. None), en_rand = (\<lambda>k n. 0), en_start = int, en_now = int,
    en_latency = (\<lambda>_. 0), en_mac = (\<lambda>k m. k), en_bad_url = (\<lambda>_. None), en_do = (\<lambda>_ _. res)\<rparr>"

theorem webhook_worker_witness:
  "\<exists>w d. wk_paused w \<and> length (wk_done w) \<ge> 5 \<and> work (example_env (Inl 200)) w = w\<lparr>wk_queue := tl (wk_queue w)\<rparr>"
proof -
  let ?d = "\<lparr>dl_ID = ''1'', dl_Type = ''event.raid'', dl_CreatedAt = 0, dl_Data = ''{}''\<rparr>"
  let ?ep = "\<lparr>ep_ID = ''e'', ep_URL = ''https://h'', ep_Events = [''event''], ep_Active = True\<rparr>"
  let ?ops = "replicate 6 (Offer ?d) @ replicate 5 (Work (example_env (Inl 500)))"
  let ?w = "fold worker_do ?ops (newWorker ?ep [])"
  have "wk_paused ?w"
    by (simp add: eval_nat_numeral newWorker_def offer_def wh_matches_def has_prefix_def push_queue_def
        work_def deliver_one_def example_env_def Let_def)
  then show ?thesis using webhook_worker [OF refl, where ops = ?ops and en = "example_env (Inl 200)"] by blast
qed

subsection \<open>The registry of workers\<close>

datatype wh_op = Reg Endpoint string | Dereg string | Dispatch_op Delivery | Resume_op string | Work_op string wh_env | Close_op

fun wh_do :: "wh_op \<Rightarrow> manager \<Rightarrow> manager option" where
  "wh_do (Reg ep secret) m = wh_Register ep secret m"
| "wh_do (Dereg i) m = wh_Deregister i m"
| "wh_do (Dispatch_op d) m = Some (wh_Dispatch d m)"
| "wh_do (Resume_op i) m = Some (wh_Resume i m)"
| "wh_do (Work_op i en) m = Some (case map_of m i of None \<Rightarrow> m | Some w \<Rightarrow> AList.update i (work en w) m)"
| "wh_do Close_op m = wh_Close m"

fun wh_run :: "wh_op list \<Rightarrow> manager \<Rightarrow> manager option" where
  "wh_run [] m = Some m"
| "wh_run (op # ops) m = (case wh_do op m of None \<Rightarrow> None | Some m \<Rightarrow> wh_run ops m)"

text \<open>What the registry promises: the set of endpoints that run, and of those stopped but still listed.\<close>

fun reg_do :: "wh_op \<Rightarrow> string set \<times> string set \<Rightarrow> (string set \<times> string set) option" where
  "reg_do (Reg ep secret) (R, S) =
    (if ep_ID ep \<in> S then None
     else if ep_Active ep then Some (insert (ep_ID ep) R, S)
     else Some (R - {ep_ID ep}, S \<union> (R \<inter> {ep_ID ep})))"
| "reg_do (Dereg i) (R, S) = (if i \<in> S then None else Some (R - {i}, S))"
| "reg_do Close_op (R, S) = (if S \<noteq> {} then None else Some ({}, {}))"
| "reg_do _ RS = Some RS"

fun reg_run :: "wh_op list \<Rightarrow> string set \<times> string set \<Rightarrow> (string set \<times> string set) option" where
  "reg_run [] RS = Some RS"
| "reg_run (op # ops) RS = (case reg_do op RS of None \<Rightarrow> None | Some RS \<Rightarrow> reg_run ops RS)"

definition reg_abs :: "manager \<Rightarrow> string set \<times> string set" where
  "reg_abs m = ({i. \<exists>w. map_of m i = Some w \<and> \<not> wk_stopped w}, {i. \<exists>w. map_of m i = Some w \<and> wk_stopped w})"

lemma map_of_map_snd: "map_of (map (\<lambda>(i, w). (i, f w)) m) i = map_option f (map_of m i)"
  by (induction m) auto

lemma worker_stopped_frame [simp]:
  "wk_stopped (offer d w) = wk_stopped w" "wk_stopped (work en w) = wk_stopped w" "wk_stopped (wh_resume w) = wk_stopped w"
  by (auto simp: offer_def work_def wh_resume_def Let_def split: list.splits)

lemma wh_do_distinct: "keys_distinct m \<Longrightarrow> wh_do op m = Some m' \<Longrightarrow> keys_distinct m'"
  by (cases op) (auto simp: wh_Register_def wh_Deregister_def wh_Close_def wh_Dispatch_def wh_Resume_def stop_def
      comp_def case_prod_unfold split: option.splits if_splits)

lemma reg_abs_simps [simp]:
  "reg_abs (AList.update i w m) = (case reg_abs m of (R, S) \<Rightarrow>
     if wk_stopped w then (R - {i}, insert i S) else (insert i R, S - {i}))"
  "reg_abs (AList.delete i m) = (case reg_abs m of (R, S) \<Rightarrow> (R - {i}, S - {i}))"
  "reg_abs (wh_Dispatch d m) = reg_abs m"
  by (auto simp: reg_abs_def wh_Dispatch_def map_of_map_snd)

lemma reg_abs_known:
  "map_of m i = Some w \<Longrightarrow> wk_stopped w \<Longrightarrow> reg_abs m = (R, S) \<Longrightarrow> i \<in> S \<and> i \<notin> R"
  "map_of m i = Some w \<Longrightarrow> \<not> wk_stopped w \<Longrightarrow> reg_abs m = (R, S) \<Longrightarrow> i \<in> R \<and> i \<notin> S"
  "map_of m i = None \<Longrightarrow> reg_abs m = (R, S) \<Longrightarrow> i \<notin> R \<and> i \<notin> S"
  by (auto simp: reg_abs_def)

lemma reg_do_refines:
  assumes "keys_distinct m"
  shows "map_option reg_abs (wh_do op m) = reg_do op (reg_abs m)"
proof -
  obtain R S where RS: "reg_abs m = (R, S)" by (cases "reg_abs m")
  note known = reg_abs_known(1,2) [OF _ _ RS] reg_abs_known(3) [OF _ RS]
  show ?thesis
  proof (cases op)
    case (Reg ep secret)
    then show ?thesis using RS known [of "ep_ID ep"]
      by (auto simp: wh_Register_def stop_def newWorker_def Let_def split: option.splits)
  next
    case (Dereg i)
    then show ?thesis using RS known [of i] by (auto simp: wh_Deregister_def stop_def split: option.splits)
  next
    case Close_op
    have "list_ex (\<lambda>(_, w). wk_stopped w) m \<longleftrightarrow> S \<noteq> {}"
      using RS assms by (auto simp: reg_abs_def list_ex_iff)
    then show ?thesis using Close_op RS by (auto simp: wh_Close_def stop_def reg_abs_def [of "[]"])
  next
    case (Resume_op i)
    then show ?thesis using RS known [of i] by (auto simp: wh_Resume_def split: option.splits)
  next
    case (Work_op i en)
    then show ?thesis using RS known [of i] by (auto split: option.splits)
  qed (use RS in simp)
qed


text \<open>Deactivating a running endpoint through \<^verbatim>\<open>Register\<close> and then closing the manager panics.\<close>

lemma deactivate_then_close:
  "wh_run [Reg (ep\<lparr>ep_Active := True\<rparr>) k, Reg (ep\<lparr>ep_Active := False\<rparr>) k, Close_op] [] = None"
  by (simp add: wh_Register_def stop_def newWorker_def wh_Close_def)

text \<open>A resumed endpoint keeps its failure count: one more failure pauses it again.\<close>

lemma resumed_pauses_again:
  assumes "worker_ok w" "wk_paused w" "wk_queue w = d # q" "\<not> wk_stopped w" "\<not> oc_ok (deliver_one en (wh_resume w\<lparr>wk_queue := q\<rparr>) d)"
  shows "wk_paused (work en (wh_resume w))"
  using assms by (simp add: work_def wh_resume_def worker_ok_def Let_def)

end
