(* ===== verification/Api_Tokens.thy ===== *)
theory Api_Tokens
  imports Go_Encoding
begin

text \<open>
  Scoped API tokens: the in-memory token store (\<^verbatim>\<open>internal/api/tokenstore.go\<close>), the check every
  authenticated request passes and the handlers that mint and revoke (\<^verbatim>\<open>internal/api/tokens.go\<close>). SHA-256,
  the random source and the clock are arguments. The store is shown to hold exactly the tokens minted
  and not revoked, whatever requests come between.
\<close>

subsection \<open>Scopes\<close>

type_synonym Scope = string

abbreviation ScopeRead :: Scope where "ScopeRead \<equiv> ''read''"
abbreviation ScopeSend :: Scope where "ScopeSend \<equiv> ''send''"
abbreviation ScopeModerate :: Scope where "ScopeModerate \<equiv> ''moderate''"
abbreviation ScopeControl :: Scope where "ScopeControl \<equiv> ''control''"
abbreviation ScopeAdmin :: Scope where "ScopeAdmin \<equiv> ''admin''"

definition AllScopes :: "Scope list" where
  "AllScopes = [ScopeRead, ScopeSend, ScopeModerate, ScopeControl, ScopeAdmin]"

definition ValidScope :: "string \<Rightarrow> bool" where
  "ValidScope s = list_ex (\<lambda>v. s = v) AllScopes"

definition hasScope :: "Scope list \<Rightarrow> Scope \<Rightarrow> bool" where
  "hasScope granted need = list_ex (\<lambda>g. g = ScopeAdmin \<or> g = need) granted"

lemma hasScope_iff: "hasScope granted need \<longleftrightarrow> ScopeAdmin \<in> set granted \<or> need \<in> set granted"
  by (auto simp: hasScope_def list_ex_iff)

subsection \<open>The token store\<close>

record TokenInfo =
  ti_ID :: string
  ti_Name :: string
  ti_Scopes :: "string list"
  ti_CreatedAtMs :: int
  ti_LastUsedAtMs :: int

record tokenRow =
  tr_info :: TokenInfo
  tr_hashSecret :: string

text \<open>\<open>sha\<close> is \<^verbatim>\<open>sha256.Sum256\<close>; \<open>ent\<close> the 24 bytes \<^verbatim>\<open>rand.Read\<close> gives, None its error.\<close>

definition HashToken :: "(string \<Rightarrow> string) \<Rightarrow> string \<Rightarrow> string" where
  "HashToken sha token = hex (sha token)"

definition NewTokenSecret :: "string option \<Rightarrow> string option" where
  "NewTokenSecret ent = map_option (\<lambda>b. ''vk_'' @ hex b) ent"

definition newID :: "string option \<Rightarrow> string" where
  "newID ent = (let s = (case NewTokenSecret ent of None \<Rightarrow> [] | Some s \<Rightarrow> s)
     in if length s > 12 then take 12 s else s)"

definition tok_List :: "tokenRow list \<Rightarrow> TokenInfo list" where
  "tok_List rows = map tr_info rows"

text \<open>\<^verbatim>\<open>Mint\<close>: the metadata and the secret, the row keeping the hash only.\<close>

definition tok_Mint :: "(string \<Rightarrow> string) \<Rightarrow> string option \<Rightarrow> string option \<Rightarrow> time \<Rightarrow> string \<Rightarrow> Scope list \<Rightarrow>
    tokenRow list \<Rightarrow> (TokenInfo \<times> string) option \<times> tokenRow list" where
  "tok_Mint sha ent id_ent now name scopes rows = (case NewTokenSecret ent of
     None \<Rightarrow> (None, rows)
   | Some secret \<Rightarrow>
       let info = \<lparr>ti_ID = newID id_ent, ti_Name = name, ti_Scopes = scopes,
             ti_CreatedAtMs = unix_milli now, ti_LastUsedAtMs = 0\<rparr>
       in (Some (info, secret), rows @ [\<lparr>tr_info = info, tr_hashSecret = HashToken sha secret\<rparr>]))"

fun tok_Revoke :: "string \<Rightarrow> tokenRow list \<Rightarrow> bool \<times> tokenRow list" where
  "tok_Revoke i [] = (False, [])"
| "tok_Revoke i (r # rows) = (if ti_ID (tr_info r) = i then (True, rows)
     else (case tok_Revoke i rows of (found, rows) \<Rightarrow> (found, r # rows)))"

fun find_row :: "string \<Rightarrow> int \<Rightarrow> tokenRow list \<Rightarrow> Scope list option \<times> tokenRow list" where
  "find_row hash ms [] = (None, [])"
| "find_row hash ms (r # rows) =
    (if hash = tr_hashSecret r
     then (Some (ti_Scopes (tr_info r)), r\<lparr>tr_info := (tr_info r)\<lparr>ti_LastUsedAtMs := ms\<rparr>\<rparr> # rows)
     else (case find_row hash ms rows of (res, rows) \<Rightarrow> (res, r # rows)))"

definition tok_Verify :: "(string \<Rightarrow> string) \<Rightarrow> time \<Rightarrow> string \<Rightarrow> tokenRow list \<Rightarrow> Scope list option \<times> tokenRow list" where
  "tok_Verify sha now token rows = find_row (HashToken sha token) (unix_milli now) rows"

text \<open>
  The persisted form. The fields of \<^verbatim>\<open>tokenRow\<close> are not exported, so \<^verbatim>\<open>encoding/json\<close> writes each row as an empty
  object and, reading, leaves them zero: \<open>elements\<close> is the number of objects of a JSON array, None
  another document.
\<close>

definition DumpJSON :: "tokenRow list \<Rightarrow> string" where
  "DumpJSON rows = ''['' @ join '','' (map (\<lambda>_. ''{}'') rows) @ '']''"

definition zero_row :: tokenRow where
  "zero_row = \<lparr>tr_info = \<lparr>ti_ID = [], ti_Name = [], ti_Scopes = [], ti_CreatedAtMs = 0, ti_LastUsedAtMs = 0\<rparr>, tr_hashSecret = []\<rparr>"

definition LoadFromJSON :: "(string \<Rightarrow> nat option) \<Rightarrow> string \<Rightarrow> tokenRow list \<Rightarrow> bool \<times> tokenRow list" where
  "LoadFromJSON elements data rows = (case elements data of
     None \<Rightarrow> (False, rows) | Some n \<Rightarrow> (True, rows @ replicate n zero_row))"

subsection \<open>Requests\<close>

record http_request =
  rq_Method :: string
  rq_Path :: string
  rq_Authorization :: string
  rq_QueryToken :: string
  rq_Origin :: string
  rq_RemoteLoopback :: bool

text \<open>The part of the server the check reads: \<open>sv_hosted\<close> is the session lookup of hosted mode.\<close>

record server =
  sv_token :: string
  sv_tokens :: "tokenRow list option"
  sv_hosted :: "(http_request \<Rightarrow> string option) option"
  sv_corsOrigins :: "string list"

datatype response = Status int | Handle string "string option"

definition presentedToken :: "http_request \<Rightarrow> string" where
  "presentedToken r =
    (let h = rq_Authorization r
     in if length h > 7 \<and> take 7 h = ''Bearer '' then drop 7 h else rq_QueryToken r)"

text \<open>After the token check: in hosted mode a session is required too; the handler runs for its user.\<close>

definition admit :: "string \<Rightarrow> http_request \<Rightarrow> server \<Rightarrow> response" where
  "admit handler r s = (case sv_hosted s of
     None \<Rightarrow> Handle handler None
   | Some resolve \<Rightarrow> (case resolve r of None \<Rightarrow> Status 401 | Some user \<Rightarrow> Handle handler (Some user)))"

definition scoped :: "(string \<Rightarrow> string) \<Rightarrow> time \<Rightarrow> Scope \<Rightarrow> string \<Rightarrow> http_request \<Rightarrow> server \<Rightarrow> response \<times> server" where
  "scoped sha now scope handler r s =
    (let tok = presentedToken r
     in if tok = [] then (Status 401, s)
        else if tok = sv_token s then (admit handler r s, s)
        else (case sv_tokens s of
            None \<Rightarrow> (Status 401, s)
          | Some rows \<Rightarrow> (case tok_Verify sha now tok rows of
              (None, rows) \<Rightarrow> (Status 401, s\<lparr>sv_tokens := Some rows\<rparr>)
            | (Some granted, rows) \<Rightarrow>
                let s = s\<lparr>sv_tokens := Some rows\<rparr>
                in if scope \<noteq> [] \<and> \<not> hasScope granted scope then (Status 403, s)
                   else (admit handler r s, s))))"

text \<open>\<^verbatim>\<open>tokenOK\<close>: the root token only.\<close>

definition tokenOK :: "http_request \<Rightarrow> server \<Rightarrow> bool" where
  "tokenOK r s = (presentedToken r \<noteq> [] \<and> presentedToken r = sv_token s)"

subsection \<open>The token handlers\<close>

text \<open>The answers: a status, with the tokens listed or the token minted.\<close>

datatype token_reply = Refused int | Listed "TokenInfo list" | Minted TokenInfo string | NoContent

definition handleListTokens :: "server \<Rightarrow> token_reply" where
  "handleListTokens s = (if sv_hosted s \<noteq> None then Refused 403
     else (case sv_tokens s of None \<Rightarrow> Refused 503 | Some rows \<Rightarrow> Listed (tok_List rows)))"

text \<open>\<open>body\<close> is the decoded name and scopes, None when the body does not decode.\<close>

definition handleMintToken :: "(string \<Rightarrow> string) \<Rightarrow> string option \<Rightarrow> string option \<Rightarrow> time \<Rightarrow>
    (string \<times> string list) option \<Rightarrow> server \<Rightarrow> token_reply \<times> server" where
  "handleMintToken sha ent id_ent now body s =
    (if sv_hosted s \<noteq> None then (Refused 403, s)
     else (case sv_tokens s of
         None \<Rightarrow> (Refused 503, s)
       | Some rows \<Rightarrow> (case body of
           None \<Rightarrow> (Refused 400, s)
         | Some (name, scopes) \<Rightarrow>
             if name = [] \<or> length scopes = 0 then (Refused 400, s)
             else if \<not> list_all ValidScope scopes then (Refused 400, s)
             else (case tok_Mint sha ent id_ent now name (sort scopes) rows of
                 (None, rows) \<Rightarrow> (Refused 500, s\<lparr>sv_tokens := Some rows\<rparr>)
               | (Some (info, secret), rows) \<Rightarrow> (Minted info secret, s\<lparr>sv_tokens := Some rows\<rparr>)))))"

definition handleRevokeToken :: "string \<Rightarrow> server \<Rightarrow> token_reply \<times> server" where
  "handleRevokeToken i s =
    (if sv_hosted s \<noteq> None then (Refused 403, s)
     else (case sv_tokens s of
         None \<Rightarrow> (Refused 503, s)
       | Some rows \<Rightarrow>
           if i = [] then (Refused 400, s)
           else (case tok_Revoke i rows of (found, rows) \<Rightarrow>
             (if found then NoContent else Refused 500, s\<lparr>sv_tokens := Some rows\<rparr>))))"

subsection \<open>The store holds the live tokens\<close>

text \<open>What clients do with the token surface of a local server.\<close>

datatype tok_op =
    MintOp "(string \<times> string list) option" "string option" "string option" time
  | RevokeOp string
  | UseOp Scope string http_request time

fun tok_do :: "(string \<Rightarrow> string) \<Rightarrow> tok_op \<Rightarrow> server \<Rightarrow> server" where
  "tok_do sha (MintOp body ent id_ent now) s = snd (handleMintToken sha ent id_ent now body s)"
| "tok_do sha (RevokeOp i) s = snd (handleRevokeToken i s)"
| "tok_do sha (UseOp scope handler r now) s = snd (scoped sha now scope handler r s)"

definition local_server :: "string \<Rightarrow> server" where
  "local_server rtok = \<lparr>sv_token = rtok, sv_tokens = Some [], sv_hosted = None, sv_corsOrigins = []\<rparr>"

text \<open>
  The specification: the tokens minted and not revoked, as id, secret and granted scopes. Revoking
  takes out the first token with the id.
\<close>

type_synonym live = "(string \<times> string \<times> Scope list) list"

fun drop_first :: "string \<Rightarrow> live \<Rightarrow> live" where
  "drop_first i [] = []"
| "drop_first i (t # ts) = (if fst t = i then ts else t # drop_first i ts)"

fun minted_by :: "tok_op \<Rightarrow> live" where
  "minted_by (MintOp (Some (name, scopes)) (Some b) id_ent now) =
    (if name \<noteq> [] \<and> scopes \<noteq> [] \<and> list_all ValidScope scopes then [(newID id_ent, ''vk_'' @ hex b, sort scopes)] else [])"
| "minted_by _ = []"

fun live_do :: "tok_op \<Rightarrow> live \<Rightarrow> live" where
  "live_do (RevokeOp i) ts = (if i = [] then ts else drop_first i ts)"
| "live_do op ts = ts @ minted_by op"

definition row_of :: "(string \<Rightarrow> string) \<Rightarrow> tokenRow \<Rightarrow> string \<times> string \<times> Scope list \<Rightarrow> bool" where
  "row_of sha r t \<longleftrightarrow> ti_ID (tr_info r) = fst t \<and> tr_hashSecret r = HashToken sha (fst (snd t)) \<and>
     ti_Scopes (tr_info r) = snd (snd t)"

definition holds :: "(string \<Rightarrow> string) \<Rightarrow> string \<Rightarrow> server \<Rightarrow> live \<Rightarrow> bool" where
  "holds sha rtok s ts \<longleftrightarrow> sv_token s = rtok \<and> sv_hosted s = None \<and> (\<exists>rows. sv_tokens s = Some rows \<and> list_all2 (row_of sha) rows ts)"

lemma find_row_keeps: "list_all2 (row_of sha) rows ts \<Longrightarrow> list_all2 (row_of sha) (snd (find_row h ms rows)) ts"
  by (induction rows ts rule: list_all2_induct) (auto simp: row_of_def split: prod.splits)

lemma find_row_live:
  assumes "list_all2 (row_of sha) rows ts" "\<forall>x \<in> set ts. sha (fst (snd x)) = sha tok \<longrightarrow> fst (snd x) = tok"
  shows "fst (find_row (HashToken sha tok) ms rows) = map_of (map snd ts) tok"
  using assms
  by (induction rows ts rule: list_all2_induct)
    (auto simp: row_of_def HashToken_def split: prod.splits dest: hex_inj)

lemma revoke_live: "list_all2 (row_of sha) rows ts \<Longrightarrow> list_all2 (row_of sha) (snd (tok_Revoke i rows)) (drop_first i ts)"
  by (induction rows ts rule: list_all2_induct) (auto simp: row_of_def split: prod.splits)

lemma holds_do:
  assumes "holds sha rtok s ts"
  shows "holds sha rtok (tok_do sha op s) (live_do op ts)"
proof -
  obtain rows where s: "sv_tokens s = Some rows" "list_all2 (row_of sha) rows ts" "sv_hosted s = None" "sv_token s = rtok"
    using assms by (auto simp: holds_def)
  show ?thesis
  proof (cases op)
    case (MintOp body ent id_ent now)
    then show ?thesis using s
      by (cases body; cases ent)
        (auto simp: holds_def handleMintToken_def tok_Mint_def NewTokenSecret_def Let_def row_of_def list_all2_appendI)
  next
    case (RevokeOp i)
    then show ?thesis using s revoke_live [OF s(2), of i]
      by (cases "tok_Revoke i rows") (auto simp: holds_def handleRevokeToken_def)
  next
    case (UseOp scope handler r now)
    then show ?thesis using s find_row_keeps [OF s(2), of "HashToken sha (presentedToken r)" "unix_milli now"]
      by (cases "tok_Verify sha now (presentedToken r) rows")
        (auto simp: holds_def scoped_def tok_Verify_def Let_def split: option.splits)
  qed
qed

lemma holds_run: "holds sha rtok s ts \<Longrightarrow> holds sha rtok (fold (tok_do sha) ops s) (fold live_do ops ts)"
  by (induction ops arbitrary: s ts) (auto intro: holds_do)

lemma live_minted: "set (fold live_do ops ts) \<subseteq> set ts \<union> set (concat (map minted_by ops))"
proof (induction ops arbitrary: ts)
  case (Cons op ops)
  have "set (drop_first i ts) \<subseteq> set ts" for i by (induction ts) auto
  then have "set (live_do op ts) \<subseteq> set ts \<union> set (minted_by op)"
    by (cases op) (auto split: if_splits)
  then show ?case using Cons.IH [of "live_do op ts"] by auto
qed simp

text \<open>The secrets the minting requests of a sequence hand out.\<close>

definition secrets :: "tok_op list \<Rightarrow> string set" where
  "secrets ops = (fst \<circ> snd) ` set (concat (map minted_by ops))"

lemma live_secret: "x \<in> set (fold live_do ops []) \<Longrightarrow> fst (snd x) \<in> secrets ops"
  using live_minted [of ops "[]"] by (auto simp: secrets_def simp del: set_concat)

lemma token_gate_answer:
  assumes "s = fold (tok_do sha) ops (local_server rtok)" "inj_on sha (insert (presentedToken r) (secrets ops))"
    and "presentedToken r \<noteq> rtok" "presentedToken r \<noteq> []"
  shows "fst (scoped sha now scope handler r s) = (case map_of (map snd (fold live_do ops [])) (presentedToken r) of
      None \<Rightarrow> Status 401
    | Some granted \<Rightarrow> if scope \<noteq> [] \<and> ScopeAdmin \<notin> set granted \<and> scope \<notin> set granted then Status 403 else Handle handler None)"
proof -
  let ?ts = "fold live_do ops []" and ?tok = "presentedToken r"
  obtain rows where s: "sv_tokens s = Some rows" "sv_hosted s = None" "sv_token s = rtok" "list_all2 (row_of sha) rows ?ts"
    using holds_run [of sha rtok "local_server rtok" "[]" ops] assms(1) by (auto simp: holds_def local_server_def)
  have "\<forall>x \<in> set ?ts. sha (fst (snd x)) = sha ?tok \<longrightarrow> fst (snd x) = ?tok"
    using live_secret inj_onD [OF assms(2)] by (metis insertI1 insertI2)
  then have "fst (tok_Verify sha now ?tok rows) = map_of (map snd ?ts) ?tok"
    using s(4) by (simp add: tok_Verify_def find_row_live)
  then show ?thesis using s assms(3,4)
    by (cases "tok_Verify sha now ?tok rows") (auto simp: scoped_def Let_def admit_def hasScope_iff split: option.splits)
qed

text \<open>
  C17. Whatever tokens were minted, used and revoked before, a request with a token other than the
  rtok token is answered as the list of live tokens says: 401 when the token is not live, 403 when
  it is but was granted neither the scope nor admin, and otherwise the handler runs. No two of the secrets
  concerned have the same SHA-256.
\<close>

theorem token_gate:
  assumes "s = fold (tok_do sha) ops (local_server rtok)" "inj_on sha (insert (presentedToken r) (secrets ops))"
    and "presentedToken r \<noteq> rtok" "presentedToken r \<noteq> []"
  shows "fst (scoped sha now scope handler r s) = (case map_of (map snd (fold live_do ops [])) (presentedToken r) of
      None \<Rightarrow> Status 401
    | Some granted \<Rightarrow> if scope \<noteq> [] \<and> ScopeAdmin \<notin> set granted \<and> scope \<notin> set granted then Status 403 else Handle handler None)"
  using assms by (rule token_gate_answer)

theorem token_gate_witness:
  "fst (scoped (\<lambda>x. x) 2 ScopeSend ''handleSend'' \<lparr>rq_Method = ''POST'', rq_Path = ''/v1/send'',
      rq_Authorization = ''Bearer vk_61'', rq_QueryToken = [], rq_Origin = [], rq_RemoteLoopback = True\<rparr>
    (fold (tok_do (\<lambda>x. x)) [MintOp (Some (''bot'', [ScopeRead])) (Some ''a'') (Some ''b'') 1] (local_server ''r''))) = Status 403"
proof -
  have hex: "hex ''a'' = ''61''" by code_simp
  show ?thesis
    by (subst token_gate [OF refl]) (simp_all add: hex presentedToken_def ValidScope_def AllScopes_def del: hex_Cons)
qed

lemma drop_first_gone:
  "length (filter P ts) \<le> 1 \<Longrightarrow> \<forall>t. fst t = i \<longrightarrow> P t \<Longrightarrow> \<forall>t \<in> set ts. P t \<longrightarrow> fst t = i \<Longrightarrow> filter P (drop_first i ts) = []"
proof (induction ts)
  case (Cons u ts)
  show ?case
  proof (cases "fst u = i")
    case True
    have "P u" by (rule Cons.prems(2) [rule_format, OF True])
    with Cons.prems(1) True show ?thesis by simp
  next
    case False
    then have "\<not> P u" using Cons.prems(3) by (meson list.set_intros(1))
    with Cons.prems(1) have "length (filter P ts) \<le> 1" by simp
    then have "filter P (drop_first i ts) = []" by (rule Cons.IH [OF _ Cons.prems(2)]) (use Cons.prems(3) in simp)
    then show ?thesis using False \<open>\<not> P u\<close> by simp
  qed
qed simp

lemma live_count: "length (filter P (fold live_do ops ts)) \<le> length (filter P ts) + length (filter P (concat (map minted_by ops)))"
proof (induction ops arbitrary: ts)
  case (Cons op ops)
  have "length (filter P (drop_first i ts)) \<le> length (filter P ts)" for i by (induction ts) auto
  then have "length (filter P (live_do op ts)) \<le> length (filter P ts) + length (filter P (minted_by op))"
    by (cases op) auto
  then show ?case using Cons.IH [of "live_do op ts"] by simp
qed simp

text \<open>
  A revoked token is refused for good: once its id has been revoked every request that presents
  its secret is answered with 401, whatever was minted, revoked and used before or afterwards, as long
  as no other token got the same id or secret.
\<close>

theorem revoked_refused:
  assumes "s = fold (tok_do sha) (before @ RevokeOp i # after) (local_server rtok)"
    and "filter (\<lambda>t. fst t = i \<or> fst (snd t) = presentedToken r) (concat (map minted_by (before @ after))) = [t]"
    and "t \<in> set (concat (map minted_by before))" "fst t = i" "i \<noteq> []"
    and "inj_on sha (insert (presentedToken r) (secrets (before @ after)))" "presentedToken r \<noteq> rtok"
  shows "fst (scoped sha now scope handler r s) = Status 401"
proof (cases "presentedToken r = []")
  case False
  let ?P = "\<lambda>t. fst t = i \<or> fst (snd t) = presentedToken r" and ?mints = "\<lambda>ops. concat (map minted_by ops)"
  let ?L = "fold live_do before []" and ?fin = "fold live_do (before @ RevokeOp i # after) []"
  have mints: "filter ?P (?mints before) @ filter ?P (?mints after) = [t]" using assms(2) by simp
  moreover have "filter ?P (?mints before) \<noteq> []" using assms(3,4) by (auto simp: filter_empty_conv)
  ultimately have m: "filter ?P (?mints before) = [t]" "filter ?P (?mints after) = []"
    by (cases "filter ?P (?mints before)"; simp)+
  have "length (filter ?P ?L) \<le> 1" using live_count [of ?P before "[]"] m(1) by simp
  moreover have "\<forall>u \<in> set ?L. ?P u \<longrightarrow> fst u = i"
  proof (intro ballI impI)
    fix u
    assume "u \<in> set ?L" "?P u"
    then have "u \<in> set (filter ?P (?mints before))" using live_minted [of before "[]"] by auto
    then show "fst u = i" using m(1) assms(4) by simp
  qed
  ultimately have "filter ?P (drop_first i ?L) = []" by (intro drop_first_gone) simp_all
  then have "filter ?P ?fin = []"
    using live_count [of ?P after "drop_first i ?L"] m(2) assms(5) by simp
  then have "map_of (map snd ?fin) (presentedToken r) = None"
    by (force simp: map_of_eq_None_iff filter_empty_conv)
  moreover have "secrets (before @ RevokeOp i # after) = secrets (before @ after)" by (simp add: secrets_def)
  ultimately show ?thesis using token_gate_answer [OF assms(1) _ assms(7) False] assms(6) by simp
qed (simp add: scoped_def)

theorem revoked_refused_witness:
  "fst (scoped (\<lambda>x. x) 2 ScopeRead ''handleStream'' \<lparr>rq_Method = ''GET'', rq_Path = ''/v1/stream'',
      rq_Authorization = [], rq_QueryToken = ''vk_61'', rq_Origin = [], rq_RemoteLoopback = True\<rparr>
    (fold (tok_do (\<lambda>x. x)) ([MintOp (Some (''bot'', [ScopeRead])) (Some ''a'') (Some ''b'') 1] @ RevokeOp ''vk_62'' # [])
      (local_server ''r''))) = Status 401"
proof -
  have hex: "hex ''a'' = ''61''" "hex ''b'' = ''62''" by code_simp+
  show ?thesis
    by (rule revoked_refused [OF refl, where t = "(''vk_62'', ''vk_61'', [ScopeRead])"])
      (simp_all add: hex presentedToken_def ValidScope_def AllScopes_def newID_def NewTokenSecret_def del: hex_Cons)
qed

subsection \<open>Grants are valid\<close>

definition granted_ok :: "TokenInfo \<Rightarrow> bool" where
  "granted_ok info \<longleftrightarrow> ti_Name info \<noteq> [] \<and> ti_Scopes info \<noteq> [] \<and> sorted (ti_Scopes info) \<and> set (ti_Scopes info) \<subseteq> set AllScopes"

definition rows_ok :: "server \<Rightarrow> bool" where
  "rows_ok s \<longleftrightarrow> (\<forall>rows. sv_tokens s = Some rows \<longrightarrow> (\<forall>r \<in> set rows. granted_ok (tr_info r)))"

definition mint_refusal :: "string option \<Rightarrow> (string \<times> string list) option \<Rightarrow> server \<Rightarrow> int" where
  "mint_refusal ent body s =
    (if sv_hosted s \<noteq> None then 403 else if sv_tokens s = None then 503
     else if ent = None \<and> (\<exists>name scopes. body = Some (name, scopes) \<and> name \<noteq> [] \<and> scopes \<noteq> [] \<and> list_all ValidScope scopes)
       then 500 else 400)"

lemma Mint_cases:
  obtains "handleMintToken sha ent id_ent now body s = (Refused (mint_refusal ent body s), s)"
  | rows info secret where "sv_tokens s = Some rows" "granted_ok info"
      "handleMintToken sha ent id_ent now body s =
        (Minted info secret, s\<lparr>sv_tokens := Some (rows @ [\<lparr>tr_info = info, tr_hashSecret = HashToken sha secret\<rparr>])\<rparr>)"
proof (cases "sv_hosted s = None \<and> sv_tokens s \<noteq> None \<and>
    (\<exists>name scopes. body = Some (name, scopes) \<and> name \<noteq> [] \<and> scopes \<noteq> [] \<and> list_all ValidScope scopes)")
  case True
  then obtain rows name scopes where g: "sv_hosted s = None" "sv_tokens s = Some rows" "body = Some (name, scopes)"
    "name \<noteq> []" "scopes \<noteq> []" "list_all ValidScope scopes" by auto
  show ?thesis
  proof (cases ent)
    case None
    then show ?thesis using g
      by (intro that(1)) (cases s, simp add: handleMintToken_def tok_Mint_def NewTokenSecret_def mint_refusal_def)
  next
    case (Some b)
    have "set scopes \<subseteq> set AllScopes" using g(6) by (auto simp: ValidScope_def list_all_iff list_ex_iff)
    moreover have "sort scopes \<noteq> []" using g(5) by (metis set_empty set_sort)
    ultimately show ?thesis using g Some
      by (intro that(2)) (simp_all add: handleMintToken_def tok_Mint_def NewTokenSecret_def Let_def granted_ok_def)
  qed
next
  case False
  then show ?thesis
    by (intro that(1)) (auto simp: handleMintToken_def mint_refusal_def split: option.splits)
qed

lemma granted_ok_used [simp]: "granted_ok (info\<lparr>ti_LastUsedAtMs := ms\<rparr>) = granted_ok info"
  by (simp add: granted_ok_def)

lemma find_row_granted:
  "\<forall>r \<in> set rows. granted_ok (tr_info r) \<Longrightarrow> \<forall>r \<in> set (snd (find_row h ms rows)). granted_ok (tr_info r)"
  by (induction rows) (auto split: prod.splits)

lemma Revoke_subset: "set (snd (tok_Revoke i rows)) \<subseteq> set rows"
  by (induction rows) (auto split: prod.splits)

lemma rows_ok_do:
  assumes "rows_ok s"
  shows "rows_ok (tok_do sha op s)"
proof (cases op)
  case (MintOp body ent id_ent now)
  then show ?thesis using assms
    by (cases rule: Mint_cases [of sha ent id_ent now body s]) (auto simp: rows_ok_def)
next
  case (RevokeOp i)
  show ?thesis
  proof (cases "sv_tokens s")
    case (Some rows)
    then show ?thesis using assms RevokeOp Revoke_subset [of i rows]
      by (cases "tok_Revoke i rows") (auto simp: rows_ok_def handleRevokeToken_def)
  qed (use RevokeOp in \<open>simp add: rows_ok_def handleRevokeToken_def\<close>)
next
  case (UseOp scope handler r now)
  show ?thesis
  proof (cases "sv_tokens s")
    case (Some rows)
    then show ?thesis using assms UseOp find_row_granted [of rows "HashToken sha (presentedToken r)" "unix_milli now"]
      by (cases "tok_Verify sha now (presentedToken r) rows")
        (auto simp: rows_ok_def scoped_def tok_Verify_def Let_def split: option.splits)
  qed (use UseOp in \<open>simp add: rows_ok_def scoped_def Let_def\<close>)
qed

text \<open>
  C40. Every token the server lists has a name and a sorted, non-empty list of scopes, each one of the
  five the API defines, whatever requests were made, well-formed or not; a refused minting request
  (hosted mode 403, no store 503, a body without name or scopes or with an unknown scope 400, no
  entropy 500) leaves the store as it was.
\<close>

theorem tokens_well_formed:
  "rows_ok (fold (tok_do sha) ops (local_server rtok))
    \<and> (\<forall>code. fst (handleMintToken sha ent id_ent now body s) = Refused code \<longrightarrow>
        snd (handleMintToken sha ent id_ent now body s) = s \<and> code = mint_refusal ent body s)"
proof
  have "rows_ok s \<longrightarrow> rows_ok (fold (tok_do sha) ops s)" for s
  proof (induction ops arbitrary: s)
    case (Cons op ops)
    then show ?case using rows_ok_do [of s sha op] by simp
  qed simp
  then show "rows_ok (fold (tok_do sha) ops (local_server rtok))" by (rule mp) (simp add: rows_ok_def local_server_def)
qed (cases rule: Mint_cases [of sha ent id_ent now body s]; simp)

theorem tokens_well_formed_witness:
  "fst (handleMintToken (\<lambda>x. x) (Some ''a'') (Some ''b'') 1 (Some (''bot'', [''root''])) (local_server ''r'')) = Refused 400
    \<and> sv_tokens (snd (handleMintToken (\<lambda>x. x) (Some ''a'') (Some ''b'') 1 (Some (''bot'', [''root''])) (local_server ''r''))) = Some []"
proof -
  have r: "fst (handleMintToken (\<lambda>x. x) (Some ''a'') (Some ''b'') 1 (Some (''bot'', [''root''])) (local_server ''r'')) = Refused 400"
    by (simp add: handleMintToken_def local_server_def ValidScope_def AllScopes_def)
  show ?thesis using r tokens_well_formed [THEN conjunct2, rule_format, OF r] by (simp add: local_server_def)
qed

text \<open>Persisting the store loses every token: what is read back has neither hashes nor names.\<close>

lemma dump_loses_tokens:
  assumes "elements (DumpJSON rows) = Some (length rows)" "\<And>token. sha token \<noteq> []"
  shows "fst (tok_Verify sha now token (snd (LoadFromJSON elements (DumpJSON rows) []))) = None"
proof -
  have "fst (find_row (HashToken sha token) ms (replicate n zero_row)) = None" for ms n
  proof -
    have "HashToken sha token \<noteq> tr_hashSecret zero_row"
      using assms(2) [of token] hex_inj [of "sha token" "[]"] by (auto simp: HashToken_def zero_row_def)
    then show ?thesis by (induction n) (auto split: prod.splits)
  qed
  then show ?thesis using assms(1) by (simp add: LoadFromJSON_def tok_Verify_def)
qed

end
