(* ===== verification/Api_Surface.thy ===== *)
theory Api_Surface
  imports Api_Tokens
begin

text \<open>
  Who may call what over HTTP (\<^verbatim>\<open>internal/api/server.go\<close>): the route table with the scope each endpoint
  needs, the patterns registered on the \<^verbatim>\<open>ServeMux\<close> beside it, the mux's choice of pattern, and
  the CORS wrapper around it. A handler is its name. Host patterns and the redirects to a cleaned path
  are left out: a request path is taken as cleaned.
\<close>

subsection \<open>The route table\<close>

type_synonym route = "string \<times> string \<times> Scope \<times> string"

definition routes :: "route list" where
  "routes = [
    (''GET'', ''/v1/diagnostics'', ScopeAdmin, ''handleDiagnostics''),
    (''GET'', ''/v1/stream'', ScopeRead, ''handleStream''),
    (''GET'', ''/v1/channels'', ScopeRead, ''handleListChannels''),
    (''GET'', ''/v1/capabilities'', ScopeRead, ''handleCapabilities''),
    (''GET'', ''/v1/streams'', ScopeRead, ''handleListStreams''),
    (''GET'', ''/v1/emotes'', ScopeRead, ''handleListEmotes''),
    (''GET'', ''/v1/filters'', ScopeRead, ''handleListFilters''),
    (''GET'', ''/v1/search'', ScopeRead, ''handleSearch''),
    (''GET'', ''/v1/history'', ScopeRead, ''handleHistory''),
    (''GET'', ''/v1/held'', ScopeRead, ''handleListHeld''),
    (''GET'', ''/v1/moments'', ScopeRead, ''handleListMoments''),
    (''DELETE'', ''/v1/moments/{id}'', ScopeControl, ''handleDeleteMoment''),
    (''GET'', ''/v1/accounts'', ScopeRead, ''handleListAccounts''),
    (''GET'', ''/v1/connections/methods'', ScopeRead, ''handleListMethods''),
    (''GET'', ''/v1/profiles'', ScopeRead, ''handleListProfiles''),
    (''GET'', ''/v1/auth/config'', ScopeRead, ''handleGetAuthConfig''),
    (''POST'', ''/v1/send'', ScopeSend, ''handleSend''),
    (''POST'', ''/v1/send/preview'', ScopeSend, ''handleSendPreview''),
    (''POST'', ''/v1/send/queue'', ScopeSend, ''handleSendQueue''),
    (''POST'', ''/v1/held/{id}/approve'', ScopeModerate, ''handleApproveHeld''),
    (''POST'', ''/v1/held/{id}/deny'', ScopeModerate, ''handleDenyHeld''),
    (''PUT'', ''/v1/filters'', ScopeControl, ''handleSetFilters''),
    (''PUT'', ''/v1/connections/method'', ScopeControl, ''handleSetMethod''),
    (''POST'', ''/v1/channels'', ScopeControl, ''handleJoinChannel''),
    (''DELETE'', ''/v1/channels'', ScopeControl, ''handleLeaveChannel''),
    (''POST'', ''/v1/profiles'', ScopeControl, ''handleCreateProfile''),
    (''POST'', ''/v1/profiles/{id}/activate'', ScopeControl, ''handleActivateProfile''),
    (''DELETE'', ''/v1/profiles/{id}'', ScopeControl, ''handleDeleteProfile''),
    (''PUT'', ''/v1/auth/config'', ScopeAdmin, ''handleSetAuthConfig''),
    (''DELETE'', ''/v1/accounts/{id}'', ScopeAdmin, ''handleDisconnectAccount''),
    (''POST'', ''/v1/auth/twitch/device'', ScopeAdmin, ''handleTwitchDeviceStart''),
    (''GET'', ''/v1/auth/twitch/device/{id}'', ScopeAdmin, ''handleTwitchDeviceStatus''),
    (''POST'', ''/v1/auth/kick/start'', ScopeAdmin, ''handleKickAuthStart''),
    (''GET'', ''/v1/auth/kick/{id}'', ScopeAdmin, ''handleKickAuthStatus''),
    (''GET'', ''/v1/tokens'', ScopeAdmin, ''handleListTokens''),
    (''POST'', ''/v1/tokens'', ScopeAdmin, ''handleMintToken''),
    (''DELETE'', ''/v1/tokens/{id}'', ScopeAdmin, ''handleRevokeToken''),
    (''GET'', ''/v1/profiles/{id}/export'', ScopeControl, ''handleExportProfile''),
    (''POST'', ''/v1/profiles/import'', ScopeControl, ''handleImportProfile''),
    (''GET'', ''/v1/webhooks'', ScopeControl, ''handleListWebhooks''),
    (''POST'', ''/v1/webhooks'', ScopeControl, ''handleCreateWebhook''),
    (''DELETE'', ''/v1/webhooks/{id}'', ScopeControl, ''handleDeleteWebhook''),
    (''GET'', ''/v1/webhooks/{id}/log'', ScopeControl, ''handleWebhookLog''),
    (''POST'', ''/v1/webhooks/{id}/resume'', ScopeControl, ''handleResumeWebhook''),
    (''GET'', ''/v1/themes'', ScopeRead, ''handleListThemes''),
    (''POST'', ''/v1/themes'', ScopeControl, ''handleImportTheme''),
    (''GET'', ''/v1/themes/{id}/export'', ScopeRead, ''handleExportTheme''),
    (''DELETE'', ''/v1/themes/{id}'', ScopeControl, ''handleDeleteTheme''),
    (''GET'', ''/v1/plugins'', ScopeRead, ''handleListPlugins''),
    (''GET'', ''/v1/plugins/{id}'', ScopeRead, ''handleGetPlugin''),
    (''POST'', ''/v1/plugins/{id}/enable'', ScopeAdmin, ''handleEnablePlugin''),
    (''POST'', ''/v1/plugins/{id}/disable'', ScopeAdmin, ''handleDisablePlugin''),
    (''POST'', ''/v1/plugins/install'', ScopeAdmin, ''handleInstallPlugin''),
    (''POST'', ''/v1/plugins/upload'', ScopeAdmin, ''handleUploadPlugin''),
    (''DELETE'', ''/v1/plugins/{id}'', ScopeAdmin, ''handleUninstallPlugin''),
    (''GET'', ''/v1/plugins/{id}/config'', ScopeRead, ''handleGetPluginConfig''),
    (''PUT'', ''/v1/plugins/{id}/config'', ScopeAdmin, ''handlePutPluginConfig''),
    (''POST'', ''/v1/plugins/{id}/http'', ScopeRead, ''handlePluginHTTP''),
    (''POST'', ''/v1/plugins/{id}/signal'', ScopeAdmin, ''handlePluginSignalPost''),
    (''GET'', ''/v1/plugins/{id}/signal'', ScopeRead, ''handlePluginSignalGet''),
    (''GET'', ''/v1/plugins/{id}/hook/events'', ScopeRead, ''handlePluginHookEvents''),
    (''GET'', ''/v1/intel/models'', ScopeRead, ''handleListModels''),
    (''POST'', ''/v1/intel/ask'', ScopeRead, ''handleAsk''),
    (''POST'', ''/v1/intel/title'', ScopeRead, ''handleGenerateTitle''),
    (''GET'', ''/v1/intel/config'', ScopeRead, ''handleGetIntelConfig''),
    (''PUT'', ''/v1/intel/config'', ScopeControl, ''handleSetIntelConfig''),
    (''GET'', ''/v1/intel/conversations'', ScopeRead, ''handleListConversations''),
    (''GET'', ''/v1/intel/conversations/{id}'', ScopeRead, ''handleGetConversation''),
    (''POST'', ''/v1/intel/conversations'', ScopeControl, ''handleSaveConversation''),
    (''DELETE'', ''/v1/intel/conversations/{id}'', ScopeControl, ''handleDeleteConversation''),
    (''GET'', ''/v1/obsws/status'', ScopeRead, ''handleGetOBSStatus''),
    (''GET'', ''/v1/obsws/config'', ScopeControl, ''handleGetOBSConfig''),
    (''PUT'', ''/v1/obsws/config'', ScopeControl, ''handlePutOBSConfig''),
    (''GET'', ''/v1/obsws/sources'', ScopeRead, ''handleGetOBSSources''),
    (''GET'', ''/v1/obsws/scenes'', ScopeRead, ''handleGetOBSScenes''),
    (''POST'', ''/v1/obsws/test-source'', ScopeControl, ''handlePostOBSTestSource''),
    (''POST'', ''/v1/obsws/detect'', ScopeRead, ''handlePostOBSDetect''),
    (''GET'', ''/v1/filter/profanity'', ScopeRead, ''handleGetProfanity''),
    (''PUT'', ''/v1/filter/profanity'', ScopeControl, ''handleSetProfanity''),
    (''GET'', ''/v1/marketplace'', ScopeRead, ''handleListMarketplace''),
    (''GET'', ''/v1/overlays'', ScopeRead, ''handleListOverlays''),
    (''GET'', ''/dev'', ScopeRead, ''handleDev'')]"

text \<open>How a pattern of the mux is guarded.\<close>

datatype guard = Public | Loopback | RootOnly | Scoped Scope

text \<open>The patterns \<^verbatim>\<open>New\<close> registers: method (empty for any), path, guard and handler.\<close>

definition mux_patterns :: "(string \<times> string \<times> guard \<times> string) list" where
  "mux_patterns = [
    (''GET'', ''/v1/health'', Public, ''handleHealth''),
    (''GET'', ''/v1/openapi.json'', Public, ''handleOpenAPI''),
    (''GET'', ''/v1/asyncapi.json'', Public, ''handleAsyncAPI''),
    (''GET'', ''/docs'', Public, ''handleDocs''),
    (''GET'', ''/auth/status'', Public, ''handleHostedStatus''),
    (''POST'', ''/auth/register'', Public, ''handleHostedRegister''),
    (''POST'', ''/auth/login'', Public, ''handleHostedLogin''),
    (''POST'', ''/auth/logout'', Public, ''handleHostedLogout''),
    (''GET'', ''/auth/me'', Public, ''handleHostedMe''),
    ([], ''/mcp'', Scoped ScopeRead, ''handleMCP''),
    ([], ''/mcp/'', Scoped ScopeRead, ''handleMCP''),
    (''POST'', ''/v1/plugins/{id}/hook/{name}'', Public, ''handlePluginHookPost'')]
    @ map (\<lambda>(method, path, scope, handler). (method, path, Scoped scope, handler)) routes @ [
    (''GET'', ''/__discovery'', Loopback, ''handleDiscovery''),
    (''GET'', ''/__integration'', Loopback, ''handleDesktopIntegration''),
    (''GET'', ''/overlay'', RootOnly, ''handleOverlay''),
    (''GET'', ''/plugins/{id}/gui/{path...}'', Public, ''handlePluginGUI''),
    ([], ''/'', Public, ''handleWebUI'')]"

subsection \<open>Choosing a pattern\<close>

text \<open>
  \<^verbatim>\<open>http.ServeMux\<close>: a pattern is a list of segments; a literal is preferred to a wildcard, and
  that to a rest, segment by segment. A method's own patterns come first (a HEAD request may use those
  of GET), then those for any method.
\<close>

datatype pseg = Lit string | Wild | Rest

definition pattern_seg :: "string \<Rightarrow> pseg" where
  "pattern_seg s = (if s = [] then Rest
     else if has_prefix s ''{'' then (if has_prefix (rev s) ''}...'' then Rest else Wild) else Lit s)"

definition pattern_segs :: "string \<Rightarrow> pseg list" where
  "pattern_segs path = map pattern_seg (split_on CHR ''/'' (tl path))"

fun path_matches :: "pseg list \<Rightarrow> string list \<Rightarrow> bool" where
  "path_matches [] [] = True"
| "path_matches (Lit p # ps) (s # ss) = (p = s \<and> path_matches ps ss)"
| "path_matches (Wild # ps) (s # ss) = (s \<noteq> [] \<and> path_matches ps ss)"
| "path_matches [Rest] (s # ss) = True"
| "path_matches _ _ = False"

fun preferred :: "pseg list \<Rightarrow> pseg list \<Rightarrow> bool" where
  "preferred (Lit _ # ps) (Lit _ # qs) = preferred ps qs"
| "preferred (Lit _ # _) _ = True"
| "preferred (Wild # ps) (Wild # qs) = preferred ps qs"
| "preferred (Wild # _) (Rest # _) = True"
| "preferred _ _ = False"

fun pick :: "string \<Rightarrow> string list \<Rightarrow> (string \<times> string \<times> guard \<times> string) list \<Rightarrow> (string \<times> string \<times> guard \<times> string) option" where
  "pick method segs [] = None"
| "pick method segs (e # es) =
    (let rest = pick method segs es
     in if fst e = method \<and> path_matches (pattern_segs (fst (snd e))) segs
          \<and> (case rest of None \<Rightarrow> True | Some e' \<Rightarrow> \<not> preferred (pattern_segs (fst (snd e'))) (pattern_segs (fst (snd e))))
        then Some e else rest)"

fun first_some :: "'a option list \<Rightarrow> 'a option" where
  "first_some [] = None"
| "first_some (Some x # _) = Some x"
| "first_some (None # xs) = first_some xs"

definition match_request :: "http_request \<Rightarrow> (string \<times> string \<times> guard \<times> string) option" where
  "match_request r =
    (let segs = split_on CHR ''/'' (tl (rq_Path r)); find = (\<lambda>m. pick m segs mux_patterns)
     in first_some ([find (rq_Method r)] @ (if rq_Method r = ''HEAD'' then [find ''GET''] else []) @ [find []]))"

subsection \<open>Serving a request\<close>

definition run_guard :: "(string \<Rightarrow> string) \<Rightarrow> time \<Rightarrow> guard \<Rightarrow> string \<Rightarrow> http_request \<Rightarrow> server \<Rightarrow> response \<times> server" where
  "run_guard sha now g handler r s = (case g of
     Public \<Rightarrow> (Handle handler None, s)
   | Loopback \<Rightarrow> (if rq_RemoteLoopback r then Handle handler None else Status 404, s)
   | RootOnly \<Rightarrow> (if tokenOK r s then Handle handler None else Status 401, s)
   | Scoped scope \<Rightarrow> scoped sha now scope handler r s)"

text \<open>The CORS wrapper: a preflight is answered without reaching the mux; \<open>hostname\<close> is \<^verbatim>\<open>url.Parse\<close> and \<^verbatim>\<open>Hostname\<close>.\<close>

definition isLoopbackCORSOrigin :: "(string \<Rightarrow> string option) \<Rightarrow> string \<Rightarrow> bool" where
  "isLoopbackCORSOrigin hostname origin = (case hostname origin of
     None \<Rightarrow> False
   | Some h \<Rightarrow> h = ''localhost'' \<or> has_prefix (rev h) (rev ''.localhost'') \<or> h = ''127.0.0.1'' \<or> h = ''::1'')"

definition cors_permit :: "(string \<Rightarrow> string option) \<Rightarrow> string \<Rightarrow> server \<Rightarrow> bool" where
  "cors_permit hostname origin s =
    (origin \<noteq> [] \<and> (''*'' \<in> set (sv_corsOrigins s) \<or> origin \<in> set (sv_corsOrigins s) \<or> isLoopbackCORSOrigin hostname origin))"

definition withCORS :: "(string \<Rightarrow> string option) \<Rightarrow> (http_request \<Rightarrow> server \<Rightarrow> response \<times> server) \<Rightarrow>
    http_request \<Rightarrow> server \<Rightarrow> (string option \<times> response) \<times> server" where
  "withCORS hostname next r s =
    (let allow = (if cors_permit hostname (rq_Origin r) s then Some (rq_Origin r) else None)
     in if rq_Method r = ''OPTIONS'' then ((allow, Status 204), s)
        else (case next r s of (res, s) \<Rightarrow> ((allow, res), s)))"

definition serve_http :: "(string \<Rightarrow> string) \<Rightarrow> (string \<Rightarrow> string option) \<Rightarrow> time \<Rightarrow> http_request \<Rightarrow> server \<Rightarrow>
    (string option \<times> response) \<times> server" where
  "serve_http sha hostname now = withCORS hostname (\<lambda>r s. case match_request r of
     None \<Rightarrow> (Status 404, s)
   | Some (_, _, g, handler) \<Rightarrow> run_guard sha now g handler r s)"

subsection \<open>The web page\<close>

text \<open>
  The page served at the root of the web UI: a script with the root token is put before the end of the head. \<open>quote\<close> is
  \<^verbatim>\<open>json.Marshal\<close> of a string, \<open>index\<close> the embedded page, None when it cannot be read.
\<close>

fun split_at_sub :: "string \<Rightarrow> string \<Rightarrow> (string \<times> string) option" where
  "split_at_sub needle [] = (if needle = [] then Some ([], []) else None)"
| "split_at_sub needle (c # s) =
    (if has_prefix (c # s) needle then Some ([], c # s)
     else map_option (\<lambda>(u, v). (c # u, v)) (split_at_sub needle s))"

definition injectBeforeHead :: "string \<Rightarrow> string \<Rightarrow> string" where
  "injectBeforeHead html snippet = (case split_at_sub ''</head>'' html of
     Some (u, v) \<Rightarrow> u @ snippet @ v
   | None \<Rightarrow> (case split_at_sub ''<body'' html of
       Some (u, v) \<Rightarrow> u @ snippet @ v
     | None \<Rightarrow> snippet @ html))"

definition serveInjectedHTML :: "(string \<Rightarrow> string) \<Rightarrow> string option \<Rightarrow> server \<Rightarrow> string option" where
  "serveInjectedHTML quote index s = (case index of
     None \<Rightarrow> None
   | Some html \<Rightarrow> Some (injectBeforeHead html
       (''<script>window.__VIRTA_DISCOVERY__={addr:'' @ [CHR 0x22, CHR 0x22] @ '',token:'' @ quote (sv_token s) @ ''};</script>'')))"

text \<open>The page of \<^verbatim>\<open>handleWebUI\<close>: the injected index, or what the file server has; None is a 404.\<close>

definition handleWebUI :: "(string \<Rightarrow> string) \<Rightarrow> bool \<Rightarrow> string option \<Rightarrow> (http_request \<Rightarrow> string option) \<Rightarrow>
    http_request \<Rightarrow> server \<Rightarrow> string option" where
  "handleWebUI quote built index files r s =
    (if \<not> built then None
     else if rq_Path r = ''/'' \<or> rq_Path r = ''/index.html'' \<or> rq_Path r = [] then serveInjectedHTML quote index s
     else files r)"

definition handleDiscovery :: "http_request \<Rightarrow> server \<Rightarrow> (string \<times> string) option" where
  "handleDiscovery r s = (if \<not> rq_RemoteLoopback r then None else Some ([], sv_token s))"

subsection \<open>What a request can reach\<close>

text \<open>Which handlers are meant to be open, to need admin, and to need more than reading.\<close>

definition public_handlers :: "string list" where
  "public_handlers =
    [''handleHealth'', ''handleOpenAPI'', ''handleAsyncAPI'', ''handleDocs'', ''handleHostedStatus'', ''handleHostedRegister'',
     ''handleHostedLogin'', ''handleHostedLogout'', ''handleHostedMe'', ''handlePluginHookPost'', ''handlePluginGUI'', ''handleWebUI'']"

definition loopback_handlers :: "string list" where
  "loopback_handlers = [''handleDiscovery'', ''handleDesktopIntegration'']"

definition operator_handlers :: "string list" where
  "operator_handlers =
    [''handleDiagnostics'', ''handleSetAuthConfig'', ''handleDisconnectAccount'', ''handleTwitchDeviceStart'',
     ''handleTwitchDeviceStatus'', ''handleKickAuthStart'', ''handleKickAuthStatus'', ''handleListTokens'',
     ''handleMintToken'', ''handleRevokeToken'', ''handleEnablePlugin'', ''handleDisablePlugin'', ''handleInstallPlugin'',
     ''handleUploadPlugin'', ''handleUninstallPlugin'', ''handlePutPluginConfig'', ''handlePluginSignalPost'']"

definition acting_handlers :: "string list" where
  "acting_handlers =
    [''handleDeleteMoment'', ''handleSend'', ''handleSendPreview'', ''handleSendQueue'', ''handleApproveHeld'',
     ''handleDenyHeld'', ''handleSetFilters'', ''handleSetMethod'', ''handleJoinChannel'', ''handleLeaveChannel'',
     ''handleCreateProfile'', ''handleActivateProfile'', ''handleDeleteProfile'', ''handleExportProfile'',
     ''handleImportProfile'', ''handleListWebhooks'', ''handleCreateWebhook'', ''handleDeleteWebhook'',
     ''handleWebhookLog'', ''handleResumeWebhook'', ''handleImportTheme'', ''handleDeleteTheme'', ''handleSetIntelConfig'',
     ''handleSaveConversation'', ''handleDeleteConversation'', ''handleGetOBSConfig'', ''handlePutOBSConfig'',
     ''handlePostOBSTestSource'', ''handleSetProfanity'']"

definition well_guarded :: "string \<times> string \<times> guard \<times> string \<Rightarrow> bool" where
  "well_guarded e = (case e of (_, _, g, handler) \<Rightarrow> (case g of
     Public \<Rightarrow> handler \<in> set public_handlers
   | Loopback \<Rightarrow> handler \<in> set loopback_handlers
   | RootOnly \<Rightarrow> handler = ''handleOverlay''
   | Scoped scope \<Rightarrow> scope \<noteq> [] \<and> (handler \<in> set operator_handlers \<longrightarrow> scope = ScopeAdmin)
       \<and> (handler \<in> set acting_handlers \<longrightarrow> scope \<noteq> ScopeRead)))"

lemma mux_guarded: "list_all well_guarded mux_patterns"
  by code_simp

lemma pick_in: "pick m segs es = Some e \<Longrightarrow> e \<in> set es"
  by (induction es) (auto simp: Let_def split: if_splits)

lemma first_some_in: "first_some xs = Some x \<Longrightarrow> Some x \<in> set xs"
  by (induction xs rule: first_some.induct) auto

lemma match_in: "match_request r = Some e \<Longrightarrow> e \<in> set mux_patterns"
  by (auto simp: match_request_def Let_def dest!: first_some_in pick_in [OF sym] split: if_splits)

text \<open>What the presented token is good for: None is no token the server knows.\<close>

definition grants :: "(string \<Rightarrow> string) \<Rightarrow> time \<Rightarrow> http_request \<Rightarrow> server \<Rightarrow> Scope list option" where
  "grants sha now r s = (case sv_tokens s of None \<Rightarrow> None | Some rows \<Rightarrow> fst (tok_Verify sha now (presentedToken r) rows))"

lemma scoped_handles:
  assumes "fst (scoped sha now scope handler r s) = Handle h user"
  shows "h = handler \<and> (tokenOK r s \<or> (\<exists>granted. grants sha now r s = Some granted \<and> (scope = [] \<or> hasScope granted scope)))
    \<and> (case sv_hosted s of None \<Rightarrow> user = None | Some resolve \<Rightarrow> user \<noteq> None \<and> user = resolve r)"
proof -
  have admit: "admit handler r t = Handle h user \<Longrightarrow> sv_hosted t = sv_hosted s \<Longrightarrow> h = handler \<and>
      (case sv_hosted s of None \<Rightarrow> user = None | Some resolve \<Rightarrow> user \<noteq> None \<and> user = resolve r)" for t
  proof (cases "sv_hosted s")
    case (Some resolve)
    then show "admit handler r t = Handle h user \<Longrightarrow> sv_hosted t = sv_hosted s \<Longrightarrow> h = handler \<and>
      (case sv_hosted s of None \<Rightarrow> user = None | Some resolve \<Rightarrow> user \<noteq> None \<and> user = resolve r)"
      by (cases "resolve r") (simp_all add: admit_def, metis option.distinct(1))
  qed (auto simp: admit_def)
  show ?thesis using assms
    by (auto dest!: admit simp: scoped_def tokenOK_def grants_def Let_def split: if_splits option.splits prod.splits)
qed


lemma pick_method: "pick m segs es = pick m segs (filter (\<lambda>e. fst e = m) es)"
  by (induction es) auto

lemma any_method: "filter (\<lambda>e. fst e = []) mux_patterns =
    [([], ''/mcp'', Scoped ScopeRead, ''handleMCP''), ([], ''/mcp/'', Scoped ScopeRead, ''handleMCP''), ([], ''/'', Public, ''handleWebUI'')]"
  by code_simp

lemma no_patch: "filter (\<lambda>e. fst e = ''PATCH'') mux_patterns = []"
  by code_simp


text \<open>A remote client without a token gets the root token with the page at \<^verbatim>\<open>/\<close>, though not from \<^verbatim>\<open>/__discovery\<close>.\<close>

lemma split_at_sub_parts: "split_at_sub needle s = Some (u, v) \<Longrightarrow> s = u @ v"
  by (induction s arbitrary: u v) (auto split: if_splits)

lemma injected_contains: "\<exists>u v. injectBeforeHead html snippet = u @ snippet @ v"
  by (cases "split_at_sub ''</head>'' html"; cases "split_at_sub ''<body'' html")
    (auto simp: injectBeforeHead_def intro: exI [of _ "[]"])

lemma page_has_root_token:
  assumes "rq_Path r = ''/''" "\<not> rq_RemoteLoopback r"
  shows "\<exists>u v. handleWebUI quote True (Some html) files r s = Some (u @ quote (sv_token s) @ v)" "handleDiscovery r s = None"
proof -
  obtain u v where "injectBeforeHead html (''<script>window.__VIRTA_DISCOVERY__={addr:'' @ [CHR 0x22, CHR 0x22] @ '',token:''
      @ quote (sv_token s) @ ''};</script>'') = u @ (''<script>window.__VIRTA_DISCOVERY__={addr:'' @ [CHR 0x22, CHR 0x22] @ '',token:''
      @ quote (sv_token s) @ ''};</script>'') @ v"
    using injected_contains by blast
  then have "handleWebUI quote True (Some html) files r s =
      Some ((u @ ''<script>window.__VIRTA_DISCOVERY__={addr:'' @ [CHR 0x22, CHR 0x22] @ '',token:'')
        @ quote (sv_token s) @ (''};</script>'' @ v))"
    using assms(1) by (simp add: handleWebUI_def serveInjectedHTML_def)
  then show "\<exists>u v. handleWebUI quote True (Some html) files r s = Some (u @ quote (sv_token s) @ v)" by blast
  show "handleDiscovery r s = None" using assms(2) by (simp add: handleDiscovery_def)
qed

end
