(* ===== verification/Plugins.thy ===== *)
theory Plugins
  imports Go_Values
begin

text \<open>
  Plugins: the manifest and its validation (\<^verbatim>\<open>internal/plugin/host/manifest.go\<close>), the registry that
  installs, enables, disables and removes them (\<^verbatim>\<open>registry.go\<close>), the file their records are kept in
  (\<^verbatim>\<open>filestore.go\<close>), and the bridge that makes their HTTP requests (\<^verbatim>\<open>internal/app/plugin_control.go\<close>). JSON is
  an argument. \<open>ok\<close> says whether the file operations of a call succeed. The lemmas show what a restart
  brings back and what a plugin can reach over HTTP.
\<close>

subsection \<open>Manifests\<close>

type_synonym plugin_scope = string

abbreviation scope_http :: plugin_scope where "scope_http \<equiv> ''http''"

record Manifest =
  mf_ID :: string
  mf_Name :: string
  mf_Version :: string
  mf_Scopes :: "plugin_scope list"
  mf_HTTPEndpoints :: "string list"
  mf_DataSources :: "string list"
  mf_BuiltIn :: bool

text \<open>The regular expression \<^verbatim>\<open>validID\<close>: a run of lower-case letters and digits, then dotted parts that may hold hyphens.\<close>

definition id_char :: "char \<Rightarrow> bool" where
  "id_char c = (97 \<le> byte c \<and> byte c \<le> 122 \<or> is_digit c)"

definition validID :: "string \<Rightarrow> bool" where
  "validID s = (case split_on CHR ''.'' s of
     [] \<Rightarrow> False
   | p # ps \<Rightarrow> p \<noteq> [] \<and> list_all id_char p
       \<and> list_all (\<lambda>q. q \<noteq> [] \<and> id_char (hd q) \<and> list_all (\<lambda>c. id_char c \<or> c = CHR ''-'') q) ps)"

definition isLoopbackHTTP :: "string \<Rightarrow> bool" where
  "isLoopbackHTTP ep = (has_prefix ep ''http://localhost'' \<or> has_prefix ep ''http://127.0.0.1'')"

definition HasScope :: "Manifest \<Rightarrow> plugin_scope \<Rightarrow> bool" where
  "HasScope m s = list_ex (\<lambda>d. d = s) (mf_Scopes m)"

definition known_scopes :: "plugin_scope list" where
  "known_scopes = [''read'', ''events'', ''send'', ''moderate'', ''storage'', ''http'', ''ui'']"

datatype manifest_error = IdRequired | InvalidId | NameRequired | VersionRequired | UnknownScope | BadEndpoint | EndpointsWithoutScope

definition Validate :: "Manifest \<Rightarrow> manifest_error option" where
  "Validate m =
    (if mf_ID m = [] then Some IdRequired
     else if \<not> validID (mf_ID m) then Some InvalidId
     else if trim_space (mf_Name m) = [] then Some NameRequired
     else if mf_Version m = [] then Some VersionRequired
     else if list_ex (\<lambda>s. s \<notin> set known_scopes) (mf_Scopes m) then Some UnknownScope
     else if list_ex (\<lambda>ep. \<not> has_prefix ep ''https://'' \<and> \<not> isLoopbackHTTP ep) (mf_HTTPEndpoints m) then Some BadEndpoint
     else if length (mf_HTTPEndpoints m) > 0 \<and> \<not> HasScope m scope_http then Some EndpointsWithoutScope
     else None)"

definition ParseManifest :: "(string \<Rightarrow> Manifest option) \<Rightarrow> string \<Rightarrow> Manifest option" where
  "ParseManifest dec raw = (case dec raw of None \<Rightarrow> None
     | Some m \<Rightarrow> (case Validate m of Some _ \<Rightarrow> None | None \<Rightarrow> Some m))"

subsection \<open>The record file\<close>

datatype PluginState = StateEnabled | StateDisabled | StateError | StateInstalled

record PluginRecord =
  pr_ID :: string
  pr_ManifestRaw :: string
  pr_State :: PluginState
  pr_InstallDir :: string
  pr_Config :: string

text \<open>
  \<open>FileStore\<close>: a JSON object of records. A nil \<^verbatim>\<open>manifest\<close> is written as \<^verbatim>\<open>null\<close> and read back as these four bytes,
  \<^verbatim>\<open>config\<close> is left out when empty; the indentation of an embedded manifest is not modelled.
\<close>

definition on_disk :: "PluginRecord \<Rightarrow> PluginRecord" where
  "on_disk r = (if pr_ManifestRaw r = [] then r\<lparr>pr_ManifestRaw := ''null''\<rparr> else r)"

type_synonym plugin_file = "(string \<times> PluginRecord) list"

definition fs_List :: "bool \<Rightarrow> plugin_file \<Rightarrow> PluginRecord list option" where
  "fs_List ok f = (if ok then Some (map snd f) else None)"

definition fs_Save :: "bool \<Rightarrow> PluginRecord \<Rightarrow> plugin_file \<Rightarrow> bool \<times> plugin_file" where
  "fs_Save ok r f = (if pr_ID r = [] \<or> \<not> ok then (False, f) else (True, AList.update (pr_ID r) (on_disk r) f))"

definition fs_Delete :: "bool \<Rightarrow> string \<Rightarrow> plugin_file \<Rightarrow> bool \<times> plugin_file" where
  "fs_Delete ok i f = (if \<not> ok then (False, f) else (True, AList.delete i f))"

subsection \<open>The registry\<close>

record Entry =
  en_Manifest :: Manifest
  en_State :: PluginState
  en_InstallDir :: string
  en_Config :: string
  en_running :: bool

record Registry =
  rg_entries :: "(string \<times> Entry) list"
  rg_file :: plugin_file
  rg_unregistered :: "string list"

text \<open>\<open>en_running\<close> is a cancel function that has not been called; \<open>rg_unregistered\<close> are the calls of \<^verbatim>\<open>UnregisterAll\<close>.\<close>

datatype registry_error = Invalid manifest_error | AlreadyRegistered | BuiltInKept | NotFound | NeedsHTTPScope | MarshalFailed | StoreFailed

abbreviation lookup_entry :: "string \<Rightarrow> Registry \<Rightarrow> Entry option" where
  "lookup_entry i r \<equiv> map_of (rg_entries r) i"

definition set_entry :: "string \<Rightarrow> Entry \<Rightarrow> Registry \<Rightarrow> Registry" where
  "set_entry i e r = r\<lparr>rg_entries := AList.update i e (rg_entries r)\<rparr>"

definition new_entry :: "Manifest \<Rightarrow> string \<Rightarrow> string \<Rightarrow> Entry" where
  "new_entry m dir cfg = \<lparr>en_Manifest = m, en_State = StateInstalled, en_InstallDir = dir, en_Config = cfg, en_running = False\<rparr>"

definition RegisterBuiltIn :: "Manifest \<Rightarrow> Registry \<Rightarrow> registry_error option \<times> Registry" where
  "RegisterBuiltIn m r = (case Validate m of Some e \<Rightarrow> (Some (Invalid e), r)
     | None \<Rightarrow> if lookup_entry (mf_ID m) r \<noteq> None then (Some AlreadyRegistered, r)
         else (None, set_entry (mf_ID m) (new_entry (m\<lparr>mf_BuiltIn := True\<rparr>) [] []) r))"

definition persist :: "(Manifest \<Rightarrow> string option) \<Rightarrow> bool \<Rightarrow> string \<Rightarrow> Registry \<Rightarrow> registry_error option \<times> Registry" where
  "persist enc ok i r = (case lookup_entry i r of
     None \<Rightarrow> (Some NotFound, r)
   | Some e \<Rightarrow>
       let rec = \<lparr>pr_ID = i, pr_ManifestRaw = [], pr_State = en_State e, pr_InstallDir = en_InstallDir e, pr_Config = en_Config e\<rparr>;
           save = (\<lambda>rec. case fs_Save ok rec (rg_file r) of (saved, f) \<Rightarrow>
             (if saved then None else Some StoreFailed, r\<lparr>rg_file := f\<rparr>))
       in if mf_BuiltIn (en_Manifest e) then save rec
          else (case enc (en_Manifest e) of
              None \<Rightarrow> (Some MarshalFailed, r)
            | Some raw \<Rightarrow> save (rec\<lparr>pr_ManifestRaw := raw\<rparr>)))"

definition RegisterRemote :: "(Manifest \<Rightarrow> string option) \<Rightarrow> bool \<Rightarrow> Manifest \<Rightarrow> string \<Rightarrow> Registry \<Rightarrow> registry_error option \<times> Registry" where
  "RegisterRemote enc ok m dir r = (case Validate m of Some e \<Rightarrow> (Some (Invalid e), r)
     | None \<Rightarrow>
         let m = m\<lparr>mf_BuiltIn := False\<rparr>
         in (case lookup_entry (mf_ID m) r of
             Some prev \<Rightarrow> if mf_BuiltIn (en_Manifest prev) then (Some BuiltInKept, r)
               else persist enc ok (mf_ID m) (set_entry (mf_ID m) (new_entry m dir (en_Config prev)) r)
           | None \<Rightarrow> persist enc ok (mf_ID m) (set_entry (mf_ID m) (new_entry m dir []) r)))"

definition GetConfig :: "string \<Rightarrow> Registry \<Rightarrow> string option" where
  "GetConfig i r = map_option en_Config (lookup_entry i r)"

definition SetConfig :: "(Manifest \<Rightarrow> string option) \<Rightarrow> bool \<Rightarrow> string \<Rightarrow> string \<Rightarrow> Registry \<Rightarrow> registry_error option \<times> Registry" where
  "SetConfig enc ok i cfg r = (case lookup_entry i r of
     None \<Rightarrow> (Some NotFound, r)
   | Some e \<Rightarrow> persist enc ok i (set_entry i (e\<lparr>en_Config := cfg\<rparr>) r))"

definition Enable :: "(Manifest \<Rightarrow> string option) \<Rightarrow> bool \<Rightarrow> string \<Rightarrow> Registry \<Rightarrow> registry_error option \<times> Registry" where
  "Enable enc ok i r = (case lookup_entry i r of
     None \<Rightarrow> (Some NotFound, r)
   | Some e \<Rightarrow>
       if en_State e = StateEnabled then (None, r)
       else if length (mf_DataSources (en_Manifest e)) > 0 \<and> \<not> HasScope (en_Manifest e) scope_http
         then (Some NeedsHTTPScope, set_entry i (e\<lparr>en_State := StateError\<rparr>) r)
       else let r = set_entry i (e\<lparr>en_State := StateEnabled, en_running := True\<rparr>) r
         in if mf_BuiltIn (en_Manifest e) then (None, r) else (None, snd (persist enc ok i r)))"

definition Disable :: "(Manifest \<Rightarrow> string option) \<Rightarrow> bool \<Rightarrow> string \<Rightarrow> Registry \<Rightarrow> registry_error option \<times> Registry" where
  "Disable enc ok i r = (case lookup_entry i r of
     None \<Rightarrow> (Some NotFound, r)
   | Some e \<Rightarrow>
       let r = set_entry i (e\<lparr>en_State := StateDisabled, en_running := False\<rparr>) r;
           r = r\<lparr>rg_unregistered := rg_unregistered r @ [i]\<rparr>
       in (None, snd (persist enc ok i r)))"

definition Remove :: "bool \<Rightarrow> string \<Rightarrow> Registry \<Rightarrow> registry_error option \<times> Registry" where
  "Remove ok i r = (case lookup_entry i r of
     None \<Rightarrow> (Some NotFound, r)
   | Some e \<Rightarrow>
       if mf_BuiltIn (en_Manifest e) then (Some BuiltInKept, r)
       else case fs_Delete ok i (rg_file r) of (deleted, f) \<Rightarrow>
         (if deleted then None else Some StoreFailed,
          r\<lparr>rg_entries := AList.delete i (rg_entries r), rg_unregistered := rg_unregistered r @ [i], rg_file := f\<rparr>))"

definition reg_List :: "Registry \<Rightarrow> Entry list" where
  "reg_List r = map snd (rg_entries r)"

text \<open>\<^verbatim>\<open>Start\<close>: one record, then all records and the built-ins that are still only installed.\<close>

definition start_record :: "(Manifest \<Rightarrow> string option) \<Rightarrow> (string \<Rightarrow> Manifest option) \<Rightarrow> bool \<Rightarrow> PluginRecord \<Rightarrow> Registry \<Rightarrow> Registry" where
  "start_record enc dec ok rec r =
    (let enter = (\<lambda>r. if pr_State rec = StateDisabled
         then (case lookup_entry (pr_ID rec) r of None \<Rightarrow> r | Some e \<Rightarrow> set_entry (pr_ID rec) (e\<lparr>en_State := StateDisabled\<rparr>) r)
         else snd (Enable enc ok (pr_ID rec) r))
     in if length (pr_ManifestRaw rec) > 0 then
          (case ParseManifest dec (pr_ManifestRaw rec) of
             None \<Rightarrow> r
           | Some m \<Rightarrow> enter (if lookup_entry (pr_ID rec) r = None
               then set_entry (pr_ID rec) (new_entry (m\<lparr>mf_BuiltIn := False\<rparr>) (pr_InstallDir rec) (pr_Config rec)) r else r))
        else enter (case lookup_entry (pr_ID rec) r of
            None \<Rightarrow> r
          | Some e \<Rightarrow> if length (pr_Config rec) > 0 then set_entry (pr_ID rec) (e\<lparr>en_Config := pr_Config rec\<rparr>) r else r))"

definition reg_Start :: "(Manifest \<Rightarrow> string option) \<Rightarrow> (string \<Rightarrow> Manifest option) \<Rightarrow> bool \<Rightarrow> Registry \<Rightarrow> registry_error option \<times> Registry" where
  "reg_Start enc dec ok r = (case fs_List ok (rg_file r) of
     None \<Rightarrow> (Some StoreFailed, r)
   | Some records \<Rightarrow>
       let r = fold (start_record enc dec ok) records r;
           toStart = map fst (filter (\<lambda>(_, e). en_State e = StateInstalled) (rg_entries r))
       in (None, fold (\<lambda>i r. snd (Enable enc ok i r)) toStart r))"

definition newRegistry :: "plugin_file \<Rightarrow> Registry" where
  "newRegistry f = \<lparr>rg_entries = [], rg_file = f, rg_unregistered = []\<rparr>"

subsection \<open>The HTTP bridge\<close>

text \<open>\<open>strings_in\<close> gives the string values of the plugin's saved configuration, none if it is not a JSON object.\<close>

definition allowedPrefixes :: "(string \<Rightarrow> string list) \<Rightarrow> Entry \<Rightarrow> string list" where
  "allowedPrefixes strings_in e = mf_HTTPEndpoints (en_Manifest e) @
     (if length (en_Config e) > 0
      then filter (\<lambda>s. has_prefix s ''https://'' \<or> has_prefix s ''http://localhost'' \<or> has_prefix s ''http://127.0.0.1'') (strings_in (en_Config e))
      else [])"

definition urlAllowed :: "string \<Rightarrow> string list \<Rightarrow> bool" where
  "urlAllowed target allowed = list_ex (\<lambda>p. let p = trim_right {CHR ''/''} p
     in p \<noteq> [] \<and> (target = p \<or> has_prefix target (p @ ''/'') \<or> has_prefix target (p @ ''?''))) allowed"

record proxy_request =
  px_URL :: string
  px_Method :: string
  px_Headers :: "(string \<times> string) list"
  px_Body :: string

datatype proxy_error = UnknownPlugin | NotEnabled | NoHTTPScope | URLNotAllowed | MethodNotAllowed

definition to_upper :: "string \<Rightarrow> string" where
  "to_upper s = map (\<lambda>c. if 97 \<le> byte c \<and> byte c \<le> 122 then char_of (byte c - 32) else c) s"

text \<open>The request the bridge makes, or why it makes none; the user agent is added when the plugin sets none.\<close>

definition ProxyHTTP :: "(string \<Rightarrow> string list) \<Rightarrow> string \<Rightarrow> proxy_request \<Rightarrow> Registry \<Rightarrow> proxy_error + proxy_request" where
  "ProxyHTTP strings_in i req r = (case lookup_entry i r of
     None \<Rightarrow> Inl UnknownPlugin
   | Some e \<Rightarrow>
       if en_State e \<noteq> StateEnabled then Inl NotEnabled
       else if \<not> HasScope (en_Manifest e) scope_http then Inl NoHTTPScope
       else if \<not> urlAllowed (px_URL req) (allowedPrefixes strings_in e) then Inl URLNotAllowed
       else let method = to_upper (px_Method req); method = (if method = [] then ''GET'' else method)
         in if method \<noteq> ''GET'' \<and> method \<noteq> ''POST'' then Inl MethodNotAllowed
            else let hs = filter (\<lambda>(k, _). \<not> equal_fold k ''cookie'' \<and> \<not> equal_fold k ''host'') (px_Headers req);
                   hs = (if list_ex (\<lambda>(k, v). equal_fold k ''User-Agent'' \<and> v \<noteq> []) hs then hs
                     else filter (\<lambda>(k, _). \<not> equal_fold k ''User-Agent'') hs @ [(''User-Agent'', ''virta-plugin/'' @ i)])
              in Inr \<lparr>px_URL = px_URL req, px_Method = method, px_Headers = hs, px_Body = px_Body req\<rparr>)"

subsection \<open>What the bridge lets through\<close>

lemma Validate_ok:
  assumes "Validate m = None"
  shows "validID (mf_ID m)" "set (mf_Scopes m) \<subseteq> set known_scopes"
    "\<forall>ep \<in> set (mf_HTTPEndpoints m). has_prefix ep ''https://'' \<or> isLoopbackHTTP ep"
  using assms by (auto simp: Validate_def list_ex_iff split: if_splits)

lemma urlAllowed_iff: "urlAllowed target allowed \<longleftrightarrow> (\<exists>p \<in> set allowed. trim_right {CHR ''/''} p \<noteq> [] \<and>
    (\<exists>rest. target = trim_right {CHR ''/''} p @ rest \<and> (rest = [] \<or> hd rest = CHR ''/'' \<or> hd rest = CHR ''?'')))"
proof -
  have "(target = p \<or> has_prefix target (p @ ''/'') \<or> has_prefix target (p @ ''?'')) \<longleftrightarrow>
      (\<exists>rest. target = p @ rest \<and> (rest = [] \<or> hd rest = CHR ''/'' \<or> hd rest = CHR ''?''))" (is "_ \<longleftrightarrow> ?R") for p
  proof
    assume ?R
    then obtain rest where r: "target = p @ rest" "rest = [] \<or> hd rest = CHR ''/'' \<or> hd rest = CHR ''?''" by blast
    then show "target = p \<or> has_prefix target (p @ ''/'') \<or> has_prefix target (p @ ''?'')"
      by (cases rest) (auto simp: has_prefix_conv)
  qed (fastforce simp: has_prefix_conv prefix_def)
  then show ?thesis by (simp add: urlAllowed_def list_ex_iff Let_def)
qed


definition example_manifest :: Manifest where
  "example_manifest = \<lparr>mf_ID = ''com.x'', mf_Name = ''X'', mf_Version = ''1'', mf_Scopes = [scope_http],
     mf_HTTPEndpoints = [''https://api.x''], mf_DataSources = [], mf_BuiltIn = False\<rparr>"

definition open_manifest :: "string \<Rightarrow> Manifest" where
  "open_manifest ep = example_manifest\<lparr>mf_HTTPEndpoints := [ep]\<rparr>"


text \<open>The endpoint \<^verbatim>\<open>https://\<close> is valid and opens every https URL; a loopback endpoint is recognised by its prefix only.\<close>

lemma open_endpoint:
  "Validate (open_manifest ''https://'') = None" "urlAllowed (''https://'' @ host) [''https://'']"
  "Validate (open_manifest ''http://localhost.evil.example'') = None"
proof -
  have t: "trim_right {CHR ''/''} ''https://'' = ''https:''" by code_simp
  show "urlAllowed (''https://'' @ host) [''https://'']" by (simp add: urlAllowed_def t has_prefix_def)
qed code_simp+

subsection \<open>Restarting\<close>

declare map_of_eq_Some_iff [simp del]

text \<open>What enabling and starting do to the entry of the id concerned; no other entry changes.\<close>

definition enable_entry :: "Entry \<Rightarrow> Entry" where
  "enable_entry e = (if en_State e = StateEnabled then e
     else if length (mf_DataSources (en_Manifest e)) > 0 \<and> \<not> HasScope (en_Manifest e) scope_http then e\<lparr>en_State := StateError\<rparr>
     else e\<lparr>en_State := StateEnabled, en_running := True\<rparr>)"

lemma lookup_set_entry [simp]: "lookup_entry j (set_entry i e r) = (if j = i then Some e else lookup_entry j r)"
  by (simp add: set_entry_def)

lemma persist_entries [simp]: "rg_entries (snd (persist enc ok i r)) = rg_entries r"
  by (auto simp: persist_def Let_def split: option.splits prod.splits)

lemma lookup_Enable [simp]:
  "lookup_entry j (snd (Enable enc ok i r)) = (if j = i then map_option enable_entry (lookup_entry i r) else lookup_entry j r)"
  by (auto simp: Enable_def enable_entry_def Let_def split: option.splits)

definition start_entry :: "(string \<Rightarrow> Manifest option) \<Rightarrow> PluginRecord \<Rightarrow> Entry option \<Rightarrow> Entry option" where
  "start_entry dec rec old =
    (let enter = map_option (\<lambda>e. if pr_State rec = StateDisabled then e\<lparr>en_State := StateDisabled\<rparr> else enable_entry e)
     in if length (pr_ManifestRaw rec) > 0 then
          (case ParseManifest dec (pr_ManifestRaw rec) of
             None \<Rightarrow> old
           | Some m \<Rightarrow> enter (case old of None \<Rightarrow> Some (new_entry (m\<lparr>mf_BuiltIn := False\<rparr>) (pr_InstallDir rec) (pr_Config rec)) | Some e \<Rightarrow> Some e))
        else enter (map_option (\<lambda>e. if length (pr_Config rec) > 0 then e\<lparr>en_Config := pr_Config rec\<rparr> else e) old))"

lemma lookup_start_record:
  "lookup_entry j (start_record enc dec ok rec r) =
    (if j = pr_ID rec then start_entry dec rec (lookup_entry j r) else lookup_entry j r)"
  by (cases "ParseManifest dec (pr_ManifestRaw rec)"; cases "lookup_entry (pr_ID rec) r")
    (auto simp: start_record_def start_entry_def Let_def split: option.splits)

lemma set_entry_distinct [intro]: "keys_distinct (rg_entries r) \<Longrightarrow> keys_distinct (rg_entries (set_entry i e r))"
  by (simp add: set_entry_def)

lemma Enable_distinct: "keys_distinct (rg_entries r) \<Longrightarrow> keys_distinct (rg_entries (snd (Enable enc ok i r)))"
  by (auto simp: Enable_def Let_def split: option.splits intro: set_entry_distinct)

lemma start_record_distinct: "keys_distinct (rg_entries r) \<Longrightarrow> keys_distinct (rg_entries (start_record enc dec ok rec r))"
  by (auto simp: start_record_def Let_def intro!: set_entry_distinct Enable_distinct split: option.splits)

lemma lookup_start_records:
  "distinct (map pr_ID recs) \<Longrightarrow> lookup_entry i (fold (start_record enc dec ok) recs r) =
    (case find (\<lambda>rec. pr_ID rec = i) recs of None \<Rightarrow> lookup_entry i r | Some rec \<Rightarrow> start_entry dec rec (lookup_entry i r))"
proof (induction recs arbitrary: r)
  case (Cons rec recs)
  have "find (\<lambda>rec'. pr_ID rec' = pr_ID rec) recs = None"
    using Cons.prems by (auto simp: find_None_iff) (metis imageI)
  moreover have "lookup_entry i (fold (start_record enc dec ok) recs r') = (case find (\<lambda>rec. pr_ID rec = i) recs of
      None \<Rightarrow> lookup_entry i r' | Some rec \<Rightarrow> start_entry dec rec (lookup_entry i r'))" for r'
    using Cons.IH Cons.prems by simp
  ultimately show ?case
    by (cases "pr_ID rec = i"; cases "find (\<lambda>rec. pr_ID rec = i) recs") (simp_all add: lookup_start_record)
qed simp

lemma enable_manifest [simp]: "en_Manifest (enable_entry e) = en_Manifest e"
  by (simp add: enable_entry_def)

lemma enable_idem [simp]: "enable_entry (enable_entry e) = enable_entry e"
  by (simp add: enable_entry_def)

lemma lookup_enable_all:
  "lookup_entry i (fold (\<lambda>i r. snd (Enable enc ok i r)) is r) = (if i \<in> set is then map_option enable_entry (lookup_entry i r) else lookup_entry i r)"
  by (induction "is" arbitrary: r) (auto simp: option.map_comp comp_def)

lemma fold_distinct: "keys_distinct (rg_entries r) \<Longrightarrow> keys_distinct (rg_entries (fold (start_record enc dec ok) recs r))"
  by (induction recs arbitrary: r) (auto intro: start_record_distinct)

text \<open>The entry of an id after \<^verbatim>\<open>Start\<close>, from its record and its entry before.\<close>

lemma lookup_Start:
  assumes "keys_distinct (rg_entries r)" "distinct (map pr_ID (map snd (rg_file r)))"
  shows "lookup_entry i (snd (reg_Start enc dec True r)) =
    map_option (\<lambda>e. if en_State e = StateInstalled then enable_entry e else e)
      (case find (\<lambda>rec. pr_ID rec = i) (map snd (rg_file r)) of None \<Rightarrow> lookup_entry i r | Some rec \<Rightarrow> start_entry dec rec (lookup_entry i r))"
proof -
  let ?r = "fold (start_record enc dec True) (map snd (rg_file r)) r"
  have "keys_distinct (rg_entries ?r)" using assms(1) by (rule fold_distinct)
  then have "i \<in> set (map fst (filter (\<lambda>(_, e). en_State e = StateInstalled) (rg_entries ?r))) \<longleftrightarrow>
      (\<exists>e. lookup_entry i ?r = Some e \<and> en_State e = StateInstalled)"
    by (auto simp: image_iff map_of_eq_Some_iff)
  moreover have "lookup_entry i ?r = (case find (\<lambda>rec. pr_ID rec = i) (map snd (rg_file r)) of
      None \<Rightarrow> lookup_entry i r | Some rec \<Rightarrow> start_entry dec rec (lookup_entry i r))"
    by (rule lookup_start_records [OF assms(2)])
  moreover have "lookup_entry i (snd (reg_Start enc dec True r)) =
      map_option (\<lambda>e. if en_State e = StateInstalled then enable_entry e else e) (lookup_entry i ?r)"
    using calculation(1) by (cases "lookup_entry i ?r") (auto simp: reg_Start_def fs_List_def Let_def lookup_enable_all)
  ultimately show ?thesis by simp
qed

definition boot :: "Manifest list \<Rightarrow> plugin_file \<Rightarrow> Registry" where
  "boot bs f = fold (\<lambda>m r. snd (RegisterBuiltIn m r)) bs (newRegistry f)"

datatype plugin_op = PInstall Manifest string | PConfig string string | PEnable string | PDisable string | PRemove string

fun plugin_do :: "(Manifest \<Rightarrow> string option) \<Rightarrow> plugin_op \<Rightarrow> Registry \<Rightarrow> Registry" where
  "plugin_do enc (PInstall m dir) r = snd (RegisterRemote enc True m dir r)"
| "plugin_do enc (PConfig i cfg) r = snd (SetConfig enc True i cfg r)"
| "plugin_do enc (PEnable i) r = snd (Enable enc True i r)"
| "plugin_do enc (PDisable i) r = snd (Disable enc True i r)"
| "plugin_do enc (PRemove i) r = snd (Remove True i r)"

fun manifests_of :: "plugin_op \<Rightarrow> Manifest list" where
  "manifests_of (PInstall m dir) = [m\<lparr>mf_BuiltIn := False\<rparr>]"
| "manifests_of _ = []"

text \<open>The JSON codec on the manifests in play; \<^verbatim>\<open>null\<close> decodes to the zero manifest.\<close>

definition codec_ok :: "(Manifest \<Rightarrow> string option) \<Rightarrow> (string \<Rightarrow> Manifest option) \<Rightarrow> Manifest set \<Rightarrow> bool" where
  "codec_ok enc dec M \<longleftrightarrow>
     dec ''null'' = Some \<lparr>mf_ID = [], mf_Name = [], mf_Version = [], mf_Scopes = [], mf_HTTPEndpoints = [], mf_DataSources = [], mf_BuiltIn = False\<rparr>
     \<and> (\<forall>m \<in> M. \<exists>raw. enc m = Some raw \<and> raw \<noteq> [] \<and> raw \<noteq> ''null'' \<and> dec raw = Some m)"

definition recorded :: "(Manifest \<Rightarrow> string option) \<Rightarrow> Entry \<Rightarrow> PluginRecord option \<Rightarrow> bool" where
  "recorded enc e rec \<longleftrightarrow> (\<exists>p. rec = Some p \<and> enc (en_Manifest e) = Some (pr_ManifestRaw p) \<and> pr_InstallDir p = en_InstallDir e
     \<and> pr_Config p = en_Config e \<and> (en_State e \<noteq> StateError \<longrightarrow> (pr_State p = StateDisabled \<longleftrightarrow> en_State e = StateDisabled)))"

definition entry_ok :: "Manifest set \<Rightarrow> string \<Rightarrow> Entry \<Rightarrow> bool" where
  "entry_ok M i e \<longleftrightarrow> mf_ID (en_Manifest e) = i \<and> Validate (en_Manifest e) = None \<and> (\<not> mf_BuiltIn (en_Manifest e) \<longrightarrow> en_Manifest e \<in> M)"

definition kept_at :: "(Manifest \<Rightarrow> string option) \<Rightarrow> Manifest set \<Rightarrow> string \<Rightarrow> Entry option \<Rightarrow> PluginRecord option \<Rightarrow> bool" where
  "kept_at enc M i eo po \<longleftrightarrow>
     (\<forall>p. po = Some p \<longrightarrow> pr_ID p = i \<and> (\<exists>e. eo = Some e \<and> (mf_BuiltIn (en_Manifest e) \<longrightarrow> pr_ManifestRaw p = ''null'')))
     \<and> (\<forall>e. eo = Some e \<longrightarrow> entry_ok M i e \<and> (\<not> mf_BuiltIn (en_Manifest e) \<longrightarrow> recorded enc e po))"

definition kept :: "(Manifest \<Rightarrow> string option) \<Rightarrow> Manifest set \<Rightarrow> Registry \<Rightarrow> bool" where
  "kept enc M r \<longleftrightarrow> keys_distinct (rg_entries r) \<and> keys_distinct (rg_file r)
     \<and> (\<forall>i. kept_at enc M i (lookup_entry i r) (map_of (rg_file r) i))"

lemma Validate_id: "Validate m = None \<Longrightarrow> mf_ID m \<noteq> []"
  by (auto simp: Validate_def)

lemma Validate_BuiltIn [simp]: "Validate (m\<lparr>mf_BuiltIn := b\<rparr>) = Validate m"
  by (simp add: Validate_def HasScope_def)

lemma kept_cong [simp]: "kept enc M (r\<lparr>rg_unregistered := u\<rparr>) = kept enc M r"
  by (simp add: kept_def)

lemma set_entry_file [simp]: "rg_file (set_entry i e r) = rg_file r"
  by (simp add: set_entry_def)

lemma kept_set_persist:
  assumes "kept enc M r" "codec_ok enc dec M" "entry_ok M i e'"
    and "\<forall>e. lookup_entry i r = Some e \<longrightarrow> mf_BuiltIn (en_Manifest e) = mf_BuiltIn (en_Manifest e')"
  shows "kept enc M (snd (persist enc True i (set_entry i e' r)))"
proof -
  have i: "i \<noteq> []" using assms(3) Validate_id by (auto simp: entry_ok_def)
  let ?rec = "\<lparr>pr_ID = i, pr_ManifestRaw = [], pr_State = en_State e', pr_InstallDir = en_InstallDir e', pr_Config = en_Config e'\<rparr>"
  show ?thesis
  proof (cases "mf_BuiltIn (en_Manifest e')")
    case True
    then have "snd (persist enc True i (set_entry i e' r)) =
        (set_entry i e' r)\<lparr>rg_file := AList.update i (?rec\<lparr>pr_ManifestRaw := ''null''\<rparr>) (rg_file r)\<rparr>"
      using i by (simp add: persist_def fs_Save_def on_disk_def Let_def)
    moreover have "kept_at enc M i (Some e') (Some (?rec\<lparr>pr_ManifestRaw := ''null''\<rparr>))"
      using assms(3) True by (simp add: kept_at_def)
    ultimately show ?thesis using assms(1) by (simp add: kept_def set_entry_def)
  next
    case False
    then obtain raw where raw: "enc (en_Manifest e') = Some raw" "raw \<noteq> []"
      using assms(2,3) by (auto simp: codec_ok_def entry_ok_def)
    then have "snd (persist enc True i (set_entry i e' r)) =
        (set_entry i e' r)\<lparr>rg_file := AList.update i (?rec\<lparr>pr_ManifestRaw := raw\<rparr>) (rg_file r)\<rparr>"
      using i False by (simp add: persist_def fs_Save_def on_disk_def Let_def)
    moreover have "kept_at enc M i (Some e') (Some (?rec\<lparr>pr_ManifestRaw := raw\<rparr>))"
      using assms(3) False raw(1) by (simp add: kept_at_def recorded_def)
    ultimately show ?thesis using assms(1) by (simp add: kept_def set_entry_def)
  qed
qed

lemma kept_set:
  assumes "kept enc M r" "lookup_entry i r = Some e" "en_Manifest e' = en_Manifest e"
    and "mf_BuiltIn (en_Manifest e) \<or> en_State e' = StateError \<and> en_InstallDir e' = en_InstallDir e \<and> en_Config e' = en_Config e"
  shows "kept enc M (set_entry i e' r)"
proof -
  have "kept_at enc M i (Some e) (map_of (rg_file r) i)"
    using assms(1,2) by (metis kept_def)
  then have "kept_at enc M i (Some e') (map_of (rg_file r) i)"
    using assms(3,4) by (auto simp: kept_at_def entry_ok_def recorded_def)
  then show ?thesis using assms(1) by (auto simp: kept_def set_entry_def)
qed

lemma kept_entry: "kept enc M r \<Longrightarrow> lookup_entry i r = Some e \<Longrightarrow> entry_ok M i e"
  unfolding kept_def kept_at_def by blast

lemma kept_do:
  assumes "kept enc M r" "codec_ok enc dec M" "set (manifests_of op) \<subseteq> M"
  shows "kept enc M (plugin_do enc op r)"
proof (cases op)
  case (PInstall m dir)
  let ?m = "m\<lparr>mf_BuiltIn := False\<rparr>"
  have "entry_ok M (mf_ID m) (new_entry ?m dir cfg)" if "Validate m = None" for cfg
    using that assms(3) PInstall by (simp add: entry_ok_def new_entry_def)
  then show ?thesis using PInstall assms
    by (auto simp: RegisterRemote_def Let_def new_entry_def split: option.splits intro!: kept_set_persist)
next
  case (PConfig i cfg)
  then show ?thesis using assms kept_entry [OF assms(1)]
    by (auto simp: SetConfig_def entry_ok_def split: option.splits intro!: kept_set_persist)
next
  case (PEnable i)
  then show ?thesis using assms kept_entry [OF assms(1)]
    by (auto simp: Enable_def Let_def entry_ok_def split: option.splits intro!: kept_set_persist kept_set)
next
  case (PDisable i)
  have p: "persist enc True i (x\<lparr>rg_unregistered := u\<rparr>) = (fst (persist enc True i x), snd (persist enc True i x)\<lparr>rg_unregistered := u\<rparr>)" for x u
    by (auto simp: persist_def Let_def split: option.splits prod.splits)
  show ?thesis using PDisable assms kept_entry [OF assms(1)]
    by (auto simp: Disable_def Let_def entry_ok_def p split: option.splits intro!: kept_set_persist)
next
  case (PRemove i)
  then show ?thesis using assms
    by (auto simp: Remove_def fs_Delete_def kept_def kept_at_def [of _ _ _ None None] split: option.splits)
qed

lemma boot_frame: "rg_file (boot bs f) = f \<and> rg_entries (boot bs f) = rg_entries (boot bs [])"
proof -
  have "rg_file (fold (\<lambda>m r. snd (RegisterBuiltIn m r)) bs r) = rg_file r \<and>
      rg_entries (fold (\<lambda>m r. snd (RegisterBuiltIn m r)) bs r) = rg_entries (fold (\<lambda>m r. snd (RegisterBuiltIn m r)) bs r')"
    if "rg_entries r = rg_entries r'" for r r'
    using that
  proof (induction bs arbitrary: r r')
    case (Cons m bs)
    have "rg_entries (snd (RegisterBuiltIn m r)) = rg_entries (snd (RegisterBuiltIn m r'))"
      using Cons.prems by (auto simp: RegisterBuiltIn_def set_entry_def split: option.splits)
    moreover have "rg_file (snd (RegisterBuiltIn m r)) = rg_file r"
      by (auto simp: RegisterBuiltIn_def set_entry_def split: option.splits)
    ultimately show ?case using Cons.IH [of "snd (RegisterBuiltIn m r)" "snd (RegisterBuiltIn m r')"] by simp
  qed simp
  from this [of "newRegistry f" "newRegistry []"] show ?thesis by (simp add: boot_def newRegistry_def)
qed

definition booted :: "(Manifest \<Rightarrow> string option) \<Rightarrow> Manifest set \<Rightarrow> Registry \<Rightarrow> bool" where
  "booted enc M r \<longleftrightarrow> kept enc M r \<and> rg_file r = [] \<and> (\<forall>i e. lookup_entry i r = Some e \<longrightarrow>
     mf_BuiltIn (en_Manifest e) \<and> en_State e = StateInstalled \<and> en_Config e = [])"

lemma booted_step:
  assumes "booted enc M r"
  shows "booted enc M (snd (RegisterBuiltIn m r))"
proof (cases "Validate m = None \<and> lookup_entry (mf_ID m) r = None")
  case True
  then have "snd (RegisterBuiltIn m r) = set_entry (mf_ID m) (new_entry (m\<lparr>mf_BuiltIn := True\<rparr>) [] []) r"
    by (simp add: RegisterBuiltIn_def)
  moreover have "kept_at enc M (mf_ID m) (Some (new_entry (m\<lparr>mf_BuiltIn := True\<rparr>) [] [])) None"
    using True by (simp add: kept_at_def entry_ok_def new_entry_def)
  moreover have "kept_at enc M i (lookup_entry i r) None" for i
    using assms unfolding booted_def kept_def by (metis map_of.simps(1))
  ultimately show ?thesis using assms by (simp add: booted_def kept_def set_entry_def) (simp add: new_entry_def)
next
  case False
  then have "snd (RegisterBuiltIn m r) = r" by (auto simp: RegisterBuiltIn_def split: option.splits)
  then show ?thesis using assms by simp
qed

lemma boot_booted: "booted enc M (boot bs [])"
  unfolding boot_def
proof (rule fold_invariant [where Q = "\<lambda>_. True"])
  show "booted enc M (newRegistry [])" by (simp add: booted_def newRegistry_def kept_def kept_at_def)
qed (simp, rule booted_step)

lemma boot_kept:
  "kept enc M (boot bs [])"
  "lookup_entry i (boot bs []) = Some e \<Longrightarrow> mf_BuiltIn (en_Manifest e) \<and> en_State e = StateInstalled \<and> en_Config e = []"
  using boot_booted [of enc M bs] by (simp_all add: booted_def)

definition builtin_at :: "Registry \<Rightarrow> string \<Rightarrow> bool" where
  "builtin_at r i \<longleftrightarrow> (\<exists>e. lookup_entry i r = Some e \<and> mf_BuiltIn (en_Manifest e))"

lemma builtin_set: "builtin_at (set_entry i e r) j = (if j = i then mf_BuiltIn (en_Manifest e) else builtin_at r j)"
  by (simp add: builtin_at_def)

lemma builtin_persist [simp]: "builtin_at (snd (persist enc ok i r)) j = builtin_at r j"
  by (simp add: builtin_at_def)

lemma builtin_cong [simp]: "builtin_at (r\<lparr>rg_unregistered := u\<rparr>) j = builtin_at r j"
  by (simp add: builtin_at_def)

lemma builtin_lookup: "lookup_entry i r = Some e \<Longrightarrow> builtin_at r i = mf_BuiltIn (en_Manifest e)"
  "lookup_entry i r = None \<Longrightarrow> \<not> builtin_at r i"
  by (simp_all add: builtin_at_def)

lemma builtin_do: "builtin_at (plugin_do enc op r) i = builtin_at r i"
proof (cases op)
  case (PInstall m dir)
  then show ?thesis
    by (cases "lookup_entry (mf_ID m) r")
      (auto simp: RegisterRemote_def new_entry_def Let_def builtin_set builtin_lookup split: option.splits)
next
  case (PConfig j cfg)
  then show ?thesis by (cases "lookup_entry j r") (simp_all add: SetConfig_def builtin_set builtin_lookup)
next
  case (PEnable j)
  then show ?thesis by (cases "lookup_entry j r") (simp_all add: Enable_def Let_def builtin_set builtin_lookup)
next
  case (PDisable j)
  then show ?thesis by (cases "lookup_entry j r") (simp_all add: Disable_def Let_def builtin_set builtin_lookup)
next
  case (PRemove j)
  then show ?thesis by (cases "lookup_entry j r") (auto simp: Remove_def fs_Delete_def builtin_at_def)
qed

lemma find_record:
  "\<forall>k p. (k, p) \<in> set f \<longrightarrow> pr_ID p = k \<Longrightarrow> find (\<lambda>rec. pr_ID rec = i) (map snd f) = map_of f i"
proof (induction f)
  case (Cons x f)
  have "find (\<lambda>rec. pr_ID rec = i) (map snd f) = map_of f i" by (rule Cons.IH) (use Cons.prems in simp)
  moreover have "pr_ID (snd x) = fst x" using Cons.prems by (metis list.set_intros(1) prod.collapse)
  ultimately show ?case by simp
qed simp

lemma kept_file: "kept enc M r \<Longrightarrow> (k, p) \<in> set (rg_file r) \<Longrightarrow> pr_ID p = k"
  by (metis kept_def kept_at_def map_of_is_SomeI)

lemma kept_run:
  "kept enc M r \<Longrightarrow> codec_ok enc dec M \<Longrightarrow> set (concat (map manifests_of ops)) \<subseteq> M \<Longrightarrow> kept enc M (fold (plugin_do enc) ops r)"
  by (induction ops arbitrary: r) (auto intro: kept_do)

lemma builtin_run: "builtin_at (fold (plugin_do enc) ops r) i = builtin_at r i"
  by (induction ops arbitrary: r) (simp_all add: builtin_do)

lemma null_record: "codec_ok enc dec M \<Longrightarrow> pr_ManifestRaw p = ''null'' \<Longrightarrow> start_entry dec p old = old"
  by (simp add: start_entry_def ParseManifest_def codec_ok_def Validate_def)

text \<open>The entry a record of a remote plugin brings back.\<close>

lemma remote_record:
  assumes "codec_ok enc dec M" "entry_ok M i e" "\<not> mf_BuiltIn (en_Manifest e)" "recorded enc e (Some p)"
  shows "\<exists>e'. start_entry dec p None = Some e' \<and> en_Manifest e' = en_Manifest e \<and> en_InstallDir e' = en_InstallDir e
    \<and> en_Config e' = en_Config e \<and> en_State e' \<noteq> StateInstalled
    \<and> (en_State e \<noteq> StateError \<longrightarrow> (en_State e' = StateDisabled \<longleftrightarrow> en_State e = StateDisabled))"
proof -
  let ?m = "en_Manifest e"
  have m: "?m\<lparr>mf_BuiltIn := False\<rparr> = ?m" using assms(3) by (cases ?m) simp
  obtain raw where raw: "enc ?m = Some raw" "raw \<noteq> []" "dec raw = Some ?m"
    using assms(1,2,3) by (auto simp: codec_ok_def entry_ok_def)
  then have p: "pr_ManifestRaw p = raw" "pr_InstallDir p = en_InstallDir e" "pr_Config p = en_Config e"
    "en_State e \<noteq> StateError \<longrightarrow> (pr_State p = StateDisabled \<longleftrightarrow> en_State e = StateDisabled)"
    using assms(4) by (simp_all add: recorded_def)
  have "ParseManifest dec raw = Some ?m" using raw(3) assms(2) by (simp add: ParseManifest_def entry_ok_def)
  then show ?thesis using raw(2) p m
    by (simp add: start_entry_def enable_entry_def new_entry_def)
qed

lemma restart_lookup:
  assumes "kept enc M r" "r' = snd (reg_Start enc dec True (boot bs (rg_file r)))"
  shows "lookup_entry i r' =
      map_option (\<lambda>e. if en_State e = StateInstalled then enable_entry e else e)
        (case map_of (rg_file r) i of None \<Rightarrow> lookup_entry i (boot bs []) | Some p \<Rightarrow> start_entry dec p (lookup_entry i (boot bs [])))"
proof -
  let ?r0 = "boot bs (rg_file r)"
  have r0: "rg_file ?r0 = rg_file r" "\<And>i. lookup_entry i ?r0 = lookup_entry i (boot bs [])" "keys_distinct (rg_entries ?r0)"
    using boot_frame [of bs "rg_file r"] boot_kept(1) [of enc M bs] by (simp_all add: kept_def)
  have keys: "\<forall>k p. (k, p) \<in> set (rg_file r) \<longrightarrow> pr_ID p = k" using kept_file [OF assms(1)] by blast
  then have "map pr_ID (map snd (rg_file ?r0)) = map fst (rg_file r)" using r0(1) by auto
  then have "distinct (map pr_ID (map snd (rg_file ?r0)))" using assms(1) by (metis kept_def)
  from lookup_Start [OF r0(3) this] show ?thesis
    using assms(2) r0(1,2) find_record [OF keys] by (simp cong: option.case_cong)
qed

text \<open>A built-in plugin, and any other one, after the restart.\<close>

lemma restart_builtin:
  assumes "codec_ok enc dec M" "kept enc M r" "r' = snd (reg_Start enc dec True (boot bs (rg_file r)))"
    and "builtin_at r i = builtin_at (boot bs []) i" "lookup_entry i (boot bs []) = Some b"
  shows "lookup_entry i r' = Some (enable_entry b) \<and> builtin_at r i \<and> en_Config b = [] \<and> en_State b = StateInstalled"
proof -
  have at: "kept_at enc M i (lookup_entry i r) (map_of (rg_file r) i)" using assms(2) by (simp add: kept_def)
  have b: "builtin_at r i" "en_State b = StateInstalled" "en_Config b = []"
    using assms(4,5) boot_kept(2) [OF assms(5)] by (auto simp: builtin_at_def)
  then have "map_of (rg_file r) i = Some p \<Longrightarrow> pr_ManifestRaw p = ''null''" for p
    using at by (auto simp: kept_at_def builtin_at_def)
  then show ?thesis
    using b assms(5) restart_lookup [OF assms(2,3), of i] null_record [OF assms(1)] by (auto split: option.splits)
qed

lemma restart_remote:
  assumes "codec_ok enc dec M" "kept enc M r" "r' = snd (reg_Start enc dec True (boot bs (rg_file r)))"
    and "builtin_at r i = builtin_at (boot bs []) i" "lookup_entry i (boot bs []) = None"
  shows "\<not> builtin_at r i \<and> (case lookup_entry i r of None \<Rightarrow> lookup_entry i r' = None
      | Some e \<Rightarrow> \<exists>e'. lookup_entry i r' = Some e' \<and> en_Manifest e' = en_Manifest e \<and> en_InstallDir e' = en_InstallDir e
          \<and> en_Config e' = en_Config e \<and> en_State e' \<noteq> StateInstalled
          \<and> (en_State e \<noteq> StateError \<longrightarrow> (en_State e' = StateDisabled \<longleftrightarrow> en_State e = StateDisabled)))"
proof -
  have at: "kept_at enc M i (lookup_entry i r) (map_of (rg_file r) i)" using assms(2) by (simp add: kept_def)
  note look = restart_lookup [OF assms(2,3), of i]
  have nb: "\<not> builtin_at r i" using assms(4,5) by (simp add: builtin_at_def)
  show ?thesis
  proof (cases "lookup_entry i r")
    case None
    then have "map_of (rg_file r) i = None" using at by (cases "map_of (rg_file r) i") (auto simp: kept_at_def)
    then show ?thesis using None nb assms(5) look by simp
  next
    case (Some e)
    then have e: "\<not> mf_BuiltIn (en_Manifest e)" "entry_ok M i e" "recorded enc e (map_of (rg_file r) i)"
      using nb at by (auto simp: builtin_at_def kept_at_def)
    then obtain p where p: "map_of (rg_file r) i = Some p" "recorded enc e (Some p)" by (auto simp: recorded_def)
    show ?thesis using remote_record [OF assms(1) e(2,1) p(2)] Some nb assms(5) look p(1) by auto
  qed
qed



end
