(* ===== verification/Plugin_Hooks.thy ===== *)
theory Plugin_Hooks
  imports Plugins
begin

text \<open>
  The alert hooks and test signals of plugins (\<^verbatim>\<open>internal/api/plugin_hook.go, plugin_signal.go\<close>): a ring of the
  last 100 events per plugin that overlays poll, and the latest test signal. The hook endpoint is
  public; what guards it is the secret in the plugin's configuration.
\<close>

abbreviation hookRingCap :: nat where "hookRingCap \<equiv> 100"

record hookEvent =
  he_Name :: string
  he_Payload :: string
  he_Ts :: int

type_synonym hookStore = "string \<Rightarrow> hookEvent list"

definition append_ring :: "hookEvent \<Rightarrow> hookEvent list \<Rightarrow> hookEvent list" where
  "append_ring e ring = (let ring = ring @ [e] in if length ring > hookRingCap then drop (length ring - hookRingCap) ring else ring)"

definition hook_push :: "time \<Rightarrow> string \<Rightarrow> string \<Rightarrow> string \<Rightarrow> hookStore \<Rightarrow> hookStore" where
  "hook_push now i name payload s = s(i := append_ring \<lparr>he_Name = name, he_Payload = payload, he_Ts = unix_milli now\<rparr> (s i))"

definition hook_since :: "string \<Rightarrow> int \<Rightarrow> hookStore \<Rightarrow> hookEvent list" where
  "hook_since i afterMs s = filter (\<lambda>e. he_Ts e > afterMs) (s i)"

text \<open>The regular expression \<^verbatim>\<open>validHookName\<close>.\<close>

definition validHookName :: "string \<Rightarrow> bool" where
  "validHookName s = (s \<noteq> [] \<and> id_char (hd s) \<and> list_all (\<lambda>c. id_char c \<or> c = CHR ''-'') s \<and> length s \<le> 64)"

subsection \<open>The endpoints\<close>

text \<open>
  \<open>plugins\<close> is the registry, None when the plugin system is missing; \<open>secret_in\<close> decodes a configuration: None if it
  is malformed, else its \<^verbatim>\<open>webhookSecret\<close> or the empty string; \<open>body\<close> is the request body, None if it cannot be read or is
  too long; \<open>valid\<close> is \<^verbatim>\<open>json.Valid\<close>. The result is the status code.
\<close>

definition handlePluginHookPost :: "(string \<Rightarrow> string option) \<Rightarrow> (string \<Rightarrow> bool) \<Rightarrow> time \<Rightarrow> string \<Rightarrow> string \<Rightarrow> string \<Rightarrow> string \<Rightarrow>
    string option \<Rightarrow> Registry option \<Rightarrow> hookStore \<Rightarrow> int \<times> hookStore" where
  "handlePluginHookPost secret_in valid now method i rawName secret body plugins s =
    (let name = to_lower rawName
     in if method \<noteq> ''POST'' then (405, s)
        else if \<not> validHookName name then (400, s)
        else if secret = [] then (401, s)
        else (case plugins of
            None \<Rightarrow> (503, s)
          | Some r \<Rightarrow> (case GetConfig i r of
              None \<Rightarrow> (404, s)
            | Some cfg \<Rightarrow>
                if length cfg = 0 then (404, s)
                else (case secret_in cfg of
                    None \<Rightarrow> (500, s)
                  | Some known \<Rightarrow>
                      if known = [] \<or> secret \<noteq> known then (401, s)
                      else (case body of
                          None \<Rightarrow> (400, s)
                        | Some b \<Rightarrow>
                            let b = (if length b = 0 then ''{}'' else b)
                            in if \<not> valid b then (400, s) else (204, hook_push now i name b s))))))"

text \<open>\<open>cursor\<close> is the parsed \<^verbatim>\<open>since\<close> parameter; no events is the status 204.\<close>

definition handlePluginHookEvents :: "string \<Rightarrow> int option \<Rightarrow> hookStore \<Rightarrow> hookEvent list option" where
  "handlePluginHookEvents i cursor s =
    (let events = hook_since i (case cursor of None \<Rightarrow> 0 | Some ms \<Rightarrow> ms) s
     in if length events = 0 then None else Some events)"

type_synonym signalRelay = "string \<Rightarrow> (string \<times> time) option"

definition signal_store :: "time \<Rightarrow> string \<Rightarrow> string \<Rightarrow> signalRelay \<Rightarrow> signalRelay" where
  "signal_store now i payload s = s(i \<mapsto> (payload, now))"

text \<open>The answer wraps the payload with the millisecond of its time, the poller's next cursor.\<close>

definition signal_since :: "string \<Rightarrow> time \<Rightarrow> signalRelay \<Rightarrow> (int \<times> string) option" where
  "signal_since i after s = (case s i of
     None \<Rightarrow> None
   | Some (payload, ts) \<Rightarrow> if \<not> ts > after then None else Some (unix_milli ts, payload))"

definition handlePluginSignalPost :: "(string \<Rightarrow> bool) \<Rightarrow> time \<Rightarrow> string \<Rightarrow> string option \<Rightarrow> signalRelay \<Rightarrow> int \<times> signalRelay" where
  "handlePluginSignalPost valid now i body s =
    (if i = [] then (400, s)
     else (case body of
         None \<Rightarrow> (400, s)
       | Some b \<Rightarrow> if length b = 0 then (400, s) else if \<not> valid b then (400, s) else (204, signal_store now i b s)))"

definition handlePluginSignalGet :: "string \<Rightarrow> int option \<Rightarrow> signalRelay \<Rightarrow> (int \<times> string) option" where
  "handlePluginSignalGet i cursor s =
    (if i = [] then None
     else signal_since i (case cursor of None \<Rightarrow> zero_time | Some ms \<Rightarrow> ms * millisecond) s)"

subsection \<open>Polling\<close>

interpretation hook_ring: drop_oldest append_ring "\<lambda>l. l" hookRingCap "\<lambda>l. length l \<le> hookRingCap"
  by unfold_locales (auto simp: append_ring_def Let_def last_n_def)

text \<open>The posts to one hook endpoint, and the events they are meant to store.\<close>

record hook_post =
  hp_now :: time
  hp_method :: string
  hp_plugin :: string
  hp_name :: string
  hp_secret :: string
  hp_body :: "string option"

definition post_hook :: "(string \<Rightarrow> string option) \<Rightarrow> (string \<Rightarrow> bool) \<Rightarrow> Registry \<Rightarrow> hook_post \<Rightarrow> hookStore \<Rightarrow> hookStore" where
  "post_hook secret_in valid r p s =
    snd (handlePluginHookPost secret_in valid (hp_now p) (hp_method p) (hp_plugin p) (hp_name p) (hp_secret p) (hp_body p) (Some r) s)"

definition authentic :: "(string \<Rightarrow> string option) \<Rightarrow> Registry \<Rightarrow> hook_post \<Rightarrow> bool" where
  "authentic secret_in r p \<longleftrightarrow> hp_secret p \<noteq> [] \<and>
     (\<exists>cfg. GetConfig (hp_plugin p) r = Some cfg \<and> cfg \<noteq> [] \<and> secret_in cfg = Some (hp_secret p))"

definition well_formed :: "(string \<Rightarrow> bool) \<Rightarrow> hook_post \<Rightarrow> bool" where
  "well_formed valid p \<longleftrightarrow> hp_method p = ''POST'' \<and> validHookName (to_lower (hp_name p)) \<and>
     (\<exists>b. hp_body p = Some b \<and> valid (if b = [] then ''{}'' else b))"

definition hook_event :: "hook_post \<Rightarrow> hookEvent" where
  "hook_event p = \<lparr>he_Name = to_lower (hp_name p), he_Payload = (case hp_body p of None \<Rightarrow> [] | Some b \<Rightarrow> if b = [] then ''{}'' else b),
     he_Ts = unix_milli (hp_now p)\<rparr>"

lemma post_hook_eq:
  "post_hook secret_in valid r p s = (if authentic secret_in r p \<and> well_formed valid p
     then s(hp_plugin p := append_ring (hook_event p) (s (hp_plugin p))) else s)"
  by (auto simp: post_hook_def handlePluginHookPost_def authentic_def well_formed_def hook_push_def hook_event_def Let_def
      split: option.splits)

text \<open>
  The public hook endpoint: whatever requests arrive, a plugin's ring holds the last 100 of the
  well-formed ones that carry its own webhook secret, in order and with their payloads, and a poll gets exactly those
  of them that are later than its cursor; a request without the secret, for whichever plugin, leaves every ring
  as it is.
\<close>

theorem hooks_authentic:
  "hook_since i after (fold (post_hook secret_in valid r) ps (\<lambda>_. [])) =
    filter (\<lambda>e. he_Ts e > after)
      (last_n 100 (map hook_event (filter (\<lambda>p. hp_plugin p = i \<and> authentic secret_in r p \<and> well_formed valid p) ps)))"
proof -
  let ?mine = "\<lambda>p. hp_plugin p = i \<and> authentic secret_in r p \<and> well_formed valid p"
  have "fold (post_hook secret_in valid r) ps s i = fold append_ring (map hook_event (filter ?mine ps)) (s i)" for s
    by (induction ps arbitrary: s) (auto simp: post_hook_eq)
  then show ?thesis using hook_ring.contents_pushes [of "[]"] by (simp add: hook_since_def)
qed

text \<open>
  A test signal is delivered again at every poll: the cursor the answer carries is cut to the millisecond and
  the comparison is not. A hook event stored in the millisecond of the cursor is never delivered.
\<close>

lemma signal_repeats:
  assumes "ts mod millisecond \<noteq> 0" "i \<noteq> []" "s i = Some (payload, ts)"
  shows "handlePluginSignalGet i (Some (unix_milli ts)) s = Some (unix_milli ts, payload)"
proof -
  have m: "ts mod 1000000 \<noteq> 0" using assms(1) by (simp add: millisecond_def)
  have "0 \<le> ts mod 1000000" "ts div 1000000 * 1000000 + ts mod 1000000 = ts" by simp_all
  with m have "ts div 1000000 * 1000000 < ts" by linarith
  then show ?thesis using assms(2,3) by (simp add: handlePluginSignalGet_def signal_since_def unix_milli_def millisecond_def)
qed

lemma hook_event_missed:
  "he_Ts e = he_Ts e' \<Longrightarrow> e' \<notin> set (hook_since i (he_Ts e) s)"
  by (simp add: hook_since_def)

end
