(* ===== verification/Llm_Meter.thy ===== *)
theory Llm_Meter
  imports Go_Encoding Virta_Prelude
begin

text \<open>
  \<^verbatim>\<open>internal/llm/meter.go\<close> and \<^verbatim>\<open>registry.go\<close>: the meter every language-model call is meant to pass, with its kill switch,
  feature toggles, budgets and usage records, over the registry that routes a model to a provider. Costs are
  float64 sums rounded at every operation. The calendar (midnight, the first of the month, three months
  back) and the providers' answers are arguments; a call that reaches a provider is logged in \<open>mt_sent\<close> with the
  meter's state at its admission.
\<close>

subsection \<open>The registry\<close>

record Pricing =
  pr_InputPerMTok :: rat
  pr_OutputPerMTok :: rat

record ModelInfo =
  mi_ID :: string
  mi_Pricing :: "Pricing option"

record cachedModels =
  cm_models :: "ModelInfo list"
  cm_fetchedAt :: time

record Provider =
  pv_ID :: string
  pv_DisplayName :: string

record LlmRegistry =
  rg_providers :: "(string \<times> Provider) list"
  rg_cache :: "(string \<times> cachedModels) list"
  rg_selected :: string

definition NewLlmRegistry :: LlmRegistry where
  "NewLlmRegistry = \<lparr>rg_providers = [], rg_cache = [], rg_selected = []\<rparr>"

definition rg_Register :: "Provider \<Rightarrow> LlmRegistry \<Rightarrow> LlmRegistry" where
  "rg_Register p r = r\<lparr>rg_providers := AList.update (pv_ID p) p (rg_providers r), rg_cache := AList.delete (pv_ID p) (rg_cache r)\<rparr>"

definition rg_Deregister :: "string \<Rightarrow> LlmRegistry \<Rightarrow> LlmRegistry" where
  "rg_Deregister i r = r\<lparr>rg_providers := AList.delete i (rg_providers r), rg_cache := AList.delete i (rg_cache r)\<rparr>"

definition SetModel :: "string \<Rightarrow> LlmRegistry \<Rightarrow> LlmRegistry" where
  "SetModel m r = r\<lparr>rg_selected := m\<rparr>"

definition SelectedModel :: "LlmRegistry \<Rightarrow> string" where
  "SelectedModel r = (if rg_selected r \<noteq> [] then rg_selected r
     else if map_of (rg_providers r) ''anthropic'' \<noteq> None then ''claude-opus-4-8'' else [])"

text \<open>The models cached for a provider; a missing entry has none.\<close>

definition cached :: "LlmRegistry \<Rightarrow> string \<Rightarrow> ModelInfo list" where
  "cached r i = (case map_of (rg_cache r) i of None \<Rightarrow> [] | Some c \<Rightarrow> cm_models c)"

definition lists_model :: "string \<Rightarrow> ModelInfo list \<Rightarrow> bool" where
  "lists_model model ms = list_ex (\<lambda>m. mi_ID m = model) ms"

text \<open>The owner of a model: some cache must list it, and the first provider whose own cache does owns it.\<close>

definition owner_of :: "string \<Rightarrow> LlmRegistry \<Rightarrow> (string \<times> Provider) option" where
  "owner_of model r = (if list_ex (\<lambda>(i, c). lists_model model (cm_models c)) (rg_cache r)
     then find (\<lambda>(i, p). lists_model model (cached r (pv_ID p))) (rg_providers r) else None)"

definition providerForModel :: "string \<Rightarrow> LlmRegistry \<Rightarrow> Provider option" where
  "providerForModel model r = (case owner_of model r of
     Some (i, p) \<Rightarrow> Some p
   | None \<Rightarrow> (case map_of (rg_providers r) ''anthropic'' of
       Some p \<Rightarrow> Some p
     | None \<Rightarrow> (case rg_providers r of [] \<Rightarrow> None | (i, p) # _ \<Rightarrow> Some p)))"

definition modelCacheTTL :: duration where
  "modelCacheTTL = 24 * 60 * minute"

record GroupedModels =
  gm_ProviderID :: string
  gm_DisplayName :: string
  gm_Models :: "ModelInfo list"

text \<open>
  \<open>AllModels\<close> over the provider ids in the order it sorts them (Anthropic first): a fresh cache is used, a stale one is
  refreshed, and a provider that fails shows what was cached. \<open>lst\<close> is what each provider answers.
\<close>

definition group_of :: "(string \<Rightarrow> ModelInfo list option) \<Rightarrow> time \<Rightarrow> string \<Rightarrow> LlmRegistry \<Rightarrow> GroupedModels \<times> LlmRegistry" where
  "group_of lst now i r =
    (let name = (case map_of (rg_providers r) i of None \<Rightarrow> [] | Some p \<Rightarrow> pv_DisplayName p);
         fetched = (case map_of (rg_cache r) i of None \<Rightarrow> zero_time | Some c \<Rightarrow> cm_fetchedAt c);
         group = (\<lambda>ms. \<lparr>gm_ProviderID = i, gm_DisplayName = name, gm_Models = ms\<rparr>)
     in if time_sub now fetched < modelCacheTTL then (group (cached r i), r)
        else (case lst i of
            None \<Rightarrow> (group (cached r i), r)
          | Some ms \<Rightarrow> (group ms, r\<lparr>rg_cache := AList.update i \<lparr>cm_models = ms, cm_fetchedAt = now\<rparr> (rg_cache r)\<rparr>)))"

fun groups_of :: "(string \<Rightarrow> ModelInfo list option) \<Rightarrow> time \<Rightarrow> string list \<Rightarrow> LlmRegistry \<Rightarrow> GroupedModels list \<times> LlmRegistry" where
  "groups_of lst now [] r = ([], r)"
| "groups_of lst now (i # is) r =
    (case group_of lst now i r of (g, r) \<Rightarrow> (case groups_of lst now is r of (gs, r) \<Rightarrow> (g # gs, r)))"

definition AllModels :: "(string \<Rightarrow> ModelInfo list option) \<Rightarrow> time \<Rightarrow> LlmRegistry \<Rightarrow> GroupedModels list \<times> LlmRegistry" where
  "AllModels lst now r =
    (let is = sort (map fst (rg_providers r))
     in groups_of lst now (filter (\<lambda>i. i = ''anthropic'') is @ filter (\<lambda>i. i \<noteq> ''anthropic'') is) r)"

subsection \<open>The meter\<close>

abbreviation PeriodDaily :: string where "PeriodDaily \<equiv> ''daily''"
abbreviation PeriodMonthly :: string where "PeriodMonthly \<equiv> ''monthly''"

record BudgetLimit =
  bl_Period :: string
  bl_USD :: rat

record UsageRecord =
  ur_At :: time
  ur_Provider :: string
  ur_Model :: string
  ur_Feature :: string
  ur_InputTokens :: int
  ur_OutputTokens :: int
  ur_CacheHits :: int
  ur_CostUSD :: rat

record MeterConfig =
  mc_Enabled :: bool
  mc_FeatureEnabled :: "string \<rightharpoonup> bool"
  mc_Limits :: "BudgetLimit list"
  mc_PricingOverride :: "string \<rightharpoonup> Pricing"

record calendar =
  ca_midnight :: "time \<Rightarrow> time"
  ca_first :: "time \<Rightarrow> time"
  ca_prune :: "time \<Rightarrow> time"

record Usage =
  us_InputTokens :: int
  us_OutputTokens :: int
  us_CacheHits :: int

datatype meter_error = LLMDisabled | FeatureDisabled string | BudgetExceeded string rat rat | ProviderUnavailable | ProviderFailed string

text \<open>A call that reached a provider, and the meter when it was admitted.\<close>

record sent_call =
  sc_Provider :: string
  sc_Model :: string
  sc_Feature :: string
  sc_At :: time
  sc_Cfg :: MeterConfig
  sc_Records :: "UsageRecord list"

record meteredStream =
  ms_feature :: string
  ms_model :: string
  ms_provider :: string

record Meter =
  mt_registry :: LlmRegistry
  mt_records :: "UsageRecord list"
  mt_cfg :: MeterConfig
  mt_sent :: "sent_call list"

definition NewMeter :: "LlmRegistry \<Rightarrow> MeterConfig \<Rightarrow> Meter" where
  "NewMeter reg cfg = \<lparr>mt_registry = reg, mt_records = [], mt_cfg = cfg, mt_sent = []\<rparr>"

definition mt_SetConfig :: "MeterConfig \<Rightarrow> Meter \<Rightarrow> Meter" where
  "mt_SetConfig cfg m = m\<lparr>mt_cfg := cfg\<rparr>"

definition UsageSince :: "time \<Rightarrow> UsageRecord list \<Rightarrow> UsageRecord list" where
  "UsageSince since rs = filter (\<lambda>r. \<not> ur_At r < since) rs"

definition cost_sum :: "UsageRecord list \<Rightarrow> rat" where
  "cost_sum rs = fold (\<lambda>r sum. fl (sum + ur_CostUSD r)) rs 0"

definition TodayUSD :: "calendar \<Rightarrow> time \<Rightarrow> UsageRecord list \<Rightarrow> rat" where
  "TodayUSD cal now rs = cost_sum (UsageSince (ca_midnight cal now) rs)"

definition ThisMonthUSD :: "calendar \<Rightarrow> time \<Rightarrow> UsageRecord list \<Rightarrow> rat" where
  "ThisMonthUSD cal now rs = cost_sum (UsageSince (ca_first cal now) rs)"

definition mt_record :: "calendar \<Rightarrow> time \<Rightarrow> UsageRecord \<Rightarrow> Meter \<Rightarrow> Meter" where
  "mt_record cal now r m = m\<lparr>mt_records := dropWhile (\<lambda>x. ur_At x < ca_prune cal now) (mt_records m @ [r])\<rparr>"

definition spent_in :: "calendar \<Rightarrow> time \<Rightarrow> string \<Rightarrow> UsageRecord list \<Rightarrow> rat" where
  "spent_in cal now period rs =
    (if period = PeriodDaily then TodayUSD cal now rs else if period = PeriodMonthly then ThisMonthUSD cal now rs else 0)"

fun checkBudgets :: "calendar \<Rightarrow> time \<Rightarrow> BudgetLimit list \<Rightarrow> UsageRecord list \<Rightarrow> meter_error option" where
  "checkBudgets cal now [] rs = None"
| "checkBudgets cal now (l # ls) rs =
    (if bl_USD l \<le> 0 then checkBudgets cal now ls rs
     else let spent = spent_in cal now (bl_Period l) rs
       in if bl_USD l \<le> spent then Some (BudgetExceeded (bl_Period l) (bl_USD l) spent) else checkBudgets cal now ls rs)"

definition mt_providerID :: "string \<Rightarrow> LlmRegistry \<Rightarrow> string" where
  "mt_providerID model r = (case owner_of model r of Some (i, p) \<Rightarrow> i | None \<Rightarrow> ''unknown'')"

definition mt_pricing :: "Meter \<Rightarrow> string \<Rightarrow> string \<Rightarrow> Pricing" where
  "mt_pricing m prov model = (case mc_PricingOverride (mt_cfg m) model of
     Some p \<Rightarrow> p
   | None \<Rightarrow> (case find (\<lambda>x. mi_ID x = model \<and> mi_Pricing x \<noteq> None) (cached (mt_registry m) prov) of
       Some x \<Rightarrow> the (mi_Pricing x) | None \<Rightarrow> \<lparr>pr_InputPerMTok = 0, pr_OutputPerMTok = 0\<rparr>))"

text \<open>\<open>ans\<close> is what the provider answers: an error, or a stream.\<close>

definition meter_Complete :: "calendar \<Rightarrow> time \<Rightarrow> string \<Rightarrow> string \<Rightarrow> string option \<Rightarrow> Meter \<Rightarrow> (meter_error + meteredStream) \<times> Meter" where
  "meter_Complete cal now feature model ans m =
    (let cfg = mt_cfg m
     in if \<not> mc_Enabled cfg then (Inl LLMDisabled, m)
        else if mc_FeatureEnabled cfg feature = Some False then (Inl (FeatureDisabled feature), m)
        else (case checkBudgets cal now (mc_Limits cfg) (mt_records m) of
            Some e \<Rightarrow> (Inl e, m)
          | None \<Rightarrow>
              let used = (if model = [] then SelectedModel (mt_registry m) else model)
              in (case providerForModel used (mt_registry m) of
                  None \<Rightarrow> (Inl ProviderUnavailable, m)
                | Some p \<Rightarrow>
                    let m = m\<lparr>mt_sent := mt_sent m @ [\<lparr>sc_Provider = pv_ID p, sc_Model = used, sc_Feature = feature, sc_At = now,
                                sc_Cfg = cfg, sc_Records = mt_records m\<rparr>]\<rparr>
                    in (case ans of
                        Some e \<Rightarrow> (Inl (ProviderFailed e), m)
                      | None \<Rightarrow> (Inr \<lparr>ms_feature = feature, ms_model = model, ms_provider = mt_providerID model (mt_registry m)\<rparr>, m)))))"

definition token_cost :: "Pricing \<Rightarrow> Usage \<Rightarrow> rat" where
  "token_cost p u = fl (fl (fl (fl_int (us_InputTokens u) / 10 ^ 6) * pr_InputPerMTok p)
     + fl (fl (fl_int (us_OutputTokens u) / 10 ^ 6) * pr_OutputPerMTok p))"

definition stream_record :: "time \<Rightarrow> meteredStream \<Rightarrow> Usage \<Rightarrow> Meter \<Rightarrow> UsageRecord" where
  "stream_record now s u m = \<lparr>ur_At = now, ur_Provider = ms_provider s, ur_Model = ms_model s, ur_Feature = ms_feature s,
     ur_InputTokens = us_InputTokens u, ur_OutputTokens = us_OutputTokens u, ur_CacheHits = us_CacheHits u,
     ur_CostUSD = token_cost (mt_pricing m (ms_provider s) (ms_model s)) u\<rparr>"

text \<open>\<open>meteredStream.Next\<close>: the event passes through; a final one with usage is recorded.\<close>

definition stream_Next :: "calendar \<Rightarrow> time \<Rightarrow> meteredStream \<Rightarrow> string \<times> Usage option \<Rightarrow> Meter \<Rightarrow> Meter" where
  "stream_Next cal now s ev m = (case ev of
     (kind, Some u) \<Rightarrow> if kind = ''done'' then mt_record cal now (stream_record now s u m) m
       else m
   | (kind, None) \<Rightarrow> m)"

subsection \<open>No call passes a closed gate\<close>

datatype meter_op = Complete string string "string option" | Finish meteredStream "string \<times> Usage option" | Configure MeterConfig | Rewire LlmRegistry

definition meter_do :: "calendar \<Rightarrow> time \<times> meter_op \<Rightarrow> Meter \<Rightarrow> Meter" where
  "meter_do cal op m = (case op of
     (now, Complete feature model ans) \<Rightarrow> snd (meter_Complete cal now feature model ans m)
   | (now, Finish s ev) \<Rightarrow> stream_Next cal now s ev m
   | (now, Configure cfg) \<Rightarrow> mt_SetConfig cfg m
   | (now, Rewire reg) \<Rightarrow> m\<lparr>mt_registry := reg\<rparr>)"

text \<open>What must hold of every call that reached a provider, in the state it was admitted in.\<close>

definition allowed :: "calendar \<Rightarrow> sent_call \<Rightarrow> bool" where
  "allowed cal x \<longleftrightarrow> mc_Enabled (sc_Cfg x) \<and> mc_FeatureEnabled (sc_Cfg x) (sc_Feature x) \<noteq> Some False
     \<and> (\<forall>l \<in> set (mc_Limits (sc_Cfg x)). 0 < bl_USD l \<longrightarrow> spent_in cal (sc_At x) (bl_Period l) (sc_Records x) < bl_USD l)"

lemma checkBudgets_None:
  "checkBudgets cal now ls rs = None \<longleftrightarrow> (\<forall>l \<in> set ls. 0 < bl_USD l \<longrightarrow> spent_in cal now (bl_Period l) rs < bl_USD l)"
  by (induction ls) (auto simp: Let_def)

lemma Complete_sent:
  "mt_sent (snd (meter_Complete cal now feature model ans m)) = mt_sent m \<or>
   (\<exists>x. mt_sent (snd (meter_Complete cal now feature model ans m)) = mt_sent m @ [x] \<and> allowed cal x
      \<and> sc_Cfg x = mt_cfg m \<and> sc_Records x = mt_records m \<and> sc_Feature x = feature)"
proof (cases "mc_Enabled (mt_cfg m) \<and> mc_FeatureEnabled (mt_cfg m) feature \<noteq> Some False \<and> checkBudgets cal now (mc_Limits (mt_cfg m)) (mt_records m) = None")
  case False
  then show ?thesis by (cases "checkBudgets cal now (mc_Limits (mt_cfg m)) (mt_records m)") (auto simp: meter_Complete_def Let_def)
next
  case True
  let ?used = "if model = [] then SelectedModel (mt_registry m) else model"
  show ?thesis
  proof (cases "providerForModel ?used (mt_registry m)")
    case None
    then show ?thesis using True by (simp add: meter_Complete_def Let_def)
  next
    case (Some p)
    let ?x = "\<lparr>sc_Provider = pv_ID p, sc_Model = ?used, sc_Feature = feature, sc_At = now, sc_Cfg = mt_cfg m, sc_Records = mt_records m\<rparr>"
    have "allowed cal ?x" using True by (simp add: allowed_def checkBudgets_None)
    moreover have "mt_sent (snd (meter_Complete cal now feature model ans m)) = mt_sent m @ [?x]"
      using True Some by (cases ans) (simp_all add: meter_Complete_def Let_def)
    ultimately show ?thesis by (intro disjI2 exI [of _ ?x]) simp
  qed
qed


subsection \<open>Spending stays below the limit and one call\<close>

text \<open>Calls one after the other: each is admitted or refused, and if admitted its usage is recorded before the next.\<close>

record metered_call =
  cl_feature :: string
  cl_model :: string
  cl_asked :: time
  cl_ended :: time
  cl_usage :: Usage

definition one_call :: "calendar \<Rightarrow> metered_call \<Rightarrow> Meter \<Rightarrow> Meter" where
  "one_call cal c m = (case meter_Complete cal (cl_asked c) (cl_feature c) (cl_model c) None m of
     (Inl e, m) \<Rightarrow> m
   | (Inr s, m) \<Rightarrow> stream_Next cal (cl_ended c) s (''done'', Some (cl_usage c)) m)"

lemma mt_pricing_same: "mt_cfg m' = mt_cfg m \<Longrightarrow> mt_registry m' = mt_registry m \<Longrightarrow> mt_pricing m' a b = mt_pricing m a b"
  by (simp add: mt_pricing_def cong: option.case_cong)

lemma cost_sum_snoc: "cost_sum (rs @ [r]) = fl (cost_sum rs + ur_CostUSD r)"
  by (simp add: cost_sum_def)

lemma UsageSince_prune: "p \<le> d \<Longrightarrow> UsageSince d (dropWhile (\<lambda>x. ur_At x < p) rs) = UsageSince d rs"
  by (induction rs) (auto simp: UsageSince_def)

lemma stream_Next_records:
  assumes "ca_prune cal now \<le> d" "d \<le> now"
  shows "UsageSince d (mt_records (stream_Next cal now s (''done'', Some u) m)) = UsageSince d (mt_records m) @ [stream_record now s u m]"
proof -
  have "\<not> ur_At (stream_record now s u m) < d" using assms(2) by (simp add: stream_record_def)
  then show ?thesis
    unfolding stream_Next_def mt_record_def by (simp add: UsageSince_prune [OF assms(1)]) (simp add: UsageSince_def)
qed

text \<open>A call on the day that starts at \<open>d\<close> either leaves the day's sum alone or adds its cost to a sum below the limit.\<close>

lemma one_call_spends:
  assumes "\<lparr>bl_Period = PeriodDaily, bl_USD = limit\<rparr> \<in> set (mc_Limits (mt_cfg m))" "0 < limit"
    "ca_midnight cal (cl_asked c) = d" "d \<le> cl_ended c" "ca_prune cal (cl_ended c) \<le> d"
  shows "mt_cfg (one_call cal c m) = mt_cfg m \<and> mt_registry (one_call cal c m) = mt_registry m
    \<and> (cost_sum (UsageSince d (mt_records (one_call cal c m))) = cost_sum (UsageSince d (mt_records m))
       \<or> cost_sum (UsageSince d (mt_records m)) < limit
         \<and> cost_sum (UsageSince d (mt_records (one_call cal c m))) =
             fl (cost_sum (UsageSince d (mt_records m))
               + token_cost (mt_pricing m (mt_providerID (cl_model c) (mt_registry m)) (cl_model c)) (cl_usage c)))"
proof (cases "meter_Complete cal (cl_asked c) (cl_feature c) (cl_model c) None m")
  case (Pair res m')
  show ?thesis
  proof (cases res)
    case (Inl e)
    have "mt_cfg m' = mt_cfg m \<and> mt_registry m' = mt_registry m \<and> mt_records m' = mt_records m"
      using Pair by (auto simp: meter_Complete_def Let_def split: if_splits option.splits)
    then show ?thesis using Pair Inl by (simp add: one_call_def)
  next
    case (Inr s)
    have ok: "checkBudgets cal (cl_asked c) (mc_Limits (mt_cfg m)) (mt_records m) = None"
      and m': "mt_cfg m' = mt_cfg m" "mt_registry m' = mt_registry m" "mt_records m' = mt_records m"
      and s: "s = \<lparr>ms_feature = cl_feature c, ms_model = cl_model c, ms_provider = mt_providerID (cl_model c) (mt_registry m)\<rparr>"
      using Pair Inr by (auto simp: meter_Complete_def Let_def split: if_splits option.splits)
    have "spent_in cal (cl_asked c) PeriodDaily (mt_records m) < limit"
      using ok assms(1,2) unfolding checkBudgets_None by force
    then have "cost_sum (UsageSince d (mt_records m)) < limit" by (simp add: spent_in_def TodayUSD_def assms(3))
    moreover have pr: "mt_pricing m' a b = mt_pricing m a b" for a b by (rule mt_pricing_same [OF m'(1,2)])
    moreover have one: "one_call cal c m = stream_Next cal (cl_ended c) s (''done'', Some (cl_usage c)) m'"
      using Pair Inr by (simp add: one_call_def)
    have "UsageSince d (mt_records (one_call cal c m)) = UsageSince d (mt_records m) @ [stream_record (cl_ended c) s (cl_usage c) m']"
      unfolding one using stream_Next_records [OF assms(5,4)] m'(3) by simp
    moreover have "ur_CostUSD (stream_record (cl_ended c) s (cl_usage c) m') = token_cost (mt_pricing m (ms_provider s) (ms_model s)) (cl_usage c)"
      by (simp add: stream_record_def pr)
    moreover have "mt_cfg (one_call cal c m) = mt_cfg m \<and> mt_registry (one_call cal c m) = mt_registry m"
      unfolding one using m' by (simp add: stream_Next_def mt_record_def)
    ultimately show ?thesis by (simp add: cost_sum_snoc s)
  qed
qed


text \<open>A model no provider is known to list costs nothing, so no limit ever stops it.\<close>

lemma unlisted_model_is_free:
  assumes "owner_of model (mt_registry m) = None" "mc_PricingOverride (mt_cfg m) model = None" "map_of (rg_cache (mt_registry m)) ''unknown'' = None"
  shows "token_cost (mt_pricing m (mt_providerID model (mt_registry m)) model) u = 0"
  using assms by (simp add: mt_providerID_def mt_pricing_def cached_def token_cost_def)


text \<open>One model at three dollars per million tokens, and a limit of five dollars a day.\<close>

definition sample_registry :: LlmRegistry where
  "sample_registry = \<lparr>rg_providers = [(''anthropic'', \<lparr>pv_ID = ''anthropic'', pv_DisplayName = ''Anthropic''\<rparr>)],
     rg_cache = [(''anthropic'', \<lparr>cm_models = [\<lparr>mi_ID = ''m'', mi_Pricing = Some \<lparr>pr_InputPerMTok = 3, pr_OutputPerMTok = 15\<rparr>\<rparr>], cm_fetchedAt = 0\<rparr>)],
     rg_selected = ''m''\<rparr>"

definition sample_limits :: MeterConfig where
  "sample_limits = \<lparr>mc_Enabled = True, mc_FeatureEnabled = [''translation'' \<mapsto> False],
     mc_Limits = [\<lparr>bl_Period = PeriodDaily, bl_USD = 5\<rparr>], mc_PricingOverride = (\<lambda>_. None)\<rparr>"

definition sample_calendar :: calendar where
  "sample_calendar = \<lparr>ca_midnight = (\<lambda>t. 0), ca_first = (\<lambda>t. 0), ca_prune = (\<lambda>t. t - 90 * 24 * 60 * minute)\<rparr>"

definition sample_call :: "time \<Rightarrow> metered_call" where
  "sample_call t = \<lparr>cl_feature = ''ask'', cl_model = ''m'', cl_asked = t, cl_ended = t + 1,
     cl_usage = \<lparr>us_InputTokens = 1000000, us_OutputTokens = 0, us_CacheHits = 0\<rparr>\<rparr>"

definition sample_ops :: "(time \<times> meter_op) list" where
  "sample_ops = [(1, Complete ''ask'' ''m'' None), (2, Complete ''translation'' ''m'' None),
     (3, Configure (sample_limits\<lparr>mc_Enabled := False\<rparr>)), (4, Complete ''ask'' ''m'' None)]"

lemma sample_cost:
  "token_cost (mt_pricing (NewMeter sample_registry sample_limits) (mt_providerID ''m'' sample_registry) ''m'')
     \<lparr>us_InputTokens = 1000000, us_OutputTokens = 0, us_CacheHits = 0\<rparr> = 3"
proof -
  have "mt_pricing (NewMeter sample_registry sample_limits) (mt_providerID ''m'' sample_registry) ''m'' = \<lparr>pr_InputPerMTok = 3, pr_OutputPerMTok = 15\<rparr>"
    by code_simp
  moreover have "fl 1000000 = 1000000" "fl 3 = 3" using fl_of_int [of 1000000] fl_of_int [of 3] by simp_all
  ultimately show ?thesis by (simp add: token_cost_def)
qed

text \<open>Of three calls the first is admitted; the second is of a feature that is off, the third comes after the switch.\<close>

lemma sample_gate: "length (mt_sent (fold (meter_do sample_calendar) sample_ops (NewMeter sample_registry sample_limits))) = 1"
  by code_simp


end
