(* ===== verification/Kick_Normalize.thy ===== *)
theory Kick_Normalize
  imports Segment Go_Encoding
begin

text \<open>
  \<^verbatim>\<open>internal/platform/kick/normalize.go\<close> and \<^verbatim>\<open>pusher.go\<close>: the Pusher frames of Kick chat and what a chat message
  becomes. The JSON decoder and the RFC 3339 parser are fields of \<open>kick_codec\<close>; the strings they
  return are taken as they are.
\<close>

subsection \<open>Frames\<close>

text \<open>\<^verbatim>\<open>strings.Index\<close>.\<close>

fun str_index :: "string \<Rightarrow> string \<Rightarrow> nat option" where
  "str_index [] p = (if p = [] then Some 0 else None)"
| "str_index (c # s) p = (if has_prefix (c # s) p then Some 0 else map_option Suc (str_index s p))"

lemma str_index_Some: "str_index s p = Some n \<Longrightarrow> s = take n s @ p @ drop (n + length p) s"
proof (induction s arbitrary: n)
  case (Cons c s)
  show ?case
  proof (cases "has_prefix (c # s) p")
    case True
    moreover from True obtain v where "c # s = p @ v" by (auto simp only: has_prefix_conv prefix_def)
    moreover have "n = 0" using Cons.prems True by simp
    ultimately show ?thesis by simp
  next
    case False
    then obtain k where "str_index s p = Some k" "n = Suc k" using Cons.prems by auto
    then show ?thesis using Cons.IH [of k] by simp
  qed
qed (simp split: if_splits)

lemma str_index_at: "str_index s p = Some n \<Longrightarrow> has_prefix (drop n s) p"
  by (induction s arbitrary: n) (auto simp: has_prefix_def split: if_splits)

lemma str_index_None: "str_index s p = None \<longleftrightarrow> \<not> contains s p"
  by (induction s) auto

definition eventConnEstablished :: string where
  "eventConnEstablished = ''pusher:connection_established''"

definition eventPing :: string where
  "eventPing = ''pusher:ping''"

definition eventSubscribe :: string where
  "eventSubscribe = ''pusher:subscribe''"

definition eventChatMessage :: string where
  "eventChatMessage = ''App'' @ [CHR 0x5C] @ ''Events'' @ [CHR 0x5C] @ ''ChatMessageEvent''"

record frame =
  fr_Event :: string
  fr_Channel :: string
  fr_Data :: string

text \<open>Frames written: only the adapter's own ones are given a form, as event and channel.\<close>

datatype out_frame = Subscribe string | Unsubscribe string | Pong

definition chatroomChannel :: "string \<Rightarrow> string" where
  "chatroomChannel chatroomID = ''chatrooms.'' @ chatroomID @ ''.v2''"

definition has_suffix :: "string \<Rightarrow> string \<Rightarrow> bool" where
  "has_suffix s p = has_prefix (rev s) (rev p)"

lemma has_suffix_conv: "has_suffix s p \<longleftrightarrow> suffix p s"
  by (simp add: has_suffix_def has_prefix_conv suffix_to_prefix)

text \<open>None is the panic of a slice whose end lies before its start.\<close>

definition chatroomIDFromChannel :: "string \<Rightarrow> string option" where
  "chatroomIDFromChannel channel =
    (if \<not> has_prefix channel ''chatrooms.'' \<or> \<not> has_suffix channel ''.v2'' then Some []
     else if length channel - 3 < 10 then None
     else Some (drop 10 (take (length channel - 3) channel)))"

text \<open>
  The channel name of a chatroom is read back as the chatroom, and nothing else is: a name is read as a chatroom id only
  if it is that id's channel name. The exception is the name \<open>chatrooms.v2\<close>, on which prefix and suffix overlap: it panics.
\<close>

theorem chatroom_roundtrip:
  "chatroomIDFromChannel (chatroomChannel i) = Some i
    \<and> (chatroomIDFromChannel c = Some j \<longrightarrow> j = [] \<or> c = chatroomChannel j)
    \<and> (chatroomIDFromChannel c = None \<longleftrightarrow> c = ''chatrooms.v2'')"
proof (intro conjI impI)
  show "chatroomIDFromChannel (chatroomChannel i) = Some i"
    by (simp add: chatroomIDFromChannel_def chatroomChannel_def has_prefix_def has_suffix_def)
next
  assume a: "chatroomIDFromChannel c = Some j"
  show "j = [] \<or> c = chatroomChannel j"
  proof (cases "has_prefix c ''chatrooms.'' \<and> has_suffix c ''.v2''")
    case True
    then obtain u v where u: "c = ''chatrooms.'' @ u" and v: "c = v @ ''.v2''"
      unfolding has_prefix_conv has_suffix_conv prefix_def suffix_def by blast
    have len: "10 \<le> length c - 3" "j = drop 10 (take (length c - 3) c)"
      using a True by (auto simp: chatroomIDFromChannel_def split: if_splits)
    have j: "j = drop 10 v" using len(2) v by simp
    have "prefix ''chatrooms.'' v"
      by (rule prefix_length_prefix [of _ c]) (use True v len(1) in \<open>simp_all add: has_prefix_conv\<close>)
    then obtain w where w: "v = ''chatrooms.'' @ w" by (rule prefixE)
    then show ?thesis using v j by (simp add: chatroomChannel_def)
  qed (use a in \<open>auto simp: chatroomIDFromChannel_def\<close>)
next
  show "chatroomIDFromChannel c = None \<longleftrightarrow> c = ''chatrooms.v2''"
  proof
    assume a: "chatroomIDFromChannel c = None"
    then have p: "has_prefix c ''chatrooms.''" "has_suffix c ''.v2''" "length c < 13"
      by (auto simp: chatroomIDFromChannel_def split: if_splits)
    then obtain u v where u: "c = ''chatrooms.'' @ u" and v: "c = v @ ''.v2''"
      unfolding has_prefix_conv has_suffix_conv prefix_def suffix_def by blast
    have "length u < 3" using p(3) u by simp
    then consider "u = []" | x where "u = [x]" | x y where "u = [x, y]"
      by (cases u; cases "tl u"; cases "tl (tl u)") auto
    then show "c = ''chatrooms.v2''"
    proof cases
      case 3
      then have "rev c = y # x # rev ''chatrooms.''" using u by simp
      moreover have "rev c = CHR ''2'' # CHR ''v'' # CHR ''.'' # rev v" using v by simp
      ultimately show ?thesis using u 3 by simp
    qed (use u v in \<open>auto dest!: arg_cong [of _ _ rev]\<close>)
  qed (simp add: chatroomIDFromChannel_def has_prefix_def has_suffix_def)
qed

subsection \<open>Messages\<close>

record kickBadge =
  kb_Type :: string
  kb_Text :: string
  kb_Count :: int

record chatSender =
  ks_ID :: int
  ks_Username :: string
  ks_Slug :: string
  ks_Color :: string
  ks_Badges :: "kickBadge list"

record chatMessage =
  kc_ID :: string
  kc_Content :: string
  kc_CreatedAt :: string
  kc_Sender :: chatSender

text \<open>The decoders of the standard library: a quoted JSON string, a chat message, a timestamp.\<close>

record kick_codec =
  kj_unquote :: "string \<Rightarrow> string option"
  kj_message :: "string \<Rightarrow> chatMessage option"
  kj_rfc3339 :: "string \<Rightarrow> time option"

definition pusherPayload :: "kick_codec \<Rightarrow> frame \<Rightarrow> string option" where
  "pusherPayload cd f =
    (if fr_Data f = [] then Some []
     else if hd (fr_Data f) = CHR 0x22 then kj_unquote cd (fr_Data f)
     else Some (fr_Data f))"

abbreviation EmoteKick :: EmoteProvider where "EmoteKick \<equiv> ''kick''"

definition kick_emoteURL :: "string \<Rightarrow> string" where
  "kick_emoteURL i = ''https://files.kick.com/emotes/'' @ i @ ''/fullsize''"

definition parseBadges :: "kickBadge list \<Rightarrow> Badge list" where
  "parseBadges = map (\<lambda>b. \<lparr>bd_Set = kb_Type b, bd_Version = (if kb_Count b > 0 then format_int (kb_Count b) else []),
     bd_Title = kb_Text b, bd_URL = []\<rparr>)"

definition kick_emote_seg :: "string \<Rightarrow> string \<Rightarrow> Segment" where
  "kick_emote_seg i name = \<lparr>sg_Kind = SegEmote, sg_Text = name,
     sg_Emote = Some \<lparr>em_Provider = EmoteKick, em_ID = i, em_Name = name, em_URLTemplate = kick_emoteURL i, em_Animated = False\<rparr>,
     sg_CheerBits = 0, sg_Reveal = []\<rparr>"

function parseContent :: "string \<Rightarrow> Segment list" where
  "parseContent rest = (case str_index rest ''[emote:'' of
     None \<Rightarrow> Text rest
   | Some n \<Rightarrow>
       (if n > 0 then Text (take n rest) else []) @
       (case cut_at CHR '']'' (drop n rest) of
          None \<Rightarrow> Text (drop n rest)
        | Some (token, rest') \<Rightarrow>
            (case cut_at CHR '':'' (drop 7 token) of
               Some (i, name) \<Rightarrow> [kick_emote_seg i name]
             | None \<Rightarrow> Text (token @ '']'')) @ parseContent rest'))"
  by pat_completeness auto
termination
  by (relation "measure length") (auto dest!: cut_at_length)

declare parseContent.simps [simp del]

definition kick_parseSentTS :: "kick_codec \<Rightarrow> string \<Rightarrow> time" where
  "kick_parseSentTS cd s =
    (if s = [] then zero_time
     else case kj_rfc3339 cd s of
         Some t \<Rightarrow> t
       | None \<Rightarrow> (case atoi s of Some secs \<Rightarrow> secs * second | None \<Rightarrow> zero_time))"

definition kick_message :: "kick_codec \<Rightarrow> chatMessage \<Rightarrow> ChannelRef \<Rightarrow> UnifiedMessage" where
  "kick_message cd m ch = \<lparr>um_ID = [], um_PlatformMessageID = kc_ID m, um_Platform = Kick, um_Channel = ch, um_Type = TypeChat,
     um_Author = \<lparr>au_ID = format_int (ks_ID (kc_Sender m)), au_Login = ks_Slug (kc_Sender m), au_DisplayName = ks_Username (kc_Sender m),
       au_Color = ks_Color (kc_Sender m), au_Badges = parseBadges (ks_Badges (kc_Sender m))\<rparr>,
     um_Segments = parseContent (kc_Content m), um_ReplyTo = None, um_SentAt = kick_parseSentTS cd (kc_CreatedAt m), um_ReceivedAt = 0,
     um_Ephemeral = False, um_Raw = [], um_Annotations = None\<rparr>"

definition normalizeChatMessage :: "kick_codec \<Rightarrow> string \<Rightarrow> ChannelRef \<Rightarrow> UnifiedMessage option" where
  "normalizeChatMessage cd data ch = map_option (\<lambda>m. kick_message cd m ch) (kj_message cd data)"

subsection \<open>The text of a message\<close>

text \<open>The text a segment was read from.\<close>

definition seg_source :: "Segment \<Rightarrow> string" where
  "seg_source s = (case sg_Emote s of
     None \<Rightarrow> sg_Text s | Some e \<Rightarrow> ''[emote:'' @ em_ID e @ '':'' @ em_Name e @ '']'')"

lemma source_Text [simp]: "concat (map seg_source (Text t)) = t"
proof -
  have "concat (map seg_source (Text t)) = seg_text (Text t)"
    unfolding seg_text_def by (rule arg_cong [of _ _ concat], rule map_cong) (auto simp: seg_source_def dest: Text_no_emote)
  then show ?thesis by (simp add: Text_segments)
qed

lemma source_emote [simp]: "seg_source (kick_emote_seg i name) = ''[emote:'' @ i @ '':'' @ name @ '']''"
  by (simp add: seg_source_def kick_emote_seg_def)

lemma prefix_before: "prefix p (u @ c # v) \<Longrightarrow> c \<notin> set p \<Longrightarrow> prefix p u"
  by (auto simp: prefix_append prefix_Cons)

text \<open>Where a token is found: the text before it, and the token without its bracket.\<close>

lemma token_at:
  assumes "str_index c ''[emote:'' = Some n" "cut_at CHR '']'' (drop n c) = Some (token, rest)"
  shows "c = take n c @ token @ '']'' @ rest" "token = ''[emote:'' @ drop 7 token"
proof -
  have d: "drop n c = token @ CHR '']'' # rest" "CHR '']'' \<notin> set token" using cut_at_Some [OF assms(2)] by simp_all
  then show "c = take n c @ token @ '']'' @ rest" using append_take_drop_id [of n c] by simp
  have "prefix ''[emote:'' (token @ CHR '']'' # rest)" using str_index_at [OF assms(1)] unfolding d(1) has_prefix_conv .
  then have "prefix ''[emote:'' token" by (rule prefix_before) simp
  then show "token = ''[emote:'' @ drop 7 token" by (auto simp: prefix_def)
qed

lemma parseContent_source: "concat (map seg_source (parseContent c)) = c"
proof (induction c rule: parseContent.induct)
  case (1 c)
  show ?case
  proof (cases "str_index c ''[emote:''")
    case None
    then show ?thesis by (subst parseContent.simps) simp
  next
    case (Some n)
    show ?thesis
    proof (cases "cut_at CHR '']'' (drop n c)")
      case None
      then show ?thesis using Some by (subst parseContent.simps) (cases n; simp)
    next
      case (Some p)
      obtain token rest where p: "p = (token, rest)" by fastforce
      note t = token_at [OF \<open>str_index c ''[emote:'' = Some n\<close> Some [unfolded p]]
      have ih: "concat (map seg_source (parseContent rest)) = rest" using 1 Some p \<open>str_index c ''[emote:'' = Some n\<close> by blast
      have "concat (map seg_source (case cut_at CHR '':'' (drop 7 token) of Some (i, name) \<Rightarrow> [kick_emote_seg i name] | None \<Rightarrow> Text (token @ '']''))) = token @ '']''"
        using t(2) by (auto split: option.split dest!: cut_at_Some)
      moreover have "concat (map seg_source (if n > 0 then Text (take n c) else [])) = take n c" by (cases n) simp_all
      ultimately show ?thesis
        using Some p \<open>str_index c ''[emote:'' = Some n\<close> ih t(1) by (subst parseContent.simps) simp
    qed
  qed
qed

text \<open>A message printed: text, emote tokens and text.\<close>

fun render :: "(string \<times> string \<times> string) list \<Rightarrow> string \<Rightarrow> string" where
  "render [] tail = tail"
| "render ((t, i, name) # ps) tail = t @ ''[emote:'' @ i @ '':'' @ name @ '']'' @ render ps tail"

text \<open>The token starts at the first bracket sequence: a text without one, put before it, does not move it.\<close>

lemma str_index_here: "\<not> contains t ''[emote:'' \<Longrightarrow> str_index (t @ ''[emote:'' @ r) ''[emote:'' = Some (length t)"
proof (induction t)
  case Nil
  then show ?case by (simp add: has_prefix_def)
next
  case (Cons c t)
  have "\<not> has_prefix (c # t @ ''[emote:'' @ r) ''[emote:''"
  proof
    assume "has_prefix (c # t @ ''[emote:'' @ r) ''[emote:''"
    then have "prefix ''[emote:'' ((c # t) @ ''[emote:'' @ r)" by (simp only: has_prefix_conv append_Cons)
    moreover have "\<not> prefix ''[emote:'' (c # t)" using Cons.prems unfolding contains.simps has_prefix_conv by blast
    ultimately obtain us where us: "''[emote:'' = (c # t) @ us" "prefix us (''[emote:'' @ r)" unfolding prefix_append by blast
    have "us \<noteq> []" using us(1) Cons.prems unfolding contains.simps has_prefix_conv by auto
    then have "CHR ''['' \<in> set us" using us(2) by (cases us) auto
    moreover have "''emote:'' = t @ us" using us(1) by simp
    ultimately have "CHR ''['' \<in> set ''emote:''" by (metis in_set_conv_decomp append.assoc)
    then show False by simp
  qed
  then show ?case using Cons by simp
qed

lemma parseContent_token:
  assumes "\<not> contains t ''[emote:''" "CHR '':'' \<notin> set i" "CHR '']'' \<notin> set i" "CHR '']'' \<notin> set name"
  shows "parseContent (t @ ''[emote:'' @ i @ '':'' @ name @ '']'' @ rest) = Text t @ kick_emote_seg i name # parseContent rest"
proof -
  let ?c = "t @ ''[emote:'' @ i @ '':'' @ name @ '']'' @ rest"
  have at: "str_index ?c ''[emote:'' = Some (length t)" by (rule str_index_here [OF assms(1)])
  have "cut_at CHR '']'' ((''[emote:'' @ i @ '':'' @ name) @ CHR '']'' # rest) = Some (''[emote:'' @ i @ '':'' @ name, rest)"
    by (rule cut_at_append) (use assms in simp)
  then have token: "cut_at CHR '']'' (drop (length t) ?c) = Some (''[emote:'' @ i @ '':'' @ name, rest)" by simp
  have "cut_at CHR '':'' (i @ CHR '':'' # name) = Some (i, name)" by (rule cut_at_append [OF assms(2)])
  then show ?thesis using at token by (subst parseContent.simps) (cases t; simp add: Text_def flush_def)
qed

text \<open>
  The segments of a Kick message are exactly its content. Whatever the content, malformed and unterminated tokens
  included, the text each segment was read from concatenates to it: nothing is lost, added or moved. And content made of
  text and emote tokens gives the segments of each text and an emote per token, with its id, name and picture.
\<close>

theorem kick_content:
  assumes "\<forall>(t, i, name) \<in> set ps. \<not> contains t ''[emote:'' \<and> CHR '':'' \<notin> set i \<and> CHR '']'' \<notin> set i \<and> CHR '']'' \<notin> set name"
    and "\<not> contains tail ''[emote:''"
  shows "parseContent (render ps tail) = concat (map (\<lambda>(t, i, name). Text t @ [kick_emote_seg i name]) ps) @ Text tail
    \<and> concat (map seg_source (parseContent c)) = c"
proof
  show "parseContent (render ps tail) = concat (map (\<lambda>(t, i, name). Text t @ [kick_emote_seg i name]) ps) @ Text tail"
    using assms
  proof (induction ps)
    case Nil
    then have "str_index tail ''[emote:'' = None" using str_index_None by blast
    then show ?case by (subst parseContent.simps) simp
  next
    case (Cons p ps)
    obtain t i name where p: "p = (t, i, name)" by (cases p) auto
    show ?case using Cons p parseContent_token [of t i name "render ps tail"] by simp
  qed
qed (rule parseContent_source)

theorem kick_content_witness:
  "parseContent ''hi [emote:39:KEKW] @bob'' = [seg SegText ''hi '', kick_emote_seg ''39'' ''KEKW'', seg SegText '' '', seg SegMention ''@bob'']
    \<and> concat (map seg_source (parseContent ''a [emote:39] [emote:1:x'')) = ''a [emote:39] [emote:1:x''"
proof -
  have t: "Text ''hi '' = [seg SegText ''hi '']" "Text '' @bob'' = [seg SegText '' '', seg SegMention ''@bob'']" by code_simp+
  have r: "render [(''hi '', ''39'', ''KEKW'')] '' @bob'' = ''hi [emote:39:KEKW] @bob''" by simp
  show ?thesis
    using kick_content [of "[(''hi '', ''39'', ''KEKW'')]" "'' @bob''" "''a [emote:39] [emote:1:x''", unfolded r]
    by (simp add: t has_prefix_def)
qed

end
