(* ===== verification/Kick_Client.thy ===== *)
theory Kick_Client
  imports Kick_Normalize Http_Calls
begin

text \<open>
  \<^verbatim>\<open>internal/platform/kick\<close>: \<^verbatim>\<open>resolver.go\<close> and \<^verbatim>\<open>resolver_net.go\<close>, which turn a slug into a chatroom id behind a cache and a
  circuit breaker, \<^verbatim>\<open>api.go\<close>, the client of the official API, and the sending and moderating half of \<^verbatim>\<open>adapter.go\<close>. What
  the network answers and the JSON decoders are arguments; requests made are logged. Lookups are
  modelled one after the other: two that overlap may both find the breaker closed.
\<close>

subsection \<open>The chatroom resolver\<close>

datatype fetched = Fetched string | FetchBlocked | FetchNotFound | FetchFailed

text \<open>The answer of one lookup: an error of the transport, or a status and what the body holds.\<close>

definition http_fetch :: "(string \<Rightarrow> fetched) \<Rightarrow> http_answer \<Rightarrow> fetched" where
  "http_fetch extract ans = (case ans of
     Inl e \<Rightarrow> FetchFailed
   | Inr (status, body) \<Rightarrow>
       if status = 200 then extract body
       else if status \<in> {403, 503, 429} then FetchBlocked
       else if status = 404 then FetchNotFound else FetchFailed)"

text \<open>The v2 channel payload, and the official one: its entries with their chatroom id in two places.\<close>

definition extractChatroomID :: "(string \<Rightarrow> string option) \<Rightarrow> string \<Rightarrow> fetched" where
  "extractChatroomID dec body = (case dec body of
     None \<Rightarrow> FetchFailed | Some i \<Rightarrow> if i = [] then FetchNotFound else Fetched i)"

definition extractOfficialChatroomID :: "(string \<Rightarrow> (string \<times> string) list option) \<Rightarrow> string \<Rightarrow> fetched" where
  "extractOfficialChatroomID dec body = (case dec body of
     None \<Rightarrow> FetchFailed
   | Some [] \<Rightarrow> FetchNotFound
   | Some ((i, j) # _) \<Rightarrow> if i \<noteq> [] then Fetched i else if j \<noteq> [] then Fetched j else FetchNotFound)"

definition breakerThreshold :: int where
  "breakerThreshold = 3"

definition breakerCooldown :: duration where
  "breakerCooldown = 2 * minute"

datatype lookup = Direct string time fetched time | Fallback string fetched

record Resolver =
  rv_cache :: "string \<rightharpoonup> string"
  rv_failures :: int
  rv_openUntil :: time
  rv_log :: "lookup list"

text \<open>
  The surroundings of one call: when it starts, what the two lookups answer (None where there is no such fetcher), when the direct one
  has answered, and whether the cache can be written.
\<close>

record lookup_env =
  le_now :: time
  le_direct :: "fetched option"
  le_later :: time
  le_fallback :: "fetched option"
  le_put :: bool

definition NewResolver :: "(string \<rightharpoonup> string) \<Rightarrow> Resolver" where
  "NewResolver cache = \<lparr>rv_cache = cache, rv_failures = 0, rv_openUntil = zero_time, rv_log = []\<rparr>"

definition breakerOpen :: "time \<Rightarrow> Resolver \<Rightarrow> bool" where
  "breakerOpen now r = (now < rv_openUntil r)"

definition onFailure :: "time \<Rightarrow> Resolver \<Rightarrow> Resolver" where
  "onFailure now r =
    (let r = r\<lparr>rv_failures := rv_failures r + 1\<rparr>
     in if rv_failures r \<ge> breakerThreshold then r\<lparr>rv_openUntil := now + breakerCooldown\<rparr> else r)"

definition onSuccess :: "Resolver \<Rightarrow> Resolver" where
  "onSuccess r = r\<lparr>rv_failures := 0, rv_openUntil := zero_time\<rparr>"

definition cache_put :: "lookup_env \<Rightarrow> string \<Rightarrow> string \<Rightarrow> Resolver \<Rightarrow> Resolver" where
  "cache_put en slug i r = (if le_put en then r\<lparr>rv_cache := (rv_cache r)(slug \<mapsto> i)\<rparr> else r)"

definition looked :: "lookup \<Rightarrow> Resolver \<Rightarrow> Resolver" where
  "looked l r = r\<lparr>rv_log := rv_log r @ [l]\<rparr>"

text \<open>The direct lookup: its result if it settles the call, and whether the lookup was blocked.\<close>

definition resolve_direct :: "lookup_env \<Rightarrow> string \<Rightarrow> Resolver \<Rightarrow> (ReasonCode + string) option \<times> bool \<times> Resolver" where
  "resolve_direct en slug r =
    (if breakerOpen (le_now en) r then (None, True, r)
     else case le_direct en of
         None \<Rightarrow> (None, False, r)
       | Some a \<Rightarrow>
           let r = looked (Direct slug (le_now en) a (le_later en)) r
           in (case a of
               Fetched i \<Rightarrow> (Some (Inr i), False, cache_put en slug i (onSuccess r))
             | FetchBlocked \<Rightarrow> (None, True, onFailure (le_later en) r)
             | FetchNotFound \<Rightarrow> (Some (Inl ReasonChannelNotFound), False, r)
             | FetchFailed \<Rightarrow> (None, False, onFailure (le_later en) r)))"

definition resolve_fallback :: "lookup_env \<Rightarrow> string \<Rightarrow> bool \<Rightarrow> Resolver \<Rightarrow> (ReasonCode + string) \<times> Resolver" where
  "resolve_fallback en slug blocked r =
    (let failed = Inl (if blocked then ReasonResolverBlocked else ReasonChannelNotFound)
     in case le_fallback en of
         None \<Rightarrow> (failed, r)
       | Some a \<Rightarrow>
           let r = looked (Fallback slug a) r
           in (case a of
               Fetched i \<Rightarrow> (Inr i, cache_put en slug i (onSuccess r))
             | FetchNotFound \<Rightarrow> (Inl ReasonChannelNotFound, r)
             | _ \<Rightarrow> (failed, r)))"

definition kick_Resolve :: "lookup_env \<Rightarrow> string \<Rightarrow> Resolver \<Rightarrow> (ReasonCode + string) \<times> Resolver" where
  "kick_Resolve en slug r = (case rv_cache r slug of
     Some i \<Rightarrow> (Inr i, r)
   | None \<Rightarrow> (case resolve_direct en slug r of
       (Some res, blocked, r) \<Rightarrow> (res, r)
     | (None, blocked, r) \<Rightarrow> resolve_fallback en slug blocked r))"

subsection \<open>The breaker\<close>

fun went_wrong :: "lookup \<Rightarrow> bool" where
  "went_wrong (Direct s t a u) = (a = FetchBlocked \<or> a = FetchFailed)"
| "went_wrong (Fallback s a) = False"

fun went_well :: "lookup \<Rightarrow> bool" where
  "went_well (Direct s t a u) = (\<exists>i. a = Fetched i)"
| "went_well (Fallback s a) = (\<exists>i. a = Fetched i)"

fun ended :: "lookup \<Rightarrow> time" where
  "ended (Direct s t a u) = u"
| "ended (Fallback s a) = 0"

text \<open>The breaker a sequence of lookups leaves: failures in a row, and until when it is open.\<close>

definition breaker_step :: "lookup \<Rightarrow> int \<times> time \<Rightarrow> int \<times> time" where
  "breaker_step l st = (if went_well l then (0, zero_time)
     else if went_wrong l then (fst st + 1, if fst st + 1 \<ge> breakerThreshold then ended l + breakerCooldown else snd st)
     else st)"

definition breaker_of :: "lookup list \<Rightarrow> int \<times> time" where
  "breaker_of ls = fold breaker_step ls (0, zero_time)"

definition respected :: "lookup list \<Rightarrow> bool" where
  "respected ls \<longleftrightarrow> (\<forall>pre s t a u post. ls = pre @ Direct s t a u # post \<longrightarrow> snd (breaker_of pre) \<le> t)"

definition breaker_inv :: "Resolver \<Rightarrow> bool" where
  "breaker_inv r \<longleftrightarrow> breaker_of (rv_log r) = (rv_failures r, rv_openUntil r) \<and> respected (rv_log r)"

lemma breaker_snoc: "breaker_of (ls @ [l]) = breaker_step l (breaker_of ls)"
  by (simp add: breaker_of_def)

lemma respected_snoc: "respected (ls @ [l]) \<longleftrightarrow> respected ls \<and> (\<forall>s t a u. l = Direct s t a u \<longrightarrow> snd (breaker_of ls) \<le> t)"
proof
  assume r: "respected (ls @ [l])"
  have "respected ls" unfolding respected_def
  proof (intro allI impI)
    fix pre s t a u post assume "ls = pre @ Direct s t a u # post"
    then have "ls @ [l] = pre @ Direct s t a u # (post @ [l])" by simp
    then show "snd (breaker_of pre) \<le> t" using r unfolding respected_def by blast
  qed
  then show "respected ls \<and> (\<forall>s t a u. l = Direct s t a u \<longrightarrow> snd (breaker_of ls) \<le> t)" using r unfolding respected_def by blast
next
  assume r: "respected ls \<and> (\<forall>s t a u. l = Direct s t a u \<longrightarrow> snd (breaker_of ls) \<le> t)"
  show "respected (ls @ [l])" unfolding respected_def
  proof (intro allI impI)
    fix pre s t a u post assume e: "ls @ [l] = pre @ Direct s t a u # post"
    show "snd (breaker_of pre) \<le> t"
    proof (cases post rule: rev_cases)
      case Nil
      then show ?thesis using e r by simp
    next
      case (snoc ys y)
      then have "ls = pre @ Direct s t a u # ys" using e by simp
      then show ?thesis using r unfolding respected_def by blast
    qed
  qed
qed

lemma put_frame [simp]:
  "rv_log (cache_put en s i r) = rv_log r" "rv_failures (cache_put en s i r) = rv_failures r" "rv_openUntil (cache_put en s i r) = rv_openUntil r"
  by (simp_all add: cache_put_def)

lemma inv_fallback: "breaker_inv r \<Longrightarrow> breaker_inv (snd (resolve_fallback en slug b r))"
  by (auto simp: resolve_fallback_def Let_def breaker_inv_def looked_def onSuccess_def breaker_snoc respected_snoc breaker_step_def
      split: option.split fetched.split)

lemma inv_direct: "breaker_inv r \<Longrightarrow> breaker_inv (snd (snd (resolve_direct en slug r)))"
  by (auto simp: resolve_direct_def Let_def breaker_inv_def looked_def onSuccess_def onFailure_def breaker_snoc respected_snoc breaker_step_def
      breakerOpen_def split: option.split fetched.split)

lemma inv_Resolve: "breaker_inv r \<Longrightarrow> breaker_inv (snd (kick_Resolve en slug r))"
proof (cases "rv_cache r slug")
  case None
  assume b: "breaker_inv r"
  obtain res bl r1 where d: "resolve_direct en slug r = (res, bl, r1)" by (cases "resolve_direct en slug r") auto
  then have "breaker_inv r1" using inv_direct [OF b, of en slug] by simp
  then show ?thesis using None d inv_fallback [of r1 en slug bl] by (cases res) (simp_all add: kick_Resolve_def)
qed (simp add: kick_Resolve_def)

lemma breaker_more: "\<not> list_ex went_well ls \<Longrightarrow> fst (fold breaker_step ls st) = fst st + int (length (filter went_wrong ls))"
proof (induction ls arbitrary: st)
  case (Cons l ls)
  then show ?case by (simp add: breaker_step_def)
qed simp

lemma breaker_quiet: "\<not> list_ex went_well ls \<Longrightarrow> \<not> list_ex went_wrong ls \<Longrightarrow> fold breaker_step ls st = st"
  by (induction ls arbitrary: st) (simp_all add: breaker_step_def)

lemma breaker_nonneg: "0 \<le> fst st \<Longrightarrow> 0 \<le> fst (fold breaker_step ls st)"
proof (induction ls arbitrary: st)
  case (Cons l ls)
  then show ?case by (simp add: breaker_step_def)
qed simp

definition resolve_all :: "(lookup_env \<times> string) list \<Rightarrow> Resolver \<Rightarrow> Resolver" where
  "resolve_all calls r = fold (\<lambda>(en, slug) r. snd (kick_Resolve en slug r)) calls r"

lemma resolve_all_inv: "breaker_inv r \<Longrightarrow> breaker_inv (resolve_all calls r)"
  unfolding resolve_all_def by (induction calls arbitrary: r) (auto simp: inv_Resolve split_beta)

lemma breaker_inv_start: "breaker_inv (NewResolver cache)"
  by (simp add: breaker_inv_def NewResolver_def breaker_of_def respected_def)

text \<open>
  C33. The breaker spares a blocked endpoint: in any sequence of resolutions, once three direct lookups have failed with no
  success in between, direct or by the fallback, no direct lookup starts within two minutes after the
  last of these failures, unless a lookup succeeded first. The failures may be of different channels.
\<close>

theorem resolver_breaker:
  assumes "rv_log (resolve_all calls (NewResolver cache)) = pre @ run @ [bad] @ quiet @ [Direct s t a u] @ post"
    and "\<not> list_ex went_well (run @ [bad] @ quiet)" "went_wrong bad" "\<not> list_ex went_wrong quiet" "2 \<le> length (filter went_wrong run)"
  shows "ended bad + breakerCooldown \<le> t"
proof -
  have "breaker_inv (resolve_all calls (NewResolver cache))" by (rule resolve_all_inv [OF breaker_inv_start])
  then have r: "respected (pre @ run @ [bad] @ quiet @ [Direct s t a u] @ post)" using assms(1) by (simp add: breaker_inv_def)
  have "0 \<le> fst (breaker_of pre)" unfolding breaker_of_def by (rule breaker_nonneg) simp
  then have "2 \<le> fst (fold breaker_step run (breaker_of pre))"
    using breaker_more [of run "breaker_of pre"] assms(2,5) by simp
  then have "snd (breaker_step bad (fold breaker_step run (breaker_of pre))) = ended bad + breakerCooldown"
    using assms(2,3) by (simp add: breaker_step_def breakerThreshold_def)
  moreover have "breaker_of (pre @ run @ [bad] @ quiet) = breaker_step bad (fold breaker_step run (breaker_of pre))"
    using assms(2,4) by (simp add: breaker_of_def breaker_quiet)
  moreover have "snd (breaker_of (pre @ run @ [bad] @ quiet)) \<le> t" using r unfolding respected_def by simp
  ultimately show ?thesis by simp
qed

text \<open>Three blocked lookups of one slug within a second, and a fourth call three minutes later.\<close>

definition blocked_at :: "time \<Rightarrow> lookup_env" where
  "blocked_at t = \<lparr>le_now = t, le_direct = Some FetchBlocked, le_later = t + 1, le_fallback = None, le_put = True\<rparr>"

theorem resolver_breaker_witness:
  "breakerCooldown \<le> 3 * minute - 3 \<and>
   rv_log (resolve_all (map (\<lambda>t. (blocked_at t, ''xqc'')) [0, 1, 2, minute, 3 * minute]) (NewResolver Map.empty)) =
     map (\<lambda>t. Direct ''xqc'' t FetchBlocked (t + 1)) [0, 1, 2, 3 * minute]"
proof -
  have ls: "rv_log (resolve_all (map (\<lambda>t. (blocked_at t, ''xqc'')) [0, 1, 2, minute, 3 * minute]) (NewResolver Map.empty)) =
     map (\<lambda>t. Direct ''xqc'' t FetchBlocked (t + 1)) [0, 1, 2, 3 * minute]" by code_simp
  have "ended (Direct ''xqc'' 2 FetchBlocked 3) + breakerCooldown \<le> 3 * minute"
    by (rule resolver_breaker [of "map (\<lambda>t. (blocked_at t, ''xqc'')) [0, 1, 2, minute, 3 * minute]" Map.empty "[]"
        "[Direct ''xqc'' 0 FetchBlocked 1, Direct ''xqc'' 1 FetchBlocked 2]" _ "[]" "''xqc''" "3 * minute" FetchBlocked "3 * minute + 1" "[]"])
      (unfold ls, simp_all)
  then show ?thesis using ls by simp
qed

text \<open>A channel that was resolved once, by either lookup, is answered from the cache ever after, without a lookup.\<close>

lemma resolve_caches:
  assumes "kick_Resolve en slug r = (Inr i, r')" "le_put en"
  shows "rv_cache r' slug = Some i"
  using assms
  by (auto simp: kick_Resolve_def resolve_direct_def resolve_fallback_def cache_put_def Let_def split: option.splits fetched.splits if_splits)

lemma cache_kept: "rv_cache r slug = Some i \<Longrightarrow> rv_cache (snd (kick_Resolve en s r)) slug = Some i"
  by (auto simp: kick_Resolve_def resolve_direct_def resolve_fallback_def cache_put_def looked_def onSuccess_def onFailure_def Let_def
      split: option.splits fetched.splits)

lemma resolved_for_good:
  assumes "kick_Resolve en slug r = (Inr i, r')" "le_put en"
  shows "kick_Resolve en' slug (resolve_all calls r') = (Inr i, resolve_all calls r')"
proof -
  have "rv_cache (resolve_all calls r') slug = Some i" using resolve_caches [OF assms]
    unfolding resolve_all_def by (induction calls arbitrary: r') (auto simp: cache_kept split_beta)
  then show ?thesis by (simp add: kick_Resolve_def)
qed

text \<open>A lookup that failed for any other reason, the network being down included, is reported as an unknown channel.\<close>

lemma outage_reads_not_found:
  "rv_cache r slug = None \<Longrightarrow> \<not> breakerOpen (le_now en) r \<Longrightarrow> le_direct en = Some FetchFailed \<Longrightarrow> le_fallback en \<in> {None, Some FetchFailed, Some FetchBlocked} \<Longrightarrow>
    fst (kick_Resolve en slug r) = Inl ReasonChannelNotFound"
  by (auto simp: kick_Resolve_def resolve_direct_def resolve_fallback_def Let_def)

subsection \<open>The official API\<close>

definition maxTimeout :: duration where
  "maxTimeout = 10080 * minute"

text \<open>An answer: an error of the transport, or the status, the \<^verbatim>\<open>Retry-After\<close> header and the body.\<close>

type_synonym kick_answer = "string + int \<times> string \<times> string"

text \<open>Errors: the typed one that the governor looks for, any other with its text (the wait and the refused duration are not spelled out in it), and the port's own.\<close>

datatype kick_error = RateLimitError duration | KickError string | KickUnsupported

definition RateLimited_wait :: "kick_error \<Rightarrow> duration option" where
  "RateLimited_wait e = (case e of RateLimitError d \<Rightarrow> Some d | _ \<Rightarrow> None)"

record kick_api =
  ka_base :: string
  ka_http :: "http_call list \<Rightarrow> http_call \<Rightarrow> kick_answer"
  ka_sent :: "string \<Rightarrow> ((bool \<times> string) \<times> (bool \<times> string)) option"
  ka_channels :: "string \<Rightarrow> (string \<times> string) list option"

abbreviation apiBaseURL :: string where "apiBaseURL \<equiv> ''https://api.kick.com/public/v1''"

definition retry_wait :: "string \<Rightarrow> duration" where
  "retry_wait s = (case atoi s of Some secs \<Rightarrow> if secs > 0 then wrap64 (secs * second) else 0 | None \<Rightarrow> 0)"

definition kick_call :: "kick_api \<Rightarrow> string \<Rightarrow> string \<Rightarrow> (string \<times> string) list \<Rightarrow> string \<Rightarrow> (string \<times> jvalue) list option \<Rightarrow> http_call" where
  "kick_call k meth path query tok body = \<lparr>hc_Method = meth, hc_URL = ka_base k @ path, hc_Query = query, hc_Token = tok, hc_ClientID = [],
     hc_Body = map_option JObj body\<rparr>"

definition kick_result :: "http_call \<Rightarrow> kick_answer \<Rightarrow> kick_error + string" where
  "kick_result rq ans = (case ans of
     Inl e \<Rightarrow> Inl (KickError e)
   | Inr (status, retry, raw) \<Rightarrow>
       if status = 429 then Inl (RateLimitError (retry_wait retry))
       else if status < 200 \<or> status > 299
         then Inl (KickError (status_error (''kick: '' @ hc_Method rq @ '' '' @ hc_URL rq) status raw))
       else Inr raw)"

definition kick_do :: "kick_api \<Rightarrow> http_call \<Rightarrow> http_call list \<Rightarrow> (kick_error + string) \<times> http_call list" where
  "kick_do k rq calls = (kick_result rq (ka_http k calls rq), calls @ [rq])"

definition numericID :: "string \<Rightarrow> int option" where
  "numericID s = (case atoi s of Some n \<Rightarrow> if n \<le> 0 then None else Some n | None \<Rightarrow> None)"

definition not_numeric :: "string \<Rightarrow> string \<Rightarrow> kick_error" where
  "not_numeric what s = KickError (''kick: '' @ what @ '': user id '' @ quoted s @ '' is not a positive number'')"

definition drop_body :: "(kick_error + string) \<times> http_call list \<Rightarrow> kick_error option \<times> http_call list" where
  "drop_body r = (case r of (Inl e, calls) \<Rightarrow> (Some e, calls) | (Inr raw, calls) \<Rightarrow> (None, calls))"

definition kick_SendChat :: "kick_api \<Rightarrow> string \<Rightarrow> string \<Rightarrow> string \<Rightarrow> string \<Rightarrow> http_call list \<Rightarrow> (kick_error + string) \<times> http_call list" where
  "kick_SendChat k tok bid content reply calls = (case numericID bid of
     None \<Rightarrow> (Inl (not_numeric ''send'' bid), calls)
   | Some b \<Rightarrow>
       (case kick_do k (kick_call k ''POST'' ''/chat'' [] tok (Some
            ([(''type'', JStr ''user''), (''broadcaster_user_id'', JInt b), (''content'', JStr content)]
             @ (if reply \<noteq> [] then [(''reply_to_message_id'', JStr reply)] else [])))) calls of
          (Inl e, calls) \<Rightarrow> (Inl e, calls)
        | (Inr raw, calls) \<Rightarrow>
            ((case ka_sent k raw of
                None \<Rightarrow> Inl (KickError ''kick: decode send response'')
              | Some ((sent, i), (inner, j)) \<Rightarrow>
                  (let (sent, i) = (if j \<noteq> [] \<or> inner then (inner, j) else (sent, i))
                   in if sent then Inr i else Inl (KickError ''kick: message not sent''))), calls)))"

definition kick_BroadcasterID :: "kick_api \<Rightarrow> string \<Rightarrow> string \<Rightarrow> http_call list \<Rightarrow> (kick_error + string) \<times> http_call list" where
  "kick_BroadcasterID k tok slug calls =
    (case kick_do k (kick_call k ''GET'' ''/channels'' [(''slug'', slug)] tok None) calls of
       (Inl e, calls) \<Rightarrow> (Inl e, calls)
     | (Inr raw, calls) \<Rightarrow>
         ((case ka_channels k raw of
             None \<Rightarrow> Inl (KickError ''kick: decode channel'')
           | Some [] \<Rightarrow> Inl (KickError (''kick: no channel for slug '' @ quoted slug))
           | Some ((i, j) # _) \<Rightarrow>
               (let i = (if i = [] \<or> i = ''0'' then j else i)
                in if i = [] \<or> i = ''0'' then Inl (KickError (''kick: no broadcaster id for slug '' @ quoted slug)) else Inr i)), calls))"

definition kick_DeleteMessage :: "kick_api \<Rightarrow> string \<Rightarrow> string \<Rightarrow> http_call list \<Rightarrow> kick_error option \<times> http_call list" where
  "kick_DeleteMessage k tok msg calls = drop_body (kick_do k (kick_call k ''DELETE'' (''/chat/'' @ msg) [] tok None) calls)"

definition kick_Ban :: "kick_api \<Rightarrow> string \<Rightarrow> string \<Rightarrow> string \<Rightarrow> duration \<Rightarrow> string \<Rightarrow> http_call list \<Rightarrow> kick_error option \<times> http_call list" where
  "kick_Ban k tok bid uid d reason calls = (case numericID bid of
     None \<Rightarrow> (Some (not_numeric ''ban'' bid), calls)
   | Some b \<Rightarrow> (case numericID uid of
       None \<Rightarrow> (Some (not_numeric ''ban'' uid), calls)
     | Some u \<Rightarrow>
         if d > 0 \<and> d > maxTimeout then (Some (KickError ''kick: timeout longer than the 7-day maximum''), calls)
         else drop_body (kick_do k (kick_call k ''POST'' ''/moderation/bans'' [] tok (Some
           ([(''broadcaster_user_id'', JInt b), (''user_id'', JInt u)]
            @ (if d > 0 then [(''duration'', JInt (trunc_div (wrap64 (d + minute - 1)) minute))] else [])
            @ (if reason \<noteq> [] then [(''reason'', JStr reason)] else [])))) calls)))"

definition kick_Unban :: "kick_api \<Rightarrow> string \<Rightarrow> string \<Rightarrow> string \<Rightarrow> http_call list \<Rightarrow> kick_error option \<times> http_call list" where
  "kick_Unban k tok bid uid calls = (case numericID bid of
     None \<Rightarrow> (Some (not_numeric ''unban'' bid), calls)
   | Some b \<Rightarrow> (case numericID uid of
       None \<Rightarrow> (Some (not_numeric ''unban'' uid), calls)
     | Some u \<Rightarrow> drop_body (kick_do k (kick_call k ''DELETE'' ''/moderation/bans'' [] tok
           (Some [(''broadcaster_user_id'', JInt b), (''user_id'', JInt u)])) calls)))"

definition api_Moderate :: "kick_api \<Rightarrow> string \<Rightarrow> string \<Rightarrow> ModAction \<Rightarrow> http_call list \<Rightarrow> kick_error option \<times> http_call list" where
  "api_Moderate k tok bid a calls =
    (let t = ma_Type a
     in if t = ModBan then kick_Ban k tok bid (ma_TargetUserID a) 0 (ma_Reason a) calls
        else if t = ModTimeout then
          kick_Ban k tok bid (ma_TargetUserID a) (if ma_Duration a \<le> 0 then minute else ma_Duration a) (ma_Reason a) calls
        else if t = ModUnban \<or> t = ModUntimeout then kick_Unban k tok bid (ma_TargetUserID a) calls
        else if t = ModDeleteMessage then kick_DeleteMessage k tok (ma_TargetMessageID a) calls
        else (Some KickUnsupported, calls))"

subsection \<open>The authenticated path of the adapter\<close>

record kickAuth =
  kt_tokens :: "string + string"
  kt_api :: kick_api
  kt_resolve :: "(string \<Rightarrow> string + string) option"
  kt_bid :: "string \<rightharpoonup> string"
  kt_calls :: "http_call list"

definition kick_Authenticate :: "string + string \<Rightarrow> kick_api \<Rightarrow> (string \<Rightarrow> string + string) option \<Rightarrow> kickAuth option" where
  "kick_Authenticate source k res = Some \<lparr>kt_tokens = source, kt_api = k, kt_resolve = res, kt_bid = Map.empty, kt_calls = []\<rparr>"

definition kick_broadcasterID :: "string \<Rightarrow> kickAuth \<Rightarrow> (kick_error + string) \<times> kickAuth" where
  "kick_broadcasterID slug au = (case kt_bid au slug of
     Some i \<Rightarrow> (Inr i, au)
   | None \<Rightarrow> (case kt_resolve au of
       None \<Rightarrow> (Inl (KickError (''kick: cannot resolve broadcaster id for '' @ quoted slug)), au)
     | Some resolve \<Rightarrow> (case resolve slug of
         Inl e \<Rightarrow> (Inl (KickError e), au)
       | Inr i \<Rightarrow> (Inr i, au\<lparr>kt_bid := (kt_bid au)(slug \<mapsto> i)\<rparr>))))"

definition kick_ResolveID :: "string \<Rightarrow> kickAuth option \<Rightarrow> (kick_error + string) \<times> kickAuth option" where
  "kick_ResolveID slug auth = (case auth of
     None \<Rightarrow> (Inl (KickError ''kick: not authenticated''), None)
   | Some au \<Rightarrow> apsnd Some (kick_broadcasterID slug au))"

text \<open>What both authenticated operations do first: the broadcaster, then a token.\<close>

definition kick_prepare :: "string \<Rightarrow> kickAuth \<Rightarrow> (kick_error + string \<times> string) \<times> kickAuth" where
  "kick_prepare slug au = (case kick_broadcasterID (to_lower slug) au of
     (Inl e, au) \<Rightarrow> (Inl e, au)
   | (Inr bid, au) \<Rightarrow> (case kt_tokens au of Inl e \<Rightarrow> (Inl (KickError e), au) | Inr tok \<Rightarrow> (Inr (bid, tok), au)))"

definition kick_Send :: "ChannelRef \<Rightarrow> string \<Rightarrow> SendOpts \<Rightarrow> kickAuth option \<Rightarrow> kick_error option \<times> kickAuth option" where
  "kick_Send ch body opts auth = (case auth of
     None \<Rightarrow> (Some KickUnsupported, None)
   | Some au \<Rightarrow> (case kick_prepare (ch_Slug ch) au of
       (Inl e, au) \<Rightarrow> (Some e, Some au)
     | (Inr (bid, tok), au) \<Rightarrow>
         (case kick_SendChat (kt_api au) tok bid body (so_ReplyParentID opts) (kt_calls au) of
           (r, calls) \<Rightarrow> ((case r of Inl e \<Rightarrow> Some e | Inr i \<Rightarrow> None), Some (au\<lparr>kt_calls := calls\<rparr>)))))"

definition kick_Moderate :: "ModAction \<Rightarrow> kickAuth option \<Rightarrow> kick_error option \<times> kickAuth option" where
  "kick_Moderate a auth = (case auth of
     None \<Rightarrow> (Some KickUnsupported, None)
   | Some au \<Rightarrow> (case kick_prepare (ch_Slug (ma_Channel a)) au of
       (Inl e, au) \<Rightarrow> (Some e, Some au)
     | (Inr (bid, tok), au) \<Rightarrow>
         (case api_Moderate (kt_api au) tok bid a (kt_calls au) of (r, calls) \<Rightarrow> (r, Some (au\<lparr>kt_calls := calls\<rparr>)))))"

subsection \<open>What a moderation request does\<close>

definition kick_fields :: "http_call \<Rightarrow> (string \<times> jvalue) list" where
  "kick_fields rq = (case hc_Body rq of Some (JObj fs) \<Rightarrow> fs | _ \<Rightarrow> [])"

text \<open>A request on a user: the numeric ids of the channel and of the target, in the body.\<close>

definition kick_on_user :: "kickAuth \<Rightarrow> ModAction \<Rightarrow> http_call \<Rightarrow> bool" where
  "kick_on_user au a rq \<longleftrightarrow> hc_URL rq = ka_base (kt_api au) @ ''/moderation/bans''
     \<and> (\<exists>bid b u. kt_bid au (to_lower (ch_Slug (ma_Channel a))) = Some bid \<and> numericID bid = Some b \<and> numericID (ma_TargetUserID a) = Some u
       \<and> map_of (kick_fields rq) ''broadcaster_user_id'' = Some (JInt b) \<and> map_of (kick_fields rq) ''user_id'' = Some (JInt u))"

text \<open>How long: none for a ban, and for a timeout the whole minutes that cover its duration, at most seven days.\<close>

definition kick_in_time :: "ModAction \<Rightarrow> http_call \<Rightarrow> bool" where
  "kick_in_time a rq \<longleftrightarrow> (case map_of (kick_fields rq) ''duration'' of
     None \<Rightarrow> ma_Type a = ModBan
   | Some v \<Rightarrow> ma_Type a = ModTimeout \<and> (\<exists>m. v = JInt m \<and> 1 \<le> m \<and> m \<le> 10080
       \<and> ma_Duration a \<le> m * minute \<and> (0 < ma_Duration a \<longrightarrow> m * minute < ma_Duration a + minute)))"

definition kick_performs :: "kickAuth \<Rightarrow> ModAction \<Rightarrow> http_call \<Rightarrow> bool" where
  "kick_performs au a rq \<longleftrightarrow>
     (if ma_Type a \<in> {ModBan, ModTimeout} then hc_Method rq = ''POST'' \<and> kick_on_user au a rq \<and> kick_in_time a rq
      else if ma_Type a \<in> {ModUnban, ModUntimeout} then hc_Method rq = ''DELETE'' \<and> kick_on_user au a rq
      else ma_Type a = ModDeleteMessage \<and> hc_Method rq = ''DELETE'' \<and> hc_URL rq = ka_base (kt_api au) @ ''/chat/'' @ ma_TargetMessageID a)"

text \<open>Refused without a request, or one request that performs the action and decides the result.\<close>

definition kick_acts :: "kickAuth \<Rightarrow> ModAction \<Rightarrow> kick_error option \<times> http_call list \<Rightarrow> bool" where
  "kick_acts au a r \<longleftrightarrow> fst r \<noteq> None \<and> snd r = kt_calls au
     \<or> (\<exists>rq. snd r = kt_calls au @ [rq] \<and> kick_performs au a rq
         \<and> (case kick_result rq (ka_http (kt_api au) (kt_calls au) rq) of Inl e \<Rightarrow> fst r = Some e | Inr raw \<Rightarrow> fst r = None))"

lemma minutes_of:
  assumes "0 < d" "d \<le> maxTimeout"
  shows "let m = trunc_div (wrap64 (d + minute - 1)) minute in 1 \<le> m \<and> m \<le> 10080 \<and> d \<le> m * minute \<and> m * minute < d + minute"
proof -
  have m: "minute = 60000000000" by (simp add: minute_def second_def)
  have "wrap64 (d + minute - 1) = d + minute - 1"
    using assms by (intro wrap64_id) (simp add: int64_ok_def maxTimeout_def m)
  moreover have "trunc_div (d + minute - 1) minute = (d + minute - 1) div minute"
    using assms by (intro trunc_div_nonneg) (simp_all add: m)
  moreover define q where "q = (d + minute - 1) div minute"
  moreover have "q * 60000000000 \<le> d + 60000000000 - 1" "d + 60000000000 - 1 < q * 60000000000 + 60000000000"
    unfolding q_def m using div_mult_mod_eq [of "d + 60000000000 - 1" 60000000000] pos_mod_bound [of 60000000000 "d + 60000000000 - 1"]
      pos_mod_sign [of 60000000000 "d + 60000000000 - 1"] by linarith+
  ultimately show ?thesis using assms unfolding Let_def maxTimeout_def m by (simp add: m)
qed

lemma acts_done: "kick_performs au a rq \<Longrightarrow> kick_acts au a (drop_body (kick_do (kt_api au) rq (kt_calls au)))"
  unfolding kick_acts_def by (rule disjI2, rule exI [of _ rq]) (simp add: drop_body_def kick_do_def split: sum.split)

lemma acts_not: "kick_acts au a (Some e, kt_calls au)"
  by (simp add: kick_acts_def)

lemma ban_acts:
  assumes "kt_bid au (to_lower (ch_Slug (ma_Channel a))) = Some bid"
    "ma_Type a = ModBan \<and> d = 0 \<or> ma_Type a = ModTimeout \<and> d = (if ma_Duration a \<le> 0 then minute else ma_Duration a)"
  shows "kick_acts au a (kick_Ban (kt_api au) tok bid (ma_TargetUserID a) d reason (kt_calls au))"
proof (cases "numericID bid")
  case (Some b)
  show ?thesis
  proof (cases "numericID (ma_TargetUserID a)")
    case u: (Some u)
    show ?thesis
    proof (cases "d > 0 \<and> d > maxTimeout")
      case False
      let ?fs = "[(''broadcaster_user_id'', JInt b), (''user_id'', JInt u)]
            @ (if d > 0 then [(''duration'', JInt (trunc_div (wrap64 (d + minute - 1)) minute))] else [])
            @ (if reason \<noteq> [] then [(''reason'', JStr reason)] else [])"
      let ?rq = "kick_call (kt_api au) ''POST'' ''/moderation/bans'' [] tok (Some ?fs)"
      have on: "kick_on_user au a ?rq" using assms(1) Some u by (simp add: kick_on_user_def kick_call_def kick_fields_def)
      have "kick_in_time a ?rq"
      proof (cases "0 < d")
        case True
        then have "ma_Type a = ModTimeout" "0 < ma_Duration a \<Longrightarrow> d = ma_Duration a" "ma_Duration a \<le> d" using assms(2) by (auto simp: minute_def second_def)
        moreover note minutes_of [OF True] False
        ultimately show ?thesis using True by (auto simp: kick_in_time_def kick_call_def kick_fields_def Let_def)
      next
        case False
        then have "ma_Type a = ModBan" using assms(2) by (auto simp: minute_def second_def split: if_splits)
        then show ?thesis using False by (simp add: kick_in_time_def kick_call_def kick_fields_def)
      qed
      then have "kick_performs au a ?rq" using on assms(2) by (auto simp: kick_performs_def kick_call_def)
      then show ?thesis using Some u acts_done [of au a ?rq] by (simp add: kick_Ban_def acts_not)
    qed (use Some u in \<open>simp add: kick_Ban_def acts_not\<close>)
  qed (use Some in \<open>simp add: kick_Ban_def acts_not\<close>)
qed (simp add: kick_Ban_def acts_not)

lemma unban_acts:
  assumes "kt_bid au (to_lower (ch_Slug (ma_Channel a))) = Some bid" "ma_Type a \<in> {ModUnban, ModUntimeout}"
  shows "kick_acts au a (kick_Unban (kt_api au) tok bid (ma_TargetUserID a) (kt_calls au))"
proof (cases "numericID bid = None \<or> numericID (ma_TargetUserID a) = None")
  case False
  then obtain b u where n: "numericID bid = Some b" "numericID (ma_TargetUserID a) = Some u" by auto
  let ?rq = "kick_call (kt_api au) ''DELETE'' ''/moderation/bans'' [] tok (Some [(''broadcaster_user_id'', JInt b), (''user_id'', JInt u)])"
  have "kick_performs au a ?rq"
    using assms n by (auto simp: kick_performs_def kick_on_user_def kick_call_def kick_fields_def)
  then show ?thesis using n acts_done [of au a ?rq] by (simp add: kick_Unban_def)
qed (auto simp: kick_Unban_def acts_not split: option.split)

lemma api_acts:
  assumes "kt_bid au (to_lower (ch_Slug (ma_Channel a))) = Some bid"
  shows "kick_acts au a (api_Moderate (kt_api au) tok bid a (kt_calls au))"
proof -
  consider "ma_Type a = ModBan" | "ma_Type a = ModTimeout" | "ma_Type a \<in> {ModUnban, ModUntimeout}" | "ma_Type a = ModDeleteMessage"
    | "ma_Type a \<notin> {ModBan, ModTimeout, ModUnban, ModUntimeout, ModDeleteMessage}" by auto
  then show ?thesis
  proof cases
    case 3
    then show ?thesis using unban_acts [OF assms 3, of tok] by (auto simp: api_Moderate_def Let_def)
  next
    case 4
    then have "kick_performs au a (kick_call (kt_api au) ''DELETE'' (''/chat/'' @ ma_TargetMessageID a) [] tok None)"
      by (simp add: kick_performs_def kick_call_def)
    then show ?thesis using 4 acts_done by (simp add: api_Moderate_def Let_def kick_DeleteMessage_def)
  qed (use ban_acts [OF assms] acts_not in \<open>simp_all add: api_Moderate_def Let_def\<close>)
qed


text \<open>The text that is sent is the text given: the flag that asks for an action is not looked at.\<close>

lemma kick_ignores_action: "kick_Send ch body (opts\<lparr>so_Action := True\<rparr>) auth = kick_Send ch body (opts\<lparr>so_Action := False\<rparr>) auth"
  by (simp add: kick_Send_def split: option.split sum.split prod.split)

end
