(* ===== verification/Kick_Adapter.thy ===== *)
theory Kick_Adapter
  imports Kick_Client Twitch_Shard
begin

text \<open>
  \<^verbatim>\<open>internal/platform/kick/adapter.go\<close>, the reading half: joins and leaves, the one Pusher connection that carries
  every chatroom, and the supervisor that reads it and reconnects. The steps are the critical sections and single I/O
  calls of the goroutines: the supervisor, and any number of callers of \<^verbatim>\<open>Join\<close>, \<^verbatim>\<open>Leave\<close> and \<^verbatim>\<open>Close\<close>, which dial and write
  outside the lock. The network is an argument: every dial may fail, every connection may
  break at any time, and the server may send any frame.
\<close>

subsection \<open>State\<close>

text \<open>\<^verbatim>\<open>backoff.go\<close> is, apart from its comments, the file of the Twitch adapter.\<close>

definition kick_delay :: "backoff \<Rightarrow> int \<Rightarrow> 64 word \<Rightarrow> duration" where
  "kick_delay b attempt rnd = delay b attempt rnd"

definition defaultBackoffBase :: duration where
  "defaultBackoffBase = 500 * millisecond"

definition defaultBackoffMax :: duration where
  "defaultBackoffMax = 30 * second"

definition kick_downAfterAttempts :: int where
  "kick_downAfterAttempts = 5"

text \<open>
  The supervisor: not started, reading a connection, subscribing the chatrooms of a snapshot on it, waiting before or making
  reconnect attempt \<open>n\<close>, done, or brought down by a panic. What callers still have to do: dial for a first join,
  enter a channel, write a frame to a connection.
\<close>

datatype kick_phase = KIdle | KReading nat | KSubscribing nat "string list" | KWaiting int | KDialing int | KStopped | KPanicked

datatype kick_task = JoinDial ChannelRef | JoinAdd ChannelRef | WriteFrame nat out_frame

text \<open>
  Connections are numbered in dial order. Ghost fields: \<open>kk_wire\<close>, the frames written to each connection; \<open>kk_dead\<close>, the broken
  ones; \<open>kk_greeted\<close>, those whose \<open>connection_established\<close> has been read; \<open>kk_events\<close>, what was emitted;
  \<open>kk_lost\<close>, the events whose emission came after the channel was closed, each of which may panic.
\<close>

record kick_adapter =
  kk_backoff :: backoff
  kk_subs :: "(string \<times> ChannelRef) list"
  kk_conn :: "nat option"
  kk_health :: HealthStatus
  kk_rng :: "64 word"
  kk_started :: bool
  kk_closed :: bool
  kk_phase :: kick_phase
  kk_todo :: "kick_task list"
  kk_next :: nat
  kk_wire :: "nat \<Rightarrow> out_frame list"
  kk_dead :: "nat set"
  kk_greeted :: "nat set"
  kk_done :: bool
  kk_events :: "Event list"
  kk_lost :: "Event list"

definition kick_New :: "duration \<Rightarrow> duration \<Rightarrow> 64 word \<Rightarrow> kick_adapter" where
  "kick_New base mx seed = \<lparr>
     kk_backoff = \<lparr>bo_base = (if base \<le> 0 then defaultBackoffBase else base), bo_max = (if mx \<le> 0 then defaultBackoffMax else mx)\<rparr>,
     kk_subs = [], kk_conn = None, kk_health = health HealthOK ReasonNone, kk_rng = seed OR 1, kk_started = False, kk_closed = False,
     kk_phase = KIdle, kk_todo = [], kk_next = 0, kk_wire = (\<lambda>_. []), kk_dead = {}, kk_greeted = {}, kk_done = False, kk_events = [], kk_lost = []\<rparr>"

definition kick_Capabilities :: "bool \<Rightarrow> Capabilities" where
  "kick_Capabilities authenticated = \<lparr>ReadAnonymous = True, ReadAuthed = authenticated, cap_Send = authenticated, cap_Moderation = authenticated,
     cap_Replies = authenticated, HeldQueue = False, Stability = TierUnofficial\<rparr>"

definition kick_nextRand :: "kick_adapter \<Rightarrow> 64 word \<times> kick_adapter" where
  "kick_nextRand a =
    (let r = kk_rng a + 0x9e3779b97f4a7c15;
         z = (r XOR drop_bit 30 r) * 0xbf58476d1ce4e5b9;
         z = (z XOR drop_bit 27 z) * 0x94d049bb133111eb
     in (z XOR drop_bit 31 z, a\<lparr>kk_rng := r\<rparr>))"

definition kick_emit :: "Event \<Rightarrow> kick_adapter \<Rightarrow> kick_adapter" where
  "kick_emit ev a = (if kk_done a then a\<lparr>kk_lost := kk_lost a @ [ev]\<rparr> else a\<lparr>kk_events := kk_events a @ [ev]\<rparr>)"

definition kick_setHealth :: "HealthStatus \<Rightarrow> kick_adapter \<Rightarrow> kick_adapter" where
  "kick_setHealth h a =
    (let changed = (hs_State (kk_health a) \<noteq> hs_State h \<or> hs_Reason (kk_health a) \<noteq> hs_Reason h);
         a = a\<lparr>kk_health := h\<rparr>
     in if changed then kick_emit (HealthEvent None h) a else a)"

subsection \<open>Joins and leaves\<close>

text \<open>The chatroom a join is for: given, or resolved.\<close>

definition join_ref :: "lookup_env \<Rightarrow> ChannelRef \<Rightarrow> Resolver option \<Rightarrow> (string + ChannelRef) \<times> Resolver option" where
  "join_ref en ch rs =
    (if ch_ID ch \<noteq> [] then (Inr ch, rs)
     else case rs of
         None \<Rightarrow> (Inl (''kick: channel '' @ quoted (ch_Slug ch) @ '' has no chatroom id to subscribe to''), rs)
       | Some r \<Rightarrow> (case kick_Resolve en (ch_Slug ch) r of
           (Inl why, r) \<Rightarrow> (Inl (''kick: resolve '' @ quoted (ch_Slug ch) @ '': '' @ why), Some r)
         | (Inr i, r) \<Rightarrow> (Inr (ch\<lparr>ch_ID := i\<rparr>), Some r)))"

definition add_task :: "kick_task \<Rightarrow> kick_adapter \<Rightarrow> kick_adapter" where
  "add_task t a = a\<lparr>kk_todo := kk_todo a @ [t]\<rparr>"

definition drop_task :: "nat \<Rightarrow> kick_adapter \<Rightarrow> kick_adapter" where
  "drop_task i a = a\<lparr>kk_todo := take i (kk_todo a) @ drop (Suc i) (kk_todo a)\<rparr>"

definition kick_dial :: "kick_adapter \<Rightarrow> nat \<times> kick_adapter" where
  "kick_dial a = (kk_next a, a\<lparr>kk_next := kk_next a + 1\<rparr>)"

text \<open>The first section of \<^verbatim>\<open>Join\<close>: refused, already joined, or on to the dial or straight to the entry.\<close>

definition kick_join :: "ChannelRef \<Rightarrow> kick_adapter \<Rightarrow> error \<times> kick_adapter" where
  "kick_join ch a =
    (if kk_closed a then (Some ''kick: adapter closed'', a)
     else if ch_ID ch \<in> fst ` set (kk_subs a) then (None, a)
     else (None, add_task (if kk_started a then JoinAdd ch else JoinDial ch) a))"

text \<open>\<^verbatim>\<open>ensureConnected\<close>: the dial failed, or succeeded; a connection that is not used is closed.\<close>

definition join_dial_failed :: "string \<Rightarrow> kick_adapter \<Rightarrow> kick_adapter" where
  "join_dial_failed err a = kick_setHealth \<lparr>hs_State = HealthDown, hs_Reason = ReasonUpstreamDown, hs_Detail = err\<rparr> a"

definition ensure_connected :: "ChannelRef \<Rightarrow> kick_adapter \<Rightarrow> error \<times> kick_adapter" where
  "ensure_connected ch a = (case kick_dial a of (c, a) \<Rightarrow>
     if kk_closed a then (Some ''kick: adapter closed'', a\<lparr>kk_dead := insert c (kk_dead a)\<rparr>)
     else if kk_started a then (None, add_task (JoinAdd ch) (a\<lparr>kk_dead := insert c (kk_dead a)\<rparr>))
     else (None, add_task (JoinAdd ch) (a\<lparr>kk_conn := Some c, kk_started := True, kk_health := health HealthOK ReasonNone, kk_phase := KReading c\<rparr>)))"

definition join_add :: "ChannelRef \<Rightarrow> kick_adapter \<Rightarrow> error \<times> kick_adapter" where
  "join_add ch a =
    (if kk_closed a then (Some ''kick: adapter closed'', a)
     else let a = a\<lparr>kk_subs := AList.update (ch_ID ch) ch (kk_subs a)\<rparr>
       in (None, case kk_conn a of None \<Rightarrow> a | Some c \<Rightarrow> add_task (WriteFrame c (Subscribe (chatroomChannel (ch_ID ch)))) a))"

definition kick_leave :: "ChannelRef \<Rightarrow> kick_adapter \<Rightarrow> kick_adapter" where
  "kick_leave ch a =
    (if ch_ID ch \<notin> fst ` set (kk_subs a) then a
     else let a = a\<lparr>kk_subs := AList.delete (ch_ID ch) (kk_subs a)\<rparr>
       in (case kk_conn a of None \<Rightarrow> a | Some c \<Rightarrow> add_task (WriteFrame c (Unsubscribe (chatroomChannel (ch_ID ch)))) a))"

text \<open>A write; its error is ignored everywhere.\<close>

definition kick_write :: "nat \<Rightarrow> out_frame \<Rightarrow> kick_adapter \<Rightarrow> kick_adapter" where
  "kick_write c f a = (if c \<in> kk_dead a \<or> kk_closed a then a else a\<lparr>kk_wire := (kk_wire a)(c := kk_wire a c @ [f])\<rparr>)"

definition kick_close :: "kick_adapter \<Rightarrow> kick_adapter" where
  "kick_close a = (if kk_closed a then a
     else a\<lparr>kk_closed := True, kk_dead := set_option (kk_conn a) \<union> kk_dead a\<rparr>)"

subsection \<open>The supervisor\<close>

text \<open>\<^verbatim>\<open>handleChatMessage\<close>: None is the panic of an ill-formed channel name.\<close>

definition handleChatMessage :: "kick_codec \<Rightarrow> frame \<Rightarrow> kick_adapter \<Rightarrow> kick_adapter option" where
  "handleChatMessage cd f a = (case chatroomIDFromChannel (fr_Channel f) of
     None \<Rightarrow> None
   | Some i \<Rightarrow> Some (case map_of (kk_subs a) i of
       None \<Rightarrow> a
     | Some ch \<Rightarrow> (case pusherPayload cd f of
         None \<Rightarrow> a
       | Some payload \<Rightarrow> (case normalizeChatMessage cd payload ch of
           None \<Rightarrow> a
         | Some msg \<Rightarrow> kick_emit (MessageEvent msg) a))))"

text \<open>One frame of \<^verbatim>\<open>readLoop\<close>; \<open>ids\<close> is the snapshot \<^verbatim>\<open>subscribeAll\<close> takes, and a frame that is not JSON is None.\<close>

definition kick_read :: "kick_codec \<Rightarrow> nat \<Rightarrow> string list \<Rightarrow> frame option \<Rightarrow> kick_adapter \<Rightarrow> kick_adapter" where
  "kick_read cd c ids fr a = (case fr of
     None \<Rightarrow> a
   | Some f \<Rightarrow>
       if fr_Event f = eventPing then kick_write c Pong a
       else if fr_Event f = eventConnEstablished then a\<lparr>kk_greeted := insert c (kk_greeted a), kk_phase := KSubscribing c ids\<rparr>
       else if fr_Event f = eventChatMessage then
         (case handleChatMessage cd f a of None \<Rightarrow> a\<lparr>kk_phase := KPanicked\<rparr> | Some a \<Rightarrow> a)
       else a)"

definition subscribe_one :: "nat \<Rightarrow> string list \<Rightarrow> kick_adapter \<Rightarrow> kick_adapter" where
  "subscribe_one c ids a = (case ids of
     [] \<Rightarrow> a\<lparr>kk_phase := KReading c\<rparr>
   | i # rest \<Rightarrow> (kick_write c (Subscribe (chatroomChannel i)) a)\<lparr>kk_phase := KSubscribing c rest\<rparr>)"

text \<open>The read failed: done when the adapter was closed, else the connection is given up and closed.\<close>

definition kick_read_failed :: "kick_adapter \<Rightarrow> kick_adapter" where
  "kick_read_failed a = (if kk_closed a then a\<lparr>kk_phase := KStopped\<rparr>
     else a\<lparr>kk_conn := None, kk_dead := set_option (kk_conn a) \<union> kk_dead a, kk_phase := KWaiting 1\<rparr>)"

definition kick_announce :: "int \<Rightarrow> kick_adapter \<Rightarrow> duration \<times> kick_adapter" where
  "kick_announce attempt a =
    (let a = kick_setHealth (if attempt \<ge> kick_downAfterAttempts then health HealthDown ReasonUpstreamDown
               else health HealthDegraded ReasonReconnecting) a;
         (r, a) = kick_nextRand a
     in (kick_delay (kk_backoff a) attempt r, a\<lparr>kk_phase := KDialing attempt\<rparr>))"

definition kick_dial_failed :: "int \<Rightarrow> kick_adapter \<Rightarrow> kick_adapter" where
  "kick_dial_failed attempt a = a\<lparr>kk_phase := (if kk_closed a then KStopped else KWaiting (attempt + 1))\<rparr>"

definition kick_redialed :: "kick_adapter \<Rightarrow> kick_adapter" where
  "kick_redialed a = (case kick_dial a of (c, a) \<Rightarrow>
     (kick_setHealth (health HealthOK ReasonNone) (a\<lparr>kk_conn := Some c\<rparr>))\<lparr>kk_phase := KReading c\<rparr>)"

inductive kick_step :: "kick_codec \<Rightarrow> kick_adapter \<Rightarrow> kick_adapter \<Rightarrow> bool" for cd where
  join: "kick_step cd a (snd (kick_join ch a))"
| dial_bad: "i < length (kk_todo a) \<Longrightarrow> kk_todo a ! i = JoinDial ch \<Longrightarrow> kick_step cd a (join_dial_failed err (drop_task i a))"
| dial_good: "i < length (kk_todo a) \<Longrightarrow> kk_todo a ! i = JoinDial ch \<Longrightarrow> kick_step cd a (snd (ensure_connected ch (drop_task i a)))"
| add: "i < length (kk_todo a) \<Longrightarrow> kk_todo a ! i = JoinAdd ch \<Longrightarrow> kick_step cd a (snd (join_add ch (drop_task i a)))"
| late: "i < length (kk_todo a) \<Longrightarrow> kk_todo a ! i = WriteFrame c f \<Longrightarrow> kick_step cd a (kick_write c f (drop_task i a))"
| leave: "kick_step cd a (kick_leave ch a)"
| break_conn: "kick_step cd a (a\<lparr>kk_dead := insert c (kk_dead a)\<rparr>)"
| read: "kk_phase a = KReading c \<Longrightarrow> c \<notin> kk_dead a \<Longrightarrow> distinct ids \<Longrightarrow> set ids = fst ` set (kk_subs a) \<Longrightarrow> kick_step cd a (kick_read cd c ids fr a)"
| subscribe: "kk_phase a = KSubscribing c ids \<Longrightarrow> kick_step cd a (subscribe_one c ids a)"
| failed: "kk_phase a = KReading c \<Longrightarrow> c \<in> kk_dead a \<or> kk_closed a \<Longrightarrow> kick_step cd a (kick_read_failed a)"
| announce: "kk_phase a = KWaiting n \<Longrightarrow> kick_step cd a (snd (kick_announce n a))"
| no_dial: "kk_phase a = KDialing n \<Longrightarrow> kick_step cd a (kick_dial_failed n a)"
| redial: "kk_phase a = KDialing n \<Longrightarrow> kick_step cd a (kick_redialed a)"
| close: "kick_step cd a (kick_close a)"
| finish: "kk_closed a \<Longrightarrow> \<not> kk_started a \<or> kk_phase a = KStopped \<Longrightarrow> kick_step cd a (a\<lparr>kk_done := True\<rparr>)"

subsection \<open>Subscriptions survive reconnects\<close>

lemma kick_write_frame [simp]:
  "kk_subs (kick_write c f a) = kk_subs a" "kk_conn (kick_write c f a) = kk_conn a" "kk_phase (kick_write c f a) = kk_phase a"
  "kk_todo (kick_write c f a) = kk_todo a" "kk_dead (kick_write c f a) = kk_dead a" "kk_closed (kick_write c f a) = kk_closed a"
  "kk_greeted (kick_write c f a) = kk_greeted a" "kk_next (kick_write c f a) = kk_next a" "kk_events (kick_write c f a) = kk_events a"
  "kk_lost (kick_write c f a) = kk_lost a" "kk_started (kick_write c f a) = kk_started a" "kk_health (kick_write c f a) = kk_health a"
  by (simp_all add: kick_write_def)

lemma kick_write_mono: "x \<in> set (kk_wire a d) \<Longrightarrow> x \<in> set (kk_wire (kick_write c f a) d)"
  by (auto simp: kick_write_def)

lemma kick_write_live: "c \<notin> kk_dead a \<Longrightarrow> \<not> kk_closed a \<Longrightarrow> f \<in> set (kk_wire (kick_write c f a) c)"
  by (simp add: kick_write_def)

lemma kick_emit_frame [simp]:
  "kk_subs (kick_emit e a) = kk_subs a" "kk_conn (kick_emit e a) = kk_conn a" "kk_phase (kick_emit e a) = kk_phase a"
  "kk_todo (kick_emit e a) = kk_todo a" "kk_dead (kick_emit e a) = kk_dead a" "kk_closed (kick_emit e a) = kk_closed a"
  "kk_greeted (kick_emit e a) = kk_greeted a" "kk_next (kick_emit e a) = kk_next a" "kk_wire (kick_emit e a) = kk_wire a"
  "kk_health (kick_emit e a) = kk_health a"
  by (simp_all add: kick_emit_def)

lemma kick_setHealth_frame [simp]:
  "kk_subs (kick_setHealth h a) = kk_subs a" "kk_conn (kick_setHealth h a) = kk_conn a" "kk_phase (kick_setHealth h a) = kk_phase a"
  "kk_todo (kick_setHealth h a) = kk_todo a" "kk_dead (kick_setHealth h a) = kk_dead a" "kk_closed (kick_setHealth h a) = kk_closed a"
  "kk_greeted (kick_setHealth h a) = kk_greeted a" "kk_next (kick_setHealth h a) = kk_next a" "kk_wire (kick_setHealth h a) = kk_wire a"
  "kk_health (kick_setHealth h a) = h"
  by (simp_all add: kick_setHealth_def Let_def)

lemma kick_announce_frame [simp]:
  "kk_subs (snd (kick_announce n a)) = kk_subs a" "kk_phase (snd (kick_announce n a)) = KDialing n"
  "kk_greeted (snd (kick_announce n a)) = kk_greeted a" "kk_next (snd (kick_announce n a)) = kk_next a" "kk_todo (snd (kick_announce n a)) = kk_todo a"
  by (simp_all add: kick_announce_def kick_nextRand_def Let_def split_beta)

text \<open>The connection in use, and the chatrooms still to be subscribed on it.\<close>

fun on_conn :: "kick_phase \<Rightarrow> (nat \<times> string list) option" where
  "on_conn (KReading c) = Some (c, [])"
| "on_conn (KSubscribing c ids) = Some (c, ids)"
| "on_conn _ = None"

definition subscribing :: "kick_adapter \<Rightarrow> nat \<Rightarrow> string list \<Rightarrow> string \<Rightarrow> bool" where
  "subscribing a c ids i \<longleftrightarrow> c \<notin> kk_greeted a \<or> Subscribe (chatroomChannel i) \<in> set (kk_wire a c)
     \<or> WriteFrame c (Subscribe (chatroomChannel i)) \<in> set (kk_todo a) \<or> i \<in> set ids"

definition kick_covered :: "kick_adapter \<Rightarrow> bool" where
  "kick_covered a \<longleftrightarrow> kk_greeted a \<subseteq> {..<kk_next a} \<and> (\<forall>c ids. on_conn (kk_phase a) = Some (c, ids) \<longrightarrow> kk_conn a = Some c \<and> c < kk_next a
     \<and> (c \<notin> kk_dead a \<and> \<not> kk_closed a \<longrightarrow> (\<forall>i \<in> fst ` set (kk_subs a). subscribing a c ids i)))"

lemma kick_idle: "on_conn (kk_phase a) = None \<Longrightarrow> kk_greeted a \<subseteq> {..<kk_next a} \<Longrightarrow> kick_covered a"
  by (simp add: kick_covered_def)

lemma kick_covered_more:
  assumes "kick_covered a" "kk_phase b = kk_phase a" "kk_conn b = kk_conn a" "fst ` set (kk_subs b) \<subseteq> fst ` set (kk_subs a)" "kk_next b = kk_next a"
    and "kk_greeted b = kk_greeted a" "\<And>c f. WriteFrame c f \<in> set (kk_todo a) \<Longrightarrow> WriteFrame c f \<in> set (kk_todo b) \<or> (c \<notin> kk_dead b \<and> \<not> kk_closed b \<longrightarrow> f \<in> set (kk_wire b c))"
    and "\<And>c. set (kk_wire a c) \<subseteq> set (kk_wire b c)" "kk_dead a \<subseteq> kk_dead b" "kk_closed a \<Longrightarrow> kk_closed b"
  shows "kick_covered b"
  unfolding kick_covered_def assms(2,3,5,6)
proof (intro conjI allI impI ballI)
  show "kk_greeted a \<subseteq> {..<kk_next a}" using assms(1) by (simp add: kick_covered_def)
next
  fix c ids assume ph: "on_conn (kk_phase a) = Some (c, ids)"
  then show "kk_conn a = Some c" "c < kk_next a" using assms(1) by (simp_all add: kick_covered_def)
  fix i assume live: "c \<notin> kk_dead b \<and> \<not> kk_closed b" and i: "i \<in> fst ` set (kk_subs b)"
  then have "subscribing a c ids i" using assms(1,4,9,10) ph unfolding kick_covered_def by blast
  then show "subscribing b c ids i" using assms(6,7,8) live unfolding subscribing_def by blast
qed

lemma task_split: "i < length (kk_todo a) \<Longrightarrow> set (kk_todo a) = insert (kk_todo a ! i) (set (kk_todo (drop_task i a)))"
  unfolding drop_task_def by (simp add: split_nth del: set_append)

lemma drop_task_frame [simp]:
  "kk_subs (drop_task i a) = kk_subs a" "kk_conn (drop_task i a) = kk_conn a" "kk_phase (drop_task i a) = kk_phase a"
  "kk_dead (drop_task i a) = kk_dead a" "kk_closed (drop_task i a) = kk_closed a" "kk_greeted (drop_task i a) = kk_greeted a"
  "kk_next (drop_task i a) = kk_next a" "kk_wire (drop_task i a) = kk_wire a" "kk_events (drop_task i a) = kk_events a"
  "kk_started (drop_task i a) = kk_started a"
  by (simp_all add: drop_task_def)

lemma covered_drop:
  assumes "kick_covered a" "i < length (kk_todo a)" "\<And>c f. kk_todo a ! i \<noteq> WriteFrame c f"
  shows "kick_covered (drop_task i a)"
  by (rule kick_covered_more [OF assms(1)]) (use task_split [OF assms(2)] assms(3) [symmetric] in auto)

lemma kick_covered_late:
  assumes "kick_covered a" "i < length (kk_todo a)" "kk_todo a ! i = WriteFrame c f"
  shows "kick_covered (kick_write c f (drop_task i a))"
  by (rule kick_covered_more [OF assms(1)])
    (use task_split [OF assms(2)] assms(3) kick_write_live [of c "drop_task i a" f] in \<open>auto simp: kick_write_mono\<close>)

lemma covered_emit: "kick_covered a \<Longrightarrow> kick_covered (kick_emit e a)"
  by (erule kick_covered_more) auto

lemma covered_add:
  assumes "kick_covered a"
  shows "kick_covered (snd (join_add ch a))"
proof (cases "kk_closed a")
  case False
  let ?b = "a\<lparr>kk_subs := AList.update (ch_ID ch) ch (kk_subs a)\<rparr>"
  let ?c = "snd (join_add ch a)"
  have frame: "kk_phase ?c = kk_phase a" "kk_conn ?c = kk_conn a" "kk_next ?c = kk_next a" "kk_greeted ?c = kk_greeted a" "kk_dead ?c = kk_dead a"
    "kk_closed ?c = kk_closed a" "kk_wire ?c = kk_wire a" "set (kk_todo a) \<subseteq> set (kk_todo ?c)" "kk_subs ?c = AList.update (ch_ID ch) ch (kk_subs a)"
    using False by (auto simp: join_add_def Let_def add_task_def split: option.split)
  have new: "WriteFrame c (Subscribe (chatroomChannel (ch_ID ch))) \<in> set (kk_todo ?c)" if "kk_conn a = Some c" for c
    using False that by (simp add: join_add_def Let_def add_task_def)
  show ?thesis unfolding kick_covered_def frame(1-6)
  proof (intro conjI allI impI ballI)
    show "kk_greeted a \<subseteq> {..<kk_next a}" using assms by (simp add: kick_covered_def)
  next
    fix c ids assume ph: "on_conn (kk_phase a) = Some (c, ids)"
    then show conn: "kk_conn a = Some c" "c < kk_next a" using assms by (simp_all add: kick_covered_def)
    fix i assume live: "c \<notin> kk_dead a \<and> \<not> kk_closed a" and "i \<in> fst ` set (kk_subs ?c)"
    then have "i = ch_ID ch \<or> i \<in> fst ` set (kk_subs a)" unfolding frame(9) dom_update by blast
    then show "subscribing ?c c ids i"
    proof
      assume "i \<in> fst ` set (kk_subs a)"
      then have "subscribing a c ids i" using assms ph live unfolding kick_covered_def by blast
      then show ?thesis using frame(8) unfolding subscribing_def frame(4,7) by blast
    qed (use new [OF conn(1)] in \<open>simp add: subscribing_def\<close>)
  qed
qed (use assms in \<open>simp add: join_add_def\<close>)

lemma covered_read: "kick_covered a \<Longrightarrow> kk_phase a = KReading c \<Longrightarrow> set ids = fst ` set (kk_subs a) \<Longrightarrow> kick_covered (kick_read cd c ids fr a)"
proof (cases fr)
  case (Some f)
  assume a: "kick_covered a" "kk_phase a = KReading c" "set ids = fst ` set (kk_subs a)"
  have "kick_covered (kick_write c Pong a)" by (rule kick_covered_more [OF a(1)]) (auto simp: kick_write_mono)
  moreover have "kick_covered (a\<lparr>kk_greeted := insert c (kk_greeted a), kk_phase := KSubscribing c ids\<rparr>)"
    using a by (auto simp: kick_covered_def subscribing_def)
  moreover have "kick_covered (case handleChatMessage cd f a of None \<Rightarrow> a\<lparr>kk_phase := KPanicked\<rparr> | Some a \<Rightarrow> a)"
  proof (cases "handleChatMessage cd f a")
    case None
    then show ?thesis using a(1) by (simp add: kick_covered_def)
  next
    case (Some b)
    then have "b = a \<or> (\<exists>e. b = kick_emit e a)" by (auto simp: handleChatMessage_def split: option.splits)
    then have "kick_covered b" using a(1) covered_emit by blast
    then show ?thesis using Some by simp
  qed
  ultimately show ?thesis using Some a(1) by (simp add: kick_read_def)
qed (simp add: kick_read_def)

lemma covered_subscribe: "kick_covered a \<Longrightarrow> kk_phase a = KSubscribing c ids \<Longrightarrow> kick_covered (subscribe_one c ids a)"
proof (cases ids)
  case Nil
  then show "kick_covered a \<Longrightarrow> kk_phase a = KSubscribing c ids \<Longrightarrow> ?thesis" by (simp add: kick_covered_def subscribe_one_def subscribing_def)
next
  case (Cons i rest)
  assume a: "kick_covered a" "kk_phase a = KSubscribing c ids"
  let ?b = "kick_write c (Subscribe (chatroomChannel i)) a"
  have "kick_covered ?b" by (rule kick_covered_more [OF a(1)]) (auto simp: kick_write_mono)
  then show ?thesis using a(2) Cons kick_write_live [of c a "Subscribe (chatroomChannel i)"]
    by (auto simp: kick_covered_def subscribe_one_def subscribing_def)
qed

lemma kick_step_covered: "kick_step cd a b \<Longrightarrow> kick_covered a \<Longrightarrow> kick_covered b"
proof (induction rule: kick_step.induct)
  case (join a ch)
  show ?case by (rule kick_covered_more [OF join.prems]) (auto simp: kick_join_def add_task_def)
next
  case (dial_bad i a ch err)
  have "kick_covered (drop_task i a)" by (rule covered_drop) (use dial_bad in simp_all)
  then show ?case by (rule kick_covered_more) (simp_all add: join_dial_failed_def)
next
  case (dial_good i a ch)
  have "kick_covered (drop_task i a)" by (rule covered_drop) (use dial_good in simp_all)
  then show ?case by (auto simp: ensure_connected_def kick_dial_def add_task_def kick_covered_def subscribing_def)
next
  case (add i a ch)
  have "kick_covered (drop_task i a)" by (rule covered_drop) (use add in simp_all)
  then show ?case by (rule covered_add)
next
  case (late i a c f)
  then show ?case using kick_covered_late by blast
next
  case (leave a ch)
  show ?case by (rule kick_covered_more [OF leave.prems]) (auto simp: kick_leave_def Let_def add_task_def dest: subsetD [OF set_delete_subset] split: option.split)
next
  case (break_conn a c)
  show ?case by (rule kick_covered_more [OF break_conn.prems]) auto
next
  case (failed a c)
  then show ?case by (intro kick_idle) (auto simp: kick_read_failed_def kick_covered_def)
next
  case (announce a n)
  then show ?case by (intro kick_idle) (auto simp: kick_covered_def)
next
  case (no_dial a n)
  then show ?case by (intro kick_idle) (auto simp: kick_dial_failed_def kick_covered_def)
next
  case (redial a n)
  then show ?case by (auto simp: kick_redialed_def kick_dial_def kick_covered_def subscribing_def)
next
  case (close a)
  show ?case by (rule kick_covered_more [OF close.prems]) (auto simp: kick_close_def)
next
  case (finish a)
  show ?case by (rule kick_covered_more [OF finish.prems]) auto
qed (auto simp: covered_read covered_subscribe)

lemma kick_reach_covered: "(kick_step cd)\<^sup>*\<^sup>* (kick_New base mx seed) a \<Longrightarrow> kick_covered a"
proof (induction rule: rtranclp_induct)
  case base
  then show ?case by (simp add: kick_New_def kick_covered_def)
qed (rule kick_step_covered)

text \<open>What the server thinks after the frames of a connection.\<close>

definition listening :: "string \<Rightarrow> out_frame list \<Rightarrow> bool" where
  "listening i fs = fold (\<lambda>f b. if f = Subscribe (chatroomChannel i) then True else if f = Unsubscribe (chatroomChannel i) then False else b) fs False"

text \<open>
  C29. No chatroom is lost by a reconnect: however joins, leaves, first dials, breakages, failed redials and the
  subscribing of a snapshot interleave, once the supervisor reads a live connection that the server has greeted and no caller has
  a frame to write to it, every chatroom joined, and not left on this connection, is subscribed on it.
\<close>

theorem kick_resubscribes:
  assumes "(kick_step cd)\<^sup>*\<^sup>* (kick_New base mx seed) a" "kk_phase a = KReading c" "c \<in> kk_greeted a" "c \<notin> kk_dead a" "\<not> kk_closed a"
    and "\<forall>f. WriteFrame c f \<notin> set (kk_todo a)" "i \<in> fst ` set (kk_subs a)" "Unsubscribe (chatroomChannel i) \<notin> set (kk_wire a c)"
  shows "kk_conn a = Some c \<and> listening i (kk_wire a c)"
proof -
  have "kick_covered a" by (rule kick_reach_covered [OF assms(1)])
  then have "kk_conn a = Some c" "subscribing a c [] i" using assms(2,4,5,7) unfolding kick_covered_def by fastforce+
  then have "kk_conn a = Some c" "Subscribe (chatroomChannel i) \<in> set (kk_wire a c)" using assms(3,6) by (simp_all add: subscribing_def)
  then show ?thesis using assms(8) by (simp add: listening_def latch_on)
qed

subsection \<open>A chatroom that was left is silent\<close>

definition room_messages :: "string \<Rightarrow> kick_adapter \<Rightarrow> Event list" where
  "room_messages i a = filter (\<lambda>ev. case ev of MessageEvent m \<Rightarrow> ch_ID (um_Channel m) = i | _ \<Rightarrow> False) (kk_events a)"

text \<open>No join of the chatroom is under way.\<close>

definition no_join :: "string \<Rightarrow> kick_adapter \<Rightarrow> bool" where
  "no_join i a \<longleftrightarrow> (\<forall>t \<in> set (kk_todo a). case t of JoinDial ch \<Rightarrow> ch_ID ch \<noteq> i | JoinAdd ch \<Rightarrow> ch_ID ch \<noteq> i | WriteFrame c f \<Rightarrow> True)"

definition keyed :: "kick_adapter \<Rightarrow> bool" where
  "keyed a \<longleftrightarrow> (\<forall>(i, ch) \<in> set (kk_subs a). ch_ID ch = i)"

lemma room_emit: "(\<And>m. e = MessageEvent m \<Longrightarrow> ch_ID (um_Channel m) \<noteq> i) \<Longrightarrow> room_messages i (kick_emit e a) = room_messages i a"
  by (auto simp: room_messages_def kick_emit_def split: Event.split)

lemma room_frame: "kk_events b = kk_events a \<Longrightarrow> room_messages i b = room_messages i a"
  by (simp add: room_messages_def)

lemma room_setHealth [simp]: "room_messages i (kick_setHealth h a) = room_messages i a"
proof -
  have "room_messages i (a\<lparr>kk_health := h\<rparr>) = room_messages i a" by (rule room_frame) simp
  moreover have "room_messages i (kick_emit (HealthEvent None h) b) = room_messages i b" for b by (rule room_emit) simp
  ultimately show ?thesis unfolding kick_setHealth_def Let_def by (simp only: if_cancel split: if_split) simp
qed

lemma quiet_events [simp]:
  "kk_events (add_task t a) = kk_events a" "kk_events (snd (kick_join ch a)) = kk_events a" "kk_events (snd (join_add ch a)) = kk_events a"
  "kk_events (snd (ensure_connected ch a)) = kk_events a" "kk_events (kick_leave ch a) = kk_events a" "kk_events (subscribe_one c ids a) = kk_events a"
  "kk_events (kick_read_failed a) = kk_events a" "kk_events (kick_dial_failed n a) = kk_events a" "kk_events (kick_close a) = kk_events a"
  by (simp_all add: add_task_def kick_join_def join_add_def ensure_connected_def kick_dial_def kick_leave_def subscribe_one_def
      kick_read_failed_def kick_dial_failed_def kick_close_def Let_def split: option.split list.split)

lemma quiet_subs [simp]:
  "kk_subs (add_task t a) = kk_subs a" "kk_subs (snd (kick_join ch a)) = kk_subs a" "kk_subs (snd (ensure_connected ch a)) = kk_subs a"
  "kk_subs (subscribe_one c ids a) = kk_subs a" "kk_subs (kick_read_failed a) = kk_subs a" "kk_subs (kick_dial_failed n a) = kk_subs a"
  "kk_subs (kick_close a) = kk_subs a" "kk_subs (join_dial_failed e a) = kk_subs a" "kk_subs (kick_redialed a) = kk_subs a"
  by (simp_all add: add_task_def kick_join_def ensure_connected_def kick_dial_def subscribe_one_def kick_read_failed_def kick_dial_failed_def
      kick_close_def join_dial_failed_def kick_redialed_def split: list.split)

lemma room_ops [simp]:
  "room_messages i (add_task t a) = room_messages i a" "room_messages i (drop_task k a) = room_messages i a"
  "room_messages i (kick_write c f a) = room_messages i a" "room_messages i (snd (kick_join ch a)) = room_messages i a"
  "room_messages i (snd (join_add ch a)) = room_messages i a" "room_messages i (snd (ensure_connected ch a)) = room_messages i a"
  "room_messages i (kick_leave ch a) = room_messages i a" "room_messages i (subscribe_one c ids a) = room_messages i a"
  "room_messages i (kick_read_failed a) = room_messages i a" "room_messages i (kick_dial_failed n a) = room_messages i a"
  "room_messages i (kick_close a) = room_messages i a" "room_messages i (a\<lparr>kk_dead := d\<rparr>) = room_messages i a"
  "room_messages i (a\<lparr>kk_done := True\<rparr>) = room_messages i a" "room_messages i (a\<lparr>kk_phase := ph\<rparr>) = room_messages i a"
  "room_messages i (a\<lparr>kk_greeted := g\<rparr>) = room_messages i a"
  by (rule room_frame, simp)+

lemma room_reports [simp]:
  "room_messages i (join_dial_failed e a) = room_messages i a" "room_messages i (kick_redialed a) = room_messages i a"
  "room_messages i (snd (kick_announce n a)) = room_messages i a"
proof -
  show "room_messages i (join_dial_failed e a) = room_messages i a" by (simp add: join_dial_failed_def)
  let ?a = "a\<lparr>kk_next := kk_next a + 1, kk_conn := Some (kk_next a)\<rparr>"
  have "room_messages i (kick_redialed a) = room_messages i (kick_setHealth (health HealthOK ReasonNone) ?a)"
    by (rule room_frame) (simp add: kick_redialed_def kick_dial_def)
  also have "\<dots> = room_messages i a" unfolding room_setHealth by (rule room_frame) simp
  finally show "room_messages i (kick_redialed a) = room_messages i a" .
  let ?h = "if n \<ge> kick_downAfterAttempts then health HealthDown ReasonUpstreamDown else health HealthDegraded ReasonReconnecting"
  have "room_messages i (snd (kick_announce n a)) = room_messages i (kick_setHealth ?h a)"
    by (rule room_frame) (simp add: kick_announce_def kick_nextRand_def Let_def split_beta)
  then show "room_messages i (snd (kick_announce n a)) = room_messages i a" by (simp only: room_setHealth)
qed

lemma handle_room:
  assumes "handleChatMessage cd f a = Some b" "keyed a" "i \<notin> fst ` set (kk_subs a)"
  shows "room_messages i b = room_messages i a \<and> kk_subs b = kk_subs a"
proof -
  obtain j where j: "chatroomIDFromChannel (fr_Channel f) = Some j" using assms(1) by (auto simp: handleChatMessage_def split: option.splits)
  show ?thesis
  proof (cases "b = a")
    case False
    then obtain ch where ch: "map_of (kk_subs a) j = Some ch" using assms(1) j by (cases "map_of (kk_subs a) j") (simp_all add: handleChatMessage_def)
    obtain p where p: "pusherPayload cd f = Some p" using assms(1) j ch False by (cases "pusherPayload cd f") (simp_all add: handleChatMessage_def)
    obtain m where "kj_message cd p = Some m" using assms(1) j ch p False
      by (cases "kj_message cd p") (simp_all add: handleChatMessage_def normalizeChatMessage_def)
    then have m: "map_of (kk_subs a) j = Some ch" "b = kick_emit (MessageEvent (kick_message cd m ch)) a"
      using assms(1) j ch p by (simp_all add: handleChatMessage_def normalizeChatMessage_def)
    then have mem: "(j, ch) \<in> set (kk_subs a)" by (simp add: map_of_SomeD)
    have "ch_ID ch = j" using mem assms(2) unfolding keyed_def by blast
    moreover have "j \<noteq> i" using imageI [OF mem, of fst] assms(3) by auto
    ultimately show ?thesis unfolding m(2) by (intro conjI room_emit) (auto simp: kick_message_def)
  qed simp
qed

lemma read_room:
  assumes "keyed a" "i \<notin> fst ` set (kk_subs a)"
  shows "room_messages i (kick_read cd c ids fr a) = room_messages i a \<and> kk_subs (kick_read cd c ids fr a) = kk_subs a"
proof (cases fr)
  case (Some f)
  show ?thesis
    using handle_room [OF _ assms, of cd f] by (simp add: kick_read_def Some split: option.split)
qed (simp add: kick_read_def)

lemma read_subs: "kk_subs (kick_read cd c ids fr a) = kk_subs a"
  by (auto simp: kick_read_def handleChatMessage_def split: option.split)

lemma keyed_same: "kk_subs b = kk_subs a \<Longrightarrow> keyed a \<Longrightarrow> keyed b"
  by (simp add: keyed_def)

lemma keyed_step: "kick_step cd a b \<Longrightarrow> keyed a \<Longrightarrow> keyed b"
proof (induction rule: kick_step.induct)
  case (add i a ch)
  then show ?case
    by (auto simp: join_add_def Let_def keyed_def dest: subsetD [OF set_update_subset] split: option.split)
next
  case (leave a ch)
  then show ?case by (auto simp: kick_leave_def Let_def keyed_def dest: subsetD [OF set_delete_subset] split: option.split)
qed (erule keyed_same [rotated], simp add: read_subs)+

lemma quiet_step:
  "kick_step cd a b \<Longrightarrow> keyed a \<Longrightarrow> no_join i a \<Longrightarrow> i \<notin> fst ` set (kk_subs a) \<Longrightarrow> room_messages i b = room_messages i a \<and> i \<notin> fst ` set (kk_subs b)"
proof (induction rule: kick_step.induct)
  case (read a c ids fr)
  then show ?case using read_room by metis
next
  case (add k a ch)
  then have "ch_ID ch \<noteq> i" by (auto simp: no_join_def dest: bspec [OF _ nth_mem])
  then have "i \<notin> fst ` set (kk_subs (snd (join_add ch (drop_task k a))))" using add.prems(3)
    by (simp add: join_add_def Let_def dom_update split: option.split)
  then show ?case by simp
next
  case (leave a ch)
  have "fst ` set (kk_subs (kick_leave ch a)) \<subseteq> fst ` set (kk_subs a)"
    by (auto simp: kick_leave_def Let_def dest: subsetD [OF set_delete_subset] split: option.split)
  then show ?case using leave.prems(3) by (auto simp del: set_map)
qed simp_all

lemma keyed_reach: "(kick_step cd)\<^sup>*\<^sup>* (kick_New base mx seed) a \<Longrightarrow> keyed a"
  by (induction rule: rtranclp_induct) (simp add: kick_New_def keyed_def, rule keyed_step)

text \<open>
  A chatroom that was left is silent, whatever the server goes on sending: once it is not held and as
  long as nobody joins it again, no message of it is emitted, through reconnects too.
\<close>

theorem kick_left_silent:
  assumes "(kick_step cd)\<^sup>*\<^sup>* (kick_New base mx seed) a" "i \<notin> fst ` set (kk_subs a)"
    and "(\<lambda>x y. kick_step cd x y \<and> no_join i x)\<^sup>*\<^sup>* a b"
  shows "room_messages i b = room_messages i a \<and> i \<notin> fst ` set (kk_subs b)"
proof -
  have "keyed b \<and> room_messages i b = room_messages i a \<and> i \<notin> fst ` set (kk_subs b)"
    using assms(3)
  proof (induction rule: rtranclp_induct)
    case base
    then show ?case using keyed_reach [OF assms(1)] assms(2) by simp
  next
    case (step x y)
    then show ?case using keyed_step [of cd x y] quiet_step [of cd x y i] by simp
  qed
  then show ?thesis by blast
qed

subsection \<open>A run\<close>

definition some_codec :: kick_codec where
  "some_codec = \<lparr>kj_unquote = (\<lambda>_. None),
     kj_message = (\<lambda>p. Some \<lparr>kc_ID = ''1'', kc_Content = p, kc_CreatedAt = [],
       kc_Sender = \<lparr>ks_ID = 7, ks_Username = ''Bob'', ks_Slug = ''bob'', ks_Color = [], ks_Badges = []\<rparr>\<rparr>),
     kj_rfc3339 = (\<lambda>_. None)\<rparr>"

definition room :: "string \<Rightarrow> ChannelRef" where
  "room i = \<lparr>ch_Platform = Kick, ch_ID = i, ch_Slug = ''c'' @ i, ch_DisplayName = []\<rparr>"

definition greeting :: frame where
  "greeting = \<lparr>fr_Event = eventConnEstablished, fr_Channel = [], fr_Data = []\<rparr>"

definition chat_frame :: "string \<Rightarrow> frame" where
  "chat_frame i = \<lparr>fr_Event = eventChatMessage, fr_Channel = chatroomChannel i, fr_Data = ''hi''\<rparr>"

definition kick_announced :: "int \<Rightarrow> kick_adapter \<Rightarrow> kick_adapter" where
  "kick_announced attempt a =
    (let a = kick_setHealth (if attempt \<ge> kick_downAfterAttempts then health HealthDown ReasonUpstreamDown
               else health HealthDegraded ReasonReconnecting) a
     in a\<lparr>kk_rng := kk_rng a + 0x9e3779b97f4a7c15, kk_phase := KDialing attempt\<rparr>)"

lemma kick_announced: "snd (kick_announce n a) = kick_announced n a"
  by (simp add: kick_announce_def kick_nextRand_def kick_announced_def Let_def)

lemmas kick_next = rtranclp.rtrancl_into_rtrancl [of "kick_step some_codec"]

text \<open>A first join, the connection lost, a reconnect during which a second room is joined, and the greeting.\<close>

definition kick_first :: kick_adapter where
  "kick_first = snd (join_add (room ''1'') (drop_task 0 (snd (ensure_connected (room ''1'') (drop_task 0 (snd (kick_join (room ''1'') (kick_New 0 0 5))))))))"

definition kick_lost :: kick_adapter where
  "kick_lost = kick_read_failed (let a = kick_write 0 (Subscribe (chatroomChannel ''1'')) (drop_task 0 kick_first) in a\<lparr>kk_dead := insert 0 (kk_dead a)\<rparr>)"

definition kick_back :: kick_adapter where
  "kick_back = snd (join_add (room ''2'') (drop_task 0 (kick_redialed (snd (kick_join (room ''2'') (kick_announced 1 kick_lost))))))"

definition kick_again :: kick_adapter where
  "kick_again = kick_write 1 (Subscribe (chatroomChannel ''2'')) (drop_task 0 (subscribe_one 1 [] (subscribe_one 1 [''2''] (subscribe_one 1 [''1'', ''2'']
     (kick_read some_codec 1 [''1'', ''2''] (Some greeting) kick_back)))))"

lemma kick_first_reach: "(kick_step some_codec)\<^sup>*\<^sup>* (kick_New 0 0 5) kick_first"
  unfolding kick_first_def
  by (rule kick_next [OF kick_next [OF kick_next [OF rtranclp.rtrancl_refl kick_step.join] kick_step.dial_good] kick_step.add]) code_simp+

lemma kick_lost_reach: "(kick_step some_codec)\<^sup>*\<^sup>* (kick_New 0 0 5) kick_lost"
  unfolding kick_lost_def Let_def
  by (rule kick_next [OF kick_next [OF kick_next [OF kick_first_reach kick_step.late [where c = 0 and f = "Subscribe (chatroomChannel ''1'')"]] kick_step.break_conn] kick_step.failed [where c = 0]]) code_simp+

lemma kick_back_reach: "(kick_step some_codec)\<^sup>*\<^sup>* (kick_New 0 0 5) kick_back"
  unfolding kick_back_def
  by (rule kick_next [OF kick_next [OF kick_next [OF kick_next [OF kick_lost_reach kick_step.announce [of _ 1, unfolded kick_announced]] kick_step.join] kick_step.redial [where n = 1]] kick_step.add]) code_simp+

lemma kick_again_reach: "(kick_step some_codec)\<^sup>*\<^sup>* (kick_New 0 0 5) kick_again"
  unfolding kick_again_def
  by (rule kick_next [OF kick_next [OF kick_next [OF kick_next [OF kick_next [OF kick_back_reach
      kick_step.read [where c = 1]] kick_step.subscribe] kick_step.subscribe] kick_step.subscribe] kick_step.late]) code_simp+

theorem kick_resubscribes_witness:
  "map fst (kk_subs kick_again) = [''1'', ''2''] \<and> kk_conn kick_again = Some 1 \<and> listening ''2'' (kk_wire kick_again 1)"
proof -
  have "kk_phase kick_again = KReading 1" "1 \<in> kk_greeted kick_again" "1 \<notin> kk_dead kick_again" "\<not> kk_closed kick_again"
    "kk_todo kick_again = []" "''2'' \<in> fst ` set (kk_subs kick_again)"
    "Unsubscribe (chatroomChannel ''2'') \<notin> set (kk_wire kick_again 1)" "map fst (kk_subs kick_again) = [''1'', ''2'']"
    by code_simp+
  then show ?thesis using kick_resubscribes [OF kick_again_reach, of 1 "''2''"] by simp
qed

text \<open>The first room is left; its frame is then not emitted, while the second one's is.\<close>

definition kick_parted :: kick_adapter where
  "kick_parted = kick_leave (room ''1'') kick_again"

definition kick_heard :: kick_adapter where
  "kick_heard = kick_read some_codec 1 [''2''] (Some (chat_frame ''2'')) (kick_read some_codec 1 [''2''] (Some (chat_frame ''1'')) kick_parted)"

theorem kick_left_silent_witness:
  "room_messages ''1'' kick_heard = room_messages ''1'' kick_parted \<and> length (room_messages ''2'' kick_heard) = 1"
proof -
  let ?q = "\<lambda>x y. kick_step some_codec x y \<and> no_join ''1'' x"
  have reach: "(kick_step some_codec)\<^sup>*\<^sup>* (kick_New 0 0 5) kick_parted"
    unfolding kick_parted_def by (rule kick_next [OF kick_again_reach kick_step.leave])
  have path: "?q\<^sup>*\<^sup>* kick_parted kick_heard"
    unfolding kick_heard_def
    by (rule rtranclp.rtrancl_into_rtrancl [of ?q, OF rtranclp.rtrancl_into_rtrancl [of ?q, OF rtranclp.rtrancl_refl conjI [OF kick_step.read [where c = 1]]]
        conjI [OF kick_step.read [where c = 1]]]) code_simp+
  have "''1'' \<notin> fst ` set (kk_subs kick_parted)" "length (room_messages ''2'' kick_heard) = 1" by code_simp+
  then show ?thesis using kick_left_silent [OF reach _ path] by blast
qed

subsection \<open>What goes wrong\<close>

text \<open>The engine and the profile manager leave a channel by its slug; the adapter looks for an id and keeps the subscription.\<close>

lemma leave_by_slug_ignored:
  assumes "ch_ID ch = []" "[] \<notin> fst ` set (kk_subs a)"
  shows "kick_leave ch a = a"
  using assms by (simp add: kick_leave_def)

text \<open>A first dial that fails is reported as down; when a later one succeeds nothing is reported.\<close>

lemma first_connect_silent:
  "let a = snd (ensure_connected (room ''1'') (drop_task 0 (snd (kick_join (room ''1'') (join_dial_failed ''refused'' (drop_task 0 (snd (kick_join (room ''1'') (kick_New 0 0 5)))))))) )
   in hs_State (kk_health a) = HealthOK \<and> kk_events a = [HealthEvent None \<lparr>hs_State = HealthDown, hs_Reason = ReasonUpstreamDown, hs_Detail = ''refused''\<rparr>]"
  by code_simp

text \<open>An adapter closed while its first dial is under way has closed the channel of events the failed dial then sends on.\<close>

lemma close_during_first_join:
  "kk_lost (join_dial_failed ''refused'' (drop_task 0 ((kick_close (snd (kick_join (room ''1'') (kick_New 0 0 5))))\<lparr>kk_done := True\<rparr>))) \<noteq> []"
  by code_simp

text \<open>Of two first joins that dial at once, the one that fails puts an adapter down that reads its connection.\<close>

lemma parallel_dial_failure_down:
  "let a = join_dial_failed ''refused'' (drop_task 0 (snd (ensure_connected (room ''1'') (drop_task 0
       (snd (kick_join (room ''2'') (snd (kick_join (room ''1'') (kick_New 0 0 5)))))))))
   in kk_phase a = KReading 0 \<and> 0 \<notin> kk_dead a \<and> hs_State (kk_health a) = HealthDown"
  by code_simp

end
