(* ===== verification/Youtube_Normalize.thy ===== *)
theory Youtube_Normalize
  imports Segment
begin

text \<open>
  \<^verbatim>\<open>internal/platform/youtube/normalize.go\<close>: the shapes of a live chat response, as decoded from JSON, and the events its
  actions become.
\<close>

subsection \<open>Wire shapes\<close>

record continuationData =
  cd_Continuation :: string
  cd_TimeoutMs :: int

record continuationWrapper =
  cw_Timed :: "continuationData option"
  cw_Invalidation :: "continuationData option"
  cw_Reload :: "continuationData option"

record thumbnail =
  th_URL :: string
  th_Width :: int
  th_Height :: int

record emojiRun =
  er_EmojiID :: string
  er_Shortcuts :: "string list"
  er_Image :: "thumbnail list"
  er_IsCustomEmoji :: bool

record run =
  rn_Text :: string
  rn_Emoji :: "emojiRun option"

record authorBadge =
  ab_Tooltip :: string
  ab_Icon :: "string option"
  ab_CustomThumbnail :: "thumbnail list option"

record itemRenderer =
  ir_ID :: string
  ir_TimestampUsec :: string
  ir_AuthorName :: string
  ir_AuthorExternalChannelID :: string
  ir_AuthorBadges :: "authorBadge list"
  ir_Message :: "run list option"
  ir_HeaderSubtext :: "run list option"
  ir_PurchaseAmountText :: string

record chatItem =
  ci_Text :: "itemRenderer option"
  ci_Paid :: "itemRenderer option"
  ci_Membership :: "itemRenderer option"

record chatAction =
  ca_AddChatItem :: "chatItem option"
  ca_MarkDeleted :: "string option"
  ca_MarkAuthorDeleted :: "string option"

record liveChat =
  lc_Continuations :: "continuationWrapper list"
  lc_Actions :: "chatAction list"

text \<open>A response without contents says that the broadcast has ended.\<close>

type_synonym liveChatResponse = "liveChat option"

definition cw_data :: "continuationWrapper \<Rightarrow> continuationData option" where
  "cw_data w = (if cw_Timed w \<noteq> None then cw_Timed w else if cw_Invalidation w \<noteq> None then cw_Invalidation w else cw_Reload w)"

text \<open>The biggest thumbnail with an address, the first of equals.\<close>

fun largest_from :: "string \<times> int \<Rightarrow> thumbnail list \<Rightarrow> string" where
  "largest_from (best, area) [] = best"
| "largest_from (best, area) (t # ts) =
    (let a = wrap64 (th_Width t * th_Height t)
     in if a > area \<and> th_URL t \<noteq> [] then largest_from (th_URL t, a) ts else largest_from (best, area) ts)"

definition largest :: "thumbnail list \<Rightarrow> string" where
  "largest ts = largest_from ([], - 1) ts"

subsection \<open>Runs\<close>

abbreviation EmoteYouTube :: EmoteProvider where "EmoteYouTube \<equiv> ''youtube''"

definition emojiName :: "emojiRun \<Rightarrow> string" where
  "emojiName e = (case er_Shortcuts e of s # _ \<Rightarrow> if s \<noteq> [] then s else er_EmojiID e | [] \<Rightarrow> er_EmojiID e)"

definition youtube_emote :: "emojiRun \<Rightarrow> Segment" where
  "youtube_emote e = \<lparr>sg_Kind = SegEmote, sg_Text = emojiName e,
     sg_Emote = Some \<lparr>em_Provider = EmoteYouTube, em_ID = er_EmojiID e, em_Name = emojiName e, em_URLTemplate = largest (er_Image e), em_Animated = False\<rparr>,
     sg_CheerBits = 0, sg_Reveal = []\<rparr>"

definition drawn :: "emojiRun \<Rightarrow> bool" where
  "drawn e \<longleftrightarrow> er_IsCustomEmoji e \<and> largest (er_Image e) \<noteq> []"

text \<open>The loop over the runs, with its text buffer.\<close>

fun runs_from :: "string \<Rightarrow> run list \<Rightarrow> Segment list" where
  "runs_from buf [] = (if buf \<noteq> [] then Text buf else [])"
| "runs_from buf (r # rs) = (case rn_Emoji r of
     None \<Rightarrow> runs_from (buf @ rn_Text r) rs
   | Some e \<Rightarrow>
       if drawn e then (if buf \<noteq> [] then Text buf else []) @ youtube_emote e # runs_from [] rs
       else runs_from (buf @ (if er_EmojiID e \<noteq> [] then er_EmojiID e else emojiName e)) rs)"

definition runsSegments :: "run list option \<Rightarrow> Segment list" where
  "runsSegments rt = (case rt of None \<Rightarrow> [] | Some rs \<Rightarrow> runs_from [] rs)"

definition plainRuns :: "run list option \<Rightarrow> string" where
  "plainRuns rt = (case rt of None \<Rightarrow> [] | Some rs \<Rightarrow> concat (map (\<lambda>r. case rn_Emoji r of Some e \<Rightarrow> emojiName e | None \<Rightarrow> rn_Text r) rs))"

subsection \<open>Messages\<close>

text \<open>\<^verbatim>\<open>time.UnixMicro\<close>; an unreadable value is the zero time.\<close>

definition parseUsec :: "string \<Rightarrow> time" where
  "parseUsec s = (case atoi s of Some usec \<Rightarrow> usec * 1000 | None \<Rightarrow> zero_time)"

definition icon_set :: "string \<Rightarrow> string" where
  "icon_set t = (if t = ''OWNER'' then ''broadcaster'' else if t = ''MODERATOR'' then ''moderator'' else if t = ''VERIFIED'' then ''verified'' else [])"

definition youtube_badge :: "authorBadge \<Rightarrow> Badge option" where
  "youtube_badge b = (case ab_Icon b of
     Some t \<Rightarrow> if icon_set t \<noteq> [] then Some \<lparr>bd_Set = icon_set t, bd_Version = [], bd_Title = ab_Tooltip b, bd_URL = []\<rparr> else None
   | None \<Rightarrow> (case ab_CustomThumbnail b of
       Some ts \<Rightarrow> Some \<lparr>bd_Set = ''subscriber'', bd_Version = [], bd_Title = ab_Tooltip b, bd_URL = largest ts\<rparr>
     | None \<Rightarrow> None))"

definition youtube_badges :: "authorBadge list \<Rightarrow> Badge list" where
  "youtube_badges bs = List.map_filter youtube_badge bs"

definition unified :: "itemRenderer \<Rightarrow> ChannelRef \<Rightarrow> MessageType \<Rightarrow> Segment list \<Rightarrow> UnifiedMessage" where
  "unified r ch t segs = \<lparr>um_ID = [], um_PlatformMessageID = ir_ID r, um_Platform = YouTube, um_Channel = ch, um_Type = t,
     um_Author = \<lparr>au_ID = ir_AuthorExternalChannelID r, au_Login = to_lower (ir_AuthorName r), au_DisplayName = ir_AuthorName r, au_Color = [],
       au_Badges = youtube_badges (ir_AuthorBadges r)\<rparr>,
     um_Segments = segs, um_ReplyTo = None, um_SentAt = parseUsec (ir_TimestampUsec r), um_ReceivedAt = 0,
     um_Ephemeral = False, um_Raw = [], um_Annotations = None\<rparr>"

text \<open>The separator of the source, an em dash between spaces, as UTF-8.\<close>

definition dash :: string where
  "dash = [CHR '' '', CHR 0xE2, CHR 0x80, CHR 0x94, CHR '' '']"

definition normalizePaid :: "itemRenderer \<Rightarrow> ChannelRef \<Rightarrow> UnifiedMessage" where
  "normalizePaid r ch =
    (let header = ''Super Chat '' @ ir_PurchaseAmountText r; body = runsSegments (ir_Message r)
     in unified r ch TypeAnnouncement (if body \<noteq> [] then seg SegText (header @ dash) # body else [seg SegText header]))"

text \<open>The pattern \<^verbatim>\<open>(?i)(\d+)\s+month\<close>: a digit, white space, and the word.\<close>

definition month_white :: "char \<Rightarrow> bool" where
  "month_white c \<longleftrightarrow> byte c \<in> {9, 10, 12, 13, 32}"

fun months_match :: "string \<Rightarrow> bool" where
  "months_match [] = False"
| "months_match (c # s) = (is_digit c \<and> s \<noteq> [] \<and> month_white (hd s) \<and> has_prefix (to_lower (dropWhile month_white s)) ''month'' \<or> months_match s)"

definition normalizeMembership :: "itemRenderer \<Rightarrow> ChannelRef \<Rightarrow> UnifiedMessage" where
  "normalizeMembership r ch =
    (let t = (if months_match (plainRuns (ir_HeaderSubtext r)) then TypeResub else TypeSub);
         segs = runsSegments (ir_HeaderSubtext r); body = runsSegments (ir_Message r)
     in unified r ch t (if body \<noteq> [] then (if segs \<noteq> [] then segs @ [seg SegText dash] else segs) @ body else segs))"

definition normalizeItem :: "chatItem \<Rightarrow> ChannelRef \<Rightarrow> UnifiedMessage option" where
  "normalizeItem item ch = (case ci_Text item of
     Some r \<Rightarrow> Some (unified r ch TypeChat (runsSegments (ir_Message r)))
   | None \<Rightarrow> (case ci_Paid item of
       Some r \<Rightarrow> Some (normalizePaid r ch)
     | None \<Rightarrow> map_option (\<lambda>r. normalizeMembership r ch) (ci_Membership item)))"

definition eventsFromAction :: "chatAction \<Rightarrow> ChannelRef \<Rightarrow> Event list" where
  "eventsFromAction act ch = (case ca_AddChatItem act of
     Some item \<Rightarrow> (case normalizeItem item ch of Some msg \<Rightarrow> [MessageEvent msg] | None \<Rightarrow> [])
   | None \<Rightarrow> (case ca_MarkDeleted act of
       Some i \<Rightarrow> [MessageDeletedEvent ch i []]
     | None \<Rightarrow> (case ca_MarkAuthorDeleted act of Some u \<Rightarrow> [ChannelClearEvent ch u] | None \<Rightarrow> [])))"

subsection \<open>The text of a message\<close>

text \<open>What a viewer of YouTube reads: the text of each run, an emoji by its picture's name or its character.\<close>

definition run_text :: "run \<Rightarrow> string" where
  "run_text r = (case rn_Emoji r of
     None \<Rightarrow> rn_Text r
   | Some e \<Rightarrow> if drawn e then emojiName e else if er_EmojiID e \<noteq> [] then er_EmojiID e else emojiName e)"

lemma runs_from_text: "seg_text (runs_from buf rs) = buf @ concat (map run_text rs)"
  by (induction buf rs rule: runs_from.induct) (auto simp: run_text_def youtube_emote_def split: option.split)

lemma runs_from_emotes: "filter (\<lambda>s. sg_Emote s \<noteq> None) (runs_from buf rs) = map youtube_emote (filter drawn (List.map_filter rn_Emoji rs))"
proof (induction buf rs rule: runs_from.induct)
  case (1 buf)
  show ?case by (auto simp: filter_empty_conv dest: Text_no_emote)
next
  case (2 buf r rs)
  have "filter (\<lambda>s. sg_Emote s \<noteq> None) (if buf \<noteq> [] then Text buf else []) = []" by (auto simp: filter_empty_conv dest: Text_no_emote)
  then show ?case using 2 by (cases "rn_Emoji r") (auto simp: youtube_emote_def List.map_filter_simps)
qed

abbreviation run_texts :: "run list option \<Rightarrow> string" where
  "run_texts rt \<equiv> concat (map run_text (case rt of None \<Rightarrow> [] | Some rs \<Rightarrow> rs))"

lemma runsSegments_text [simp]: "seg_text (runsSegments rt) = run_texts rt"
  by (simp add: runsSegments_def runs_from_text split: option.split)


text \<open>A custom emoji without a picture is shown by its opaque id, not by its shortcut.\<close>

lemma undrawn_custom_shows_id:
  "run_text \<lparr>rn_Text = [], rn_Emoji = Some \<lparr>er_EmojiID = ''UCkszU2WH9'', er_Shortcuts = ['':wave:''], er_Image = [], er_IsCustomEmoji = True\<rparr>\<rparr> = ''UCkszU2WH9''"
  by code_simp

end
