(* ===== verification/Youtube_Adapter.thy ===== *)
theory Youtube_Adapter
  imports Youtube_Normalize Twitch_Shard Http_Calls
begin

text \<open>
  \<^verbatim>\<open>internal/platform/youtube/adapter.go\<close> and \<^verbatim>\<open>resolver.go\<close>: chat is read by polling, with one worker per joined channel. A worker is
  a state machine driven by its inputs: what a lookup or a poll answers, and whether a sleep ended by its timer or by the
  cancellation of the worker. The steps of the adapter are the sections of \<^verbatim>\<open>Join\<close>, \<^verbatim>\<open>Leave\<close> and \<^verbatim>\<open>Close\<close> and the steps of the
  workers, in any order.
\<close>

subsection \<open>Looking up a broadcast\<close>

datatype live_result = Live string | NotLive | NoChannel | LiveFailed string

definition id_char :: "char \<Rightarrow> bool" where
  "id_char c \<longleftrightarrow> is_digit c \<or> (65 \<le> byte c \<and> byte c \<le> 90) \<or> (97 \<le> byte c \<and> byte c \<le> 122) \<or> c = CHR ''_'' \<or> c = CHR ''-''"

text \<open>A JSON key or string in quotes.\<close>

definition in_quotes :: "string \<Rightarrow> string" where
  "in_quotes s = CHR 0x22 # s @ [CHR 0x22]"

text \<open>The first match of \<^verbatim>\<open>videoIDPattern\<close>.\<close>

fun find_video :: "string \<Rightarrow> string option" where
  "find_video [] = None"
| "find_video (c # s) =
    (let p = in_quotes ''videoId'' @ '':'' @ [CHR 0x22]; rest = drop (length p) (c # s); i = take 11 rest
     in if has_prefix (c # s) p \<and> length i = 11 \<and> list_all id_char i \<and> has_prefix (drop 11 rest) [CHR 0x22] then Some i
        else find_video s)"

text \<open>The page is cut at 4 MiB by the reader.\<close>

definition resolveLive :: "string \<Rightarrow> http_answer \<Rightarrow> live_result" where
  "resolveLive slug ans = (case ans of
     Inl e \<Rightarrow> LiveFailed e
   | Inr (status, page) \<Rightarrow>
       if status = 404 then NoChannel
       else if status \<noteq> 200 then LiveFailed (''youtube: live page for '' @ quoted slug @ '': unexpected status '' @ format_int status)
       else let body = take (4 * 2 ^ 20) page
         in if \<not> contains body (CHR ''{'' # in_quotes ''isLive'' @ '':true}'') \<and> \<not> contains body (in_quotes ''isLiveNow'' @ '':true'') then NotLive
            else (case find_video body of Some i \<Rightarrow> Live i | None \<Rightarrow> NotLive))"

text \<open>One InnerTube call with the decoder of its answer; the errors of the decoder are its own.\<close>

definition innertube :: "(string \<Rightarrow> 'a option) \<Rightarrow> string \<Rightarrow> http_answer \<Rightarrow> string + 'a" where
  "innertube dec path ans = (case ans of
     Inl e \<Rightarrow> Inl e
   | Inr (status, body) \<Rightarrow>
       if status \<noteq> 200 then Inl (''youtube: POST '' @ path @ '': unexpected status '' @ format_int status)
       else (case dec body of None \<Rightarrow> Inl ''decode'' | Some x \<Rightarrow> Inr x))"

text \<open>The live chat part of the answer, if any, is its list of reload continuations.\<close>

definition fetchContinuation :: "(string \<Rightarrow> continuationData option list option option) \<Rightarrow> http_answer \<Rightarrow> string + string" where
  "fetchContinuation dec ans = (case innertube dec ''/youtubei/v1/next?prettyPrint=false'' ans of
     Inl e \<Rightarrow> Inl e
   | Inr None \<Rightarrow> Inl ''youtube: live chat unavailable for this broadcast''
   | Inr (Some cs) \<Rightarrow> (case find (\<lambda>c. case c of None \<Rightarrow> False | Some d \<Rightarrow> cd_Continuation d \<noteq> []) cs of
       Some (Some d) \<Rightarrow> Inr (cd_Continuation d)
     | _ \<Rightarrow> Inl ''youtube: live chat unavailable for this broadcast''))"

definition fetchChat :: "(string \<Rightarrow> liveChatResponse option) \<Rightarrow> http_answer \<Rightarrow> string + liveChatResponse" where
  "fetchChat dec ans = innertube dec ''/youtubei/v1/live_chat/get_live_chat?prettyPrint=false'' ans"

definition nextContinuation :: "continuationWrapper list \<Rightarrow> string \<times> duration" where
  "nextContinuation cs = (case find (\<lambda>w. case cw_data w of None \<Rightarrow> False | Some d \<Rightarrow> cd_Continuation d \<noteq> []) cs of
     Some w \<Rightarrow> (case cw_data w of Some d \<Rightarrow> (cd_Continuation d, wrap64 (cd_TimeoutMs d * millisecond)) | None \<Rightarrow> ([], 0))
   | None \<Rightarrow> ([], 0))"

subsection \<open>A worker\<close>

definition maxPollFailures :: int where
  "maxPollFailures = 5"

record yt_config =
  yc_pollBackoff :: backoff
  yc_resolveBackoff :: backoff
  yc_pollFloor :: duration
  yc_pollCeil :: duration

text \<open>The options, zero or less for the default.\<close>

definition youtube_New :: "duration \<Rightarrow> duration \<Rightarrow> duration \<Rightarrow> duration \<Rightarrow> duration \<Rightarrow> duration \<Rightarrow> yt_config" where
  "youtube_New base mx flr cl rmin rmax =
    (let flr = (if flr \<le> 0 then second else flr);
         cl = (if cl \<le> 0 then 10 * second else cl);
         cl = (if cl < flr then flr else cl)
     in \<lparr>yc_pollBackoff = \<lparr>bo_base = (if base \<le> 0 then second else base), bo_max = (if mx \<le> 0 then 30 * second else mx)\<rparr>,
         yc_resolveBackoff = \<lparr>bo_base = (if rmin \<le> 0 then 30 * second else rmin), bo_max = (if rmax \<le> 0 then 2 * minute else rmax)\<rparr>,
         yc_pollFloor = flr, yc_pollCeil = cl\<rparr>)"

definition clampPoll :: "yt_config \<Rightarrow> duration \<Rightarrow> duration" where
  "clampPoll cf d = (if d < yc_pollFloor cf then yc_pollFloor cf else if d > yc_pollCeil cf then yc_pollCeil cf else d)"

text \<open>
  Where a worker is: at the head of its loop with a video or none, asleep before lookup \<open>n\<close>, looking the channel up, fetching the first
  continuation, polling after so many failures, emitting the events of a response before going on with a
  continuation, asleep between polls, backing off, or ended. A sleep carries its duration.
\<close>

datatype yt_phase = Top string | Asleep int duration | Looking int | Fetching string | Polling string int
  | Emitting "Event list" string duration | Pausing string duration | BackingOff string int duration | Ended

datatype yt_input = Go "64 word" | Timer bool | Found "64 word" live_result | Started "string + string" | Answered "64 word" "string + liveChatResponse"

record yt_worker =
  yw_ch :: ChannelRef
  yw_cancelled :: bool
  yw_phase :: yt_phase
  yw_last :: HealthStatus
  yw_in :: "liveChatResponse list"

definition new_worker :: "ChannelRef \<Rightarrow> string \<Rightarrow> yt_worker" where
  "new_worker ch v = \<lparr>yw_ch = ch, yw_cancelled = False, yw_phase = Top v, yw_last = health [] ReasonNone, yw_in = []\<rparr>"

text \<open>\<^verbatim>\<open>setHealth\<close> of a worker: a change of state or reason is an event.\<close>

definition yt_report :: "HealthStatus \<Rightarrow> yt_worker \<Rightarrow> Event list \<times> yt_worker" where
  "yt_report h w = (if hs_State h = hs_State (yw_last w) \<and> hs_Reason h = hs_Reason (yw_last w) then ([], w)
     else ([HealthEvent (Some (yw_ch w)) h], w\<lparr>yw_last := h\<rparr>))"

definition yt_goto :: "yt_phase \<Rightarrow> Event list \<times> yt_worker \<Rightarrow> Event list \<times> yt_worker" where
  "yt_goto ph r = (fst r, (snd r)\<lparr>yw_phase := ph\<rparr>)"

definition not_live :: HealthStatus where
  "not_live = \<lparr>hs_State = HealthDegraded, hs_Reason = ReasonNotLive, hs_Detail = ''waiting for a live broadcast''\<rparr>"

text \<open>The duration of a back-off, given the value drawn.\<close>

abbreviation yt_wait :: "backoff \<Rightarrow> int \<Rightarrow> 64 word \<Rightarrow> duration" where
  "yt_wait \<equiv> delay"

text \<open>The phases of \<^verbatim>\<open>runWorker\<close> itself.\<close>

definition run_top :: "yt_config \<Rightarrow> 64 word \<Rightarrow> string \<Rightarrow> yt_worker \<Rightarrow> Event list \<times> yt_worker" where
  "run_top cf rnd v w =
    (if yw_cancelled w then yt_goto Ended ([], w)
     else if v = [] then yt_goto (Asleep 1 (yt_wait (yc_resolveBackoff cf) 1 rnd)) (yt_report not_live w)
     else yt_goto (Fetching v) ([], w))"

definition run_fetched :: "string + string \<Rightarrow> yt_worker \<Rightarrow> Event list \<times> yt_worker" where
  "run_fetched r w = (case r of
     Inl e \<Rightarrow> yt_goto (if yw_cancelled w then Ended else Top []) ([], w)
   | Inr cont \<Rightarrow> yt_goto (Polling cont 0) (yt_report (health HealthOK ReasonNone) w))"

text \<open>\<^verbatim>\<open>waitForLive\<close>: the lookup after a sleep.\<close>

definition wait_found :: "yt_config \<Rightarrow> 64 word \<Rightarrow> int \<Rightarrow> live_result \<Rightarrow> yt_worker \<Rightarrow> Event list \<times> yt_worker" where
  "wait_found cf rnd n r w = (case r of
     Live v \<Rightarrow> yt_goto (if v = [] then Ended else Fetching v) ([], w)
   | _ \<Rightarrow>
       if yw_cancelled w then yt_goto Ended ([], w)
       else yt_goto (Asleep (n + 1) (yt_wait (yc_resolveBackoff cf) (n + 1) rnd))
         (yt_report (case r of
            NoChannel \<Rightarrow> health HealthDown ReasonChannelNotFound
          | LiveFailed e \<Rightarrow> \<lparr>hs_State = HealthDegraded, hs_Reason = ReasonUpstreamDown, hs_Detail = e\<rparr>
          | _ \<Rightarrow> not_live) w))"

text \<open>\<^verbatim>\<open>pollChat\<close>: one answer. Where it returns, the worker is back at the head of its loop without a video.\<close>

definition poll_answered :: "yt_config \<Rightarrow> 64 word \<Rightarrow> string \<Rightarrow> int \<Rightarrow> string + liveChatResponse \<Rightarrow> yt_worker \<Rightarrow> Event list \<times> yt_worker" where
  "poll_answered cf rnd cont failures r w = (case r of
     Inl e \<Rightarrow>
       if yw_cancelled w \<or> failures + 1 \<ge> maxPollFailures then yt_goto (Top []) ([], w)
       else yt_goto (BackingOff cont (failures + 1) (yt_wait (yc_pollBackoff cf) (failures + 1) rnd))
         (yt_report \<lparr>hs_State = HealthDegraded, hs_Reason = ReasonReconnecting, hs_Detail = e\<rparr> w)
   | Inr resp \<Rightarrow>
       let (evs, w) = (if failures > 0 then yt_report (health HealthOK ReasonNone) w else ([], w));
           w = w\<lparr>yw_in := yw_in w @ [resp]\<rparr>
       in (case resp of
           None \<Rightarrow> yt_goto (Top []) (evs, w)
         | Some lc \<Rightarrow> (case nextContinuation (lc_Continuations lc) of (nxt, timeout) \<Rightarrow>
             yt_goto (Emitting (concat (map (\<lambda>act. eventsFromAction act (yw_ch w)) (lc_Actions lc))) nxt timeout) (evs, w))))"

definition poll_emit :: "yt_config \<Rightarrow> Event list \<Rightarrow> string \<Rightarrow> duration \<Rightarrow> yt_worker \<Rightarrow> Event list \<times> yt_worker" where
  "poll_emit cf evs nxt timeout w = (case evs of
     e # es \<Rightarrow> yt_goto (Emitting es nxt timeout) ([e], w)
   | [] \<Rightarrow> yt_goto (if nxt = [] then Top [] else Pausing nxt (clampPoll cf timeout)) ([], w))"

text \<open>One step of a worker: the events it sends and what becomes of it. None: the input does not fit.\<close>

fun yt_run :: "yt_config \<Rightarrow> yt_input \<Rightarrow> yt_phase \<Rightarrow> yt_worker \<Rightarrow> (Event list \<times> yt_worker) option" where
  "yt_run cf (Go rnd) (Top v) w = Some (run_top cf rnd v w)"
| "yt_run cf (Go rnd) (Emitting evs nxt timeout) w = Some (poll_emit cf evs nxt timeout w)"
| "yt_run cf (Timer fired) (Asleep n d) w = Some (yt_goto (if fired then Looking n else Ended) ([], w))"
| "yt_run cf (Timer fired) (Pausing cont d) w = Some (yt_goto (if fired then Polling cont 0 else Top []) ([], w))"
| "yt_run cf (Timer fired) (BackingOff cont n d) w = Some (yt_goto (if fired then Polling cont n else Top []) ([], w))"
| "yt_run cf (Found rnd r) (Looking n) w = Some (wait_found cf rnd n r w)"
| "yt_run cf (Started r) (Fetching v) w = Some (run_fetched r w)"
| "yt_run cf (Answered rnd r) (Polling cont n) w = Some (poll_answered cf rnd cont n r w)"
| "yt_run cf _ _ w = None"

subsection \<open>The adapter\<close>

text \<open>
  The workers ever started, in order, and the map from channel keys to those that are wanted; the joins that are looking up their channel;
  the workers whose \<^verbatim>\<open>Leave\<close> has taken them out of the map, and cancels them next; and, as a ghost, the events sent, each with its worker.
\<close>

record youtube_adapter =
  yt_workers :: "(string \<times> nat) list"
  yt_all :: "yt_worker list"
  yt_closed :: bool
  yt_done :: bool
  yt_joins :: "ChannelRef list"
  yt_left :: "nat list"
  yt_events :: "(nat \<times> Event) list"

definition youtube_start :: youtube_adapter where
  "youtube_start = \<lparr>yt_workers = [], yt_all = [], yt_closed = False, yt_done = False, yt_joins = [], yt_left = [], yt_events = []\<rparr>"

definition youtube_Capabilities :: Capabilities where
  "youtube_Capabilities = \<lparr>ReadAnonymous = True, ReadAuthed = False, cap_Send = False, cap_Moderation = False, cap_Replies = False,
     HeldQueue = False, Stability = TierUnofficial\<rparr>"

text \<open>\<^verbatim>\<open>Join\<close> up to the lookup, and from its answer on.\<close>

definition youtube_join :: "ChannelRef \<Rightarrow> youtube_adapter \<Rightarrow> error \<times> youtube_adapter" where
  "youtube_join ch a =
    (if yt_closed a then (Some ''youtube: adapter closed'', a)
     else if map_of (yt_workers a) (ChannelRef_Key ch) \<noteq> None then (None, a)
     else (None, a\<lparr>yt_joins := yt_joins a @ [ch]\<rparr>))"

definition youtube_joined :: "ChannelRef \<Rightarrow> live_result \<Rightarrow> youtube_adapter \<Rightarrow> error \<times> youtube_adapter" where
  "youtube_joined ch r a =
    (if r = NoChannel then (Some (''youtube: resolve '' @ quoted (ch_Slug ch) @ '': '' @ ReasonChannelNotFound), a)
     else if yt_closed a then (Some ''youtube: adapter closed'', a)
     else if map_of (yt_workers a) (ChannelRef_Key ch) \<noteq> None then (None, a)
     else (None, a\<lparr>yt_workers := AList.update (ChannelRef_Key ch) (length (yt_all a)) (yt_workers a),
                  yt_all := yt_all a @ [new_worker ch (case r of Live v \<Rightarrow> v | _ \<Rightarrow> [])]\<rparr>))"

definition cancel :: "yt_worker \<Rightarrow> yt_worker" where
  "cancel w = w\<lparr>yw_cancelled := True\<rparr>"

definition youtube_leave :: "ChannelRef \<Rightarrow> youtube_adapter \<Rightarrow> youtube_adapter" where
  "youtube_leave ch a = (case map_of (yt_workers a) (ChannelRef_Key ch) of
     None \<Rightarrow> a
   | Some i \<Rightarrow> a\<lparr>yt_workers := AList.delete (ChannelRef_Key ch) (yt_workers a), yt_left := yt_left a @ [i]\<rparr>)"

definition youtube_left :: "nat \<Rightarrow> youtube_adapter \<Rightarrow> youtube_adapter" where
  "youtube_left i a = a\<lparr>yt_all := (yt_all a)[i := cancel (yt_all a ! i)]\<rparr>"

text \<open>\<^verbatim>\<open>Close\<close>: its section, the cancellation of every worker, and, once all have ended, the end of the events.\<close>

definition youtube_close :: "youtube_adapter \<Rightarrow> youtube_adapter" where
  "youtube_close a = a\<lparr>yt_closed := True, yt_workers := []\<rparr>"

definition youtube_cancel :: "youtube_adapter \<Rightarrow> youtube_adapter" where
  "youtube_cancel a = a\<lparr>yt_all := map cancel (yt_all a)\<rparr>"

definition youtube_finish :: "youtube_adapter \<Rightarrow> youtube_adapter" where
  "youtube_finish a = a\<lparr>yt_done := True\<rparr>"

text \<open>What can be fed to a worker: a sleep ends early only when it is cancelled, and lookups answer what \<^verbatim>\<open>resolveLive\<close> makes of a page.\<close>

fun fits :: "yt_worker \<Rightarrow> yt_input \<Rightarrow> bool" where
  "fits w (Timer fired) = (fired \<or> yw_cancelled w)"
| "fits w (Found rnd r) = (\<forall>v. r = Live v \<longrightarrow> v \<noteq> [])"
| "fits w _ = True"

text \<open>A worker's step. An event of a cancelled worker is sent or not, whichever branch the select takes.\<close>

definition worker_step :: "nat \<Rightarrow> Event list \<Rightarrow> yt_worker \<Rightarrow> youtube_adapter \<Rightarrow> youtube_adapter" where
  "worker_step i es w a = a\<lparr>yt_all := (yt_all a)[i := w], yt_events := yt_events a @ map (Pair i) es\<rparr>"

inductive yt_step :: "yt_config \<Rightarrow> youtube_adapter \<Rightarrow> youtube_adapter \<Rightarrow> bool" for cf where
  join: "yt_step cf a (snd (youtube_join ch a))"
| joined: "i < length (yt_joins a) \<Longrightarrow> yt_step cf a (snd (youtube_joined (yt_joins a ! i) (resolveLive slug ans)
     (a\<lparr>yt_joins := take i (yt_joins a) @ drop (Suc i) (yt_joins a)\<rparr>)))"
| leave: "yt_step cf a (youtube_leave ch a)"
| left: "i \<in> set (yt_left a) \<Longrightarrow> yt_step cf a (youtube_left i a)"
| close: "yt_step cf a (youtube_close a)"
| cancel: "yt_closed a \<Longrightarrow> yt_step cf a (youtube_cancel a)"
| finish: "yt_closed a \<Longrightarrow> \<forall>w \<in> set (yt_all a). yw_phase w = Ended \<Longrightarrow> yt_step cf a (youtube_finish a)"
| work: "i < length (yt_all a) \<Longrightarrow> fits (yt_all a ! i) inp \<Longrightarrow> yt_run cf inp (yw_phase (yt_all a ! i)) (yt_all a ! i) = Some (evs, w) \<Longrightarrow>
    es = evs \<or> yw_cancelled w \<and> es = [] \<Longrightarrow> yt_step cf a (worker_step i es w a)"

lemma find_video_length: "find_video s = Some i \<Longrightarrow> length i = 11"
  by (induction s) (auto simp: Let_def split: if_splits)

lemma resolveLive_fits: "fits w (Found rnd (resolveLive slug ans))"
  by (auto simp: resolveLive_def Let_def split: sum.splits if_splits option.splits dest: find_video_length)

subsection \<open>One running worker per channel\<close>

lemma run_fields:
  assumes "yt_run cf inp ph w = Some (evs, w')"
  shows "yw_ch w' = yw_ch w \<and> yw_cancelled w' = yw_cancelled w"
  using assms
  by (induction cf inp ph w rule: yt_run.induct)
    (auto simp: run_top_def poll_emit_def wait_found_def run_fetched_def poll_answered_def yt_goto_def yt_report_def Let_def
      split: if_splits list.splits live_result.splits sum.splits option.splits prod.splits)

lemma run_alive:
  assumes "yt_run cf inp ph w = Some (evs, w')" "fits w inp" "\<not> yw_cancelled w"
  shows "yw_phase w' \<noteq> Ended"
  using assms
  by (induction cf inp ph w rule: yt_run.induct)
    (auto simp: run_top_def poll_emit_def wait_found_def run_fetched_def poll_answered_def yt_goto_def yt_report_def Let_def
      split: if_splits list.splits live_result.splits sum.splits option.splits prod.splits)

lemma run_ended: "yt_run cf inp Ended w = None"
  by (cases inp) auto

definition yt_wf :: "youtube_adapter \<Rightarrow> bool" where
  "yt_wf a \<longleftrightarrow> (\<forall>key i. map_of (yt_workers a) key = Some i \<longrightarrow> i < length (yt_all a) \<and> ChannelRef_Key (yw_ch (yt_all a ! i)) = key \<and> \<not> yw_cancelled (yt_all a ! i) \<and> i \<notin> set (yt_left a))
     \<and> (\<forall>i \<in> set (yt_left a). i < length (yt_all a))
     \<and> (\<forall>w \<in> set (yt_all a). \<not> yw_cancelled w \<longrightarrow> yw_phase w \<noteq> Ended)
     \<and> (\<not> yt_closed a \<longrightarrow> (\<forall>i < length (yt_all a). \<not> yw_cancelled (yt_all a ! i) \<and> i \<notin> set (yt_left a) \<longrightarrow> map_of (yt_workers a) (ChannelRef_Key (yw_ch (yt_all a ! i))) = Some i))
     \<and> (yt_closed a \<longrightarrow> yt_workers a = [])
     \<and> (yt_done a \<longrightarrow> yt_closed a \<and> (\<forall>w \<in> set (yt_all a). yw_phase w = Ended))"

lemma wf_joined: "yt_wf a \<Longrightarrow> yt_wf (snd (youtube_joined ch r a))"
proof (cases "r = NoChannel \<or> yt_closed a \<or> map_of (yt_workers a) (ChannelRef_Key ch) \<noteq> None")
  case False
  assume wf: "yt_wf a"
  let ?w = "new_worker ch (case r of Live v \<Rightarrow> v | _ \<Rightarrow> [])"
  let ?b = "snd (youtube_joined ch r a)"
  have b: "yt_workers ?b = AList.update (ChannelRef_Key ch) (length (yt_all a)) (yt_workers a)" "yt_all ?b = yt_all a @ [?w]"
    "yt_closed ?b = yt_closed a" "yt_done ?b = yt_done a" "yt_left ?b = yt_left a"
    using False by (simp_all add: youtube_joined_def)
  have w: "yw_ch ?w = ch" "\<not> yw_cancelled ?w" "yw_phase ?w \<noteq> Ended" by (simp_all add: new_worker_def)
  have old: "map_of (yt_workers a) (ChannelRef_Key (yw_ch (yt_all a ! i))) = Some i" if "i < length (yt_all a)" "\<not> yw_cancelled (yt_all a ! i)" "i \<notin> set (yt_left a)" for i
    using wf False that by (simp add: yt_wf_def)
  have nd: "\<not> yt_done a" using wf False by (auto simp: yt_wf_def)
  show ?thesis unfolding yt_wf_def b
  proof (intro conjI allI impI ballI)
    fix key i assume "map_of (AList.update (ChannelRef_Key ch) (length (yt_all a)) (yt_workers a)) key = Some i"
    then have "key = ChannelRef_Key ch \<and> i = length (yt_all a) \<or> map_of (yt_workers a) key = Some i" by (auto split: if_splits)
    then have "i < length (yt_all a @ [?w]) \<and> ChannelRef_Key (yw_ch ((yt_all a @ [?w]) ! i)) = key \<and> \<not> yw_cancelled ((yt_all a @ [?w]) ! i) \<and> i \<notin> set (yt_left a)"
      using wf w by (auto simp: yt_wf_def nth_append)
    then show "i < length (yt_all a @ [?w])" "ChannelRef_Key (yw_ch ((yt_all a @ [?w]) ! i)) = key" "\<not> yw_cancelled ((yt_all a @ [?w]) ! i)" "i \<notin> set (yt_left a)" by blast+
  next
    fix i assume i: "i < length (yt_all a @ [?w])" "\<not> yw_cancelled ((yt_all a @ [?w]) ! i) \<and> i \<notin> set (yt_left a)"
    show "map_of (AList.update (ChannelRef_Key ch) (length (yt_all a)) (yt_workers a)) (ChannelRef_Key (yw_ch ((yt_all a @ [?w]) ! i))) = Some i"
    proof (cases "i = length (yt_all a)")
      case True
      then show ?thesis using w by simp
    next
      case neq: False
      then have "map_of (yt_workers a) (ChannelRef_Key (yw_ch (yt_all a ! i))) = Some i" using old i by (simp add: nth_append)
      then show ?thesis using neq i False by (auto simp: nth_append)
    qed
  qed (use wf w False nd in \<open>auto simp: yt_wf_def\<close>)
qed (auto simp: youtube_joined_def)

lemma wf_update:
  assumes "yt_wf a" "i < length (yt_all a)" "yw_ch w = yw_ch (yt_all a ! i)" "yw_cancelled w = yw_cancelled (yt_all a ! i)"
    "\<not> yw_cancelled w \<Longrightarrow> yw_phase w \<noteq> Ended" "yw_phase (yt_all a ! i) = Ended \<Longrightarrow> yw_phase w = Ended"
    "yt_workers b = yt_workers a" "yt_all b = (yt_all a)[i := w]" "yt_closed b = yt_closed a" "yt_done b = yt_done a" "yt_left b = yt_left a"
  shows "yt_wf b"
proof -
  let ?ws = "(yt_all a)[i := w]"
  have same: "yw_ch (?ws ! k) = yw_ch (yt_all a ! k)" "yw_cancelled (?ws ! k) = yw_cancelled (yt_all a ! k)" for k
    using assms(2-4) by (cases "k = i"; simp)+
  have mem: "x = w \<or> x \<in> set (yt_all a)" if "x \<in> set ?ws" for x using that set_update_subset_insert [of "yt_all a" i w] by blast
  have old: "yt_all a ! i \<in> set (yt_all a)" using assms(2) by simp
  show ?thesis
    using assms(1) unfolding yt_wf_def assms(7-11) same length_list_update
    using mem old assms(5,6) by blast
qed

lemma wf_leave: "yt_wf a \<Longrightarrow> yt_wf (youtube_leave ch a)"
proof (cases "map_of (yt_workers a) (ChannelRef_Key ch)")
  case (Some j)
  assume wf: "yt_wf a"
  let ?b = "youtube_leave ch a"
  have b: "yt_workers ?b = AList.delete (ChannelRef_Key ch) (yt_workers a)" "yt_all ?b = yt_all a"
    "yt_closed ?b = yt_closed a" "yt_done ?b = yt_done a" "yt_left ?b = yt_left a @ [j]" using Some by (simp_all add: youtube_leave_def)
  have j: "j < length (yt_all a)" "ChannelRef_Key (yw_ch (yt_all a ! j)) = ChannelRef_Key ch" using wf Some unfolding yt_wf_def by blast+
  have open_a: "\<not> yt_closed a" using wf Some by (auto simp: yt_wf_def)
  have del: "map_of (AList.delete (ChannelRef_Key ch) (yt_workers a)) key = (if key = ChannelRef_Key ch then None else map_of (yt_workers a) key)" for key
    by simp
  show ?thesis unfolding yt_wf_def b del
  proof (intro conjI allI impI)
    fix key i assume "(if key = ChannelRef_Key ch then None else map_of (yt_workers a) key) = Some i"
    then have k: "key \<noteq> ChannelRef_Key ch" "map_of (yt_workers a) key = Some i" by (auto split: if_splits)
    then have i: "i < length (yt_all a)" "ChannelRef_Key (yw_ch (yt_all a ! i)) = key" "\<not> yw_cancelled (yt_all a ! i)" "i \<notin> set (yt_left a)"
      using wf unfolding yt_wf_def by blast+
    moreover have "i \<noteq> j" using i(2) j(2) k(1) by auto
    ultimately show "i < length (yt_all a)" "ChannelRef_Key (yw_ch (yt_all a ! i)) = key" "\<not> yw_cancelled (yt_all a ! i)" "i \<notin> set (yt_left a @ [j])"
      by simp_all
  next
    fix i assume i: "i < length (yt_all a)" "\<not> yw_cancelled (yt_all a ! i) \<and> i \<notin> set (yt_left a @ [j])"
    then have old: "map_of (yt_workers a) (ChannelRef_Key (yw_ch (yt_all a ! i))) = Some i" using wf open_a unfolding yt_wf_def by simp
    then have "ChannelRef_Key (yw_ch (yt_all a ! i)) \<noteq> ChannelRef_Key ch" using Some i by auto
    then show "(if ChannelRef_Key (yw_ch (yt_all a ! i)) = ChannelRef_Key ch then None else map_of (yt_workers a) (ChannelRef_Key (yw_ch (yt_all a ! i)))) = Some i"
      using old by simp
  qed (use wf j open_a in \<open>auto simp: yt_wf_def\<close>)
qed (simp add: youtube_leave_def)

lemma wf_left: "yt_wf a \<Longrightarrow> i \<in> set (yt_left a) \<Longrightarrow> yt_wf (youtube_left i a)"
proof -
  assume wf: "yt_wf a" and i: "i \<in> set (yt_left a)"
  let ?ws = "(yt_all a)[i := cancel (yt_all a ! i)]"
  have b: "yt_workers (youtube_left i a) = yt_workers a" "yt_all (youtube_left i a) = ?ws" "yt_closed (youtube_left i a) = yt_closed a"
    "yt_done (youtube_left i a) = yt_done a" "yt_left (youtube_left i a) = yt_left a" by (simp_all add: youtube_left_def)
  have len: "i < length (yt_all a)" using wf i unfolding yt_wf_def by blast
  have other: "?ws ! k = yt_all a ! k" if "k \<notin> set (yt_left a)" for k using that i by (metis nth_list_update_neq)
  have mem: "x \<in> set (yt_all a) \<or> x = cancel (yt_all a ! i)" if "x \<in> set ?ws" for x using that set_update_subset_insert [of "yt_all a" i] by blast
  have c: "yw_cancelled (cancel (yt_all a ! i))" "yw_phase (cancel (yt_all a ! i)) = yw_phase (yt_all a ! i)" by (simp_all add: cancel_def)
  have "yt_all a ! i \<in> set (yt_all a)" using len by simp
  then have ended: "yt_done a \<Longrightarrow> x \<in> set ?ws \<Longrightarrow> yw_phase x = Ended" for x using wf mem c(2) unfolding yt_wf_def by metis
  show ?thesis unfolding yt_wf_def b length_list_update
  proof (intro conjI allI impI ballI)
    fix k assume "\<not> yt_closed a" "k < length (yt_all a)" "\<not> yw_cancelled (?ws ! k) \<and> k \<notin> set (yt_left a)"
    then show "map_of (yt_workers a) (ChannelRef_Key (yw_ch (?ws ! k))) = Some k" using wf other unfolding yt_wf_def by auto
  next
    fix key k assume "map_of (yt_workers a) key = Some k"
    then have "k < length (yt_all a) \<and> ChannelRef_Key (yw_ch (yt_all a ! k)) = key \<and> \<not> yw_cancelled (yt_all a ! k) \<and> k \<notin> set (yt_left a)"
      using wf unfolding yt_wf_def by blast
    then show "k < length (yt_all a)" "ChannelRef_Key (yw_ch (?ws ! k)) = key" "\<not> yw_cancelled (?ws ! k)" "k \<notin> set (yt_left a)" using other by auto
  next
    fix w assume "w \<in> set ?ws" "\<not> yw_cancelled w"
    then show "yw_phase w \<noteq> Ended" using wf mem c(1) unfolding yt_wf_def by metis
  qed (use wf ended in \<open>auto simp: yt_wf_def\<close>)
qed

lemma wf_step: "yt_step cf a b \<Longrightarrow> yt_wf a \<Longrightarrow> yt_wf b"
proof (induction rule: yt_step.induct)
  case (join a ch)
  then show ?case by (auto simp: youtube_join_def yt_wf_def)
next
  case (joined i a slug ans)
  then have "yt_wf (a\<lparr>yt_joins := take i (yt_joins a) @ drop (Suc i) (yt_joins a)\<rparr>)" by (simp add: yt_wf_def)
  then show ?case by (rule wf_joined)
next
  case (leave a ch)
  then show ?case by (simp add: wf_leave)
next
  case (left i a)
  then show ?case by (simp add: wf_left)
next
  case (close a)
  then show ?case by (auto simp: youtube_close_def yt_wf_def)
next
  case (cancel a)
  then show ?case by (auto simp: youtube_cancel_def yt_wf_def cancel_def)
next
  case (finish a)
  then show ?case by (simp add: youtube_finish_def yt_wf_def)
next
  case (work i a inp evs w es)
  have f: "yw_ch w = yw_ch (yt_all a ! i)" "yw_cancelled w = yw_cancelled (yt_all a ! i)" using run_fields [OF work.hyps(3)] by simp_all
  have "yw_phase (yt_all a ! i) \<noteq> Ended" using work.hyps(3) run_ended by (metis option.distinct(1))
  then show ?case
    using run_alive [OF work.hyps(3,2)] f by (intro wf_update [OF work.prems work.hyps(1), of w]) (simp_all add: worker_step_def)
qed

lemma yt_reach_wf: "(yt_step cf)\<^sup>*\<^sup>* youtube_start a \<Longrightarrow> yt_wf a"
  by (induction rule: rtranclp_induct) (simp add: youtube_start_def yt_wf_def, rule wf_step)

lemma filter_one: "i < length xs \<Longrightarrow> P (xs ! i) \<Longrightarrow> (\<And>j. j < length xs \<Longrightarrow> P (xs ! j) \<Longrightarrow> j = i) \<Longrightarrow> length (filter P xs) = 1"
proof -
  assume a: "i < length xs" "P (xs ! i)" "\<And>j. j < length xs \<Longrightarrow> P (xs ! j) \<Longrightarrow> j = i"
  then have "{j. j < length xs \<and> P (xs ! j)} = {i}" by blast
  then show ?thesis by (simp add: length_filter_conv_card)
qed

text \<open>
  C22. Each joined channel is watched by exactly one worker, and a channel that was left by none but those its \<^verbatim>\<open>Leave\<close> is about to cancel, however joins, leaves and
  lookups overlap, and a watching worker never ends by itself, whatever the network answers. After \<open>Close\<close> has ended
  the events, nothing sends on them any more.
\<close>

theorem youtube_workers:
  assumes "(yt_step cf)\<^sup>*\<^sup>* youtube_start a"
  shows "(\<not> yt_closed a \<longrightarrow> length (filter (\<lambda>i. ChannelRef_Key (yw_ch (yt_all a ! i)) = key \<and> \<not> yw_cancelled (yt_all a ! i) \<and> i \<notin> set (yt_left a)) [0..<length (yt_all a)])
        = (if map_of (yt_workers a) key = None then 0 else 1))
    \<and> (\<forall>w \<in> set (yt_all a). yw_phase w = Ended \<longrightarrow> yw_cancelled w)
    \<and> (yt_done a \<longrightarrow> (\<forall>b. yt_step cf a b \<longrightarrow> yt_events b = yt_events a))"
proof (intro conjI impI allI ballI)
  note wf = yt_reach_wf [OF assms]
  let ?P = "\<lambda>i. ChannelRef_Key (yw_ch (yt_all a ! i)) = key \<and> \<not> yw_cancelled (yt_all a ! i) \<and> i \<notin> set (yt_left a)"
  assume op: "\<not> yt_closed a"
  then have at: "map_of (yt_workers a) key = Some j" if "j < length (yt_all a)" "?P j" for j
    using wf that unfolding yt_wf_def by blast
  show "length (filter ?P [0..<length (yt_all a)]) = (if map_of (yt_workers a) key = None then 0 else 1)"
  proof (cases "map_of (yt_workers a) key")
    case None
    have "\<not> ?P j" if "j < length (yt_all a)" for j using at [OF that] None by (metis option.distinct(1))
    then have "filter ?P [0..<length (yt_all a)] = []" unfolding filter_empty_conv by simp
    then show ?thesis using None by simp
  next
    case (Some i)
    then have i: "i < length (yt_all a)" "?P i" using wf unfolding yt_wf_def by blast+
    have "length (filter ?P [0..<length (yt_all a)]) = 1"
    proof (rule filter_one [where P = ?P and i = i])
      fix j assume "j < length [0..<length (yt_all a)]" "?P ([0..<length (yt_all a)] ! j)"
      then show "j = i" using at [of j] Some by simp
    qed (use i in simp_all)
    then show ?thesis using Some by simp
  qed
next
  fix w assume "w \<in> set (yt_all a)" "yw_phase w = Ended"
  then show "yw_cancelled w" using yt_reach_wf [OF assms] unfolding yt_wf_def by blast
next
  fix b assume d: "yt_done a" and st: "yt_step cf a b"
  have wf: "yt_wf a" by (rule yt_reach_wf [OF assms])
  then have c: "yt_closed a" "\<forall>w \<in> set (yt_all a). yw_phase w = Ended" "yt_workers a = []" using d unfolding yt_wf_def by blast+
  from st show "yt_events b = yt_events a"
  proof cases
    case (work i inp evs w es)
    have "yw_phase (yt_all a ! i) = Ended" using c(2) work(2) nth_mem by blast
    then have False using work(4) run_ended by (metis option.distinct(1))
    then show ?thesis by blast
  qed (use c in \<open>simp_all add: youtube_join_def youtube_joined_def youtube_leave_def youtube_left_def youtube_close_def youtube_cancel_def youtube_finish_def\<close>)
qed

subsection \<open>What a worker sends\<close>

definition resp_events :: "ChannelRef \<Rightarrow> liveChatResponse \<Rightarrow> Event list" where
  "resp_events ch resp = (case resp of None \<Rightarrow> [] | Some lc \<Rightarrow> concat (map (\<lambda>act. eventsFromAction act ch) (lc_Actions lc)))"

fun still_to_send :: "yt_phase \<Rightarrow> Event list" where
  "still_to_send (Emitting evs nxt d) = evs"
| "still_to_send _ = []"

fun health_part :: "Event \<Rightarrow> HealthStatus list" where
  "health_part (HealthEvent ch h) = [h]"
| "health_part _ = []"

definition chat_part :: "Event list \<Rightarrow> Event list" where
  "chat_part = filter (\<lambda>e. health_part e = [])"

definition health_parts :: "Event list \<Rightarrow> HealthStatus list" where
  "health_parts evs = concat (map health_part evs)"

lemma parts_append [simp]:
  "chat_part (xs @ ys) = chat_part xs @ chat_part ys" "health_parts (xs @ ys) = health_parts xs @ health_parts ys" "chat_part [] = []" "health_parts [] = []"
  by (simp_all add: chat_part_def health_parts_def)

lemma action_chat: "e \<in> set (eventsFromAction act ch) \<Longrightarrow> health_part e = []"
  by (auto simp: eventsFromAction_def split: option.splits)

lemma resp_chat: "e \<in> set (resp_events ch resp) \<Longrightarrow> health_part e = []"
  by (auto simp: resp_events_def dest: action_chat split: option.splits)

text \<open>The health a phase goes with, and the sleeps that are allowed.\<close>

fun phase_state :: "yt_phase \<Rightarrow> HealthState set" where
  "phase_state (Polling c n) = (if n = 0 then {HealthOK} else {HealthDegraded})"
| "phase_state (Emitting evs nxt d) = {HealthOK}"
| "phase_state (Pausing c d) = {HealthOK}"
| "phase_state (BackingOff c n d) = (if n = 0 then {} else {HealthDegraded})"
| "phase_state (Asleep n d) = {HealthDegraded, HealthDown}"
| "phase_state (Looking n) = {HealthDegraded, HealthDown}"
| "phase_state _ = UNIV"

fun phase_sleep :: "yt_config \<Rightarrow> yt_phase \<Rightarrow> bool" where
  "phase_sleep cf (Pausing c d) = (yc_pollFloor cf \<le> d \<and> d \<le> yc_pollCeil cf)"
| "phase_sleep cf (BackingOff c n d) = (0 < n \<and> 0 < d \<and> d \<le> bo_max (yc_pollBackoff cf))"
| "phase_sleep cf (Asleep n d) = (0 < d \<and> d \<le> bo_max (yc_resolveBackoff cf))"
| "phase_sleep cf (Polling c n) = (0 \<le> n)"
| "phase_sleep cf _ = True"

definition sane :: "yt_config \<Rightarrow> bool" where
  "sane cf \<longleftrightarrow> 0 < yc_pollFloor cf \<and> yc_pollFloor cf \<le> yc_pollCeil cf \<and> 0 < bo_max (yc_pollBackoff cf) \<and> 0 < bo_max (yc_resolveBackoff cf)"

lemma New_sane: "sane (youtube_New base mx flr cl rmin rmax)"
  by (simp add: sane_def youtube_New_def Let_def second_def minute_def)

text \<open>The events sent so far and still to send, without a word on the phase.\<close>

definition faithful :: "yt_worker \<Rightarrow> Event list \<Rightarrow> Event list \<Rightarrow> bool" where
  "faithful w evs rest \<longleftrightarrow> chat_part evs @ rest = concat (map (resp_events (yw_ch w)) (yw_in w))
     \<and> (if health_parts evs = [] then yw_last w = health [] ReasonNone else last (health_parts evs) = yw_last w)"

definition faithful_at :: "yt_config \<Rightarrow> yt_worker \<Rightarrow> Event list \<Rightarrow> bool" where
  "faithful_at cf w evs \<longleftrightarrow> faithful w evs (still_to_send (yw_phase w)) \<and> hs_State (yw_last w) \<in> phase_state (yw_phase w) \<and> phase_sleep cf (yw_phase w)"

lemma report_faithful: "faithful w evs rest \<Longrightarrow> faithful (snd (yt_report h w)) (evs @ fst (yt_report h w)) rest"
proof (cases "hs_State h = hs_State (yw_last w) \<and> hs_Reason h = hs_Reason (yw_last w)")
  case False
  have p: "chat_part [HealthEvent ch h] = []" "health_parts [HealthEvent ch h] = [h]" for ch by (simp_all add: chat_part_def health_parts_def)
  assume "faithful w evs rest"
  then show ?thesis using False by (auto simp: faithful_def yt_report_def p)
qed (simp add: yt_report_def)

lemma report_state: "hs_State (yw_last (snd (yt_report h w))) = hs_State h"
  by (simp add: yt_report_def)

lemma report_frame [simp]:
  "yw_ch (snd (yt_report h w)) = yw_ch w" "yw_in (snd (yt_report h w)) = yw_in w" "yw_phase (snd (yt_report h w)) = yw_phase w"
  "yw_cancelled (snd (yt_report h w)) = yw_cancelled w"
  by (simp_all add: yt_report_def)

lemma faithful_phase [simp]: "faithful (w\<lparr>yw_phase := ph\<rparr>) evs rest = faithful w evs rest"
  by (simp add: faithful_def)

lemma goto_at:
  assumes "faithful (snd r) (evs @ fst r) (still_to_send ph)" "hs_State (yw_last (snd r)) \<in> phase_state ph" "phase_sleep cf ph"
  shows "faithful_at cf (snd (yt_goto ph r)) (evs @ fst (yt_goto ph r))"
  using assms by (simp add: faithful_at_def yt_goto_def)

lemma goto_report:
  assumes "faithful w evs (still_to_send ph)" "hs_State h \<in> phase_state ph" "phase_sleep cf ph"
  shows "faithful_at cf (snd (yt_goto ph (yt_report h w))) (evs @ fst (yt_goto ph (yt_report h w)))"
  by (rule goto_at) (simp_all add: assms report_faithful report_state)

lemma goto_stay:
  assumes "faithful w evs (still_to_send ph)" "hs_State (yw_last w) \<in> phase_state ph" "phase_sleep cf ph"
  shows "faithful_at cf (snd (yt_goto ph ([], w))) (evs @ fst (yt_goto ph ([], w)))"
  by (rule goto_at) (simp_all add: assms)

lemma faithful_sent:
  assumes "faithful w evs (e # es)"
  shows "faithful w (evs @ [e]) es"
proof -
  have "e \<in> set (concat (map (resp_events (yw_ch w)) (yw_in w)))"
    using assms unfolding faithful_def by (metis in_set_conv_decomp)
  then have "health_part e = []" using resp_chat by auto
  then have "chat_part [e] = [e]" "health_parts [e] = []" by (simp_all add: chat_part_def health_parts_def)
  then show ?thesis using assms by (simp add: faithful_def)
qed

lemma faithful_heard: "faithful w evs [] \<Longrightarrow> faithful (w\<lparr>yw_in := yw_in w @ [resp]\<rparr>) evs (resp_events (yw_ch w) resp)"
  by (simp add: faithful_def)

lemma clampPoll_bounds: "yc_pollFloor cf \<le> yc_pollCeil cf \<Longrightarrow> yc_pollFloor cf \<le> clampPoll cf d \<and> clampPoll cf d \<le> yc_pollCeil cf"
  by (simp add: clampPoll_def)

lemma delay_fits: "0 < bo_max b \<Longrightarrow> 0 < delay b n rnd \<and> delay b n rnd \<le> bo_max b"
  using backoff_bounds by blast

text \<open>One step, of a worker that is not cancelled.\<close>

lemma faithful_step:
  assumes "faithful_at cf w evs" "yt_run cf inp (yw_phase w) w = Some (es, w')" "\<not> yw_cancelled w" "sane cf" "fits w inp"
  shows "faithful_at cf w' (evs @ es)"
proof -
  note sleeps = delay_fits [of "yc_pollBackoff cf"] delay_fits [of "yc_resolveBackoff cf"]
  have f: "faithful w evs (still_to_send (yw_phase w))" "hs_State (yw_last w) \<in> phase_state (yw_phase w)" using assms(1) by (simp_all add: faithful_at_def)
  have rep: "faithful (snd (yt_report h w)) (evs @ fst (yt_report h w)) rest" if "faithful w evs rest" for h rest by (rule report_faithful [OF that])
  have pos: "0 < bo_max (yc_pollBackoff cf)" "0 < bo_max (yc_resolveBackoff cf)" "yc_pollFloor cf \<le> yc_pollCeil cf" using assms(4) by (simp_all add: sane_def)
  show ?thesis
  proof (cases "yw_phase w")
    case (Top v)
    then obtain rnd where "inp = Go rnd" using assms(2) by (cases inp) auto
    then have "(es, w') = run_top cf rnd v w" using assms(2) Top by simp
    moreover have "faithful_at cf (snd (run_top cf rnd v w)) (evs @ fst (run_top cf rnd v w))"
      unfolding run_top_def if_not_P [OF assms(3)]
      by (cases "v = []"; simp; rule goto_at) (use f Top rep report_state sleeps pos in \<open>auto simp: not_live_def\<close>)
    ultimately show ?thesis by (metis fst_conv snd_conv)
  next
    case (Asleep n d)
    then obtain fired where "inp = Timer fired" using assms(2) by (cases inp) auto
    then have "(es, w') = yt_goto (Looking n) ([], w)" using assms(2,3,5) Asleep by simp
    moreover have "faithful_at cf (snd (yt_goto (Looking n) ([], w))) (evs @ fst (yt_goto (Looking n) ([], w)))"
      by (rule goto_at) (use f Asleep in auto)
    ultimately show ?thesis by (metis fst_conv snd_conv)
  next
    case (Looking n)
    then obtain rnd r where r: "inp = Found rnd r" using assms(2) by (cases inp) auto
    then have "(es, w') = wait_found cf rnd n r w" using assms(2) Looking by simp
    moreover have "faithful_at cf (snd (wait_found cf rnd n r w)) (evs @ fst (wait_found cf rnd n r w))"
    proof (cases r)
      case (Live v)
      then have "v \<noteq> []" using assms(5) r by simp
      then show ?thesis unfolding wait_found_def Live live_result.case by (simp, intro goto_at) (use f Looking in auto)
    next
      case NotLive
      have eq: "wait_found cf rnd n NotLive w = yt_goto (Asleep (n + 1) (delay (yc_resolveBackoff cf) (n + 1) rnd)) (yt_report not_live w)"
        using assms(3) by (simp add: wait_found_def)
      show ?thesis unfolding NotLive eq by (rule goto_report) (use f Looking sleeps pos in \<open>simp_all add: not_live_def\<close>)
    next
      case NoChannel
      have eq: "wait_found cf rnd n NoChannel w = yt_goto (Asleep (n + 1) (delay (yc_resolveBackoff cf) (n + 1) rnd)) (yt_report (health HealthDown ReasonChannelNotFound) w)"
        using assms(3) by (simp add: wait_found_def)
      show ?thesis unfolding NoChannel eq by (rule goto_report) (use f Looking sleeps pos in simp_all)
    next
      case (LiveFailed e)
      have eq: "wait_found cf rnd n (LiveFailed e) w = yt_goto (Asleep (n + 1) (delay (yc_resolveBackoff cf) (n + 1) rnd))
          (yt_report \<lparr>hs_State = HealthDegraded, hs_Reason = ReasonUpstreamDown, hs_Detail = e\<rparr> w)"
        using assms(3) by (simp add: wait_found_def)
      show ?thesis unfolding LiveFailed eq by (rule goto_report) (use f Looking sleeps pos in simp_all)
    qed
    ultimately show ?thesis by (metis fst_conv snd_conv)
  next
    case (Fetching v)
    then obtain r where "inp = Started r" using assms(2) by (cases inp) auto
    then have "(es, w') = run_fetched r w" using assms(2) Fetching by simp
    moreover have "faithful_at cf (snd (run_fetched r w)) (evs @ fst (run_fetched r w))"
      by (cases r; simp add: run_fetched_def assms(3); rule goto_at) (use f Fetching rep report_state in auto)
    ultimately show ?thesis by (metis fst_conv snd_conv)
  next
    case (Emitting ev nxt d)
    then obtain rnd where "inp = Go rnd" using assms(2) by (cases inp) auto
    then have "(es, w') = poll_emit cf ev nxt d w" using assms(2) Emitting by simp
    moreover have "faithful_at cf (snd (poll_emit cf ev nxt d w)) (evs @ fst (poll_emit cf ev nxt d w))"
    proof (cases ev)
      case Nil
      show ?thesis unfolding Nil poll_emit_def list.case
        by (rule goto_stay) (use f Emitting Nil clampPoll_bounds [OF pos(3), of d] in \<open>simp_all split: if_split\<close>)
    next
      case (Cons e rest)
      have "faithful w (evs @ [e]) rest" using f(1) Emitting Cons by (simp add: faithful_sent)
      then show ?thesis unfolding Cons poll_emit_def list.case
        by (intro goto_at) (use f Emitting in simp_all)
    qed
    ultimately show ?thesis by (metis fst_conv snd_conv)
  next
    case (Pausing c d)
    then obtain fired where "inp = Timer fired" using assms(2) by (cases inp) auto
    then have "(es, w') = yt_goto (Polling c 0) ([], w)" using assms(2,3,5) Pausing by simp
    moreover have "faithful_at cf (snd (yt_goto (Polling c 0) ([], w))) (evs @ fst (yt_goto (Polling c 0) ([], w)))"
      by (rule goto_at) (use f Pausing in auto)
    ultimately show ?thesis by (metis fst_conv snd_conv)
  next
    case (BackingOff c n d)
    then obtain fired where "inp = Timer fired" using assms(2) by (cases inp) auto
    then have "(es, w') = yt_goto (Polling c n) ([], w)" using assms(2,3,5) BackingOff by simp
    moreover have "faithful_at cf (snd (yt_goto (Polling c n) ([], w))) (evs @ fst (yt_goto (Polling c n) ([], w)))"
      by (rule goto_at) (use f BackingOff assms(1) in \<open>auto simp: faithful_at_def split: if_splits\<close>)
    ultimately show ?thesis by (metis fst_conv snd_conv)
  next
    case (Polling c n)
    have n: "0 \<le> n" using assms(1) Polling by (simp add: faithful_at_def)
    obtain rnd r where r: "inp = Answered rnd r" using assms(2) Polling by (cases inp) auto
    then have "(es, w') = poll_answered cf rnd c n r w" using assms(2) Polling by simp
    moreover have "faithful_at cf (snd (poll_answered cf rnd c n r w)) (evs @ fst (poll_answered cf rnd c n r w))"
    proof (cases r)
      case (Inl e)
      show ?thesis
      proof (cases "n + 1 \<ge> maxPollFailures")
        case True
        then have eq: "poll_answered cf rnd c n r w = yt_goto (Top []) ([], w)" using Inl by (simp add: poll_answered_def)
        show ?thesis unfolding eq by (rule goto_stay) (use f Polling in simp_all)
      next
        case False
        then have eq: "poll_answered cf rnd c n r w = yt_goto (BackingOff c (n + 1) (delay (yc_pollBackoff cf) (n + 1) rnd))
            (yt_report \<lparr>hs_State = HealthDegraded, hs_Reason = ReasonReconnecting, hs_Detail = e\<rparr> w)"
          using Inl assms(3) by (simp add: poll_answered_def)
        show ?thesis unfolding eq by (rule goto_report) (use f Polling sleeps pos n in simp_all)
      qed
    next
      case (Inr resp)
      define p where "p = (if n > 0 then yt_report (health HealthOK ReasonNone) w else ([], w))"
      let ?w = "(snd p)\<lparr>yw_in := yw_in w @ [resp]\<rparr>"
      have fr: "yw_ch (snd p) = yw_ch w" "yw_in (snd p) = yw_in w" by (simp_all add: p_def)
      have ok: "hs_State (yw_last (snd p)) = HealthOK" using f(2) Polling n by (auto simp: p_def report_state)
      have "faithful (snd p) (evs @ fst p) []" using f(1) Polling rep by (simp add: p_def)
      then have fw: "faithful ?w (evs @ fst p) (resp_events (yw_ch w) resp)" using faithful_heard [of "snd p"] fr by simp
      show ?thesis
      proof (cases resp)
        case None
        have eq: "poll_answered cf rnd c n r w = yt_goto (Top []) (fst p, ?w)"
          unfolding Inr None poll_answered_def sum.case Let_def p_def by (simp add: split_beta)
        show ?thesis unfolding eq by (rule goto_at) (use fw ok None in \<open>simp_all add: resp_events_def\<close>)
      next
        case (Some lc)
        obtain nxt t where nc: "nextContinuation (lc_Continuations lc) = (nxt, t)" by fastforce
        have eq: "poll_answered cf rnd c n r w = yt_goto (Emitting (resp_events (yw_ch w) resp) nxt t) (fst p, ?w)"
          unfolding Inr Some poll_answered_def sum.case Let_def p_def by (simp add: split_beta nc resp_events_def)
        show ?thesis unfolding eq by (rule goto_at) (use fw ok in simp_all)
      qed
    qed
    ultimately show ?thesis by (metis fst_conv snd_conv)
  qed (use assms(2) run_ended in simp)
qed

definition sent_by :: "nat \<Rightarrow> youtube_adapter \<Rightarrow> Event list" where
  "sent_by i a = map snd (filter (\<lambda>p. fst p = i) (yt_events a))"

definition yt_faithful :: "yt_config \<Rightarrow> youtube_adapter \<Rightarrow> bool" where
  "yt_faithful cf a \<longleftrightarrow> (\<forall>p \<in> set (yt_events a). fst p < length (yt_all a))
     \<and> (\<forall>i < length (yt_all a). \<not> yw_cancelled (yt_all a ! i) \<longrightarrow> faithful_at cf (yt_all a ! i) (sent_by i a))"

lemma sent_work: "sent_by j (worker_step i es w a) = sent_by j a @ (if j = i then es else [])"
  by (simp add: sent_by_def worker_step_def filter_map comp_def)

lemma new_faithful: "faithful_at cf (new_worker ch v) []"
  by (simp add: faithful_at_def faithful_def new_worker_def)

lemma yt_faithful_same:
  assumes "yt_faithful cf a" "yt_events b = yt_events a" "length (yt_all b) = length (yt_all a)"
    and "\<And>i. i < length (yt_all a) \<Longrightarrow> \<not> yw_cancelled (yt_all b ! i) \<Longrightarrow> yt_all b ! i = yt_all a ! i"
  shows "yt_faithful cf b"
  using assms unfolding yt_faithful_def sent_by_def by (metis (no_types, lifting))

lemma yt_faithful_joined: "yt_faithful cf a \<Longrightarrow> yt_faithful cf (snd (youtube_joined ch r a))"
proof (cases "r = NoChannel \<or> yt_closed a \<or> map_of (yt_workers a) (ChannelRef_Key ch) \<noteq> None")
  case False
  assume f: "yt_faithful cf a"
  let ?w = "new_worker ch (case r of Live v \<Rightarrow> v | _ \<Rightarrow> [])" and ?b = "snd (youtube_joined ch r a)"
  have b: "yt_all ?b = yt_all a @ [?w]" "yt_events ?b = yt_events a" using False by (simp_all add: youtube_joined_def)
  have none: "sent_by (length (yt_all a)) a = []" using f by (auto simp: yt_faithful_def sent_by_def filter_empty_conv)
  show ?thesis unfolding yt_faithful_def b
  proof (intro conjI ballI allI impI)
    fix p assume "p \<in> set (yt_events a)"
    then show "fst p < length (yt_all a @ [?w])" using f by (auto simp: yt_faithful_def less_Suc_eq)
  next
    fix i assume i: "i < length (yt_all a @ [?w])" "\<not> yw_cancelled ((yt_all a @ [?w]) ! i)"
    have same: "sent_by i ?b = sent_by i a" by (simp add: sent_by_def b)
    show "faithful_at cf ((yt_all a @ [?w]) ! i) (sent_by i ?b)"
    proof (cases "i = length (yt_all a)")
      case True
      then show ?thesis using none same new_faithful by simp
    next
      case False
      then show ?thesis using f i same by (simp add: yt_faithful_def nth_append)
    qed
  qed
qed (auto simp: youtube_joined_def)

lemma yt_faithful_step: "yt_step cf a b \<Longrightarrow> sane cf \<Longrightarrow> yt_faithful cf a \<Longrightarrow> yt_faithful cf b"
proof (induction rule: yt_step.induct)
  case (join a ch)
  show ?case by (rule yt_faithful_same [OF join.prems(2)]) (simp_all add: youtube_join_def)
next
  case (joined i a slug ans)
  then have "yt_faithful cf (a\<lparr>yt_joins := take i (yt_joins a) @ drop (Suc i) (yt_joins a)\<rparr>)" by (simp add: yt_faithful_def sent_by_def)
  then show ?case by (rule yt_faithful_joined)
next
  case (leave a ch)
  show ?case by (rule yt_faithful_same [OF leave.prems(2)]) (simp_all add: youtube_leave_def split: option.split)
next
  case (left i a)
  show ?case
  proof (rule yt_faithful_same [OF left.prems(2)])
    fix j assume j: "j < length (yt_all a)" "\<not> yw_cancelled (yt_all (youtube_left i a) ! j)"
    then have "j \<noteq> i" by (auto simp: youtube_left_def cancel_def)
    then show "yt_all (youtube_left i a) ! j = yt_all a ! j" by (simp add: youtube_left_def)
  qed (simp_all add: youtube_left_def)
next
  case (close a)
  show ?case by (rule yt_faithful_same [OF close.prems(2)]) (simp_all add: youtube_close_def)
next
  case (cancel a)
  show ?case by (rule yt_faithful_same [OF cancel.prems(2)]) (simp_all add: youtube_cancel_def cancel_def)
next
  case (finish a)
  show ?case by (rule yt_faithful_same [OF finish.prems(2)]) (simp_all add: youtube_finish_def)
next
  case (work i a inp evs w es)
  have c: "yw_cancelled w = yw_cancelled (yt_all a ! i)" using run_fields [OF work.hyps(3)] by simp
  have mine: "faithful_at cf w (sent_by i a @ es)" if "\<not> yw_cancelled w"
  proof -
    have "faithful_at cf (yt_all a ! i) (sent_by i a)" using work.prems(2) work.hyps(1) that c by (simp add: yt_faithful_def)
    then show ?thesis using faithful_step [OF _ work.hyps(3) _ work.prems(1) work.hyps(2)] that c work.hyps(4) by simp
  qed
  have all: "yt_all (worker_step i es w a) = (yt_all a)[i := w]" "yt_events (worker_step i es w a) = yt_events a @ map (Pair i) es"
    by (simp_all add: worker_step_def)
  show ?case unfolding yt_faithful_def sent_work all length_list_update
  proof (intro conjI ballI allI impI)
    fix p assume "p \<in> set (yt_events a @ map (Pair i) es)"
    then show "fst p < length (yt_all a)" using work.prems(2) work.hyps(1) by (auto simp: yt_faithful_def)
  next
    fix j assume j: "j < length (yt_all a)" "\<not> yw_cancelled ((yt_all a)[i := w] ! j)"
    show "faithful_at cf ((yt_all a)[i := w] ! j) (sent_by j a @ (if j = i then es else []))"
    proof (cases "j = i")
      case True
      then show ?thesis using mine j by simp
    next
      case False
      then show ?thesis using work.prems(2) j by (simp add: yt_faithful_def)
    qed
  qed
qed


subsection \<open>A run\<close>

text \<open>
  A channel that is offline when it is joined, found live after one sleep, and its first response of a message and a
  deletion, half sent.
\<close>

abbreviation some_config :: yt_config where
  "some_config \<equiv> youtube_New 0 0 0 0 0 0"

definition some_channel :: ChannelRef where
  "some_channel = \<lparr>ch_Platform = YouTube, ch_ID = [], ch_Slug = ''lofi'', ch_DisplayName = []\<rparr>"

definition some_item :: itemRenderer where
  "some_item = \<lparr>ir_ID = ''m1'', ir_TimestampUsec = ''5'', ir_AuthorName = ''Bob'', ir_AuthorExternalChannelID = ''u'', ir_AuthorBadges = [],
     ir_Message = Some [\<lparr>rn_Text = ''hi'', rn_Emoji = None\<rparr>], ir_HeaderSubtext = None, ir_PurchaseAmountText = []\<rparr>"

definition some_response :: liveChat where
  "some_response = \<lparr>lc_Continuations = [\<lparr>cw_Timed = Some \<lparr>cd_Continuation = ''c1'', cd_TimeoutMs = 5000\<rparr>, cw_Invalidation = None, cw_Reload = None\<rparr>],
     lc_Actions = [\<lparr>ca_AddChatItem = Some \<lparr>ci_Text = Some some_item, ci_Paid = None, ci_Membership = None\<rparr>, ca_MarkDeleted = None, ca_MarkAuthorDeleted = None\<rparr>,
       \<lparr>ca_AddChatItem = None, ca_MarkDeleted = Some ''m0'', ca_MarkAuthorDeleted = None\<rparr>]\<rparr>"

definition drive :: "yt_input \<Rightarrow> youtube_adapter \<Rightarrow> youtube_adapter" where
  "drive inp a = (case yt_run some_config inp (yw_phase (yt_all a ! 0)) (yt_all a ! 0) of Some (es, w) \<Rightarrow> worker_step 0 es w a | None \<Rightarrow> a)"

definition yt_joined_run :: youtube_adapter where
  "yt_joined_run = snd (youtube_joined some_channel (LiveFailed ''offline'') ((snd (youtube_join some_channel youtube_start))\<lparr>yt_joins := []\<rparr>))"

definition yt_sample :: youtube_adapter where
  "yt_sample = drive (Go 0) (drive (Answered 0 (Inr (Some some_response))) (drive (Started (Inr ''c0'')) (drive (Found 0 (Live ''v'')) (drive (Timer True) (drive (Go 0) yt_joined_run)))))"

lemma drive_step:
  assumes "(yt_step some_config)\<^sup>*\<^sup>* youtube_start a" "0 < length (yt_all a)" "fits (yt_all a ! 0) inp"
  shows "(yt_step some_config)\<^sup>*\<^sup>* youtube_start (drive inp a)"
proof (cases "yt_run some_config inp (yw_phase (yt_all a ! 0)) (yt_all a ! 0)")
  case (Some r)
  obtain es w where r: "r = (es, w)" by fastforce
  have "yt_step some_config a (worker_step 0 es w a)" 
    by (rule yt_step.work [where evs = es, OF assms(2,3)]) (use Some r in auto)
  then show ?thesis using assms(1) Some r by (simp add: drive_def)
qed (use assms(1) in \<open>simp add: drive_def\<close>)

lemma drive_workers: "length (yt_all (drive inp a)) = length (yt_all a)"
  by (simp add: drive_def worker_step_def split: option.split prod.split)

lemma yt_joined_reach: "(yt_step some_config)\<^sup>*\<^sup>* youtube_start yt_joined_run"
proof -
  let ?a = "snd (youtube_join some_channel youtube_start)"
  have "yt_step some_config ?a (snd (youtube_joined (yt_joins ?a ! 0) (resolveLive ''lofi'' (Inl ''offline''))
     (?a\<lparr>yt_joins := take 0 (yt_joins ?a) @ drop (Suc 0) (yt_joins ?a)\<rparr>)))"
    by (rule yt_step.joined) code_simp
  moreover have "snd (youtube_joined (yt_joins ?a ! 0) (resolveLive ''lofi'' (Inl ''offline''))
     (?a\<lparr>yt_joins := take 0 (yt_joins ?a) @ drop (Suc 0) (yt_joins ?a)\<rparr>)) = yt_joined_run"
    by (simp add: yt_joined_run_def resolveLive_def youtube_join_def youtube_start_def)
  moreover have "yt_step some_config youtube_start ?a" by (rule yt_step.join)
  ultimately show ?thesis by (metis converse_rtranclp_into_rtranclp rtranclp.rtrancl_refl)
qed

lemma yt_sample_reach: "(yt_step some_config)\<^sup>*\<^sup>* youtube_start yt_sample"
proof -
  have "length (yt_all yt_joined_run) = 1" by code_simp
  then show ?thesis unfolding yt_sample_def
    by (intro drive_step yt_joined_reach) (simp_all add: drive_workers)
qed

lemma yt_sample_state:
  "length (yt_all yt_sample) = 1" "\<not> yw_cancelled (yt_all yt_sample ! 0)" "\<not> yt_closed yt_sample" "\<not> yt_done yt_sample"
  "length (sent_by 0 yt_sample) = 3" "length (still_to_send (yw_phase (yt_all yt_sample ! 0))) = 1"
  "map_of (yt_workers yt_sample) (ChannelRef_Key some_channel) = Some 0"
  by code_simp+

theorem youtube_workers_witness:
  "length (filter (\<lambda>i. ChannelRef_Key (yw_ch (yt_all yt_sample ! i)) = ChannelRef_Key some_channel \<and> \<not> yw_cancelled (yt_all yt_sample ! i)
      \<and> i \<notin> set (yt_left yt_sample)) [0..<length (yt_all yt_sample)]) = 1"
  using youtube_workers [OF yt_sample_reach, of "ChannelRef_Key some_channel"] yt_sample_state(3,7) by (simp del: upt_Suc)


end
