(* ===== verification/Token_Refresh.thy ===== *)
theory Token_Refresh
  imports Go_Values
begin

text \<open>
  The token stores of \<^verbatim>\<open>internal/auth\<close>: the credential sets kept in the vault, and \<^verbatim>\<open>AccessToken\<close>, which
  the adapters call from any goroutine before a request. A refresh token is single-use, so refreshes of
  one account are serialised by a lock per vault key and the stored set is read again under it. The
  model has one step per atomic action, any number of callers and any interleaving; the log, which the
  program does not have, records what is sent to the provider and what comes of it. The JSON codec, the
  vault's errors and the provider's answers are arguments. The Kick manager and the Twitch manager have
  the same code but for the label of their errors, kept here beside the codec.
\<close>

subsection \<open>Stored tokens\<close>

record token =
  tk_Access :: string
  tk_Refresh :: string
  tk_ExpiresAt :: time
  tk_Scopes :: "string list"

definition refreshSkew :: duration where
  "refreshSkew = 60 * second"

record codec =
  cd_label :: string
  cd_marshal :: "token \<Rightarrow> string + string"
  cd_unmarshal :: "string \<Rightarrow> string + token"

type_synonym vault = "string \<Rightarrow> string option"

definition writeToken :: "codec \<Rightarrow> string option \<Rightarrow> string \<Rightarrow> token \<Rightarrow> vault \<Rightarrow> string option \<times> vault" where
  "writeToken cd fault ref tok v = (case cd_marshal cd tok of
     Inl e \<Rightarrow> (Some e, v)
   | Inr raw \<Rightarrow> (case fault of Some e \<Rightarrow> (Some e, v) | None \<Rightarrow> (None, v(ref \<mapsto> raw))))"

definition readToken :: "codec \<Rightarrow> string option \<Rightarrow> string \<Rightarrow> vault \<Rightarrow> string + token" where
  "readToken cd fault ref v = (case fault of
     Some e \<Rightarrow> Inl e
   | None \<Rightarrow> (case v ref of
       None \<Rightarrow> Inl ''secrets: not found''
     | Some raw \<Rightarrow> (case cd_unmarshal cd raw of
         Inl e \<Rightarrow> Inl (cd_label cd @ '': decode stored token: '' @ e)
       | Inr tok \<Rightarrow> Inr tok)))"

definition still_valid :: "time \<Rightarrow> token \<Rightarrow> bool" where
  "still_valid now tok = (now < tk_ExpiresAt tok - refreshSkew)"

subsection \<open>Callers of \<^verbatim>\<open>AccessToken\<close>\<close>

datatype caller =
    Idle
  | Waiting string
  | Holding string
  | Refreshing string token
  | Rotating string token token
  | Returned "string + string"

datatype refresh_log =
    Sent string string
  | Rotated string string
  | Failed string string
  | Granted string string

record token_mgr =
  tm_vault :: vault
  tm_locks :: "string \<Rightarrow> nat option"
  tm_callers :: "nat \<Rightarrow> caller"
  tm_log :: "refresh_log list"

definition NewTokenMgr :: token_mgr where
  "NewTokenMgr = \<lparr>tm_vault = Map.empty, tm_locks = Map.empty, tm_callers = (\<lambda>i. Idle), tm_log = []\<rparr>"

definition caller_at :: "nat \<Rightarrow> caller \<Rightarrow> token_mgr \<Rightarrow> token_mgr" where
  "caller_at i c m = m\<lparr>tm_callers := (tm_callers m)(i := c)\<rparr>"

definition log_entry :: "refresh_log \<Rightarrow> token_mgr \<Rightarrow> token_mgr" where
  "log_entry e m = m\<lparr>tm_log := tm_log m @ [e]\<rparr>"

text \<open>The deferred unlock and the return, in this order.\<close>

definition unlock_return :: "nat \<Rightarrow> string \<Rightarrow> string + string \<Rightarrow> token_mgr \<Rightarrow> token_mgr" where
  "unlock_return i ref res m = caller_at i (Returned res) (m\<lparr>tm_locks := (tm_locks m)(ref := None)\<rparr>)"

text \<open>The first check, without the lock.\<close>

definition token_call :: "codec \<Rightarrow> nat \<Rightarrow> string \<Rightarrow> time \<Rightarrow> string option \<Rightarrow> token_mgr \<Rightarrow> token_mgr" where
  "token_call cd i ref now fault m = (case readToken cd fault ref (tm_vault m) of
     Inl e \<Rightarrow> caller_at i (Returned (Inl e)) m
   | Inr tok \<Rightarrow> if still_valid now tok then caller_at i (Returned (Inr (tk_Access tok))) m
       else caller_at i (Waiting ref) m)"

text \<open>The lock of the account, which is made at its first use; a held lock is waited for.\<close>

definition lockRef :: "nat \<Rightarrow> string \<Rightarrow> token_mgr \<Rightarrow> token_mgr" where
  "lockRef i ref m = (if tm_locks m ref = None
     then caller_at i (Holding ref) (m\<lparr>tm_locks := (tm_locks m)(ref \<mapsto> i)\<rparr>) else m)"

text \<open>The second check, under the lock, and the refresh request.\<close>

definition token_recheck :: "codec \<Rightarrow> nat \<Rightarrow> string \<Rightarrow> time \<Rightarrow> string option \<Rightarrow> token_mgr \<Rightarrow> token_mgr" where
  "token_recheck cd i ref now fault m = (case readToken cd fault ref (tm_vault m) of
     Inl e \<Rightarrow> unlock_return i ref (Inl e) m
   | Inr tok \<Rightarrow> if still_valid now tok then unlock_return i ref (Inr (tk_Access tok)) m
       else log_entry (Sent ref (tk_Refresh tok)) (caller_at i (Refreshing ref tok) m))"

text \<open>The provider's answer; omitted scopes are taken from the stored set.\<close>

definition keep_scopes :: "token \<Rightarrow> token \<Rightarrow> token" where
  "keep_scopes old new = (if tk_Scopes new = [] then new\<lparr>tk_Scopes := tk_Scopes old\<rparr> else new)"

definition refresh_answered :: "codec \<Rightarrow> nat \<Rightarrow> string \<Rightarrow> token \<Rightarrow> string + token \<Rightarrow> token_mgr \<Rightarrow> token_mgr" where
  "refresh_answered cd i ref tok ans m = (case ans of
     Inl e \<Rightarrow> log_entry (Failed ref (tk_Refresh tok)) (unlock_return i ref (Inl (cd_label cd @ '': refresh: '' @ e)) m)
   | Inr fresh \<Rightarrow> log_entry (Granted ref (tk_Refresh fresh)) (caller_at i (Rotating ref tok (keep_scopes tok fresh)) m))"

definition token_store :: "codec \<Rightarrow> nat \<Rightarrow> string \<Rightarrow> token \<Rightarrow> token \<Rightarrow> string option \<Rightarrow> token_mgr \<Rightarrow> token_mgr" where
  "token_store cd i ref tok fresh fault m = (case writeToken cd fault ref fresh (tm_vault m) of
     (Some e, v) \<Rightarrow> log_entry (Failed ref (tk_Refresh tok)) (unlock_return i ref (Inl e) m)
   | (None, v) \<Rightarrow> log_entry (Rotated ref (tk_Refresh tok)) (unlock_return i ref (Inr (tk_Access fresh)) (m\<lparr>tm_vault := v\<rparr>)))"

text \<open>A finished authorization stores its set without the account's lock.\<close>

definition authorize_store :: "codec \<Rightarrow> string \<Rightarrow> token \<Rightarrow> string option \<Rightarrow> token_mgr \<Rightarrow> token_mgr" where
  "authorize_store cd ref tok fault m =
     log_entry (Granted ref (tk_Refresh tok)) (m\<lparr>tm_vault := snd (writeToken cd fault ref tok (tm_vault m))\<rparr>)"

text \<open>The steps. A caller that is idle or has returned may call; a step that the state of its caller
  does not allow changes nothing.\<close>

datatype token_event =
    CallToken nat string time "string option"
  | GrabLock nat
  | Recheck nat time "string option"
  | Answer nat "string + token"
  | StoreFresh nat "string option"
  | Authorize string token "string option"

fun token_do :: "codec \<Rightarrow> token_event \<Rightarrow> token_mgr \<Rightarrow> token_mgr" where
  "token_do cd (CallToken i ref now fault) m = (case tm_callers m i of
     Idle \<Rightarrow> token_call cd i ref now fault m | Returned r \<Rightarrow> token_call cd i ref now fault m | _ \<Rightarrow> m)"
| "token_do cd (GrabLock i) m = (case tm_callers m i of Waiting ref \<Rightarrow> lockRef i ref m | _ \<Rightarrow> m)"
| "token_do cd (Recheck i now fault) m = (case tm_callers m i of
     Holding ref \<Rightarrow> token_recheck cd i ref now fault m | _ \<Rightarrow> m)"
| "token_do cd (Answer i ans) m = (case tm_callers m i of
     Refreshing ref tok \<Rightarrow> refresh_answered cd i ref tok ans m | _ \<Rightarrow> m)"
| "token_do cd (StoreFresh i fault) m = (case tm_callers m i of
     Rotating ref tok fresh \<Rightarrow> token_store cd i ref tok fresh fault m | _ \<Rightarrow> m)"
| "token_do cd (Authorize ref tok fault) m = authorize_store cd ref tok fault m"

abbreviation token_run :: "codec \<Rightarrow> token_event list \<Rightarrow> token_mgr \<Rightarrow> token_mgr" where
  "token_run cd evs \<equiv> fold (token_do cd) evs"

subsection \<open>One refresh at a time\<close>

text \<open>The token an account has sent and not heard of, and the discipline of the log: a request only
  after the end of the one before, and an end only of the token that is out.\<close>

fun outstanding :: "string \<Rightarrow> refresh_log \<Rightarrow> string option \<Rightarrow> string option" where
  "outstanding r (Sent r' t) b = (if r' = r then Some t else b)"
| "outstanding r (Rotated r' t) b = (if r' = r then None else b)"
| "outstanding r (Failed r' t) b = (if r' = r then None else b)"
| "outstanding r (Granted r' t) b = b"

fun in_turn :: "string \<Rightarrow> refresh_log \<Rightarrow> string option \<Rightarrow> bool" where
  "in_turn r (Sent r' t) b = (r' = r \<longrightarrow> b = None)"
| "in_turn r (Rotated r' t) b = (r' = r \<longrightarrow> b = Some t)"
| "in_turn r (Failed r' t) b = (r' = r \<longrightarrow> b = Some t)"
| "in_turn r (Granted r' t) b = True"

fun one_at_a_time :: "string \<Rightarrow> string option \<Rightarrow> refresh_log list \<Rightarrow> bool" where
  "one_at_a_time r b [] = True"
| "one_at_a_time r b (e # l) = (in_turn r e b \<and> one_at_a_time r (outstanding r e b) l)"

lemma one_at_a_time_append:
  "one_at_a_time r b (l @ l') = (one_at_a_time r b l \<and> one_at_a_time r (fold (outstanding r) l b) l')"
  by (induction l arbitrary: b) simp_all

text \<open>The account a caller holds the lock of, and the token it has sent.\<close>

fun section_of :: "caller \<Rightarrow> string option" where
  "section_of (Holding r) = Some r"
| "section_of (Refreshing r tok) = Some r"
| "section_of (Rotating r tok fresh) = Some r"
| "section_of c = None"

fun request_of :: "caller \<Rightarrow> (string \<times> string) option" where
  "request_of (Refreshing r tok) = Some (r, tk_Refresh tok)"
| "request_of (Rotating r tok fresh) = Some (r, tk_Refresh tok)"
| "request_of c = None"

lemma sent_section: "request_of c = Some (r, t) \<Longrightarrow> section_of c = Some r"
  by (cases c) simp_all

definition locks_ok :: "token_mgr \<Rightarrow> bool" where
  "locks_ok m = (\<forall>i r. tm_locks m r = Some i \<longleftrightarrow> section_of (tm_callers m i) = Some r)"

definition requests_ok :: "token_mgr \<Rightarrow> bool" where
  "requests_ok m = (\<forall>r. one_at_a_time r None (tm_log m)
     \<and> (\<forall>t. fold (outstanding r) (tm_log m) None = Some t \<longleftrightarrow> (\<exists>i. request_of (tm_callers m i) = Some (r, t))))"

lemmas mgr_simps = caller_at_def log_entry_def unlock_return_def

lemma locksD: "locks_ok m \<Longrightarrow> section_of (tm_callers m i) = Some r \<Longrightarrow> section_of (tm_callers m j) = Some r \<Longrightarrow> i = j"
  unfolding locks_ok_def by (metis option.inject)

lemma locks_same:
  assumes "locks_ok m" "section_of c = section_of (tm_callers m i)" "tm_locks m' = tm_locks m"
    "tm_callers m' = (tm_callers m)(i := c)"
  shows "locks_ok m'"
  using assms by (auto simp: locks_ok_def)

lemma locks_released:
  assumes "locks_ok m" "section_of (tm_callers m i) = Some r" "section_of c = None"
    "tm_locks m' = (tm_locks m)(r := None)" "tm_callers m' = (tm_callers m)(i := c)"
  shows "locks_ok m'"
  unfolding locks_ok_def
proof (intro allI)
  fix j r'
  show "tm_locks m' r' = Some j \<longleftrightarrow> section_of (tm_callers m' j) = Some r'"
  proof (cases "r' = r")
    case True
    then show ?thesis using assms locksD[OF assms(1,2), of j] by auto
  next
    case False
    then show ?thesis using assms unfolding locks_ok_def by auto
  qed
qed

lemma locks_taken:
  assumes "locks_ok m" "section_of (tm_callers m i) = None" "tm_locks m r = None"
    "tm_locks m' = (tm_locks m)(r \<mapsto> i)" "tm_callers m' = (tm_callers m)(i := c)" "section_of c = Some r"
  shows "locks_ok m'"
  using assms unfolding locks_ok_def by (auto split: if_splits) (metis option.distinct(1))

lemma request_of_upd:
  "request_of c = request_of (f i) \<Longrightarrow> (\<exists>j. request_of ((f(i := c)) j) = x) \<longleftrightarrow> (\<exists>j. request_of (f j) = x)"
  by (metis fun_upd_apply)

lemma log_same:
  assumes "requests_ok m" "request_of c = request_of (tm_callers m i)" "tm_callers m' = (tm_callers m)(i := c)"
    "tm_log m' = tm_log m \<or> tm_log m' = tm_log m @ [Granted r t]"
  shows "requests_ok m'"
  using assms(1) assms(4) request_of_upd[of c "tm_callers m" i, OF assms(2)]
  unfolding requests_ok_def assms(3) by (auto simp: one_at_a_time_append)

lemma none_out:
  assumes "locks_ok m" "requests_ok m" "section_of (tm_callers m i) = Some r" "request_of (tm_callers m i) = None"
  shows "fold (outstanding r) (tm_log m) None = None"
proof (rule ccontr)
  assume "fold (outstanding r) (tm_log m) None \<noteq> None"
  then obtain t j where "request_of (tm_callers m j) = Some (r, t)" using assms(2) unfolding requests_ok_def by blast
  then show False using locksD[OF assms(1,3), of j] sent_section assms(4) by fastforce
qed

lemma log_sent:
  assumes "locks_ok m" "requests_ok m" "section_of (tm_callers m i) = Some r" "request_of (tm_callers m i) = None"
    "request_of c = Some (r, t)" "tm_callers m' = (tm_callers m)(i := c)" "tm_log m' = tm_log m @ [Sent r t]"
  shows "requests_ok m'"
  unfolding requests_ok_def
proof (intro allI conjI)
  fix r'
  show "one_at_a_time r' None (tm_log m')"
    using assms(2) none_out[OF assms(1-4)] unfolding requests_ok_def assms(7) by (auto simp: one_at_a_time_append)
  fix t'
  show "fold (outstanding r') (tm_log m') None = Some t' \<longleftrightarrow> (\<exists>j. request_of (tm_callers m' j) = Some (r', t'))"
  proof (cases "r' = r")
    case True
    have "request_of (tm_callers m j) \<noteq> Some (r, t')" for j
      using none_out[OF assms(1-4)] assms(2) unfolding requests_ok_def by (metis option.distinct(1))
    then show ?thesis using True assms(5) unfolding assms(6,7) by auto
  next
    case False
    then have "(\<exists>j. request_of (tm_callers m' j) = Some (r', t')) \<longleftrightarrow> (\<exists>j. request_of (tm_callers m j) = Some (r', t'))"
      using assms(4,5) unfolding assms(6) by (metis fun_upd_apply option.distinct(1) option.inject prod.inject)
    then show ?thesis using assms(2) False unfolding requests_ok_def assms(7) by simp
  qed
qed

lemma log_ended:
  assumes "locks_ok m" "requests_ok m" "request_of (tm_callers m i) = Some (r, t)" "request_of c = None"
    "tm_callers m' = (tm_callers m)(i := c)" "tm_log m' = tm_log m @ [e]" "e = Rotated r t \<or> e = Failed r t"
  shows "requests_ok m'"
  unfolding requests_ok_def
proof (intro allI conjI)
  fix r'
  have out: "fold (outstanding r) (tm_log m) None = Some t" using assms(2,3) unfolding requests_ok_def by blast
  show "one_at_a_time r' None (tm_log m')"
    using assms(2,7) out unfolding requests_ok_def assms(6) by (auto simp: one_at_a_time_append)
  fix t'
  show "fold (outstanding r') (tm_log m') None = Some t' \<longleftrightarrow> (\<exists>j. request_of (tm_callers m' j) = Some (r', t'))"
  proof (cases "r' = r")
    case True
    have "request_of (tm_callers m' j) \<noteq> Some (r, t')" for j
      using assms(4) locksD[OF assms(1) sent_section[OF assms(3)], of j] sent_section[of "tm_callers m j" r t']
      unfolding assms(5) by (cases "j = i") auto
    then show ?thesis using True assms(7) unfolding assms(6) by auto
  next
    case False
    then have "(\<exists>j. request_of (tm_callers m' j) = Some (r', t')) \<longleftrightarrow> (\<exists>j. request_of (tm_callers m j) = Some (r', t'))"
      using assms(3,4) unfolding assms(5) by (metis fun_upd_apply option.distinct(1) option.inject prod.inject)
    then show ?thesis using assms(2,7) False unfolding requests_ok_def assms(6) by auto
  qed
qed

text \<open>The two invariants together, kept by every step.\<close>

definition turns_ok :: "token_mgr \<Rightarrow> bool" where
  "turns_ok m = (locks_ok m \<and> requests_ok m)"

lemma turns_return:
  "turns_ok m \<Longrightarrow> section_of (tm_callers m i) = None \<Longrightarrow> section_of c = None \<Longrightarrow> turns_ok (caller_at i c m)"
  unfolding turns_ok_def
  by (auto intro!: locks_same[of m c i] log_same[of m c i] simp: caller_at_def)
    (cases c; cases "tm_callers m i"; simp)

lemma turns_unlock:
  "turns_ok m \<Longrightarrow> tm_callers m i = Holding r \<Longrightarrow> turns_ok (unlock_return i r res m)"
  unfolding turns_ok_def
  by (auto intro!: locks_released[of m i r "Returned res"] log_same[of m "Returned res" i] simp: mgr_simps)

lemma turns_call: "turns_ok m \<Longrightarrow> section_of (tm_callers m i) = None \<Longrightarrow> turns_ok (token_call cd i ref now fault m)"
  unfolding token_call_def by (auto split: sum.splits intro!: turns_return)

lemma turns_lock: "turns_ok m \<Longrightarrow> tm_callers m i = Waiting r \<Longrightarrow> turns_ok (lockRef i r m)"
  unfolding turns_ok_def lockRef_def
  by (auto intro!: locks_taken[of m i r _ "Holding r"] log_same[of m "Holding r" i] simp: mgr_simps)

lemma turns_recheck: "turns_ok m \<Longrightarrow> tm_callers m i = Holding r \<Longrightarrow> turns_ok (token_recheck cd i r now fault m)"
  unfolding token_recheck_def
proof (split sum.split, intro conjI allI impI)
  fix tok
  assume m: "turns_ok m" "tm_callers m i = Holding r"
  have "turns_ok (log_entry (Sent r (tk_Refresh tok)) (caller_at i (Refreshing r tok) m))"
    unfolding turns_ok_def
    using m(2) m(1)[unfolded turns_ok_def]
    by (auto intro!: locks_same[of m "Refreshing r tok" i] log_sent[of m i r "Refreshing r tok"] simp: mgr_simps)
  then show "turns_ok (if still_valid now tok then unlock_return i r (Inr (tk_Access tok)) m
      else log_entry (Sent r (tk_Refresh tok)) (caller_at i (Refreshing r tok) m))"
    using turns_unlock[OF m] by simp
qed (rule turns_unlock)

lemma turns_end:
  assumes "turns_ok m" "request_of (tm_callers m i) = Some (r, t)" "e = Rotated r t \<or> e = Failed r t"
  shows "turns_ok (log_entry e (unlock_return i r res (m\<lparr>tm_vault := v\<rparr>)))"
  unfolding turns_ok_def
proof
  show "locks_ok (log_entry e (unlock_return i r res (m\<lparr>tm_vault := v\<rparr>)))"
    by (rule locks_released[of m i r "Returned res"])
      (use assms sent_section in \<open>auto simp: turns_ok_def mgr_simps\<close>)
  show "requests_ok (log_entry e (unlock_return i r res (m\<lparr>tm_vault := v\<rparr>)))"
    by (rule log_ended[of m i r t "Returned res" _ e]) (use assms in \<open>auto simp: turns_ok_def mgr_simps\<close>)
qed

lemmas turns_end_same = turns_end[where v = "tm_vault m" and m = m for m, simplified]

lemma turns_answer: "turns_ok m \<Longrightarrow> tm_callers m i = Refreshing r tok \<Longrightarrow> turns_ok (refresh_answered cd i r tok ans m)"
  unfolding refresh_answered_def
proof (split sum.split, intro conjI allI impI)
  fix fresh
  assume "turns_ok m" "tm_callers m i = Refreshing r tok"
  then show "turns_ok (log_entry (Granted r (tk_Refresh fresh)) (caller_at i (Rotating r tok (keep_scopes tok fresh)) m))"
    unfolding turns_ok_def
    by (auto intro!: locks_same[of m "Rotating r tok (keep_scopes tok fresh)" i]
        log_same[of m "Rotating r tok (keep_scopes tok fresh)" i] simp: mgr_simps)
qed (rule turns_end_same, simp_all)

lemma turns_store: "turns_ok m \<Longrightarrow> tm_callers m i = Rotating r tok fresh \<Longrightarrow> turns_ok (token_store cd i r tok fresh fault m)"
  unfolding token_store_def
  by (auto split: prod.splits option.splits intro: turns_end turns_end_same)

lemma turns_authorize: "turns_ok m \<Longrightarrow> turns_ok (authorize_store cd r tok fault m)"
  unfolding authorize_store_def turns_ok_def
  by (auto intro!: locks_same[of m "tm_callers m 0" 0] log_same[of m "tm_callers m 0" 0] simp: mgr_simps)

lemma turns_do: "turns_ok m \<Longrightarrow> turns_ok (token_do cd ev m)"
  by (cases ev; auto split: caller.splits intro: turns_call turns_lock turns_recheck turns_answer turns_store turns_authorize)

lemma turns_new: "turns_ok NewTokenMgr"
  by (simp add: turns_ok_def locks_ok_def requests_ok_def NewTokenMgr_def)

lemma turns_run: "turns_ok m \<Longrightarrow> turns_ok (token_run cd evs m)"
  by (induction evs arbitrary: m) (simp_all add: turns_do)

subsection \<open>Single-use tokens are spent once\<close>

text \<open>The refresh tokens the provider has issued, in order; those whose replacement is stored.\<close>

fun granted :: "refresh_log list \<Rightarrow> string list" where
  "granted [] = []"
| "granted (Granted r t # l) = t # granted l"
| "granted (e # l) = granted l"

fun not_resent :: "refresh_log \<Rightarrow> refresh_log \<Rightarrow> bool" where
  "not_resent (Rotated r t) (Sent r' t') = (t \<noteq> t')"
| "not_resent a b = True"

definition usable :: "string \<Rightarrow> string \<Rightarrow> refresh_log list \<Rightarrow> bool" where
  "usable r t l = (Granted r t \<in> set l \<and> (\<forall>r'. Rotated r' t \<notin> set l))"

text \<open>The codec reads back what it writes, as the JSON of these strings and times does.\<close>

definition reads_back :: "codec \<Rightarrow> bool" where
  "reads_back cd = (\<forall>tok raw. cd_marshal cd tok = Inr raw \<longrightarrow> cd_unmarshal cd raw = Inr tok)"

lemma granted_append [simp]: "granted (l @ l') = granted l @ granted l'"
  by (induction l rule: granted.induct) simp_all

lemma granted_set: "t \<in> set (granted l) \<longleftrightarrow> (\<exists>r. Granted r t \<in> set l)"
  by (induction l rule: granted.induct) auto

lemma granted_unique: "distinct (granted l) \<Longrightarrow> Granted r t \<in> set l \<Longrightarrow> Granted r' t \<in> set l \<Longrightarrow> r = r'"
  by (induction l rule: granted.induct) (auto simp: granted_set)

fun caller_tokens_ok :: "refresh_log list \<Rightarrow> caller \<Rightarrow> bool" where
  "caller_tokens_ok l (Refreshing r tok) = (Granted r (tk_Refresh tok) \<in> set l)"
| "caller_tokens_ok l (Rotating r tok fresh) =
     (Granted r (tk_Refresh tok) \<in> set l \<and> usable r (tk_Refresh fresh) l \<and> tk_Refresh tok \<noteq> tk_Refresh fresh)"
| "caller_tokens_ok l c = True"

definition tokens_ok :: "codec \<Rightarrow> token_mgr \<Rightarrow> bool" where
  "tokens_ok cd m = ((\<forall>r raw tok. tm_vault m r = Some raw \<longrightarrow> cd_unmarshal cd raw = Inr tok \<longrightarrow> usable r (tk_Refresh tok) (tm_log m))
     \<and> (\<forall>i. caller_tokens_ok (tm_log m) (tm_callers m i))
     \<and> (\<forall>r t. Rotated r t \<in> set (tm_log m) \<longrightarrow> Granted r t \<in> set (tm_log m))
     \<and> sorted_wrt not_resent (tm_log m))"

lemma tokens_okI:
  assumes "\<And>r raw tok. tm_vault m r = Some raw \<Longrightarrow> cd_unmarshal cd raw = Inr tok \<Longrightarrow> usable r (tk_Refresh tok) (tm_log m)"
    "\<And>i. caller_tokens_ok (tm_log m) (tm_callers m i)"
    "\<And>r t. Rotated r t \<in> set (tm_log m) \<Longrightarrow> Granted r t \<in> set (tm_log m)"
    "sorted_wrt not_resent (tm_log m)"
  shows "tokens_ok cd m"
  using assms unfolding tokens_ok_def by blast

lemma vault_usable:
  "tokens_ok cd m \<Longrightarrow> tm_vault m r = Some raw \<Longrightarrow> cd_unmarshal cd raw = Inr tok \<Longrightarrow> usable r (tk_Refresh tok) (tm_log m)"
  unfolding tokens_ok_def by blast

lemma callers_ok: "tokens_ok cd m \<Longrightarrow> caller_tokens_ok (tm_log m) (tm_callers m i)"
  unfolding tokens_ok_def by blast

lemma rotated_granted: "tokens_ok cd m \<Longrightarrow> Rotated r t \<in> set (tm_log m) \<Longrightarrow> Granted r t \<in> set (tm_log m)"
  unfolding tokens_ok_def by blast

lemma resent_never: "tokens_ok cd m \<Longrightarrow> sorted_wrt not_resent (tm_log m)"
  unfolding tokens_ok_def by blast

lemma read_usable: "tokens_ok cd m \<Longrightarrow> readToken cd fault r (tm_vault m) = Inr tok \<Longrightarrow> usable r (tk_Refresh tok) (tm_log m)"
  unfolding readToken_def by (auto split: option.splits sum.splits intro: vault_usable)

text \<open>What a new entry of the log leaves of these facts.\<close>

lemma usable_kept: "usable r t l \<Longrightarrow> \<forall>r'. e \<noteq> Rotated r' t \<Longrightarrow> usable r t (l @ [e])"
  by (auto simp: usable_def)

lemma callers_kept:
  "caller_tokens_ok l c \<Longrightarrow> (\<And>r t r'. e = Rotated r t \<Longrightarrow> \<not> (\<exists>tok fresh. c = Rotating r' tok fresh \<and> tk_Refresh fresh = t))
   \<Longrightarrow> caller_tokens_ok (l @ [e]) c"
  by (cases c) (auto intro!: usable_kept)

lemma tokens_frame:
  assumes "tokens_ok cd m" "tm_vault m' = tm_vault m" "tm_callers m' = (tm_callers m)(i := c)"
    "tm_log m' = tm_log m" "caller_tokens_ok (tm_log m) c"
  shows "tokens_ok cd m'"
  by (rule tokens_okI) (use assms in \<open>auto intro: vault_usable callers_ok rotated_granted resent_never\<close>)

lemma tokens_log:
  assumes "tokens_ok cd m" "tm_vault m' = tm_vault m" "tm_callers m' = (tm_callers m)(i := c)"
    "tm_log m' = tm_log m @ [e]" "\<forall>r t. e \<noteq> Rotated r t" "caller_tokens_ok (tm_log m @ [e]) c"
    "\<And>a. a \<in> set (tm_log m) \<Longrightarrow> not_resent a e"
  shows "tokens_ok cd m'"
proof (rule tokens_okI)
  show "usable r (tk_Refresh tok) (tm_log m')" if "tm_vault m' r = Some raw" "cd_unmarshal cd raw = Inr tok" for r raw tok
    using vault_usable[OF assms(1)] that assms(2,4,5) by (auto intro!: usable_kept)
  show "caller_tokens_ok (tm_log m') (tm_callers m' j)" for j
    using callers_kept[OF callers_ok[OF assms(1)], of e j] assms(3-6) by auto
  show "Granted r t \<in> set (tm_log m')" if "Rotated r t \<in> set (tm_log m')" for r t
    using that rotated_granted[OF assms(1)] assms(4,5) by auto
  show "sorted_wrt not_resent (tm_log m')"
    using resent_never[OF assms(1)] assms(4,7) by (simp add: sorted_wrt_append)
qed

lemma fresh_usable: "tokens_ok cd m \<Longrightarrow> t \<notin> set (granted (tm_log m)) \<Longrightarrow> usable r t (tm_log m @ [Granted r t])"
  using rotated_granted granted_set by (fastforce simp: usable_def)

lemma not_resent_Granted [simp]: "not_resent a (Granted r t)"
  by (cases a) simp_all

lemma not_resent_Failed [simp]: "not_resent a (Failed r t)"
  by (cases a) simp_all

lemma not_resent_Rotated [simp]: "not_resent a (Rotated r t)"
  by (cases a) simp_all

lemma usable_not_resent: "usable r t l \<Longrightarrow> a \<in> set l \<Longrightarrow> not_resent a (Sent r t)"
  by (cases a) (auto simp: usable_def)

lemma tokens_call: "tokens_ok cd m \<Longrightarrow> tokens_ok cd (token_call cd i r now fault m)"
  unfolding token_call_def caller_at_def
  by (auto split: sum.splits intro: tokens_frame[where i = i])

lemma tokens_unlock: "tokens_ok cd m \<Longrightarrow> tokens_ok cd (unlock_return i r res m)"
  by (rule tokens_frame[where i = i and c = "Returned res"]) (auto simp: mgr_simps)

lemma tokens_lock: "tokens_ok cd m \<Longrightarrow> tokens_ok cd (lockRef i r m)"
  unfolding lockRef_def by (auto intro!: tokens_frame[where i = i and c = "Holding r" and m = m] simp: mgr_simps)

lemma tokens_recheck: "tokens_ok cd m \<Longrightarrow> tokens_ok cd (token_recheck cd i r now fault m)"
proof (cases "readToken cd fault r (tm_vault m)")
  case (Inr tok)
  assume m: "tokens_ok cd m"
  have l: "usable r (tk_Refresh tok) (tm_log m)" by (rule read_usable[OF m Inr])
  have "tokens_ok cd (log_entry (Sent r (tk_Refresh tok)) (caller_at i (Refreshing r tok) m))"
    by (rule tokens_log[OF m, of _ i "Refreshing r tok" "Sent r (tk_Refresh tok)"])
      (use l usable_not_resent[OF l] in \<open>auto simp: mgr_simps usable_def\<close>)
  then show ?thesis using Inr tokens_unlock[OF m] by (simp add: token_recheck_def)
qed (simp add: token_recheck_def tokens_unlock)

lemma tokens_failed: "tokens_ok cd m \<Longrightarrow> tokens_ok cd (log_entry (Failed r t) (unlock_return i r' res m))"
  by (rule tokens_log[where i = i and c = "Returned res" and m = m and e = "Failed r t"]) (auto simp: mgr_simps)

lemma tokens_answer:
  assumes "tokens_ok cd m" "tm_callers m i = Refreshing r tok"
    "distinct (granted (tm_log (refresh_answered cd i r tok ans m)))"
  shows "tokens_ok cd (refresh_answered cd i r tok ans m)"
proof (cases ans)
  case (Inr fresh)
  let ?f = "keep_scopes tok fresh"
  have new: "tk_Refresh ?f \<notin> set (granted (tm_log m))" "tk_Refresh ?f = tk_Refresh fresh"
    using assms(3) Inr by (auto simp: refresh_answered_def mgr_simps keep_scopes_def)
  have "Granted r (tk_Refresh tok) \<in> set (tm_log m)" using callers_ok[OF assms(1), of i] assms(2) by simp
  moreover from this new have "tk_Refresh tok \<noteq> tk_Refresh ?f" using granted_set by metis
  ultimately show ?thesis
    using Inr new fresh_usable[OF assms(1) new(1), of r]
    by (auto intro!: tokens_log[OF assms(1), where i = i and c = "Rotating r tok ?f" and e = "Granted r (tk_Refresh fresh)"]
        simp: refresh_answered_def mgr_simps)
qed (simp add: refresh_answered_def tokens_failed assms(1))

lemma tokens_rotated:
  assumes "tokens_ok cd m" "locks_ok m" "distinct (granted (tm_log m))" "tm_callers m i = Rotating r tok fresh"
    "cd_unmarshal cd raw = Inr fresh"
  shows "tokens_ok cd (log_entry (Rotated r (tk_Refresh tok)) (unlock_return i r res (m\<lparr>tm_vault := (tm_vault m)(r \<mapsto> raw)\<rparr>)))"
    (is "tokens_ok cd ?m'")
proof (rule tokens_okI)
  have c: "Granted r (tk_Refresh tok) \<in> set (tm_log m)" "usable r (tk_Refresh fresh) (tm_log m)" "tk_Refresh tok \<noteq> tk_Refresh fresh"
    using callers_ok[OF assms(1), of i] assms(4) by simp_all
  have other: "t \<noteq> tk_Refresh tok" if "usable r' t (tm_log m)" "r' \<noteq> r" for r' t
    using that c(1) granted_unique[OF assms(3)] unfolding usable_def by blast
  show "usable r' (tk_Refresh tok') (tm_log ?m')" if "tm_vault ?m' r' = Some raw'" "cd_unmarshal cd raw' = Inr tok'" for r' raw' tok'
  proof (cases "r' = r")
    case True
    then show ?thesis using that c assms(5) by (auto simp: mgr_simps intro!: usable_kept)
  next
    case False
    then have "usable r' (tk_Refresh tok') (tm_log m)" using that by (auto simp: mgr_simps intro: vault_usable[OF assms(1)])
    moreover from other[OF this False] have "tk_Refresh tok \<noteq> tk_Refresh tok'" by simp
    ultimately show ?thesis by (auto simp: mgr_simps intro!: usable_kept)
  qed
  show "caller_tokens_ok (tm_log ?m') (tm_callers ?m' j)" for j
  proof (cases "j = i")
    case False
    have "\<not> (\<exists>tok' fresh'. tm_callers m j = Rotating r' tok' fresh' \<and> tk_Refresh fresh' = tk_Refresh tok)" for r'
    proof clarify
      fix tok' fresh'
      assume j: "tm_callers m j = Rotating r' tok' fresh'" "tk_Refresh fresh' = tk_Refresh tok"
      have "r' = r" using callers_ok[OF assms(1), of j] j other[of r' "tk_Refresh fresh'"] by auto
      then show False using locksD[OF assms(2), of i r j] assms(4) j(1) False by simp
    qed
    then show ?thesis using False callers_kept[OF callers_ok[OF assms(1)], of "Rotated r (tk_Refresh tok)" j]
      by (auto simp: mgr_simps)
  qed (simp add: mgr_simps)
  show "Granted r' t \<in> set (tm_log ?m')" if "Rotated r' t \<in> set (tm_log ?m')" for r' t
    using that c(1) rotated_granted[OF assms(1)] by (auto simp: mgr_simps)
  show "sorted_wrt not_resent (tm_log ?m')"
    using resent_never[OF assms(1)] by (simp add: mgr_simps sorted_wrt_append)
qed

lemma tokens_store:
  "reads_back cd \<Longrightarrow> tokens_ok cd m \<Longrightarrow> locks_ok m \<Longrightarrow> distinct (granted (tm_log m)) \<Longrightarrow> tm_callers m i = Rotating r tok fresh
   \<Longrightarrow> tokens_ok cd (token_store cd i r tok fresh fault m)"
  unfolding token_store_def writeToken_def reads_back_def
  by (auto split: sum.splits option.splits intro!: tokens_failed tokens_rotated)

lemma tokens_authorize:
  assumes "reads_back cd" "tokens_ok cd m" "distinct (granted (tm_log (authorize_store cd r tok fault m)))"
  shows "tokens_ok cd (authorize_store cd r tok fault m)" (is "tokens_ok cd ?m'")
proof -
  have l: "usable r (tk_Refresh tok) (tm_log m @ [Granted r (tk_Refresh tok)])"
    using assms(3) by (auto intro!: fresh_usable[OF assms(2)] simp: authorize_store_def mgr_simps)
  have v: "tm_vault ?m' = tm_vault m \<or> (\<exists>raw. cd_unmarshal cd raw = Inr tok \<and> tm_vault ?m' = (tm_vault m)(r \<mapsto> raw))"
    using assms(1) by (auto simp: authorize_store_def mgr_simps writeToken_def reads_back_def split: sum.splits option.splits)
  show ?thesis
  proof (rule tokens_okI)
    show "usable r' (tk_Refresh tok') (tm_log ?m')" if "tm_vault ?m' r' = Some raw'" "cd_unmarshal cd raw' = Inr tok'" for r' raw' tok'
    proof (cases "tm_vault m r' = Some raw'")
      case True
      then show ?thesis using that vault_usable[OF assms(2) True] by (auto simp: authorize_store_def mgr_simps intro!: usable_kept)
    next
      case False
      then have "r' = r \<and> tok' = tok" using that v by (auto split: if_splits)
      then show ?thesis using l by (simp add: authorize_store_def mgr_simps)
    qed
    show "caller_tokens_ok (tm_log ?m') (tm_callers ?m' j)" for j
      using callers_kept[OF callers_ok[OF assms(2)], of "Granted r (tk_Refresh tok)" j]
      by (auto simp: authorize_store_def mgr_simps)
    show "Granted r' t \<in> set (tm_log ?m')" if "Rotated r' t \<in> set (tm_log ?m')" for r' t
      using that rotated_granted[OF assms(2)] by (auto simp: authorize_store_def mgr_simps)
    show "sorted_wrt not_resent (tm_log ?m')"
      using resent_never[OF assms(2)] by (simp add: authorize_store_def mgr_simps sorted_wrt_append)
  qed
qed

lemma log_grows: "\<exists>es. tm_log (token_do cd ev m) = tm_log m @ es"
  by (cases ev; auto split: caller.splits sum.splits prod.splits option.splits
      simp: token_call_def lockRef_def token_recheck_def refresh_answered_def token_store_def authorize_store_def mgr_simps)

lemma tokens_do:
  assumes "reads_back cd" "tokens_ok cd m" "turns_ok m" "distinct (granted (tm_log (token_do cd ev m)))"
  shows "tokens_ok cd (token_do cd ev m)"
proof -
  have d: "distinct (granted (tm_log m))" using log_grows[of cd ev m] assms(4) by auto
  have l: "locks_ok m" using assms(3) by (simp add: turns_ok_def)
  show ?thesis using assms d l
    by (cases ev; auto split: caller.splits
        intro: tokens_call tokens_lock tokens_recheck tokens_answer tokens_store tokens_authorize)
qed

lemma tokens_new: "tokens_ok cd NewTokenMgr"
  by (simp add: tokens_ok_def NewTokenMgr_def)

lemma tokens_run:
  "reads_back cd \<Longrightarrow> distinct (granted (tm_log (token_run cd evs NewTokenMgr))) \<Longrightarrow> tokens_ok cd (token_run cd evs NewTokenMgr)"
proof (induction evs rule: rev_induct)
  case (snoc ev evs)
  have "distinct (granted (tm_log (token_run cd evs NewTokenMgr)))"
    using log_grows[of cd ev "token_run cd evs NewTokenMgr"] snoc.prems(2) by auto
  with snoc show ?case using tokens_do[OF snoc.prems(1) _ turns_run[OF turns_new]] by simp
qed (simp add: tokens_new)

lemma ended_between: "one_at_a_time r (Some t) (ys @ Sent r t' # zs) \<Longrightarrow> Rotated r t \<in> set ys \<or> Failed r t \<in> set ys"
proof (induction ys)
  case (Cons e ys)
  then show ?case by (cases e) (auto split: if_splits)
qed simp

text \<open>An access token that \<^verbatim>\<open>AccessToken\<close> returns is, at that moment, the one stored for the account, and it
  is either good for another minute or the provider has just issued it.\<close>

lemma returned_is_stored:
  assumes "reads_back cd" "tm_callers m i \<noteq> Returned (Inr a)" "tm_callers (token_do cd ev m) i = Returned (Inr a)"
  obtains ref tok where "readToken cd None ref (tm_vault (token_do cd ev m)) = Inr tok" "tk_Access tok = a"
    "(\<exists>now fault. (ev = CallToken i ref now fault \<or> ev = Recheck i now fault) \<and> still_valid now tok)
     \<or> (\<exists>old fault. ev = StoreFresh i fault \<and> tm_callers m i = Rotating ref old tok)"
proof -
  have r: "fault = None" if "readToken cd fault ref v = Inr tok" for fault ref v tok
    using that by (cases fault) (simp_all add: readToken_def)
  have "\<exists>ref tok. readToken cd None ref (tm_vault (token_do cd ev m)) = Inr tok \<and> tk_Access tok = a
     \<and> ((\<exists>now fault. (ev = CallToken i ref now fault \<or> ev = Recheck i now fault) \<and> still_valid now tok)
     \<or> (\<exists>old fault. ev = StoreFresh i fault \<and> tm_callers m i = Rotating ref old tok))"
  proof (cases ev)
    case (CallToken j ref now fault)
    then show ?thesis using assms(2,3) r[of fault ref "tm_vault m"]
      by (auto simp: token_call_def caller_at_def split: caller.splits sum.splits if_splits)
  next
    case (Recheck j now fault)
    then show ?thesis using assms(2,3) r[of fault _ "tm_vault m"]
      by (auto simp: token_recheck_def mgr_simps split: caller.splits sum.splits if_splits)
  next
    case (StoreFresh j fault)
    then show ?thesis using assms
      by (auto simp: token_store_def writeToken_def readToken_def reads_back_def mgr_simps
          split: caller.splits sum.splits option.splits prod.splits if_splits)
  qed (use assms(2,3) in \<open>auto simp: lockRef_def refresh_answered_def authorize_store_def mgr_simps
        split: caller.splits sum.splits if_splits\<close>)
  then show ?thesis using that by blast
qed

text \<open>
  C15. Refresh tokens are single-use, and the managers spend each once. Whatever calls of \<^verbatim>\<open>AccessToken\<close>,
  refreshes and finished authorizations interleave, over any number of goroutines and accounts, as long
  as the provider does not issue one refresh token twice: between two refresh requests of one account
  the first has ended, either with its replacement stored, and then the second request spends another
  token, or with an error of the provider or the vault.
\<close>

theorem refresh_spends_once:
  assumes "reads_back cd"
    and "distinct (granted (tm_log (token_run cd evs NewTokenMgr)))"
    and "tm_log (token_run cd evs NewTokenMgr) = xs @ Sent r t # ys @ Sent r t' # zs"
  shows "Failed r t \<in> set ys \<or> (Rotated r t \<in> set ys \<and> t' \<noteq> t)"
proof -
  have "one_at_a_time r None (tm_log (token_run cd evs NewTokenMgr))"
    using turns_run[OF turns_new, of cd evs] by (simp add: turns_ok_def requests_ok_def)
  then have "one_at_a_time r (Some t) (ys @ Sent r t' # zs)"
    unfolding assms(3) by (simp add: one_at_a_time_append)
  from ended_between[OF this] show ?thesis
    using resent_never[OF tokens_run[OF assms(1,2)]] unfolding assms(3)
    by (auto simp: sorted_wrt_append)
qed

definition sample_token :: "string \<Rightarrow> time \<Rightarrow> token" where
  "sample_token n e = \<lparr>tk_Access = ''at-'' @ n, tk_Refresh = n, tk_ExpiresAt = e, tk_Scopes = []\<rparr>"

definition sample_codec :: codec where
  "sample_codec = \<lparr>cd_label = ''kick'', cd_marshal = (\<lambda>tok. if tok = sample_token ''a'' 0 then Inr ''A'' else if tok = sample_token ''b'' 0 then Inr ''B''
       else if tok = sample_token ''c'' 0 then Inr ''C'' else Inl ''unsupported''),
     cd_unmarshal = (\<lambda>raw. if raw = ''A'' then Inr (sample_token ''a'' 0) else if raw = ''B'' then Inr (sample_token ''b'' 0)
       else if raw = ''C'' then Inr (sample_token ''c'' 0) else Inl ''malformed'')\<rparr>"

definition sample_refreshes :: "token_event list" where
  "sample_refreshes =
     [Authorize ''acc'' (sample_token ''a'' 0) None, CallToken 0 ''acc'' 5 None, CallToken 1 ''acc'' 5 None,
      GrabLock 0, GrabLock 1, Recheck 0 5 None, Answer 0 (Inr (sample_token ''b'' 0)), GrabLock 1, StoreFresh 0 None,
      GrabLock 1, Recheck 1 6 None]"

lemma sample_log: "tm_log (token_run sample_codec sample_refreshes NewTokenMgr) =
    [Granted ''acc'' ''a''] @ Sent ''acc'' ''a'' # [Granted ''acc'' ''b'', Rotated ''acc'' ''a''] @ Sent ''acc'' ''b'' # []"
  by code_simp

lemma sample_reads_back: "reads_back sample_codec"
  by (auto simp: reads_back_def sample_codec_def split: if_splits)

theorem refresh_spends_once_witness:
  "tm_log (token_run sample_codec sample_refreshes NewTokenMgr) =
     [Granted ''acc'' ''a'', Sent ''acc'' ''a'', Granted ''acc'' ''b'', Rotated ''acc'' ''a'', Sent ''acc'' ''b'']
   \<and> (Failed ''acc'' ''a'' \<in> set [Granted ''acc'' ''b'', Rotated ''acc'' ''a'']
     \<or> (Rotated ''acc'' ''a'' \<in> set [Granted ''acc'' ''b'', Rotated ''acc'' ''a''] \<and> ''b'' \<noteq> ''a''))"
  using refresh_spends_once[OF sample_reads_back _ sample_log] sample_log by simp

text \<open>A new authorization that finishes while a refresh of the same account is out is lost: the refresh
  stores over it, because the authorization does not take the account's lock.\<close>

lemma authorization_lost:
  "readToken sample_codec None ''acc'' (tm_vault (token_run sample_codec
     [Authorize ''acc'' (sample_token ''a'' 0) None, CallToken 0 ''acc'' 5 None, GrabLock 0, Recheck 0 5 None,
      Answer 0 (Inr (sample_token ''b'' 0)), Authorize ''acc'' (sample_token ''c'' 0) None, StoreFresh 0 None] NewTokenMgr))
   = Inr (sample_token ''b'' 0)"
  by code_simp

text \<open>A refresh answer without a refresh token clears the stored one, though omitted scopes are kept.\<close>

lemma refresh_token_cleared:
  "tk_Refresh new = [] \<Longrightarrow> tk_Refresh (keep_scopes old new) = []"
  by (simp add: keep_scopes_def)

end
