(* ===== verification/Auth_Sessions.thy ===== *)
theory Auth_Sessions
  imports Token_Refresh Store Http_Calls
begin

text \<open>
  How accounts are authorized (\<^verbatim>\<open>internal/auth/kick\<close>, \<^verbatim>\<open>internal/auth/twitch\<close>): Kick's code flow with PKCE over a
  loopback redirect, Twitch's device flow with its polling loop, and the OAuth clients of both. The JSON
  decoders, SHA-256 and base64url, the random source, the clock and the answers of the network, the
  vault and the account store are arguments; a body is what the size limit leaves of it. A Kick session
  is a machine over the browser's callbacks, the ends of the code exchange and the expiry timer, which
  run in goroutines of their own; the log, which the program does not have, keeps the exchanges made and
  the accounts announced.
\<close>

subsection \<open>The OAuth clients\<close>

type_synonym form = "(string \<times> string) list"

record token_answer =
  ta_Access :: string
  ta_Refresh :: string
  ta_ExpiresIn :: int
  ta_Scope :: string

definition maybeSecret :: "string \<Rightarrow> form \<Rightarrow> form" where
  "maybeSecret secret f = (if secret \<noteq> [] then f @ [(''client_secret'', secret)] else f)"

definition exchange_form :: "string \<Rightarrow> string \<Rightarrow> string \<Rightarrow> string \<Rightarrow> string \<Rightarrow> form" where
  "exchange_form cid secret code verifier redirect = maybeSecret secret
     [(''grant_type'', ''authorization_code''), (''client_id'', cid), (''code'', code),
      (''redirect_uri'', redirect), (''code_verifier'', verifier)]"

definition kick_refresh_form :: "string \<Rightarrow> string \<Rightarrow> string \<Rightarrow> form" where
  "kick_refresh_form cid secret refresh = maybeSecret secret
     [(''grant_type'', ''refresh_token''), (''client_id'', cid), (''refresh_token'', refresh)]"

definition expires_at :: "time \<Rightarrow> int \<Rightarrow> time" where
  "expires_at now n = now + wrap64 (n * second)"

definition kick_tokenRequest :: "(string \<Rightarrow> string + token_answer) \<Rightarrow> time \<Rightarrow> http_answer \<Rightarrow> string + token" where
  "kick_tokenRequest dec now ans = (case ans of
     Inl e \<Rightarrow> Inl e
   | Inr (status, raw) \<Rightarrow>
       if status \<noteq> 200 then Inl (''kick: token request: status '' @ format_int status @ '': '' @ raw)
       else (case dec raw of
         Inl e \<Rightarrow> Inl (''kick: decode token: '' @ e)
       | Inr w \<Rightarrow> Inr \<lparr>tk_Access = ta_Access w, tk_Refresh = ta_Refresh w,
           tk_ExpiresAt = expires_at now (ta_ExpiresIn w), tk_Scopes = Go_Values.fields (ta_Scope w)\<rparr>))"

record kick_user =
  ku_UserID :: string
  ku_Name :: string
  ku_Slug :: string

definition kick_Identity :: "(string \<Rightarrow> string + kick_user list) \<Rightarrow> http_answer \<Rightarrow> string + (string \<times> string)" where
  "kick_Identity dec ans = (case ans of
     Inl e \<Rightarrow> Inl e
   | Inr (status, raw) \<Rightarrow>
       if status \<noteq> 200 then Inl (''kick: identity: status '' @ format_int status)
       else (case dec raw of
         Inl e \<Rightarrow> Inl (''kick: decode identity: '' @ e)
       | Inr [] \<Rightarrow> Inl ''kick: identity: empty response''
       | Inr (u # us) \<Rightarrow> Inr (ku_UserID u, if ku_Slug u = [] then ku_Name u else ku_Slug u)))"

definition KickScopes :: "string list" where
  "KickScopes = [''user:read'', ''chat:write'', ''events:subscribe'']"

text \<open>The query of the authorize URL; the URL encoder is an argument where the URL is built.\<close>

definition authorize_query :: "string \<Rightarrow> string \<Rightarrow> string \<Rightarrow> string \<Rightarrow> form" where
  "authorize_query cid redirect challenge state =
     [(''response_type'', ''code''), (''client_id'', cid), (''redirect_uri'', redirect), (''scope'', join '' '' KickScopes),
      (''code_challenge'', challenge), (''code_challenge_method'', ''S256''), (''state'', state)]"

definition pkceChallenge :: "(string \<Rightarrow> string) \<Rightarrow> (string \<Rightarrow> string) \<Rightarrow> string \<Rightarrow> string" where
  "pkceChallenge sha b64 verifier = b64 (sha verifier)"

text \<open>Twitch's token endpoint: its refusals are told apart by the message.\<close>

datatype poll_error = AuthorizationPending | SlowDown | CodeExpired | AccessDenied | OtherError string

definition twitch_refusal :: "int \<Rightarrow> string \<Rightarrow> poll_error" where
  "twitch_refusal status msg =
     (if contains msg ''authorization_pending'' then AuthorizationPending
      else if contains msg ''slow_down'' then SlowDown
      else if contains msg ''expired'' then CodeExpired
      else if contains msg ''denied'' then AccessDenied
      else OtherError (''twitch: token request: status '' @ format_int status @ '': '' @ msg))"

record twitch_answer =
  wa_Access :: string
  wa_Refresh :: string
  wa_ExpiresIn :: int
  wa_Scope :: "string list"

definition twitch_tokenRequest :: "(string \<Rightarrow> string) \<Rightarrow> (string \<Rightarrow> string + twitch_answer) \<Rightarrow> time \<Rightarrow> http_answer \<Rightarrow> poll_error + token" where
  "twitch_tokenRequest msg_of dec now ans = (case ans of
     Inl e \<Rightarrow> Inl (OtherError e)
   | Inr (status, raw) \<Rightarrow>
       if status \<noteq> 200 then Inl (twitch_refusal status (msg_of raw))
       else (case dec raw of
         Inl e \<Rightarrow> Inl (OtherError (''twitch: decode token: '' @ e))
       | Inr w \<Rightarrow> Inr \<lparr>tk_Access = wa_Access w, tk_Refresh = wa_Refresh w,
           tk_ExpiresAt = expires_at now (wa_ExpiresIn w), tk_Scopes = wa_Scope w\<rparr>))"

definition device_form :: "string \<Rightarrow> string \<Rightarrow> form" where
  "device_form cid code = [(''client_id'', cid), (''device_code'', code),
     (''grant_type'', ''urn:ietf:params:oauth:grant-type:device_code'')]"

definition twitch_refresh_form :: "string \<Rightarrow> string \<Rightarrow> form" where
  "twitch_refresh_form cid refresh = [(''client_id'', cid), (''grant_type'', ''refresh_token''), (''refresh_token'', refresh)]"

definition twitch_Validate :: "(string \<Rightarrow> string + string \<times> string) \<Rightarrow> http_answer \<Rightarrow> string + (string \<times> string)" where
  "twitch_Validate dec ans = (case ans of
     Inl e \<Rightarrow> Inl e
   | Inr (status, raw) \<Rightarrow>
       if status \<noteq> 200 then Inl (''twitch: validate: status '' @ format_int status)
       else (case dec raw of Inl e \<Rightarrow> Inl (''twitch: decode validate: '' @ e) | Inr u \<Rightarrow> Inr u))"

record DeviceAuth =
  da_DeviceCode :: string
  da_UserCode :: string
  da_VerificationURI :: string
  da_Interval :: int
  da_ExpiresIn :: int

definition twitch_StartDevice :: "(string \<Rightarrow> string + DeviceAuth) \<Rightarrow> string \<Rightarrow> http_answer \<Rightarrow> string + DeviceAuth" where
  "twitch_StartDevice dec url ans = (case ans of
     Inl e \<Rightarrow> Inl e
   | Inr (status, raw) \<Rightarrow>
       if status \<noteq> 200 then Inl (''twitch: '' @ url @ '': status '' @ format_int status)
       else (case dec raw of Inl e \<Rightarrow> Inl e
         | Inr d \<Rightarrow> Inr (if da_Interval d \<le> 0 then d\<lparr>da_Interval := 5\<rparr> else d)))"

subsection \<open>Storing the account\<close>

text \<open>The vault key of an account, and the row that the store upserts; the store's answer is an argument.\<close>

definition kick_SecretRef :: "string \<Rightarrow> string" where
  "kick_SecretRef uid = ''platform:kick:'' @ uid"

definition twitch_SecretRef :: "string \<Rightarrow> string" where
  "twitch_SecretRef uid = ''platform:twitch:'' @ uid"

definition account_row :: "Platform \<Rightarrow> string \<Rightarrow> string \<Rightarrow> string \<Rightarrow> string list \<Rightarrow> Account" where
  "account_row p uid login ref scopes = \<lparr>ac_ID = [], ac_Platform = p, ac_PlatformUID = uid, ac_Login = login,
     ac_DisplayName = login, ac_SecretRef = ref, ac_Scopes = scopes, ac_CreatedAt = zero_time, ac_UpdatedAt = zero_time\<rparr>"

record persist_env =
  pe_codec :: codec
  pe_vault_fault :: "string option"
  pe_identity :: "string + (string \<times> string)"
  pe_upsert :: "Account \<Rightarrow> string + Account"

definition kick_persist :: "persist_env \<Rightarrow> token \<Rightarrow> vault \<Rightarrow> (string + Account) \<times> vault" where
  "kick_persist pe tok v = (case pe_identity pe of
     Inl e \<Rightarrow> (Inl (''kick: identity: '' @ e), v)
   | Inr (uid, login) \<Rightarrow>
       (case writeToken (pe_codec pe) (pe_vault_fault pe) (kick_SecretRef uid) tok v of
          (Some e, v') \<Rightarrow> (Inl e, v')
        | (None, v') \<Rightarrow> (pe_upsert pe (account_row Kick uid login (kick_SecretRef uid) (tk_Scopes tok)), v')))"

definition twitch_persist :: "persist_env \<Rightarrow> token \<Rightarrow> vault \<Rightarrow> (string + Account) \<times> vault" where
  "twitch_persist pe tok v = (case pe_identity pe of
     Inl e \<Rightarrow> (Inl (''twitch: validate new token: '' @ e), v)
   | Inr (uid, login) \<Rightarrow>
       (case writeToken (pe_codec pe) (pe_vault_fault pe) (twitch_SecretRef uid) tok v of
          (Some e, v') \<Rightarrow> (Inl e, v')
        | (None, v') \<Rightarrow> (pe_upsert pe (account_row Twitch uid login (twitch_SecretRef uid) (tk_Scopes tok)), v')))"

subsection \<open>Kick's sessions\<close>

datatype session_state = StatePending | StateAuthorized | StateDenied | StateExpired | StateError

record Session =
  ss_ID :: string
  ss_AuthorizeURL :: string
  ss_State :: session_state
  ss_Login :: string
  ss_Error :: string

text \<open>The phase of \<^verbatim>\<open>redeemOnce\<close>: callbacks that come while the exchange runs wait for it.\<close>

datatype redeem_phase = NotRedeemed | Redeeming | Redeemed

record kick_pending =
  kp_session :: Session
  kp_verifier :: string
  kp_oauthState :: string
  kp_redirectURI :: string
  kp_redeem :: redeem_phase
  kp_expiring :: bool
  kp_shut :: bool

datatype auth_log = Exchanged string form | Announced string Account

record kick_auth =
  ka_sessions :: "string \<Rightarrow> kick_pending option"
  ka_vault :: vault
  ka_log :: "auth_log list"

definition NewKickAuth :: "vault \<Rightarrow> kick_auth" where
  "NewKickAuth v = \<lparr>ka_sessions = Map.empty, ka_vault = v, ka_log = []\<rparr>"

definition kick_Status :: "string \<Rightarrow> kick_auth \<Rightarrow> Session option" where
  "kick_Status sid a = map_option kp_session (ka_sessions a sid)"

definition with_session :: "string \<Rightarrow> (kick_pending \<Rightarrow> kick_pending) \<Rightarrow> kick_auth \<Rightarrow> kick_auth" where
  "with_session sid f a = (case ka_sessions a sid of None \<Rightarrow> a | Some p \<Rightarrow> a\<lparr>ka_sessions := (ka_sessions a)(sid \<mapsto> f p)\<rparr>)"

definition kick_setState :: "string \<Rightarrow> session_state \<Rightarrow> string \<Rightarrow> string \<Rightarrow> kick_auth \<Rightarrow> kick_auth" where
  "kick_setState sid st login err =
     with_session sid (\<lambda>p. p\<lparr>kp_session := (kp_session p)\<lparr>ss_State := st, ss_Login := login, ss_Error := err\<rparr>\<rparr>)"

text \<open>What starting a session draws on: two random tokens, a loopback address, a new id.\<close>

record start_env =
  se_verifier :: "string + string"
  se_state :: "string + string"
  se_listen :: "string + string"
  se_newid :: string
  se_clientID :: string
  se_authURL :: string

definition kick_StartAuth :: "(form \<Rightarrow> string) \<Rightarrow> (string \<Rightarrow> string) \<Rightarrow> start_env \<Rightarrow> kick_auth \<Rightarrow> (string + Session) \<times> kick_auth" where
  "kick_StartAuth enc challenge e a = (case se_verifier e of Inl x \<Rightarrow> (Inl x, a) | Inr verifier \<Rightarrow>
     (case se_state e of Inl x \<Rightarrow> (Inl x, a) | Inr state \<Rightarrow>
     (case se_listen e of Inl x \<Rightarrow> (Inl (''kick: open loopback: '' @ x), a) | Inr addr \<Rightarrow>
       (let redirect = ''http://'' @ addr @ ''/callback'';
            url = se_authURL e @ ''?'' @ enc (authorize_query (se_clientID e) redirect (challenge verifier) state);
            s = \<lparr>ss_ID = se_newid e, ss_AuthorizeURL = url, ss_State = StatePending, ss_Login = [], ss_Error = []\<rparr>
        in (Inr s, a\<lparr>ka_sessions := (ka_sessions a)(se_newid e \<mapsto>
              \<lparr>kp_session = s, kp_verifier = verifier, kp_oauthState = state, kp_redirectURI = redirect,
               kp_redeem = NotRedeemed, kp_expiring = False, kp_shut = False\<rparr>)\<rparr>)))))"

text \<open>A callback up to the exchange of its code. A shut listener serves nothing.\<close>

definition kick_callback :: "string \<Rightarrow> string \<Rightarrow> string \<Rightarrow> string \<Rightarrow> string \<Rightarrow> string \<Rightarrow> kick_auth \<Rightarrow> kick_auth" where
  "kick_callback sid cid secret state err code a = (case ka_sessions a sid of None \<Rightarrow> a | Some p \<Rightarrow>
     if kp_shut p then a
     else if state \<noteq> kp_oauthState p then kick_setState sid StateError [] ''state mismatch'' a
     else if err \<noteq> [] then kick_setState sid StateError [] err a
     else if kp_redeem p \<noteq> NotRedeemed then a
     else if code = [] then with_session sid (\<lambda>p. p\<lparr>kp_redeem := Redeemed\<rparr>)
       (kick_setState sid StateError [] ''missing authorization code'' a)
     else (with_session sid (\<lambda>p. p\<lparr>kp_redeem := Redeeming\<rparr>) a)
       \<lparr>ka_log := ka_log a @ [Exchanged sid (exchange_form cid secret code (kp_verifier p) (kp_redirectURI p))]\<rparr>)"

text \<open>The rest of \<^verbatim>\<open>redeem\<close>, once the exchange is answered.\<close>

definition kick_redeemed :: "string \<Rightarrow> string + token \<Rightarrow> persist_env \<Rightarrow> kick_auth \<Rightarrow> kick_auth" where
  "kick_redeemed sid ans pe a = (case ka_sessions a sid of None \<Rightarrow> a | Some p \<Rightarrow>
     if kp_redeem p \<noteq> Redeeming then a
     else with_session sid (\<lambda>p. p\<lparr>kp_redeem := Redeemed\<rparr>) (case ans of
       Inl e \<Rightarrow> kick_setState sid StateError [] e a
     | Inr tok \<Rightarrow> (case kick_persist pe tok (ka_vault a) of
         (Inl e, v) \<Rightarrow> kick_setState sid StateError [] e (a\<lparr>ka_vault := v\<rparr>)
       | (Inr acc, v) \<Rightarrow> (kick_setState sid StateAuthorized (ac_Login acc) [] (a\<lparr>ka_vault := v\<rparr>))
           \<lparr>ka_log := ka_log a @ [Announced sid acc]\<rparr>)))"

text \<open>The expiry timer looks at the state and sets it in two critical sections, and then shuts the
  listener; every callback also shuts it, in a goroutine.\<close>

definition kick_timer_fires :: "string \<Rightarrow> kick_auth \<Rightarrow> kick_auth" where
  "kick_timer_fires sid = with_session sid (\<lambda>p. if ss_State (kp_session p) = StatePending then p\<lparr>kp_expiring := True\<rparr>
     else p\<lparr>kp_shut := True\<rparr>)"

definition kick_expire :: "string \<Rightarrow> kick_auth \<Rightarrow> kick_auth" where
  "kick_expire sid a = (case ka_sessions a sid of None \<Rightarrow> a | Some p \<Rightarrow>
     if kp_expiring p then with_session sid (\<lambda>p. p\<lparr>kp_expiring := False, kp_shut := True\<rparr>) (kick_setState sid StateExpired [] [] a)
     else a)"

definition kick_shutdown :: "string \<Rightarrow> kick_auth \<Rightarrow> kick_auth" where
  "kick_shutdown sid = with_session sid (\<lambda>p. p\<lparr>kp_shut := True\<rparr>)"

datatype kick_auth_event =
    StartAuth start_env
  | Callback string string string string string string
  | ExchangeDone string "string + token" persist_env
  | TimerFires string
  | Expire string
  | Shutdown string

fun kick_auth_do :: "(form \<Rightarrow> string) \<Rightarrow> (string \<Rightarrow> string) \<Rightarrow> kick_auth_event \<Rightarrow> kick_auth \<Rightarrow> kick_auth" where
  "kick_auth_do enc ch (StartAuth e) a = snd (kick_StartAuth enc ch e a)"
| "kick_auth_do enc ch (Callback sid cid secret state err code) a = kick_callback sid cid secret state err code a"
| "kick_auth_do enc ch (ExchangeDone sid ans pe) a = kick_redeemed sid ans pe a"
| "kick_auth_do enc ch (TimerFires sid) a = kick_timer_fires sid a"
| "kick_auth_do enc ch (Expire sid) a = kick_expire sid a"
| "kick_auth_do enc ch (Shutdown sid) a = kick_shutdown sid a"

abbreviation kick_auth_run :: "(form \<Rightarrow> string) \<Rightarrow> (string \<Rightarrow> string) \<Rightarrow> kick_auth_event list \<Rightarrow> kick_auth \<Rightarrow> kick_auth" where
  "kick_auth_run enc ch evs \<equiv> fold (kick_auth_do enc ch) evs"

fun sessions_begun :: "kick_auth_event list \<Rightarrow> string list" where
  "sessions_begun [] = []"
| "sessions_begun (StartAuth e # evs) = se_newid e # sessions_begun evs"
| "sessions_begun (ev # evs) = sessions_begun evs"

fun entry_session :: "auth_log \<Rightarrow> string" where
  "entry_session (Exchanged sid f) = sid"
| "entry_session (Announced sid acc) = sid"

definition session_log :: "string \<Rightarrow> kick_auth \<Rightarrow> auth_log list" where
  "session_log sid a = filter (\<lambda>e. entry_session e = sid) (ka_log a)"

text \<open>What a session's log holds in each phase: nothing before its code is redeemed, then the one exchange,
  made with the session's own verifier and redirect for the code of a callback that brought the
  session's state, and at most one account after it.\<close>

definition exchanged_for :: "kick_auth_event list \<Rightarrow> kick_pending \<Rightarrow> string \<Rightarrow> form \<Rightarrow> bool" where
  "exchanged_for evs p sid f = (\<exists>cid secret code. code \<noteq> [] \<and> Callback sid cid secret (kp_oauthState p) [] code \<in> set evs
     \<and> f = exchange_form cid secret code (kp_verifier p) (kp_redirectURI p))"

definition session_ok :: "kick_auth_event list \<Rightarrow> string \<Rightarrow> kick_pending \<Rightarrow> auth_log list \<Rightarrow> bool" where
  "session_ok evs sid p l = ((kp_redeem p = NotRedeemed \<longrightarrow> l = [])
     \<and> (kp_redeem p = Redeeming \<longrightarrow> (\<exists>f. exchanged_for evs p sid f \<and> l = [Exchanged sid f]))
     \<and> (l = [] \<or> (\<exists>f. exchanged_for evs p sid f \<and> (l = [Exchanged sid f] \<or> (\<exists>acc. l = [Exchanged sid f, Announced sid acc]))))
     \<and> (ss_State (kp_session p) = StateAuthorized \<longrightarrow>
          (\<exists>f acc. l = [Exchanged sid f, Announced sid acc] \<and> ss_Login (kp_session p) = ac_Login acc)))"

definition auth_ok :: "kick_auth_event list \<Rightarrow> kick_auth \<Rightarrow> bool" where
  "auth_ok evs a = ((\<forall>sid. ka_sessions a sid = None \<longrightarrow> session_log sid a = [])
     \<and> (\<forall>sid p. ka_sessions a sid = Some p \<longrightarrow> session_ok evs sid p (session_log sid a)))"

lemma session_log_cong: "ka_log a' = ka_log a \<Longrightarrow> session_log sid a' = session_log sid a"
  by (simp add: session_log_def)

lemma session_log_snoc: "ka_log a' = ka_log a @ [e] \<Longrightarrow>
    session_log sid a' = session_log sid a @ (if entry_session e = sid then [e] else [])"
  by (simp add: session_log_def)

lemma exchanged_for_mono: "exchanged_for evs p sid f \<Longrightarrow> set evs \<subseteq> set evs' \<Longrightarrow> exchanged_for evs' p sid f"
  unfolding exchanged_for_def by blast

lemma session_ok_mono: "session_ok evs sid p l \<Longrightarrow> set evs \<subseteq> set evs' \<Longrightarrow> session_ok evs' sid p l"
  unfolding session_ok_def using exchanged_for_mono[of evs p sid _ evs'] by blast

lemma auth_ok_mono: "auth_ok evs a \<Longrightarrow> set evs \<subseteq> set evs' \<Longrightarrow> auth_ok evs' a"
  unfolding auth_ok_def using session_ok_mono by blast

text \<open>An action on one session: the others are as they were, and it may add an entry of its own.\<close>

lemma auth_ok_one:
  assumes "auth_ok evs a" "ka_sessions a' = (ka_sessions a)(sid \<mapsto> p)"
    "\<And>s. s \<noteq> sid \<Longrightarrow> session_log s a' = session_log s a" "session_ok evs sid p (session_log sid a')"
  shows "auth_ok evs a'"
  unfolding auth_ok_def
proof (intro conjI allI impI)
  show "session_log s a' = []" if "ka_sessions a' s = None" for s
    using assms(1) that assms(3)[of s] unfolding assms(2) auth_ok_def by (auto split: if_splits)
  show "session_ok evs s q (session_log s a')" if "ka_sessions a' s = Some q" for s q
    using assms(1,4) that assms(3)[of s] unfolding assms(2) auth_ok_def by (cases "s = sid") auto
qed

lemma session_okD: "auth_ok evs a \<Longrightarrow> ka_sessions a sid = Some p \<Longrightarrow> session_ok evs sid p (session_log sid a)"
  unfolding auth_ok_def by blast

lemma auth_ok_with:
  assumes "auth_ok evs a" "\<And>p l. ka_sessions a sid = Some p \<Longrightarrow> session_ok evs sid p l \<Longrightarrow> session_ok evs sid (f p) l"
  shows "auth_ok evs (with_session sid f a)"
proof (cases "ka_sessions a sid")
  case (Some p)
  show ?thesis
    by (rule auth_ok_one[OF assms(1), of _ sid "f p"])
      (use Some assms(2)[OF Some session_okD[OF assms(1) Some]] in \<open>auto simp: with_session_def session_log_def\<close>)
qed (simp add: with_session_def assms(1))

lemma session_ok_fields:
  assumes "session_ok evs sid p l" "kp_oauthState p' = kp_oauthState p" "kp_verifier p' = kp_verifier p"
    "kp_redirectURI p' = kp_redirectURI p" "kp_redeem p' = kp_redeem p"
    "ss_State (kp_session p') = ss_State (kp_session p) \<and> ss_Login (kp_session p') = ss_Login (kp_session p)
     \<or> ss_State (kp_session p') \<noteq> StateAuthorized"
  shows "session_ok evs sid p' l"
  using assms unfolding session_ok_def exchanged_for_def by auto

lemma auth_ok_setState:
  "auth_ok evs a \<Longrightarrow> st \<noteq> StateAuthorized \<Longrightarrow> auth_ok evs (kick_setState sid st login err a)"
  unfolding kick_setState_def by (rule auth_ok_with) (auto intro: session_ok_fields)

lemma session_ok_redeemed:
  "session_ok evs sid p l \<Longrightarrow> session_ok evs sid (p\<lparr>kp_redeem := Redeemed\<rparr>) l"
  unfolding session_ok_def exchanged_for_def by auto

lemma auth_ok_redeemed: "auth_ok evs a \<Longrightarrow> auth_ok evs (with_session sid (\<lambda>p. p\<lparr>kp_redeem := Redeemed\<rparr>) a)"
  by (rule auth_ok_with) (auto intro: session_ok_redeemed)

lemma auth_ok_callback:
  assumes "auth_ok evs a" "Callback sid cid secret state err code \<in> set evs"
  shows "auth_ok evs (kick_callback sid cid secret state err code a)"
proof -
  have "auth_ok evs ((with_session sid (\<lambda>p. p\<lparr>kp_redeem := Redeeming\<rparr>) a)
       \<lparr>ka_log := ka_log a @ [Exchanged sid (exchange_form cid secret code (kp_verifier p) (kp_redirectURI p))]\<rparr>)" (is "auth_ok evs ?a'")
    if p: "ka_sessions a sid = Some p" "state = kp_oauthState p" "err = []" "kp_redeem p = NotRedeemed" "code \<noteq> []" for p
  proof (rule auth_ok_one[OF assms(1), of _ sid "p\<lparr>kp_redeem := Redeeming\<rparr>"])
    have "session_log sid a = []" "ss_State (kp_session p) \<noteq> StateAuthorized"
      using session_okD[OF assms(1) p(1)] p(4) by (auto simp: session_ok_def)
    then show "session_ok evs sid (p\<lparr>kp_redeem := Redeeming\<rparr>) (session_log sid ?a')"
      using assms(2) p by (auto simp: session_ok_def session_log_def exchanged_for_def)
  qed (use p in \<open>auto simp: with_session_def session_log_def\<close>)
  then show ?thesis using assms(1)
    by (auto simp: kick_callback_def split: option.splits intro!: auth_ok_setState auth_ok_redeemed)
qed

lemma auth_ok_vault: "auth_ok evs (a\<lparr>ka_vault := v\<rparr>) = auth_ok evs a"
  by (simp add: auth_ok_def session_log_def)

lemma auth_ok_exchange:
  assumes "auth_ok evs a"
  shows "auth_ok evs (kick_redeemed sid ans pe a)"
proof -
  have "auth_ok evs (with_session sid (\<lambda>p. p\<lparr>kp_redeem := Redeemed\<rparr>)
      ((kick_setState sid StateAuthorized (ac_Login acc) [] (a\<lparr>ka_vault := v\<rparr>))\<lparr>ka_log := ka_log a @ [Announced sid acc]\<rparr>))"
    (is "auth_ok evs ?a'") if p: "ka_sessions a sid = Some p" "kp_redeem p = Redeeming" for p acc v
  proof (rule auth_ok_one[OF assms])
    let ?p = "p\<lparr>kp_session := (kp_session p)\<lparr>ss_State := StateAuthorized, ss_Login := ac_Login acc, ss_Error := []\<rparr>, kp_redeem := Redeemed\<rparr>"
    show "ka_sessions ?a' = (ka_sessions a)(sid \<mapsto> ?p)" using p by (simp add: with_session_def kick_setState_def)
    show "session_log s ?a' = session_log s a" if "s \<noteq> sid" for s
      using that p by (simp add: with_session_def kick_setState_def session_log_def)
    show "session_ok evs sid ?p (session_log sid ?a')"
      using session_okD[OF assms p(1)] p
      by (auto simp: session_ok_def exchanged_for_def with_session_def kick_setState_def session_log_def)
  qed
  then show ?thesis using assms
    by (auto simp: kick_redeemed_def auth_ok_vault split: option.splits sum.splits prod.splits
        intro!: auth_ok_setState auth_ok_redeemed)
qed

lemma auth_ok_start:
  assumes "auth_ok evs a" "ka_sessions a (se_newid e) = None"
  shows "auth_ok evs (snd (kick_StartAuth enc ch e a))"
proof -
  have l: "session_log (se_newid e) a = []"
    using assms unfolding auth_ok_def by blast
  show ?thesis
    using assms(1) l by (auto simp: kick_StartAuth_def Let_def session_log_def session_ok_def split: sum.splits
        intro!: auth_ok_one[OF assms(1)])
qed

lemma sessions_with [simp]: "dom (ka_sessions (with_session sid f a)) = dom (ka_sessions a)"
  by (auto simp: with_session_def split: option.splits)

lemma sessions_callback: "dom (ka_sessions (kick_callback sid cid secret state err code a)) = dom (ka_sessions a)"
  by (auto simp: kick_callback_def kick_setState_def with_session_def split: option.splits)

lemma sessions_redeemed: "dom (ka_sessions (kick_redeemed sid ans pe a)) = dom (ka_sessions a)"
  by (auto simp: kick_redeemed_def kick_setState_def with_session_def split: option.splits sum.splits prod.splits)

lemma sessions_expire: "dom (ka_sessions (kick_expire sid a)) = dom (ka_sessions a)"
  by (auto simp: kick_expire_def kick_setState_def with_session_def split: option.splits)

lemma sessions_do: "dom (ka_sessions (kick_auth_do enc ch ev a)) \<subseteq> dom (ka_sessions a) \<union> set (sessions_begun [ev])"
  by (cases ev) (auto simp: sessions_callback sessions_redeemed sessions_expire kick_StartAuth_def kick_timer_fires_def
      kick_shutdown_def Let_def split: sum.splits)

lemma sessions_begun_append [simp]: "sessions_begun (evs @ evs') = sessions_begun evs @ sessions_begun evs'"
  by (induction evs rule: sessions_begun.induct) simp_all

lemma sessions_run: "dom (ka_sessions (kick_auth_run enc ch evs (NewKickAuth v))) \<subseteq> set (sessions_begun evs)"
proof (induction evs rule: rev_induct)
  case (snoc ev evs)
  then show ?case using sessions_do[of enc ch ev "kick_auth_run enc ch evs (NewKickAuth v)"]
    by simp blast
qed (simp add: NewKickAuth_def)

lemma auth_ok_do:
  assumes "auth_ok evs a" "ev \<in> set evs" "\<And>e. ev = StartAuth e \<Longrightarrow> ka_sessions a (se_newid e) = None"
  shows "auth_ok evs (kick_auth_do enc ch ev a)"
proof (cases ev)
  case (StartAuth e)
  then show ?thesis using assms by (simp add: auth_ok_start)
next
  case (Callback sid cid secret state err code)
  then show ?thesis using assms by (simp add: auth_ok_callback)
next
  case (ExchangeDone sid ans pe)
  then show ?thesis using assms by (simp add: auth_ok_exchange)
next
  case (TimerFires sid)
  have "auth_ok evs (kick_timer_fires sid a)" unfolding kick_timer_fires_def
    by (rule auth_ok_with[OF assms(1)]) (auto intro: session_ok_fields)
  then show ?thesis using TimerFires by simp
next
  case (Expire sid)
  have "auth_ok evs (with_session sid (\<lambda>p. p\<lparr>kp_expiring := False, kp_shut := True\<rparr>) (kick_setState sid StateExpired [] [] a))"
    by (rule auth_ok_with[OF auth_ok_setState[OF assms(1)]]) (auto intro: session_ok_fields)
  then show ?thesis using Expire assms(1) by (auto simp: kick_expire_def split: option.splits)
next
  case (Shutdown sid)
  have "auth_ok evs (kick_shutdown sid a)" unfolding kick_shutdown_def
    by (rule auth_ok_with[OF assms(1)]) (auto intro: session_ok_fields)
  then show ?thesis using Shutdown by simp
qed

lemma auth_ok_run: "distinct (sessions_begun evs) \<Longrightarrow> auth_ok evs (kick_auth_run enc ch evs (NewKickAuth v))"
proof (induction evs rule: rev_induct)
  case Nil
  then show ?case by (simp add: auth_ok_def NewKickAuth_def session_log_def)
next
  case (snoc ev evs)
  let ?a = "kick_auth_run enc ch evs (NewKickAuth v)"
  have "auth_ok (evs @ [ev]) ?a" using snoc by (auto intro: auth_ok_mono)
  moreover have "ka_sessions ?a (se_newid e) = None" if "ev = StartAuth e" for e
    using that snoc.prems sessions_run[of enc ch evs v] by (auto simp: domIff)
  ultimately show ?case using auth_ok_do[of "evs @ [ev]" ?a ev] by simp
qed


definition sample_start :: start_env where
  "sample_start = \<lparr>se_verifier = Inr ''vvv'', se_state = Inr ''sss'', se_listen = Inr ''127.0.0.1:9'', se_newid = ''S1'',
     se_clientID = ''cid'', se_authURL = ''https://id.kick.com/oauth/authorize''\<rparr>"

definition sample_persist :: persist_env where
  "sample_persist = \<lparr>pe_codec = sample_codec, pe_vault_fault = None, pe_identity = Inr (''7'', ''ann''), pe_upsert = (\<lambda>acc. Inr acc)\<rparr>"

definition sample_logins :: "kick_auth_event list" where
  "sample_logins = [StartAuth sample_start, Callback ''S1'' ''cid'' [] ''sss'' [] ''code1'', Callback ''S1'' ''cid'' [] ''sss'' [] ''code1'',
     ExchangeDone ''S1'' (Inr (sample_token ''a'' 0)) sample_persist, Callback ''S1'' ''cid'' [] ''sss'' [] ''code2'']"

definition sample_pending :: kick_pending where
  "sample_pending = \<lparr>kp_session = \<lparr>ss_ID = ''S1'', ss_AuthorizeURL = ''https://id.kick.com/oauth/authorize?'',
       ss_State = StateAuthorized, ss_Login = ''ann'', ss_Error = []\<rparr>,
     kp_verifier = ''vvv'', kp_oauthState = ''sss'', kp_redirectURI = ''http://127.0.0.1:9/callback'',
     kp_redeem = Redeemed, kp_expiring = False, kp_shut = False\<rparr>"

lemma sample_login_state:
  "ka_sessions (kick_auth_run (\<lambda>f. []) (\<lambda>x. x) sample_logins (NewKickAuth (\<lambda>k. None))) ''S1'' = Some sample_pending"
  by code_simp

lemma sample_login_log:
  "session_log ''S1'' (kick_auth_run (\<lambda>f. []) (\<lambda>x. x) sample_logins (NewKickAuth (\<lambda>k. None))) =
     [Exchanged ''S1'' (exchange_form ''cid'' [] ''code1'' ''vvv'' ''http://127.0.0.1:9/callback''),
      Announced ''S1'' (account_row Kick ''7'' ''ann'' ''platform:kick:7'' [])]"
  by code_simp

lemma sample_login_ids: "distinct (sessions_begun sample_logins)"
  by code_simp


text \<open>What the sessions do not promise. A callback without a code uses the session up, a later one with the
  code is answered as if the session were authorized; and an authorized session is turned into an error
  by a late callback with a wrong state, or into an expired one by a timer that has looked before.\<close>

lemma code_lost:
  "map_option kp_session (ka_sessions (kick_auth_run (\<lambda>f. []) (\<lambda>x. x)
     [StartAuth sample_start, Callback ''S1'' ''cid'' [] ''sss'' [] [], Callback ''S1'' ''cid'' [] ''sss'' [] ''code1'',
      ExchangeDone ''S1'' (Inr (sample_token ''a'' 0)) sample_persist] (NewKickAuth (\<lambda>k. None))) ''S1'')
   = Some \<lparr>ss_ID = ''S1'', ss_AuthorizeURL = ''https://id.kick.com/oauth/authorize?'', ss_State = StateError, ss_Login = [],
       ss_Error = ''missing authorization code''\<rparr>"
  by code_simp

lemma authorized_then_error:
  "map_option (\<lambda>p. ss_State (kp_session p)) (ka_sessions (kick_auth_run (\<lambda>f. []) (\<lambda>x. x)
     (sample_logins @ [Callback ''S1'' ''cid'' [] ''zzz'' [] []]) (NewKickAuth (\<lambda>k. None))) ''S1'') = Some StateError"
  by code_simp

lemma authorized_then_expired:
  "map_option (\<lambda>p. ss_State (kp_session p)) (ka_sessions (kick_auth_run (\<lambda>f. []) (\<lambda>x. x)
     [StartAuth sample_start, Callback ''S1'' ''cid'' [] ''sss'' [] ''code1'', TimerFires ''S1'',
      ExchangeDone ''S1'' (Inr (sample_token ''a'' 0)) sample_persist, Expire ''S1''] (NewKickAuth (\<lambda>k. None))) ''S1'') = Some StateExpired"
  by code_simp

subsection \<open>Twitch's device sessions\<close>

text \<open>One round of the polling loop, after its wait: the clock, the endpoint's answer, what storing the
  account would meet.\<close>

record poll_round =
  po_now :: time
  po_answer :: "poll_error + token"
  po_persist :: persist_env

datatype poll_result = Again duration | Ended session_state string string

definition poll_round_do :: "duration \<Rightarrow> time \<Rightarrow> duration \<Rightarrow> poll_round \<Rightarrow> vault \<Rightarrow> poll_result \<times> vault" where
  "poll_round_do unit deadline interval r v =
     (if deadline < po_now r then (Ended StateExpired [] [], v)
      else (case po_answer r of
        Inr tok \<Rightarrow> (case twitch_persist (po_persist r) tok v of
            (Inl e, v') \<Rightarrow> (Ended StateError [] e, v')
          | (Inr acc, v') \<Rightarrow> (Ended StateAuthorized (ac_Login acc) [], v'))
      | Inl AuthorizationPending \<Rightarrow> (Again interval, v)
      | Inl SlowDown \<Rightarrow> (Again (interval + 5 * unit), v)
      | Inl CodeExpired \<Rightarrow> (Ended StateExpired [] [], v)
      | Inl AccessDenied \<Rightarrow> (Ended StateDenied [] [], v)
      | Inl (OtherError e) \<Rightarrow> (Ended StateError [] e, v)))"

text \<open>The loop, with the waits it has made.\<close>

fun twitch_poll :: "duration \<Rightarrow> time \<Rightarrow> duration \<Rightarrow> poll_round list \<Rightarrow> vault \<Rightarrow> duration list \<times> poll_result \<times> vault" where
  "twitch_poll unit deadline interval [] v = ([], Again interval, v)"
| "twitch_poll unit deadline interval (r # rs) v = (case poll_round_do unit deadline interval r v of
     (Again i, v') \<Rightarrow> (case twitch_poll unit deadline i rs v' of (ws, res) \<Rightarrow> (interval # ws, res))
   | (Ended st login err, v') \<Rightarrow> ([interval], Ended st login err, v'))"

definition device_poll :: "DeviceAuth \<Rightarrow> time \<Rightarrow> poll_round list \<Rightarrow> vault \<Rightarrow> duration list \<times> poll_result \<times> vault" where
  "device_poll da start rs v = twitch_poll second (expires_at start (da_ExpiresIn da)) (wrap64 (da_Interval da * second)) rs v"

definition retried :: "time \<Rightarrow> poll_round \<Rightarrow> bool" where
  "retried deadline r = (po_now r \<le> deadline \<and> (po_answer r = Inl AuthorizationPending \<or> po_answer r = Inl SlowDown))"

definition slow_downs :: "poll_round list \<Rightarrow> int" where
  "slow_downs rs = int (length (filter (\<lambda>r. po_answer r = Inl SlowDown) rs))"

lemma retried_round: "retried deadline r \<Longrightarrow> poll_round_do unit deadline interval r v =
    (Again (interval + 5 * unit * slow_downs [r]), v)"
  by (auto simp: retried_def poll_round_do_def slow_downs_def)

lemma slow_downs_Cons: "slow_downs (r # rs) = slow_downs [r] + slow_downs rs"
  by (simp add: slow_downs_def)

text \<open>The loop goes on while it is before the deadline and told to wait, five units longer for every
  \<^verbatim>\<open>slow_down\<close>; it ends with the first round that is not, and touches the vault only there.\<close>

lemma poll_retries: "\<forall>r \<in> set rs. retried deadline r \<Longrightarrow>
    twitch_poll unit deadline interval (rs @ rest) v =
      (let (ws, res) = twitch_poll unit deadline (interval + 5 * unit * slow_downs rs) rest v
       in (map (\<lambda>k. interval + 5 * unit * slow_downs (take k rs)) [0..<length rs] @ ws, res))"
proof (induction rs arbitrary: interval)
  case Nil
  then show ?case by (simp add: slow_downs_def split: prod.splits)
next
  case (Cons r rs)
  have m: "map (\<lambda>k. interval + 5 * unit * slow_downs (take k (r # rs))) [0..<length (r # rs)]
      = interval # map (\<lambda>k. interval + 5 * unit * slow_downs [r] + 5 * unit * slow_downs (take k rs)) [0..<length rs]"
    unfolding length_Cons map_upt_Suc take_0 take_Suc_Cons slow_downs_Cons[of r "take _ rs"]
    by (simp add: slow_downs_def algebra_simps del: upt_Suc)
  have i: "interval + 5 * unit * slow_downs (r # rs) = interval + 5 * unit * slow_downs [r] + 5 * unit * slow_downs rs"
    unfolding slow_downs_Cons[of r rs] by (simp add: algebra_simps)
  have p: "twitch_poll unit deadline interval ((r # rs) @ rest) v =
      (case twitch_poll unit deadline (interval + 5 * unit * slow_downs [r]) (rs @ rest) v of (ws, res) \<Rightarrow> (interval # ws, res))"
    using retried_round[of deadline r unit interval v] Cons.prems by simp
  have ih: "\<forall>r \<in> set rs. retried deadline r" using Cons.prems by simp
  show ?case
    unfolding p m i Cons.IH[OF ih]
    by (simp add: Let_def split_beta)
qed

lemma poll_ends:
  assumes "\<forall>r \<in> set rs. retried deadline r" "\<not> retried deadline r"
  shows "snd (twitch_poll unit deadline interval (rs @ r # rest) v) = poll_round_do unit deadline 0 r v"
proof -
  have e: "\<exists>st login err v'. poll_round_do unit deadline 0 r v = (Ended st login err, v')"
    using assms(2) by (cases "po_answer r"; auto simp: poll_round_do_def retried_def split: poll_error.splits prod.splits sum.splits)
  have "poll_round_do unit deadline i r v = poll_round_do unit deadline 0 r v" for i
    using assms(2) by (cases "po_answer r"; auto simp: poll_round_do_def retried_def split: poll_error.splits)
  then have "snd (twitch_poll unit deadline i (r # rest) v) = poll_round_do unit deadline 0 r v" for i
    using e by auto
  then show ?thesis unfolding poll_retries[OF assms(1)] by (simp add: Let_def split_beta)
qed

end
