(* ===== verification/Spec2Isabelle.thy ===== *)
theory Spec2Isabelle
  imports Engine Pipeline Ulid Governor Adaptive Command Dispatch Chat_Filter Segment Emotes Badges Irc
    Scrollback Held Stats_Agg Store_Laws Logbook Velocity Moments Hub
    Profiles Twitch_Shard Twitch_Adapter Twitch_EventSub Webhook Api_Surface Plugin_Hooks Llm_Meter Kick_Adapter Youtube_Adapter Auth_Sessions
begin

text \<open>
  Virta is a daemon that reads the live chat of several streaming platforms and serves it to its
  frontends as one feed. This library models the Go code under \<^verbatim>\<open>src/internal\<close> that carries the feed and
  proves what makes it correct.

  \<^bold>\<open>How the parts interact.\<close> Platform adapters send events to the \<^emph>\<open>engine\<close>, which gives every message an id,
  resolves deletions to those ids, flags first messages and, while logging is off, marks messages
  ephemeral. It submits them to the \<^emph>\<open>pipeline\<close>: one dispatcher runs the annotation stages (filter, emotes, badges,
  velocity) in order and fans each event out to bounded rings, one per sink, emptied by one
  worker each. The sinks are the logbook, scrollback, held queue, statistics, moment detector and the
  WebSocket hub. In the other direction typed input goes through the command parser and the
  dispatcher to the rate-limit governor, which releases sends to the adapters. The profile manager switches the
  joined channels, the filter rules and the logging policy together. The Twitch adapter reads each channel over
  one of several IRC connections or, signed in, over EventSub, and drops what arrives over both; the Kick adapter reads
  all its chatrooms over one connection, the YouTube adapter polls each channel. Beside the feed stand
  the outgoing webhooks, the plugin registry with its bridge, and the API with its tokens.

  \<^bold>\<open>Theories.\<close>
  \<^item> \<open>Virta_Prelude\<close>: list, map and folding lemmas, the locales of bounded queues and rings, the collections of
    simplification rules. \<open>Go_Values\<close>: what the code uses of Go's strings, times, durations and int64 arithmetic,
    wrap-around written out. \<open>Go_Float\<close>: float64 as rationals rounded after each operation.
  \<^item> \<open>Platform\<close> (\<^verbatim>\<open>platform/port.go\<close>): messages, events, channel references, capabilities.
  \<^item> \<open>Ulid\<close> (\<^verbatim>\<open>id/id.go\<close>): ids are 26 characters, increase strictly while the clock does not step back, and
    the encoding keeps the byte order.
  \<^item> \<open>Engine\<close> (\<^verbatim>\<open>engine/engine.go, idmap.go\<close>): one event out per event in, in order; deletions resolve to the id of
    the message while the bounded id map holds it; one first message per chatter; the channel listing.
  \<^item> \<open>Pipeline\<close> (\<^verbatim>\<open>pipeline/runner.go\<close>): the goroutines as a step relation; by rule induction, every sink sees
    a subsequence of what was dispatched, and each event is seen, waiting, or counted as dropped. The locale
    \<open>annotation_stage\<close> is the contract of a stage; every stage of the library interprets it.
  \<^item> \<open>Governor\<close>, \<open>Adaptive\<close> (\<^verbatim>\<open>ratelimit/\<close>): first-in first-out, nothing lost, bounded bursts, progress; limits
    stay between the floor and the configured ones whatever the platform answers.
  \<^item> \<open>Command\<close>, \<open>Dispatch\<close> (\<^verbatim>\<open>command/command.go, dispatch/dispatch.go\<close>): what each input parses to and which single
    effect it has.
  \<^item> \<open>Chat_Filter\<close>, \<open>Segment\<close>, \<open>Emotes\<close>, \<open>Badges\<close>, \<open>Velocity\<close> (\<^verbatim>\<open>filter/, platform/segment/, emotes/, badges/, velocity/\<close>): masking hides exactly
    the matched bytes, segmenting and emote resolution keep the text, sampling spares the priority messages.
  \<^item> \<open>Irc\<close> (\<^verbatim>\<open>platform/twitch/irc.go\<close>): parsing inverts printing.
  \<^item> \<open>Scrollback\<close>, \<open>Held\<close>, \<open>Rolling\<close>, \<open>Stats_Agg\<close> (\<^verbatim>\<open>scrollback/, held/, stats/\<close>): ring contents equal the tail of the history; the held
    queue refines a list; the incremental statistics equal those computed from the messages. \<open>Rolling\<close> is the
    window of per-second buckets the statistics share.
  \<^item> \<open>Store\<close>, \<open>Store_Laws\<close> (\<^verbatim>\<open>store/port.go, port_fake.go\<close>): the repositories; indexes agree with records after any
    calls, and paging enumerates each listing once. \<open>Logbook\<close> (\<^verbatim>\<open>logbook/\<close>): nothing lost between the sink
    and the store, exact retention.
  \<^item> \<open>Moments\<close> (\<^verbatim>\<open>moments/moments.go\<close>): every stored moment is a spike over the baseline with a bounded excerpt.
  \<^item> \<open>Hub\<close> (\<^verbatim>\<open>api/hub.go\<close>, parts of \<^verbatim>\<open>stream.go\<close> and \<^verbatim>\<open>held.go\<close>): a slow client loses only its own oldest events; a client that
    resumes gets what it missed.
  \<^item> \<open>Profiles\<close> (\<^verbatim>\<open>profiles/doc.go, manager.go\<close>, \<open>loggingControl\<close> of \<^verbatim>\<open>app/wire.go\<close>): a switch changes exactly the difference; edits
    survive a restart.
  \<^item> \<open>Twitch_Normalize\<close>, \<open>Twitch_Shard\<close>, \<open>Twitch_Adapter\<close> (\<^verbatim>\<open>platform/twitch/normalize.go, events.go, shard.go, backoff.go, adapter.go\<close>): what a line
    of IRC becomes; one connection as a step relation over its goroutines, which rejoins its channels after every
    reconnect; the spread of channels over connections and the deduplication over transports.
  \<^item> \<open>Http_Calls\<close>, \<open>Twitch_Helix\<close> (\<^verbatim>\<open>helix.go, moderation.go\<close>): requests over an arbitrary network; a moderation action does what it
    says or reports an error. \<open>Twitch_EventSub_Normalize\<close>, \<open>Twitch_EventSub\<close> (\<^verbatim>\<open>eventsub*.go\<close>): both transports give the same segments;
    the supervisor as a machine driven by arbitrary events, with the three races that can leave a channel unread.
  \<^item> \<open>Kick_Normalize\<close>, \<open>Kick_Client\<close>, \<open>Kick_Adapter\<close> (\<^verbatim>\<open>platform/kick/\<close>): the segments of a message are its content; the breaker
    spares a blocked endpoint; one moderation request or an error; the one connection as a step relation, which subscribes
    every chatroom again after a reconnect.
  \<^item> \<open>Youtube_Normalize\<close>, \<open>Youtube_Adapter\<close> (\<^verbatim>\<open>platform/youtube/\<close>): a message shows its runs; one polling worker per joined channel, which
    never ends by itself and sends exactly what was answered.
  \<^item> \<open>Llm_Meter\<close> (\<^verbatim>\<open>llm/meter.go, registry.go\<close>): no model call passes a closed switch or a used-up budget, and spending exceeds a
    limit by one call at most.
  \<^item> \<open>Token_Refresh\<close>, \<open>Auth_Sessions\<close> (\<^verbatim>\<open>auth/kick, auth/twitch\<close>): goroutines that refresh the tokens of one account take turns and spend
    each single-use token once; a Kick session redeems one code; the Twitch polling loop waits as it is told.
  \<^item> \<open>Go_Encoding\<close>, \<open>Webhook\<close> (\<^verbatim>\<open>webhook/webhook.go\<close>): deliveries retry a bounded number of times and stay in order, the
    registry never stops a worker twice within its contract.
  \<^item> \<open>Api_Tokens\<close>, \<open>Api_Surface\<close> (\<^verbatim>\<open>api/tokens.go, tokenstore.go, server.go\<close>): the scope check refines a table of live tokens, given
    that the digest has no collisions; every route outside the public ones needs a token.
  \<^item> \<open>Plugins\<close>, \<open>Plugin_Hooks\<close> (\<^verbatim>\<open>plugin/host/manifest.go, registry.go, filestore.go, app/plugin_control.go, api/plugin_hook.go, plugin_signal.go\<close>):
    the registry is restored at a restart, the bridge stays within the declared endpoints.
  \<^item> This theory: logging off, from the engine through the pipeline to the store, writes no message.

  \<^bold>\<open>Conventions.\<close> A struct is a record, with the fields the model needs of it; a mutex section is one
  step. A Go map whose order the code observes by ranging over it is an association list, one only looked up
  is a map; theorems that depend on an order say so. Strings are byte lists; lower-casing is the ASCII part of Go's.
  Clocks, id generators, entropy, regular expressions, the Unicode letter table, JSON and the adapters are
  arguments. Numbers the code keeps in int64 are integers with \<open>wrap64\<close> where they can overflow. Every loop
  of the modelled code is structural or has a termination proof; the one fuel argument is that of \<open>read_pages\<close> in
  \<open>Store_Laws\<close>, a reader of all pages of a listing, and more than the number of entries is proved to be enough.

  \<^bold>\<open>Not modelled.\<close> The SQL stores (database code), the sockets of the adapters, OBS, hosted mode, plugin
  runtimes, search and the language-model clients (network I/O around remote services), most HTTP handlers, the terminal
  and web frontends, process start-up. Logging, timers and tickers are left out: what a ticker calls is an operation of the model.
\<close>

subsection \<open>Logging off means nothing is stored\<close>

definition unlogged :: "Event \<Rightarrow> bool" where
  "unlogged ev = (case ev of MessageEvent m \<Rightarrow> um_Ephemeral m | _ \<Rightarrow> True)"

lemma unlogged_core: "ev_core ev' = ev_core ev \<Longrightarrow> unlogged ev \<Longrightarrow> unlogged ev'"
  by (cases ev; cases ev') (auto simp: ev_core_def unlogged_def dest: arg_cong [of _ _ um_Ephemeral])

lemma relayed_unlogged: "relayed False ev ev' \<Longrightarrow> unlogged ev'"
  by (cases "(False, ev, ev')" rule: relayed.cases) (auto simp: unlogged_def)

lemma process_unlogged:
  assumes "\<forall>st \<in> set (rn_stages r). annotation_stage st" "\<forall>ev \<in> set (rn_fanout r). unlogged ev" "unlogged ev"
  shows "(\<forall>x \<in> set (rn_fanout (process now ev r)). unlogged x) \<and> rn_stages (process now ev r) = rn_stages r"
proof (rule process_cases [OF assms(1), of now ev])
  fix r'
  assume "process now ev r = r'" "rn_fanout r' = rn_fanout r" "rn_stages r' = rn_stages r"
  then show ?thesis using assms(2) by simp
next
  fix ev' r'
  assume "process now ev r = fan_out ev' r'" "ev_core ev' = ev_core ev" "rn_fanout r' = rn_fanout r" "rn_stages r' = rn_stages r"
  then show ?thesis using assms(2) unlogged_core [OF _ assms(3)] by (simp add: fan_out_def)
qed

lemma processes_unlogged:
  "\<forall>st \<in> set (rn_stages r). annotation_stage st \<Longrightarrow> \<forall>ev \<in> set (rn_fanout r). unlogged ev \<Longrightarrow>
    \<forall>ev \<in> set evs. unlogged ev \<Longrightarrow> \<forall>x \<in> set (rn_fanout (fold (process now) evs r)). unlogged x"
proof (induction evs arbitrary: r)
  case (Cons ev evs)
  have "(\<forall>x \<in> set (rn_fanout (process now ev r)). unlogged x) \<and> rn_stages (process now ev r) = rn_stages r"
    by (rule process_unlogged) (use Cons.prems in simp_all)
  then have "\<forall>x \<in> set (rn_fanout (fold (process now) evs (process now ev r))). unlogged x"
    by (intro Cons.IH) (use Cons.prems in simp_all)
  then show ?case by simp
qed simp

lemma Consume_unlogged:
  assumes "log_ok s" "unlogged ev"
  shows "written (log_Consume ev s) = written s \<and> log_ok (log_Consume ev s)"
proof (cases "ls_enabled s \<and> \<not> ls_closed s")
  case True
  have "logged ev = []" using assms(2) by (cases ev) (auto simp: unlogged_def)
  then show ?thesis using log_Consume_written [OF assms(1)] True by simp
qed (use assms(1) in \<open>auto simp: log_Consume_def\<close>)

lemma Consumes_unlogged:
  "log_ok s \<Longrightarrow> \<forall>ev \<in> set evs. unlogged ev \<Longrightarrow>
    written (fold log_Consume evs s) = written s \<and> log_ok (fold log_Consume evs s)"
  by (induction evs arbitrary: s) (simp_all add: Consume_unlogged)

text \<open>
  C2. Logging off means nothing is stored, end to end: the events an engine with logging off submits
  for whatever its adapters send, dispatched through any pipeline of annotation stages (all of them
  are, by the interpretations of the filter, emote, badge and velocity stages) and consumed by the
  logbook in any order and selection, even one whose own switch is still on, leave the stored
  messages as they were, deletion marks aside, after a final flush too.
\<close>

theorem logging_off_stores_nothing:
  assumes "\<not> eg_logging e" "eg_out (forward new evs e) = eg_out e @ outs"
    and "\<forall>st \<in> set (rn_stages r). annotation_stage st" "rn_fanout r = []"
    and "set cs \<subseteq> set (rn_fanout (fold (process now) outs r))" "ls_buf s = []"
  shows "map undeleted (me_messages (ls_store (log_flush (fold log_Consume cs s)))) = map undeleted (me_messages (ls_store s))"
proof -
  have "list_all2 (relayed False) evs outs" using forward_out [of new evs e] assms(1,2) by auto
  then have "\<forall>ev \<in> set outs. unlogged ev" by (metis in_set_conv_nth list_all2_conv_all_nth relayed_unlogged)
  then have "\<forall>ev \<in> set cs. unlogged ev" using processes_unlogged [OF assms(3), of outs now] assms(4,5) by auto
  moreover have "log_ok s" using assms(6) by (simp add: log_ok_def)
  ultimately have "written (fold log_Consume cs s) = written s" "log_ok (fold log_Consume cs s)"
    using Consumes_unlogged [of s cs] by simp_all
  then have "written (log_flush (fold log_Consume cs s)) = written s" "ls_buf (log_flush (fold log_Consume cs s)) = []"
    using log_flush_written by simp_all
  then show ?thesis using assms(6) by (simp add: written_def)
qed

theorem logging_off_stores_nothing_witness:
  "\<exists>outs. eg_out (forward (\<lambda>g. (''01'', g)) [MessageEvent (chat_message (twitch_channel ''v'') ''p'' ''ann'' ''hi'')] (New ())) = outs
    \<and> length outs = 1
    \<and> me_messages (ls_store (log_flush (fold log_Consume
        (rn_fanout (fold (process 1) outs (NewRunner [filter_stage (\<lambda>_. False)] [] [] 0 0)))
        (SetEnabled True (NewSink NewMemory))))) = []"
proof -
  let ?evs = "[MessageEvent (chat_message (twitch_channel ''v'') ''p'' ''ann'' ''hi'')]"
  let ?r = "NewRunner [filter_stage (\<lambda>_. False)] [] [] 0 0" and ?s = "SetEnabled True (NewSink NewMemory)"
  obtain outs where outs: "eg_out (forward (\<lambda>g. (''01'', g)) ?evs (New ())) = eg_out (New ()) @ outs" "length outs = 1"
    using forward_out [of "\<lambda>g. (''01'', g)" ?evs "New ()"] by (auto dest: list_all2_lengthD)
  have "map undeleted (me_messages (ls_store (log_flush (fold log_Consume (rn_fanout (fold (process 1) outs ?r)) ?s)))) =
      map undeleted (me_messages (ls_store ?s))"
    by (rule logging_off_stores_nothing [OF _ outs(1), where r = ?r and now = 1])
      (simp_all add: New_def NewRunner_def SetEnabled_def NewSink_def Let_def filter_ok.annotation_stage_axioms)
  then show ?thesis using outs by (simp add: New_def SetEnabled_def NewSink_def NewMemory_def)
qed

end
